(* ===== verification/Prelude.thy ===== *)
theory Prelude
  imports Main "HOL-Library.Word"
begin

text \<open>
  Shared vocabulary of the development: the C integer types of the code as words, the
  character constants of the source as bytes, results that carry an error, and the generic
  facts on lists, sums and words that the component theories use.

  A C pointer that only walks forward over an input (\<open>const char* ptr\<close> with an \<open>end\<close>) is
  the list of the bytes from \<open>ptr\<close> up to \<open>end\<close>; \<open>ptr == end\<close> is the empty list and
  \<open>ptr++\<close> drops the head. A pointer that only appends to an output is the list of bytes
  written so far.
\<close>

unbundle bit_operations_syntax

section \<open>Machine integers\<close>

type_synonym byte = "8 word"
type_synonym u16 = "16 word"
type_synonym u32 = "32 word"
type_synonym u64 = "64 word"

abbreviation chr :: "char \<Rightarrow> byte" where
  "chr c \<equiv> of_char c"

text \<open>The value of a \<open>char\<close> after integer promotion (\<open>char\<close> is signed on the modelled ABI).\<close>

abbreviation schar :: "byte \<Rightarrow> int" where
  "schar b \<equiv> sint b"

section \<open>Results with an error\<close>

definition res_bind :: "'e + 'a \<Rightarrow> ('a \<Rightarrow> 'e + 'b) \<Rightarrow> 'e + 'b" where
  "res_bind x f = (case x of Inl e \<Rightarrow> Inl e | Inr a \<Rightarrow> f a)"

lemma res_bind_simps [simp]:
  "res_bind (Inl e) f = Inl e"
  "res_bind (Inr a) f = f a"
  by (simp_all add: res_bind_def)

lemma res_bind_Inr_iff: "res_bind x f = Inr b \<longleftrightarrow> (\<exists>a. x = Inr a \<and> f a = Inr b)"
  by (cases x) auto

lemma res_bind_cong [fundef_cong]:
  "x = y \<Longrightarrow> (\<And>a. y = Inr a \<Longrightarrow> f a = g a) \<Longrightarrow> res_bind x f = res_bind y g"
  by (cases y) auto

text \<open>A loop over a list whose body may fail.\<close>

fun fold_res :: "('b \<Rightarrow> 'a \<Rightarrow> 'e + 'a) \<Rightarrow> 'b list \<Rightarrow> 'a \<Rightarrow> 'e + 'a" where
  "fold_res f [] s = Inr s"
| "fold_res f (x # xs) s = res_bind (f x s) (fold_res f xs)"

text \<open>
  The ways a call of the C code can fail to give a result: a \<open>NULL\<close> return, a violated
  \<open>HPB_ASSERT\<close> (which aborts a debug build and is not evaluated in a release build), and an
  access outside an array.
\<close>

datatype c_fail = NullPtr | AssertFail | OutOfBounds

text \<open>A read of a C array at an index.\<close>

definition array_get :: "'a list \<Rightarrow> nat \<Rightarrow> c_fail + 'a" where
  "array_get xs i = (if i < length xs then Inr (xs ! i) else Inl OutOfBounds)"

lemma array_get_Inr [simp]: "i < length xs \<Longrightarrow> array_get xs i = Inr (xs ! i)"
  by (simp add: array_get_def)

section \<open>Generic facts\<close>

text \<open>Updating the elements of a list at a set of indices.\<close>

definition upd_at :: "nat set \<Rightarrow> ('a \<Rightarrow> 'a) \<Rightarrow> 'a list \<Rightarrow> 'a list" where
  "upd_at S g xs = map (\<lambda>j. if j \<in> S then g (xs ! j) else xs ! j) [0..<length xs]"

lemma length_upd_at [simp]: "length (upd_at S g xs) = length xs"
  by (simp add: upd_at_def)

lemma nth_upd_at [simp]:
  "j < length xs \<Longrightarrow> upd_at S g xs ! j = (if j \<in> S then g (xs ! j) else xs ! j)"
  by (simp add: upd_at_def)

lemma upd_at_empty [simp]: "upd_at {} g xs = xs"
  by (rule nth_equalityI) simp_all

lemma upd_at_singleton: "i < length xs \<Longrightarrow> upd_at {i} g xs = xs[i := g (xs ! i)]"
  by (rule nth_equalityI) (simp_all add: nth_list_update)

lemma upd_at_insert:
  "i < length xs \<Longrightarrow> i \<notin> S \<Longrightarrow> upd_at S g (xs[i := g (xs ! i)]) = upd_at (insert i S) g xs"
  by (rule nth_equalityI) (auto simp: nth_list_update)

named_theorems word_bounds \<open>bounds on the natural value of a word expression\<close>

lemma takeWhile_dropWhile_step:
  "takeWhile P (x # xs) = (if P x then x # takeWhile P xs else [])"
  "dropWhile P (x # xs) = (if P x then dropWhile P xs else x # xs)"
  by simp_all

lemma strict_sorted_snoc:
  fixes v :: "'a::order"
  shows "sorted_wrt (<) xs \<Longrightarrow> (xs \<noteq> [] \<longrightarrow> last xs < v) \<Longrightarrow> sorted_wrt (<) (xs @ [v])"
  by (cases xs rule: rev_cases) (auto simp: sorted_wrt_append)

lemma unat_and_mask_bound [word_bounds]:
  fixes x :: "'a::len word"
  shows "unat (x AND mask n) < 2 ^ n"
proof -
  have "unat (x AND mask n) = take_bit n (unat x)"
    by (simp add: take_bit_eq_mask [symmetric] unsigned_take_bit_eq)
  then show ?thesis
    by simp
qed

lemma unat_drop_bit_div:
  fixes x :: "'a::len word"
  shows "unat (drop_bit n x) = unat x div 2 ^ n"
proof -
  have "take_bit LENGTH('a) (unat x) = unat x"
    by (simp add: take_bit_nat_eq_self)
  then show ?thesis
    by (metis drop_bit_eq_div unsigned_drop_bit_eq)
qed

lemma drop_bit_less_nonzero:
  fixes v :: "'a::len word"
  assumes "v \<noteq> 0" and "0 < n"
  shows "unat (drop_bit n v) < unat v"
proof -
  have "0 < unat v"
    using assms(1) by (simp add: unat_gt_0)
  moreover have "(1 :: nat) < 2 ^ n"
    using assms(2) one_less_power [of "2 :: nat" n] by simp
  ultimately show ?thesis
    by (simp add: unat_drop_bit_div)
qed

lemma unat_ucast_mod:
  fixes w :: "'a::len word"
  shows "unat (ucast w :: 'b::len word) = unat w mod 2 ^ LENGTH('b)"
  by (simp add: unsigned_ucast_eq take_bit_eq_mod)

lemma unat_ucast_small:
  fixes w :: "'a::len word"
  assumes "unat w < 2 ^ LENGTH('b)"
  shows "unat (ucast w :: 'b::len word) = unat w"
  using assms by (simp add: unat_ucast_mod)

lemma unat_minus_1: "unat (- 1 :: 'a::len word) = 2 ^ LENGTH('a) - 1"
  by (simp add: unsigned_minus_1_eq_mask mask_eq_exp_minus_1)

lemma unat_and_mask: "unat (x AND mask n) = unat x mod 2 ^ n" for x :: "'a::len word"
  by (simp add: take_bit_eq_mask [symmetric] unsigned_take_bit_eq
      take_bit_eq_mod [of n "unat x"])

lemma or_disjoint_nat:
  fixes m c :: nat
  assumes "m < 2 ^ k"
  shows "m OR c * 2 ^ k = m + c * 2 ^ k"
proof -
  have m: "take_bit k m = m"
    using assms by (simp add: take_bit_nat_eq_self_iff)
  have "m AND push_bit k c = 0"
  proof (rule bit_eqI)
    fix n
    show "bit (m AND push_bit k c) n = bit 0 n"
      by (subst m [symmetric]) (auto simp: bit_and_iff bit_take_bit_iff bit_push_bit_iff_nat)
  qed
  then show ?thesis
    using disjunctive_add_eq_or [of m "push_bit k c"] by (simp add: push_bit_eq_mult)
qed

lemma or_less_exp_nat:
  fixes a b :: nat
  assumes "a < 2 ^ n" and "b < 2 ^ n"
  shows "a OR b < 2 ^ n"
proof -
  have "take_bit n (a OR b) = a OR b"
    using assms by (simp add: take_bit_or take_bit_nat_eq_self)
  then show ?thesis
    by (metis take_bit_nat_less_exp)
qed

lemma unat_or_less_exp [word_bounds]:
  fixes a b :: "'a::len word"
  shows "unat a < 2 ^ n \<Longrightarrow> unat b < 2 ^ n \<Longrightarrow> unat (a OR b) < 2 ^ n"
  by (simp add: unsigned_or_eq or_less_exp_nat)

lemma unat_exp_2: "n < LENGTH('a) \<Longrightarrow> unat (2 ^ n :: 'a::len word) = 2 ^ n"
  using unat_of_nat [of "2 ^ n", where 'a = 'a] by simp

lemma unat_push_bit_one: "n < LENGTH('a) \<Longrightarrow> unat (push_bit n 1 :: 'a::len word) = 2 ^ n"
  by (simp add: unat_exp_2)

section \<open>Signed bytes\<close>

lemma uint_byte_bounds: "0 \<le> uint (b :: byte)" "uint (b :: byte) < 256"
  using uint_lt2p [of b] by simp_all

lemma mod_shift:
  fixes x :: int
  assumes "0 \<le> x + k * m" and "x + k * m < m"
  shows "x mod m = x + k * m"
  using assms by (metis mod_mult_self1 mod_pos_pos_trivial)

lemma sint_byte: "sint (b :: byte) = (if uint b < 128 then uint b else uint b - 256)"
proof -
  have "sint b = (uint b + 128) mod 256 - 128"
    by (simp add: sint_uint signed_take_bit_eq_take_bit_shift take_bit_eq_mod)
  moreover have "(uint b + 128) mod 256 = (if uint b < 128 then uint b + 128 else uint b - 128)"
    using uint_byte_bounds [of b] mod_shift [of "uint b + 128" 0 256]
      mod_shift [of "uint b + 128" "- 1" 256] by auto
  ultimately show ?thesis by simp
qed

lemma schar_range: "- 128 \<le> sint (b :: byte)" "sint (b :: byte) \<le> 127"
  using sint_greater_eq [of b] sint_less [of b] by simp_all

lemma uint_scast_byte_diff:
  fixes b :: byte
  shows "uint (scast b - word_of_int k :: u32) = (sint b - k) mod 2 ^ 32"
proof -
  have "(scast b - word_of_int k :: u32) = word_of_int (sint b - k)"
    unfolding scast_eq by (rule wi_hom_sub)
  then show ?thesis
    by (simp only: uint_word_of_int) simp
qed

end
