(* ===== verification/Lex.thy ===== *)
theory Lex
  imports Prelude
begin

text \<open>
  The lexing helpers of \<open>src/hpb/lex\<close> and \<open>src/hpb/base/internal/log2.h\<close>: decimal integer
  parsing with overflow detection (\<open>atoi.c\<close>), UTF-8 encoding and UTF-16 surrogate arithmetic
  (\<open>unicode.c\<close>, \<open>unicode.h\<close>), and the ceiling of the binary logarithm.
\<close>

section \<open>Ceiling of the binary logarithm\<close>

text \<open>\<open>__builtin_clz\<close>: the number of leading zero bits of a 32-bit word.\<close>

fun clz_from :: "u32 \<Rightarrow> nat \<Rightarrow> int" where
  "clz_from w 0 = 0"
| "clz_from w (Suc n) = (if bit w n then 0 else 1 + clz_from w n)"

definition builtin_clz :: "u32 \<Rightarrow> int" where
  "builtin_clz w = clz_from w 32"

definition hpb_Log2Ceiling :: "int \<Rightarrow> int" where
  "hpb_Log2Ceiling x = (if x \<le> 1 then 0 else 32 - builtin_clz (word_of_int (x - 1)))"

text \<open>The portable variant of the same function (the branch without \<open>__GNUC__\<close>).\<close>

function hpb_Log2Ceiling_loop :: "nat \<Rightarrow> int \<Rightarrow> int" where
  "hpb_Log2Ceiling_loop lg2 x =
     (if 2 ^ lg2 < x then hpb_Log2Ceiling_loop (Suc lg2) x else int lg2)"
  by pat_completeness auto
termination
proof (relation "measure (\<lambda>(lg2, x). nat x - 2 ^ lg2)")
  fix lg2 :: nat and x :: int
  assume "2 ^ lg2 < x"
  then have "2 ^ lg2 < nat x"
    by (simp add: nat_less_iff zless_nat_eq_int_zless)
  then have "nat x - 2 ^ Suc lg2 < nat x - 2 ^ lg2"
    by (intro diff_less_mono2) simp_all
  then show "((Suc lg2, x), lg2, x) \<in> measure (\<lambda>(lg2, x). nat x - 2 ^ lg2)"
    by simp
qed simp

declare hpb_Log2Ceiling_loop.simps [simp del]

definition hpb_Log2Ceiling_portable :: "int \<Rightarrow> int" where
  "hpb_Log2Ceiling_portable x = (if x \<le> 1 then 0 else hpb_Log2Ceiling_loop 0 x)"

definition hpb_Log2CeilingSize :: "int \<Rightarrow> int" where
  "hpb_Log2CeilingSize x = 2 ^ nat (hpb_Log2Ceiling x)"

section \<open>Decimal integers\<close>

fun hpb_BufToUint64_loop :: "byte list \<Rightarrow> u64 \<Rightarrow> (byte list \<times> u64) option" where
  "hpb_BufToUint64_loop [] u64 = Some ([], u64)"
| "hpb_BufToUint64_loop (p # ptr) u64 =
     (let ch = scast p - 48 :: u32 in
      if ch \<ge> 10 then Some (p # ptr, u64)
      else if u64 > (- 1) div 10 \<or> u64 * 10 > (- 1) - ucast ch then None
      else hpb_BufToUint64_loop ptr (u64 * 10 + ucast ch))"

definition hpb_BufToUint64 :: "byte list \<Rightarrow> (byte list \<times> u64) option" where
  "hpb_BufToUint64 ptr = hpb_BufToUint64_loop ptr 0"

definition INT64_MAX :: u64 where
  "INT64_MAX = 0x7fffffffffffffff"

text \<open>The result is the rest of the input, the value and the sign flag; \<open>None\<close> is \<open>NULL\<close>.\<close>

definition hpb_BufToInt64 :: "byte list \<Rightarrow> (byte list \<times> u64 \<times> bool) option" where
  "hpb_BufToInt64 ptr =
     (let neg = (ptr \<noteq> [] \<and> hd ptr = chr CHR ''-'');
          ptr1 = (if neg then tl ptr else ptr)
      in case hpb_BufToUint64 ptr1 of
           None \<Rightarrow> None
         | Some (ptr2, u64) \<Rightarrow>
             if u64 > INT64_MAX + of_bool neg then None
             else Some (ptr2, (if neg then - u64 else u64), neg))"

section \<open>Unicode\<close>

definition hpb_Unicode_IsHigh :: "u32 \<Rightarrow> bool" where
  "hpb_Unicode_IsHigh cp \<longleftrightarrow> cp \<ge> 0xd800 \<and> cp \<le> 0xdbff"

definition hpb_Unicode_IsLow :: "u32 \<Rightarrow> bool" where
  "hpb_Unicode_IsLow cp \<longleftrightarrow> cp \<ge> 0xdc00 \<and> cp \<le> 0xdfff"

definition hpb_Unicode_ToHigh :: "u32 \<Rightarrow> u16" where
  "hpb_Unicode_ToHigh cp = ucast (drop_bit 10 cp + 0xd7c0)"

definition hpb_Unicode_ToLow :: "u32 \<Rightarrow> u16" where
  "hpb_Unicode_ToLow cp = ucast ((cp AND 0x3ff) OR 0xdc00)"

definition hpb_Unicode_FromPair :: "u32 \<Rightarrow> u32 \<Rightarrow> u32" where
  "hpb_Unicode_FromPair high low = push_bit 10 (high AND 0x3ff) + (low AND 0x3ff) + 0x10000"

text \<open>The bytes written to \<open>out\<close>; their number is the C function's return value.\<close>

definition hpb_Unicode_ToUTF8 :: "u32 \<Rightarrow> byte list" where
  "hpb_Unicode_ToUTF8 cp =
     (if cp \<le> 0x7f then [ucast cp]
      else if cp \<le> 0x07ff then
        [ucast (drop_bit 6 cp OR 0xc0), ucast ((cp AND 0x3f) OR 0x80)]
      else if cp \<le> 0xffff then
        [ucast (drop_bit 12 cp OR 0xe0), ucast ((drop_bit 6 cp AND 0x3f) OR 0x80),
         ucast ((cp AND 0x3f) OR 0x80)]
      else if cp \<le> 0x10ffff then
        [ucast (drop_bit 18 cp OR 0xf0), ucast ((drop_bit 12 cp AND 0x3f) OR 0x80),
         ucast ((drop_bit 6 cp AND 0x3f) OR 0x80), ucast ((cp AND 0x3f) OR 0x80)]
      else [])"

section \<open>The logarithm is the least exponent\<close>

lemma clz_from_bounds: "0 \<le> clz_from w n \<and> clz_from w n \<le> int n"
  by (induction n) auto

lemma take_bit_Suc_top:
  fixes w :: u32
  assumes "n < 32"
  shows "take_bit (Suc n) (uint w) = of_bool (bit w n) * 2 ^ n + take_bit n (uint w)"
  using assms
  by (simp add: take_bit_Suc_from_most bit_uint_iff)

lemma clz_from_spec:
  fixes w :: u32
  assumes "n \<le> 32" and "0 < take_bit n (uint w)"
  shows "2 ^ (nat (int n - clz_from w n) - 1) \<le> take_bit n (uint w) \<and>
    take_bit n (uint w) < 2 ^ nat (int n - clz_from w n) \<and> 0 < nat (int n - clz_from w n)"
  using assms
proof (induction n)
  case 0
  then show ?case by simp
next
  case (Suc n)
  have top: "take_bit (Suc n) (uint w) = of_bool (bit w n) * 2 ^ n + take_bit n (uint w)"
    using Suc.prems by (intro take_bit_Suc_top) simp
  show ?case
  proof (cases "bit w n")
    case True
    have "take_bit n (uint w) < 2 ^ n" "0 \<le> take_bit n (uint w)"
      by simp_all
    moreover have "nat (int (Suc n) - clz_from w (Suc n)) = Suc n"
      using True by (simp add: nat_add_distrib)
    ultimately show ?thesis
      using True top by simp
  next
    case False
    have "nat (int (Suc n) - clz_from w (Suc n)) = nat (int n - clz_from w n)"
      using False by simp
    then show ?thesis
      using Suc.IH Suc.prems top False by simp
  qed
qed

lemma hpb_Log2Ceiling_range: "0 \<le> hpb_Log2Ceiling x \<and> hpb_Log2Ceiling x \<le> 32"
  using clz_from_bounds [of "word_of_int (x - 1)" 32]
  by (auto simp: hpb_Log2Ceiling_def builtin_clz_def)

lemma hpb_Log2Ceiling_least:
  assumes "1 < x" and "x \<le> 2 ^ 31"
  shows "x \<le> 2 ^ nat (hpb_Log2Ceiling x) \<and> 2 ^ (nat (hpb_Log2Ceiling x) - 1) < x
    \<and> 0 < nat (hpb_Log2Ceiling x)"
proof -
  let ?w = "word_of_int (x - 1) :: u32"
  have w: "uint ?w = x - 1"
    unfolding uint_word_of_int_eq using assms by (intro take_bit_int_eq_self) simp_all
  then have "take_bit 32 (uint ?w) = x - 1"
    using assms by (simp add: take_bit_int_eq_self_iff)
  moreover from this have "0 < take_bit 32 (uint ?w)"
    using assms by simp
  ultimately show ?thesis
    using clz_from_spec [of 32 ?w] assms
    by (simp add: hpb_Log2Ceiling_def builtin_clz_def)
qed

lemma hpb_Log2Ceiling_loop_least:
  assumes "lg2 = 0 \<or> 2 ^ (lg2 - 1) < x" and "1 < x"
  shows "x \<le> 2 ^ nat (hpb_Log2Ceiling_loop lg2 x) \<and>
    2 ^ (nat (hpb_Log2Ceiling_loop lg2 x) - 1) < x \<and> 0 \<le> hpb_Log2Ceiling_loop lg2 x"
  using assms
proof (induction lg2 x rule: hpb_Log2Ceiling_loop.induct)
  case (1 lg2 x)
  show ?case
  proof (cases "2 ^ lg2 < x")
    case True
    then show ?thesis
      using "1.IH" "1.prems" by (simp add: hpb_Log2Ceiling_loop.simps [of lg2 x])
  next
    case False
    then show ?thesis
      using "1.prems" by (auto simp: hpb_Log2Ceiling_loop.simps [of lg2 x])
  qed
qed

lemma least_exponent_unique:
  fixes x :: int
  assumes "x \<le> 2 ^ i" "2 ^ (i - 1) < x" "x \<le> 2 ^ j" "2 ^ (j - 1) < x" "1 < x"
  shows "i = j"
proof (rule ccontr)
  assume "i \<noteq> j"
  then consider "i \<le> j - 1" | "j \<le> i - 1"
    by arith
  then show False
  proof cases
    case 1
    then have "(2 :: int) ^ i \<le> 2 ^ (j - 1)"
      by (simp add: power_increasing)
    then show False using assms by linarith
  next
    case 2
    then have "(2 :: int) ^ j \<le> 2 ^ (i - 1)"
      by (simp add: power_increasing)
    then show False using assms by linarith
  qed
qed

text \<open>
  The builtin-based and the portable variants of \<open>hpb_Log2Ceiling\<close> return the same
  value, and that value is the least \<open>k\<close> with \<open>x \<le> 2 ^ k\<close>.
\<close>

theorem hpb_Log2Ceiling_correct:
  assumes "x \<le> 2 ^ 30"
  shows "hpb_Log2Ceiling x = hpb_Log2Ceiling_portable x \<and>
    hpb_Log2Ceiling x = int (LEAST k. x \<le> 2 ^ k)"
proof (cases "x \<le> 1")
  case True
  then have "(LEAST k. x \<le> 2 ^ k) = 0"
    by (intro Least_equality) auto
  then show ?thesis
    using True by (simp add: hpb_Log2Ceiling_def hpb_Log2Ceiling_portable_def)
next
  case False
  let ?k = "nat (hpb_Log2Ceiling x)"
  have k: "x \<le> 2 ^ ?k" "2 ^ (?k - 1) < x" "0 < ?k"
    using hpb_Log2Ceiling_least [of x] assms False by simp_all
  have l: "x \<le> 2 ^ nat (hpb_Log2Ceiling_loop 0 x)" "2 ^ (nat (hpb_Log2Ceiling_loop 0 x) - 1) < x"
    "0 \<le> hpb_Log2Ceiling_loop 0 x"
    using hpb_Log2Ceiling_loop_least [of 0 x] False by simp_all
  have "?k = nat (hpb_Log2Ceiling_loop 0 x)"
    using k l False by (intro least_exponent_unique [of x]) simp_all
  moreover have "(LEAST k. x \<le> 2 ^ k) = ?k"
  proof (rule Least_equality)
    fix j assume j: "x \<le> 2 ^ j"
    show "?k \<le> j"
    proof (rule ccontr)
      assume "\<not> ?k \<le> j"
      then have "(2 :: int) ^ j \<le> 2 ^ (?k - 1)"
        by (intro power_increasing) simp_all
      then show False using j k by linarith
    qed
  qed (rule k(1))
  ultimately show ?thesis
    using False l hpb_Log2Ceiling_range [of x]
    by (simp add: hpb_Log2Ceiling_portable_def eq_nat_nat_iff)
qed

theorem hpb_Log2Ceiling_correct_witness:
  "hpb_Log2Ceiling 31 = hpb_Log2Ceiling_portable 31 \<and>
   hpb_Log2Ceiling 31 = int (LEAST k. (31 :: int) \<le> 2 ^ k)"
  by (rule hpb_Log2Ceiling_correct) simp


section \<open>Decimal parsing\<close>

text \<open>The reference reading: the longest prefix of digits, valued in base ten.\<close>

definition is_digit :: "byte \<Rightarrow> bool" where
  "is_digit b \<longleftrightarrow> 48 \<le> uint b \<and> uint b \<le> 57"

definition dec_value :: "nat \<Rightarrow> byte list \<Rightarrow> nat" where
  "dec_value acc ds = foldl (\<lambda>a d. a * 10 + (unat d - 48)) acc ds"

lemma dec_value_simps [simp]:
  "dec_value acc [] = acc"
  "dec_value acc (d # ds) = dec_value (acc * 10 + (unat d - 48)) ds"
  by (simp_all add: dec_value_def)

lemma dec_value_mono: "acc \<le> dec_value acc ds"
proof (induction ds arbitrary: acc)
  case (Cons d ds)
  have "acc \<le> acc * 10 + (unat d - 48)" by simp
  also have "\<dots> \<le> dec_value (acc * 10 + (unat d - 48)) ds" by (rule Cons.IH)
  finally show ?case by simp
qed simp

lemma digit_char:
  fixes p :: byte
  shows "(10 :: u32) \<le> scast p - 48 \<longleftrightarrow> \<not> is_digit p"
    and "is_digit p \<Longrightarrow> unat (scast p - 48 :: u32) = unat p - 48"
proof -
  have u: "uint (scast p - 48 :: u32) = (sint p - 48) mod 2 ^ 32"
    using uint_scast_byte_diff [of p 48] by simp
  have d: "is_digit p \<longleftrightarrow> 48 \<le> sint p \<and> sint p \<le> 57"
    using uint_byte_bounds [of p] by (auto simp: is_digit_def sint_byte)
  have v: "uint (scast p - 48 :: u32) =
      (if 48 \<le> sint p then sint p - 48 else sint p - 48 + 2 ^ 32)"
    unfolding u
    using schar_range [of p] mod_shift [of "sint p - 48" 0 "2 ^ 32"]
      mod_shift [of "sint p - 48" 1 "2 ^ 32"] by auto
  show "(10 :: u32) \<le> scast p - 48 \<longleftrightarrow> \<not> is_digit p"
    using v schar_range [of p] by (auto simp: word_le_def d)
  show "unat (scast p - 48 :: u32) = unat p - 48" if "is_digit p"
  proof -
    have "uint (scast p - 48 :: u32) = uint p - 48"
      using v that d by (simp add: sint_byte is_digit_def split: if_splits)
    then show ?thesis
      using that unfolding is_digit_def by (metis nat_diff_distrib nat_numeral nat_uint_eq
          zero_le_numeral)
  qed
qed

lemma overflow_check:
  fixes u :: u64 and ch :: u32
  assumes "unat ch \<le> 9"
  shows "u > (- 1) div 10 \<or> u * 10 > (- 1) - ucast ch \<longleftrightarrow> 2 ^ 64 \<le> unat u * 10 + unat ch"
    and "unat u * 10 + unat ch < 2 ^ 64 \<Longrightarrow> unat (u * 10 + ucast ch) = unat u * 10 + unat ch"
proof -
  have c: "unat (ucast ch :: u64) = unat ch"
    using assms by (intro unat_ucast_small) simp
  have m: "unat ((- 1) - ucast ch :: u64) = 2 ^ 64 - 1 - unat ch"
    using assms c by (subst unat_sub) (simp_all add: word_le_nat_alt unat_minus_1)
  have d: "unat ((- 1) div 10 :: u64) = 1844674407370955161"
    by simp
  have mul: "unat (u * 10) = unat u * 10" if "unat u \<le> 1844674407370955161"
    using that by (simp add: unat_word_ariths)
  show "u > (- 1) div 10 \<or> u * 10 > (- 1) - ucast ch \<longleftrightarrow> 2 ^ 64 \<le> unat u * 10 + unat ch"
  proof (cases "unat u \<le> 1844674407370955161")
    case True
    then show ?thesis
      using mul assms by (auto simp: word_less_nat_alt d m)
  next
    case False
    then show ?thesis
      by (simp add: word_less_nat_alt d)
  qed
  show "unat (u * 10 + ucast ch) = unat u * 10 + unat ch" if "unat u * 10 + unat ch < 2 ^ 64"
    using that c by (simp add: unat_word_ariths mod_add_left_eq)
qed

lemma hpb_BufToUint64_loop_eq:
  "hpb_BufToUint64_loop ptr u =
     (let n = dec_value (unat u) (takeWhile is_digit ptr)
      in if n < 2 ^ 64 then Some (dropWhile is_digit ptr, of_nat n) else None)"
proof (induction ptr u rule: hpb_BufToUint64_loop.induct)
  case (1 u)
  then show ?case
    using unsigned_less [of u, where 'a = nat] by simp
next
  case (2 p ptr u)
  let ?ch = "scast p - 48 :: u32"
  show ?case
  proof (cases "is_digit p")
    case False
    then show ?thesis
      using digit_char(1) [of p] unsigned_less [of u, where 'a = nat] by simp
  next
    case True
    then have ch: "unat ?ch = unat p - 48" and le: "unat ?ch \<le> 9" and ge: "\<not> 10 \<le> ?ch"
      using digit_char [of p] by (auto simp: is_digit_def word_le_nat_alt)
    show ?thesis
    proof (cases "2 ^ 64 \<le> unat u * 10 + unat ?ch")
      case big: True
      then have "hpb_BufToUint64_loop (p # ptr) u = None"
        using overflow_check(1) [OF le, of u] ge by (simp add: Let_def)
      moreover have "2 ^ 64 \<le> dec_value (unat u * 10 + (unat p - 48)) (takeWhile is_digit ptr)"
        using big ch dec_value_mono le_trans by metis
      ultimately show ?thesis
        using True by (simp add: Let_def)
    next
      case small: False
      have nov: "\<not> (u > (- 1) div 10 \<or> u * 10 > (- 1) - ucast ?ch)"
        using small overflow_check(1) [OF le, of u] by blast
      then have "hpb_BufToUint64_loop (p # ptr) u = hpb_BufToUint64_loop ptr (u * 10 + ucast ?ch)"
        using ge by (simp add: Let_def)
      moreover have "unat (u * 10 + ucast ?ch) = unat u * 10 + (unat p - 48)"
        using small overflow_check(2) [OF le, of u] ch by simp
      ultimately show ?thesis
        using "2.IH" [OF refl] nov ge True by (simp add: Let_def)
    qed
  qed
qed

lemma hpb_BufToUint64_eq:
  "hpb_BufToUint64 ptr =
     (let n = dec_value 0 (takeWhile is_digit ptr)
      in if n < 2 ^ 64 then Some (dropWhile is_digit ptr, of_nat n) else None)"
  by (simp add: hpb_BufToUint64_def hpb_BufToUint64_loop_eq)

text \<open>
  C30: \<open>hpb_BufToUint64\<close> reads the longest prefix of decimal digits. It returns the rest of
  the input and the value of that prefix exactly when the value fits in 64 bits, and \<open>NULL\<close>
  otherwise; the wrap-around of the accumulator is never observed.
\<close>

theorem hpb_BufToUint64_correct:
  "hpb_BufToUint64 ptr =
     (let n = dec_value 0 (takeWhile is_digit ptr)
      in if n < 2 ^ 64 then Some (dropWhile is_digit ptr, of_nat n) else None)"
  by (rule hpb_BufToUint64_eq)

lemma int64_range_check:
  fixes u :: u64
  shows "u > INT64_MAX + of_bool neg \<longleftrightarrow> 2 ^ 63 - 1 + of_bool neg < unat u"
  by (cases neg) (simp_all add: INT64_MAX_def word_less_nat_alt)

text \<open>
  \<open>hpb_BufToInt64\<close> reads an optional minus sign and a decimal number. It returns the
  two's complement word of the signed value exactly when that value is in the range of
  \<open>int64_t\<close>, including the asymmetric minimum, and \<open>NULL\<close> otherwise.
\<close>

theorem hpb_BufToInt64_correct:
  "hpb_BufToInt64 ptr =
     (let neg = (ptr \<noteq> [] \<and> hd ptr = chr CHR ''-'');
          rest = (if neg then tl ptr else ptr);
          n = int (dec_value 0 (takeWhile is_digit rest));
          v = (if neg then - n else n)
      in if - (2 ^ 63) \<le> v \<and> v < 2 ^ 63
         then Some (dropWhile is_digit rest, word_of_int v, neg) else None)"
proof -
  define neg where "neg = (ptr \<noteq> [] \<and> hd ptr = chr CHR ''-'')"
  define rest where "rest = (if neg then tl ptr else ptr)"
  define n where "n = dec_value 0 (takeWhile is_digit rest)"
  define v where "v = (if neg then - int n else int n)"
  have "hpb_BufToInt64 ptr = (if - (2 ^ 63) \<le> v \<and> v < 2 ^ 63
      then Some (dropWhile is_digit rest, word_of_int v, neg) else None)"
  proof (cases "n < 2 ^ 64")
    case True
    then have "unat (of_nat n :: u64) = n"
      by (simp add: unat_of_nat)
    then have "of_nat n > INT64_MAX + of_bool neg \<longleftrightarrow> \<not> (- (2 ^ 63) \<le> v \<and> v < 2 ^ 63)"
      unfolding int64_range_check v_def by (cases neg) auto
    moreover have "(if neg then - of_nat n else of_nat n :: u64) = word_of_int v"
      by (simp add: v_def)
    ultimately show ?thesis
      using True hpb_BufToUint64_eq [of rest]
      unfolding hpb_BufToInt64_def Let_def neg_def [symmetric] rest_def [symmetric]
      by (simp add: n_def [symmetric] Let_def)
  next
    case False
    then have "\<not> (- (2 ^ 63) \<le> v \<and> v < 2 ^ 63)"
      by (auto simp: v_def)
    then show ?thesis
      using False hpb_BufToUint64_eq [of rest]
      unfolding hpb_BufToInt64_def Let_def neg_def [symmetric] rest_def [symmetric]
      by (simp add: n_def [symmetric] Let_def)
  qed
  then show ?thesis
    unfolding Let_def neg_def [symmetric] rest_def [symmetric] n_def [symmetric] v_def [symmetric]
    by simp
qed

section \<open>UTF-8 and surrogates\<close>

text \<open>
  The reference decoder of one UTF-8 sequence, by arithmetic on the byte values: lead bytes
  select the length, continuation bytes carry six bits, and only the shortest form of a number
  up to 0x10ffff is accepted.
\<close>

definition is_cont :: "byte \<Rightarrow> bool" where
  "is_cont b \<longleftrightarrow> 128 \<le> unat b \<and> unat b < 192"

fun utf8_scalar :: "byte list \<Rightarrow> nat option" where
  "utf8_scalar [a] = (if unat a < 128 then Some (unat a) else None)"
| "utf8_scalar [a, b] =
     (let n = (unat a - 192) * 64 + (unat b - 128)
      in if 192 \<le> unat a \<and> unat a < 224 \<and> is_cont b \<and> 128 \<le> n then Some n else None)"
| "utf8_scalar [a, b, c] =
     (let n = (unat a - 224) * 4096 + (unat b - 128) * 64 + (unat c - 128)
      in if 224 \<le> unat a \<and> unat a < 240 \<and> is_cont b \<and> is_cont c \<and> 2048 \<le> n
         then Some n else None)"
| "utf8_scalar [a, b, c, d] =
     (let n = (unat a - 240) * 262144 + (unat b - 128) * 4096 + (unat c - 128) * 64 + (unat d - 128)
      in if 240 \<le> unat a \<and> unat a < 248 \<and> is_cont b \<and> is_cont c \<and> is_cont d
            \<and> 65536 \<le> n \<and> n < 1114112
         then Some n else None)"
| "utf8_scalar _ = None"

text \<open>UTF-8 has no encoding of surrogates: a strict decoder refuses their bytes.\<close>

definition is_surrogate :: "nat \<Rightarrow> bool" where
  "is_surrogate n \<longleftrightarrow> 0xd800 \<le> n \<and> n \<le> 0xdfff"

definition utf8_decode :: "byte list \<Rightarrow> nat option" where
  "utf8_decode bs =
     (case utf8_scalar bs of None \<Rightarrow> None | Some n \<Rightarrow> if is_surrogate n then None else Some n)"

lemma unat_tagged_byte:
  fixes x t :: u32
  assumes "unat x < 2 ^ k" and "unat t = c * 2 ^ k" and "c * 2 ^ k + 2 ^ k \<le> 256"
  shows "unat (ucast (x OR t) :: byte) = unat x + c * 2 ^ k"
proof -
  have "unat (x OR t) = unat x + c * 2 ^ k"
    using or_disjoint_nat [OF assms(1), of c] assms(2) by (simp add: unsigned_or_eq)
  then show ?thesis
    using assms(1,3) by (simp add: unat_ucast_mod)
qed

lemma unat_low6: "unat (x AND 0x3f) = unat x mod 64" for x :: u32
  using unat_and_mask [of x 6] by (simp add: mask_eq_exp_minus_1)

lemma unat_cont_byte: "unat (ucast ((x AND 0x3f) OR 0x80) :: byte) = unat x mod 64 + 128"
  for x :: u32
  using unat_tagged_byte [of "x AND 0x3f" 6 "0x80" 2] by (simp add: unat_low6)

lemmas lead_bytes =
  unat_tagged_byte [of _ 5 "0xc0" 6, simplified]
  unat_tagged_byte [of _ 4 "0xe0" 14, simplified]
  unat_tagged_byte [of _ 3 "0xf0" 30, simplified]

lemma sextets:
  fixes n :: nat
  shows "n div 4096 * 4096 + n div 64 mod 64 * 64 + n mod 64 = n"
    and "n div 262144 * 262144 + n div 4096 mod 64 * 4096 + n div 64 mod 64 * 64 + n mod 64 = n"
proof -
  have 1: "n = n div 64 * 64 + n mod 64" "n div 64 = n div 4096 * 64 + n div 64 mod 64"
    "n div 4096 = n div 262144 * 64 + n div 4096 mod 64"
    using div_mult_mod_eq [of n 64] div_mult_mod_eq [of "n div 64" 64]
      div_mult_mod_eq [of "n div 4096" 64] by (simp_all add: div_mult2_eq [symmetric])
  show "n div 4096 * 4096 + n div 64 mod 64 * 64 + n mod 64 = n"
    using 1(1,2) by linarith
  show "n div 262144 * 262144 + n div 4096 mod 64 * 4096 + n div 64 mod 64 * 64 + n mod 64 = n"
    using 1 by linarith
qed

lemma ToUTF8_scalar:
  "utf8_scalar (hpb_Unicode_ToUTF8 cp) = (if cp \<le> 0x10ffff then Some (unat cp) else None)"
proof -
  consider "unat cp \<le> 0x7f" | "0x7f < unat cp" "unat cp \<le> 0x7ff"
    | "0x7ff < unat cp" "unat cp \<le> 0xffff" | "0xffff < unat cp" "unat cp \<le> 0x10ffff"
    | "0x10ffff < unat cp"
    by linarith
  then show ?thesis
  proof cases
    case 1
    then show ?thesis
      by (simp add: hpb_Unicode_ToUTF8_def word_le_nat_alt unat_ucast_mod)
  next
    case 2
    then show ?thesis
      using lead_bytes(1) [of "drop_bit 6 cp"]
      by (simp add: hpb_Unicode_ToUTF8_def word_le_nat_alt unat_drop_bit_div unat_cont_byte
          is_cont_def Let_def div_mult_mod_eq)
  next
    case 3
    then have "unat cp div 4096 < 16"
      by (simp add: less_mult_imp_div_less)
    with 3 show ?thesis
      using lead_bytes(2) [of "drop_bit 12 cp"] sextets(1) [of "unat cp"]
      by (simp add: hpb_Unicode_ToUTF8_def word_le_nat_alt unat_drop_bit_div unat_cont_byte
          is_cont_def Let_def)
  next
    case 4
    then have "unat cp div 262144 < 8"
      by (simp add: less_mult_imp_div_less)
    with 4 show ?thesis
      using lead_bytes(3) [of "drop_bit 18 cp"] sextets(2) [of "unat cp"]
      by (simp add: hpb_Unicode_ToUTF8_def word_le_nat_alt unat_drop_bit_div unat_cont_byte
          is_cont_def Let_def)
  next
    case 5
    then show ?thesis
      by (simp add: hpb_Unicode_ToUTF8_def word_le_nat_alt)
  qed
qed

text \<open>
  C29: the bytes \<open>_hpb_Unicode_ToUTF8\<close> writes for a code point up to U+10FFFF that is not a
  surrogate are its UTF-8 encoding: the strict reference decoder reads them back to the code
  point. For a surrogate three bytes of the same shape are written, which the strict decoder
  refuses. No byte is written exactly for the values above 0x10ffff.
\<close>

theorem hpb_Unicode_ToUTF8_correct:
  "utf8_decode (hpb_Unicode_ToUTF8 cp) =
     (if cp \<le> 0x10ffff \<and> \<not> is_surrogate (unat cp) then Some (unat cp) else None) \<and>
   utf8_scalar (hpb_Unicode_ToUTF8 cp) = (if cp \<le> 0x10ffff then Some (unat cp) else None) \<and>
   length (hpb_Unicode_ToUTF8 cp) =
     (if cp \<le> 0x7f then 1 else if cp \<le> 0x7ff then 2 else if cp \<le> 0xffff then 3 else if cp \<le> 0x10ffff then 4 else 0)"
  using ToUTF8_scalar [of cp] by (simp add: utf8_decode_def) (simp add: hpb_Unicode_ToUTF8_def)

text \<open>
  For every supplementary code point, \<open>hpb_Unicode_ToHigh\<close> and \<open>hpb_Unicode_ToLow\<close>
  give a high and a low surrogate, and \<open>hpb_Unicode_FromPair\<close> recovers the code point.
\<close>

theorem hpb_Unicode_surrogates_roundtrip:
  assumes "0x10000 \<le> cp" and "cp \<le> 0x10ffff"
  defines "hi \<equiv> ucast (hpb_Unicode_ToHigh cp) :: u32" and "lo \<equiv> ucast (hpb_Unicode_ToLow cp) :: u32"
  shows "hpb_Unicode_IsHigh hi \<and> hpb_Unicode_IsLow lo \<and> hpb_Unicode_FromPair hi lo = cp"
proof -
  define n where "n = unat cp"
  have n: "0x10000 \<le> n" "n \<le> 0x10ffff"
    using assms(1,2) by (simp_all add: n_def word_le_nat_alt)
  have d: "64 \<le> n div 1024" "n div 1024 < 1088"
    using n by (simp_all add: less_mult_imp_div_less div_le_mono [of 65536 n 1024, simplified])
  have sum: "unat (drop_bit 10 cp + 0xd7c0) = n div 1024 + 0xd7c0"
    using d by (simp add: unat_word_ariths unat_drop_bit_div n_def)
  have hi: "unat hi = n div 1024 + 0xd7c0"
    using d sum by (simp add: hi_def hpb_Unicode_ToHigh_def unat_ucast_mod)
  have low: "unat (x AND 0x3ff) = unat x mod 1024" for x :: u32
    using unat_and_mask [of x 10] by (simp add: mask_eq_exp_minus_1)
  have "unat ((cp AND 0x3ff) OR 0xdc00) = n mod 1024 + 0xdc00"
    using or_disjoint_nat [of "n mod 1024" 10 55] by (simp add: unsigned_or_eq low n_def)
  then have lo: "unat lo = n mod 1024 + 0xdc00"
    by (simp add: lo_def hpb_Unicode_ToLow_def unat_ucast_mod)
  have "unat (hi AND 0x3ff) = n div 1024 - 64"
    using d by (simp add: low hi mod_if)
  moreover have "unat (lo AND 0x3ff) = n mod 1024"
    using mod_mult_self1 [of "n mod 1024" 55 1024] by (simp add: low lo)
  moreover have "(n div 1024 - 64) * 1024 + n mod 1024 + 0x10000 = n"
    using d by (simp add: diff_mult_distrib)
  ultimately have "unat (hpb_Unicode_FromPair hi lo) = n"
    using n by (simp add: hpb_Unicode_FromPair_def unat_word_ariths push_bit_eq_mult
        mult.commute)
  then have "hpb_Unicode_FromPair hi lo = cp"
    by (simp add: n_def word_unat_eq_iff)
  moreover have "hpb_Unicode_IsHigh hi" "hpb_Unicode_IsLow lo"
    using hi lo d by (simp_all add: hpb_Unicode_IsHigh_def hpb_Unicode_IsLow_def word_le_nat_alt)
  ultimately show ?thesis
    by blast
qed

theorem hpb_Unicode_surrogates_roundtrip_witness:
  "hpb_Unicode_IsHigh (ucast (hpb_Unicode_ToHigh 0x1f600)) \<and>
   hpb_Unicode_IsLow (ucast (hpb_Unicode_ToLow 0x1f600)) \<and>
   hpb_Unicode_FromPair (ucast (hpb_Unicode_ToHigh 0x1f600)) (ucast (hpb_Unicode_ToLow 0x1f600))
     = 0x1f600"
  by (rule hpb_Unicode_surrogates_roundtrip) simp_all

end
