(* ===== verification/Base92.thy ===== *)
theory Base92
  imports Lex
begin

text \<open>
  The base-92 alphabet of mini descriptors and its variable-length integers:
  \<open>src/hpb/mini_descriptor/internal/base92.c\<close>, \<open>base92.h\<close> and the constants of
  \<open>wire_constants.h\<close>. The locale \<open>base92_range\<close> is the interface between the encoder
  and the decoder: a contiguous range of digits whose size is a power of two.
\<close>

section \<open>Tables and constants\<close>

definition kHpb_ToBase92 :: "byte list" where
  "kHpb_ToBase92 = map chr
     '' !#$%&()*+,-./0123456789:;<=>?@ABCDEFGHIJKLMNOPQRSTUVWXYZ[]^_`abcdefghijklmnopqrstuvwxyz{|}~''"

definition kHpb_FromBase92 :: "int list" where
  "kHpb_FromBase92 =
    [0,  1,  -1, 2,  3,  4,  5,  -1, 6,  7,  8,  9,  10, 11, 12, 13, 14, 15, 16,
     17, 18, 19, 20, 21, 22, 23, 24, 25, 26, 27, 28, 29, 30, 31, 32, 33, 34, 35,
     36, 37, 38, 39, 40, 41, 42, 43, 44, 45, 46, 47, 48, 49, 50, 51, 52, 53, 54,
     55, 56, 57, -1, 58, 59, 60, 61, 62, 63, 64, 65, 66, 67, 68, 69, 70, 71, 72,
     73, 74, 75, 76, 77, 78, 79, 80, 81, 82, 83, 84, 85, 86, 87, 88, 89, 90, 91]"

definition hpb_ToBase92 :: "int \<Rightarrow> c_fail + byte" where
  "hpb_ToBase92 ch = (if 0 \<le> ch \<and> ch < 92 then Inr (kHpb_ToBase92 ! nat ch) else Inl AssertFail)"

definition hpb_FromBase92 :: "byte \<Rightarrow> int" where
  "hpb_FromBase92 ch =
     (if 32 > unat ch \<or> unat ch > 126 then -1 else kHpb_FromBase92 ! (unat ch - 32))"

definition kHpb_EncodedValue_MinField :: byte where
  "kHpb_EncodedValue_MinField = chr CHR '' ''"
definition kHpb_EncodedValue_MaxField :: byte where
  "kHpb_EncodedValue_MaxField = chr CHR ''I''"
definition kHpb_EncodedValue_MinModifier :: byte where
  "kHpb_EncodedValue_MinModifier = chr CHR ''L''"
definition kHpb_EncodedValue_MaxModifier :: byte where
  "kHpb_EncodedValue_MaxModifier = chr CHR ''[''"
definition kHpb_EncodedValue_End :: byte where
  "kHpb_EncodedValue_End = chr CHR ''^''"
definition kHpb_EncodedValue_MinSkip :: byte where
  "kHpb_EncodedValue_MinSkip = chr CHR ''_''"
definition kHpb_EncodedValue_MaxSkip :: byte where
  "kHpb_EncodedValue_MaxSkip = chr CHR ''~''"
definition kHpb_EncodedValue_OneofSeparator :: byte where
  "kHpb_EncodedValue_OneofSeparator = chr CHR ''~''"
definition kHpb_EncodedValue_FieldSeparator :: byte where
  "kHpb_EncodedValue_FieldSeparator = chr CHR ''|''"
definition kHpb_EncodedValue_MinOneofField :: byte where
  "kHpb_EncodedValue_MinOneofField = chr CHR '' ''"
definition kHpb_EncodedValue_MaxOneofField :: byte where
  "kHpb_EncodedValue_MaxOneofField = chr CHR ''b''"
definition kHpb_EncodedValue_MaxEnumMask :: byte where
  "kHpb_EncodedValue_MaxEnumMask = chr CHR ''A''"

definition kHpb_EncodedVersion_EnumV1 :: byte where
  "kHpb_EncodedVersion_EnumV1 = chr CHR ''!''"
definition kHpb_EncodedVersion_ExtensionV1 :: byte where
  "kHpb_EncodedVersion_ExtensionV1 = chr CHR ''#''"
definition kHpb_EncodedVersion_MapV1 :: byte where
  "kHpb_EncodedVersion_MapV1 = chr CHR ''%''"
definition kHpb_EncodedVersion_MessageV1 :: byte where
  "kHpb_EncodedVersion_MessageV1 = chr CHR ''$''"
definition kHpb_EncodedVersion_MessageSetV1 :: byte where
  "kHpb_EncodedVersion_MessageSetV1 = chr CHR ''&''"

lemmas kHpb_EncodedValue_defs =
  kHpb_EncodedValue_MinField_def kHpb_EncodedValue_MaxField_def
  kHpb_EncodedValue_MinModifier_def kHpb_EncodedValue_MaxModifier_def
  kHpb_EncodedValue_End_def kHpb_EncodedValue_MinSkip_def kHpb_EncodedValue_MaxSkip_def
  kHpb_EncodedValue_OneofSeparator_def kHpb_EncodedValue_FieldSeparator_def
  kHpb_EncodedValue_MinOneofField_def kHpb_EncodedValue_MaxOneofField_def
  kHpb_EncodedValue_MaxEnumMask_def
  kHpb_EncodedVersion_EnumV1_def kHpb_EncodedVersion_ExtensionV1_def
  kHpb_EncodedVersion_MapV1_def kHpb_EncodedVersion_MessageV1_def
  kHpb_EncodedVersion_MessageSetV1_def

section \<open>Decoding a variable-length integer\<close>

fun hpb_Base92_DecodeVarint_loop ::
  "byte \<Rightarrow> byte \<Rightarrow> nat \<Rightarrow> byte \<Rightarrow> u32 \<Rightarrow> nat \<Rightarrow> byte list \<Rightarrow> (u32 \<times> byte list) option" where
  "hpb_Base92_DecodeVarint_loop min_ch max_ch bits_per_char ch val shift [] =
     (let bits = word_of_int (hpb_FromBase92 ch - hpb_FromBase92 min_ch)
      in Some (val OR push_bit shift bits, []))"
| "hpb_Base92_DecodeVarint_loop min_ch max_ch bits_per_char ch val shift (c # ptr) =
     (let bits = word_of_int (hpb_FromBase92 ch - hpb_FromBase92 min_ch);
          val = val OR push_bit shift bits
      in if schar c < uint min_ch \<or> uint max_ch < schar c then Some (val, c # ptr)
         else if shift + bits_per_char \<ge> 32 then None
         else hpb_Base92_DecodeVarint_loop min_ch max_ch bits_per_char c val
                (shift + bits_per_char) ptr)"

text \<open>The result is \<open>*out_val\<close> and the returned pointer; \<open>None\<close> is \<open>NULL\<close>.\<close>

definition hpb_Base92_DecodeVarint ::
  "byte list \<Rightarrow> byte \<Rightarrow> byte \<Rightarrow> byte \<Rightarrow> (u32 \<times> byte list) option" where
  "hpb_Base92_DecodeVarint ptr first_ch min_ch max_ch =
     hpb_Base92_DecodeVarint_loop min_ch max_ch
       (nat (hpb_Log2Ceiling (hpb_FromBase92 max_ch - hpb_FromBase92 min_ch))) first_ch 0 0 ptr"

declare hpb_Base92_DecodeVarint_loop.simps [simp del]

section \<open>The alphabet\<close>

lemma length_kHpb_ToBase92: "length kHpb_ToBase92 = 92"
  by (simp add: kHpb_ToBase92_def)

lemma list_all_uptD: "list_all P [0..<n] \<Longrightarrow> i < n \<Longrightarrow> P i"
  by (simp add: list_all_iff)

lemma From_To_Base92_all:
  "list_all (\<lambda>i. hpb_FromBase92 (kHpb_ToBase92 ! i) = int i) [0..<92]"
  by (simp add: upt_rec kHpb_ToBase92_def hpb_FromBase92_def kHpb_FromBase92_def)

lemma From_To_Base92: "i < 92 \<Longrightarrow> hpb_FromBase92 (kHpb_ToBase92 ! i) = int i"
  using list_all_uptD [OF From_To_Base92_all] .

lemma uint_To_Base92_all:
  "list_all (\<lambda>i. uint (kHpb_ToBase92 ! i) =
     32 + int i + (if i < 2 then 0 else if i < 6 then 1 else if i < 58 then 2 else 3)) [0..<92]"
  by (simp add: upt_rec kHpb_ToBase92_def)

lemma uint_To_Base92:
  "i < 92 \<Longrightarrow> uint (kHpb_ToBase92 ! i) =
     32 + int i + (if i < 2 then 0 else if i < 6 then 1 else if i < 58 then 2 else 3)"
  using list_all_uptD [OF uint_To_Base92_all] .

lemma uint_To_Base92_mono: "i < j \<Longrightarrow> j < 92 \<Longrightarrow> uint (kHpb_ToBase92 ! i) < uint (kHpb_ToBase92 ! j)"
  by (simp add: uint_To_Base92)

lemma uint_To_Base92_mono_le:
  "i \<le> j \<Longrightarrow> j < 92 \<Longrightarrow> uint (kHpb_ToBase92 ! i) \<le> uint (kHpb_ToBase92 ! j)"
  using uint_To_Base92_mono [of i j] by (cases "i = j") auto

lemma schar_To_Base92: "i < 92 \<Longrightarrow> schar (kHpb_ToBase92 ! i) = uint (kHpb_ToBase92 ! i)"
  by (simp add: sint_byte uint_To_Base92)

section \<open>Digits of a value\<close>

text \<open>The little-endian digits of a word in groups of \<open>s\<close> bits, at least one.\<close>

function base92_digits :: "nat \<Rightarrow> u32 \<Rightarrow> u32 list" where
  "base92_digits s v =
     (v AND mask s) #
     (if s = 0 \<or> drop_bit s v = 0 then [] else base92_digits s (drop_bit s v))"
  by pat_completeness auto
termination
proof (relation "measure (\<lambda>(s, v). unat v)")
  fix s :: nat and v :: u32
  assume "\<not> (s = 0 \<or> drop_bit s v = 0)"
  then have "v \<noteq> 0" and "0 < s"
    by auto
  then show "((s, drop_bit s v), s, v) \<in> measure (\<lambda>(s, v). unat v)"
    using drop_bit_less_nonzero by simp
qed simp

declare base92_digits.simps [simp del]

definition base92_text :: "nat \<Rightarrow> nat \<Rightarrow> u32 \<Rightarrow> byte list" where
  "base92_text lo s v = map (\<lambda>d. kHpb_ToBase92 ! (lo + unat d)) (base92_digits s v)"

lemma base92_digits_nonempty [simp]: "base92_digits s v \<noteq> []"
  by (subst base92_digits.simps) simp

lemma base92_text_nonempty [simp]: "base92_text lo s v \<noteq> []"
  by (simp add: base92_text_def)

lemma base92_digits_bound: "d \<in> set (base92_digits s v) \<Longrightarrow> unat d < 2 ^ s"
proof (induction s v rule: base92_digits.induct)
  case (1 s v)
  then show ?case
    using unat_and_mask_bound [of v s]
    by (auto simp: base92_digits.simps [of s v] split: if_splits)
qed

lemma length_base92_digits:
  assumes "0 < s"
  shows "unat v < 2 ^ (s * n) \<Longrightarrow> 0 < n \<Longrightarrow> length (base92_digits s v) \<le> n"
proof (induction n arbitrary: v)
  case 0
  then show ?case by simp
next
  case (Suc n)
  show ?case
  proof (cases "drop_bit s v = 0")
    case True
    then show ?thesis
      by (simp add: base92_digits.simps [of s v])
  next
    case False
    have less: "unat (drop_bit s v) < 2 ^ (s * n)"
      using Suc.prems(1) by (simp add: unat_drop_bit_div power_add less_mult_imp_div_less mult.commute)
    moreover have "0 < n"
    proof (rule ccontr)
      assume "\<not> 0 < n"
      then have "unat (drop_bit s v) = 0"
        using less by simp
      then show False
        using False by (simp add: unat_eq_zero)
    qed
    ultimately show ?thesis
      using Suc.IH by (simp add: base92_digits.simps [of s v])
  qed
qed

section \<open>The contract of a digit range\<close>

text \<open>A byte at which the decoder's loop stops, given the range's end characters.\<close>

definition stops_at :: "byte \<Rightarrow> byte \<Rightarrow> byte list \<Rightarrow> bool" where
  "stops_at min_ch max_ch rest \<longleftrightarrow>
     (case rest of [] \<Rightarrow> True | c # _ \<Rightarrow> schar c < uint min_ch \<or> uint max_ch < schar c)"

locale base92_range =
  fixes lo :: nat and width :: nat and min_ch :: byte and max_ch :: byte
  assumes width: "2 \<le> width" "width \<le> 6"
    and top: "lo + 2 ^ width \<le> 92"
    and min_ch: "min_ch = kHpb_ToBase92 ! lo"
    and max_ch: "max_ch = kHpb_ToBase92 ! (lo + 2 ^ width - 1)"
begin

lemma lo_bound: "lo < 92" "lo + 2 ^ width - 1 < 92"
proof -
  have "(0 :: nat) < 2 ^ width" by simp
  then show "lo < 92" "lo + 2 ^ width - 1 < 92"
    using top by linarith+
qed

lemma From_min: "hpb_FromBase92 min_ch = int lo"
  by (simp add: min_ch From_To_Base92 lo_bound)

lemma From_max: "hpb_FromBase92 max_ch = int lo + 2 ^ width - 1"
proof -
  have "hpb_FromBase92 max_ch = int (lo + 2 ^ width - 1)"
    using lo_bound(2) by (simp add: max_ch From_To_Base92)
  moreover have "1 \<le> lo + 2 ^ width"
    by (simp add: trans_le_add2)
  ultimately show ?thesis by (simp only: of_nat_diff) simp
qed

lemma Log2Ceiling_width:
  "hpb_Log2Ceiling (hpb_FromBase92 max_ch - hpb_FromBase92 min_ch) = int width"
  "hpb_Log2Ceiling (hpb_FromBase92 max_ch - hpb_FromBase92 min_ch + 1) = int width"
proof -
  have w: "(2 :: int) ^ width = 2 * 2 ^ (width - 1)" "(2 :: int) \<le> 2 ^ (width - 1)"
    "(2 :: int) ^ width \<le> 2 ^ 6"
    using width power_increasing [of 1 "width - 1" "2 :: int"] power_increasing [of width 6 "2 :: int"]
    by (simp_all add: power_eq_if)
  have "nat (hpb_Log2Ceiling x) = width" if "x = 2 ^ width - 1 \<or> x = 2 ^ width" for x :: int
  proof (rule least_exponent_unique [of x])
    have x: "1 < x" "x \<le> 2 ^ 31"
      using that w by auto
    then show "x \<le> 2 ^ nat (hpb_Log2Ceiling x)" "2 ^ (nat (hpb_Log2Ceiling x) - 1) < x" "1 < x"
      using hpb_Log2Ceiling_least by auto
    show "x \<le> 2 ^ width" "2 ^ (width - 1) < x"
      using that w by auto
  qed
  then have "hpb_Log2Ceiling x = int width" if "x = 2 ^ width - 1 \<or> x = 2 ^ width" for x :: int
    using that hpb_Log2Ceiling_range [of x] by (metis int_nat_eq)
  then show "hpb_Log2Ceiling (hpb_FromBase92 max_ch - hpb_FromBase92 min_ch) = int width"
    "hpb_Log2Ceiling (hpb_FromBase92 max_ch - hpb_FromBase92 min_ch + 1) = int width"
    by (simp_all add: From_min From_max)
qed

lemma digit_in_range:
  assumes "unat d < 2 ^ width"
  shows "uint min_ch \<le> schar (kHpb_ToBase92 ! (lo + unat d))"
    and "schar (kHpb_ToBase92 ! (lo + unat d)) \<le> uint max_ch"
    and "hpb_FromBase92 (kHpb_ToBase92 ! (lo + unat d)) - hpb_FromBase92 min_ch = uint d"
  using assms top
  by (auto simp: schar_To_Base92 min_ch max_ch From_To_Base92 intro!: uint_To_Base92_mono_le)

lemma decode_loop_digits:
  assumes "base92_digits width (drop_bit k v) = d # ds" and "k < 32" and "stops_at min_ch max_ch rest"
  shows "hpb_Base92_DecodeVarint_loop min_ch max_ch width (kHpb_ToBase92 ! (lo + unat d))
     (take_bit k v) k (map (\<lambda>d. kHpb_ToBase92 ! (lo + unat d)) ds @ rest) = Some (v, rest)"
  using assms(1,2)
proof (induction ds arbitrary: d k)
  case Nil
  then have d: "d = drop_bit k v AND mask width" and z: "drop_bit width (drop_bit k v) = 0"
    using width by (auto simp: base92_digits.simps [of width "drop_bit k v"] split: if_splits)
  have "unat d < 2 ^ width"
    by (simp add: d unat_and_mask_bound)
  then have "word_of_int (hpb_FromBase92 (kHpb_ToBase92 ! (lo + unat d)) - hpb_FromBase92 min_ch) = d"
    by (simp add: digit_in_range(3))
  moreover have hi: "\<not> bit v n" if "k + width \<le> n" for n
  proof -
    have "\<not> bit (drop_bit width (drop_bit k v)) (n - (k + width))"
      using z by simp
    then show ?thesis
      using that by (simp add: bit_drop_bit_eq)
  qed
  moreover have "take_bit k v OR push_bit k d = v"
    using hi by (auto simp: d bit_eq_iff bit_simps dest: bit_imp_le_length)
      (metis add.commute less_diff_conv2 not_le)
  ultimately show ?case
    using assms(3)
    by (cases rest) (simp_all add: hpb_Base92_DecodeVarint_loop.simps stops_at_def Let_def)
next
  case (Cons e ds)
  then have d: "d = drop_bit k v AND mask width"
    and ds: "base92_digits width (drop_bit (k + width) v) = e # ds"
    and nz: "drop_bit (k + width) v \<noteq> 0"
    using width by (auto simp: base92_digits.simps [of width "drop_bit k v"] add.commute
        split: if_splits)
  have lt: "k + width < 32"
  proof (rule ccontr)
    assume "\<not> k + width < 32"
    then have "drop_bit (k + width) v = 0"
      by (intro drop_bit_word_beyond) simp
    then show False using nz by contradiction
  qed
  have "unat d < 2 ^ width"
    by (simp add: d unat_and_mask_bound)
  then have "word_of_int (hpb_FromBase92 (kHpb_ToBase92 ! (lo + unat d)) - hpb_FromBase92 min_ch) = d"
    by (simp add: digit_in_range(3))
  moreover have "take_bit k v OR push_bit k d = take_bit (k + width) v"
    by (auto simp: d bit_eq_iff bit_simps dest: bit_imp_le_length)
  moreover have "unat e < 2 ^ width"
    using base92_digits_bound [of e width "drop_bit (k + width) v"] ds by simp
  ultimately show ?case
    using Cons.IH [OF ds lt] lt digit_in_range(1,2) [of e]
    by (simp add: hpb_Base92_DecodeVarint_loop.simps Let_def not_less)
qed

lemma decode_text:
  assumes "base92_text lo width v = c # cs" and "stops_at min_ch max_ch rest"
  shows "hpb_Base92_DecodeVarint (cs @ rest) c min_ch max_ch = Some (v, rest)"
proof -
  obtain d ds where ds: "base92_digits width v = d # ds"
    by (meson base92_digits_nonempty neq_Nil_conv)
  with assms(1) have "c = kHpb_ToBase92 ! (lo + unat d)"
    and "cs = map (\<lambda>d. kHpb_ToBase92 ! (lo + unat d)) ds"
    by (auto simp: base92_text_def)
  then show ?thesis
    using decode_loop_digits [of 0 v d ds rest] ds assms(2)
    by (simp add: hpb_Base92_DecodeVarint_def Log2Ceiling_width)
qed

lemma text_head_in_range:
  assumes "base92_text lo width v = c # cs"
  shows "uint min_ch \<le> schar c \<and> schar c \<le> uint max_ch"
proof -
  have "\<exists>d \<in> set (base92_digits width v). c = kHpb_ToBase92 ! (lo + unat d)"
    using assms by (auto simp: base92_text_def map_eq_Cons_conv)
  then show ?thesis
    using digit_in_range(1,2) base92_digits_bound by blast
qed

end

text \<open>The three ranges the mini descriptor format uses.\<close>

interpretation skip_range: base92_range 60 5 kHpb_EncodedValue_MinSkip kHpb_EncodedValue_MaxSkip
  by unfold_locales (simp_all add: kHpb_EncodedValue_defs kHpb_ToBase92_def)

interpretation modifier_range:
  base92_range 42 4 kHpb_EncodedValue_MinModifier kHpb_EncodedValue_MaxModifier
  by unfold_locales (simp_all add: kHpb_EncodedValue_defs kHpb_ToBase92_def)

interpretation oneof_range:
  base92_range 0 6 kHpb_EncodedValue_MinOneofField kHpb_EncodedValue_MaxOneofField
  by unfold_locales (simp_all add: kHpb_EncodedValue_defs kHpb_ToBase92_def)

end
