(* ===== verification/Descriptor.thy ===== *)
theory Descriptor
  imports Base92
begin

text \<open>
  The enumerations shared by the mini descriptor encoder and decoder:
  \<open>src/hpb/base/descriptor_constants.h\<close>, the encoded types of
  \<open>src/hpb/mini_descriptor/internal/wire_constants.h\<close> and the modifier bits of
  \<open>modifiers.h\<close>.
\<close>

datatype hpb_FieldType =
    FieldType_Double | FieldType_Float | FieldType_Int64 | FieldType_UInt64 | FieldType_Int32
  | FieldType_Fixed64 | FieldType_Fixed32 | FieldType_Bool | FieldType_String | FieldType_Group
  | FieldType_Message | FieldType_Bytes | FieldType_UInt32 | FieldType_Enum
  | FieldType_SFixed32 | FieldType_SFixed64 | FieldType_SInt32 | FieldType_SInt64

text \<open>The numeric value of an enumerator, as descriptor.proto assigns it.\<close>

fun kHpb_FieldType :: "hpb_FieldType \<Rightarrow> nat" where
  "kHpb_FieldType FieldType_Double = 1"
| "kHpb_FieldType FieldType_Float = 2"
| "kHpb_FieldType FieldType_Int64 = 3"
| "kHpb_FieldType FieldType_UInt64 = 4"
| "kHpb_FieldType FieldType_Int32 = 5"
| "kHpb_FieldType FieldType_Fixed64 = 6"
| "kHpb_FieldType FieldType_Fixed32 = 7"
| "kHpb_FieldType FieldType_Bool = 8"
| "kHpb_FieldType FieldType_String = 9"
| "kHpb_FieldType FieldType_Group = 10"
| "kHpb_FieldType FieldType_Message = 11"
| "kHpb_FieldType FieldType_Bytes = 12"
| "kHpb_FieldType FieldType_UInt32 = 13"
| "kHpb_FieldType FieldType_Enum = 14"
| "kHpb_FieldType FieldType_SFixed32 = 15"
| "kHpb_FieldType FieldType_SFixed64 = 16"
| "kHpb_FieldType FieldType_SInt32 = 17"
| "kHpb_FieldType FieldType_SInt64 = 18"

definition kUnpackableTypes :: u32 where
  "kUnpackableTypes =
     push_bit (kHpb_FieldType FieldType_String) 1 OR push_bit (kHpb_FieldType FieldType_Bytes) 1 OR
     push_bit (kHpb_FieldType FieldType_Message) 1 OR push_bit (kHpb_FieldType FieldType_Group) 1"

definition hpb_FieldType_IsPackable :: "hpb_FieldType \<Rightarrow> bool" where
  "hpb_FieldType_IsPackable type \<longleftrightarrow>
     push_bit (kHpb_FieldType type) 1 AND NOT kUnpackableTypes \<noteq> 0"

section \<open>Encoded types\<close>

definition kHpb_EncodedType_OpenEnum :: nat where "kHpb_EncodedType_OpenEnum = 12"
definition kHpb_EncodedType_Group :: nat where "kHpb_EncodedType_Group = 16"
definition kHpb_EncodedType_Message :: nat where "kHpb_EncodedType_Message = 17"
definition kHpb_EncodedType_ClosedEnum :: nat where "kHpb_EncodedType_ClosedEnum = 18"
definition kHpb_EncodedType_RepeatedBase :: nat where "kHpb_EncodedType_RepeatedBase = 20"

lemmas kHpb_EncodedType_defs =
  kHpb_EncodedType_OpenEnum_def kHpb_EncodedType_Group_def kHpb_EncodedType_Message_def
  kHpb_EncodedType_ClosedEnum_def kHpb_EncodedType_RepeatedBase_def

text \<open>\<open>kHpb_TypeToEncoded\<close> of \<open>encode.c\<close> and its inverse \<open>kHpb_EncodedToType\<close> of \<open>decode.c\<close>.\<close>

fun kHpb_TypeToEncoded :: "hpb_FieldType \<Rightarrow> nat" where
  "kHpb_TypeToEncoded FieldType_Double = 0"
| "kHpb_TypeToEncoded FieldType_Float = 1"
| "kHpb_TypeToEncoded FieldType_Int64 = 9"
| "kHpb_TypeToEncoded FieldType_UInt64 = 10"
| "kHpb_TypeToEncoded FieldType_Int32 = 6"
| "kHpb_TypeToEncoded FieldType_Fixed64 = 3"
| "kHpb_TypeToEncoded FieldType_Fixed32 = 2"
| "kHpb_TypeToEncoded FieldType_Bool = 13"
| "kHpb_TypeToEncoded FieldType_String = 15"
| "kHpb_TypeToEncoded FieldType_Group = 16"
| "kHpb_TypeToEncoded FieldType_Message = 17"
| "kHpb_TypeToEncoded FieldType_Bytes = 14"
| "kHpb_TypeToEncoded FieldType_UInt32 = 7"
| "kHpb_TypeToEncoded FieldType_Enum = 12"
| "kHpb_TypeToEncoded FieldType_SFixed32 = 4"
| "kHpb_TypeToEncoded FieldType_SFixed64 = 5"
| "kHpb_TypeToEncoded FieldType_SInt32 = 8"
| "kHpb_TypeToEncoded FieldType_SInt64 = 11"

definition kHpb_EncodedToType :: "hpb_FieldType list" where
  "kHpb_EncodedToType =
     [FieldType_Double, FieldType_Float, FieldType_Fixed32, FieldType_Fixed64, FieldType_SFixed32,
      FieldType_SFixed64, FieldType_Int32, FieldType_UInt32, FieldType_SInt32, FieldType_Int64,
      FieldType_UInt64, FieldType_SInt64, FieldType_Enum, FieldType_Bool, FieldType_Bytes,
      FieldType_String, FieldType_Group, FieldType_Message, FieldType_Enum]"

section \<open>Modifier bits\<close>

definition kHpb_EncodedFieldModifier_FlipPacked :: u32 where
  "kHpb_EncodedFieldModifier_FlipPacked = 1"
definition kHpb_EncodedFieldModifier_IsRequired :: u32 where
  "kHpb_EncodedFieldModifier_IsRequired = 2"
definition kHpb_EncodedFieldModifier_IsProto3Singular :: u32 where
  "kHpb_EncodedFieldModifier_IsProto3Singular = 4"

definition kHpb_FieldModifier_IsRepeated :: u64 where
  "kHpb_FieldModifier_IsRepeated = 1"
definition kHpb_FieldModifier_IsPacked :: u64 where
  "kHpb_FieldModifier_IsPacked = 2"
definition kHpb_FieldModifier_IsClosedEnum :: u64 where
  "kHpb_FieldModifier_IsClosedEnum = 4"
definition kHpb_FieldModifier_IsProto3Singular :: u64 where
  "kHpb_FieldModifier_IsProto3Singular = 8"
definition kHpb_FieldModifier_IsRequired :: u64 where
  "kHpb_FieldModifier_IsRequired = 16"

definition kHpb_MessageModifier_ValidateUtf8 :: u64 where
  "kHpb_MessageModifier_ValidateUtf8 = 1"
definition kHpb_MessageModifier_DefaultIsPacked :: u64 where
  "kHpb_MessageModifier_DefaultIsPacked = 2"
definition kHpb_MessageModifier_IsExtendable :: u64 where
  "kHpb_MessageModifier_IsExtendable = 4"

text \<open>A C flag test: \<open>if (flags & bit)\<close>.\<close>

definition has_flag :: "'a::len word \<Rightarrow> 'a word \<Rightarrow> bool" where
  "has_flag flags b \<longleftrightarrow> flags AND b \<noteq> 0"

lemmas modifier_defs =
  kHpb_EncodedFieldModifier_FlipPacked_def kHpb_EncodedFieldModifier_IsRequired_def
  kHpb_EncodedFieldModifier_IsProto3Singular_def
  kHpb_FieldModifier_IsRepeated_def kHpb_FieldModifier_IsPacked_def
  kHpb_FieldModifier_IsClosedEnum_def kHpb_FieldModifier_IsProto3Singular_def
  kHpb_FieldModifier_IsRequired_def kHpb_MessageModifier_ValidateUtf8_def
  kHpb_MessageModifier_DefaultIsPacked_def kHpb_MessageModifier_IsExtendable_def

section \<open>Facts on the tables\<close>

lemma kHpb_TypeToEncoded_bound: "kHpb_TypeToEncoded type < 18"
  by (cases type) simp_all

lemma kHpb_EncodedToType_TypeToEncoded: "kHpb_EncodedToType ! kHpb_TypeToEncoded type = type"
  by (cases type) (simp_all add: kHpb_EncodedToType_def)

lemma hpb_FieldType_IsPackable_iff:
  "hpb_FieldType_IsPackable type \<longleftrightarrow>
     type \<notin> {FieldType_String, FieldType_Bytes, FieldType_Message, FieldType_Group}"
  by (cases type) (simp_all add: hpb_FieldType_IsPackable_def kUnpackableTypes_def)

end
