(* ===== verification/MtEncoder.thy ===== *)
theory MtEncoder
  imports Descriptor
begin

text \<open>
  The mini descriptor encoder, \<open>src/hpb/mini_descriptor/internal/encode.c\<close>. An output
  pointer is the list of bytes written up to it; \<open>e_end\<close> and \<open>buf_start\<close> are offsets
  into the same buffer. A failing call (\<open>NULL\<close> or a violated assertion) gives no new state:
  the callers abandon the encoder then.
\<close>

section \<open>State\<close>

datatype oneof_state =
  OneofState_NotStarted | OneofState_StartedOneof | OneofState_EmittedOneofField

text \<open>
  The C state is a union of an enum state and a message state. Their first two members have
  the same types and offsets, so the union is one record: \<open>word0\<close> is
  \<open>present_values_mask\<close> or \<open>msg_modifiers\<close>, and \<open>word1\<close> is \<open>last_written_value\<close> or
  \<open>last_field_num\<close>.
\<close>

record hpb_MtDataEncoder =
  e_end :: nat
  buf_start :: nat
  word0 :: u64
  word1 :: u32
  oneof_st :: oneof_state

type_synonym out_ptr = "byte list"
type_synonym enc_result = "c_fail + hpb_MtDataEncoder \<times> out_ptr"

definition kHpb_MtDataEncoder_MinSize :: nat where
  "kHpb_MtDataEncoder_MinSize = 16"

section \<open>Characters and varints\<close>

definition hpb_MtDataEncoder_GetInternal ::
  "hpb_MtDataEncoder \<Rightarrow> out_ptr \<Rightarrow> hpb_MtDataEncoder" where
  "hpb_MtDataEncoder_GetInternal e ptr = e\<lparr>buf_start := length ptr\<rparr>"

definition hpb_MtDataEncoder_PutRaw ::
  "hpb_MtDataEncoder \<Rightarrow> out_ptr \<Rightarrow> byte \<Rightarrow> c_fail + out_ptr" where
  "hpb_MtDataEncoder_PutRaw e ptr ch =
     (if \<not> int (length ptr) - int (buf_start e) < int kHpb_MtDataEncoder_MinSize then Inl AssertFail
      else if length ptr = e_end e then Inl NullPtr
      else Inr (ptr @ [ch]))"

definition hpb_MtDataEncoder_Put ::
  "hpb_MtDataEncoder \<Rightarrow> out_ptr \<Rightarrow> byte \<Rightarrow> c_fail + out_ptr" where
  "hpb_MtDataEncoder_Put e ptr ch =
     res_bind (hpb_ToBase92 (schar ch)) (\<lambda>c. hpb_MtDataEncoder_PutRaw e ptr c)"

lemma hpb_MtDataEncoder_PutRaw_InrD:
  "hpb_MtDataEncoder_PutRaw e ptr ch = Inr ptr' \<Longrightarrow>
   ptr' = ptr @ [ch] \<and> length ptr < buf_start e + 16"
  by (auto simp: hpb_MtDataEncoder_PutRaw_def kHpb_MtDataEncoder_MinSize_def split: if_splits)

lemma hpb_MtDataEncoder_Put_InrD:
  "hpb_MtDataEncoder_Put e ptr ch = Inr ptr' \<Longrightarrow>
   length ptr' = Suc (length ptr) \<and> length ptr < buf_start e + 16"
  by (auto simp: hpb_MtDataEncoder_Put_def res_bind_Inr_iff dest: hpb_MtDataEncoder_PutRaw_InrD)

function hpb_MtDataEncoder_PutBase92Varint_loop ::
  "hpb_MtDataEncoder \<Rightarrow> out_ptr \<Rightarrow> u32 \<Rightarrow> nat \<Rightarrow> byte \<Rightarrow> c_fail + out_ptr" where
  "hpb_MtDataEncoder_PutBase92Varint_loop e ptr val shift min_ch =
     (let bits = val AND mask shift
      in res_bind (hpb_MtDataEncoder_Put e ptr (ucast (bits + word_of_int (hpb_FromBase92 min_ch))))
           (\<lambda>ptr. let val = drop_bit shift val
                  in if val \<noteq> 0 then hpb_MtDataEncoder_PutBase92Varint_loop e ptr val shift min_ch
                     else Inr ptr))"
  by pat_completeness auto
termination
  by (relation "measure (\<lambda>(e, ptr, val, shift, min_ch). buf_start e + 16 - length ptr)")
    (auto dest!: hpb_MtDataEncoder_Put_InrD)

declare hpb_MtDataEncoder_PutBase92Varint_loop.simps [simp del]

definition hpb_MtDataEncoder_PutBase92Varint ::
  "hpb_MtDataEncoder \<Rightarrow> out_ptr \<Rightarrow> u32 \<Rightarrow> byte \<Rightarrow> byte \<Rightarrow> c_fail + out_ptr" where
  "hpb_MtDataEncoder_PutBase92Varint e ptr val min_ch max_ch =
     (let shift = hpb_Log2Ceiling (hpb_FromBase92 max_ch - hpb_FromBase92 min_ch + 1)
      in if \<not> shift \<le> 6 then Inl AssertFail
         else hpb_MtDataEncoder_PutBase92Varint_loop e ptr val (nat shift) min_ch)"

definition hpb_MtDataEncoder_PutModifier ::
  "hpb_MtDataEncoder \<Rightarrow> out_ptr \<Rightarrow> u64 \<Rightarrow> c_fail + out_ptr" where
  "hpb_MtDataEncoder_PutModifier e ptr mod_bits =
     (if mod_bits \<noteq> 0
      then hpb_MtDataEncoder_PutBase92Varint e ptr (ucast mod_bits)
             kHpb_EncodedValue_MinModifier kHpb_EncodedValue_MaxModifier
      else Inr ptr)"

section \<open>Fields\<close>

definition hpb_MtDataEncoder_MaybePutFieldSkip ::
  "hpb_MtDataEncoder \<Rightarrow> out_ptr \<Rightarrow> u32 \<Rightarrow> enc_result" where
  "hpb_MtDataEncoder_MaybePutFieldSkip e ptr field_num =
     (if field_num \<le> word1 e then Inl NullPtr
      else res_bind
        (if word1 e + 1 \<noteq> field_num
         then hpb_MtDataEncoder_PutBase92Varint e ptr (field_num - word1 e)
                kHpb_EncodedValue_MinSkip kHpb_EncodedValue_MaxSkip
         else Inr ptr)
        (\<lambda>ptr. Inr (e\<lparr>word1 := field_num\<rparr>, ptr)))"

definition hpb_MtDataEncoder_PutFieldType ::
  "hpb_MtDataEncoder \<Rightarrow> out_ptr \<Rightarrow> hpb_FieldType \<Rightarrow> u64 \<Rightarrow> c_fail + out_ptr" where
  "hpb_MtDataEncoder_PutFieldType e ptr type field_mod =
     (if has_flag field_mod kHpb_FieldModifier_IsClosedEnum \<and> type \<noteq> FieldType_Enum
      then Inl AssertFail
      else
        let encoded_type = (if has_flag field_mod kHpb_FieldModifier_IsClosedEnum
                            then kHpb_EncodedType_ClosedEnum else kHpb_TypeToEncoded type);
            encoded_type = (if has_flag field_mod kHpb_FieldModifier_IsRepeated
                            then encoded_type + kHpb_EncodedType_RepeatedBase else encoded_type)
        in hpb_MtDataEncoder_Put e ptr (of_nat encoded_type))"

definition encoded_field_modifiers :: "u64 \<Rightarrow> hpb_FieldType \<Rightarrow> u64 \<Rightarrow> u32" where
  "encoded_field_modifiers msg_modifiers type field_mod =
     (if has_flag field_mod kHpb_FieldModifier_IsRepeated \<and> hpb_FieldType_IsPackable type \<and>
         has_flag field_mod kHpb_FieldModifier_IsPacked \<noteq>
         has_flag msg_modifiers kHpb_MessageModifier_DefaultIsPacked
      then kHpb_EncodedFieldModifier_FlipPacked else 0) OR
     (if has_flag field_mod kHpb_FieldModifier_IsProto3Singular
      then kHpb_EncodedFieldModifier_IsProto3Singular else 0) OR
     (if has_flag field_mod kHpb_FieldModifier_IsRequired
      then kHpb_EncodedFieldModifier_IsRequired else 0)"

definition hpb_MtDataEncoder_MaybePutModifiers ::
  "hpb_MtDataEncoder \<Rightarrow> out_ptr \<Rightarrow> hpb_FieldType \<Rightarrow> u64 \<Rightarrow> c_fail + out_ptr" where
  "hpb_MtDataEncoder_MaybePutModifiers e ptr type field_mod =
     hpb_MtDataEncoder_PutModifier e ptr (ucast (encoded_field_modifiers (word0 e) type field_mod))"

definition hpb_MtDataEncoder_PutField ::
  "hpb_MtDataEncoder \<Rightarrow> out_ptr \<Rightarrow> hpb_FieldType \<Rightarrow> u32 \<Rightarrow> u64 \<Rightarrow> enc_result" where
  "hpb_MtDataEncoder_PutField e ptr type field_num field_mod =
     res_bind (hpb_MtDataEncoder_MaybePutFieldSkip (hpb_MtDataEncoder_GetInternal e ptr) ptr field_num)
       (\<lambda>(e, ptr). res_bind (hpb_MtDataEncoder_PutFieldType e ptr type field_mod)
         (\<lambda>ptr. res_bind (hpb_MtDataEncoder_MaybePutModifiers e ptr type field_mod)
           (\<lambda>ptr. Inr (e, ptr))))"

section \<open>Whole descriptors and messages\<close>

definition start_msg_state :: "u64 \<Rightarrow> hpb_MtDataEncoder \<Rightarrow> hpb_MtDataEncoder" where
  "start_msg_state msg_mod e =
     e\<lparr>word0 := msg_mod, word1 := 0, oneof_st := OneofState_NotStarted\<rparr>"

definition hpb_MtDataEncoder_EncodeExtension ::
  "hpb_MtDataEncoder \<Rightarrow> out_ptr \<Rightarrow> hpb_FieldType \<Rightarrow> u32 \<Rightarrow> u64 \<Rightarrow> enc_result" where
  "hpb_MtDataEncoder_EncodeExtension e ptr type field_num field_mod =
     (let e = start_msg_state 0 (hpb_MtDataEncoder_GetInternal e ptr)
      in res_bind (hpb_MtDataEncoder_PutRaw e ptr kHpb_EncodedVersion_ExtensionV1)
           (\<lambda>ptr. hpb_MtDataEncoder_PutField e ptr type field_num field_mod))"

definition hpb_MtDataEncoder_EncodeMap ::
  "hpb_MtDataEncoder \<Rightarrow> out_ptr \<Rightarrow> hpb_FieldType \<Rightarrow> hpb_FieldType \<Rightarrow> u64 \<Rightarrow> u64 \<Rightarrow> enc_result" where
  "hpb_MtDataEncoder_EncodeMap e ptr key_type value_type key_mod value_mod =
     (let e = start_msg_state 0 (hpb_MtDataEncoder_GetInternal e ptr)
      in res_bind (hpb_MtDataEncoder_PutRaw e ptr kHpb_EncodedVersion_MapV1)
           (\<lambda>ptr. res_bind (hpb_MtDataEncoder_PutField e ptr key_type 1 key_mod)
             (\<lambda>(e, ptr). hpb_MtDataEncoder_PutField e ptr value_type 2 value_mod)))"

definition hpb_MtDataEncoder_EncodeMessageSet :: "hpb_MtDataEncoder \<Rightarrow> out_ptr \<Rightarrow> enc_result" where
  "hpb_MtDataEncoder_EncodeMessageSet e ptr =
     (let e = hpb_MtDataEncoder_GetInternal e ptr
      in res_bind (hpb_MtDataEncoder_PutRaw e ptr kHpb_EncodedVersion_MessageSetV1)
           (\<lambda>ptr. Inr (e, ptr)))"

definition hpb_MtDataEncoder_StartMessage ::
  "hpb_MtDataEncoder \<Rightarrow> out_ptr \<Rightarrow> u64 \<Rightarrow> enc_result" where
  "hpb_MtDataEncoder_StartMessage e ptr msg_mod =
     (let e = start_msg_state msg_mod (hpb_MtDataEncoder_GetInternal e ptr)
      in res_bind (hpb_MtDataEncoder_PutRaw e ptr kHpb_EncodedVersion_MessageV1)
           (\<lambda>ptr. res_bind (hpb_MtDataEncoder_PutModifier e ptr msg_mod) (\<lambda>ptr. Inr (e, ptr))))"

section \<open>Oneofs\<close>

definition hpb_MtDataEncoder_StartOneof :: "hpb_MtDataEncoder \<Rightarrow> out_ptr \<Rightarrow> enc_result" where
  "hpb_MtDataEncoder_StartOneof e ptr =
     (let e = hpb_MtDataEncoder_GetInternal e ptr;
          ch = (if oneof_st e = OneofState_NotStarted then kHpb_EncodedValue_End
                else kHpb_EncodedValue_OneofSeparator)
      in res_bind (hpb_MtDataEncoder_Put e ptr (word_of_int (hpb_FromBase92 ch)))
           (\<lambda>ptr. Inr (e\<lparr>oneof_st := OneofState_StartedOneof\<rparr>, ptr)))"

definition hpb_MtDataEncoder_PutOneofField ::
  "hpb_MtDataEncoder \<Rightarrow> out_ptr \<Rightarrow> u32 \<Rightarrow> enc_result" where
  "hpb_MtDataEncoder_PutOneofField e ptr field_num =
     (let e = hpb_MtDataEncoder_GetInternal e ptr
      in res_bind
           (if oneof_st e = OneofState_EmittedOneofField
            then hpb_MtDataEncoder_Put e ptr
                   (word_of_int (hpb_FromBase92 kHpb_EncodedValue_FieldSeparator))
            else Inr ptr)
         (\<lambda>ptr. res_bind (hpb_ToBase92 0)
         (\<lambda>min_ch. res_bind (hpb_ToBase92 63)
         (\<lambda>max_ch. res_bind (hpb_MtDataEncoder_PutBase92Varint e ptr field_num min_ch max_ch)
         (\<lambda>ptr. Inr (e\<lparr>oneof_st := OneofState_EmittedOneofField\<rparr>, ptr))))))"

section \<open>Enums\<close>

definition hpb_MtDataEncoder_StartEnum :: "hpb_MtDataEncoder \<Rightarrow> out_ptr \<Rightarrow> enc_result" where
  "hpb_MtDataEncoder_StartEnum e ptr =
     (let e = (hpb_MtDataEncoder_GetInternal e ptr)\<lparr>word0 := 0, word1 := 0\<rparr>
      in res_bind (hpb_MtDataEncoder_PutRaw e ptr kHpb_EncodedVersion_EnumV1)
           (\<lambda>ptr. Inr (e, ptr)))"

definition hpb_MtDataEncoder_FlushDenseEnumMask ::
  "hpb_MtDataEncoder \<Rightarrow> out_ptr \<Rightarrow> enc_result" where
  "hpb_MtDataEncoder_FlushDenseEnumMask e ptr =
     res_bind (hpb_MtDataEncoder_Put e ptr (ucast (word0 e)))
       (\<lambda>ptr. Inr (e\<lparr>word0 := 0, word1 := word1 e + 5\<rparr>, ptr))"

definition hpb_MtDataEncoder_PutEnumValue ::
  "hpb_MtDataEncoder \<Rightarrow> out_ptr \<Rightarrow> u32 \<Rightarrow> enc_result" where
  "hpb_MtDataEncoder_PutEnumValue e ptr val =
     (let e = hpb_MtDataEncoder_GetInternal e ptr
      in if \<not> val \<ge> word1 e then Inl AssertFail
         else
           let delta = val - word1 e
           in res_bind
                (if delta \<ge> 5 \<and> word0 e \<noteq> 0
                 then res_bind (hpb_MtDataEncoder_FlushDenseEnumMask e ptr)
                        (\<lambda>(e, ptr). Inr (e, ptr, delta - 5))
                 else Inr (e, ptr, delta))
              (\<lambda>(e, ptr, delta). res_bind
                (if delta \<ge> 5
                 then res_bind (hpb_MtDataEncoder_PutBase92Varint e ptr delta
                                  kHpb_EncodedValue_MinSkip kHpb_EncodedValue_MaxSkip)
                        (\<lambda>ptr. Inr (e\<lparr>word1 := word1 e + delta\<rparr>, ptr, 0))
                 else Inr (e, ptr, delta))
              (\<lambda>(e, ptr, delta).
                 if drop_bit (unat delta) (word0 e) \<noteq> 0 then Inl AssertFail
                 else Inr (e\<lparr>word0 := word0 e OR push_bit (unat delta) 1\<rparr>, ptr))))"

definition hpb_MtDataEncoder_EndEnum :: "hpb_MtDataEncoder \<Rightarrow> out_ptr \<Rightarrow> enc_result" where
  "hpb_MtDataEncoder_EndEnum e ptr =
     (let e = hpb_MtDataEncoder_GetInternal e ptr
      in if word0 e = 0 then Inr (e, ptr) else hpb_MtDataEncoder_FlushDenseEnumMask e ptr)"

section \<open>Writing succeeds when there is room\<close>

definition room :: "hpb_MtDataEncoder \<Rightarrow> out_ptr \<Rightarrow> nat \<Rightarrow> bool" where
  "room e ptr n \<longleftrightarrow> length ptr + n \<le> buf_start e + 16 \<and> length ptr + n \<le> e_end e"

lemma room_mono: "room e ptr n \<Longrightarrow> m \<le> n \<Longrightarrow> room e ptr m"
  by (auto simp: room_def)

lemma room_append: "room e (ptr @ out) n \<longleftrightarrow> room e ptr (length out + n)"
  by (simp add: room_def add.assoc)

lemma room_update [simp]:
  "room (e\<lparr>word0 := x\<rparr>) ptr n = room e ptr n"
  "room (e\<lparr>word1 := y\<rparr>) ptr n = room e ptr n"
  "room (e\<lparr>oneof_st := z\<rparr>) ptr n = room e ptr n"
  "room (start_msg_state w e) ptr n = room e ptr n"
  by (simp_all add: room_def start_msg_state_def)

lemma room_GetInternal [simp]:
  "room (hpb_MtDataEncoder_GetInternal e ptr) ptr n \<longleftrightarrow> n \<le> 16 \<and> length ptr + n \<le> e_end e"
  by (auto simp: room_def hpb_MtDataEncoder_GetInternal_def)

lemma GetInternal_simps [simp]:
  "word0 (hpb_MtDataEncoder_GetInternal e ptr) = word0 e"
  "word1 (hpb_MtDataEncoder_GetInternal e ptr) = word1 e"
  "oneof_st (hpb_MtDataEncoder_GetInternal e ptr) = oneof_st e"
  "e_end (hpb_MtDataEncoder_GetInternal e ptr) = e_end e"
  by (simp_all add: hpb_MtDataEncoder_GetInternal_def)

lemma PutRaw_ok: "room e ptr (Suc n) \<Longrightarrow> hpb_MtDataEncoder_PutRaw e ptr ch = Inr (ptr @ [ch])"
  by (auto simp: room_def hpb_MtDataEncoder_PutRaw_def kHpb_MtDataEncoder_MinSize_def)

lemma Put_ok:
  assumes "room e ptr (Suc n)" and "unat ch < 92"
  shows "hpb_MtDataEncoder_Put e ptr ch = Inr (ptr @ [kHpb_ToBase92 ! unat ch])"
proof -
  have "uint ch < 92"
    using assms(2) by (metis of_nat_less_iff of_nat_numeral of_nat_unat)
  then have "schar ch = uint ch"
    by (simp add: sint_byte)
  then show ?thesis
    using assms \<open>uint ch < 92\<close>
    by (simp add: hpb_MtDataEncoder_Put_def hpb_ToBase92_def PutRaw_ok)
qed

context base92_range
begin

lemma PutBase92Varint_loop_ok:
  assumes "room e ptr (length (base92_digits width val))"
  shows "hpb_MtDataEncoder_PutBase92Varint_loop e ptr val width min_ch =
    Inr (ptr @ base92_text lo width val)"
  using assms
proof (induction "unat val" arbitrary: val ptr rule: less_induct)
  case less
  let ?d = "val AND mask width" and ?rest = "drop_bit width val"
  let ?ch = "ucast (?d + word_of_int (hpb_FromBase92 min_ch)) :: byte"
  have d: "unat ?d < 2 ^ width"
    by (rule unat_and_mask_bound)
  have "unat (?d + of_nat lo) = lo + unat ?d"
    using d top by (simp add: unat_word_ariths unat_of_nat)
  then have ch: "unat ?ch = lo + unat ?d"
    using d top by (simp add: From_min unat_ucast_mod)
  have put: "hpb_MtDataEncoder_Put e ptr ?ch = Inr (ptr @ [kHpb_ToBase92 ! (lo + unat ?d)])"
    using Put_ok [of e ptr "length (base92_digits width val) - 1" ?ch] less.prems d top ch
    by (simp add: base92_digits.simps [of width val])
  show ?case
  proof (cases "?rest = 0")
    case True
    then show ?thesis
      using put by (simp add: hpb_MtDataEncoder_PutBase92Varint_loop.simps [of e ptr] Let_def
          base92_text_def base92_digits.simps [of width val])
  next
    case False
    then have "unat ?rest < unat val"
      using drop_bit_less_nonzero [of val width] width by (cases "val = 0") auto
    moreover have "room e (ptr @ [kHpb_ToBase92 ! (lo + unat ?d)]) (length (base92_digits width ?rest))"
      using less.prems False width by (simp add: room_append base92_digits.simps [of width val])
    ultimately have "hpb_MtDataEncoder_PutBase92Varint_loop e (ptr @ [kHpb_ToBase92 ! (lo + unat ?d)])
        ?rest width min_ch = Inr (ptr @ [kHpb_ToBase92 ! (lo + unat ?d)] @ base92_text lo width ?rest)"
      using less.hyps [of ?rest] by simp
    then show ?thesis
      using put False width
      by (simp add: hpb_MtDataEncoder_PutBase92Varint_loop.simps [of e ptr] Let_def
          base92_text_def base92_digits.simps [of width val])
  qed
qed

lemma PutBase92Varint_ok:
  assumes "room e ptr (length (base92_text lo width val))"
  shows "hpb_MtDataEncoder_PutBase92Varint e ptr val min_ch max_ch =
    Inr (ptr @ base92_text lo width val)"
  using assms PutBase92Varint_loop_ok width
  by (simp add: hpb_MtDataEncoder_PutBase92Varint_def Log2Ceiling_width base92_text_def Let_def)

end

text \<open>How many characters a 32-bit value can take in each range.\<close>

lemma length_base92_text: "length (base92_text lo s v) = length (base92_digits s v)"
  by (simp add: base92_text_def)

lemma text_length_bounds:
  "length (base92_text 60 5 v) \<le> 7" "length (base92_text 42 4 v) \<le> 8" "length (base92_text 0 6 v) \<le> 6"
proof -
  have v: "unat v < 2 ^ 32"
    using unsigned_less [of v, where 'a = nat] by simp
  show "length (base92_text 60 5 v) \<le> 7" "length (base92_text 42 4 v) \<le> 8"
    "length (base92_text 0 6 v) \<le> 6"
    unfolding length_base92_text using v
    by (intro length_base92_digits; simp)+
qed

section \<open>The guarantee of the minimum buffer size\<close>

text \<open>What each field-level step writes.\<close>

lemma MaybePutFieldSkip_ok:
  assumes "word1 e < field_num" and "room e ptr (n + 7)"
  shows "\<exists>out. hpb_MtDataEncoder_MaybePutFieldSkip e ptr field_num =
    Inr (e\<lparr>word1 := field_num\<rparr>, ptr @ out) \<and> length out \<le> (if word1 e + 1 = field_num then 0 else 7)"
proof -
  let ?t = "base92_text 60 5 (field_num - word1 e)"
  have "room e ptr (length ?t)"
    by (rule room_mono [OF assms(2)]) (use text_length_bounds(1) in \<open>simp add: trans_le_add2\<close>)
  then show ?thesis
    using assms(1) skip_range.PutBase92Varint_ok [of e ptr "field_num - word1 e"]
      text_length_bounds(1) [of "field_num - word1 e"]
    by (cases "word1 e + 1 = field_num")
      (auto simp: hpb_MtDataEncoder_MaybePutFieldSkip_def not_le)
qed

lemma PutFieldType_ok:
  assumes "has_flag field_mod kHpb_FieldModifier_IsClosedEnum \<longrightarrow> type = FieldType_Enum"
    and "room e ptr (Suc n)"
  shows "\<exists>c. hpb_MtDataEncoder_PutFieldType e ptr type field_mod = Inr (ptr @ [c])"
proof -
  have "unat (of_nat k :: byte) < 92" if "k \<le> 38" for k
    using that by (simp add: unat_of_nat)
  then have "\<exists>c. hpb_MtDataEncoder_Put e ptr (of_nat k) = Inr (ptr @ [c])" if "k \<le> 38" for k
    using Put_ok [OF assms(2)] that by blast
  moreover have "kHpb_TypeToEncoded type \<le> 18"
    using kHpb_TypeToEncoded_bound [of type] by simp
  ultimately show ?thesis
    using assms(1)
    by (auto simp: hpb_MtDataEncoder_PutFieldType_def kHpb_EncodedType_defs Let_def)
qed

lemma PutModifier_ok:
  assumes "room e ptr (n + 8)"
  shows "\<exists>out. hpb_MtDataEncoder_PutModifier e ptr m = Inr (ptr @ out) \<and> length out \<le> 8"
proof (cases "m = 0")
  case False
  have "room e ptr (length (base92_text 42 4 (ucast m)))"
    by (rule room_mono [OF assms]) (use text_length_bounds(2) in \<open>simp add: trans_le_add2\<close>)
  then show ?thesis
    using False modifier_range.PutBase92Varint_ok [of e ptr "ucast m"]
      text_length_bounds(2) [of "ucast m"]
    by (simp add: hpb_MtDataEncoder_PutModifier_def)
qed (simp add: hpb_MtDataEncoder_PutModifier_def)

lemma unat_encoded_field_modifiers: "unat (encoded_field_modifiers m type f) < 2 ^ (4 * 1)"
  by (simp add: encoded_field_modifiers_def modifier_defs split: if_splits)

lemma MaybePutModifiers_ok:
  assumes "room e ptr (Suc n)"
  shows "\<exists>out. hpb_MtDataEncoder_MaybePutModifiers e ptr type field_mod = Inr (ptr @ out) \<and>
    length out \<le> 1"
proof -
  let ?m = "encoded_field_modifiers (word0 e) type field_mod"
  have eq: "ucast (ucast ?m :: u64) = ?m"
    using unsigned_less [of ?m, where 'a = nat]
    by (simp add: word_unat_eq_iff [of "ucast _"] unat_ucast_small)
  have len: "length (base92_text 42 4 ?m) \<le> 1"
    unfolding length_base92_text
    by (rule length_base92_digits [OF _ unat_encoded_field_modifiers]) simp_all
  then have "room e ptr (length (base92_text 42 4 ?m))"
    by (rule_tac room_mono [OF assms]) simp
  then show ?thesis
    using len modifier_range.PutBase92Varint_ok [of e ptr ?m]
    by (auto simp: hpb_MtDataEncoder_MaybePutModifiers_def hpb_MtDataEncoder_PutModifier_def eq)
qed

text \<open>One call of the encoder's interface (\<open>encode.h\<close>).\<close>

datatype enc_call =
    StartMessage u64
  | PutField hpb_FieldType u32 u64
  | StartOneof
  | PutOneofField u32
  | StartEnum
  | PutEnumValue u32
  | EndEnum
  | EncodeExtension hpb_FieldType u32 u64
  | EncodeMap hpb_FieldType hpb_FieldType u64 u64
  | EncodeMessageSet

fun enc_call_run :: "hpb_MtDataEncoder \<Rightarrow> out_ptr \<Rightarrow> enc_call \<Rightarrow> enc_result" where
  "enc_call_run e ptr (StartMessage m) = hpb_MtDataEncoder_StartMessage e ptr m"
| "enc_call_run e ptr (PutField t n m) = hpb_MtDataEncoder_PutField e ptr t n m"
| "enc_call_run e ptr StartOneof = hpb_MtDataEncoder_StartOneof e ptr"
| "enc_call_run e ptr (PutOneofField n) = hpb_MtDataEncoder_PutOneofField e ptr n"
| "enc_call_run e ptr StartEnum = hpb_MtDataEncoder_StartEnum e ptr"
| "enc_call_run e ptr (PutEnumValue v) = hpb_MtDataEncoder_PutEnumValue e ptr v"
| "enc_call_run e ptr EndEnum = hpb_MtDataEncoder_EndEnum e ptr"
| "enc_call_run e ptr (EncodeExtension t n m) = hpb_MtDataEncoder_EncodeExtension e ptr t n m"
| "enc_call_run e ptr (EncodeMap kt vt km vm) = hpb_MtDataEncoder_EncodeMap e ptr kt vt km vm"
| "enc_call_run e ptr EncodeMessageSet = hpb_MtDataEncoder_EncodeMessageSet e ptr"

text \<open>
  The order of calls the interface asks for, read off the encoder's state: field numbers and
  enum values ascend, the closed-enum modifier goes with an enum type, and between two enum
  calls the pending mask has at most five bits.
\<close>

fun enc_call_ok :: "hpb_MtDataEncoder \<Rightarrow> enc_call \<Rightarrow> bool" where
  "enc_call_ok e (PutField t n m) \<longleftrightarrow>
     word1 e < n \<and> (has_flag m kHpb_FieldModifier_IsClosedEnum \<longrightarrow> t = FieldType_Enum)"
| "enc_call_ok e (PutEnumValue v) \<longleftrightarrow>
     word1 e \<le> v \<and> word0 e < 32 \<and> drop_bit (unat (v - word1 e)) (word0 e) = 0"
| "enc_call_ok e EndEnum \<longleftrightarrow> word0 e < 32"
| "enc_call_ok e (EncodeExtension t n m) \<longleftrightarrow>
     0 < n \<and> (has_flag m kHpb_FieldModifier_IsClosedEnum \<longrightarrow> t = FieldType_Enum)"
| "enc_call_ok e (EncodeMap kt vt km vm) \<longleftrightarrow>
     (has_flag km kHpb_FieldModifier_IsClosedEnum \<longrightarrow> kt = FieldType_Enum) \<and>
     (has_flag vm kHpb_FieldModifier_IsClosedEnum \<longrightarrow> vt = FieldType_Enum)"
| "enc_call_ok e _ \<longleftrightarrow> True"

lemma PutField_ok:
  assumes "word1 e < field_num" and "length ptr + 9 \<le> e_end e"
    and "has_flag field_mod kHpb_FieldModifier_IsClosedEnum \<longrightarrow> type = FieldType_Enum"
  shows "\<exists>out. hpb_MtDataEncoder_PutField e ptr type field_num field_mod =
    Inr ((hpb_MtDataEncoder_GetInternal e ptr)\<lparr>word1 := field_num\<rparr>, ptr @ out) \<and>
    length out \<le> (if word1 e + 1 = field_num then 2 else 9)"
proof -
  let ?e = "hpb_MtDataEncoder_GetInternal e ptr"
  have r: "room ?e ptr (2 + 7)"
    using assms(2) by simp
  obtain o1 where o1: "hpb_MtDataEncoder_MaybePutFieldSkip ?e ptr field_num =
      Inr (?e\<lparr>word1 := field_num\<rparr>, ptr @ o1)" "length o1 \<le> (if word1 e + 1 = field_num then 0 else 7)"
    using MaybePutFieldSkip_ok [OF _ r] assms(1) by fastforce
  let ?e1 = "?e\<lparr>word1 := field_num\<rparr>"
  have r1: "room ?e1 (ptr @ o1) (Suc 1)"
    using room_mono [OF r, of "length o1 + 2"] o1(2) by (simp add: room_append split: if_splits)
  obtain c where c: "hpb_MtDataEncoder_PutFieldType ?e1 (ptr @ o1) type field_mod = Inr ((ptr @ o1) @ [c])"
    using PutFieldType_ok [OF assms(3) r1] by blast
  have r2: "room ?e1 ((ptr @ o1) @ [c]) (Suc 0)"
    using r1 by (simp only: room_append) simp
  obtain o2 where o2: "hpb_MtDataEncoder_MaybePutModifiers ?e1 ((ptr @ o1) @ [c]) type field_mod =
      Inr (((ptr @ o1) @ [c]) @ o2)" "length o2 \<le> 1"
    using MaybePutModifiers_ok [OF r2] by blast
  have "hpb_MtDataEncoder_PutField e ptr type field_num field_mod = Inr (?e1, ptr @ (o1 @ [c] @ o2))"
    using o1(1) c o2(1) by (simp add: hpb_MtDataEncoder_PutField_def)
  moreover have "length (o1 @ [c] @ o2) \<le> (if word1 e + 1 = field_num then 2 else 9)"
    using o1(2) o2(2) by (simp split: if_splits)
  ultimately show ?thesis
    by blast
qed

lemma FlushDenseEnumMask_ok:
  assumes "word0 e < 32" and "room e ptr (Suc n)"
  shows "hpb_MtDataEncoder_FlushDenseEnumMask e ptr =
    Inr (e\<lparr>word0 := 0, word1 := word1 e + 5\<rparr>, ptr @ [kHpb_ToBase92 ! unat (word0 e)])"
proof -
  have "unat (word0 e) < 32"
    using assms(1) by (simp add: word_less_nat_alt)
  then show ?thesis
    using Put_ok [OF assms(2), of "ucast (word0 e)"]
    by (simp add: hpb_MtDataEncoder_FlushDenseEnumMask_def unat_ucast_mod)
qed

text \<open>The result of \<open>PutEnumValue\<close> on each of its paths.\<close>

definition enum_skip :: "u32 \<Rightarrow> byte list" where
  "enum_skip delta = (if delta \<ge> 5 then base92_text 60 5 delta else [])"

definition enum_flush :: "u64 \<Rightarrow> byte list" where
  "enum_flush present_mask = (if present_mask \<noteq> 0 then [kHpb_ToBase92 ! unat present_mask] else [])"

definition enum_add :: "hpb_MtDataEncoder \<Rightarrow> u32 \<Rightarrow> hpb_MtDataEncoder" where
  "enum_add e delta =
     (if delta \<ge> 5 then e\<lparr>word1 := word1 e + delta, word0 := 1\<rparr>
      else e\<lparr>word0 := word0 e OR push_bit (unat delta) 1\<rparr>)"

lemma PutEnumValue_ok:
  assumes ok: "enc_call_ok e (PutEnumValue val)" and len: "length ptr + 8 \<le> e_end e"
  shows "hpb_MtDataEncoder_PutEnumValue e ptr val =
    (let e1 = hpb_MtDataEncoder_GetInternal e ptr; delta = val - word1 e
     in if delta < 5 then Inr (enum_add e1 delta, ptr)
        else if word0 e = 0 then Inr (enum_add e1 delta, ptr @ enum_skip delta)
        else Inr (enum_add (e1\<lparr>word0 := 0, word1 := word1 e + 5\<rparr>) (delta - 5),
                  ptr @ enum_flush (word0 e) @ enum_skip (delta - 5)))"
proof -
  let ?e1 = "hpb_MtDataEncoder_GetInternal e ptr" and ?delta = "val - word1 e"
  have v: "\<not> val < word1 e" "word0 e < 32" "drop_bit (unat ?delta) (word0 e) = 0"
    using ok by (simp_all add: not_less)
  have r: "room ?e1 ptr (Suc 7)"
    using len by simp
  have skip: "hpb_MtDataEncoder_PutBase92Varint e' ptr' d kHpb_EncodedValue_MinSkip kHpb_EncodedValue_MaxSkip
      = Inr (ptr' @ base92_text 60 5 d)" if "room e' ptr' 7" for e' ptr' d
    by (rule skip_range.PutBase92Varint_ok, rule room_mono [OF that text_length_bounds(1)])
  have r7: "room ?e1 ptr 7"
    using r by (rule room_mono) simp
  let ?e2 = "?e1\<lparr>word0 := 0, word1 := word1 ?e1 + 5\<rparr>"
    and ?p2 = "ptr @ [kHpb_ToBase92 ! unat (word0 ?e1)]"
  have flush: "hpb_MtDataEncoder_FlushDenseEnumMask ?e1 ptr = Inr (?e2, ?p2)"
    by (rule FlushDenseEnumMask_ok [OF _ r]) (simp add: v(2))
  have r2: "room ?e2 ?p2 7"
    using r by (simp only: room_append room_update) simp
  consider "?delta < 5" | "5 \<le> ?delta" "word0 e = 0" | "5 \<le> ?delta" "word0 e \<noteq> 0"
    by (meson not_le)
  then show ?thesis
  proof cases
    case 1
    then have "\<not> 5 \<le> ?delta" by (simp add: not_le)
    then show ?thesis
      using v 1 by (simp add: hpb_MtDataEncoder_PutEnumValue_def Let_def enum_add_def not_less)
  next
    case 2
    then have "\<not> ?delta < 5" by (simp add: not_less)
    then show ?thesis
      using v 2 skip [OF r7, of ?delta]
      by (simp add: hpb_MtDataEncoder_PutEnumValue_def Let_def enum_add_def enum_skip_def not_less)
  next
    case 3
    then have "\<not> ?delta < 5" by (simp add: not_less)
    then show ?thesis
      using v 3 flush skip [OF r2, of "?delta - 5"]
      by (simp add: hpb_MtDataEncoder_PutEnumValue_def Let_def enum_add_def enum_skip_def
          enum_flush_def not_less)
  qed
qed

text \<open>Each remaining call, given the documented room.\<close>

lemma StartMessage_ok:
  assumes "length ptr + 16 \<le> e_end e"
  shows "\<exists>e' out. hpb_MtDataEncoder_StartMessage e ptr m = Inr (e', ptr @ out) \<and>
    e_end e' = e_end e \<and> length out \<le> 16"
proof -
  let ?e = "start_msg_state m (hpb_MtDataEncoder_GetInternal e ptr)"
  have r: "room ?e ptr (Suc 8)"
    using assms by simp
  have "room ?e (ptr @ [kHpb_EncodedVersion_MessageV1]) (0 + 8)"
    using r by (simp only: room_append) simp
  then obtain out where "hpb_MtDataEncoder_PutModifier ?e (ptr @ [kHpb_EncodedVersion_MessageV1]) m =
      Inr ((ptr @ [kHpb_EncodedVersion_MessageV1]) @ out)" "length out \<le> 8"
    using PutModifier_ok by blast
  then show ?thesis
    using PutRaw_ok [OF r, of kHpb_EncodedVersion_MessageV1]
    by (simp add: hpb_MtDataEncoder_StartMessage_def Let_def) (simp add: start_msg_state_def)
qed

lemma EncodeExtension_ok:
  assumes "length ptr + 16 \<le> e_end e" and "0 < n"
    and "has_flag m kHpb_FieldModifier_IsClosedEnum \<longrightarrow> t = FieldType_Enum"
  shows "\<exists>e' out. hpb_MtDataEncoder_EncodeExtension e ptr t n m = Inr (e', ptr @ out) \<and>
    e_end e' = e_end e \<and> length out \<le> 16"
proof -
  let ?e = "start_msg_state 0 (hpb_MtDataEncoder_GetInternal e ptr)"
  let ?p = "ptr @ [kHpb_EncodedVersion_ExtensionV1]"
  have r: "room ?e ptr (Suc 8)"
    using assms by simp
  have w: "word1 ?e = 0" "e_end ?e = e_end e"
    by (simp_all add: start_msg_state_def)
  obtain out where "hpb_MtDataEncoder_PutField ?e ?p t n m =
      Inr ((hpb_MtDataEncoder_GetInternal ?e ?p)\<lparr>word1 := n\<rparr>, ?p @ out)" "length out \<le> 9"
    using PutField_ok [of ?e n ?p m t] assms w by (auto split: if_splits)
  then show ?thesis
    using PutRaw_ok [OF r, of kHpb_EncodedVersion_ExtensionV1] w
    by (simp add: hpb_MtDataEncoder_EncodeExtension_def Let_def)
qed

lemma EncodeMap_ok:
  assumes "length ptr + 16 \<le> e_end e"
    and "has_flag km kHpb_FieldModifier_IsClosedEnum \<longrightarrow> kt = FieldType_Enum"
    and "has_flag vm kHpb_FieldModifier_IsClosedEnum \<longrightarrow> vt = FieldType_Enum"
  shows "\<exists>e' out. hpb_MtDataEncoder_EncodeMap e ptr kt vt km vm = Inr (e', ptr @ out) \<and>
    e_end e' = e_end e \<and> length out \<le> 16"
proof -
  let ?e = "start_msg_state 0 (hpb_MtDataEncoder_GetInternal e ptr)"
  let ?p = "ptr @ [kHpb_EncodedVersion_MapV1]"
  have r: "room ?e ptr (Suc 8)"
    using assms by simp
  have w: "word1 ?e = 0" "e_end ?e = e_end e"
    by (simp_all add: start_msg_state_def)
  obtain o1 where o1: "hpb_MtDataEncoder_PutField ?e ?p kt 1 km =
      Inr ((hpb_MtDataEncoder_GetInternal ?e ?p)\<lparr>word1 := 1\<rparr>, ?p @ o1)" "length o1 \<le> 2"
    using PutField_ok [of ?e 1 ?p km kt] assms w by auto
  let ?e1 = "(hpb_MtDataEncoder_GetInternal ?e ?p)\<lparr>word1 := 1\<rparr>"
  obtain o2 where o2: "hpb_MtDataEncoder_PutField ?e1 (?p @ o1) vt 2 vm =
      Inr ((hpb_MtDataEncoder_GetInternal ?e1 (?p @ o1))\<lparr>word1 := 2\<rparr>, (?p @ o1) @ o2)" "length o2 \<le> 2"
    using PutField_ok [of ?e1 2 "?p @ o1" vm vt] assms o1(2) w by auto
  show ?thesis
    using PutRaw_ok [OF r, of kHpb_EncodedVersion_MapV1] o1 o2 w
    by (simp add: hpb_MtDataEncoder_EncodeMap_def Let_def)
qed

lemma separator_indices:
  "hpb_FromBase92 kHpb_EncodedValue_End = 59" "hpb_FromBase92 kHpb_EncodedValue_OneofSeparator = 91"
  "hpb_FromBase92 kHpb_EncodedValue_FieldSeparator = 89"
  by (simp_all add: kHpb_EncodedValue_defs hpb_FromBase92_def kHpb_FromBase92_def)

lemma oneof_bounds:
  "hpb_ToBase92 0 = Inr kHpb_EncodedValue_MinOneofField"
  "hpb_ToBase92 63 = Inr kHpb_EncodedValue_MaxOneofField"
  by (simp_all add: hpb_ToBase92_def kHpb_EncodedValue_defs kHpb_ToBase92_def)

lemma StartOneof_ok:
  assumes "length ptr + 16 \<le> e_end e"
  shows "\<exists>e' out. hpb_MtDataEncoder_StartOneof e ptr = Inr (e', ptr @ out) \<and>
    e_end e' = e_end e \<and> length out \<le> 16"
proof -
  have "room (hpb_MtDataEncoder_GetInternal e ptr) ptr (Suc 0)"
    using assms by simp
  then show ?thesis
    using Put_ok [of "hpb_MtDataEncoder_GetInternal e ptr" ptr 0]
    by (auto simp: hpb_MtDataEncoder_StartOneof_def Let_def separator_indices)
qed

lemma PutOneofField_ok:
  assumes "length ptr + 16 \<le> e_end e"
  shows "\<exists>e' out. hpb_MtDataEncoder_PutOneofField e ptr n = Inr (e', ptr @ out) \<and>
    e_end e' = e_end e \<and> length out \<le> 16"
proof -
  let ?e = "hpb_MtDataEncoder_GetInternal e ptr"
  have r: "room ?e ptr (Suc 6)"
    using assms by simp
  obtain o1 where o1: "(if oneof_st ?e = OneofState_EmittedOneofField
      then hpb_MtDataEncoder_Put ?e ptr
             (word_of_int (hpb_FromBase92 kHpb_EncodedValue_FieldSeparator))
      else Inr ptr) = Inr (ptr @ o1)" "length o1 \<le> 1"
    using Put_ok [OF r, of 89]
    by (cases "oneof_st ?e = OneofState_EmittedOneofField") (auto simp: separator_indices)
  have "room ?e (ptr @ o1) (length (base92_text 0 6 n))"
    using room_mono [OF r, of "length o1 + length (base92_text 0 6 n)"] o1(2)
      text_length_bounds(3) [of n] by (simp add: room_append)
  then show ?thesis
    using o1 oneof_range.PutBase92Varint_ok [of ?e "ptr @ o1" n] text_length_bounds(3) [of n]
    by (auto simp: hpb_MtDataEncoder_PutOneofField_def Let_def oneof_bounds)
qed

lemma enum_add_end [simp]: "e_end (enum_add e d) = e_end e"
  by (simp add: enum_add_def)

lemma PutEnumValue_room:
  assumes "enc_call_ok e (PutEnumValue v)" and "length ptr + 16 \<le> e_end e"
  shows "\<exists>e' out. hpb_MtDataEncoder_PutEnumValue e ptr v = Inr (e', ptr @ out) \<and>
    e_end e' = e_end e \<and> length out \<le> 16"
proof -
  have "length (enum_skip d) \<le> 7" for d
    using text_length_bounds(1) [of d] by (simp add: enum_skip_def)
  moreover have "length (enum_flush m) \<le> 1" for m
    by (simp add: enum_flush_def)
  ultimately have "length (enum_flush m @ enum_skip d) \<le> 16" "length (enum_skip d) \<le> 16" for m d
    by (simp_all add: le_trans [OF add_mono [of _ 1 _ 7]] le_trans [of _ 7 16])
  moreover have "length ptr + 8 \<le> e_end e"
    using assms(2) by simp
  ultimately show ?thesis
    using PutEnumValue_ok [OF assms(1)] by (auto simp: Let_def)
qed

lemma EndEnum_ok:
  assumes "word0 e < 32" and "length ptr + 16 \<le> e_end e"
  shows "hpb_MtDataEncoder_EndEnum e ptr =
    Inr (if word0 e = 0 then hpb_MtDataEncoder_GetInternal e ptr
         else (hpb_MtDataEncoder_GetInternal e ptr)\<lparr>word0 := 0, word1 := word1 e + 5\<rparr>,
         ptr @ enum_flush (word0 e))"
  using FlushDenseEnumMask_ok [of "hpb_MtDataEncoder_GetInternal e ptr" ptr 0] assms
  by (simp add: hpb_MtDataEncoder_EndEnum_def Let_def enum_flush_def)

text \<open>
  C27: the guarantee of \<open>encode.h\<close>. Any call made in the documented order on a buffer with at
  least \<open>kHpb_MtDataEncoder_MinSize\<close> bytes left succeeds: it does not return \<open>NULL\<close>, no
  assertion of the encoder fails, it appends at most that many bytes and leaves the bytes
  already written untouched.
\<close>

theorem hpb_MtDataEncoder_min_size:
  assumes "enc_call_ok e call" and "length ptr + kHpb_MtDataEncoder_MinSize \<le> e_end e"
  shows "\<exists>e' out. enc_call_run e ptr call = Inr (e', ptr @ out) \<and> e_end e' = e_end e \<and>
    length out \<le> kHpb_MtDataEncoder_MinSize"
proof -
  have len: "length ptr + 16 \<le> e_end e"
    using assms(2) by (simp add: kHpb_MtDataEncoder_MinSize_def)
  have raw: "hpb_MtDataEncoder_PutRaw ((hpb_MtDataEncoder_GetInternal e ptr)\<lparr>word0 := x, word1 := y\<rparr>) ptr c
      = Inr (ptr @ [c])" "hpb_MtDataEncoder_PutRaw (hpb_MtDataEncoder_GetInternal e ptr) ptr c
      = Inr (ptr @ [c])" for x y c
    using len by (intro PutRaw_ok [where n = 0]; simp)+
  show ?thesis
    unfolding kHpb_MtDataEncoder_MinSize_def
  proof (cases call)
    case (PutField t n m)
    then show "\<exists>e' out. enc_call_run e ptr call = Inr (e', ptr @ out) \<and> e_end e' = e_end e \<and> length out \<le> 16"
      using PutField_ok [of e n ptr m t] assms(1) len by (fastforce split: if_splits)
  next
    case EndEnum
    then show "\<exists>e' out. enc_call_run e ptr call = Inr (e', ptr @ out) \<and> e_end e' = e_end e \<and> length out \<le> 16"
      using EndEnum_ok [of e ptr] assms(1) len by (simp add: enum_flush_def)
  qed (use assms(1) len raw StartMessage_ok StartOneof_ok PutOneofField_ok PutEnumValue_room
         EncodeExtension_ok EncodeMap_ok
       in \<open>simp_all add: hpb_MtDataEncoder_StartEnum_def hpb_MtDataEncoder_EncodeMessageSet_def Let_def\<close>)
qed

definition example_encoder :: hpb_MtDataEncoder where
  "example_encoder =
     \<lparr>e_end = 20, buf_start = 0, word0 = 0, word1 = 3, oneof_st = OneofState_NotStarted\<rparr>"

theorem hpb_MtDataEncoder_min_size_witness:
  "enc_call_ok example_encoder (PutField FieldType_Int32 1000 1) \<and>
    (\<exists>e' out. enc_call_run example_encoder [36, 48, 49] (PutField FieldType_Int32 1000 1)
        = Inr (e', [36, 48, 49] @ out) \<and>
      e_end e' = e_end example_encoder \<and> length out \<le> kHpb_MtDataEncoder_MinSize)"
proof -
  let ?e = example_encoder
  have ok: "enc_call_ok ?e (PutField FieldType_Int32 1000 1)"
    by (simp add: example_encoder_def has_flag_def modifier_defs)
  have "length [36, 48, 49 :: byte] + kHpb_MtDataEncoder_MinSize \<le> e_end ?e"
    by (simp add: example_encoder_def kHpb_MtDataEncoder_MinSize_def)
  then show ?thesis
    using ok hpb_MtDataEncoder_min_size [OF ok] by blast
qed

end
