(* ===== verification/MdDecoder.thy ===== *)
theory MdDecoder
  imports Descriptor
begin

text \<open>
  The base of the mini descriptor decoders (\<open>src/hpb/mini_descriptor/internal/decoder.h\<close>):
  the errors they report and the checked varint read. A call of
  \<open>hpb_MdDecoder_ErrorJmp\<close> leaves the decoder through \<open>longjmp\<close>, so every decoding step
  returns a sum whose left side is the reported error. The last three constructors are not
  reports of the code: they stand for a violated \<open>assert\<close>, for an access outside an array
  and for a loop that has not ended within its bound.
\<close>

datatype md_error =
    OutOfMemory
  | OverlongVarint
  | InvalidEnumVersion byte
  | UnexpectedCharacter byte
  | InvalidFieldType int
  | CannotFlipPacked u32
  | InvalidModifiers u32
  | SingularAndRequired u32
  | EmptyOneof
  | NoSuchFieldNumber u32
  | CannotAddToOneof u32
  | ExtensionMessageModifiers
  | ExtensionOneofs
  | InvalidChar byte
  | TooManyRequired
  | MessageTooLarge
  | MapEntryNumber u32 u32
  | MapEntryRepeated u32
  | MapEntryType u32 hpb_FieldType
  | FieldsInMap u16
  | MapEntryOneof
  | MessageSetLength nat
  | InvalidMessageVersion byte
  | InvalidExtensionVersion byte
  | AssertViolated
  | MemoryFault
  | LoopBound

definition hpb_MdDecoder_DecodeBase92Varint ::
  "byte list \<Rightarrow> byte \<Rightarrow> byte \<Rightarrow> byte \<Rightarrow> md_error + (u32 \<times> byte list)" where
  "hpb_MdDecoder_DecodeBase92Varint ptr first_ch min_ch max_ch =
     (case hpb_Base92_DecodeVarint ptr first_ch min_ch max_ch of
        None \<Rightarrow> Inl OverlongVarint | Some r \<Rightarrow> Inr r)"

lemma DecodeVarint_loop_length:
  "hpb_Base92_DecodeVarint_loop mn mx b ch v sh ptr = Some (r, ptr') \<Longrightarrow> length ptr' \<le> length ptr"
proof (induction ptr arbitrary: ch v sh)
  case (Cons c ptr)
  then show ?case
    by (auto simp: hpb_Base92_DecodeVarint_loop.simps Let_def split: if_splits intro: le_SucI)
qed (simp add: hpb_Base92_DecodeVarint_loop.simps)

lemma DecodeBase92Varint_length:
  "hpb_MdDecoder_DecodeBase92Varint ptr ch mn mx = Inr (r, ptr') \<Longrightarrow> length ptr' \<le> length ptr"
  by (auto simp: hpb_MdDecoder_DecodeBase92Varint_def hpb_Base92_DecodeVarint_def
      split: option.splits dest: DecodeVarint_loop_length)

section \<open>Reasoning about decoding steps\<close>

text \<open>
  \<open>fault\<close> singles out the outcomes that no caller can handle. \<open>outcome P r\<close>: the step does
  not fault, and its result, if it has one, satisfies \<open>P\<close>.
\<close>

definition fault :: "md_error \<Rightarrow> bool" where
  "fault e \<longleftrightarrow> e = AssertViolated \<or> e = MemoryFault \<or> e = LoopBound"

definition outcome :: "('a \<Rightarrow> bool) \<Rightarrow> md_error + 'a \<Rightarrow> bool" where
  "outcome P r \<longleftrightarrow> (case r of Inl e \<Rightarrow> \<not> fault e | Inr a \<Rightarrow> P a)"

lemma outcome_simps [simp]:
  "outcome P (Inl e) \<longleftrightarrow> \<not> fault e"
  "outcome P (Inr a) \<longleftrightarrow> P a"
  by (simp_all add: outcome_def)

lemma outcome_bind:
  "outcome P x \<Longrightarrow> (\<And>a. x = Inr a \<Longrightarrow> P a \<Longrightarrow> outcome Q (f a)) \<Longrightarrow> outcome Q (res_bind x f)"
  by (cases x) auto

lemma outcome_mono: "outcome P x \<Longrightarrow> (\<And>a. x = Inr a \<Longrightarrow> P a \<Longrightarrow> Q a) \<Longrightarrow> outcome Q x"
  by (cases x) auto

lemma not_fault [simp]:
  "\<not> fault OutOfMemory" "\<not> fault OverlongVarint" "\<not> fault (InvalidFieldType i)"
  "\<not> fault (CannotFlipPacked n)" "\<not> fault (InvalidModifiers n)" "\<not> fault (SingularAndRequired n)"
  "\<not> fault EmptyOneof" "\<not> fault (NoSuchFieldNumber n)" "\<not> fault (CannotAddToOneof n)"
  "\<not> fault ExtensionMessageModifiers" "\<not> fault ExtensionOneofs" "\<not> fault (InvalidChar c)"
  "\<not> fault TooManyRequired" "\<not> fault MessageTooLarge" "\<not> fault (MapEntryNumber n m)"
  "\<not> fault (MapEntryRepeated n)" "\<not> fault (MapEntryType n ty)" "\<not> fault (FieldsInMap k)"
  "\<not> fault MapEntryOneof" "\<not> fault (MessageSetLength l)" "\<not> fault (InvalidMessageVersion c)"
  "\<not> fault (InvalidExtensionVersion c)"
  by (simp_all add: fault_def)

lemma DecodeBase92Varint_outcome:
  "outcome (\<lambda>(v, ptr'). length ptr' \<le> length ptr) (hpb_MdDecoder_DecodeBase92Varint ptr ch mn mx)"
  by (cases "hpb_MdDecoder_DecodeBase92Varint ptr ch mn mx")
    (auto simp: hpb_MdDecoder_DecodeBase92Varint_def split: option.splits dest: DecodeVarint_loop_length
      simp: hpb_Base92_DecodeVarint_def)

end
