(* ===== verification/MtEnum.thy ===== *)
theory MtEnum
  imports MtEncoder MdDecoder
begin

text \<open>
  Enum mini tables: the table and its membership tests (\<open>src/hpb/mini_table/internal/enum.h\<close>,
  \<open>enum.h\<close>), the decoder that builds it from a mini descriptor
  (\<open>src/hpb/mini_descriptor/build_enum.c\<close>), and the function that encodes an enum definition
  (\<open>hpb_EnumDef_MiniDescriptorEncode\<close> of \<open>src/hpb/reflection/enum_def.c\<close> with the growing
  buffer of \<open>desc_state.c\<close>).

  The allocator is a parameter \<open>alloc_ok\<close>: whether an allocation of that many bytes succeeds.
\<close>

section \<open>The table and its membership tests\<close>

record hpb_MiniTableEnum =
  mask_limit :: u32
  value_count :: u32
  data :: "u32 list"

text \<open>A read of \<open>e->data[i]\<close>; \<open>None\<close> is a read outside the array.\<close>

definition data_at :: "hpb_MiniTableEnum \<Rightarrow> nat \<Rightarrow> u32 option" where
  "data_at e i = (if i < length (data e) then Some (data e ! i) else None)"

datatype hpb_FastEnumCheck_Status = ValueIsInEnum | ValueIsNotInEnum | CannotCheckFast

definition hpb_MiniTable_CheckEnumValueFast ::
  "hpb_MiniTableEnum \<Rightarrow> u32 \<Rightarrow> hpb_FastEnumCheck_Status option" where
  "hpb_MiniTable_CheckEnumValueFast e val =
     (if val \<ge> 64 then Some CannotCheckFast
      else case (data_at e 0, data_at e 1) of
             (Some d0, Some d1) \<Rightarrow>
               let m = ucast d0 OR push_bit 32 (ucast d1) :: u64
               in Some (if m AND push_bit (unat val) 1 \<noteq> 0 then ValueIsInEnum else ValueIsNotInEnum)
           | _ \<Rightarrow> None)"

fun scan_values :: "hpb_MiniTableEnum \<Rightarrow> u32 \<Rightarrow> nat \<Rightarrow> nat \<Rightarrow> bool option" where
  "scan_values e val p 0 = Some False"
| "scan_values e val p (Suc n) =
     (case data_at e p of
        None \<Rightarrow> None
      | Some x \<Rightarrow> if x = val then Some True else scan_values e val (Suc p) n)"

definition hpb_MiniTable_CheckEnumValueSlow :: "hpb_MiniTableEnum \<Rightarrow> u32 \<Rightarrow> bool option" where
  "hpb_MiniTable_CheckEnumValueSlow e val =
     (if val < mask_limit e
      then map_option (\<lambda>d. (ucast d :: u64) AND push_bit (unat (val mod 32)) 1 \<noteq> 0)
             (data_at e (unat (val div 32)))
      else scan_values e val (unat (mask_limit e div 32)) (unat (value_count e)))"

definition hpb_MiniTableEnum_CheckValue :: "hpb_MiniTableEnum \<Rightarrow> u32 \<Rightarrow> bool option" where
  "hpb_MiniTableEnum_CheckValue e val =
     (case hpb_MiniTable_CheckEnumValueFast e val of
        None \<Rightarrow> None
      | Some CannotCheckFast \<Rightarrow> hpb_MiniTable_CheckEnumValueSlow e val
      | Some status \<Rightarrow> Some (status = ValueIsInEnum))"

section \<open>Building the table\<close>

record hpb_MdEnumDecoder =
  enum_table :: hpb_MiniTableEnum
  enum_value_count :: u32
  enum_data_count :: u32
  enum_data_capacity :: u32

definition hpb_MiniTableEnum_Size :: "nat \<Rightarrow> nat" where
  "hpb_MiniTableEnum_Size count = 8 + count * 4"

definition hpb_MiniTable_AddEnumDataMember ::
  "(nat \<Rightarrow> bool) \<Rightarrow> hpb_MdEnumDecoder \<Rightarrow> u32 \<Rightarrow> md_error + hpb_MdEnumDecoder" where
  "hpb_MiniTable_AddEnumDataMember alloc_ok d val =
     res_bind
       (if enum_data_count d = enum_data_capacity d
        then let cap = max 2 (enum_data_capacity d * 2)
             in if alloc_ok (hpb_MiniTableEnum_Size (unat cap))
                then Inr (d\<lparr>enum_data_capacity := cap\<rparr>) else Inl OutOfMemory
        else Inr d)
     (\<lambda>d. Inr (d\<lparr>enum_table := (enum_table d)\<lparr>data := data (enum_table d) @ [val]\<rparr>,
                 enum_data_count := enum_data_count d + 1\<rparr>))"

text \<open>The loop that grows the bit mask up to the word of \<open>val\<close>.\<close>

definition new_mask_limit :: "u32 \<Rightarrow> u32" where
  "new_mask_limit val = (val div 32 + 1) * 32"

lemma mask_limit_step:
  assumes "m < new_mask_limit val"
  shows "unat (m + 32) = unat m + 32"
proof -
  have "unat (y * 32) = (unat y * 32) mod 2 ^ 32" for y :: u32
    by (simp add: unat_word_ariths)
  then have "unat (new_mask_limit val) = (unat (val div 32 + 1) * 32) mod 2 ^ 32"
    unfolding new_mask_limit_def .
  moreover have "x * 32 mod 2 ^ 32 \<le> 2 ^ 32 - 32" for x :: nat
  proof -
    have "x * 32 mod 2 ^ 32 = (x mod 2 ^ 27) * 32"
      using mult_mod_left [of x "2 ^ 27" 32] by simp
    moreover have "x mod 2 ^ 27 \<le> 2 ^ 27 - 1"
      using mod_less_divisor [of "2 ^ 27" x] by (simp add: less_eq_Suc_le)
    ultimately show ?thesis by simp
  qed
  ultimately have "unat (new_mask_limit val) \<le> 2 ^ 32 - 32"
    by metis
  then have "unat m + 32 < 2 ^ 32"
    using assms by (simp add: word_less_nat_alt)
  then show ?thesis
    by (simp add: unat_word_ariths)
qed

function grow_mask ::
  "(nat \<Rightarrow> bool) \<Rightarrow> u32 \<Rightarrow> hpb_MdEnumDecoder \<Rightarrow> md_error + hpb_MdEnumDecoder" where
  "grow_mask alloc_ok val d =
     (if mask_limit (enum_table d) < new_mask_limit val
      then res_bind (hpb_MiniTable_AddEnumDataMember alloc_ok d 0)
             (\<lambda>d. grow_mask alloc_ok val
                    (d\<lparr>enum_table := (enum_table d)\<lparr>mask_limit := mask_limit (enum_table d) + 32\<rparr>\<rparr>))
      else Inr d)"
  by pat_completeness auto
termination
proof (relation "measure (\<lambda>(alloc_ok, val, d). unat (new_mask_limit val) - unat (mask_limit (enum_table d)))")
  fix alloc_ok val d d'
  assume less: "mask_limit (enum_table d) < new_mask_limit val"
    and "hpb_MiniTable_AddEnumDataMember alloc_ok d 0 = Inr d'"
  then have "mask_limit (enum_table d') = mask_limit (enum_table d)"
    by (auto simp: hpb_MiniTable_AddEnumDataMember_def res_bind_Inr_iff Let_def split: if_splits)
  then show "((alloc_ok, val, d'\<lparr>enum_table := (enum_table d')\<lparr>mask_limit := mask_limit (enum_table d') + 32\<rparr>\<rparr>),
      alloc_ok, val, d) \<in> measure (\<lambda>(alloc_ok, val, d). unat (new_mask_limit val) - unat (mask_limit (enum_table d)))"
    using less mask_limit_step [OF less] by (simp add: word_less_nat_alt diff_less_mono2)
qed simp

declare grow_mask.simps [simp del]

definition hpb_MiniTableEnum_BuildValue ::
  "(nat \<Rightarrow> bool) \<Rightarrow> hpb_MdEnumDecoder \<Rightarrow> u32 \<Rightarrow> md_error + hpb_MdEnumDecoder" where
  "hpb_MiniTableEnum_BuildValue alloc_ok d val =
     (let d = d\<lparr>enum_value_count := enum_value_count d + 1\<rparr>;
          table = enum_table d
      in if value_count table \<noteq> 0 \<or> (val > 512 \<and> enum_value_count d < val div 32)
         then
           if value_count table = 0 \<and> enum_data_count d \<noteq> mask_limit table div 32
           then Inl AssertViolated
           else res_bind (hpb_MiniTable_AddEnumDataMember alloc_ok d val)
             (\<lambda>d. Inr (d\<lparr>enum_table :=
                (enum_table d)\<lparr>value_count := value_count (enum_table d) + 1\<rparr>\<rparr>))
         else res_bind (grow_mask alloc_ok val d)
           (\<lambda>d. let table = enum_table d; i = unat (val div 32)
                in if i < length (data table)
                   then Inr (d\<lparr>enum_table := table\<lparr>data := (data table)[i :=
                          data table ! i OR push_bit (unat (val mod 32)) 1]\<rparr>\<rparr>)
                   else Inl MemoryFault))"

fun build_mask ::
  "(nat \<Rightarrow> bool) \<Rightarrow> nat \<Rightarrow> u32 \<Rightarrow> u32 \<Rightarrow> hpb_MdEnumDecoder \<Rightarrow> md_error + (hpb_MdEnumDecoder \<times> u32)" where
  "build_mask alloc_ok 0 m base d = Inr (d, base)"
| "build_mask alloc_ok (Suc i) m base d =
     res_bind (if m AND 1 \<noteq> 0 then hpb_MiniTableEnum_BuildValue alloc_ok d base else Inr d)
       (\<lambda>d. build_mask alloc_ok i (drop_bit 1 m) (base + 1) d)"

function enum_decode_loop ::
  "(nat \<Rightarrow> bool) \<Rightarrow> byte list \<Rightarrow> u32 \<Rightarrow> hpb_MdEnumDecoder \<Rightarrow> md_error + hpb_MdEnumDecoder" where
  "enum_decode_loop alloc_ok [] base d = Inr d"
| "enum_decode_loop alloc_ok (ch # ptr) base d =
     (if schar ch \<le> schar kHpb_EncodedValue_MaxEnumMask
      then res_bind (build_mask alloc_ok 5 (word_of_int (hpb_FromBase92 ch)) base d)
             (\<lambda>(d, base). enum_decode_loop alloc_ok ptr base d)
      else if schar kHpb_EncodedValue_MinSkip \<le> schar ch \<and> schar ch \<le> schar kHpb_EncodedValue_MaxSkip
      then res_bind (hpb_MdDecoder_DecodeBase92Varint ptr ch
                       kHpb_EncodedValue_MinSkip kHpb_EncodedValue_MaxSkip)
             (\<lambda>(skip, ptr). enum_decode_loop alloc_ok ptr (base + skip) d)
      else Inl (UnexpectedCharacter ch))"
  by pat_completeness auto
termination
  by (relation "measure (\<lambda>(alloc_ok, ptr, base, d). length ptr)")
    (auto dest: DecodeBase92Varint_length)

definition hpb_MtDecoder_DoBuildMiniTableEnum ::
  "(nat \<Rightarrow> bool) \<Rightarrow> hpb_MdEnumDecoder \<Rightarrow> byte list \<Rightarrow> md_error + hpb_MiniTableEnum" where
  "hpb_MtDecoder_DoBuildMiniTableEnum alloc_ok d ptr =
     res_bind
       (case ptr of [] \<Rightarrow> Inr []
        | v # rest \<Rightarrow> if v \<noteq> kHpb_EncodedVersion_EnumV1 then Inl (InvalidEnumVersion v) else Inr rest)
     (\<lambda>ptr. if \<not> alloc_ok (hpb_MiniTableEnum_Size 2) then Inl OutOfMemory
       else res_bind (hpb_MiniTable_AddEnumDataMember alloc_ok
              (d\<lparr>enum_table := (enum_table d)\<lparr>mask_limit := 64\<rparr>\<rparr>) 0)
         (\<lambda>d. res_bind (hpb_MiniTable_AddEnumDataMember alloc_ok d 0)
         (\<lambda>d. res_bind (enum_decode_loop alloc_ok ptr 0
                           (d\<lparr>enum_table := (enum_table d)\<lparr>value_count := 0\<rparr>\<rparr>))
         (\<lambda>d. Inr (enum_table d)))))"

text \<open>
  \<open>Inl\<close> is the \<open>NULL\<close> return with the status message. The initial allocation is the one
  whose result \<open>DoBuildMiniTableEnum\<close> checks after the version character.
\<close>

definition hpb_MiniDescriptor_BuildEnum ::
  "(nat \<Rightarrow> bool) \<Rightarrow> byte list \<Rightarrow> md_error + hpb_MiniTableEnum" where
  "hpb_MiniDescriptor_BuildEnum alloc_ok ptr =
     hpb_MtDecoder_DoBuildMiniTableEnum alloc_ok
       \<lparr>enum_table = \<lparr>mask_limit = 0, value_count = 0, data = []\<rparr>,
        enum_value_count = 0, enum_data_count = 0, enum_data_capacity = 1\<rparr> ptr"

section \<open>Encoding an enum definition\<close>

record hpb_DescState =
  ds_e :: hpb_MtDataEncoder
  bufsize :: nat
  buf_ok :: bool
  ds_ptr :: out_ptr

definition hpb_DescState_Init :: "hpb_MtDataEncoder \<Rightarrow> hpb_DescState" where
  "hpb_DescState_Init e =
     \<lparr>ds_e = e, bufsize = kHpb_MtDataEncoder_MinSize * 2, buf_ok = False, ds_ptr = []\<rparr>"

text \<open>\<open>None\<close> is the return value \<open>false\<close>.\<close>

definition hpb_DescState_Grow :: "(nat \<Rightarrow> bool) \<Rightarrow> hpb_DescState \<Rightarrow> hpb_DescState option" where
  "hpb_DescState_Grow alloc_ok d =
     (let oldbufsize = bufsize d; used = length (ds_ptr d)
      in Option.bind
        (if \<not> buf_ok d
         then if alloc_ok (bufsize d)
              then Some (d\<lparr>buf_ok := True, ds_e := (ds_e d)\<lparr>e_end := bufsize d\<rparr>\<rparr>) else None
         else Some d)
        (\<lambda>d. if oldbufsize - used < kHpb_MtDataEncoder_MinSize
             then if alloc_ok (bufsize d * 2)
                  then Some (d\<lparr>bufsize := bufsize d * 2,
                               ds_e := (ds_e d)\<lparr>e_end := bufsize d * 2\<rparr>\<rparr>) else None
             else Some d))"

text \<open>Growing the buffer and then making one encoder call on it.\<close>

definition grow_and_call ::
  "(nat \<Rightarrow> bool) \<Rightarrow> enc_call \<Rightarrow> hpb_DescState \<Rightarrow> c_fail + hpb_DescState" where
  "grow_and_call alloc_ok call s =
     (case hpb_DescState_Grow alloc_ok s of
        None \<Rightarrow> Inl NullPtr
      | Some s \<Rightarrow> res_bind (enc_call_run (ds_e s) (ds_ptr s) call)
          (\<lambda>(e, ptr). Inr (s\<lparr>ds_e := e, ds_ptr := ptr\<rparr>)))"

fun put_enum_values ::
  "(nat \<Rightarrow> bool) \<Rightarrow> u32 option \<Rightarrow> u32 list \<Rightarrow> hpb_DescState \<Rightarrow> c_fail + hpb_DescState" where
  "put_enum_values alloc_ok previous [] s = Inr s"
| "put_enum_values alloc_ok previous (current # vs) s =
     (if previous = Some current then put_enum_values alloc_ok previous vs s
      else res_bind (grow_and_call alloc_ok (PutEnumValue current) s)
             (put_enum_values alloc_ok (Some current) vs))"

definition hpb_EnumValueDefs_Sorted :: "(nat \<Rightarrow> bool) \<Rightarrow> u32 list \<Rightarrow> u32 list option" where
  "hpb_EnumValueDefs_Sorted alloc_ok v =
     (if alloc_ok (length v * 8) then Some (sort v) else None)"

text \<open>
  The enum definition is its list of numbers (as \<open>uint32_t\<close>) and its \<open>is_sorted\<close> flag; the
  encoder \<open>e\<close> is the uninitialised one on the C stack.
\<close>

definition hpb_EnumDef_MiniDescriptorEncode ::
  "(nat \<Rightarrow> bool) \<Rightarrow> hpb_MtDataEncoder \<Rightarrow> bool \<Rightarrow> u32 list \<Rightarrow> c_fail + byte list" where
  "hpb_EnumDef_MiniDescriptorEncode alloc_ok e is_sorted values =
     (case (if \<not> is_sorted then hpb_EnumValueDefs_Sorted alloc_ok values else Some values) of
        None \<Rightarrow> Inl NullPtr
      | Some sorted_values \<Rightarrow>
          res_bind (grow_and_call alloc_ok StartEnum (hpb_DescState_Init e))
            (\<lambda>s. res_bind (put_enum_values alloc_ok None sorted_values s)
            (\<lambda>s. res_bind (grow_and_call alloc_ok EndEnum s)
            (\<lambda>s. if \<not> length (ds_ptr s) < bufsize s then Inl AssertFail else Inr (ds_ptr s)))))"

section \<open>What the decoder makes of the encoder's text\<close>

fun build_values ::
  "(nat \<Rightarrow> bool) \<Rightarrow> u32 list \<Rightarrow> hpb_MdEnumDecoder \<Rightarrow> md_error + hpb_MdEnumDecoder" where
  "build_values alloc_ok [] d = Inr d"
| "build_values alloc_ok (v # vs) d =
     res_bind (hpb_MiniTableEnum_BuildValue alloc_ok d v) (build_values alloc_ok vs)"

lemma res_bind_assoc: "res_bind (res_bind x f) g = res_bind x (\<lambda>a. res_bind (f a) g)"
  by (cases x) simp_all

lemma build_values_append:
  "build_values alloc_ok (xs @ ys) d = res_bind (build_values alloc_ok xs d) (build_values alloc_ok ys)"
proof (induction xs arbitrary: d)
  case (Cons v xs)
  then show ?case
    by (cases "hpb_MiniTableEnum_BuildValue alloc_ok d v") simp_all
qed simp

definition mask_values :: "nat \<Rightarrow> 'a::len word \<Rightarrow> u32 \<Rightarrow> u32 list" where
  "mask_values n m base = map (\<lambda>i. base + of_nat i) (filter (bit m) [0..<n])"

lemma mask_values_Suc:
  "mask_values (Suc n) m base = (if bit m 0 then [base] else []) @ mask_values n (drop_bit 1 m) (base + 1)"
proof -
  have "[0..<Suc n] = 0 # map Suc [0..<n]"
    by (simp add: upt_conv_Cons map_Suc_upt)
  moreover have "bit (drop_bit 1 m) = bit m \<circ> Suc"
    by (simp add: fun_eq_iff bit_drop_bit_eq)
  ultimately show ?thesis
    by (simp add: mask_values_def filter_map add.assoc del: upt_Suc)
qed

lemma build_mask_eq:
  "build_mask alloc_ok n m base d =
     res_bind (build_values alloc_ok (mask_values n m base) d) (\<lambda>d. Inr (d, base + of_nat n))"
proof (induction n arbitrary: m base d)
  case 0
  then show ?case by (simp add: mask_values_def)
next
  case (Suc n)
  have "m AND 1 \<noteq> 0 \<longleftrightarrow> bit m 0"
    by (simp add: bit_0 and_one_eq odd_iff_mod_2_eq_one)
  then show ?case
    by (cases "hpb_MiniTableEnum_BuildValue alloc_ok d base")
      (simp_all add: mask_values_Suc Suc.IH add.assoc)
qed

text \<open>Decoding one mask character and one skip.\<close>

lemma enum_decode_mask:
  fixes m :: u64
  assumes "m < 32"
  shows "enum_decode_loop alloc_ok (kHpb_ToBase92 ! unat m # ptr) base d =
    res_bind (build_values alloc_ok (mask_values 5 m base) d) (enum_decode_loop alloc_ok ptr (base + 5))"
proof -
  have m: "unat m < 32"
    using assms by (simp add: word_less_nat_alt)
  have A: "schar kHpb_EncodedValue_MaxEnumMask = uint (kHpb_ToBase92 ! 31)"
    by (simp add: kHpb_EncodedValue_defs kHpb_ToBase92_def sint_byte)
  have le: "schar (kHpb_ToBase92 ! unat m) \<le> schar kHpb_EncodedValue_MaxEnumMask"
    unfolding A using m uint_To_Base92_mono_le [of "unat m" 31] by (simp add: schar_To_Base92)
  have "word_of_int (hpb_FromBase92 (kHpb_ToBase92 ! unat m)) = (ucast m :: u32)"
    using m by (simp add: From_To_Base92 unsigned_ucast_eq)
  moreover have "filter (bit (ucast m :: u32)) [0..<5] = filter (bit m) [0..<5]"
    by (rule filter_cong) (auto simp: bit_ucast_iff)
  then have "mask_values 5 (ucast m :: u32) base = mask_values 5 m base"
    by (simp add: mask_values_def)
  ultimately show ?thesis
    using le by (cases "build_values alloc_ok (mask_values 5 m base) d")
      (simp_all add: build_mask_eq)
qed

lemma enum_decode_skip:
  assumes "stops_at kHpb_EncodedValue_MinSkip kHpb_EncodedValue_MaxSkip rest"
  shows "enum_decode_loop alloc_ok (base92_text 60 5 skip @ rest) base d =
    enum_decode_loop alloc_ok rest (base + skip) d"
proof -
  obtain c cs where t: "base92_text 60 5 skip = c # cs"
    by (meson base92_text_nonempty neq_Nil_conv)
  have "uint kHpb_EncodedValue_MinSkip = 95" "uint kHpb_EncodedValue_MaxSkip = 126"
    "schar kHpb_EncodedValue_MinSkip = 95" "schar kHpb_EncodedValue_MaxSkip = 126"
    "schar kHpb_EncodedValue_MaxEnumMask = 65"
    by (simp_all add: kHpb_EncodedValue_defs sint_byte)
  then show ?thesis
    using skip_range.text_head_in_range [OF t] skip_range.decode_text [OF t assms] t
    by (simp add: hpb_MdDecoder_DecodeBase92Varint_def)
qed

declare enum_decode_loop.simps(2) [simp del]

lemma stops_at_mask:
  assumes "m < (32 :: u64)"
  shows "stops_at kHpb_EncodedValue_MinSkip kHpb_EncodedValue_MaxSkip (kHpb_ToBase92 ! unat m # rest)"
proof -
  have "unat m < 32"
    using assms by (simp add: word_less_nat_alt)
  then have "uint (kHpb_ToBase92 ! unat m) < uint (kHpb_ToBase92 ! 60)"
    by (intro uint_To_Base92_mono) simp_all
  then have "uint (kHpb_ToBase92 ! unat m) < 95"
    by (simp add: uint_To_Base92)
  then show ?thesis
    using assms
    by (simp add: stops_at_def kHpb_EncodedValue_defs schar_To_Base92 word_less_nat_alt)
qed

text \<open>
  The encoder's invariant between two values. The text written so far decodes to
  \<open>flushed\<close>, the values whose mask has left the encoder, and leaves the decoder at
  \<open>word1\<close>; the other values are in the pending mask \<open>word0\<close>, the last one in its
  highest bit.
\<close>

definition decodes_to :: "(byte list \<Rightarrow> bool) \<Rightarrow> byte list \<Rightarrow> u32 list \<Rightarrow> u32 \<Rightarrow> bool" where
  "decodes_to P out vs base \<longleftrightarrow>
     (\<forall>alloc_ok d rest. P rest \<longrightarrow>
        enum_decode_loop alloc_ok (out @ rest) 0 d =
        res_bind (build_values alloc_ok vs d) (enum_decode_loop alloc_ok rest base))"

definition enum_text_inv :: "u32 list \<Rightarrow> u64 \<Rightarrow> u32 \<Rightarrow> byte list \<Rightarrow> bool" where
  "enum_text_inv vs m base out \<longleftrightarrow>
     m < 32 \<and> (m = 0 \<longleftrightarrow> vs = []) \<and> (vs = [] \<longrightarrow> out = [] \<and> base = 0) \<and>
     (vs \<noteq> [] \<longrightarrow> base \<le> last vs \<and> last vs - base < 5 \<and>
        (\<forall>i. bit m i \<longrightarrow> i \<le> unat (last vs - base))) \<and>
     (\<exists>flushed. vs = flushed @ mask_values 5 m base \<and>
        decodes_to (stops_at kHpb_EncodedValue_MinSkip kHpb_EncodedValue_MaxSkip) out flushed base)"

lemma enum_text_inv_start: "enum_text_inv [] 0 0 []"
  by (auto simp: enum_text_inv_def mask_values_def decodes_to_def)

lemma mask_values_top:
  fixes m :: u64
  assumes "k < 5" and "drop_bit k m = 0"
  shows "mask_values 5 (m OR push_bit k 1) base = mask_values 5 m base @ [base + of_nat k]"
proof -
  have upt: "[0..<5] = [0..<k] @ [k] @ [Suc k..<5]"
    using assms(1) upt_add_eq_append [of 0 k "5 - k"] upt_conv_Cons [of k 5] by simp
  have hi: "\<not> bit m i" if "k \<le> i" for i
  proof -
    have "\<not> bit (drop_bit k m) (i - k)" using assms(2) by simp
    then show ?thesis using that by (simp add: bit_drop_bit_eq)
  qed
  have "filter (bit (m OR push_bit k 1)) [0..<k] = filter (bit m) [0..<k]"
    by (rule filter_cong) (auto simp: bit_simps)
  moreover have "filter (bit (m OR push_bit k 1)) [Suc k..<5] = []"
    using hi by (auto simp: filter_empty_conv bit_simps)
  moreover have "filter (bit m) [Suc k..<5] = []" "\<not> bit m k"
    using hi by (auto simp: filter_empty_conv)
  moreover have "bit (m OR push_bit k 1) k"
    using assms(1) by (simp add: bit_simps)
  ultimately show ?thesis
    unfolding mask_values_def upt by simp
qed

lemma mask_values_single: "k < 5 \<Longrightarrow> mask_values 5 (push_bit k 1 :: u64) base = [base + of_nat k]"
  using mask_values_top [of k 0 base] by (simp add: mask_values_def)

lemma drop_bit_zero_of_high_bits:
  fixes m :: u64
  assumes "\<forall>i. bit m i \<longrightarrow> i \<le> j" and "j < k"
  shows "drop_bit k m = 0"
proof (rule bit_eqI)
  fix n
  show "bit (drop_bit k m) n = bit 0 n"
    using assms by (fastforce simp: bit_drop_bit_eq)
qed

lemma mask_add_bit_less:
  fixes m :: u64
  assumes "m < 32" and "k < 5"
  shows "m OR push_bit k 1 < 32"
proof -
  have "unat m < 2 ^ 5"
    using assms(1) by (simp add: word_less_nat_alt)
  moreover have "unat (push_bit k 1 :: u64) < 2 ^ 5"
    using assms(2) power_strict_increasing [of k 5 "2 :: nat"] by (simp add: unat_exp_2)
  ultimately show ?thesis
    using unat_or_less_exp [of m 5 "push_bit k 1"] by (simp add: word_less_nat_alt)
qed

text \<open>One value after another keeps the invariant.\<close>

lemma enum_inv_call_ok:
  assumes inv: "enum_text_inv vs (word0 e) (word1 e) out" and less: "vs \<noteq> [] \<longrightarrow> last vs < v"
  shows "enc_call_ok e (PutEnumValue v)"
proof (cases "vs = []")
  case True
  then have "word0 e = 0" "word1 e = 0"
    using inv by (auto simp: enum_text_inv_def)
  then show ?thesis by simp
next
  case False
  then have "word1 e \<le> last vs" "\<forall>i. bit (word0 e) i \<longrightarrow> i \<le> unat (last vs - word1 e)"
    "word0 e < 32" "last vs < v"
    using inv less by (auto simp: enum_text_inv_def)
  moreover from this have "unat (last vs - word1 e) < unat (v - word1 e)"
    by (simp add: unat_sub word_le_nat_alt word_less_nat_alt diff_less_mono)
  ultimately show ?thesis
    using drop_bit_zero_of_high_bits by auto
qed

lemma inv_flush:
  assumes "enum_text_inv vs m base out" and "vs \<noteq> []"
  shows "decodes_to (\<lambda>_. True) (out @ enum_flush m) vs (base + 5)"
proof -
  obtain flushed where vs: "vs = flushed @ mask_values 5 m base" and m: "m < 32" "m \<noteq> 0"
    and dec: "decodes_to (stops_at kHpb_EncodedValue_MinSkip kHpb_EncodedValue_MaxSkip) out flushed base"
    using assms by (auto simp: enum_text_inv_def)
  have "enum_decode_loop alloc_ok ((out @ enum_flush m) @ rest) 0 d =
      res_bind (build_values alloc_ok vs d) (enum_decode_loop alloc_ok rest (base + 5))" for alloc_ok d rest
    using dec stops_at_mask [OF m(1), of rest] m(2)
    by (cases "build_values alloc_ok flushed d")
      (simp_all add: decodes_to_def enum_flush_def vs build_values_append enum_decode_mask [OF m(1)])
  then show ?thesis
    by (simp add: decodes_to_def)
qed

lemma inv_add:
  assumes inv: "enum_text_inv vs m base out" and less: "vs \<noteq> [] \<longrightarrow> last vs < v"
    and delta: "base \<le> v" "v - base < 5"
  shows "enum_text_inv (vs @ [v]) (m OR push_bit (unat (v - base)) 1) base out"
proof -
  let ?k = "unat (v - base)"
  have k: "?k < 5"
    using delta(2) by (simp add: word_less_nat_alt)
  have hi: "i < ?k" if "bit m i" for i
  proof -
    have ne: "vs \<noteq> []"
      using inv that by (auto simp: enum_text_inv_def)
    then have "i \<le> unat (last vs - base)" "base \<le> last vs" "last vs < v"
      using inv less that by (auto simp: enum_text_inv_def)
    moreover from this have "unat (last vs - base) < ?k"
      by (simp add: unat_sub word_le_nat_alt word_less_nat_alt diff_less_mono)
    ultimately show ?thesis by simp
  qed
  have "drop_bit ?k m = 0"
    by (rule bit_eqI) (use hi in \<open>force simp: bit_drop_bit_eq\<close>)
  then have mv: "mask_values 5 (m OR push_bit ?k 1) base = mask_values 5 m base @ [v]"
    using mask_values_top [OF k] by simp
  have nz: "m OR push_bit ?k 1 \<noteq> 0"
    using k by (auto simp: bit_eq_iff bit_simps intro!: exI [of _ ?k])
  have "\<forall>i. bit (m OR push_bit ?k 1) i \<longrightarrow> i \<le> ?k"
    using hi by (auto simp: bit_simps intro: less_imp_le)
  moreover have "m < 32"
    using inv by (simp add: enum_text_inv_def)
  ultimately show ?thesis
    using inv delta mask_add_bit_less [OF _ k, of m] mv nz
    by (auto simp: enum_text_inv_def)
qed

lemma inv_single:
  assumes dec: "decodes_to (stops_at kHpb_EncodedValue_MinSkip kHpb_EncodedValue_MaxSkip) out vs base"
    and delta: "base \<le> v" "v - base < 5"
  shows "enum_text_inv (vs @ [v]) (push_bit (unat (v - base)) 1) base out"
proof -
  let ?k = "unat (v - base)"
  have k: "?k < 5"
    using delta(2) by (simp add: word_less_nat_alt)
  have "mask_values 5 (push_bit ?k 1 :: u64) base = [v]"
    using mask_values_single [OF k] by simp
  moreover have "push_bit ?k 1 \<noteq> (0 :: u64)"
    using k by (auto simp: bit_eq_iff bit_simps intro!: exI [of _ ?k])
  moreover have "\<forall>i. bit (push_bit ?k 1 :: u64) i \<longrightarrow> i \<le> ?k"
    by (auto simp: bit_simps)
  ultimately show ?thesis
    using dec delta mask_add_bit_less [OF _ k, of 0]
    by (auto simp: enum_text_inv_def)
qed

lemma decodes_to_skip:
  assumes "decodes_to (\<lambda>_. True) out vs base" and "5 \<le> delta"
  shows "decodes_to (stops_at kHpb_EncodedValue_MinSkip kHpb_EncodedValue_MaxSkip)
    (out @ enum_skip delta) vs (base + delta)"
  using assms enum_decode_skip
  by (simp add: decodes_to_def enum_skip_def fun_eq_iff cong: res_bind_cong)

lemma enum_inv_put:
  assumes inv: "enum_text_inv vs (word0 e) (word1 e) out" and less: "vs \<noteq> [] \<longrightarrow> last vs < v"
    and len: "length (hdr @ out) + 8 \<le> e_end e"
  shows "\<exists>e' out'. hpb_MtDataEncoder_PutEnumValue e (hdr @ out) v = Inr (e', hdr @ out') \<and>
    enum_text_inv (vs @ [v]) (word0 e') (word1 e') out'"
proof -
  let ?m = "word0 e" and ?b = "word1 e"
  let ?d = "v - ?b" and ?e1 = "hpb_MtDataEncoder_GetInternal e (hdr @ out)"
  have ok: "enc_call_ok e (PutEnumValue v)"
    using enum_inv_call_ok [OF inv less] .
  then have bv: "?b \<le> v"
    by simp
  note put = PutEnumValue_ok [OF ok len, unfolded Let_def]
  consider "?d < 5" | "5 \<le> ?d" "?m = 0" | "5 \<le> ?d" "?m \<noteq> 0"
    by (meson not_le)
  then show ?thesis
  proof cases
    case 1
    moreover from this have "\<not> 5 \<le> ?d" by (simp add: not_le)
    ultimately show ?thesis
      using put inv_add [OF inv less bv 1]
      by (intro exI [of _ "enum_add ?e1 ?d"] exI [of _ out]) (simp add: enum_add_def)
  next
    case 2
    then have "vs = []" "out = []" "?b = 0"
      using inv by (auto simp: enum_text_inv_def)
    moreover from this have "decodes_to (\<lambda>_. True) [] [] 0"
      by (simp add: decodes_to_def)
    ultimately have "enum_text_inv ([] @ [v]) (push_bit (unat (v - v)) 1) v (enum_skip v)"
      using decodes_to_skip [of "[]" "[]" 0 v] 2 by (intro inv_single) simp_all
    then show ?thesis
      using put 2 \<open>vs = []\<close> \<open>out = []\<close> \<open>?b = 0\<close>
      by (intro exI [of _ "enum_add ?e1 v"] exI [of _ "enum_skip v"])
        (simp add: enum_add_def not_less [symmetric])
  next
    case 3
    let ?e2 = "?e1\<lparr>word0 := 0, word1 := ?b + 5\<rparr>"
    have ne: "vs \<noteq> []"
      using 3 inv by (auto simp: enum_text_inv_def)
    have dec: "decodes_to (\<lambda>_. True) (out @ enum_flush ?m) vs (?b + 5)"
      by (rule inv_flush [OF inv ne])
    have u: "unat (?d - 5) = unat ?d - 5" "5 \<le> unat ?d" "unat ?d = unat v - unat ?b"
      using 3 bv by (simp_all add: unat_sub word_le_nat_alt)
    have b5: "?b + 5 \<le> v" and vd: "v - (?b + 5) = ?d - 5"
      using u unsigned_less [of v, where 'a = nat] bv
      by (simp_all add: word_le_nat_alt unat_word_ariths)
    have res: "hpb_MtDataEncoder_PutEnumValue e (hdr @ out) v =
        Inr (enum_add ?e2 (?d - 5), hdr @ out @ enum_flush ?m @ enum_skip (?d - 5))"
      using put 3 by (simp add: not_less [symmetric])
    show ?thesis
    proof (cases "?d - 5 < 5")
      case True
      have "enum_text_inv (vs @ [v]) (push_bit (unat (v - (?b + 5))) 1) (?b + 5) (out @ enum_flush ?m)"
        using dec b5 True [folded vd] by (intro inv_single) (auto simp: decodes_to_def)
      then show ?thesis
        using res True unfolding vd by (auto simp: enum_add_def enum_skip_def)
    next
      case False
      then have "decodes_to (stops_at kHpb_EncodedValue_MinSkip kHpb_EncodedValue_MaxSkip)
          ((out @ enum_flush ?m) @ enum_skip (?d - 5)) vs (?b + 5 + (?d - 5))"
        by (intro decodes_to_skip [OF dec]) (simp add: not_less)
      then have "enum_text_inv (vs @ [v]) (push_bit (unat (v - v)) 1) v
          (out @ enum_flush ?m @ enum_skip (?d - 5))"
        by (intro inv_single) simp_all
      then show ?thesis
        using res False by (auto simp: enum_add_def not_less [symmetric])
    qed
  qed
qed

section \<open>The growing buffer\<close>

definition ds_inv :: "hpb_DescState \<Rightarrow> bool" where
  "ds_inv s \<longleftrightarrow> buf_ok s \<and> e_end (ds_e s) = bufsize s \<and> length (ds_ptr s) \<le> bufsize s \<and>
     32 \<le> bufsize s"

lemma Grow_ok:
  assumes "\<forall>n. alloc_ok n" and "ds_inv s \<or> s = hpb_DescState_Init e"
  shows "\<exists>s'. hpb_DescState_Grow alloc_ok s = Some s' \<and> ds_inv s' \<and> ds_ptr s' = ds_ptr s \<and>
    length (ds_ptr s') + 16 \<le> e_end (ds_e s') \<and>
    word0 (ds_e s') = word0 (ds_e s) \<and> word1 (ds_e s') = word1 (ds_e s)"
  using assms
  by (auto simp: hpb_DescState_Grow_def hpb_DescState_Init_def ds_inv_def Let_def
      kHpb_MtDataEncoder_MinSize_def)

lemma grow_and_call_ok:
  assumes alloc: "\<forall>n. alloc_ok n" and inv: "ds_inv s \<or> s = hpb_DescState_Init e"
    and run: "\<And>e. length (ds_ptr s) + 16 \<le> e_end e \<Longrightarrow> word0 e = word0 (ds_e s) \<Longrightarrow>
      word1 e = word1 (ds_e s) \<Longrightarrow>
      \<exists>e' ptr. enc_call_run e (ds_ptr s) call = Inr (e', ptr) \<and> e_end e' = e_end e \<and>
        length ptr \<le> length (ds_ptr s) + 16 \<and> P e' ptr"
  shows "\<exists>s'. grow_and_call alloc_ok call s = Inr s' \<and> ds_inv s' \<and>
    P (ds_e s') (ds_ptr s')"
proof -
  obtain s1 where s1: "hpb_DescState_Grow alloc_ok s = Some s1" "ds_inv s1" "ds_ptr s1 = ds_ptr s"
    "length (ds_ptr s1) + 16 \<le> e_end (ds_e s1)" "word0 (ds_e s1) = word0 (ds_e s)"
    "word1 (ds_e s1) = word1 (ds_e s)"
    using Grow_ok [OF alloc inv] by blast
  obtain e' ptr where "enc_call_run (ds_e s1) (ds_ptr s) call = Inr (e', ptr)"
    "e_end e' = e_end (ds_e s1)" "length ptr \<le> length (ds_ptr s) + 16" "P e' ptr"
    using run [of "ds_e s1"] s1 by auto
  then show ?thesis
    using s1 by (auto simp: grow_and_call_def ds_inv_def)
qed

lemma put_enum_values_ok:
  assumes alloc: "\<forall>n. alloc_ok n"
  shows "ds_inv s \<Longrightarrow> ds_ptr s = hdr @ out \<Longrightarrow>
    enum_text_inv done (word0 (ds_e s)) (word1 (ds_e s)) out \<Longrightarrow>
    sorted_wrt (<) done \<Longrightarrow> sorted vs \<Longrightarrow> (done \<noteq> [] \<longrightarrow> (\<forall>x \<in> set vs. last done \<le> x)) \<Longrightarrow>
    \<exists>s' out' done'. put_enum_values alloc_ok (if done = [] then None else Some (last done)) vs s = Inr s' \<and>
      ds_inv s' \<and> ds_ptr s' = hdr @ out' \<and>
      enum_text_inv done' (word0 (ds_e s')) (word1 (ds_e s')) out' \<and>
      sorted_wrt (<) done' \<and> set done' = set done \<union> set vs"
proof (induction vs arbitrary: s out "done")
  case Nil
  then show ?case by auto
next
  case (Cons v vs)
  show ?case
  proof (cases "done \<noteq> [] \<and> last done = v")
    case True
    then show ?thesis
      using Cons.IH [OF Cons.prems(1-4)] Cons.prems(5,6) last_in_set [of "done"] by fastforce
  next
    case False
    then have less: "done \<noteq> [] \<longrightarrow> last done < v"
      using Cons.prems(6) by auto
    have run: "\<exists>e' ptr. enc_call_run e (ds_ptr s) (PutEnumValue v) = Inr (e', ptr) \<and> e_end e' = e_end e \<and>
        length ptr \<le> length (ds_ptr s) + 16 \<and>
        (\<exists>out'. ptr = hdr @ out' \<and> enum_text_inv (done @ [v]) (word0 e') (word1 e') out')"
      if e: "length (ds_ptr s) + 16 \<le> e_end e" "word0 e = word0 (ds_e s)" "word1 e = word1 (ds_e s)" for e
    proof -
      have inv: "enum_text_inv done (word0 e) (word1 e) out"
        using Cons.prems(3) e by simp
      obtain e' out' where *: "hpb_MtDataEncoder_PutEnumValue e (hdr @ out) v = Inr (e', hdr @ out')"
        "enum_text_inv (done @ [v]) (word0 e') (word1 e') out'"
        using enum_inv_put [OF inv less, of hdr] e(1) Cons.prems(2) by auto
      then show ?thesis
        using PutEnumValue_room [OF enum_inv_call_ok [OF inv less], of "hdr @ out"] e(1) Cons.prems(2)
        by auto
    qed
    obtain s1 out1 where s1: "grow_and_call alloc_ok (PutEnumValue v) s = Inr s1" "ds_inv s1"
      "ds_ptr s1 = hdr @ out1" "enum_text_inv (done @ [v]) (word0 (ds_e s1)) (word1 (ds_e s1)) out1"
      using grow_and_call_ok [where P = "\<lambda>e ptr. \<exists>out'. ptr = hdr @ out' \<and>
          enum_text_inv (done @ [v]) (word0 e) (word1 e) out'", OF alloc disjI1 [OF Cons.prems(1)] run] by blast
    have "sorted_wrt (<) (done @ [v])"
      using Cons.prems(4) less by (rule strict_sorted_snoc)
    then obtain s' out' done' where "put_enum_values alloc_ok (Some v) vs s1 = Inr s'" "ds_inv s'"
      "ds_ptr s' = hdr @ out'" "enum_text_inv done' (word0 (ds_e s')) (word1 (ds_e s')) out'"
      "sorted_wrt (<) done'" "set done' = set (done @ [v]) \<union> set vs"
      using Cons.IH [OF s1(2-4)] Cons.prems(5) by auto
    moreover have "(if done = [] then None else Some (last done)) \<noteq> Some v"
      using False by auto
    ultimately show ?thesis
      using s1(1) by (auto simp del: split_paired_Ex)
  qed
qed

lemma hpb_EnumDef_MiniDescriptorEncode_ok:
  assumes alloc: "\<forall>n. alloc_ok n" and srt: "is_sorted \<longrightarrow> sorted vs"
  shows "\<exists>text vs'. hpb_EnumDef_MiniDescriptorEncode alloc_ok e is_sorted vs =
      Inr (kHpb_EncodedVersion_EnumV1 # text) \<and>
    sorted_wrt (<) vs' \<and> set vs' = set vs \<and>
    (\<forall>alloc d. enum_decode_loop alloc text 0 d = build_values alloc vs' d)"
proof -
  let ?vs = "if is_sorted then vs else sort vs"
  let ?hdr = "[kHpb_EncodedVersion_EnumV1]"
  have vs: "sorted ?vs" "set ?vs = set vs"
    using srt by simp_all
  have "\<exists>s. grow_and_call alloc_ok StartEnum (hpb_DescState_Init e) = Inr s \<and> ds_inv s \<and>
      word0 (ds_e s) = 0 \<and> word1 (ds_e s) = 0 \<and> ds_ptr s = ?hdr"
  proof (rule grow_and_call_ok [where P = "\<lambda>e ptr. word0 e = 0 \<and> word1 e = 0 \<and> ptr = ?hdr" and e = e, OF alloc])
    fix e' :: hpb_MtDataEncoder
    assume "length (ds_ptr (hpb_DescState_Init e)) + 16 \<le> e_end e'"
    then have "hpb_MtDataEncoder_PutRaw ((hpb_MtDataEncoder_GetInternal e' [])\<lparr>word0 := 0, word1 := 0\<rparr>) []
        kHpb_EncodedVersion_EnumV1 = Inr ?hdr"
      using PutRaw_ok [of _ "[]" 0] by (simp add: hpb_DescState_Init_def)
    then show "\<exists>e'' ptr. enc_call_run e' (ds_ptr (hpb_DescState_Init e)) StartEnum = Inr (e'', ptr) \<and>
        e_end e'' = e_end e' \<and> length ptr \<le> length (ds_ptr (hpb_DescState_Init e)) + 16 \<and>
        word0 e'' = 0 \<and> word1 e'' = 0 \<and> ptr = ?hdr"
      by (simp add: hpb_MtDataEncoder_StartEnum_def hpb_DescState_Init_def Let_def)
  qed simp
  then obtain s0 where s0: "grow_and_call alloc_ok StartEnum (hpb_DescState_Init e) = Inr s0" "ds_inv s0"
    "word0 (ds_e s0) = 0" "word1 (ds_e s0) = 0" "ds_ptr s0 = ?hdr @ []"
    by auto
  obtain s1 out vs' where s1: "put_enum_values alloc_ok None ?vs s0 = Inr s1" "ds_inv s1"
    "ds_ptr s1 = ?hdr @ out" "enum_text_inv vs' (word0 (ds_e s1)) (word1 (ds_e s1)) out"
    "sorted_wrt (<) vs'" "set vs' = set vs"
    using put_enum_values_ok [OF alloc s0(2,5), of "[]" ?vs] s0(3,4) enum_text_inv_start vs by auto
  let ?m = "word0 (ds_e s1)"
  have m: "?m < 32"
    using s1(4) by (simp add: enum_text_inv_def)
  have "\<exists>s2. grow_and_call alloc_ok EndEnum s1 = Inr s2 \<and> ds_inv s2 \<and>
      ds_ptr s2 = ?hdr @ out @ enum_flush ?m \<and> length (ds_ptr s2) < e_end (ds_e s2)"
  proof (rule grow_and_call_ok [where P = "\<lambda>e ptr. ptr = ?hdr @ out @ enum_flush ?m \<and> length ptr < e_end e",
        OF alloc disjI1 [OF s1(2)]])
    fix e' :: hpb_MtDataEncoder
    assume "length (ds_ptr s1) + 16 \<le> e_end e'" "word0 e' = ?m"
    then show "\<exists>e'' ptr. enc_call_run e' (ds_ptr s1) EndEnum = Inr (e'', ptr) \<and> e_end e'' = e_end e' \<and>
        length ptr \<le> length (ds_ptr s1) + 16 \<and> ptr = ?hdr @ out @ enum_flush ?m \<and> length ptr < e_end e''"
      using EndEnum_ok [of e' "ds_ptr s1"] m s1(3) by (simp add: enum_flush_def)
  qed
  then obtain s2 where s2: "grow_and_call alloc_ok EndEnum s1 = Inr s2" "ds_inv s2"
    "ds_ptr s2 = ?hdr @ out @ enum_flush ?m" "length (ds_ptr s2) < e_end (ds_e s2)"
    by blast
  have "enum_decode_loop a (out @ enum_flush ?m) 0 d = build_values a vs' d" for a d
  proof (cases "vs' = []")
    case True
    then show ?thesis
      using s1(4) by (simp add: enum_text_inv_def enum_flush_def)
  next
    case False
    then show ?thesis
      using inv_flush [OF s1(4) False, unfolded decodes_to_def, rule_format, of a "[]" d]
      by (cases "build_values a vs' d") simp_all
  qed
  moreover have "(if \<not> is_sorted then hpb_EnumValueDefs_Sorted alloc_ok vs else Some vs) = Some ?vs"
    using alloc by (simp add: hpb_EnumValueDefs_Sorted_def)
  then have "hpb_EnumDef_MiniDescriptorEncode alloc_ok e is_sorted vs = Inr (?hdr @ out @ enum_flush ?m)"
    using s0(1) s1(1) s2 by (simp add: hpb_EnumDef_MiniDescriptorEncode_def ds_inv_def)
  ultimately show ?thesis
    using s1(5,6) by auto
qed

end
