(* ===== verification/MtEnumTable.thy ===== *)
theory MtEnumTable
  imports MtEnum
begin

text \<open>
  The table that \<open>build_enum.c\<close> makes from an ascending list of values answers the membership
  tests of \<open>enum.h\<close> correctly, except for one pattern of values that the code gets wrong.
\<close>

section \<open>The builder's invariant\<close>

text \<open>
  The first \<open>m\<close> words of the data are the bit mask of the values \<open>ms\<close>; the rest are the
  other values as a list, all beyond the mask.
\<close>

definition enum_inv :: "hpb_MdEnumDecoder \<Rightarrow> u32 list \<Rightarrow> u32 list \<Rightarrow> nat \<Rightarrow> bool" where
  "enum_inv d ms ls m \<longleftrightarrow>
     (let t = enum_table d in
      unat (mask_limit t) = 32 * m \<and> 2 \<le> m \<and> m \<le> 2 ^ 27 - 1 \<and>
      enum_value_count d = of_nat (length (ms @ ls)) \<and>
      value_count t = of_nat (length ls) \<and>
      enum_data_count d = of_nat (m + length ls) \<and>
      length (data t) = m + length ls \<and> drop m (data t) = ls \<and>
      (\<forall>v. v \<in> set ms \<longleftrightarrow> unat v div 32 < m \<and> bit (data t ! (unat v div 32)) (unat v mod 32)) \<and>
      (\<forall>v \<in> set ls. 32 * m \<le> unat v) \<and>
      m = max 2 (if ms = [] then 0 else unat (last ms) div 32 + 1) \<and>
      (ms \<noteq> [] \<and> 512 < unat (last ms) \<longrightarrow> unat (last ms) div 32 \<le> length ms))"

lemma enum_invD:
  assumes "enum_inv d ms ls m"
  shows "unat (mask_limit (enum_table d)) = 32 * m" and "2 \<le> m" and "m \<le> 2 ^ 27 - 1"
    and "enum_value_count d = of_nat (length (ms @ ls))"
    and "value_count (enum_table d) = of_nat (length ls)"
    and "enum_data_count d = of_nat (m + length ls)"
    and "length (data (enum_table d)) = m + length ls" and "drop m (data (enum_table d)) = ls"
    and "v \<in> set ms \<longleftrightarrow> unat v div 32 < m \<and> bit (data (enum_table d) ! (unat v div 32)) (unat v mod 32)"
    and "v \<in> set ls \<Longrightarrow> 32 * m \<le> unat v"
    and "m = max 2 (if ms = [] then 0 else unat (last ms) div 32 + 1)"
    and "ms \<noteq> [] \<Longrightarrow> 512 < unat (last ms) \<Longrightarrow> unat (last ms) div 32 \<le> length ms"
  using assms unfolding enum_inv_def Let_def by blast+

lemma AddEnumDataMember_ok:
  assumes "\<forall>n. alloc_ok n"
  obtains cap where "hpb_MiniTable_AddEnumDataMember alloc_ok d val =
    Inr (d\<lparr>enum_data_capacity := cap, enum_table := (enum_table d)\<lparr>data := data (enum_table d) @ [val]\<rparr>,
           enum_data_count := enum_data_count d + 1\<rparr>)"
proof (cases "enum_data_count d = enum_data_capacity d")
  case True
  then show ?thesis
    using assms that [of "max 2 (enum_data_capacity d * 2)"]
    by (simp add: hpb_MiniTable_AddEnumDataMember_def Let_def)
next
  case False
  then show ?thesis
    using that [of "enum_data_capacity d"] by (simp add: hpb_MiniTable_AddEnumDataMember_def)
qed

lemma unat_new_mask_limit:
  assumes "unat val div 32 + 1 < 2 ^ 27"
  shows "unat (new_mask_limit val) = (unat val div 32 + 1) * 32"
  using assms by (simp add: new_mask_limit_def unat_word_ariths unat_div)

lemma grow_mask_ok:
  assumes alloc: "\<forall>n. alloc_ok n" and small: "unat val div 32 + 1 < 2 ^ 27"
  shows "unat (mask_limit (enum_table d)) = 32 * m \<Longrightarrow> enum_data_count d = of_nat m \<Longrightarrow>
    \<exists>d' cap. grow_mask alloc_ok val d = Inr d' \<and>
      d' = d\<lparr>enum_data_capacity := cap, enum_data_count := of_nat (max m (unat val div 32 + 1)),
             enum_table := (enum_table d)\<lparr>
               mask_limit := of_nat (32 * max m (unat val div 32 + 1)),
               data := data (enum_table d) @ replicate (unat val div 32 + 1 - m) 0\<rparr>\<rparr>"
proof (induction "unat val div 32 + 1 - m" arbitrary: d m)
  case 0
  then have le: "unat val div 32 + 1 \<le> m"
    by simp
  then have "\<not> mask_limit (enum_table d) < new_mask_limit val"
    using 0 by (simp add: word_less_nat_alt unat_new_mask_limit [OF small])
  moreover have "mask_limit (enum_table d) = of_nat (32 * m)"
    using 0(2) by (metis of_nat_unat ucast_id)
  ultimately show ?case
    using le 0 by (intro exI [of _ d] exI [of _ "enum_data_capacity d"])
      (simp add: grow_mask.simps [of _ val d] max_def)
next
  case (Suc n)
  then have lt: "m < unat val div 32 + 1"
    by simp
  then have less: "mask_limit (enum_table d) < new_mask_limit val"
    using Suc.prems by (simp add: word_less_nat_alt unat_new_mask_limit [OF small])
  obtain cap where add: "hpb_MiniTable_AddEnumDataMember alloc_ok d 0 =
    Inr (d\<lparr>enum_data_capacity := cap, enum_table := (enum_table d)\<lparr>data := data (enum_table d) @ [0]\<rparr>,
           enum_data_count := enum_data_count d + 1\<rparr>)"
    using AddEnumDataMember_ok [OF alloc] by blast
  let ?d1 = "d\<lparr>enum_data_capacity := cap, enum_data_count := enum_data_count d + 1,
      enum_table := (enum_table d)\<lparr>data := data (enum_table d) @ [0],
        mask_limit := mask_limit (enum_table d) + 32\<rparr>\<rparr>"
  have step: "grow_mask alloc_ok val d = grow_mask alloc_ok val ?d1"
    using less add by (simp add: grow_mask.simps [of _ val d])
  have 1: "n = unat val div 32 + 1 - Suc m" "unat (mask_limit (enum_table ?d1)) = 32 * Suc m"
    "enum_data_count ?d1 = of_nat (Suc m)"
    using Suc.hyps(2) Suc.prems mask_limit_step [OF less] by simp_all
  have "replicate (Suc (unat val div 32) - m) (0 :: u32) = 0 # replicate (unat val div 32 - m) 0"
    using lt by (simp add: Suc_diff_le)
  then show ?case
    using Suc.hyps(1) [OF 1] step lt by (auto simp: max_def split: if_splits)
qed

section \<open>One value after another\<close>

text \<open>
  The pattern the builder gets wrong: 512 is put into the mask, whose last word then also
  covers 513 to 543, but such a value is put into the list.
\<close>

definition mask_edge_ok :: "u32 list \<Rightarrow> bool" where
  "mask_edge_ok vs \<longleftrightarrow> \<not> (512 \<in> set vs \<and> (\<exists>v \<in> set vs. 512 < v \<and> v < 544))"

lemma unat_div32: "unat (v div 32) = unat v div 32" "unat (v mod 32) = unat v mod 32" for v :: u32
  by (simp_all add: unat_div unat_mod)

lemma list_value_beyond_mask:
  assumes inv: "enum_inv d ms ls m" and srt: "sorted_wrt (<) (ms @ ls @ [v])"
    and edge: "mask_edge_ok (ms @ ls @ [v])" and len: "length (ms @ ls) < 2 ^ 27 - 2"
    and cond: "ls \<noteq> [] \<or> (512 < v \<and> of_nat (length (ms @ ls)) + 1 < v div 32)"
  shows "32 * m \<le> unat v"
proof (cases "ls = []")
  case False
  then have "last ls < v" "32 * m \<le> unat (last ls)"
    using srt enum_invD(10) [OF inv, of "last ls"] by (auto simp: sorted_wrt_append)
  then show ?thesis
    by (simp add: word_less_nat_alt)
next
  case True
  have v: "512 < unat v" "length ms + 1 < unat v div 32"
    using cond True len by (auto simp: word_less_nat_alt unat_div32 unat_word_ariths unat_of_nat)
  show ?thesis
  proof (rule ccontr)
    assume "\<not> 32 * m \<le> unat v"
    then have lt: "unat v < 32 * m" by simp
    then have m: "ms \<noteq> []" "m = unat (last ms) div 32 + 1"
      using enum_invD(11) [OF inv] v by (auto simp: max_def split: if_splits)
    then have lv: "unat (last ms) < unat v"
      using srt True by (auto simp: sorted_wrt_append word_less_nat_alt)
    have q: "unat v div 32 = unat (last ms) div 32"
      using lt m lv div_le_mono [of "unat (last ms)" "unat v" 32] by linarith
    show False
    proof (cases "512 < unat (last ms)")
      case True
      then show False
        using enum_invD(12) [OF inv m(1)] q v by simp
    next
      case False
      have "16 \<le> unat (last ms) div 32"
        using v(1) by (simp add: q [symmetric] less_eq_div_iff_mult_less_eq)
      then have "unat (last ms) = 512"
        using False by (simp add: less_eq_div_iff_mult_less_eq)
      moreover from this have "unat v < 544"
        using lt m(2) by simp
      ultimately have "last ms = 512" "v < 544" "512 < v"
        using v by (simp_all add: word_unat_eq_iff word_less_nat_alt)
      then show False
        using edge m(1) last_in_set [of ms] by (auto simp: mask_edge_ok_def)
    qed
  qed
qed

lemma BuildValue_list_ok:
  assumes alloc: "\<forall>n. alloc_ok n" and inv: "enum_inv d ms ls m"
    and srt: "sorted_wrt (<) (ms @ ls @ [v])" and edge: "mask_edge_ok (ms @ ls @ [v])"
    and len: "length (ms @ ls) < 2 ^ 27 - 2"
    and cond: "ls \<noteq> [] \<or> (512 < v \<and> of_nat (length (ms @ ls)) + 1 < v div 32)"
  shows "\<exists>d'. hpb_MiniTableEnum_BuildValue alloc_ok d v = Inr d' \<and> enum_inv d' ms (ls @ [v]) m"
proof -
  note D = enum_invD [OF inv]
  let ?d = "d\<lparr>enum_value_count := enum_value_count d + 1\<rparr>"
  obtain cap where add: "hpb_MiniTable_AddEnumDataMember alloc_ok ?d v =
    Inr (?d\<lparr>enum_data_capacity := cap, enum_table := (enum_table ?d)\<lparr>data := data (enum_table ?d) @ [v]\<rparr>,
           enum_data_count := enum_data_count ?d + 1\<rparr>)"
    using AddEnumDataMember_ok [OF alloc] by blast
  let ?d' = "?d\<lparr>enum_data_capacity := cap, enum_data_count := enum_data_count d + 1,
        enum_table := (enum_table d)\<lparr>data := data (enum_table d) @ [v],
          value_count := value_count (enum_table d) + 1\<rparr>\<rparr>"
  have "length ls < 2 ^ 32"
    using len by simp
  then have vc: "value_count (enum_table d) = 0 \<longleftrightarrow> ls = []"
    unfolding D(5) by (simp add: word_unat_eq_iff unat_of_nat)
  have "mask_limit (enum_table d) div 32 = of_nat m"
    using D(1,3) by (simp add: word_unat_eq_iff unat_div unat_of_nat)
  then have "enum_data_count d = mask_limit (enum_table d) div 32" if "ls = []"
    using that by (simp add: D(6))
  then have "hpb_MiniTableEnum_BuildValue alloc_ok d v = Inr ?d'"
    using cond vc add D(4)
    by (simp add: hpb_MiniTableEnum_BuildValue_def Let_def)
  moreover have "32 * m \<le> unat v"
    using list_value_beyond_mask [OF inv srt edge len cond] .
  then have "enum_inv ?d' ms (ls @ [v]) m"
    unfolding enum_inv_def Let_def using D by (simp add: nth_append)
  ultimately show ?thesis
    by blast
qed

lemma bit_set_update:
  fixes x :: u32
  assumes "j < 32"
  shows "bit (x OR push_bit k 1) j \<longleftrightarrow> bit x j \<or> j = k"
  using assms by (auto simp: bit_simps)

lemma value_by_word: "w = v \<longleftrightarrow> unat w div 32 = unat v div 32 \<and> unat w mod 32 = unat v mod 32"
  for v w :: u32
  by (metis div_mult_mod_eq word_unat_eq_iff)

lemma BuildValue_mask_ok:
  assumes alloc: "\<forall>n. alloc_ok n" and inv: "enum_inv d ms [] m"
    and srt: "sorted_wrt (<) (ms @ [v])" and len: "length ms < 2 ^ 27 - 3"
    and cond: "\<not> (512 < v \<and> of_nat (length ms) + 1 < v div 32)"
  shows "\<exists>d' m'. hpb_MiniTableEnum_BuildValue alloc_ok d v = Inr d' \<and> enum_inv d' (ms @ [v]) [] m'"
proof -
  note D = enum_invD [OF inv]
  let ?d = "d\<lparr>enum_value_count := enum_value_count d + 1\<rparr>"
  define q where "q = unat v div 32"
  define m' where "m' = max m (q + 1)"
  have n: "unat (of_nat (length ms) + 1 :: u32) = length ms + 1"
    using len by (simp add: unat_word_ariths unat_of_nat)
  have small: "unat v \<le> 512 \<or> q \<le> length ms + 1"
    using cond by (auto simp: word_less_nat_alt n unat_div32 q_def not_less)
  have q: "q + 1 < 2 ^ 27 - 1"
  proof (cases "unat v \<le> 512")
    case True
    then have "q \<le> 512 div 32"
      unfolding q_def by (rule div_le_mono)
    then show ?thesis by simp
  next
    case False
    then show ?thesis using small len by simp
  qed
  have "unat (mask_limit (enum_table ?d)) = 32 * m" "enum_data_count ?d = of_nat m"
    using D(1,6) by simp_all
  then obtain cap where grow: "grow_mask alloc_ok v ?d =
      Inr (?d\<lparr>enum_data_capacity := cap, enum_data_count := of_nat m',
             enum_table := (enum_table ?d)\<lparr>mask_limit := of_nat (32 * m'),
               data := data (enum_table ?d) @ replicate (q + 1 - m) 0\<rparr>\<rparr>)"
    using grow_mask_ok [OF alloc, of v ?d m] q by (auto simp: q_def m'_def)
  let ?data = "data (enum_table d) @ replicate (q + 1 - m) 0"
  let ?data' = "?data[q := ?data ! q OR push_bit (unat v mod 32) 1]"
  let ?d' = "?d\<lparr>enum_data_capacity := cap, enum_data_count := of_nat m',
        enum_table := (enum_table d)\<lparr>mask_limit := of_nat (32 * m'), data := ?data'\<rparr>\<rparr>"
  have len_data: "length ?data = m'"
    using D(7) by (simp add: m'_def max_def)
  have "\<not> (value_count (enum_table d) \<noteq> 0 \<or> 512 < v \<and> enum_value_count d + 1 < v div 32)"
    using cond D(4,5) by simp
  then have "hpb_MiniTableEnum_BuildValue alloc_ok d v = res_bind (grow_mask alloc_ok v ?d)
      (\<lambda>d. let table = enum_table d; i = q
           in if i < length (data table)
              then Inr (d\<lparr>enum_table := table\<lparr>data := (data table)[i :=
                     data table ! i OR push_bit (unat v mod 32) 1]\<rparr>\<rparr>)
              else Inl MemoryFault)"
    unfolding hpb_MiniTableEnum_BuildValue_def Let_def unat_div32 q_def by auto
  moreover have "q < length ?data"
    unfolding len_data by (simp add: m'_def)
  ultimately have "hpb_MiniTableEnum_BuildValue alloc_ok d v = Inr ?d'"
    using grow by (simp add: Let_def)
  moreover have "enum_inv ?d' (ms @ [v]) [] m'"
  proof -
    have old: "w \<in> set ms \<longleftrightarrow> unat w div 32 < m' \<and> bit (?data ! (unat w div 32)) (unat w mod 32)" for w
      using D(7) D(9) [of w] by (auto simp: nth_append m'_def)
    have new: "w \<in> set (ms @ [v]) \<longleftrightarrow>
        unat w div 32 < m' \<and> bit (?data' ! (unat w div 32)) (unat w mod 32)" for w
      using old [of w] value_by_word [of w v] len_data bit_set_update [of "unat w mod 32" "?data ! q" "unat v mod 32"]
      by (cases "unat w div 32 = q") (auto simp: q_def m'_def)
    have m': "m' \<le> 2 ^ 27 - 1" "2 \<le> m'"
      using D(2,3) q by (auto simp: m'_def)
    have "m' = max 2 (q + 1)"
    proof (cases "ms = []")
      case True
      then show ?thesis using D(11) by (simp add: m'_def)
    next
      case False
      then have "last ms < v"
        using srt by (simp add: sorted_wrt_append)
      then have "unat (last ms) div 32 \<le> q"
        unfolding q_def by (intro div_le_mono) (simp add: word_less_nat_alt)
      then show ?thesis
        using D(11) False by (auto simp: m'_def)
    qed
    moreover have "unat (of_nat (32 * m') :: u32) = 32 * m'"
      using m' by (simp add: unat_of_nat del: of_nat_mult)
    ultimately show ?thesis
      unfolding enum_inv_def Let_def using new m' D(4,5) len_data small
      by (auto simp: q_def simp del: set_append of_nat_mult)
  qed
  ultimately show ?thesis
    by blast
qed

lemma mask_edge_ok_subset: "mask_edge_ok vs \<Longrightarrow> set us \<subseteq> set vs \<Longrightarrow> mask_edge_ok us"
  by (auto simp: mask_edge_ok_def)

lemma build_values_ok:
  assumes alloc: "\<forall>n. alloc_ok n"
  shows "enum_inv d ms ls m \<Longrightarrow> sorted_wrt (<) (ms @ ls @ vs) \<Longrightarrow> mask_edge_ok (ms @ ls @ vs) \<Longrightarrow>
    length (ms @ ls @ vs) \<le> 2 ^ 27 - 3 \<Longrightarrow>
    \<exists>d' ms' ls' m'. build_values alloc_ok vs d = Inr d' \<and> enum_inv d' ms' ls' m' \<and>
      ms' @ ls' = ms @ ls @ vs"
proof (induction vs arbitrary: d ms ls m)
  case Nil
  then show ?case by auto
next
  case (Cons v vs)
  let ?c = "ls \<noteq> [] \<or> (512 < v \<and> of_nat (length (ms @ ls)) + 1 < v div 32)"
  have srt: "sorted_wrt (<) (ms @ ls @ [v])"
    using Cons.prems(2) by (auto simp: sorted_wrt_append)
  have edge: "mask_edge_ok (ms @ ls @ [v])"
    by (rule mask_edge_ok_subset [OF Cons.prems(3)]) auto
  obtain d1 ms1 ls1 m1 where 1: "hpb_MiniTableEnum_BuildValue alloc_ok d v = Inr d1"
    "enum_inv d1 ms1 ls1 m1" "ms1 @ ls1 = ms @ ls @ [v]"
  proof (cases ?c)
    case True
    then show ?thesis
      using BuildValue_list_ok [OF alloc Cons.prems(1) srt edge] Cons.prems(4) that by fastforce
  next
    case False
    then show ?thesis
      using BuildValue_mask_ok [OF alloc, of d ms m v] Cons.prems(1,4) srt that by fastforce
  qed
  then have eq: "ms1 @ ls1 @ vs = ms @ ls @ v # vs"
    by (metis append.assoc append_Cons append_Nil)
  show ?case
    using 1(1) Cons.IH [OF 1(2), unfolded eq, OF Cons.prems(2-4)] by simp
qed

section \<open>The membership tests\<close>

lemma and_push_bit_one: "n < LENGTH('a) \<Longrightarrow> x AND push_bit n 1 \<noteq> 0 \<longleftrightarrow> bit x n" for x :: "'a::len word"
  by (simp add: and_exp_eq_0_iff_not_bit)

lemma scan_values_eq:
  "p + n \<le> length (data e) \<Longrightarrow> scan_values e val p n = Some (val \<in> set (take n (drop p (data e))))"
proof (induction n arbitrary: p)
  case (Suc n)
  then show ?case
    by (auto simp: data_at_def Cons_nth_drop_Suc [symmetric])
qed simp

lemma CheckValue_correct:
  assumes inv: "enum_inv d ms ls m" and len: "length ls < 2 ^ 32"
  shows "hpb_MiniTableEnum_CheckValue (enum_table d) val = Some (val \<in> set (ms @ ls))"
proof -
  note D = enum_invD [OF inv]
  let ?t = "enum_table d" and ?q = "unat val div 32"
  have inmask: "unat val < 32 * m \<longleftrightarrow> ?q < m"
    by (simp add: div_less_iff_less_mult mult.commute)
  have mem: "val \<in> set (ms @ ls) \<longleftrightarrow> (if unat val < 32 * m then bit (data ?t ! ?q) (unat val mod 32)
      else val \<in> set ls)"
    using D(9) [of val] D(10) [of val] inmask by auto
  show ?thesis
  proof (cases "val < 64")
    case True
    then have v: "unat val < 64" by (simp add: word_less_nat_alt)
    then have "unat val < 32 * m" using D(2) by simp
    let ?d0 = "data ?t ! 0" and ?d1 = "data ?t ! 1"
    have at: "data_at ?t 0 = Some ?d0" "data_at ?t 1 = Some ?d1"
      using D(2,7) by (simp_all add: data_at_def)
    have "bit (ucast ?d0 OR push_bit 32 (ucast ?d1) :: u64) (unat val) \<longleftrightarrow> bit (data ?t ! ?q) (unat val mod 32)"
    proof (cases "unat val < 32")
      case True
      then show ?thesis by (simp add: bit_simps)
    next
      case False
      then have "?q = 1" "unat val mod 32 = unat val - 32"
        using v by (simp_all add: div_nat_eqI mod_if)
      moreover have "\<not> bit ?d0 (unat val)"
        using False by (auto dest: bit_imp_le_length)
      ultimately show ?thesis
        using False v by (auto simp: bit_simps)
    qed
    moreover have "\<not> 64 \<le> val" using True by (simp add: not_le)
    ultimately show ?thesis
      using at mem v \<open>unat val < 32 * m\<close> and_push_bit_one [of "unat val" "ucast ?d0 OR push_bit 32 (ucast ?d1) :: u64"]
      by (simp add: hpb_MiniTableEnum_CheckValue_def hpb_MiniTable_CheckEnumValueFast_def Let_def
          del: push_bit_of_1)
  next
    case False
    then have "hpb_MiniTableEnum_CheckValue ?t val = hpb_MiniTable_CheckEnumValueSlow ?t val"
      by (simp add: hpb_MiniTableEnum_CheckValue_def hpb_MiniTable_CheckEnumValueFast_def not_less)
    also have "\<dots> = Some (val \<in> set (ms @ ls))"
    proof (cases "unat val < 32 * m")
      case True
      have "(ucast (data ?t ! ?q) :: u64) AND push_bit (unat val mod 32) 1 \<noteq> 0 \<longleftrightarrow> bit (data ?t ! ?q) (unat val mod 32)"
        by (subst and_push_bit_one) (auto simp: bit_ucast_iff intro: less_trans [OF mod_less_divisor [of 32]])
      then show ?thesis
        using True D(1,7) mem inmask
        by (simp add: hpb_MiniTable_CheckEnumValueSlow_def word_less_nat_alt unat_div32 data_at_def
            del: push_bit_of_1)
    next
      case False
      then show ?thesis
        using D(1,5,7,8) mem len scan_values_eq [of m "length ls" ?t val]
        by (simp add: hpb_MiniTable_CheckEnumValueSlow_def word_less_nat_alt unat_div32 unat_of_nat)
    qed
    finally show ?thesis .
  qed
qed

section \<open>From an enum definition to its membership test\<close>

lemma enum_inv_start:
  "enum_inv \<lparr>enum_table = \<lparr>mask_limit = 64, value_count = 0, data = [0, 0]\<rparr>,
     enum_value_count = 0, enum_data_count = 2, enum_data_capacity = 2\<rparr> [] [] 2"
proof -
  have "[0, 0] ! i = (0 :: u32)" if "i < 2" for i
    using that by (auto simp: less_2_cases_iff)
  then show ?thesis
    by (auto simp: enum_inv_def)
qed

lemma BuildEnum_eq:
  assumes "\<forall>n. alloc_ok n"
  shows "hpb_MiniDescriptor_BuildEnum alloc_ok (kHpb_EncodedVersion_EnumV1 # desc) =
    res_bind (enum_decode_loop alloc_ok desc 0
      \<lparr>enum_table = \<lparr>mask_limit = 64, value_count = 0, data = [0, 0]\<rparr>,
       enum_value_count = 0, enum_data_count = 2, enum_data_capacity = 2\<rparr>) (\<lambda>d. Inr (enum_table d))"
  using assms
  by (simp add: hpb_MiniDescriptor_BuildEnum_def hpb_MtDecoder_DoBuildMiniTableEnum_def
      hpb_MiniTable_AddEnumDataMember_def Let_def)

lemma strict_sorted_length_le:
  fixes xs ys :: "'a::linorder list"
  assumes "sorted_wrt (<) xs" and "set xs = set ys"
  shows "length xs \<le> length ys"
proof -
  have "length xs = card (set xs)"
    using assms(1) by (simp add: strict_sorted_iff distinct_card)
  then show ?thesis
    using assms(2) card_length [of ys] by simp
qed

text \<open>
  C13: the whole path of a closed enum. For an enum definition of fewer than \<open>2 ^ 27 - 2\<close>
  numbers, in any order and with repetitions, and a working allocator, the reflection code
  encodes a mini descriptor, \<open>hpb_MiniDescriptor_BuildEnum\<close> builds a table from it without
  error, and \<open>hpb_MiniTableEnum_CheckValue\<close> on that table is membership in the definition,
  reading only inside the table. The one exception is excluded by \<open>mask_edge_ok\<close>.
\<close>

theorem enum_encode_build_check:
  assumes alloc: "\<forall>n. alloc_ok n" and srt: "is_sorted \<longrightarrow> sorted vs"
    and len: "length vs \<le> 2 ^ 27 - 3" and edge: "mask_edge_ok vs"
  shows "\<exists>desc table. hpb_EnumDef_MiniDescriptorEncode alloc_ok e is_sorted vs = Inr desc \<and>
    hpb_MiniDescriptor_BuildEnum alloc_ok desc = Inr table \<and>
    (\<forall>v. hpb_MiniTableEnum_CheckValue table v = Some (v \<in> set vs))"
proof -
  obtain desc vs' where enc: "hpb_EnumDef_MiniDescriptorEncode alloc_ok e is_sorted vs =
      Inr (kHpb_EncodedVersion_EnumV1 # desc)" and vs': "sorted_wrt (<) vs'" "set vs' = set vs"
    and dec: "\<And>a d. enum_decode_loop a desc 0 d = build_values a vs' d"
    using hpb_EnumDef_MiniDescriptorEncode_ok [OF alloc srt] by blast
  have len': "length vs' \<le> 2 ^ 27 - 3"
    using strict_sorted_length_le [OF vs'] len by simp
  have "mask_edge_ok ([] @ [] @ vs')"
    using edge vs'(2) mask_edge_ok_subset [of vs vs'] by simp
  then obtain d ms ls m where d: "build_values alloc_ok vs'
      \<lparr>enum_table = \<lparr>mask_limit = 64, value_count = 0, data = [0, 0]\<rparr>,
       enum_value_count = 0, enum_data_count = 2, enum_data_capacity = 2\<rparr> = Inr d"
    and inv: "enum_inv d ms ls m" and eq: "ms @ ls = vs'"
    using build_values_ok [OF alloc enum_inv_start, of vs'] vs'(1) len' by auto
  have "length ls < 2 ^ 32"
    using eq len' by auto
  then show ?thesis
    using enc BuildEnum_eq [OF alloc, of desc] dec d CheckValue_correct [OF inv] eq vs'(2) by auto
qed

theorem enum_encode_build_check_witness:
  "\<exists>desc table. hpb_EnumDef_MiniDescriptorEncode (\<lambda>_. True) example_encoder False [7, 100000, 3, 7] = Inr desc \<and>
    hpb_MiniDescriptor_BuildEnum (\<lambda>_. True) desc = Inr table \<and>
    (\<forall>v. hpb_MiniTableEnum_CheckValue table v = Some (v \<in> set [7, 100000, 3, 7]))"
  by (rule enum_encode_build_check) (simp_all add: mask_edge_ok_def)

section \<open>The exception\<close>

text \<open>Numbers up to 512 all go to the mask.\<close>

lemma build_values_mask:
  assumes alloc: "\<forall>n. alloc_ok n"
  shows "enum_inv d ms [] m \<Longrightarrow> sorted_wrt (<) (ms @ vs) \<Longrightarrow> \<forall>v \<in> set vs. v \<le> 512 \<Longrightarrow> length (ms @ vs) \<le> 2 ^ 27 - 3 \<Longrightarrow>
    \<exists>d' m'. build_values alloc_ok vs d = Inr d' \<and> enum_inv d' (ms @ vs) [] m'"
proof (induction vs arbitrary: d ms m)
  case Nil
  then show ?case by auto
next
  case (Cons v vs)
  have "sorted_wrt (<) (ms @ [v])" "length ms < 2 ^ 27 - 3" "\<not> (512 < v \<and> of_nat (length ms) + 1 < v div 32)"
    using Cons.prems(2-4) by (auto simp: sorted_wrt_append)
  from BuildValue_mask_ok [OF alloc Cons.prems(1) this] obtain d1 m1 where
    1: "hpb_MiniTableEnum_BuildValue alloc_ok d v = Inr d1" "enum_inv d1 (ms @ [v]) [] m1"
    by blast
  then show ?case
    using Cons.IH [OF 1(2)] Cons.prems(2-4) by simp
qed

text \<open>Once a value is in the list all later ones are appended to it, and the mask stays as it is.\<close>

definition list_state :: "u32 list \<Rightarrow> u32 \<Rightarrow> u32 list \<Rightarrow> hpb_MdEnumDecoder \<Rightarrow> bool" where
  "list_state D lim ls d \<longleftrightarrow> mask_limit (enum_table d) = lim \<and> data (enum_table d) = D @ ls \<and>
     value_count (enum_table d) = of_nat (length ls)"

lemma BuildValue_append:
  assumes alloc: "\<forall>n. alloc_ok n" and st: "list_state D lim ls d"
    and cond: "value_count (enum_table d) \<noteq> 0 \<or>
      (512 < v \<and> enum_value_count d + 1 < v div 32 \<and> enum_data_count d = mask_limit (enum_table d) div 32)"
  shows "\<exists>d'. hpb_MiniTableEnum_BuildValue alloc_ok d v = Inr d' \<and> list_state D lim (ls @ [v]) d'"
proof -
  let ?d = "d\<lparr>enum_value_count := enum_value_count d + 1\<rparr>"
  obtain cap where add: "hpb_MiniTable_AddEnumDataMember alloc_ok ?d v =
    Inr (?d\<lparr>enum_data_capacity := cap, enum_table := (enum_table ?d)\<lparr>data := data (enum_table ?d) @ [v]\<rparr>,
           enum_data_count := enum_data_count ?d + 1\<rparr>)"
    using AddEnumDataMember_ok [OF alloc] by blast
  then show ?thesis
    using cond st by (auto simp: hpb_MiniTableEnum_BuildValue_def Let_def list_state_def)
qed

lemma build_values_list:
  assumes alloc: "\<forall>n. alloc_ok n"
  shows "list_state D lim ls d \<Longrightarrow> ls \<noteq> [] \<Longrightarrow> length (ls @ vs) < 2 ^ 32 \<Longrightarrow>
    \<exists>d'. build_values alloc_ok vs d = Inr d' \<and> list_state D lim (ls @ vs) d'"
proof (induction vs arbitrary: d ls)
  case (Cons v vs)
  have "length ls < 2 ^ 32"
    using Cons.prems(3) by simp
  then have "value_count (enum_table d) \<noteq> 0"
    using Cons.prems(1,2) by (simp add: list_state_def word_unat_eq_iff unat_of_nat)
  then obtain d1 where d1: "hpb_MiniTableEnum_BuildValue alloc_ok d v = Inr d1" "list_state D lim (ls @ [v]) d1"
    using BuildValue_append [OF alloc Cons.prems(1)] by blast
  then show ?case
    using Cons.IH [OF d1(2)] Cons.prems(3) by simp
qed auto

lemma sorted_filter_split:
  fixes c :: u32
  shows "sorted_wrt (<) vs \<Longrightarrow> filter (\<lambda>v. v \<le> c) vs @ filter (\<lambda>v. \<not> v \<le> c) vs = vs"
proof (induction vs)
  case (Cons v vs)
  show ?case
  proof (cases "v \<le> c")
    case False
    then have "\<forall>w \<in> set vs. \<not> w \<le> c"
      using Cons.prems by (auto simp: not_le dest: less_trans)
    with False show ?thesis
      by (simp cong: filter_cong)
  qed (use Cons in simp)
qed simp

lemma sorted_filter_last:
  assumes srt: "sorted_wrt (<) vs" and mem: "c \<in> set vs"
  shows "last (filter (\<lambda>v. v \<le> (c :: u32)) vs) = c"
proof -
  let ?as = "filter (\<lambda>v. v \<le> c) vs"
  have ne: "?as \<noteq> []"
    using mem by (auto simp: filter_empty_conv)
  have le: "last ?as \<le> c"
    using last_in_set [OF ne] by simp
  have eq: "butlast ?as @ [last ?as] = ?as"
    by (rule append_butlast_last_id [OF ne])
  moreover have "sorted_wrt (<) ?as"
    by (rule sorted_wrt_filter [OF srt])
  ultimately have "\<forall>w \<in> set (butlast ?as). w < last ?as"
    by (metis sorted_wrt_append list.set_intros(1))
  moreover have "c \<in> set (butlast ?as @ [last ?as])"
    using mem unfolding eq by simp
  ultimately show ?thesis
    using le by auto
qed

lemma CheckValue_list_state:
  assumes inv: "enum_inv d ms [] m" and st: "list_state (data (enum_table d)) lim ls d'"
    and lim: "unat lim = 32 * m" and v: "64 \<le> v" "unat v < 32 * m" "v \<notin> set ms"
  shows "hpb_MiniTableEnum_CheckValue (enum_table d') v = Some False"
proof -
  note D = enum_invD [OF inv]
  let ?q = "unat v div 32"
  have q: "?q < m"
    using v(2) by (simp add: div_less_iff_less_mult mult.commute)
  then have "\<not> bit (data (enum_table d) ! ?q) (unat v mod 32)"
    using D(9) [of v] v(3) by simp
  moreover have "data (enum_table d') ! ?q = data (enum_table d) ! ?q" "?q < length (data (enum_table d'))"
    using st q D(7) by (simp_all add: list_state_def nth_append)
  moreover have "(ucast x :: u64) AND push_bit (unat v mod 32) 1 \<noteq> 0 \<longleftrightarrow> bit x (unat v mod 32)" for x :: u32
    by (subst and_push_bit_one) (auto simp: bit_ucast_iff intro: less_trans [OF mod_less_divisor [of 32]])
  moreover have "v < mask_limit (enum_table d')"
    using st lim v(2) by (simp add: list_state_def word_less_nat_alt)
  ultimately have "hpb_MiniTable_CheckEnumValueSlow (enum_table d') v = Some False"
    by (simp add: hpb_MiniTable_CheckEnumValueSlow_def unat_div32 data_at_def del: push_bit_of_1)
  then show ?thesis
    using v(1) by (simp add: hpb_MiniTableEnum_CheckValue_def hpb_MiniTable_CheckEnumValueFast_def)
qed

text \<open>With few values up to 512 in the mask, any larger one starts the list.\<close>

lemma build_values_beyond:
  assumes alloc: "\<forall>n. alloc_ok n" and inv: "enum_inv d ms [] 17" and few: "length ms < 15" and b: "512 < b"
    and len: "length (b # bs) < 2 ^ 32"
  shows "\<exists>d'. build_values alloc_ok (b # bs) d = Inr d' \<and> list_state (data (enum_table d)) 544 (b # bs) d'"
proof -
  note D = enum_invD [OF inv]
  have st: "list_state (data (enum_table d)) 544 [] d"
    using D(1,5) by (simp add: list_state_def word_unat_eq_iff)
  have "512 div 32 \<le> unat b div 32"
    using b by (intro div_le_mono) (simp add: word_less_nat_alt)
  moreover have "unat b div 32 < 4294967296"
    using unsigned_less [of b, where ?'a = nat] by (simp add: div_less_iff_less_mult)
  ultimately have "enum_value_count d + 1 < b div 32"
    using D(4) few by (simp add: word_less_nat_alt unat_div32 unat_word_ariths unat_of_nat)
  moreover have "enum_data_count d = mask_limit (enum_table d) div 32"
    using D(1,6) st by (simp add: list_state_def)
  ultimately obtain d2 where d2: "hpb_MiniTableEnum_BuildValue alloc_ok d b = Inr d2"
    "list_state (data (enum_table d)) 544 [b] d2"
    using BuildValue_append [OF alloc st, of b] b by auto
  then show ?thesis
    using build_values_list [OF alloc d2(2), of bs] len by simp
qed

lemma build_values_edge:
  assumes alloc: "\<forall>n. alloc_ok n" and srt: "sorted_wrt (<) vs" and len: "length vs \<le> 2 ^ 27 - 3"
    and mem: "512 \<in> set vs" and few: "card {v \<in> set vs. v \<le> 512} < 15" and v: "v \<in> set vs" "512 < v" "v < 544"
    and start: "enum_inv d0 [] [] 2"
  shows "\<exists>d. build_values alloc_ok vs d0 = Inr d \<and> hpb_MiniTableEnum_CheckValue (enum_table d) v = Some False"
proof -
  define as bs where "as = filter (\<lambda>v. v \<le> 512) vs" and "bs = filter (\<lambda>v. \<not> v \<le> 512) vs"
  have ab: "as @ bs = vs"
    unfolding as_def bs_def by (rule sorted_filter_split [OF srt])
  have as: "sorted_wrt (<) as" "last as = 512" "as \<noteq> []" "\<forall>w \<in> set as. w \<le> 512"
    unfolding as_def
    by (rule sorted_wrt_filter [OF srt], rule sorted_filter_last [OF srt mem])
      (use mem in \<open>simp_all add: filter_empty_conv\<close>, blast)
  have "distinct as"
    using as(1) by (simp add: strict_sorted_iff)
  then have "length as = card (set as)"
    by (simp add: distinct_card)
  then have few': "length as < 15"
    using few by (simp add: as_def)
  obtain d1 m where d1: "build_values alloc_ok as d0 = Inr d1" "enum_inv d1 as [] m"
    using build_values_mask [OF alloc start, of as] as few' by auto
  have m: "m = 17"
    using enum_invD(11) [OF d1(2)] as(2,3) by simp
  have "v \<in> set bs" "\<forall>w \<in> set bs. 512 < w"
    using v by (simp_all add: bs_def not_le)
  then obtain b bs' where b: "bs = b # bs'" "512 < b"
    by (cases bs) simp_all
  have "length (b # bs') < 2 ^ 32"
    using len ab [symmetric] b(1) by simp
  then obtain d3 where d3: "build_values alloc_ok bs d1 = Inr d3" "list_state (data (enum_table d1)) 544 bs d3"
    using build_values_beyond [OF alloc d1(2) [unfolded m] few' b(2), of bs'] b(1) by auto
  have "hpb_MiniTableEnum_CheckValue (enum_table d3) v = Some False"
    using v m as_def by (intro CheckValue_list_state [OF d1(2) d3(2)])
      (auto simp: word_less_nat_alt word_le_nat_alt)
  moreover have "build_values alloc_ok vs d0 = Inr d3"
    using d1(1) d3(1) by (simp add: ab [symmetric] build_values_append)
  ultimately show ?thesis by blast
qed

text \<open>
  C28: the exception is real. For every enum that has 512 and fewer than fifteen numbers up to
  512, given in order or not, the code encodes a descriptor and builds a table without error,
  and \<open>hpb_MiniTableEnum_CheckValue\<close> then answers that the numbers of the enum between 513
  and 543 are not in it.
\<close>

theorem enum_check_rejects_member:
  assumes alloc: "\<forall>n. alloc_ok n" and srt: "is_sorted \<longrightarrow> sorted vs" and len: "length vs \<le> 2 ^ 27 - 3"
    and mem: "512 \<in> set vs" and few: "card {v \<in> set vs. v \<le> 512} < 15" and v: "v \<in> set vs" "512 < v" "v < 544"
  shows "\<exists>desc table. hpb_EnumDef_MiniDescriptorEncode alloc_ok e is_sorted vs = Inr desc \<and>
    hpb_MiniDescriptor_BuildEnum alloc_ok desc = Inr table \<and> hpb_MiniTableEnum_CheckValue table v = Some False"
proof -
  obtain desc vs' where enc: "hpb_EnumDef_MiniDescriptorEncode alloc_ok e is_sorted vs =
      Inr (kHpb_EncodedVersion_EnumV1 # desc)" and vs': "sorted_wrt (<) vs'" "set vs' = set vs"
    and dec: "\<And>a d. enum_decode_loop a desc 0 d = build_values a vs' d"
    using hpb_EnumDef_MiniDescriptorEncode_ok [OF alloc srt] by blast
  have len': "length vs' \<le> 2 ^ 27 - 3"
    using strict_sorted_length_le [OF vs'] len by simp
  have few': "card {v \<in> set vs'. v \<le> 512} < 15" and mem': "512 \<in> set vs'" "v \<in> set vs'"
    using few mem v(1) vs'(2) by simp_all
  show ?thesis
    using build_values_edge [OF alloc vs'(1) len' mem'(1) few' mem'(2) v(2,3) enum_inv_start]
      enc BuildEnum_eq [OF alloc, of desc] dec by auto
qed

theorem enum_check_rejects_member_witness:
  "\<exists>desc table. hpb_EnumDef_MiniDescriptorEncode (\<lambda>_. True) example_encoder True [0, 512, 513] = Inr desc \<and>
    hpb_MiniDescriptor_BuildEnum (\<lambda>_. True) desc = Inr table \<and>
    hpb_MiniTableEnum_CheckValue table 513 = Some False"
proof (rule enum_check_rejects_member)
  have "card {v \<in> set [0, 512, 513 :: u32]. v \<le> 512} \<le> card (set [0, 512, 513 :: u32])"
    by (intro card_mono) auto
  also have "\<dots> \<le> 3"
    by (rule order_trans [OF card_length]) simp
  finally show "card {v \<in> set [0, 512, 513 :: u32]. v \<le> 512} < 15"
    by simp
qed simp_all

end
