(* ===== verification/MiniTable.thy ===== *)
theory MiniTable
  imports Descriptor
begin

text \<open>
  Mini tables: the description of a message type that the wire codec works from. The structures
  of \<open>src/hpb/mini_table/internal/field.h\<close>, \<open>message.h\<close>, \<open>sub.h\<close> and \<open>extension.h\<close>, the
  accessors of \<open>src/hpb/mini_table/field.h\<close> and \<open>message.h\<close>, the lookups of
  \<open>src/hpb/mini_table/message.c\<close> and the comparison of \<open>compat.c\<close>.

  A \<open>hpb_MiniTableField*\<close> into a table's array is the index of the field. A pointer to
  another table or to an enum table is an address (a natural number); the tables themselves
  are in a store, because message types may refer to each other in a cycle.
\<close>

section \<open>Fields\<close>

record hpb_MiniTableField =
  f_number :: u32
  f_offset :: u16
  f_presence :: u16
  submsg_index :: u16
  descriptortype :: hpb_FieldType
  f_mode :: byte

definition kHpb_NoSub :: u16 where "kHpb_NoSub = - 1"

definition kHpb_FieldMode_Map :: byte where "kHpb_FieldMode_Map = 0"
definition kHpb_FieldMode_Array :: byte where "kHpb_FieldMode_Array = 1"
definition kHpb_FieldMode_Scalar :: byte where "kHpb_FieldMode_Scalar = 2"
definition kHpb_FieldMode_Mask :: byte where "kHpb_FieldMode_Mask = 3"

definition kHpb_LabelFlags_IsPacked :: byte where "kHpb_LabelFlags_IsPacked = 4"
definition kHpb_LabelFlags_IsExtension :: byte where "kHpb_LabelFlags_IsExtension = 8"
definition kHpb_LabelFlags_IsAlternate :: byte where "kHpb_LabelFlags_IsAlternate = 16"

lemmas field_mode_defs =
  kHpb_FieldMode_Map_def kHpb_FieldMode_Array_def kHpb_FieldMode_Scalar_def kHpb_FieldMode_Mask_def
  kHpb_LabelFlags_IsPacked_def kHpb_LabelFlags_IsExtension_def kHpb_LabelFlags_IsAlternate_def

datatype hpb_FieldRep = FieldRep_1Byte | FieldRep_4Byte | FieldRep_StringView | FieldRep_8Byte

fun kHpb_FieldRep :: "hpb_FieldRep \<Rightarrow> nat" where
  "kHpb_FieldRep FieldRep_1Byte = 0"
| "kHpb_FieldRep FieldRep_4Byte = 1"
| "kHpb_FieldRep FieldRep_StringView = 2"
| "kHpb_FieldRep FieldRep_8Byte = 3"

definition kHpb_FieldRep_Shift :: nat where "kHpb_FieldRep_Shift = 6"

text \<open>The enumerator with a given number; \<open>mode >> 6\<close> is at most 3.\<close>

definition field_rep_of :: "nat \<Rightarrow> hpb_FieldRep" where
  "field_rep_of n =
     (if n = 0 then FieldRep_1Byte else if n = 1 then FieldRep_4Byte
      else if n = 2 then FieldRep_StringView else FieldRep_8Byte)"

definition hpb_MiniTableField_GetRep :: "hpb_MiniTableField \<Rightarrow> hpb_FieldRep" where
  "hpb_MiniTableField_GetRep f = field_rep_of (unat (drop_bit kHpb_FieldRep_Shift (f_mode f)))"

definition hpb_FieldMode_Get :: "hpb_MiniTableField \<Rightarrow> byte" where
  "hpb_FieldMode_Get f = f_mode f AND 3"

definition hpb_IsRepeatedOrMap :: "hpb_MiniTableField \<Rightarrow> bool" where
  "hpb_IsRepeatedOrMap f \<longleftrightarrow> \<not> has_flag (f_mode f) kHpb_FieldMode_Scalar"

definition hpb_IsSubMessage :: "hpb_MiniTableField \<Rightarrow> bool" where
  "hpb_IsSubMessage f \<longleftrightarrow>
     descriptortype f = FieldType_Message \<or> descriptortype f = FieldType_Group"

definition hpb_MiniTableField_Type :: "hpb_MiniTableField \<Rightarrow> c_fail + hpb_FieldType" where
  "hpb_MiniTableField_Type f =
     (if has_flag (f_mode f) kHpb_LabelFlags_IsAlternate
      then if descriptortype f = FieldType_Int32 then Inr FieldType_Enum
           else if descriptortype f = FieldType_Bytes then Inr FieldType_String
           else Inl AssertFail
      else Inr (descriptortype f))"

datatype hpb_CType =
    CType_Bool | CType_Float | CType_Int32 | CType_UInt32 | CType_Enum | CType_Message
  | CType_Double | CType_Int64 | CType_UInt64 | CType_String | CType_Bytes

fun ctype_of :: "hpb_FieldType \<Rightarrow> hpb_CType" where
  "ctype_of FieldType_Double = CType_Double"
| "ctype_of FieldType_Float = CType_Float"
| "ctype_of FieldType_Int64 = CType_Int64"
| "ctype_of FieldType_SInt64 = CType_Int64"
| "ctype_of FieldType_SFixed64 = CType_Int64"
| "ctype_of FieldType_Int32 = CType_Int32"
| "ctype_of FieldType_SFixed32 = CType_Int32"
| "ctype_of FieldType_SInt32 = CType_Int32"
| "ctype_of FieldType_UInt64 = CType_UInt64"
| "ctype_of FieldType_Fixed64 = CType_UInt64"
| "ctype_of FieldType_UInt32 = CType_UInt32"
| "ctype_of FieldType_Fixed32 = CType_UInt32"
| "ctype_of FieldType_Enum = CType_Enum"
| "ctype_of FieldType_Bool = CType_Bool"
| "ctype_of FieldType_String = CType_String"
| "ctype_of FieldType_Bytes = CType_Bytes"
| "ctype_of FieldType_Group = CType_Message"
| "ctype_of FieldType_Message = CType_Message"

definition hpb_MiniTableField_CType :: "hpb_MiniTableField \<Rightarrow> c_fail + hpb_CType" where
  "hpb_MiniTableField_CType f = res_bind (hpb_MiniTableField_Type f) (\<lambda>ty. Inr (ctype_of ty))"

definition hpb_MiniTableField_IsExtension :: "hpb_MiniTableField \<Rightarrow> bool" where
  "hpb_MiniTableField_IsExtension f \<longleftrightarrow> has_flag (f_mode f) kHpb_LabelFlags_IsExtension"

definition hpb_MiniTableField_IsClosedEnum :: "hpb_MiniTableField \<Rightarrow> bool" where
  "hpb_MiniTableField_IsClosedEnum f \<longleftrightarrow> descriptortype f = FieldType_Enum"

definition hpb_MiniTableField_HasPresence :: "hpb_MiniTableField \<Rightarrow> bool" where
  "hpb_MiniTableField_HasPresence f \<longleftrightarrow>
     (if hpb_MiniTableField_IsExtension f then \<not> hpb_IsRepeatedOrMap f else f_presence f \<noteq> 0)"

section \<open>Tables\<close>

text \<open>
  An entry of \<open>subs\<close> is a union of two pointers. \<open>SubMsg None\<close> is the address of
  \<open>_kHpb_MiniTable_Empty\<close>, which marks an unlinked sub-message; \<open>SubEnum None\<close> is \<open>NULL\<close>.
\<close>

datatype hpb_MiniTableSub = SubMsg "nat option" | SubEnum "nat option"

record hpb_MiniTable =
  t_subs :: "hpb_MiniTableSub list"
  t_fields :: "hpb_MiniTableField list"
  t_size :: u16
  field_count :: u16
  ext_mode :: byte
  dense_below :: byte
  table_mask :: byte
  required_count :: byte

definition kHpb_ExtMode_NonExtendable :: byte where "kHpb_ExtMode_NonExtendable = 0"
definition kHpb_ExtMode_Extendable :: byte where "kHpb_ExtMode_Extendable = 1"
definition kHpb_ExtMode_IsMessageSet :: byte where "kHpb_ExtMode_IsMessageSet = 2"
definition kHpb_ExtMode_IsMessageSet_ITEM :: byte where "kHpb_ExtMode_IsMessageSet_ITEM = 3"
definition kHpb_ExtMode_IsMapEntry :: byte where "kHpb_ExtMode_IsMapEntry = 4"

lemmas ext_mode_defs =
  kHpb_ExtMode_NonExtendable_def kHpb_ExtMode_Extendable_def kHpb_ExtMode_IsMessageSet_def
  kHpb_ExtMode_IsMessageSet_ITEM_def kHpb_ExtMode_IsMapEntry_def

definition kHpb_MiniTable_Empty :: hpb_MiniTable where
  "kHpb_MiniTable_Empty =
     \<lparr>t_subs = [], t_fields = [], t_size = 0, field_count = 0, ext_mode = kHpb_ExtMode_NonExtendable,
      dense_below = 0, table_mask = - 1, required_count = 0\<rparr>"

record hpb_MiniTableExtension =
  ext_field :: hpb_MiniTableField
  extendee :: nat
  ext_sub :: hpb_MiniTableSub

definition hpb_MiniTable_requiredmask :: "hpb_MiniTable \<Rightarrow> c_fail + u64" where
  "hpb_MiniTable_requiredmask l =
     (let n = unat (required_count l) in
      if 0 < n \<and> n \<le> 63 then Inr (push_bit 1 (push_bit n 1 - 1)) else Inl AssertFail)"

text \<open>
  \<open>hpb_MiniTable_FindFieldByNumber\<close>: direct indexing for the dense prefix, binary search for
  the rest. \<open>lo\<close> and \<open>hi\<close> are C \<open>int\<close>s; \<open>hi\<close> starts at -1 for an empty table.
\<close>

function find_field_search ::
  "hpb_MiniTableField list \<Rightarrow> u32 \<Rightarrow> int \<Rightarrow> int \<Rightarrow> c_fail + nat option" where
  "find_field_search fs number lo hi =
     (if lo \<le> hi then
        let mid = (lo + hi) div 2 in
        res_bind (array_get fs (nat mid)) (\<lambda>f.
          if f_number f < number then find_field_search fs number (mid + 1) hi
          else if f_number f > number then find_field_search fs number lo (mid - 1)
          else Inr (Some (nat mid)))
      else Inr None)"
  by pat_completeness auto
termination
  by (relation "measure (\<lambda>(fs, number, lo, hi). nat (hi + 1 - lo))") auto

declare find_field_search.simps [simp del]

definition hpb_MiniTable_FindFieldByNumber :: "hpb_MiniTable \<Rightarrow> u32 \<Rightarrow> c_fail + nat option" where
  "hpb_MiniTable_FindFieldByNumber t number =
     (let i = unat (ucast number - 1 :: u64) in
      if i < unat (dense_below t) then
        res_bind (array_get (t_fields t) i) (\<lambda>f.
          if f_number f = number then Inr (Some i) else Inl AssertFail)
      else find_field_search (t_fields t) number (int (unat (dense_below t)))
             (int (unat (field_count t)) - 1))"

definition hpb_MiniTable_Is_Oneof :: "hpb_MiniTableField \<Rightarrow> bool" where
  "hpb_MiniTable_Is_Oneof f \<longleftrightarrow> sint (f_presence f) < 0"

text \<open>The loop \<open>while (++ptr < end)\<close> of the two oneof iterators.\<close>

function next_with_presence ::
  "hpb_MiniTableField list \<Rightarrow> nat \<Rightarrow> u16 \<Rightarrow> nat \<Rightarrow> c_fail + nat option" where
  "next_with_presence fs n p ptr =
     (if ptr + 1 < n then
        res_bind (array_get fs (ptr + 1)) (\<lambda>f.
          if f_presence f = p then Inr (Some (ptr + 1)) else next_with_presence fs n p (ptr + 1))
      else Inr None)"
  by pat_completeness auto
termination
  by (relation "measure (\<lambda>(fs, n, p, ptr). n - ptr)") auto

declare next_with_presence.simps [simp del]

definition hpb_MiniTable_GetOneof :: "hpb_MiniTable \<Rightarrow> hpb_MiniTableField \<Rightarrow> c_fail + nat option" where
  "hpb_MiniTable_GetOneof m f =
     (if \<not> hpb_MiniTable_Is_Oneof f then Inr None
      else next_with_presence (t_fields m) (unat (field_count m)) (f_presence f) 0)"

definition hpb_MiniTable_NextOneofField :: "hpb_MiniTable \<Rightarrow> nat \<Rightarrow> c_fail + nat option" where
  "hpb_MiniTable_NextOneofField m i =
     res_bind (array_get (t_fields m) i) (\<lambda>f.
       next_with_presence (t_fields m) (unat (field_count m)) (f_presence f) i)"

text \<open>
  \<open>HPB_ASSUME(ret)\<close> in \<open>hpb_MiniTable_GetSubMessageTable\<close> excludes a null pointer, which is
  what an unlinked enum entry would be.
\<close>

definition hpb_MiniTable_GetSubMessageTable ::
  "hpb_MiniTable \<Rightarrow> hpb_MiniTableField \<Rightarrow> c_fail + nat option" where
  "hpb_MiniTable_GetSubMessageTable t f =
     res_bind (hpb_MiniTableField_CType f) (\<lambda>c.
       if c \<noteq> CType_Message then Inl AssertFail
       else res_bind (array_get (t_subs t) (unat (submsg_index f))) (\<lambda>s.
         case s of SubMsg r \<Rightarrow> Inr r | SubEnum (Some a) \<Rightarrow> Inr (Some a) | SubEnum None \<Rightarrow> Inl NullPtr))"

definition hpb_MiniTable_GetSubEnumTable ::
  "hpb_MiniTable \<Rightarrow> hpb_MiniTableField \<Rightarrow> c_fail + hpb_MiniTableSub" where
  "hpb_MiniTable_GetSubEnumTable t f =
     res_bind (hpb_MiniTableField_CType f) (\<lambda>c.
       if c \<noteq> CType_Enum then Inl AssertFail
       else array_get (t_subs t) (unat (submsg_index f)))"

definition hpb_MiniTable_MessageFieldIsLinked ::
  "hpb_MiniTable \<Rightarrow> hpb_MiniTableField \<Rightarrow> c_fail + bool" where
  "hpb_MiniTable_MessageFieldIsLinked t f =
     res_bind (hpb_MiniTable_GetSubMessageTable t f) (\<lambda>r. Inr (r \<noteq> None))"

section \<open>Comparing tables\<close>

text \<open>
  \<open>hpb_deep_check\<close> and \<open>hpb_MiniTable_Equals\<close> call each other through the store \<open>st\<close> of
  tables; \<open>fuel\<close> bounds the depth of the recursion, and the outer \<open>None\<close> is a call that has not
  returned at that depth. A field missing in \<open>dst\<close> is a null pointer that the code
  dereferences.
\<close>

definition deep_check_field ::
  "(nat \<Rightarrow> nat \<Rightarrow> (c_fail + bool) option) \<Rightarrow> bool \<Rightarrow> hpb_MiniTable \<Rightarrow> hpb_MiniTable \<Rightarrow>
   hpb_MiniTableField \<Rightarrow> (c_fail + bool) option" where
  "deep_check_field equals eq src dst src_field =
     (case hpb_MiniTable_FindFieldByNumber dst (f_number src_field) of
        Inl e \<Rightarrow> Some (Inl e)
      | Inr None \<Rightarrow> Some (Inl NullPtr)
      | Inr (Some j) \<Rightarrow>
          let dst_field = t_fields dst ! j in
          case (hpb_MiniTableField_CType src_field, hpb_MiniTableField_CType dst_field) of
            (Inr c, Inr c') \<Rightarrow>
              if c \<noteq> c' then Some (Inr False)
              else if f_mode src_field \<noteq> f_mode dst_field then Some (Inr False)
              else if f_offset src_field \<noteq> f_offset dst_field then Some (Inr False)
              else if f_presence src_field \<noteq> f_presence dst_field then Some (Inr False)
              else if submsg_index src_field \<noteq> submsg_index dst_field then Some (Inr False)
              else if \<not> eq then Some (Inr True)
              else if c = CType_Message then
                (case (hpb_MiniTable_GetSubMessageTable src src_field,
                       hpb_MiniTable_GetSubMessageTable dst dst_field) of
                   (Inr None, Inr _) \<Rightarrow> Some (Inr True)
                 | (Inr (Some s), Inr (Some d)) \<Rightarrow> equals s d
                 | (Inr (Some s), Inr None) \<Rightarrow> Some (Inl NullPtr)
                 | (Inl e, _) \<Rightarrow> Some (Inl e)
                 | (_, Inl e) \<Rightarrow> Some (Inl e))
              else Some (Inr True)
          | (Inl e, _) \<Rightarrow> Some (Inl e)
          | (_, Inl e) \<Rightarrow> Some (Inl e))"

fun deep_check_fields ::
  "(nat \<Rightarrow> nat \<Rightarrow> (c_fail + bool) option) \<Rightarrow> bool \<Rightarrow> hpb_MiniTable \<Rightarrow> hpb_MiniTable \<Rightarrow>
   hpb_MiniTableField list \<Rightarrow> (c_fail + bool) option" where
  "deep_check_fields equals eq src dst [] = Some (Inr True)"
| "deep_check_fields equals eq src dst (f # fs) =
     (case deep_check_field equals eq src dst f of
        Some (Inr True) \<Rightarrow> deep_check_fields equals eq src dst fs
      | r \<Rightarrow> r)"

definition hpb_deep_check ::
  "(nat \<Rightarrow> nat \<Rightarrow> (c_fail + bool) option) \<Rightarrow> bool \<Rightarrow> hpb_MiniTable \<Rightarrow> hpb_MiniTable \<Rightarrow>
   (c_fail + bool) option" where
  "hpb_deep_check equals eq src dst =
     (if field_count src \<noteq> field_count dst then Some (Inr False)
      else deep_check_fields equals eq src dst (take (unat (field_count src)) (t_fields src)))"

definition hpb_MiniTable_Compatible :: "hpb_MiniTable \<Rightarrow> hpb_MiniTable \<Rightarrow> (c_fail + bool) option" where
  "hpb_MiniTable_Compatible src dst = hpb_deep_check (\<lambda>_ _. None) False src dst"

fun hpb_MiniTable_Equals ::
  "(nat \<Rightarrow> hpb_MiniTable) \<Rightarrow> nat \<Rightarrow> nat \<Rightarrow> nat \<Rightarrow> (c_fail + bool) option" where
  "hpb_MiniTable_Equals st 0 src dst = None"
| "hpb_MiniTable_Equals st (Suc fuel) src dst =
     hpb_deep_check (hpb_MiniTable_Equals st fuel) True (st src) (st dst)"

section \<open>Lookup by number\<close>

text \<open>
  What the lookup relies on: the array holds \<open>field_count\<close> fields in the order of their
  numbers, and the dense prefix holds the numbers 1, 2, ... in turn.
\<close>

definition dense_prefix :: "hpb_MiniTable \<Rightarrow> bool" where
  "dense_prefix t \<longleftrightarrow>
     unat (dense_below t) \<le> unat (field_count t) \<and> unat (field_count t) \<le> length (t_fields t) \<and>
     (\<forall>i < unat (dense_below t). f_number (t_fields t ! i) = of_nat (i + 1))"

definition table_wf :: "hpb_MiniTable \<Rightarrow> bool" where
  "table_wf t \<longleftrightarrow> dense_prefix t \<and>
     sorted_wrt (<) (map f_number (take (unat (field_count t)) (t_fields t)))"

definition search_spec ::
  "hpb_MiniTableField list \<Rightarrow> nat \<Rightarrow> u32 \<Rightarrow> c_fail + nat option \<Rightarrow> bool" where
  "search_spec fs n number r \<longleftrightarrow>
     (case r of
        Inl _ \<Rightarrow> False
      | Inr None \<Rightarrow> (\<forall>i<n. f_number (fs ! i) \<noteq> number)
      | Inr (Some i) \<Rightarrow> i < n \<and> f_number (fs ! i) = number)"

lemma sorted_number_nth:
  assumes "sorted_wrt (<) (map f_number (take n fs))" "n \<le> length fs" "i < j" "j < n"
  shows "f_number (fs ! i) < f_number (fs ! j)"
  using sorted_wrt_nth_less [OF assms(1), of i j] assms(2-) by simp

lemma find_field_search_correct:
  "sorted_wrt (<) (map f_number (take n fs)) \<Longrightarrow> n \<le> length fs \<Longrightarrow> 0 \<le> lo \<Longrightarrow> hi < int n \<Longrightarrow>
    \<forall>i<n. int i < lo \<or> hi < int i \<longrightarrow> f_number (fs ! i) \<noteq> number \<Longrightarrow>
    search_spec fs n number (find_field_search fs number lo hi)"
proof (induction fs number lo hi rule: find_field_search.induct)
  case (1 fs number lo hi)
  note sorted_nth = sorted_number_nth [OF "1.prems"(1,2)]
  show ?case
  proof (cases "lo \<le> hi")
    case False
    then show ?thesis
      using "1.prems" by (auto simp: find_field_search.simps [of fs] search_spec_def)
  next
    case True
    define mid where "mid = (lo + hi) div 2"
    have mid: "0 \<le> mid" "mid \<le> hi" "nat mid < n" "nat mid < length fs"
      using True "1.prems" by (auto simp: mid_def)
    define f where "f = fs ! nat mid"
    have step: "find_field_search fs number lo hi =
        (if f_number f < number then find_field_search fs number (mid + 1) hi
         else if f_number f > number then find_field_search fs number lo (mid - 1)
         else Inr (Some (nat mid)))"
      using True mid by (simp add: find_field_search.simps [of fs number lo hi] mid_def f_def Let_def)
    consider "f_number f < number" | "f_number f > number" | "f_number f = number"
      by fastforce
    then show ?thesis
    proof cases
      case 1
      have "f_number (fs ! i) \<noteq> number" if i: "i < n" "int i < mid + 1" for i
      proof -
        consider "i = nat mid" | "i < nat mid"
          using i mid by linarith
        then show ?thesis
          using sorted_nth [of i "nat mid"] mid 1 by cases (auto simp: f_def)
      qed
      then have "search_spec fs n number (find_field_search fs number (mid + 1) hi)"
        using "1.IH"(1) [OF True mid_def, of f] "1.prems" mid 1 by (auto simp: f_def)
      then show ?thesis
        using step 1 by simp
    next
      case 2
      have "f_number (fs ! i) \<noteq> number" if i: "i < n" "mid - 1 < int i" for i
      proof -
        consider "i = nat mid" | "nat mid < i"
          using i mid by linarith
        then show ?thesis
          using sorted_nth [of "nat mid" i] i mid 2 by cases (auto simp: f_def)
      qed
      then have "search_spec fs n number (find_field_search fs number lo (mid - 1))"
        using "1.IH"(2) [OF True mid_def, of f] "1.prems" mid 2 by (auto simp: f_def)
      then show ?thesis
        using step 2 by auto
    next
      case 3
      then show ?thesis
        using step mid by (simp add: search_spec_def f_def)
    qed
  qed
qed

lemma number_index:
  "unat (ucast number - 1 :: u64) = (if number = 0 then 2 ^ 64 - 1 else unat number - 1)"
  for number :: u32
proof -
  have u: "unat (ucast number :: u64) = unat number"
    using unsigned_less [of number, where 'a = nat] by (simp add: unat_ucast_small)
  have "(1 :: u64) \<le> ucast number" if "number \<noteq> 0"
    using that u unat_gt_0 [of number] by (simp add: word_le_nat_alt)
  then show ?thesis
    using u by (simp add: unat_sub unat_minus_1)
qed

lemma unat_of_nat_u32: "n < 2 ^ 32 \<Longrightarrow> unat (of_nat n :: u32) = n"
  by (simp add: unat_of_nat)

lemma dense_index_number:
  assumes "unat (ucast number - 1 :: u64) < d" "d < 256"
  shows "number = (of_nat (unat (ucast number - 1 :: u64) + 1) :: u32)"
proof -
  have "unat number = unat (ucast number - 1 :: u64) + 1"
    using assms number_index [of number] unat_gt_0 [of number] by (auto split: if_splits)
  then show ?thesis
    by (metis of_nat_unat ucast_id)
qed

lemma FindFieldByNumber_spec:
  assumes wf: "table_wf t"
  shows "search_spec (t_fields t) (unat (field_count t)) number (hpb_MiniTable_FindFieldByNumber t number)"
proof -
  define i where "i = unat (ucast number - 1 :: u64)"
  define d where "d = unat (dense_below t)"
  define n where "n = unat (field_count t)"
  have d: "d < 256" "d \<le> n" "n \<le> length (t_fields t)"
    "\<And>i. i < d \<Longrightarrow> f_number (t_fields t ! i) = of_nat (i + 1)"
    using wf unsigned_less [of "dense_below t", where 'a = nat]
    by (auto simp: table_wf_def dense_prefix_def d_def n_def)
  have num: "unat (of_nat (j + 1) :: u32) = j + 1" if "j < d" for j
    using unat_of_nat_u32 [of "j + 1"] that d(1) by simp
  show ?thesis
  proof (cases "i < d")
    case True
    then have "number = of_nat (i + 1)"
      using dense_index_number [of number d] d(1) by (simp add: i_def)
    then show ?thesis
      using True d
      by (auto simp: hpb_MiniTable_FindFieldByNumber_def Let_def search_spec_def i_def d_def n_def)
  next
    case False
    have "f_number (t_fields t ! j) \<noteq> number" if "j < d" for j
      using num [OF that] d(4) [OF that] False that number_index [of number]
      by (auto simp: i_def split: if_splits)
    then have "search_spec (t_fields t) n number
        (find_field_search (t_fields t) number (int d) (int n - 1))"
      using wf d by (intro find_field_search_correct) (auto simp: table_wf_def n_def [symmetric])
    then show ?thesis
      using False by (simp add: hpb_MiniTable_FindFieldByNumber_def i_def d_def n_def Let_def)
  qed
qed

lemma table_number_inj:
  assumes "table_wf t" "i < unat (field_count t)" "j < unat (field_count t)"
    "f_number (t_fields t ! i) = f_number (t_fields t ! j)"
  shows "i = j"
  using assms sorted_number_nth [of "unat (field_count t)" "t_fields t" i j]
    sorted_number_nth [of "unat (field_count t)" "t_fields t" j i]
  by (cases i j rule: linorder_cases) (auto simp: table_wf_def dense_prefix_def)

text \<open>
  C32: on a table whose fields are ordered by number with a dense prefix, the lookup always
  returns; it gives index \<open>i\<close> exactly when field \<open>i\<close> has the number, and \<open>NULL\<close> exactly when
  no field has it. The direct index into the dense prefix and the binary search agree with a
  linear search.
\<close>

theorem hpb_MiniTable_FindFieldByNumber_correct:
  assumes "table_wf t"
  shows "(hpb_MiniTable_FindFieldByNumber t number = Inr (Some i) \<longleftrightarrow>
      i < unat (field_count t) \<and> f_number (t_fields t ! i) = number) \<and>
    (hpb_MiniTable_FindFieldByNumber t number = Inr None \<longleftrightarrow>
      (\<forall>i < unat (field_count t). f_number (t_fields t ! i) \<noteq> number))"
  using FindFieldByNumber_spec [OF assms, of number] table_number_inj [OF assms]
  by (auto simp: search_spec_def split: sum.splits option.splits)

text \<open>A table with the numbers 1, 2, 5 and 9, the last two in a oneof.\<close>

definition example_field :: "u32 \<Rightarrow> u16 \<Rightarrow> u16 \<Rightarrow> hpb_MiniTableField" where
  "example_field n off p = \<lparr>f_number = n, f_offset = off, f_presence = p, submsg_index = kHpb_NoSub,
     descriptortype = FieldType_Int32, f_mode = 66\<rparr>"

definition example_table :: hpb_MiniTable where
  "example_table = \<lparr>t_subs = [], t_fields = [example_field 1 4 1, example_field 2 8 0,
      example_field 5 16 (- 13), example_field 9 16 (- 13)],
     t_size = 24, field_count = 4, ext_mode = 0, dense_below = 2, table_mask = - 1,
     required_count = 0\<rparr>"

lemma example_table_wf: "table_wf example_table"
  by code_simp

theorem hpb_MiniTable_FindFieldByNumber_correct_witness:
  "hpb_MiniTable_FindFieldByNumber example_table 5 = Inr (Some 2) \<and>
   hpb_MiniTable_FindFieldByNumber example_table 2 = Inr (Some 1) \<and>
   hpb_MiniTable_FindFieldByNumber example_table 0 = Inr None"
proof -
  have "2 < unat (field_count example_table) \<and> f_number (t_fields example_table ! 2) = 5"
    "1 < unat (field_count example_table) \<and> f_number (t_fields example_table ! 1) = 2"
    "\<forall>i < unat (field_count example_table). f_number (t_fields example_table ! i) \<noteq> 0"
    by code_simp+
  then show ?thesis
    using hpb_MiniTable_FindFieldByNumber_correct [OF example_table_wf, of 5 2]
      hpb_MiniTable_FindFieldByNumber_correct [OF example_table_wf, of 2 1]
      hpb_MiniTable_FindFieldByNumber_correct [OF example_table_wf, of 0 0] by blast
qed

section \<open>Oneof iteration\<close>

lemma next_with_presence_correct:
  assumes "n \<le> length fs"
  shows "next_with_presence fs n p i = Inr (find (\<lambda>j. f_presence (fs ! j) = p) [i + 1..<n])"
  using assms
proof (induction fs n p i rule: next_with_presence.induct)
  case (1 fs n p i)
  then show ?case
    by (subst next_with_presence.simps) (simp add: upt_conv_Cons)
qed

text \<open>The documented use: start at \<open>hpb_MiniTable_GetOneof\<close>, then follow
  \<open>hpb_MiniTable_NextOneofField\<close> until it answers false. At most \<open>field_count\<close> steps.\<close>

fun oneof_walk :: "nat \<Rightarrow> hpb_MiniTable \<Rightarrow> nat \<Rightarrow> nat list" where
  "oneof_walk 0 m i = []"
| "oneof_walk (Suc k) m i =
     i # (case hpb_MiniTable_NextOneofField m i of Inr (Some j) \<Rightarrow> oneof_walk k m j | _ \<Rightarrow> [])"

definition oneof_visit :: "hpb_MiniTable \<Rightarrow> hpb_MiniTableField \<Rightarrow> nat list" where
  "oneof_visit m f =
     (case hpb_MiniTable_GetOneof m f of
        Inr (Some i) \<Rightarrow> oneof_walk (unat (field_count m)) m i | _ \<Rightarrow> [])"

lemma find_upt_filter:
  "find P [a..<b] = None \<Longrightarrow> filter P [a..<b] = []"
  "find P [a..<b] = Some j \<Longrightarrow> a \<le> j \<and> j < b \<and> P j \<and> filter P [a..<b] = j # filter P [j + 1..<b]"
proof -
  show "find P [a..<b] = None \<Longrightarrow> filter P [a..<b] = []"
    by (auto simp: find_None_iff filter_empty_conv)
  show "find P [a..<b] = Some j \<Longrightarrow>
      a \<le> j \<and> j < b \<and> P j \<and> filter P [a..<b] = j # filter P [j + 1..<b]"
  proof (induction "b - a" arbitrary: a)
    case 0
    then show ?case by simp
  next
    case (Suc k)
    have k: "k = b - Suc a" "a < b"
      using Suc.hyps(2) by simp_all
    show ?case
      using Suc.prems Suc.hyps(1) [OF k(1)] k(2) by (auto simp: upt_conv_Cons split: if_splits)
  qed
qed

lemma oneof_walk_correct:
  assumes len: "unat (field_count m) \<le> length (t_fields m)"
  shows "i < unat (field_count m) \<Longrightarrow> unat (field_count m) - i \<le> k \<Longrightarrow> 
    f_presence (t_fields m ! i) = p \<Longrightarrow>
    oneof_walk k m i = i # filter (\<lambda>j. f_presence (t_fields m ! j) = p) [i + 1..<unat (field_count m)]"
proof (induction k arbitrary: i)
  case 0
  then show ?case by simp
next
  case (Suc k)
  let ?P = "\<lambda>j. f_presence (t_fields m ! j) = p"
  have nxt: "hpb_MiniTable_NextOneofField m i = Inr (find ?P [i + 1..<unat (field_count m)])"
    using Suc.prems len by (simp add: hpb_MiniTable_NextOneofField_def next_with_presence_correct)
  show ?case
  proof (cases "find ?P [i + 1..<unat (field_count m)]")
    case None
    then show ?thesis
      using nxt find_upt_filter(1) [OF None] by simp
  next
    case (Some j)
    note j = find_upt_filter(2) [OF Some]
    have "oneof_walk k m j = j # filter ?P [j + 1..<unat (field_count m)]"
      using j Suc.prems by (intro Suc.IH) auto
    then show ?thesis
      using nxt Some j by simp
  qed
qed

text \<open>
  C35: for a field of a oneof, the documented iteration visits, in order and once each, the
  fields of the oneof whose index is not 0: the first field of the table is never visited,
  even when it is a member of the oneof.
\<close>

theorem hpb_MiniTable_oneof_iteration:
  assumes len: "unat (field_count m) \<le> length (t_fields m)" and oneof: "hpb_MiniTable_Is_Oneof f"
  shows "oneof_visit m f =
    filter (\<lambda>i. f_presence (t_fields m ! i) = f_presence f) [1..<unat (field_count m)]"
proof -
  let ?P = "\<lambda>j. f_presence (t_fields m ! j) = f_presence f"
  have get: "hpb_MiniTable_GetOneof m f = Inr (find ?P [1..<unat (field_count m)])"
    using len oneof by (simp add: hpb_MiniTable_GetOneof_def next_with_presence_correct)
  show ?thesis
  proof (cases "find ?P [1..<unat (field_count m)]")
    case None
    then show ?thesis
      using get find_upt_filter(1) [OF None] by (simp add: oneof_visit_def)
  next
    case (Some j)
    note j = find_upt_filter(2) [OF Some]
    then show ?thesis
      using get Some oneof_walk_correct [OF len, of j] by (simp add: oneof_visit_def)
  qed
qed

definition oneof_table :: hpb_MiniTable where
  "oneof_table = example_table\<lparr>t_fields := [example_field 1 8 (- 5), example_field 2 8 (- 5)],
     field_count := 2, dense_below := 2\<rparr>"

theorem hpb_MiniTable_oneof_iteration_witness:
  "oneof_visit oneof_table (example_field 1 8 (- 5)) = [1]"
proof -
  have "oneof_visit oneof_table (example_field 1 8 (- 5)) =
      filter (\<lambda>i. f_presence (t_fields oneof_table ! i) = f_presence (example_field 1 8 (- 5)))
        [1..<unat (field_count oneof_table)]"
    by (rule hpb_MiniTable_oneof_iteration)
      (simp_all add: oneof_table_def hpb_MiniTable_Is_Oneof_def example_field_def)
  then show ?thesis
    by (simp add: oneof_table_def example_field_def upt_rec)
qed

section \<open>Comparison\<close>

definition same_layout :: "hpb_MiniTableField \<Rightarrow> hpb_MiniTableField \<Rightarrow> bool" where
  "same_layout f g \<longleftrightarrow> f_number f = f_number g \<and>
     hpb_MiniTableField_CType f = hpb_MiniTableField_CType g \<and> f_mode f = f_mode g \<and>
     f_offset f = f_offset g \<and> f_presence f = f_presence g \<and> submsg_index f = submsg_index g"

definition types_ok :: "hpb_MiniTable \<Rightarrow> bool" where
  "types_ok t \<longleftrightarrow> (\<forall>f \<in> set (t_fields t). \<exists>c. hpb_MiniTableField_CType f = Inr c)"

lemma deep_check_fields_True:
  "deep_check_fields equals eq src dst fs = Some (Inr True) \<longleftrightarrow>
     (\<forall>f \<in> set fs. deep_check_field equals eq src dst f = Some (Inr True))"
  by (induction fs) (auto split: option.splits sum.splits bool.splits)

lemma deep_check_field_compat:
  assumes "table_wf dst" "types_ok dst" "hpb_MiniTableField_CType f = Inr c"
  shows "deep_check_field equals False src dst f = Some (Inr True) \<longleftrightarrow>
    (\<exists>j < unat (field_count dst). same_layout f (t_fields dst ! j))"
proof (cases "hpb_MiniTable_FindFieldByNumber dst (f_number f)")
  case (Inl e)
  then show ?thesis
    using FindFieldByNumber_spec [OF assms(1), of "f_number f"] by (simp add: search_spec_def)
next
  case (Inr r)
  show ?thesis
  proof (cases r)
    case None
    then show ?thesis
      using FindFieldByNumber_spec [OF assms(1), of "f_number f"] Inr
      by (auto simp: search_spec_def deep_check_field_def same_layout_def)
  next
    case (Some j)
    have j: "j < unat (field_count dst)" "f_number (t_fields dst ! j) = f_number f"
      using FindFieldByNumber_spec [OF assms(1), of "f_number f"] Inr Some
      by (auto simp: search_spec_def)
    have "t_fields dst ! j \<in> set (t_fields dst)"
      using assms(1) j(1) by (auto simp: table_wf_def dense_prefix_def)
    then obtain c' where "hpb_MiniTableField_CType (t_fields dst ! j) = Inr c'"
      using assms(2) by (auto simp: types_ok_def)
    then have "deep_check_field equals False src dst f = Some (Inr True) \<longleftrightarrow>
        same_layout f (t_fields dst ! j)"
      by (simp add: deep_check_field_def Inr Some Let_def same_layout_def assms(3) j(2))
    also have "\<dots> \<longleftrightarrow> (\<exists>j < unat (field_count dst). same_layout f (t_fields dst ! j))"
    proof
      assume "\<exists>i < unat (field_count dst). same_layout f (t_fields dst ! i)"
      then obtain i where i: "i < unat (field_count dst)" "same_layout f (t_fields dst ! i)"
        by blast
      then have "j = i"
        using j by (intro table_number_inj [OF assms(1)]) (simp_all add: same_layout_def)
      then show "same_layout f (t_fields dst ! j)"
        using i(2) by simp
    qed (use j(1) in blast)
    finally show ?thesis .
  qed
qed

lemma strict_sorted_subset_eq:
  fixes xs ys :: "'a::linorder list"
  assumes "sorted_wrt (<) xs" "sorted_wrt (<) ys" "length xs = length ys" "set xs \<subseteq> set ys"
  shows "xs = ys"
proof -
  have "card (set xs) = card (set ys)"
    using assms by (simp add: distinct_card strict_sorted_iff)
  then have "set xs = set ys"
    using assms(4) card_subset_eq [of "set ys" "set xs"] by simp
  then show ?thesis
    using assms(1,2) strict_sorted_equal by blast
qed

lemma same_layout_pairwise:
  assumes xs: "sorted_wrt (<) (map f_number xs)" and ys: "sorted_wrt (<) (map f_number ys)"
    and len: "length xs = length ys"
  shows "(\<forall>f \<in> set xs. \<exists>j < length ys. same_layout f (ys ! j)) \<longleftrightarrow> list_all2 same_layout xs ys"
    (is "?all \<longleftrightarrow> _")
proof
  assume all: ?all
  then have "set (map f_number xs) \<subseteq> set (map f_number ys)"
    by (fastforce simp: same_layout_def)
  then have eq: "map f_number xs = map f_number ys"
    using assms by (intro strict_sorted_subset_eq) simp_all
  have "same_layout (xs ! i) (ys ! i)" if i: "i < length ys" for i
  proof -
    have "xs ! i \<in> set xs"
      using i len by simp
    then obtain j where j: "j < length ys" "same_layout (xs ! i) (ys ! j)"
      using all by blast
    then have "map f_number ys ! i = map f_number ys ! j"
      using arg_cong [OF eq, of "\<lambda>l. l ! i"] i len by (simp add: same_layout_def)
    then have "i = j"
      using ys i j(1) by (metis length_map nth_eq_iff_index_eq strict_sorted_iff)
    then show ?thesis
      using j(2) by simp
  qed
  then show "list_all2 same_layout xs ys"
    using len by (simp add: list_all2_conv_all_nth)
next
  assume all: "list_all2 same_layout xs ys"
  show ?all
  proof
    fix f assume "f \<in> set xs"
    then obtain i where "i < length xs" "f = xs ! i"
      by (metis in_set_conv_nth)
    then show "\<exists>j < length ys. same_layout f (ys ! j)"
      using list_all2_nthD [OF all, of i] len by auto
  qed
qed

text \<open>
  C33: for two well-formed tables the compatibility check accepts exactly when the two have
  the same number of fields and the fields agree pairwise in number, C type, mode, offset,
  presence and sub-table index.
\<close>

theorem hpb_MiniTable_Compatible_correct:
  assumes src: "table_wf src" "types_ok src" and dst: "table_wf dst" "types_ok dst"
  shows "hpb_MiniTable_Compatible src dst = Some (Inr True) \<longleftrightarrow>
    list_all2 same_layout (take (unat (field_count src)) (t_fields src))
      (take (unat (field_count dst)) (t_fields dst))"
proof (cases "field_count src = field_count dst")
  case False
  then have "unat (field_count src) \<noteq> unat (field_count dst)"
    by (simp add: word_unat_eq_iff)
  then have "length (take (unat (field_count src)) (t_fields src)) \<noteq>
      length (take (unat (field_count dst)) (t_fields dst))"
    using src dst by (simp add: table_wf_def dense_prefix_def)
  then show ?thesis
    using False list_all2_lengthD [of same_layout "take (unat (field_count src)) (t_fields src)"]
    by (auto simp: hpb_MiniTable_Compatible_def hpb_deep_check_def simp del: length_take)
next
  case True
  define n where "n = unat (field_count dst)"
  let ?xs = "take n (t_fields src)" and ?ys = "take n (t_fields dst)"
  have len: "length ?xs = n" "length ?ys = n"
    using src dst True by (auto simp: table_wf_def dense_prefix_def n_def)
  have "deep_check_field (\<lambda>_ _. None) False src dst f = Some (Inr True) \<longleftrightarrow>
      (\<exists>j<n. same_layout f (?ys ! j))" if f: "f \<in> set ?xs" for f
  proof -
    obtain c where "hpb_MiniTableField_CType f = Inr c"
      using f src(2) by (auto simp: types_ok_def dest: in_set_takeD)
    from deep_check_field_compat [OF dst this] show ?thesis
      by (auto simp: n_def)
  qed
  then have "hpb_MiniTable_Compatible src dst = Some (Inr True) \<longleftrightarrow>
      (\<forall>f \<in> set ?xs. \<exists>j<n. same_layout f (?ys ! j))"
    using True by (simp add: hpb_MiniTable_Compatible_def hpb_deep_check_def deep_check_fields_True n_def)
  also have "\<dots> \<longleftrightarrow> list_all2 same_layout ?xs ?ys"
    using same_layout_pairwise [of ?xs ?ys, unfolded len] src(1) dst(1) True
    by (simp add: table_wf_def n_def)
  finally show ?thesis
    using True by (simp add: n_def)
qed

theorem hpb_MiniTable_Compatible_correct_witness:
  "hpb_MiniTable_Compatible example_table example_table = Some (Inr True)"
proof -
  have "types_ok example_table"
    by (simp add: types_ok_def example_table_def example_field_def hpb_MiniTableField_CType_def
        hpb_MiniTableField_Type_def has_flag_def field_mode_defs)
  moreover have "list_all2 same_layout (take (unat (field_count example_table)) (t_fields example_table))
      (take (unat (field_count example_table)) (t_fields example_table))"
    by (simp add: list.rel_refl same_layout_def)
  ultimately show ?thesis
    using hpb_MiniTable_Compatible_correct [OF example_table_wf _ example_table_wf] by blast
qed

text \<open>The table of a message type whose only field is a message of the same type.\<close>

definition recursive_table :: hpb_MiniTable where
  "recursive_table = \<lparr>t_subs = [SubMsg (Some 0)],
     t_fields = [\<lparr>f_number = 1, f_offset = 8, f_presence = 1, submsg_index = 0,
       descriptortype = FieldType_Message, f_mode = 194\<rparr>],
     t_size = 16, field_count = 1, ext_mode = 0, dense_below = 1, table_mask = - 1,
     required_count = 0\<rparr>"

text \<open>
  C36: comparing the table of such a type with itself never returns: the recursion of
  \<open>hpb_MiniTable_Equals\<close> through the sub-message has no end at any depth.
\<close>

theorem hpb_MiniTable_Equals_diverges:
  "hpb_MiniTable_Equals (\<lambda>_. recursive_table) fuel 0 0 = None"
proof (induction fuel)
  case 0
  then show ?case by simp
next
  case (Suc fuel)
  have "hpb_MiniTable_FindFieldByNumber recursive_table 1 = Inr (Some 0)"
    by code_simp
  then show ?case
    using Suc by (simp add: hpb_deep_check_def deep_check_field_def recursive_table_def
        hpb_MiniTableField_CType_def hpb_MiniTableField_Type_def has_flag_def field_mode_defs
        hpb_MiniTable_GetSubMessageTable_def Let_def)
qed

end
