(* ===== verification/MtDecoder.thy ===== *)
theory MtDecoder
  imports MdDecoder MiniTable
begin

text \<open>
  The decoder that builds a message's mini table from its mini descriptor
  (\<open>src/hpb/mini_descriptor/decode.c\<close>): parsing the characters into fields, assigning hasbits,
  sorting the layout items and assigning offsets; and the variants for map entries, message
  sets and extensions.

  Parameters of the model: \<open>alloc_ok\<close>, whether an allocation of that many bytes succeeds, and
  \<open>mem\<close>, what the memory of the field array holds before it is written (the arena does not
  clear memory, and \<open>hpb_MtDecoder_Parse\<close> leaves \<open>presence\<close> unwritten).
\<close>

section \<open>State\<close>

datatype hpb_MiniTablePlatform = Platform_32Bit | Platform_64Bit

datatype hpb_LayoutItemType = LayoutItemType_OneofCase | LayoutItemType_OneofField | LayoutItemType_Field

fun kHpb_LayoutItemType :: "hpb_LayoutItemType \<Rightarrow> nat" where
  "kHpb_LayoutItemType LayoutItemType_OneofCase = 0"
| "kHpb_LayoutItemType LayoutItemType_OneofField = 1"
| "kHpb_LayoutItemType LayoutItemType_Field = 2"

definition kHpb_LayoutItem_IndexSentinel :: u16 where "kHpb_LayoutItem_IndexSentinel = - 1"

record hpb_LayoutItem =
  field_index :: u16
  item_offset :: u16
  item_rep :: hpb_FieldRep
  item_type :: hpb_LayoutItemType

definition sizeof_LayoutItem :: nat where "sizeof_LayoutItem = 12"

text \<open>
  The decoder. \<open>d->table\<close> is null for extensions (\<open>has_table\<close> is false); the field count of
  an extension, a local variable of the caller, is then kept in \<open>field_count (d_table d)\<close>.
  \<open>d_fields\<close> is the part of the field array written so far and \<open>fields_cap\<close> the length of the
  array; \<open>d->table->fields\<close> points to the same array.
\<close>

record hpb_MtDecoder =
  has_table :: bool
  d_table :: hpb_MiniTable
  d_fields :: "hpb_MiniTableField list"
  fields_cap :: nat
  platform :: hpb_MiniTablePlatform
  vec :: "hpb_LayoutItem list"
  vec_capacity :: nat

definition kNoPresence :: u16 where "kNoPresence = 0"
definition kHasbitPresence :: u16 where "kHasbitPresence = 1"
definition kRequiredPresence :: u16 where "kRequiredPresence = 2"
definition kOneofBase :: u16 where "kOneofBase = 3"

lemmas presence_class_defs =
  kNoPresence_def kHasbitPresence_def kRequiredPresence_def kOneofBase_def

record hpb_SubCounts =
  submsg_count :: u16
  subenum_count :: u16

section \<open>Fields from characters\<close>

definition hpb_MtDecoder_FieldIsPackable :: "hpb_MiniTableField \<Rightarrow> bool" where
  "hpb_MtDecoder_FieldIsPackable f \<longleftrightarrow>
     has_flag (f_mode f) kHpb_FieldMode_Array \<and> hpb_FieldType_IsPackable (descriptortype f)"

definition set_type_alternate ::
  "hpb_MiniTableField \<Rightarrow> hpb_FieldType \<Rightarrow> u64 \<Rightarrow> bool \<Rightarrow> md_error + (hpb_MiniTableField \<times> hpb_FieldType)" where
  "set_type_alternate f type msg_modifiers is_proto3_enum =
     (if is_proto3_enum then
        if type = FieldType_Enum
        then Inr (f\<lparr>f_mode := f_mode f OR kHpb_LabelFlags_IsAlternate\<rparr>, FieldType_Int32)
        else Inl AssertViolated
      else if type = FieldType_String \<and> \<not> has_flag msg_modifiers kHpb_MessageModifier_ValidateUtf8
      then Inr (f\<lparr>f_mode := f_mode f OR kHpb_LabelFlags_IsAlternate\<rparr>, FieldType_Bytes)
      else Inr (f, type))"

definition hpb_MiniTable_SetTypeAndSub ::
  "hpb_MiniTableField \<Rightarrow> hpb_FieldType \<Rightarrow> hpb_SubCounts \<Rightarrow> u64 \<Rightarrow> bool \<Rightarrow>
   md_error + (hpb_MiniTableField \<times> hpb_SubCounts)" where
  "hpb_MiniTable_SetTypeAndSub f type sub_counts msg_modifiers is_proto3_enum =
     res_bind (set_type_alternate f type msg_modifiers is_proto3_enum) (\<lambda>(f, type).
       let f = f\<lparr>descriptortype := type\<rparr>;
           f = (if hpb_MtDecoder_FieldIsPackable f \<and>
                   has_flag msg_modifiers kHpb_MessageModifier_DefaultIsPacked
                then f\<lparr>f_mode := f_mode f OR kHpb_LabelFlags_IsPacked\<rparr> else f)
       in if type = FieldType_Message \<or> type = FieldType_Group
          then Inr (f\<lparr>submsg_index := submsg_count sub_counts\<rparr>,
                    sub_counts\<lparr>submsg_count := submsg_count sub_counts + 1\<rparr>)
          else if type = FieldType_Enum
          then Inr (f\<lparr>submsg_index := subenum_count sub_counts\<rparr>,
                    sub_counts\<lparr>subenum_count := subenum_count sub_counts + 1\<rparr>)
          else Inr (f\<lparr>submsg_index := kHpb_NoSub\<rparr>, sub_counts))"

definition kHpb_EncodedToFieldRep :: "hpb_FieldRep list" where
  "kHpb_EncodedToFieldRep =
     [FieldRep_8Byte, FieldRep_4Byte, FieldRep_4Byte, FieldRep_8Byte, FieldRep_4Byte, FieldRep_8Byte,
      FieldRep_4Byte, FieldRep_4Byte, FieldRep_4Byte, FieldRep_8Byte, FieldRep_8Byte, FieldRep_8Byte,
      FieldRep_4Byte, FieldRep_1Byte, FieldRep_StringView, FieldRep_StringView,
      FieldRep_1Byte, FieldRep_1Byte, FieldRep_4Byte]"

definition rep_flag :: "hpb_FieldRep \<Rightarrow> byte" where
  "rep_flag rep = push_bit kHpb_FieldRep_Shift (of_nat (kHpb_FieldRep rep))"

definition pointer_rep :: "hpb_MiniTablePlatform \<Rightarrow> hpb_FieldRep" where
  "pointer_rep p = (if p = Platform_32Bit then FieldRep_4Byte else FieldRep_8Byte)"

text \<open>
  The mode, the presence class and the encoded type that \<open>hpb_MiniTable_SetField\<close> derives from
  the character.
\<close>

definition field_of_char ::
  "hpb_MiniTablePlatform \<Rightarrow> byte \<Rightarrow> hpb_MiniTableField \<Rightarrow> md_error + (hpb_MiniTableField \<times> int)" where
  "field_of_char plat ch f =
     (let type = hpb_FromBase92 ch in
      if ch \<ge> kHpb_ToBase92 ! kHpb_EncodedType_RepeatedBase
      then Inr (f\<lparr>f_mode := kHpb_FieldMode_Array OR rep_flag (pointer_rep plat), f_offset := kNoPresence\<rparr>,
                type - int kHpb_EncodedType_RepeatedBase)
      else if type = int kHpb_EncodedType_Group \<or> type = int kHpb_EncodedType_Message
      then Inr (f\<lparr>f_mode := kHpb_FieldMode_Scalar OR rep_flag (pointer_rep plat), f_offset := kHasbitPresence\<rparr>, type)
      else if type < 0 \<or> type \<ge> int (length kHpb_EncodedToFieldRep)
      then Inl (InvalidFieldType type)
      else Inr (f\<lparr>f_mode := kHpb_FieldMode_Scalar OR rep_flag (kHpb_EncodedToFieldRep ! nat type),
                  f_offset := kHasbitPresence\<rparr>, type))"

definition hpb_MiniTable_SetField ::
  "hpb_MiniTablePlatform \<Rightarrow> byte \<Rightarrow> hpb_MiniTableField \<Rightarrow> u64 \<Rightarrow> hpb_SubCounts \<Rightarrow>
   md_error + (hpb_MiniTableField \<times> hpb_SubCounts)" where
  "hpb_MiniTable_SetField plat ch f msg_modifiers sub_counts =
     res_bind (field_of_char plat ch f) (\<lambda>(f, type).
       if type < 0 \<or> type \<ge> int (length kHpb_EncodedToType) then Inl (InvalidFieldType type)
       else hpb_MiniTable_SetTypeAndSub f (kHpb_EncodedToType ! nat type) sub_counts msg_modifiers
              (type = int kHpb_EncodedType_OpenEnum))"

definition hpb_MtDecoder_ModifyField ::
  "u32 \<Rightarrow> hpb_MiniTableField \<Rightarrow> md_error + hpb_MiniTableField" where
  "hpb_MtDecoder_ModifyField field_modifiers f =
     res_bind
       (if has_flag field_modifiers kHpb_EncodedFieldModifier_FlipPacked
        then if \<not> hpb_MtDecoder_FieldIsPackable f then Inl (CannotFlipPacked (f_number f))
             else Inr (f\<lparr>f_mode := f_mode f XOR kHpb_LabelFlags_IsPacked\<rparr>)
        else Inr f)
       (\<lambda>f. let singular = has_flag field_modifiers kHpb_EncodedFieldModifier_IsProto3Singular;
                required = has_flag field_modifiers kHpb_EncodedFieldModifier_IsRequired
            in if (singular \<or> required) \<and> f_offset f \<noteq> kHasbitPresence
               then Inl (InvalidModifiers (f_number f))
               else if singular \<and> required then Inl (SingularAndRequired (f_number f))
               else let f = (if singular then f\<lparr>f_offset := kNoPresence\<rparr> else f)
                    in Inr (if required then f\<lparr>f_offset := kRequiredPresence\<rparr> else f))"

section \<open>Layout items and oneofs\<close>

definition hpb_MtDecoder_PushItem ::
  "(nat \<Rightarrow> bool) \<Rightarrow> hpb_MtDecoder \<Rightarrow> hpb_LayoutItem \<Rightarrow> md_error + hpb_MtDecoder" where
  "hpb_MtDecoder_PushItem alloc_ok d item =
     res_bind
       (if length (vec d) = vec_capacity d
        then let new_cap = max 8 (length (vec d) * 2)
             in if alloc_ok (new_cap * sizeof_LayoutItem) then Inr (d\<lparr>vec_capacity := new_cap\<rparr>)
                else Inl OutOfMemory
        else Inr d)
       (\<lambda>d. Inr (d\<lparr>vec := vec d @ [item]\<rparr>))"

definition hpb_MtDecoder_PushOneof ::
  "(nat \<Rightarrow> bool) \<Rightarrow> hpb_MtDecoder \<Rightarrow> hpb_LayoutItem \<Rightarrow> md_error + hpb_MtDecoder" where
  "hpb_MtDecoder_PushOneof alloc_ok d item =
     (if field_index item = kHpb_LayoutItem_IndexSentinel then Inl EmptyOneof
      else let item = item\<lparr>field_index := field_index item - kOneofBase,
                           item_type := LayoutItemType_OneofField\<rparr>
           in res_bind (hpb_MtDecoder_PushItem alloc_ok d item) (\<lambda>d.
                hpb_MtDecoder_PushItem alloc_ok d
                  (item\<lparr>item_rep := FieldRep_4Byte, item_type := LayoutItemType_OneofCase\<rparr>)))"

fun hpb_MtDecoder_SizeOfRep :: "hpb_FieldRep \<Rightarrow> hpb_MiniTablePlatform \<Rightarrow> nat" where
  "hpb_MtDecoder_SizeOfRep FieldRep_1Byte p = 1"
| "hpb_MtDecoder_SizeOfRep FieldRep_4Byte p = 4"
| "hpb_MtDecoder_SizeOfRep FieldRep_StringView p = (if p = Platform_32Bit then 8 else 16)"
| "hpb_MtDecoder_SizeOfRep FieldRep_8Byte p = 8"

fun hpb_MtDecoder_AlignOfRep :: "hpb_FieldRep \<Rightarrow> hpb_MiniTablePlatform \<Rightarrow> nat" where
  "hpb_MtDecoder_AlignOfRep FieldRep_1Byte p = 1"
| "hpb_MtDecoder_AlignOfRep FieldRep_4Byte p = 4"
| "hpb_MtDecoder_AlignOfRep FieldRep_StringView p = (if p = Platform_32Bit then 4 else 8)"
| "hpb_MtDecoder_AlignOfRep FieldRep_8Byte p = 8"

text \<open>\<open>d->table\<close> as the lookup sees it: its \<open>fields\<close> point to the decoder's array.\<close>

definition table_view :: "hpb_MtDecoder \<Rightarrow> hpb_MiniTable" where
  "table_view d = (d_table d)\<lparr>t_fields := d_fields d\<rparr>"

definition find_oneof_field :: "hpb_MtDecoder \<Rightarrow> u32 \<Rightarrow> md_error + nat" where
  "find_oneof_field d field_num =
     (case hpb_MiniTable_FindFieldByNumber (table_view d) field_num of
        Inl AssertFail \<Rightarrow> Inl AssertViolated
      | Inl _ \<Rightarrow> Inl MemoryFault
      | Inr None \<Rightarrow> Inl (NoSuchFieldNumber field_num)
      | Inr (Some i) \<Rightarrow> Inr i)"

text \<open>The storage of a oneof is the largest of its members.\<close>

definition widen_item :: "hpb_MtDecoder \<Rightarrow> hpb_FieldRep \<Rightarrow> hpb_LayoutItem \<Rightarrow> hpb_LayoutItem" where
  "widen_item d rep item =
     (if hpb_MtDecoder_SizeOfRep rep (platform d) > hpb_MtDecoder_SizeOfRep (item_rep item) (platform d)
      then item\<lparr>item_rep := rep\<rparr> else item)"

definition hpb_MtDecoder_DecodeOneofField ::
  "hpb_MtDecoder \<Rightarrow> byte list \<Rightarrow> byte \<Rightarrow> hpb_LayoutItem \<Rightarrow>
   md_error + (hpb_MtDecoder \<times> hpb_LayoutItem \<times> byte list)" where
  "hpb_MtDecoder_DecodeOneofField d ptr first_ch item =
     res_bind (hpb_MdDecoder_DecodeBase92Varint ptr first_ch
                 kHpb_EncodedValue_MinOneofField kHpb_EncodedValue_MaxOneofField) (\<lambda>(field_num, ptr).
       res_bind (find_oneof_field d field_num) (\<lambda>i.
         let f = d_fields d ! i in
         if f_offset f \<noteq> kHasbitPresence then Inl (CannotAddToOneof field_num)
         else let item = widen_item d (hpb_MiniTableField_GetRep f) item
              in Inr (d\<lparr>d_fields := (d_fields d)[i := f\<lparr>f_offset := field_index item\<rparr>]\<rparr>,
                      item\<lparr>field_index := of_nat i + kOneofBase\<rparr>, ptr)))"

lemma DecodeOneofField_length:
  "hpb_MtDecoder_DecodeOneofField d ptr ch item = Inr (d', item', ptr') \<Longrightarrow> length ptr' \<le> length ptr"
  by (auto simp: hpb_MtDecoder_DecodeOneofField_def res_bind_Inr_iff Let_def
      split: if_splits dest: DecodeBase92Varint_length)

function decode_oneofs_loop ::
  "(nat \<Rightarrow> bool) \<Rightarrow> hpb_MtDecoder \<Rightarrow> byte list \<Rightarrow> hpb_LayoutItem \<Rightarrow>
   md_error + (hpb_MtDecoder \<times> hpb_LayoutItem)" where
  "decode_oneofs_loop alloc_ok d [] item = Inr (d, item)"
| "decode_oneofs_loop alloc_ok d (ch # ptr) item =
     (if ch = kHpb_EncodedValue_FieldSeparator then decode_oneofs_loop alloc_ok d ptr item
      else if ch = kHpb_EncodedValue_OneofSeparator
      then res_bind (hpb_MtDecoder_PushOneof alloc_ok d item) (\<lambda>d.
             decode_oneofs_loop alloc_ok d ptr (item\<lparr>field_index := kHpb_LayoutItem_IndexSentinel\<rparr>))
      else res_bind (hpb_MtDecoder_DecodeOneofField d ptr ch item) (\<lambda>(d, item, ptr).
             decode_oneofs_loop alloc_ok d ptr item))"
  by pat_completeness auto
termination
  by (relation "measure (\<lambda>(alloc_ok, d, ptr, item). length ptr)")
    (auto dest: DecodeOneofField_length)

declare decode_oneofs_loop.simps [simp del]

definition hpb_MtDecoder_DecodeOneofs ::
  "(nat \<Rightarrow> bool) \<Rightarrow> hpb_MtDecoder \<Rightarrow> byte list \<Rightarrow> md_error + hpb_MtDecoder" where
  "hpb_MtDecoder_DecodeOneofs alloc_ok d ptr =
     res_bind (decode_oneofs_loop alloc_ok d ptr
                 \<lparr>field_index = kHpb_LayoutItem_IndexSentinel, item_offset = 0,
                  item_rep = FieldRep_1Byte, item_type = LayoutItemType_OneofCase\<rparr>)
       (\<lambda>(d, item). hpb_MtDecoder_PushOneof alloc_ok d item)"

section \<open>Parsing\<close>

text \<open>
  The local variables of \<open>hpb_MtDecoder_Parse\<close>. \<open>last_field\<close> is null or points to the last
  field written.
\<close>

record parse_state =
  p_dec :: hpb_MtDecoder
  msg_modifiers :: u64
  last_field_number :: u32
  has_last_field :: bool
  need_dense_below :: bool
  sub_counts :: hpb_SubCounts

definition hpb_MtDecoder_ParseModifier ::
  "parse_state \<Rightarrow> byte list \<Rightarrow> byte \<Rightarrow> md_error + (parse_state \<times> byte list)" where
  "hpb_MtDecoder_ParseModifier s ptr first_ch =
     res_bind (hpb_MdDecoder_DecodeBase92Varint ptr first_ch
                 kHpb_EncodedValue_MinModifier kHpb_EncodedValue_MaxModifier) (\<lambda>(m, ptr).
       if has_last_field s then
         let d = p_dec s; i = length (d_fields d) - 1 in
         res_bind (hpb_MtDecoder_ModifyField m (d_fields d ! i)) (\<lambda>f.
           Inr (s\<lparr>p_dec := d\<lparr>d_fields := (d_fields d)[i := f]\<rparr>\<rparr>, ptr))
       else if \<not> has_table (p_dec s) then Inl ExtensionMessageModifiers
       else Inr (s\<lparr>msg_modifiers := ucast m\<rparr>, ptr))"

definition parse_field :: "(nat \<Rightarrow> hpb_MiniTableField) \<Rightarrow> parse_state \<Rightarrow> byte \<Rightarrow> md_error + parse_state" where
  "parse_field mem s ch =
     (let d = p_dec s; n = length (d_fields d) in
      if n \<ge> fields_cap d then Inl MemoryFault
      else let num = last_field_number s + 1 in
        res_bind (hpb_MiniTable_SetField (platform d) ch ((mem n)\<lparr>f_number := num\<rparr>)
                    (msg_modifiers s) (sub_counts s)) (\<lambda>(f, subs).
          Inr (s\<lparr>p_dec := d\<lparr>d_table := (d_table d)\<lparr>field_count := field_count (d_table d) + 1\<rparr>,
                             d_fields := d_fields d @ [f]\<rparr>,
                 last_field_number := num, has_last_field := True, sub_counts := subs\<rparr>)))"

definition parse_modifier :: "parse_state \<Rightarrow> byte list \<Rightarrow> byte \<Rightarrow> md_error + (parse_state \<times> byte list)" where
  "parse_modifier s ptr ch =
     res_bind (hpb_MtDecoder_ParseModifier s ptr ch) (\<lambda>(s, ptr).
       if has_flag (msg_modifiers s) kHpb_MessageModifier_IsExtendable
       then if has_table (p_dec s)
            then let d = p_dec s in
              Inr (s\<lparr>p_dec := d\<lparr>d_table := (d_table d)\<lparr>ext_mode :=
                     ext_mode (d_table d) OR kHpb_ExtMode_Extendable\<rparr>\<rparr>\<rparr>, ptr)
            else Inl MemoryFault
       else Inr (s, ptr))"

definition set_dense_below :: "parse_state \<Rightarrow> parse_state" where
  "set_dense_below s =
     (if need_dense_below s
      then let d = p_dec s in
        s\<lparr>p_dec := d\<lparr>d_table := (d_table d)\<lparr>dense_below := ucast (field_count (d_table d))\<rparr>\<rparr>,
          need_dense_below := False\<rparr>
      else s)"

definition parse_skip :: "parse_state \<Rightarrow> byte list \<Rightarrow> byte \<Rightarrow> md_error + (parse_state \<times> byte list)" where
  "parse_skip s ptr ch =
     (let s = set_dense_below s in
      res_bind (hpb_MdDecoder_DecodeBase92Varint ptr ch
                  kHpb_EncodedValue_MinSkip kHpb_EncodedValue_MaxSkip) (\<lambda>(skip, ptr).
        Inr (s\<lparr>last_field_number := last_field_number s + skip - 1\<rparr>, ptr)))"

lemma parse_modifier_length:
  "parse_modifier s ptr ch = Inr (s', ptr') \<Longrightarrow> length ptr' \<le> length ptr"
  by (auto simp: parse_modifier_def hpb_MtDecoder_ParseModifier_def res_bind_Inr_iff Let_def
      split: if_splits dest: DecodeBase92Varint_length)

lemma parse_skip_length:
  "parse_skip s ptr ch = Inr (s', ptr') \<Longrightarrow> length ptr' \<le> length ptr"
  by (auto simp: parse_skip_def res_bind_Inr_iff Let_def dest: DecodeBase92Varint_length)

function parse_loop ::
  "(nat \<Rightarrow> bool) \<Rightarrow> (nat \<Rightarrow> hpb_MiniTableField) \<Rightarrow> parse_state \<Rightarrow> byte list \<Rightarrow>
   md_error + (parse_state \<times> byte list)" where
  "parse_loop alloc_ok mem s [] = Inr (set_dense_below s, [])"
| "parse_loop alloc_ok mem s (ch # ptr) =
     (if schar ch \<le> schar kHpb_EncodedValue_MaxField
      then if \<not> has_table (p_dec s) \<and> has_last_field s then Inr (s, ch # ptr)
           else res_bind (parse_field mem s ch) (\<lambda>s. parse_loop alloc_ok mem s ptr)
      else if schar kHpb_EncodedValue_MinModifier \<le> schar ch \<and>
              schar ch \<le> schar kHpb_EncodedValue_MaxModifier
      then res_bind (parse_modifier s ptr ch) (\<lambda>(s, ptr). parse_loop alloc_ok mem s ptr)
      else if ch = kHpb_EncodedValue_End
      then if \<not> has_table (p_dec s) then Inl ExtensionOneofs
           else res_bind (hpb_MtDecoder_DecodeOneofs alloc_ok (p_dec s) ptr) (\<lambda>d.
             Inr (set_dense_below (s\<lparr>p_dec := d\<rparr>), []))
      else if schar kHpb_EncodedValue_MinSkip \<le> schar ch \<and> schar ch \<le> schar kHpb_EncodedValue_MaxSkip
      then res_bind (parse_skip s ptr ch) (\<lambda>(s, ptr). parse_loop alloc_ok mem s ptr)
      else Inl (InvalidChar ch))"
  by pat_completeness auto
termination
  by (relation "measure (\<lambda>(alloc_ok, mem, s, ptr). length ptr)")
    (auto dest: parse_modifier_length parse_skip_length)

declare parse_loop.simps [simp del]

definition parse_start :: "hpb_MtDecoder \<Rightarrow> parse_state" where
  "parse_start d =
     \<lparr>p_dec = d, msg_modifiers = 0, last_field_number = 0, has_last_field = False,
      need_dense_below = has_table d, sub_counts = \<lparr>submsg_count = 0, subenum_count = 0\<rparr>\<rparr>"

definition hpb_MtDecoder_Parse ::
  "(nat \<Rightarrow> bool) \<Rightarrow> (nat \<Rightarrow> hpb_MiniTableField) \<Rightarrow> hpb_MtDecoder \<Rightarrow> byte list \<Rightarrow>
   md_error + (hpb_MtDecoder \<times> hpb_SubCounts \<times> byte list)" where
  "hpb_MtDecoder_Parse alloc_ok mem d ptr =
     res_bind (parse_loop alloc_ok mem (parse_start d) ptr) (\<lambda>(s, ptr).
       Inr (p_dec s, sub_counts s, ptr))"

definition alloc_subs :: "hpb_SubCounts \<Rightarrow> hpb_MiniTableSub list" where
  "alloc_subs c = replicate (unat (submsg_count c)) (SubMsg None) @
     replicate (unat (subenum_count c)) (SubEnum None)"

text \<open>The index of an enum field becomes an index into \<open>subs\<close>, after the sub-messages.\<close>

definition shift_enum_sub :: "u16 \<Rightarrow> hpb_MiniTableField \<Rightarrow> hpb_MiniTableField" where
  "shift_enum_sub k f =
     (if descriptortype f = FieldType_Enum then f\<lparr>submsg_index := submsg_index f + k\<rparr> else f)"

definition map_prefix :: "nat \<Rightarrow> ('a \<Rightarrow> 'a) \<Rightarrow> 'a list \<Rightarrow> 'a list" where
  "map_prefix n g xs = map g (take n xs) @ drop n xs"

definition hpb_MtDecoder_AllocateSubs ::
  "(nat \<Rightarrow> bool) \<Rightarrow> hpb_MtDecoder \<Rightarrow> hpb_SubCounts \<Rightarrow> md_error + hpb_MtDecoder" where
  "hpb_MtDecoder_AllocateSubs alloc_ok d c =
     (if \<not> alloc_ok (8 * (unat (submsg_count c) + unat (subenum_count c))) then Inl OutOfMemory
      else Inr (d\<lparr>d_table := (d_table d)\<lparr>t_subs := alloc_subs c\<rparr>,
                  d_fields := (if subenum_count c \<noteq> 0
                    then map_prefix (unat (field_count (d_table d))) (shift_enum_sub (submsg_count c)) (d_fields d)
                    else d_fields d)\<rparr>))"

definition sizeof_MiniTableField :: nat where "sizeof_MiniTableField = 12"

definition hpb_MtDecoder_ParseMessage ::
  "(nat \<Rightarrow> bool) \<Rightarrow> (nat \<Rightarrow> hpb_MiniTableField) \<Rightarrow> hpb_MtDecoder \<Rightarrow> byte list \<Rightarrow> md_error + hpb_MtDecoder" where
  "hpb_MtDecoder_ParseMessage alloc_ok mem d ptr =
     (if \<not> alloc_ok (sizeof_MiniTableField * length ptr) then Inl OutOfMemory
      else res_bind (hpb_MtDecoder_Parse alloc_ok mem
             (d\<lparr>d_table := (d_table d)\<lparr>field_count := 0\<rparr>, d_fields := [], fields_cap := length ptr\<rparr>) ptr)
        (\<lambda>(d, sub_counts, _). hpb_MtDecoder_AllocateSubs alloc_ok d sub_counts))"

section \<open>Layout\<close>

definition packed_key :: "hpb_LayoutItem \<Rightarrow> u32" where
  "packed_key item =
     (let rep_bits = nat (hpb_Log2Ceiling (int (kHpb_FieldRep FieldRep_8Byte)));
          type_bits = nat (hpb_Log2Ceiling (int (kHpb_LayoutItemType LayoutItemType_Field)));
          idx_bits = 16
      in push_bit idx_bits (push_bit type_bits (of_nat (kHpb_FieldRep (item_rep item))) OR
           of_nat (kHpb_LayoutItemType (item_type item))) OR ucast (field_index item))"

text \<open>\<open>hpb_MtDecoder_CompareFields\<close>: \<open>None\<close> is the violated \<open>assert(a_packed != b_packed)\<close>.\<close>

definition hpb_MtDecoder_CompareFields :: "hpb_LayoutItem \<Rightarrow> hpb_LayoutItem \<Rightarrow> int option" where
  "hpb_MtDecoder_CompareFields a b =
     (if packed_key a = packed_key b then None
      else Some (if packed_key a < packed_key b then - 1 else 1))"

fun push_field_items ::
  "(nat \<Rightarrow> bool) \<Rightarrow> nat \<Rightarrow> hpb_MiniTableField list \<Rightarrow> hpb_MtDecoder \<Rightarrow> md_error + hpb_MtDecoder" where
  "push_field_items alloc_ok i [] d = Inr d"
| "push_field_items alloc_ok i (f # fs) d =
     (if f_offset f \<ge> kOneofBase then push_field_items alloc_ok (i + 1) fs d
      else res_bind (hpb_MtDecoder_PushItem alloc_ok d
             \<lparr>field_index = of_nat i, item_offset = 0, item_rep = hpb_MiniTableField_GetRep f,
              item_type = LayoutItemType_Field\<rparr>)
        (\<lambda>d. push_field_items alloc_ok (i + 1) fs d))"

text \<open>
  The items are sorted by \<open>qsort\<close> with a comparator that is a strict order on distinct keys;
  a sort of more than one item compares any two items that end up adjacent, so it meets equal
  keys when there are any.
\<close>

definition hpb_MtDecoder_SortLayoutItems ::
  "(nat \<Rightarrow> bool) \<Rightarrow> hpb_MtDecoder \<Rightarrow> md_error + hpb_MtDecoder" where
  "hpb_MtDecoder_SortLayoutItems alloc_ok d =
     res_bind (push_field_items alloc_ok 0 (take (unat (field_count (d_table d))) (d_fields d)) d) (\<lambda>d.
       if distinct (map packed_key (vec d)) then Inr (d\<lparr>vec := sort_key packed_key (vec d)\<rparr>)
       else Inl AssertViolated)"

definition hpb_MiniTable_DivideRoundUp :: "nat \<Rightarrow> nat \<Rightarrow> nat" where
  "hpb_MiniTable_DivideRoundUp n d = (n + d - 1) div d"

fun assign_required :: "nat \<Rightarrow> hpb_MiniTableField list \<Rightarrow> hpb_MiniTableField list \<times> nat" where
  "assign_required last_hasbit [] = ([], last_hasbit)"
| "assign_required last_hasbit (f # fs) =
     (if f_offset f = kRequiredPresence
      then let (fs, h) = assign_required (last_hasbit + 1) fs
           in (f\<lparr>f_presence := of_nat (last_hasbit + 1)\<rparr> # fs, h)
      else if f_offset f = kNoPresence
      then let (fs, h) = assign_required last_hasbit fs in (f\<lparr>f_presence := 0\<rparr> # fs, h)
      else let (fs, h) = assign_required last_hasbit fs in (f # fs, h))"

fun assign_optional :: "nat \<Rightarrow> hpb_MiniTableField list \<Rightarrow> hpb_MiniTableField list \<times> nat" where
  "assign_optional last_hasbit [] = ([], last_hasbit)"
| "assign_optional last_hasbit (f # fs) =
     (if f_offset f = kHasbitPresence
      then let (fs, h) = assign_optional (last_hasbit + 1) fs
           in (f\<lparr>f_presence := of_nat (last_hasbit + 1)\<rparr> # fs, h)
      else let (fs, h) = assign_optional last_hasbit fs in (f # fs, h))"

definition hpb_MtDecoder_AssignHasbits :: "hpb_MtDecoder \<Rightarrow> md_error + hpb_MtDecoder" where
  "hpb_MtDecoder_AssignHasbits d =
     (let n = unat (field_count (d_table d));
          (fs, last_hasbit) = assign_required 0 (take n (d_fields d));
          count = (of_nat last_hasbit :: byte)
      in if count > 63 then Inl TooManyRequired
         else let (fs, last_hasbit) = assign_optional last_hasbit fs
              in Inr (d\<lparr>d_table := (d_table d)\<lparr>t_size := (if last_hasbit \<noteq> 0
                          then of_nat (hpb_MiniTable_DivideRoundUp (last_hasbit + 1) 8) else 0),
                          required_count := count\<rparr>,
                        d_fields := fs @ drop n (d_fields d)\<rparr>))"

definition align_up :: "nat \<Rightarrow> nat \<Rightarrow> nat" where
  "align_up n a = (n + a - 1) div a * a"

definition hpb_MtDecoder_Place :: "hpb_MtDecoder \<Rightarrow> hpb_FieldRep \<Rightarrow> md_error + (hpb_MtDecoder \<times> nat)" where
  "hpb_MtDecoder_Place d rep =
     (let offset = align_up (unat (t_size (d_table d))) (hpb_MtDecoder_AlignOfRep rep (platform d));
          new_size = offset + hpb_MtDecoder_SizeOfRep rep (platform d)
      in if new_size > 65535 then Inl MessageTooLarge
         else Inr (d\<lparr>d_table := (d_table d)\<lparr>t_size := of_nat new_size\<rparr>\<rparr>, offset))"

fun place_items ::
  "hpb_MtDecoder \<Rightarrow> hpb_LayoutItem list \<Rightarrow> md_error + (hpb_MtDecoder \<times> hpb_LayoutItem list)" where
  "place_items d [] = Inr (d, [])"
| "place_items d (item # items) =
     res_bind (hpb_MtDecoder_Place d (item_rep item)) (\<lambda>(d, offset).
       res_bind (place_items d items) (\<lambda>(d, items).
         Inr (d, item\<lparr>item_offset := of_nat offset\<rparr> # items)))"

text \<open>
  The two loops that follow the linked list of a oneof. \<open>n\<close> is \<open>field_count\<close>; the list has
  at most as many members as there are fields, which bounds the number of steps.
\<close>

fun set_oneof_case ::
  "nat \<Rightarrow> nat \<Rightarrow> u16 \<Rightarrow> nat \<Rightarrow> hpb_MiniTableField list \<Rightarrow> md_error + hpb_MiniTableField list" where
  "set_oneof_case 0 n off i fs = Inl LoopBound"
| "set_oneof_case (Suc k) n off i fs =
     (if i \<ge> length fs then Inl MemoryFault
      else let f = fs ! i; fs = fs[i := f\<lparr>f_presence := NOT off\<rparr>] in
        if f_offset f = kHpb_LayoutItem_IndexSentinel then Inr fs
        else if f_offset f < kOneofBase then Inl MemoryFault
        else if \<not> unat (f_offset f - kOneofBase) < n then Inl AssertViolated
        else set_oneof_case k n off (unat (f_offset f - kOneofBase)) fs)"

fun set_oneof_offset ::
  "nat \<Rightarrow> u16 \<Rightarrow> nat \<Rightarrow> hpb_MiniTableField list \<Rightarrow> md_error + hpb_MiniTableField list" where
  "set_oneof_offset 0 off i fs = Inl LoopBound"
| "set_oneof_offset (Suc k) off i fs =
     (if i \<ge> length fs then Inl MemoryFault
      else let next_offset = f_offset (fs ! i); fs = fs[i := (fs ! i)\<lparr>f_offset := off\<rparr>] in
        if next_offset = kHpb_LayoutItem_IndexSentinel then Inr fs
        else if next_offset < kOneofBase then Inl MemoryFault
        else set_oneof_offset k off (unat (next_offset - kOneofBase)) fs)"

fun assign_cases ::
  "nat \<Rightarrow> hpb_LayoutItem list \<Rightarrow> hpb_MiniTableField list \<Rightarrow> md_error + hpb_MiniTableField list" where
  "assign_cases n [] fs = Inr fs"
| "assign_cases n (item # items) fs =
     (if item_type item \<noteq> LayoutItemType_OneofCase then assign_cases n items fs
      else res_bind (set_oneof_case (Suc (length fs)) n (item_offset item) (unat (field_index item)) fs)
             (\<lambda>fs. assign_cases n items fs))"

fun assign_offsets :: "hpb_LayoutItem list \<Rightarrow> hpb_MiniTableField list \<Rightarrow> md_error + hpb_MiniTableField list" where
  "assign_offsets [] fs = Inr fs"
| "assign_offsets (item # items) fs =
     (let i = unat (field_index item) in
      res_bind
        (case item_type item of
           LayoutItemType_OneofField \<Rightarrow> set_oneof_offset (Suc (length fs)) (item_offset item) i fs
         | LayoutItemType_Field \<Rightarrow>
             (if i < length fs then Inr (fs[i := (fs ! i)\<lparr>f_offset := item_offset item\<rparr>])
              else Inl MemoryFault)
         | LayoutItemType_OneofCase \<Rightarrow> Inr fs)
        (\<lambda>fs. assign_offsets items fs))"

definition hpb_MtDecoder_AssignOffsets :: "hpb_MtDecoder \<Rightarrow> md_error + hpb_MtDecoder" where
  "hpb_MtDecoder_AssignOffsets d =
     res_bind (place_items d (vec d)) (\<lambda>(d, items).
       res_bind (assign_cases (unat (field_count (d_table d))) items (d_fields d)) (\<lambda>fs.
         res_bind (assign_offsets items fs) (\<lambda>fs.
           Inr (d\<lparr>d_table := (d_table d)\<lparr>t_size := of_nat (align_up (unat (t_size (d_table d))) 8)\<rparr>,
                  d_fields := fs, vec := items\<rparr>))))"

section \<open>Map entries and message sets\<close>

definition map_not_ok_types :: "u32 \<Rightarrow> u32" where
  "map_not_ok_types expected_num =
     (if expected_num = 1
      then push_bit (kHpb_FieldType FieldType_Float) 1 OR push_bit (kHpb_FieldType FieldType_Double) 1 OR
           push_bit (kHpb_FieldType FieldType_Message) 1 OR push_bit (kHpb_FieldType FieldType_Group) 1 OR
           push_bit (kHpb_FieldType FieldType_Bytes) 1 OR push_bit (kHpb_FieldType FieldType_Enum) 1
      else push_bit (kHpb_FieldType FieldType_Group) 1)"

definition hpb_MtDecoder_ValidateEntryField :: "hpb_MiniTableField \<Rightarrow> u32 \<Rightarrow> md_error + unit" where
  "hpb_MtDecoder_ValidateEntryField f expected_num =
     (if f_number f \<noteq> expected_num then Inl (MapEntryNumber expected_num (f_number f))
      else if hpb_IsRepeatedOrMap f then Inl (MapEntryRepeated expected_num)
      else case hpb_MiniTableField_Type f of
             Inl _ \<Rightarrow> Inl AssertViolated
           | Inr ty \<Rightarrow>
               if has_flag (push_bit (kHpb_FieldType ty) 1) (map_not_ok_types expected_num)
               then Inl (MapEntryType expected_num (descriptortype f)) else Inr ())"

text \<open>The checks and the fixed layout of a map entry, once its two fields are parsed.\<close>

definition layout_map_entry :: "hpb_MtDecoder \<Rightarrow> md_error + hpb_MtDecoder" where
  "layout_map_entry d =
     (if field_count (d_table d) \<noteq> 2 then Inl (FieldsInMap (field_count (d_table d)))
      else if list_ex (\<lambda>item. item_type item = LayoutItemType_OneofCase) (vec d) then Inl MapEntryOneof
      else case d_fields d of
        key # val # rest \<Rightarrow>
          res_bind (hpb_MtDecoder_ValidateEntryField key 1) (\<lambda>_.
          res_bind (hpb_MtDecoder_ValidateEntryField val 2) (\<lambda>_.
            let kv_size = (if platform d = Platform_32Bit then 8 else 16); hasbit_size = 8 in
            Inr (d\<lparr>d_table := (d_table d)\<lparr>
                     t_size := of_nat (align_up (hasbit_size + kv_size + kv_size) 8),
                     ext_mode := ext_mode (d_table d) OR kHpb_ExtMode_IsMapEntry\<rparr>,
                   d_fields := key\<lparr>f_offset := of_nat hasbit_size\<rparr> #
                     val\<lparr>f_offset := of_nat (hasbit_size + kv_size)\<rparr> # rest\<rparr>)))
      | _ \<Rightarrow> Inl MemoryFault)"

definition hpb_MtDecoder_ParseMap ::
  "(nat \<Rightarrow> bool) \<Rightarrow> (nat \<Rightarrow> hpb_MiniTableField) \<Rightarrow> hpb_MtDecoder \<Rightarrow> byte list \<Rightarrow> md_error + hpb_MtDecoder" where
  "hpb_MtDecoder_ParseMap alloc_ok mem d ptr =
     res_bind (hpb_MtDecoder_ParseMessage alloc_ok mem d ptr) (\<lambda>d.
     res_bind (hpb_MtDecoder_AssignHasbits d) layout_map_entry)"

definition hpb_MtDecoder_ParseMessageSet :: "hpb_MtDecoder \<Rightarrow> byte list \<Rightarrow> md_error + hpb_MtDecoder" where
  "hpb_MtDecoder_ParseMessageSet d ptr =
     (if length ptr > 0 then Inl (MessageSetLength (length ptr))
      else Inr (d\<lparr>d_table := (d_table d)\<lparr>t_size := 0, field_count := 0,
             ext_mode := kHpb_ExtMode_IsMessageSet, dense_below := 0, table_mask := - 1,
             required_count := 0\<rparr>\<rparr>))"

section \<open>Building tables\<close>

definition hpb_MtDecoder_DoBuildMiniTableWithBuf ::
  "(nat \<Rightarrow> bool) \<Rightarrow> (nat \<Rightarrow> hpb_MiniTableField) \<Rightarrow> hpb_MtDecoder \<Rightarrow> byte list \<Rightarrow> md_error + hpb_MtDecoder" where
  "hpb_MtDecoder_DoBuildMiniTableWithBuf alloc_ok mem d ptr =
     (if \<not> has_table d then Inl OutOfMemory
      else let d = d\<lparr>d_table := (d_table d)\<lparr>t_size := 0, field_count := 0,
                       ext_mode := kHpb_ExtMode_NonExtendable, dense_below := 0, table_mask := - 1,
                       required_count := 0\<rparr>\<rparr>
        in case ptr of
             [] \<Rightarrow> Inr d
           | vers # ptr \<Rightarrow>
               if vers = kHpb_EncodedVersion_MapV1 then hpb_MtDecoder_ParseMap alloc_ok mem d ptr
               else if vers = kHpb_EncodedVersion_MessageV1 then
                 res_bind (hpb_MtDecoder_ParseMessage alloc_ok mem d ptr) (\<lambda>d.
                 res_bind (hpb_MtDecoder_AssignHasbits d) (\<lambda>d.
                 res_bind (hpb_MtDecoder_SortLayoutItems alloc_ok d) (\<lambda>d.
                   hpb_MtDecoder_AssignOffsets d)))
               else if vers = kHpb_EncodedVersion_MessageSetV1 then hpb_MtDecoder_ParseMessageSet d ptr
               else Inl (InvalidMessageVersion vers))"

definition sizeof_MiniTable :: nat where "sizeof_MiniTable = 32"

text \<open>
  \<open>hpb_MiniTable_BuildWithBuf\<close> takes and returns the size of the scratch buffer of layout
  items; the error of a failed build leaves through \<open>setjmp\<close> as a null pointer.
\<close>

definition hpb_MiniTable_BuildWithBuf ::
  "(nat \<Rightarrow> bool) \<Rightarrow> (nat \<Rightarrow> hpb_MiniTableField) \<Rightarrow> byte list \<Rightarrow> hpb_MiniTablePlatform \<Rightarrow> nat \<Rightarrow>
   md_error + (hpb_MiniTable \<times> nat)" where
  "hpb_MiniTable_BuildWithBuf alloc_ok mem ptr plat buf_size =
     res_bind (hpb_MtDecoder_DoBuildMiniTableWithBuf alloc_ok mem
         \<lparr>has_table = alloc_ok sizeof_MiniTable, d_table = kHpb_MiniTable_Empty, d_fields = [],
          fields_cap = 0, platform = plat, vec = [], vec_capacity = buf_size div sizeof_LayoutItem\<rparr> ptr)
       (\<lambda>d. Inr ((d_table d)\<lparr>t_fields := d_fields d\<rparr>, vec_capacity d * sizeof_LayoutItem))"

definition hpb_MiniTable_Build ::
  "(nat \<Rightarrow> bool) \<Rightarrow> (nat \<Rightarrow> hpb_MiniTableField) \<Rightarrow> byte list \<Rightarrow> hpb_MiniTablePlatform \<Rightarrow>
   md_error + hpb_MiniTable" where
  "hpb_MiniTable_Build alloc_ok mem ptr plat =
     res_bind (hpb_MiniTable_BuildWithBuf alloc_ok mem ptr plat 0) (\<lambda>(t, _). Inr t)"

text \<open>
  Extensions. The inner \<open>None\<close> is a null pointer returned without an error status. \<open>extendee\<close>
  is the table of the extended message and \<open>extendee_addr\<close> its address.
\<close>

definition hpb_MtDecoder_DoBuildMiniTableExtension ::
  "(nat \<Rightarrow> bool) \<Rightarrow> (nat \<Rightarrow> hpb_MiniTableField) \<Rightarrow> hpb_MtDecoder \<Rightarrow> byte list \<Rightarrow>
   hpb_MiniTable \<Rightarrow> nat \<Rightarrow> hpb_MiniTableSub \<Rightarrow>
   md_error + (hpb_MiniTableExtension \<times> byte list) option" where
  "hpb_MtDecoder_DoBuildMiniTableExtension alloc_ok mem d ptr extendee_table extendee_addr sub =
     res_bind
       (case ptr of [] \<Rightarrow> Inr []
        | v # rest \<Rightarrow> if v \<noteq> kHpb_EncodedVersion_ExtensionV1 then Inl (InvalidExtensionVersion v) else Inr rest)
     (\<lambda>ptr. res_bind (hpb_MtDecoder_Parse alloc_ok mem d ptr) (\<lambda>(d, _, ptr).
       if field_count (d_table d) \<noteq> 1 then Inr None
       else case d_fields d of
         [] \<Rightarrow> Inl MemoryFault
       | f # _ \<Rightarrow>
           let f = f\<lparr>f_mode := f_mode f OR kHpb_LabelFlags_IsExtension, f_offset := 0, f_presence := 0\<rparr> in
           if has_flag (ext_mode extendee_table) kHpb_ExtMode_IsMessageSet \<and>
              (\<not> hpb_IsSubMessage f \<or> f_mode f AND kHpb_FieldMode_Mask = kHpb_FieldMode_Array)
           then Inr None
           else Inr (Some (\<lparr>ext_field = f, extendee = extendee_addr, ext_sub = sub\<rparr>, ptr))))"

definition hpb_MiniTableExtension_Init ::
  "(nat \<Rightarrow> bool) \<Rightarrow> (nat \<Rightarrow> hpb_MiniTableField) \<Rightarrow> byte list \<Rightarrow> hpb_MiniTable \<Rightarrow> nat \<Rightarrow>
   hpb_MiniTableSub \<Rightarrow> hpb_MiniTablePlatform \<Rightarrow> md_error + (hpb_MiniTableExtension \<times> byte list) option" where
  "hpb_MiniTableExtension_Init alloc_ok mem ptr extendee_table extendee_addr sub plat =
     hpb_MtDecoder_DoBuildMiniTableExtension alloc_ok mem
       \<lparr>has_table = False, d_table = kHpb_MiniTable_Empty, d_fields = [], fields_cap = 1,
        platform = plat, vec = [], vec_capacity = 0\<rparr> ptr extendee_table extendee_addr sub"

definition sizeof_MiniTableExtension :: nat where "sizeof_MiniTableExtension = 32"

definition hpb_MiniTableExtension_Build ::
  "(nat \<Rightarrow> bool) \<Rightarrow> (nat \<Rightarrow> hpb_MiniTableField) \<Rightarrow> byte list \<Rightarrow> hpb_MiniTable \<Rightarrow> nat \<Rightarrow>
   hpb_MiniTableSub \<Rightarrow> hpb_MiniTablePlatform \<Rightarrow> md_error + hpb_MiniTableExtension option" where
  "hpb_MiniTableExtension_Build alloc_ok mem ptr extendee_table extendee_addr sub plat =
     (if \<not> alloc_ok sizeof_MiniTableExtension then Inr None
      else res_bind (hpb_MiniTableExtension_Init alloc_ok mem ptr extendee_table extendee_addr sub plat)
             (\<lambda>r. Inr (map_option fst r)))"

end
