(* ===== verification/MtLayout.thy ===== *)
theory MtLayout
  imports MtDecoder
begin

text \<open>
  The layout that \<open>hpb_MtDecoder\<close> gives a message: placing the items, the linked lists of
  oneof members threaded through the offsets, hasbits, and the resulting offsets of the
  fields.
\<close>

section \<open>Placing items\<close>

lemma unat_of_nat_u16: "n < 65536 \<Longrightarrow> unat (of_nat n :: u16) = n"
  by (simp add: unat_of_nat)

lemma align_up_ge: "0 < a \<Longrightarrow> n \<le> align_up n a"
  unfolding align_up_def
  using div_mult_mod_eq [of "n + a - 1" a] mod_less_divisor [of a "n + a - 1"] by linarith

lemma align_up_dvd: "a dvd align_up n a"
  by (simp add: align_up_def)

lemma align_up_le: "0 < a \<Longrightarrow> align_up n a \<le> n + a - 1"
  unfolding align_up_def by (rule div_times_less_eq_dividend)

lemma rep_size_pos: "0 < hpb_MtDecoder_SizeOfRep rep p"
  by (cases rep) simp_all

lemma rep_align_pos: "0 < hpb_MtDecoder_AlignOfRep rep p"
  by (cases rep) simp_all

abbreviation item_size :: "hpb_MiniTablePlatform \<Rightarrow> hpb_LayoutItem \<Rightarrow> nat" where
  "item_size p item \<equiv> hpb_MtDecoder_SizeOfRep (item_rep item) p"

abbreviation item_align :: "hpb_MiniTablePlatform \<Rightarrow> hpb_LayoutItem \<Rightarrow> nat" where
  "item_align p item \<equiv> hpb_MtDecoder_AlignOfRep (item_rep item) p"

text \<open>The bytes of an item, and an item without its offset.\<close>

definition item_bytes :: "hpb_MiniTablePlatform \<Rightarrow> hpb_LayoutItem \<Rightarrow> nat set" where
  "item_bytes p item = {unat (item_offset item)..<unat (item_offset item) + item_size p item}"

definition unplaced :: "hpb_LayoutItem \<Rightarrow> hpb_LayoutItem" where
  "unplaced item = item\<lparr>item_offset := 0\<rparr>"

definition placed_between :: "hpb_MiniTablePlatform \<Rightarrow> nat \<Rightarrow> nat \<Rightarrow> hpb_LayoutItem list \<Rightarrow> bool" where
  "placed_between p lo hi items \<longleftrightarrow>
     (\<forall>item \<in> set items. item_align p item dvd unat (item_offset item) \<and>
        lo \<le> unat (item_offset item) \<and> unat (item_offset item) + item_size p item \<le> hi) \<and>
     sorted_wrt (\<lambda>a b. unat (item_offset a) + item_size p a \<le> unat (item_offset b)) items \<and>
     hi = (if items = [] then lo else unat (item_offset (last items)) + item_size p (last items))"

lemma placed_between_Cons:
  assumes "placed_between p mid hi items" "item_align p item dvd unat (item_offset item)"
    "lo \<le> unat (item_offset item)" "unat (item_offset item) + item_size p item = mid" "mid \<le> hi"
  shows "placed_between p lo hi (item # items)"
  using assms by (fastforce simp: placed_between_def)

lemma Place_Inr:
  assumes "hpb_MtDecoder_Place d rep = Inr (d', off)"
  shows "d' = d\<lparr>d_table := (d_table d)\<lparr>t_size := of_nat (off + hpb_MtDecoder_SizeOfRep rep (platform d))\<rparr>\<rparr>"
    and "off = align_up (unat (t_size (d_table d))) (hpb_MtDecoder_AlignOfRep rep (platform d))"
    and "off + hpb_MtDecoder_SizeOfRep rep (platform d) \<le> 65535"
  using assms by (auto simp: hpb_MtDecoder_Place_def Let_def split: if_splits)

lemma place_items_Inr:
  "place_items d items = Inr (d', items') \<Longrightarrow>
     d' = d\<lparr>d_table := (d_table d)\<lparr>t_size := t_size (d_table d')\<rparr>\<rparr> \<and>
     map unplaced items' = map unplaced items \<and>
     unat (t_size (d_table d)) \<le> unat (t_size (d_table d')) \<and>
     placed_between (platform d) (unat (t_size (d_table d))) (unat (t_size (d_table d'))) items'"
proof (induction items arbitrary: d items')
  case Nil
  then show ?case
    by (simp add: placed_between_def)
next
  case (Cons item items)
  obtain d1 off items1 where p: "hpb_MtDecoder_Place d (item_rep item) = Inr (d1, off)"
    and q: "place_items d1 items = Inr (d', items1)" and r: "items' = item\<lparr>item_offset := of_nat off\<rparr> # items1"
    using Cons.prems by (auto simp: res_bind_Inr_iff)
  note d1 = Place_Inr [OF p]
  note IH = Cons.IH [OF q]
  let ?sz = "hpb_MtDecoder_SizeOfRep (item_rep item) (platform d)"
  have off: "unat (of_nat off :: u16) = off" and size1: "unat (t_size (d_table d1)) = off + ?sz"
    using d1(3) unat_of_nat_u16 [of off] unat_of_nat_u16 [of "off + ?sz"] by (simp_all add: d1(1))
  have lo: "unat (t_size (d_table d)) \<le> off"
    using d1(2) align_up_ge [OF rep_align_pos] by simp
  have plat: "platform d1 = platform d"
    by (simp add: d1(1))
  have "placed_between (platform d) (off + ?sz) (unat (t_size (d_table d'))) items1"
    and hi: "off + ?sz \<le> unat (t_size (d_table d'))"
    using IH by (simp_all add: plat size1)
  then have "placed_between (platform d) (unat (t_size (d_table d))) (unat (t_size (d_table d'))) items'"
    unfolding r using lo hi off
    by (intro placed_between_Cons) (simp_all add: d1(2) align_up_dvd)
  moreover have "d' = d\<lparr>d_table := (d_table d)\<lparr>t_size := t_size (d_table d')\<rparr>\<rparr>"
  proof -
    define x where "x = t_size (d_table d')"
    have "d' = d1\<lparr>d_table := (d_table d1)\<lparr>t_size := x\<rparr>\<rparr>"
      using IH by (simp add: x_def)
    then have "d' = d\<lparr>d_table := (d_table d)\<lparr>t_size := x\<rparr>\<rparr>"
      by (simp add: d1(1))
    then show ?thesis
      by (simp add: x_def)
  qed
  moreover have "map unplaced items' = map unplaced (item # items)"
    using conjunct1 [OF conjunct2 [OF IH]] by (simp add: r) (simp add: unplaced_def)
  ultimately show ?case
    using lo IH size1 by linarith
qed

section \<open>Oneof lists\<close>

text \<open>
  While a table is being built the offset of a oneof member is a link: the index of the next
  member plus \<open>kOneofBase\<close>, or the sentinel. \<open>chain_from fs h c\<close>: following the links from
  \<open>h\<close> visits the indices \<open>c\<close>.
\<close>

fun chain_from :: "hpb_MiniTableField list \<Rightarrow> u16 \<Rightarrow> nat list \<Rightarrow> bool" where
  "chain_from fs h [] \<longleftrightarrow> h = kHpb_LayoutItem_IndexSentinel"
| "chain_from fs h (i # c) \<longleftrightarrow>
     i < length fs \<and> i < 65532 \<and> h = of_nat i + kOneofBase \<and> chain_from fs (f_offset (fs ! i)) c"

fun link_to :: "nat list \<Rightarrow> u16" where
  "link_to [] = kHpb_LayoutItem_IndexSentinel"
| "link_to (i # c) = of_nat i + kOneofBase"

lemma unat_link: "i < 65532 \<Longrightarrow> unat (of_nat i + kOneofBase :: u16) = i + 3"
proof -
  assume i: "i < 65532"
  have "of_nat i + kOneofBase = (of_nat (i + 3) :: u16)"
    by (simp add: kOneofBase_def)
  then show ?thesis
    using i unat_of_nat_u16 [of "i + 3"] by simp
qed

lemma link_facts:
  assumes "i < 65532"
  shows "(of_nat i + kOneofBase :: u16) \<noteq> kHpb_LayoutItem_IndexSentinel"
    "\<not> of_nat i + kOneofBase < (kOneofBase :: u16)"
    "unat (of_nat i + kOneofBase - kOneofBase :: u16) = i"
  using unat_link [OF assms] assms unat_of_nat_u16 [of i]
  by (auto simp: word_unat_eq_iff word_less_nat_alt kHpb_LayoutItem_IndexSentinel_def unat_minus_1
      kOneofBase_def)

lemma chain_from_link: "chain_from fs h c \<Longrightarrow> h = link_to c"
  by (cases c) simp_all

lemma chain_from_bound: "chain_from fs h c \<Longrightarrow> i \<in> set c \<Longrightarrow> i < length fs \<and> i < 65532"
  by (induction c arbitrary: h) auto

lemma chain_from_cong:
  "length fs' = length fs \<Longrightarrow> (\<And>i. i \<in> set c \<Longrightarrow> f_offset (fs' ! i) = f_offset (fs ! i)) \<Longrightarrow>
    chain_from fs' h c = chain_from fs h c"
  by (induction c arbitrary: h) auto

lemma chain_from_update: "i \<notin> set c \<Longrightarrow> chain_from (fs[i := f]) h c = chain_from fs h c"
  by (induction c arbitrary: h) (auto simp: nth_list_update)

text \<open>The offset of a member is never one of the presence classes.\<close>

lemma chain_from_offset:
  "chain_from fs h c \<Longrightarrow> i \<in> set c \<Longrightarrow> unat (f_offset (fs ! i)) \<ge> 3"
proof (induction c arbitrary: h)
  case (Cons j c)
  have "unat (f_offset (fs ! j)) \<ge> 3"
    using Cons.prems(1) by (cases c) (auto simp: unat_link kHpb_LayoutItem_IndexSentinel_def unat_minus_1)
  then show ?case
    using Cons by auto
qed simp

lemma set_oneof_case_chain:
  "chain_from fs (of_nat i + kOneofBase) (i # c) \<Longrightarrow> distinct (i # c) \<Longrightarrow>
   (\<forall>j \<in> set (i # c). j < n) \<Longrightarrow> length (i # c) \<le> k \<Longrightarrow>
   set_oneof_case k n off i fs = Inr (upd_at (set (i # c)) (\<lambda>f. f\<lparr>f_presence := NOT off\<rparr>) fs)"
proof (induction c arbitrary: i fs k)
  case Nil
  then show ?case
    by (cases k) (auto simp: upd_at_singleton)
next
  case (Cons j c)
  obtain k' where k: "k = Suc k'"
    using Cons.prems(4) by (cases k) auto
  let ?g = "\<lambda>f. f\<lparr>f_presence := NOT off\<rparr>"
  let ?fs = "fs[i := ?g (fs ! i)]"
  have "chain_from ?fs (of_nat j + kOneofBase) (j # c)"
    using Cons.prems(1,2) by (simp add: chain_from_update)
  then have "set_oneof_case k' n off j ?fs = Inr (upd_at (set (j # c)) ?g ?fs)"
    using Cons.prems k by (intro Cons.IH) auto
  moreover have "upd_at (set (j # c)) ?g ?fs = upd_at (set (i # j # c)) ?g fs"
    using upd_at_insert [of i fs "set (j # c)" ?g] Cons.prems(1,2) by simp
  ultimately show ?case
    using Cons.prems link_facts [of j] by (simp add: k)
qed

lemma set_oneof_offset_chain:
  "chain_from fs (of_nat i + kOneofBase) (i # c) \<Longrightarrow> distinct (i # c) \<Longrightarrow> length (i # c) \<le> k \<Longrightarrow>
   set_oneof_offset k off i fs = Inr (upd_at (set (i # c)) (\<lambda>f. f\<lparr>f_offset := off\<rparr>) fs)"
proof (induction c arbitrary: i fs k)
  case Nil
  then show ?case
    by (cases k) (auto simp: upd_at_singleton)
next
  case (Cons j c)
  obtain k' where k: "k = Suc k'"
    using Cons.prems(3) by (cases k) auto
  let ?g = "\<lambda>f. f\<lparr>f_offset := off\<rparr>"
  let ?fs = "fs[i := ?g (fs ! i)]"
  have "chain_from ?fs (of_nat j + kOneofBase) (j # c)"
    using Cons.prems(1,2) by (simp add: chain_from_update)
  then have "set_oneof_offset k' off j ?fs = Inr (upd_at (set (j # c)) ?g ?fs)"
    using Cons.prems k by (intro Cons.IH) auto
  moreover have "upd_at (set (j # c)) ?g ?fs = upd_at (set (i # j # c)) ?g fs"
    using upd_at_insert [of i fs "set (j # c)" ?g] Cons.prems(1,2) by simp
  ultimately show ?case
    using Cons.prems link_facts [of j] by (simp add: k)
qed

section \<open>Passes over the items\<close>

text \<open>
  Both final passes visit every item and write to the fields the item stands for. The contract:
  on a valid item the step updates exactly its targets, and writing elsewhere keeps it valid.
  Then items with disjoint targets do not disturb each other.
\<close>

locale item_pass =
  fixes step :: "'i \<Rightarrow> 'f list \<Rightarrow> 'e + 'f list"
    and targets :: "'i \<Rightarrow> nat set"
    and update :: "'i \<Rightarrow> 'f \<Rightarrow> 'f"
    and valid :: "'i \<Rightarrow> 'f list \<Rightarrow> bool"
  assumes step_valid: "valid it fs \<Longrightarrow> step it fs = Inr (upd_at (targets it) (update it) fs)"
    and valid_frame: "valid it fs \<Longrightarrow> targets it \<inter> S = {} \<Longrightarrow> valid it (upd_at S g fs)"
    and valid_bound: "valid it fs \<Longrightarrow> targets it \<subseteq> {..<length fs}"
begin

lemma pass_correct:
  "\<forall>it \<in> set items. valid it fs \<Longrightarrow> sorted_wrt (\<lambda>a b. targets a \<inter> targets b = {}) items \<Longrightarrow>
   \<exists>fs'. fold_res step items fs = Inr fs' \<and> length fs' = length fs \<and>
     (\<forall>it \<in> set items. \<forall>j \<in> targets it. fs' ! j = update it (fs ! j)) \<and>
     (\<forall>j < length fs. (\<forall>it \<in> set items. j \<notin> targets it) \<longrightarrow> fs' ! j = fs ! j)"
proof (induction items arbitrary: fs)
  case Nil
  then show ?case by simp
next
  case (Cons it items)
  let ?fs1 = "upd_at (targets it) (update it) fs"
  have "\<forall>it' \<in> set items. valid it' ?fs1"
    using Cons.prems by (auto intro!: valid_frame)
  then obtain fs' where fs': "fold_res step items ?fs1 = Inr fs'" "length fs' = length fs"
    and upd: "\<And>it' j. it' \<in> set items \<Longrightarrow> j \<in> targets it' \<Longrightarrow> fs' ! j = update it' (?fs1 ! j)"
    and frame: "\<And>j. j < length fs \<Longrightarrow> \<forall>it' \<in> set items. j \<notin> targets it' \<Longrightarrow> fs' ! j = ?fs1 ! j"
    using Cons.IH [of ?fs1] Cons.prems(2) by auto
  have bound: "j < length fs" if "it' \<in> set (it # items)" "j \<in> targets it'" for it' j
    using valid_bound [of it' fs] Cons.prems(1) that by auto
  have disj: "j \<notin> targets it" if "it' \<in> set items" "j \<in> targets it'" for it' j
    using Cons.prems(2) that by auto
  have head: "fs' ! j = update it (fs ! j)" if "j \<in> targets it" for j
    using frame [of j] bound [of it j] disj that by fastforce
  have tail: "fs' ! j = update it' (fs ! j)" if "it' \<in> set items" "j \<in> targets it'" for it' j
    using upd [OF that] disj [OF that] bound [of it' j] that by simp
  have "fold_res step (it # items) fs = Inr fs'"
    using fs'(1) step_valid [of it fs] Cons.prems(1) by simp
  then show ?case
    using fs'(2) head tail frame by auto
qed

end

definition case_step :: "nat \<Rightarrow> hpb_LayoutItem \<Rightarrow> hpb_MiniTableField list \<Rightarrow> md_error + hpb_MiniTableField list" where
  "case_step n item fs =
     (if item_type item \<noteq> LayoutItemType_OneofCase then Inr fs
      else set_oneof_case (Suc (length fs)) n (item_offset item) (unat (field_index item)) fs)"

lemma assign_cases_fold: "assign_cases n items fs = fold_res (case_step n) items fs"
  by (induction items arbitrary: fs) (auto simp: case_step_def intro: res_bind_cong)

definition offset_step :: "hpb_LayoutItem \<Rightarrow> hpb_MiniTableField list \<Rightarrow> md_error + hpb_MiniTableField list" where
  "offset_step item fs =
     (let i = unat (field_index item) in
      case item_type item of
        LayoutItemType_OneofField \<Rightarrow> set_oneof_offset (Suc (length fs)) (item_offset item) i fs
      | LayoutItemType_Field \<Rightarrow>
          (if i < length fs then Inr (fs[i := (fs ! i)\<lparr>f_offset := item_offset item\<rparr>])
           else Inl MemoryFault)
      | LayoutItemType_OneofCase \<Rightarrow> Inr fs)"

lemma assign_offsets_fold: "assign_offsets items fs = fold_res offset_step items fs"
  by (induction items arbitrary: fs) (auto simp: offset_step_def Let_def intro: res_bind_cong)

text \<open>\<open>C\<close> gives the members of the oneof with a given first member.\<close>

definition is_chain :: "(nat \<Rightarrow> nat list) \<Rightarrow> nat \<Rightarrow> nat \<Rightarrow> hpb_MiniTableField list \<Rightarrow> bool" where
  "is_chain C n i fs \<longleftrightarrow> (\<exists>c. C i = i # c) \<and> chain_from fs (of_nat i + kOneofBase) (C i) \<and>
     distinct (C i) \<and> (\<forall>j \<in> set (C i). j < n) \<and> n \<le> length fs"

lemma is_chain_frame: "is_chain C n i fs \<Longrightarrow> set (C i) \<inter> S = {} \<Longrightarrow> is_chain C n i (upd_at S g fs)"
  using chain_from_bound [of fs "of_nat i + kOneofBase" "C i"]
  by (auto simp: is_chain_def chain_from_cong [of "upd_at S g fs" fs] disjoint_iff)

lemma is_chain_length: 
  assumes "is_chain C n i fs"
  shows "length (C i) \<le> Suc (length fs)"
proof -
  have "set (C i) \<subseteq> {..<length fs}" and "distinct (C i)"
    using assms by (auto simp: is_chain_def)
  then show ?thesis
    using card_mono [of "{..<length fs}" "set (C i)"] by (simp add: distinct_card)
qed

definition case_targets :: "(nat \<Rightarrow> nat list) \<Rightarrow> hpb_LayoutItem \<Rightarrow> nat set" where
  "case_targets C item =
     (if item_type item = LayoutItemType_OneofCase then set (C (unat (field_index item))) else {})"

definition case_valid ::
  "(nat \<Rightarrow> nat list) \<Rightarrow> nat \<Rightarrow> hpb_LayoutItem \<Rightarrow> hpb_MiniTableField list \<Rightarrow> bool" where
  "case_valid C n item fs \<longleftrightarrow>
     (item_type item = LayoutItemType_OneofCase \<longrightarrow> is_chain C n (unat (field_index item)) fs)"

definition offset_targets :: "(nat \<Rightarrow> nat list) \<Rightarrow> hpb_LayoutItem \<Rightarrow> nat set" where
  "offset_targets C item =
     (case item_type item of
        LayoutItemType_OneofField \<Rightarrow> set (C (unat (field_index item)))
      | LayoutItemType_Field \<Rightarrow> {unat (field_index item)}
      | LayoutItemType_OneofCase \<Rightarrow> {})"

definition offset_valid ::
  "(nat \<Rightarrow> nat list) \<Rightarrow> nat \<Rightarrow> hpb_LayoutItem \<Rightarrow> hpb_MiniTableField list \<Rightarrow> bool" where
  "offset_valid C n item fs \<longleftrightarrow>
     (item_type item = LayoutItemType_OneofField \<longrightarrow> is_chain C n (unat (field_index item)) fs) \<and>
     (item_type item = LayoutItemType_Field \<longrightarrow> unat (field_index item) < length fs)"

interpretation case_pass: item_pass "case_step n" "case_targets C"
  "\<lambda>item f. f\<lparr>f_presence := NOT (item_offset item)\<rparr>" "case_valid C n" for C n
proof
  fix it fs assume v: "case_valid C n it fs"
  show "case_step n it fs =
      Inr (upd_at (case_targets C it) (\<lambda>f. f\<lparr>f_presence := NOT (item_offset it)\<rparr>) fs)"
  proof (cases "item_type it = LayoutItemType_OneofCase")
    case True
    then have ch: "is_chain C n (unat (field_index it)) fs"
      using v by (simp add: case_valid_def)
    then obtain c where "C (unat (field_index it)) = unat (field_index it) # c"
      by (auto simp: is_chain_def)
    then show ?thesis
      using ch is_chain_length [OF ch] True set_oneof_case_chain [of fs "unat (field_index it)" c n]
      by (simp add: case_step_def case_targets_def is_chain_def del: set_oneof_case.simps)
  qed (simp add: case_step_def case_targets_def)
  show "case_targets C it \<subseteq> {..<length fs}"
    using v by (auto simp: case_targets_def case_valid_def is_chain_def)
qed (auto simp: case_valid_def case_targets_def intro: is_chain_frame)

interpretation offset_pass: item_pass offset_step "offset_targets C"
  "\<lambda>item f. f\<lparr>f_offset := item_offset item\<rparr>" "offset_valid C n" for C n
proof
  fix it fs assume v: "offset_valid C n it fs"
  show "offset_step it fs =
      Inr (upd_at (offset_targets C it) (\<lambda>f. f\<lparr>f_offset := item_offset it\<rparr>) fs)"
  proof (cases "item_type it")
    case LayoutItemType_OneofField
    then have ch: "is_chain C n (unat (field_index it)) fs"
      using v by (simp add: offset_valid_def)
    then obtain c where "C (unat (field_index it)) = unat (field_index it) # c"
      by (auto simp: is_chain_def)
    then show ?thesis
      using ch is_chain_length [OF ch] LayoutItemType_OneofField
        set_oneof_offset_chain [of fs "unat (field_index it)" c]
      by (simp add: offset_step_def offset_targets_def is_chain_def del: set_oneof_offset.simps)
  qed (use v in \<open>simp_all add: offset_step_def offset_targets_def offset_valid_def upd_at_singleton Let_def\<close>)
  show "offset_targets C it \<subseteq> {..<length fs}"
    using v by (auto simp: offset_targets_def offset_valid_def is_chain_def
        split: hpb_LayoutItemType.splits)
qed (auto simp: offset_valid_def offset_targets_def split: hpb_LayoutItemType.splits intro: is_chain_frame)

end
