(* ===== verification/MtParse.thy ===== *)
theory MtParse
  imports MtLayout
begin

text \<open>
  What parsing a message descriptor establishes, for every input: the fields written stay
  within the array, the dense prefix is right, and the oneofs form disjoint linked lists of
  fields that had a hasbit.
\<close>

section \<open>Fields\<close>

lemma has_flag_or: "has_flag (a OR b) c \<longleftrightarrow> has_flag a c \<or> has_flag b c"
  by (simp add: has_flag_def bit.conj_disj_distrib2 or_eq_0_iff)

text \<open>A field marked as an alternate type is an open enum or an unchecked string.\<close>

definition alternate_ok :: "hpb_MiniTableField \<Rightarrow> bool" where
  "alternate_ok f \<longleftrightarrow> (has_flag (f_mode f) kHpb_LabelFlags_IsAlternate \<longrightarrow>
     descriptortype f = FieldType_Int32 \<or> descriptortype f = FieldType_Bytes)"

definition new_field_ok :: "hpb_MiniTableField \<Rightarrow> bool" where
  "new_field_ok f \<longleftrightarrow> unat (f_offset f) < 3 \<and> alternate_ok f"

lemma rep_flag_no_alternate: "\<not> has_flag (rep_flag r) kHpb_LabelFlags_IsAlternate"
  by (cases r) (simp_all add: rep_flag_def has_flag_def kHpb_FieldRep_Shift_def field_mode_defs)

lemma field_of_char_outcome:
  "outcome (\<lambda>(f', type). f_number f' = f_number f \<and> unat (f_offset f') < 3 \<and>
     \<not> has_flag (f_mode f') kHpb_LabelFlags_IsAlternate) (field_of_char plat ch f)"
  by (simp add: field_of_char_def Let_def presence_class_defs has_flag_or rep_flag_no_alternate)
    (simp add: field_mode_defs has_flag_def)

lemma has_flag_packed_alternate: "\<not> has_flag kHpb_LabelFlags_IsPacked kHpb_LabelFlags_IsAlternate"
  by (simp add: has_flag_def field_mode_defs)

lemma SetTypeAndSub_outcome:
  assumes "\<not> has_flag (f_mode f) kHpb_LabelFlags_IsAlternate" "p3 \<longrightarrow> type = FieldType_Enum"
  shows "outcome (\<lambda>(f', _). f_number f' = f_number f \<and> f_offset f' = f_offset f \<and> alternate_ok f')
    (hpb_MiniTable_SetTypeAndSub f type c mods p3)"
  using assms
  by (auto simp: hpb_MiniTable_SetTypeAndSub_def set_type_alternate_def alternate_ok_def Let_def
      has_flag_or has_flag_packed_alternate)

lemma SetField_outcome:
  "outcome (\<lambda>(f', _). f_number f' = f_number f \<and> new_field_ok f') (hpb_MiniTable_SetField plat ch f mods c)"
  unfolding hpb_MiniTable_SetField_def
proof (rule outcome_bind [OF field_of_char_outcome], clarify)
  fix f' :: hpb_MiniTableField and type :: int
  assume f': "f_number f' = f_number f" "unat (f_offset f') < 3"
    "\<not> has_flag (f_mode f') kHpb_LabelFlags_IsAlternate"
  have "type = int kHpb_EncodedType_OpenEnum \<longrightarrow> kHpb_EncodedToType ! nat type = FieldType_Enum"
    by (simp add: kHpb_EncodedType_OpenEnum_def kHpb_EncodedToType_def)
  from SetTypeAndSub_outcome [OF f'(3) this, of c mods]
  have "outcome (\<lambda>(f', _). f_number f' = f_number f \<and> new_field_ok f')
      (hpb_MiniTable_SetTypeAndSub f' (kHpb_EncodedToType ! nat type) c mods
         (type = int kHpb_EncodedType_OpenEnum))"
    by (rule outcome_mono) (use f' in \<open>auto simp: new_field_ok_def\<close>)
  then show "outcome (\<lambda>(f', _). f_number f' = f_number f \<and> new_field_ok f')
      (if type < 0 \<or> int (length kHpb_EncodedToType) \<le> type then Inl (InvalidFieldType type)
       else hpb_MiniTable_SetTypeAndSub f' (kHpb_EncodedToType ! nat type) c mods
              (type = int kHpb_EncodedType_OpenEnum))"
    by simp
qed

lemma ModifyField_outcome:
  "new_field_ok f \<Longrightarrow>
   outcome (\<lambda>f'. f_number f' = f_number f \<and> new_field_ok f') (hpb_MtDecoder_ModifyField m f)"
  by (auto simp: hpb_MtDecoder_ModifyField_def Let_def new_field_ok_def alternate_ok_def
      presence_class_defs has_flag_def field_mode_defs bit.conj_xor_distrib2)

section \<open>Lookup while building\<close>

lemma find_field_search_total:
  "0 \<le> lo \<Longrightarrow> hi < int (length fs) \<Longrightarrow> \<exists>r. find_field_search fs number lo hi = Inr r"
proof (induction fs number lo hi rule: find_field_search.induct)
  case (1 fs number lo hi)
  show ?case
  proof (cases "lo \<le> hi")
    case True
    define mid where "mid = (lo + hi) div 2"
    have mid: "0 \<le> mid" "mid \<le> hi" "nat mid < length fs"
      using True "1.prems" by (auto simp: mid_def)
    then show ?thesis
      using "1.IH" [OF True mid_def, of "fs ! nat mid"] "1.prems" True
      by (subst find_field_search.simps) (simp add: mid_def [symmetric] Let_def)
  qed (subst find_field_search.simps, simp)
qed

lemma find_field_search_some:
  "find_field_search fs number lo hi = Inr (Some i) \<Longrightarrow> i < length fs \<and> f_number (fs ! i) = number"
proof (induction fs number lo hi rule: find_field_search.induct)
  case (1 fs number lo hi)
  define mid where "mid = (lo + hi) div 2"
  show ?case
    using "1.prems" "1.IH" [OF _ mid_def]
    by (subst (asm) find_field_search.simps)
      (auto simp: mid_def [symmetric] Let_def res_bind_Inr_iff array_get_def split: if_splits)
qed

lemma FindFieldByNumber_dense:
  assumes "dense_prefix t"
  shows "\<exists>r. hpb_MiniTable_FindFieldByNumber t number = Inr r \<and>
    (\<forall>i. r = Some i \<longrightarrow> i < length (t_fields t) \<and> f_number (t_fields t ! i) = number)"
proof -
  define i where "i = unat (ucast number - 1 :: u64)"
  define d where "d = unat (dense_below t)"
  have d: "d < 256" "d \<le> unat (field_count t)" "unat (field_count t) \<le> length (t_fields t)"
    "\<And>i. i < d \<Longrightarrow> f_number (t_fields t ! i) = of_nat (i + 1)"
    using assms unsigned_less [of "dense_below t", where 'a = nat] by (auto simp: dense_prefix_def d_def)
  show ?thesis
  proof (cases "i < d")
    case True
    have "f_number (t_fields t ! i) = number"
      using dense_index_number [of number d] True d(1,4) by (simp add: i_def)
    then have "hpb_MiniTable_FindFieldByNumber t number = Inr (Some i)"
      using True d
      by (simp add: hpb_MiniTable_FindFieldByNumber_def i_def [symmetric] d_def [symmetric] Let_def)
    then show ?thesis
      using True d \<open>f_number (t_fields t ! i) = number\<close> by simp
  next
    case False
    have "hpb_MiniTable_FindFieldByNumber t number =
        find_field_search (t_fields t) number (int d) (int (unat (field_count t)) - 1)"
      using False by (simp add: hpb_MiniTable_FindFieldByNumber_def i_def d_def Let_def)
    moreover have "int (unat (field_count t)) - 1 < int (length (t_fields t))"
      using d(3) by linarith
    ultimately show ?thesis
      using find_field_search_total [of "int d" "int (unat (field_count t)) - 1" "t_fields t" number]
      by (auto dest: find_field_search_some)
  qed
qed

section \<open>Oneofs\<close>

text \<open>
  The oneofs decoded so far as pairs of the members and the storage class. \<open>fs0\<close> are the fields
  before the oneofs were decoded: members had a hasbit and only their offset has changed.
\<close>

definition members :: "(nat list \<times> hpb_FieldRep) list \<Rightarrow> nat set" where
  "members os = set (concat (map fst os))"

definition oneof_ok ::
  "hpb_MiniTablePlatform \<Rightarrow> hpb_MiniTableField list \<Rightarrow> hpb_MiniTableField list \<Rightarrow> nat list \<times> hpb_FieldRep \<Rightarrow> bool" where
  "oneof_ok p fs0 fs o1 \<longleftrightarrow> chain_from fs (link_to (fst o1)) (fst o1) \<and>
     (\<forall>i \<in> set (fst o1). f_offset (fs0 ! i) = kHasbitPresence \<and>
        hpb_MtDecoder_SizeOfRep (hpb_MiniTableField_GetRep (fs0 ! i)) p \<le> hpb_MtDecoder_SizeOfRep (snd o1) p)"

definition oneofs_ok ::
  "hpb_MiniTablePlatform \<Rightarrow> hpb_MiniTableField list \<Rightarrow> hpb_MiniTableField list \<Rightarrow>
   (nat list \<times> hpb_FieldRep) list \<Rightarrow> bool" where
  "oneofs_ok p fs0 fs os \<longleftrightarrow> length fs = length fs0 \<and> distinct (concat (map fst os)) \<and>
     (\<forall>o1 \<in> set os. oneof_ok p fs0 fs o1) \<and>
     (\<forall>i < length fs0. fs ! i = (fs0 ! i)\<lparr>f_offset := f_offset (fs ! i)\<rparr> \<and>
        (i \<notin> members os \<longrightarrow> fs ! i = fs0 ! i))"

definition oneof_items :: "nat list \<times> hpb_FieldRep \<Rightarrow> hpb_LayoutItem list" where
  "oneof_items o1 =
     [\<lparr>field_index = of_nat (hd (fst o1)), item_offset = 0, item_rep = snd o1,
       item_type = LayoutItemType_OneofField\<rparr>,
      \<lparr>field_index = of_nat (hd (fst o1)), item_offset = 0, item_rep = FieldRep_4Byte,
       item_type = LayoutItemType_OneofCase\<rparr>]"

text \<open>Decoding oneofs changes only the offsets and the item vector.\<close>

definition same_frame :: "hpb_MtDecoder \<Rightarrow> hpb_MtDecoder \<Rightarrow> bool" where
  "same_frame d d' \<longleftrightarrow> has_table d' = has_table d \<and> d_table d' = d_table d \<and> platform d' = platform d \<and>
     fields_cap d' = fields_cap d"

definition oneofs_inv ::
  "hpb_MtDecoder \<Rightarrow> hpb_MtDecoder \<Rightarrow> (nat list \<times> hpb_FieldRep) list \<Rightarrow> hpb_LayoutItem \<Rightarrow> bool" where
  "oneofs_inv d0 d os item \<longleftrightarrow> same_frame d0 d \<and>
     (\<exists>cur. oneofs_ok (platform d0) (d_fields d0) (d_fields d) (os @ [(cur, item_rep item)]) \<and>
        field_index item = link_to cur \<and> item_offset item = 0) \<and>
     vec d = vec d0 @ concat (map oneof_items os) \<and> (\<forall>o1 \<in> set os. fst o1 \<noteq> [])"

definition oneofs_done :: "hpb_MtDecoder \<Rightarrow> hpb_MtDecoder \<Rightarrow> (nat list \<times> hpb_FieldRep) list \<Rightarrow> bool" where
  "oneofs_done d0 d os \<longleftrightarrow> same_frame d0 d \<and> oneofs_ok (platform d0) (d_fields d0) (d_fields d) os \<and>
     vec d = vec d0 @ concat (map oneof_items os) \<and> (\<forall>o1 \<in> set os. fst o1 \<noteq> [])"

lemma PushItem_outcome:
  "outcome (\<lambda>d'. same_frame d d' \<and> d_fields d' = d_fields d \<and> vec d' = vec d @ [item])
     (hpb_MtDecoder_PushItem alloc_ok d item)"
  by (simp add: hpb_MtDecoder_PushItem_def same_frame_def Let_def)

lemma PushOneof_outcome:
  assumes "field_index item = link_to cur" "item_offset item = 0"
    "\<forall>i \<in> set cur. i < 65532"
  shows "outcome (\<lambda>d'. same_frame d d' \<and> d_fields d' = d_fields d \<and> cur \<noteq> [] \<and>
      vec d' = vec d @ oneof_items (cur, item_rep item)) (hpb_MtDecoder_PushOneof alloc_ok d item)"
proof (cases cur)
  case Nil
  then show ?thesis
    using assms by (simp add: hpb_MtDecoder_PushOneof_def)
next
  case (Cons i c)
  then have i: "field_index item = of_nat i + kOneofBase" "i < 65532"
    using assms by auto
  show ?thesis
    unfolding hpb_MtDecoder_PushOneof_def Let_def using link_facts(1) [OF i(2)] i(1)
    apply simp
    apply (rule outcome_bind [OF PushItem_outcome])
    apply (rule outcome_mono [OF PushItem_outcome])
    apply (use assms(2) Cons i in \<open>auto simp: same_frame_def oneof_items_def\<close>)
    done
qed

lemma members_append [simp]: "members (os @ os') = members os \<union> members os'"
  by (simp add: members_def)

lemma members_single [simp]: "members [(c, r)] = set c"
  by (simp add: members_def)

lemma oneof_ok_update:
  "i \<notin> set (fst o1) \<Longrightarrow> oneof_ok p fs0 (fs[i := f]) o1 = oneof_ok p fs0 fs o1"
  by (simp add: oneof_ok_def chain_from_update)

lemma oneofs_ok_not_member:
  assumes "oneofs_ok p fs0 fs os" "f_offset (fs ! i) = kHasbitPresence"
  shows "i \<notin> members os"
proof
  assume "i \<in> members os"
  then obtain o1 where "o1 \<in> set os" "i \<in> set (fst o1)"
    by (auto simp: members_def)
  then have "3 \<le> unat (f_offset (fs ! i))"
    using assms(1) chain_from_offset by (auto simp: oneofs_ok_def oneof_ok_def)
  then show False
    using assms(2) by (simp add: kHasbitPresence_def)
qed

text \<open>Adding field \<open>i\<close> at the front of the current oneof.\<close>

lemma oneofs_ok_add:
  assumes ok: "oneofs_ok p fs0 fs (os @ [(cur, rep)])"
    and i: "i < length fs0" "i < 65532" "f_offset (fs ! i) = kHasbitPresence"
    and size: "hpb_MtDecoder_SizeOfRep rep p \<le> hpb_MtDecoder_SizeOfRep rep' p"
      "hpb_MtDecoder_SizeOfRep (hpb_MiniTableField_GetRep (fs ! i)) p \<le> hpb_MtDecoder_SizeOfRep rep' p"
  shows "oneofs_ok p fs0 (fs[i := (fs ! i)\<lparr>f_offset := link_to cur\<rparr>]) (os @ [(i # cur, rep')])"
    (is "oneofs_ok p fs0 ?fs _")
proof -
  have len: "length fs = length fs0" and notin: "i \<notin> members (os @ [(cur, rep)])"
    using ok oneofs_ok_not_member [OF ok i(3)] by (auto simp: oneofs_ok_def)
  have same: "fs ! i = fs0 ! i"
    using ok notin i(1) by (simp add: oneofs_ok_def)
  have cur: "oneof_ok p fs0 fs (cur, rep)"
    using ok by (simp add: oneofs_ok_def)
  have "oneof_ok p fs0 ?fs (i # cur, rep')"
    using cur notin i size len same
    by (auto simp: oneof_ok_def chain_from_update intro: order_trans)
  moreover have "oneof_ok p fs0 ?fs o1" if "o1 \<in> set os" for o1
  proof -
    have "i \<notin> set (fst o1)"
      using that notin by (auto simp: members_def)
    then show ?thesis
      using ok that by (simp add: oneofs_ok_def oneof_ok_update)
  qed
  moreover have "distinct (concat (map fst (os @ [(i # cur, rep')])))"
    using ok notin by (auto simp: oneofs_ok_def members_def)
  moreover have "?fs ! j = (fs0 ! j)\<lparr>f_offset := f_offset (?fs ! j)\<rparr>" if "j < length fs0" for j
    using ok that len i(1) by (cases "j = i") (simp_all add: oneofs_ok_def same)
  ultimately show ?thesis
    using ok len by (auto simp: oneofs_ok_def nth_list_update)
qed

lemma find_oneof_field_outcome:
  "dense_prefix (table_view d) \<Longrightarrow>
   outcome (\<lambda>i. i < length (d_fields d) \<and> f_number (d_fields d ! i) = num) (find_oneof_field d num)"
  using FindFieldByNumber_dense [of "table_view d" num]
  by (auto simp: find_oneof_field_def table_view_def split: option.splits)

lemma widen_item_facts:
  "field_index (widen_item d rep item) = field_index item"
  "item_offset (widen_item d rep item) = item_offset item"
  "hpb_MtDecoder_SizeOfRep (item_rep item) (platform d) \<le>
     hpb_MtDecoder_SizeOfRep (item_rep (widen_item d rep item)) (platform d)"
  "hpb_MtDecoder_SizeOfRep rep (platform d) \<le>
     hpb_MtDecoder_SizeOfRep (item_rep (widen_item d rep item)) (platform d)"
  by (simp_all add: widen_item_def)

text \<open>What the lookups during the oneof phase need of the decoder at its start.\<close>

definition oneof_start :: "hpb_MtDecoder \<Rightarrow> bool" where
  "oneof_start d0 \<longleftrightarrow> dense_prefix (table_view d0) \<and> length (d_fields d0) \<le> 65532"

lemma oneofs_inv_dense:
  assumes "oneof_start d0" "oneofs_inv d0 d os item"
  shows "dense_prefix (table_view d)" "length (d_fields d) = length (d_fields d0)"
proof -
  obtain os' where ok: "oneofs_ok (platform d0) (d_fields d0) (d_fields d) os'"
    using assms(2) by (auto simp: oneofs_inv_def)
  show len: "length (d_fields d) = length (d_fields d0)"
    using ok by (simp add: oneofs_ok_def)
  have num: "f_number (d_fields d ! i) = f_number (d_fields d0 ! i)" if "i < length (d_fields d0)" for i
  proof -
    have "d_fields d ! i = (d_fields d0 ! i)\<lparr>f_offset := f_offset (d_fields d ! i)\<rparr>"
      using ok that by (simp add: oneofs_ok_def)
    then show ?thesis
      by (metis hpb_MiniTableField.select_convs(1) hpb_MiniTableField.surjective hpb_MiniTableField.update_convs(2))
  qed
  show "dense_prefix (table_view d)"
    using assms num len by (auto simp: oneof_start_def oneofs_inv_def same_frame_def dense_prefix_def table_view_def)
qed

lemma DecodeOneofField_outcome:
  assumes start: "oneof_start d0" and inv: "oneofs_inv d0 d os item"
  shows "outcome (\<lambda>(d', item', ptr'). oneofs_inv d0 d' os item' \<and> length ptr' \<le> length ptr)
    (hpb_MtDecoder_DecodeOneofField d ptr ch item)"
  unfolding hpb_MtDecoder_DecodeOneofField_def
proof (rule outcome_bind [OF DecodeBase92Varint_outcome], clarify,
    rule outcome_bind [OF find_oneof_field_outcome [OF oneofs_inv_dense(1) [OF start inv]]], clarify)
  fix num ptr' i
  assume ptr': "length ptr' \<le> length ptr" and i: "i < length (d_fields d)"
  obtain cur where ok: "oneofs_ok (platform d0) (d_fields d0) (d_fields d) (os @ [(cur, item_rep item)])"
    and link: "field_index item = link_to cur" "item_offset item = 0" and frame: "same_frame d0 d"
    and rest: "vec d = vec d0 @ concat (map oneof_items os)" "\<forall>o1 \<in> set os. fst o1 \<noteq> []"
    using inv by (auto simp: oneofs_inv_def)
  let ?f = "d_fields d ! i"
  let ?item = "widen_item d (hpb_MiniTableField_GetRep ?f) item"
  let ?d = "d\<lparr>d_fields := (d_fields d)[i := ?f\<lparr>f_offset := link_to cur\<rparr>]\<rparr>"
  have bound: "i < length (d_fields d0)" "i < 65532"
    using i start oneofs_inv_dense(2) [OF start inv] by (auto simp: oneof_start_def)
  have "oneofs_inv d0 ?d os (?item\<lparr>field_index := of_nat i + kOneofBase\<rparr>)"
    if off: "f_offset ?f = kHasbitPresence"
  proof -
    have plat: "platform d0 = platform d"
      using frame by (simp add: same_frame_def)
    have "oneofs_ok (platform d0) (d_fields d0) (d_fields ?d) (os @ [(i # cur, item_rep ?item)])"
      using oneofs_ok_add [OF ok bound off] by (simp add: plat widen_item_facts)
    moreover have "same_frame d0 ?d"
      using frame by (simp add: same_frame_def)
    ultimately show ?thesis
      using link rest widen_item_facts(2)
      by (auto simp: oneofs_inv_def intro!: exI [of _ "i # cur"])
  qed
  then show "outcome (\<lambda>(d', item', ptr'). oneofs_inv d0 d' os item' \<and> length ptr' \<le> length ptr)
      (let f = ?f in
       if f_offset f \<noteq> kHasbitPresence then Inl (CannotAddToOneof num)
       else let item = widen_item d (hpb_MiniTableField_GetRep f) item
            in Inr (d\<lparr>d_fields := (d_fields d)[i := f\<lparr>f_offset := field_index item\<rparr>]\<rparr>,
                    item\<lparr>field_index := of_nat i + kOneofBase\<rparr>, ptr'))"
    using ptr' by (simp add: Let_def widen_item_facts(1) link)
qed

lemma same_frame_trans: "same_frame a b \<Longrightarrow> same_frame b c \<Longrightarrow> same_frame a c"
  by (simp add: same_frame_def)

lemma PushOneof_inv:
  assumes start: "oneof_start d0" and inv: "oneofs_inv d0 d os item"
  shows "outcome (\<lambda>d'. \<exists>o1. oneofs_done d0 d' (os @ [o1])) (hpb_MtDecoder_PushOneof alloc_ok d item)"
proof -
  obtain cur where ok: "oneofs_ok (platform d0) (d_fields d0) (d_fields d) (os @ [(cur, item_rep item)])"
    and link: "field_index item = link_to cur" "item_offset item = 0" and frame: "same_frame d0 d"
    and rest: "vec d = vec d0 @ concat (map oneof_items os)" "\<forall>o1 \<in> set os. fst o1 \<noteq> []"
    using inv by (auto simp: oneofs_inv_def)
  have "\<forall>i \<in> set cur. i < 65532"
    using ok chain_from_bound by (fastforce simp: oneofs_ok_def oneof_ok_def)
  from PushOneof_outcome [OF link this] show ?thesis
    by (rule outcome_mono)
      (use ok frame rest in \<open>auto simp: oneofs_done_def intro: same_frame_trans
         intro!: exI [of _ "item_rep item"] exI [of _ cur]\<close>)
qed

lemma oneofs_done_next:
  assumes "oneofs_done d0 d os" "item_offset item = 0"
  shows "oneofs_inv d0 d os (item\<lparr>field_index := kHpb_LayoutItem_IndexSentinel\<rparr>)"
proof -
  have "oneofs_ok (platform d0) (d_fields d0) (d_fields d) (os @ [([], item_rep item)])"
    using assms(1) by (auto simp: oneofs_done_def oneofs_ok_def oneof_ok_def)
  then show ?thesis
    using assms by (auto simp: oneofs_done_def oneofs_inv_def intro!: exI [of _ "[]"])
qed

lemma decode_oneofs_loop_outcome:
  assumes start: "oneof_start d0"
  shows "oneofs_inv d0 d os item \<Longrightarrow>
    outcome (\<lambda>(d', item'). \<exists>os'. oneofs_inv d0 d' os' item') (decode_oneofs_loop alloc_ok d ptr item)"
proof (induction alloc_ok d ptr item arbitrary: os rule: decode_oneofs_loop.induct)
  case (1 alloc_ok d item)
  then show ?case
    by (auto simp: decode_oneofs_loop.simps)
next
  case (2 alloc_ok d ch ptr item)
  consider (sep) "ch = kHpb_EncodedValue_FieldSeparator"
    | (push) "ch \<noteq> kHpb_EncodedValue_FieldSeparator" "ch = kHpb_EncodedValue_OneofSeparator"
    | (field) "ch \<noteq> kHpb_EncodedValue_FieldSeparator" "ch \<noteq> kHpb_EncodedValue_OneofSeparator"
    by blast
  then show ?case
  proof cases
    case sep
    then show ?thesis
      using "2.IH"(1) "2.prems" by (simp add: decode_oneofs_loop.simps)
  next
    case push
    have off: "item_offset item = 0"
      using "2.prems" by (auto simp: oneofs_inv_def)
    have "outcome (\<lambda>(d', item'). \<exists>os'. oneofs_inv d0 d' os' item')
      (res_bind (hpb_MtDecoder_PushOneof alloc_ok d item) (\<lambda>d.
         decode_oneofs_loop alloc_ok d ptr (item\<lparr>field_index := kHpb_LayoutItem_IndexSentinel\<rparr>)))"
      using PushOneof_inv [OF start "2.prems"]
    proof (rule outcome_bind)
      fix d' assume d': "hpb_MtDecoder_PushOneof alloc_ok d item = Inr d'" and "\<exists>o1. oneofs_done d0 d' (os @ [o1])"
      then show "outcome (\<lambda>(d', item'). \<exists>os'. oneofs_inv d0 d' os' item')
          (decode_oneofs_loop alloc_ok d' ptr (item\<lparr>field_index := kHpb_LayoutItem_IndexSentinel\<rparr>))"
        using "2.IH"(2) [OF push d'] oneofs_done_next off by blast
    qed
    then show ?thesis
      using push by (simp add: decode_oneofs_loop.simps)
  next
    case field
    have "outcome (\<lambda>(d', item'). \<exists>os'. oneofs_inv d0 d' os' item')
      (res_bind (hpb_MtDecoder_DecodeOneofField d ptr ch item) (\<lambda>(d, item, ptr).
         decode_oneofs_loop alloc_ok d ptr item))"
      by (rule outcome_bind [OF DecodeOneofField_outcome [OF start "2.prems"]])
        (use "2.IH"(3) [OF field] in auto)
    then show ?thesis
      using field by (simp add: decode_oneofs_loop.simps)
  qed
qed

lemma DecodeOneofs_outcome:
  assumes start: "oneof_start d0"
  shows "outcome (\<lambda>d'. \<exists>os. oneofs_done d0 d' os) (hpb_MtDecoder_DecodeOneofs alloc_ok d0 ptr)"
proof -
  have "oneofs_ok (platform d0) (d_fields d0) (d_fields d0) [([], FieldRep_1Byte)]"
    by (simp add: oneofs_ok_def oneof_ok_def)
  then have "oneofs_inv d0 d0 [] \<lparr>field_index = kHpb_LayoutItem_IndexSentinel, item_offset = 0,
      item_rep = FieldRep_1Byte, item_type = LayoutItemType_OneofCase\<rparr>"
    by (auto simp: oneofs_inv_def same_frame_def intro!: exI [of _ "[]"])
  from decode_oneofs_loop_outcome [OF start this] show ?thesis
    unfolding hpb_MtDecoder_DecodeOneofs_def
    by (rule outcome_bind) (auto elim!: outcome_mono [OF PushOneof_inv [OF start]])
qed

section \<open>The parse loop\<close>

definition numbers_dense :: "nat \<Rightarrow> hpb_MiniTableField list \<Rightarrow> bool" where
  "numbers_dense n fs \<longleftrightarrow> n \<le> length fs \<and> (\<forall>i<n. f_number (fs ! i) = of_nat (i + 1))"

definition parse_inv :: "hpb_MiniTablePlatform \<Rightarrow> nat \<Rightarrow> parse_state \<Rightarrow> bool" where
  "parse_inv p r s \<longleftrightarrow>
     (let d = p_dec s; fs = d_fields d in
      has_table d \<and> platform d = p \<and> length fs + r \<le> fields_cap d \<and> fields_cap d \<le> 65532 \<and> vec d = [] \<and>
      field_count (d_table d) = of_nat (length fs) \<and> list_all new_field_ok fs \<and>
      (has_last_field s \<longrightarrow> fs \<noteq> []) \<and>
      (need_dense_below s \<longrightarrow> dense_below (d_table d) = 0 \<and> last_field_number s = of_nat (length fs) \<and>
         numbers_dense (length fs) fs) \<and>
      numbers_dense (unat (dense_below (d_table d))) fs)"

lemma parse_inv_mono: "parse_inv p r s \<Longrightarrow> r' \<le> r \<Longrightarrow> parse_inv p r' s"
  by (auto simp: parse_inv_def Let_def)

lemma numbers_dense_append: "numbers_dense n fs \<Longrightarrow> numbers_dense n (fs @ [f])"
  by (auto simp: numbers_dense_def nth_append)

lemma numbers_dense_update:
  "f_number f = f_number (fs ! i) \<Longrightarrow> numbers_dense n fs \<Longrightarrow> numbers_dense n (fs[i := f])"
  by (cases "i < length fs") (auto simp: numbers_dense_def nth_list_update list_update_beyond)

lemma numbers_dense_snoc:
  "numbers_dense (length fs) fs \<Longrightarrow> f_number f = of_nat (length fs) + 1 \<Longrightarrow>
    numbers_dense (Suc (length fs)) (fs @ [f])"
  by (auto simp: numbers_dense_def nth_append less_Suc_eq)

lemma numbers_dense_le: "numbers_dense n fs \<Longrightarrow> m \<le> n \<Longrightarrow> numbers_dense m fs"
  by (auto simp: numbers_dense_def)

lemma parse_field_outcome:
  assumes inv: "parse_inv p (Suc r) s"
  shows "outcome (parse_inv p r) (parse_field mem s ch)"
proof -
  define d where "d = p_dec s"
  define num where "num = last_field_number s + 1"
  let ?n = "length (d_fields d)"
  have cap: "?n < fields_cap d"
    using inv by (simp add: parse_inv_def Let_def d_def)
  have "outcome (\<lambda>(f, _). f_number f = num \<and> new_field_ok f)
      (hpb_MiniTable_SetField (platform d) ch ((mem ?n)\<lparr>f_number := num\<rparr>) (msg_modifiers s) (sub_counts s))"
    using SetField_outcome [of "(mem ?n)\<lparr>f_number := num\<rparr>"] by simp
  then have "outcome (parse_inv p r)
    (res_bind (hpb_MiniTable_SetField (platform d) ch ((mem ?n)\<lparr>f_number := num\<rparr>) (msg_modifiers s) (sub_counts s))
       (\<lambda>(f, subs). Inr (s\<lparr>p_dec := d\<lparr>d_table := (d_table d)\<lparr>field_count := field_count (d_table d) + 1\<rparr>,
            d_fields := d_fields d @ [f]\<rparr>,
          last_field_number := num, has_last_field := True, sub_counts := subs\<rparr>)))"
    by (rule outcome_bind)
      (use inv in \<open>auto simp: parse_inv_def Let_def d_def num_def numbers_dense_append numbers_dense_snoc\<close>)
  then show ?thesis
    using cap by (simp add: parse_field_def Let_def d_def num_def)
qed

lemma parse_modifier_outcome:
  assumes inv: "parse_inv p r s"
  shows "outcome (\<lambda>(s', ptr'). parse_inv p r s' \<and> length ptr' \<le> length ptr) (parse_modifier s ptr ch)"
proof -
  have "outcome (\<lambda>(s', ptr'). parse_inv p r s' \<and> length ptr' \<le> length ptr)
      (hpb_MtDecoder_ParseModifier s ptr ch)"
    unfolding hpb_MtDecoder_ParseModifier_def
  proof (rule outcome_bind [OF DecodeBase92Varint_outcome], clarify)
    fix m ptr' assume ptr': "length ptr' \<le> length ptr"
    let ?d = "p_dec s" and ?i = "length (d_fields (p_dec s)) - 1"
    show "outcome (\<lambda>(s', ptr'). parse_inv p r s' \<and> length ptr' \<le> length ptr)
        (if has_last_field s
         then let d = ?d; i = length (d_fields d) - 1 in
           res_bind (hpb_MtDecoder_ModifyField m (d_fields d ! i))
             (\<lambda>f. Inr (s\<lparr>p_dec := d\<lparr>d_fields := (d_fields d)[i := f]\<rparr>\<rparr>, ptr'))
         else if \<not> has_table ?d then Inl ExtensionMessageModifiers
         else Inr (s\<lparr>msg_modifiers := ucast m\<rparr>, ptr'))"
    proof (cases "has_last_field s")
      case True
      then have i: "?i < length (d_fields ?d)"
        using inv by (auto simp: parse_inv_def Let_def)
      then have "new_field_ok (d_fields ?d ! ?i)"
        using inv by (auto simp: parse_inv_def Let_def list_all_length)
      then have "outcome (\<lambda>(s', ptr'). parse_inv p r s' \<and> length ptr' \<le> length ptr)
        (res_bind (hpb_MtDecoder_ModifyField m (d_fields ?d ! ?i))
             (\<lambda>f. Inr (s\<lparr>p_dec := ?d\<lparr>d_fields := (d_fields ?d)[?i := f]\<rparr>\<rparr>, ptr')))"
        by (rule outcome_bind [OF ModifyField_outcome])
          (use inv ptr' i in \<open>auto simp: parse_inv_def Let_def numbers_dense_update list_all_length
             nth_list_update\<close>)
      then show ?thesis
        using True by (simp add: Let_def)
    qed (use inv ptr' in \<open>auto simp: parse_inv_def Let_def\<close>)
  qed
  then show ?thesis
    unfolding parse_modifier_def
    by (rule outcome_bind) (clarsimp simp: parse_inv_def Let_def)
qed

lemma set_dense_below_inv:
  assumes inv: "parse_inv p r s"
  shows "parse_inv p r (set_dense_below s)" "\<not> need_dense_below (set_dense_below s)"
proof -
  have "unat (ucast (of_nat n :: u16) :: byte) \<le> n" for n :: nat
    by (simp add: unat_ucast_mod unat_of_nat mod_mod_cancel)
  then show "parse_inv p r (set_dense_below s)" "\<not> need_dense_below (set_dense_below s)"
    using inv by (auto simp: set_dense_below_def parse_inv_def Let_def intro: numbers_dense_le)
qed

lemma parse_skip_outcome:
  assumes inv: "parse_inv p r s"
  shows "outcome (\<lambda>(s', ptr'). parse_inv p r s' \<and> length ptr' \<le> length ptr) (parse_skip s ptr ch)"
  unfolding parse_skip_def Let_def
  by (rule outcome_bind [OF DecodeBase92Varint_outcome])
    (use set_dense_below_inv [OF inv] in \<open>auto simp: parse_inv_def Let_def\<close>)

text \<open>
  The state after parsing a whole descriptor: the oneofs \<open>os\<close> partition the fields that do not
  carry a presence class any more.
\<close>

definition layout_inv ::
  "hpb_MiniTablePlatform \<Rightarrow> hpb_MiniTableField list \<Rightarrow> (nat list \<times> hpb_FieldRep) list \<Rightarrow> bool" where
  "layout_inv p fs os \<longleftrightarrow> length fs \<le> 65532 \<and> distinct (concat (map fst os)) \<and>
     (\<forall>o1 \<in> set os. fst o1 \<noteq> [] \<and> chain_from fs (link_to (fst o1)) (fst o1) \<and>
        (\<forall>i \<in> set (fst o1). hpb_MtDecoder_SizeOfRep (hpb_MiniTableField_GetRep (fs ! i)) p
           \<le> hpb_MtDecoder_SizeOfRep (snd o1) p)) \<and>
     (\<forall>i < length fs. i \<notin> members os \<longrightarrow> unat (f_offset (fs ! i)) < 3)"

definition parsed :: "hpb_MtDecoder \<Rightarrow> bool" where
  "parsed d \<longleftrightarrow> has_table d \<and> field_count (d_table d) = of_nat (length (d_fields d)) \<and>
     list_all alternate_ok (d_fields d) \<and> numbers_dense (unat (dense_below (d_table d))) (d_fields d) \<and>
     (\<exists>os. layout_inv (platform d) (d_fields d) os \<and> vec d = concat (map oneof_items os))"

lemma layout_inv_cong:
  assumes "length fs' = length fs"
    "\<And>i. i < length fs \<Longrightarrow> f_offset (fs' ! i) = f_offset (fs ! i) \<and> f_mode (fs' ! i) = f_mode (fs ! i)"
    "layout_inv p fs os"
  shows "layout_inv p fs' os"
proof -
  have "chain_from fs' (link_to (fst o1)) (fst o1) \<and>
      (\<forall>i \<in> set (fst o1). hpb_MiniTableField_GetRep (fs' ! i) = hpb_MiniTableField_GetRep (fs ! i))"
    if "o1 \<in> set os" for o1
  proof -
    have c: "chain_from fs (link_to (fst o1)) (fst o1)"
      using assms(3) that by (simp add: layout_inv_def)
    then have "\<And>i. i \<in> set (fst o1) \<Longrightarrow> i < length fs"
      using chain_from_bound by blast
    then show ?thesis
      using c assms(1,2) by (auto simp: chain_from_cong [of fs' fs] hpb_MiniTableField_GetRep_def)
  qed
  then show ?thesis
    using assms by (simp add: layout_inv_def)
qed

lemma layout_inv_start:
  "length fs \<le> 65532 \<Longrightarrow> list_all new_field_ok fs \<Longrightarrow> layout_inv p fs []"
  by (simp add: layout_inv_def list_all_length new_field_ok_def)

lemma oneofs_done_layout:
  assumes "oneofs_done d0 d os" "length (d_fields d0) \<le> 65532" "list_all new_field_ok (d_fields d0)"
  shows "layout_inv (platform d) (d_fields d) os"
    and "list_all alternate_ok (d_fields d)"
    and "\<And>n. numbers_dense n (d_fields d0) \<Longrightarrow> numbers_dense n (d_fields d)"
    and "length (d_fields d) = length (d_fields d0)"
proof -
  have ok: "oneofs_ok (platform d0) (d_fields d0) (d_fields d) os" and plat: "platform d = platform d0"
    and ne: "\<forall>o1 \<in> set os. fst o1 \<noteq> []"
    using assms(1) by (simp_all add: oneofs_done_def same_frame_def)
  show len: "length (d_fields d) = length (d_fields d0)"
    using ok by (simp add: oneofs_ok_def)
  have eq: "d_fields d ! i = (d_fields d0 ! i)\<lparr>f_offset := f_offset (d_fields d ! i)\<rparr>"
    if "i < length (d_fields d0)" for i
    using ok that by (simp add: oneofs_ok_def)
  have same: "f_mode (d_fields d ! i) = f_mode (d_fields d0 ! i) \<and>
      f_number (d_fields d ! i) = f_number (d_fields d0 ! i) \<and>
      descriptortype (d_fields d ! i) = descriptortype (d_fields d0 ! i)"
    if "i < length (d_fields d0)" for i
    by (subst (1 2 3) eq [OF that]) simp
  show "numbers_dense n (d_fields d)" if "numbers_dense n (d_fields d0)" for n
    using that same len by (auto simp: numbers_dense_def)
  show "list_all alternate_ok (d_fields d)"
    using assms(3) same len by (auto simp: list_all_length new_field_ok_def alternate_ok_def)
  have "hpb_MiniTableField_GetRep (d_fields d ! i) = hpb_MiniTableField_GetRep (d_fields d0 ! i)"
    if "o1 \<in> set os" "i \<in> set (fst o1)" for o1 i
    using ok that same [of i] len chain_from_bound [of "d_fields d" "link_to (fst o1)" "fst o1" i]
    by (auto simp: oneofs_ok_def oneof_ok_def hpb_MiniTableField_GetRep_def)
  then show "layout_inv (platform d) (d_fields d) os"
    using ok assms(2,3) ne len
    by (auto simp: layout_inv_def oneofs_ok_def oneof_ok_def plat list_all_length new_field_ok_def)
qed

lemma parse_end_parsed:
  assumes inv: "parse_inv p r s" and done': "oneofs_done (p_dec s) d os"
  shows "parsed (p_dec (set_dense_below (s\<lparr>p_dec := d\<rparr>)))"
proof -
  have cap: "length (d_fields (p_dec s)) \<le> 65532" and ok: "list_all new_field_ok (d_fields (p_dec s))"
    using inv by (auto simp: parse_inv_def Let_def)
  note l = oneofs_done_layout [OF done' cap ok]
  have "unat (ucast (of_nat n :: u16) :: byte) \<le> n" for n :: nat
    by (simp add: unat_ucast_mod unat_of_nat mod_mod_cancel)
  then have "need_dense_below s \<Longrightarrow>
      numbers_dense (unat (ucast (field_count (d_table (p_dec s))) :: byte)) (d_fields d)"
    using inv l(3) by (auto simp: parse_inv_def Let_def intro: numbers_dense_le)
  then show ?thesis
    using inv l done'
    by (auto simp: parsed_def set_dense_below_def parse_inv_def Let_def oneofs_done_def same_frame_def)
qed

lemma parse_loop_outcome:
  "parse_inv p (length ptr) s \<Longrightarrow>
   outcome (\<lambda>(s', ptr'). parsed (p_dec s') \<and> platform (p_dec s') = p) (parse_loop alloc_ok mem s ptr)"
proof (induction alloc_ok mem s ptr rule: parse_loop.induct)
  case (1 alloc_ok mem s)
  have "oneofs_done (p_dec s) (p_dec s) []"
    by (simp add: oneofs_done_def same_frame_def oneofs_ok_def)
  from parse_end_parsed [OF 1 this] show ?case
    using 1 by (simp add: parse_loop.simps set_dense_below_def parse_inv_def Let_def)
next
  case (2 alloc_ok mem s ch ptr)
  let ?Q = "\<lambda>(s', ptr' :: byte list). parsed (p_dec s') \<and> platform (p_dec s') = p"
  have tbl: "has_table (p_dec s)"
    using "2.prems" by (simp add: parse_inv_def Let_def)
  have inv: "parse_inv p (Suc (length ptr)) s" "parse_inv p (length ptr) s"
    using "2.prems" parse_inv_mono [OF "2.prems", of "length ptr"] by simp_all
  consider (field) "schar ch \<le> schar kHpb_EncodedValue_MaxField"
    | (modifier) "\<not> schar ch \<le> schar kHpb_EncodedValue_MaxField"
        "schar kHpb_EncodedValue_MinModifier \<le> schar ch \<and> schar ch \<le> schar kHpb_EncodedValue_MaxModifier"
    | (oneofs) "\<not> schar ch \<le> schar kHpb_EncodedValue_MaxField"
        "\<not> (schar kHpb_EncodedValue_MinModifier \<le> schar ch \<and> schar ch \<le> schar kHpb_EncodedValue_MaxModifier)"
        "ch = kHpb_EncodedValue_End"
    | (skip) "\<not> schar ch \<le> schar kHpb_EncodedValue_MaxField"
        "\<not> (schar kHpb_EncodedValue_MinModifier \<le> schar ch \<and> schar ch \<le> schar kHpb_EncodedValue_MaxModifier)"
        "ch \<noteq> kHpb_EncodedValue_End"
        "schar kHpb_EncodedValue_MinSkip \<le> schar ch \<and> schar ch \<le> schar kHpb_EncodedValue_MaxSkip"
    | (bad) "\<not> schar ch \<le> schar kHpb_EncodedValue_MaxField"
        "\<not> (schar kHpb_EncodedValue_MinModifier \<le> schar ch \<and> schar ch \<le> schar kHpb_EncodedValue_MaxModifier)"
        "ch \<noteq> kHpb_EncodedValue_End"
        "\<not> (schar kHpb_EncodedValue_MinSkip \<le> schar ch \<and> schar ch \<le> schar kHpb_EncodedValue_MaxSkip)"
    by blast
  then show ?case
  proof cases
    case field
    have "outcome ?Q (res_bind (parse_field mem s ch) (\<lambda>s. parse_loop alloc_ok mem s ptr))"
      by (rule outcome_bind [OF parse_field_outcome [OF inv(1)]]) (use "2.IH"(1) field tbl in simp)
    then show ?thesis
      using field tbl by (simp add: parse_loop.simps(2))
  next
    case modifier
    have "outcome ?Q (res_bind (parse_modifier s ptr ch) (\<lambda>(s, ptr). parse_loop alloc_ok mem s ptr))"
      by (rule outcome_bind [OF parse_modifier_outcome [OF inv(2)]])
        (clarify, rule "2.IH"(2) [OF modifier _ refl], assumption, erule parse_inv_mono, assumption)
    then show ?thesis
      using modifier by (simp add: parse_loop.simps(2))
  next
    case oneofs
    have start: "oneof_start (p_dec s)"
      using inv(2) unat_of_nat_u16 [of "length (d_fields (p_dec s))"]
      by (auto simp: oneof_start_def parse_inv_def Let_def dense_prefix_def table_view_def numbers_dense_def)
    have "outcome ?Q (res_bind (hpb_MtDecoder_DecodeOneofs alloc_ok (p_dec s) ptr) (\<lambda>d.
             Inr (set_dense_below (s\<lparr>p_dec := d\<rparr>), [])))"
      by (rule outcome_bind [OF DecodeOneofs_outcome [OF start]])
        (use parse_end_parsed [OF inv(2)] inv(2) in \<open>auto simp: parse_inv_def Let_def oneofs_done_def
          same_frame_def set_dense_below_def\<close>)
    then show ?thesis
      using oneofs tbl by (auto simp: parse_loop.simps(2))
  next
    case skip
    have "outcome ?Q (res_bind (parse_skip s ptr ch) (\<lambda>(s, ptr). parse_loop alloc_ok mem s ptr))"
      by (rule outcome_bind [OF parse_skip_outcome [OF inv(2)]])
        (clarify, rule "2.IH"(3) [OF skip _ refl], assumption, erule parse_inv_mono, assumption)
    then show ?thesis
      using skip by (auto simp: parse_loop.simps(2))
  next
    case bad
    then show ?thesis
      by (auto simp: parse_loop.simps(2))
  qed
qed

lemma map_prefix_all: "length xs \<le> n \<Longrightarrow> map_prefix n g xs = map g xs"
  by (simp add: map_prefix_def)

lemma ParseMessage_outcome:
  assumes "has_table d" "vec d = []" "dense_below (d_table d) = 0" "length ptr \<le> 65532"
  shows "outcome (\<lambda>d'. parsed d' \<and> platform d' = platform d) (hpb_MtDecoder_ParseMessage alloc_ok mem d ptr)"
proof -
  let ?d = "d\<lparr>d_table := (d_table d)\<lparr>field_count := 0\<rparr>, d_fields := [], fields_cap := length ptr\<rparr>"
  let ?Q = "\<lambda>d'. parsed d' \<and> platform d' = platform d"
  have "parse_inv (platform d) (length ptr) (parse_start ?d)"
    using assms by (simp add: parse_inv_def parse_start_def numbers_dense_def)
  then have parse: "outcome (\<lambda>(d', _, _). ?Q d') (hpb_MtDecoder_Parse alloc_ok mem ?d ptr)"
    unfolding hpb_MtDecoder_Parse_def by (intro outcome_bind [OF parse_loop_outcome]) auto
  have alloc: "outcome ?Q (hpb_MtDecoder_AllocateSubs alloc_ok d' c)" if "?Q d'" for d' c
  proof -
    define fs' where "fs' = d_fields (d'\<lparr>d_fields := (if subenum_count c \<noteq> 0
      then map_prefix (unat (field_count (d_table d'))) (shift_enum_sub (submsg_count c)) (d_fields d')
      else d_fields d')\<rparr>)"
    have "length (d_fields d') \<le> unat (field_count (d_table d'))"
      using that unat_of_nat_u16 [of "length (d_fields d')"] by (auto simp: parsed_def layout_inv_def)
    then have "fs' = d_fields d' \<or> fs' = map (shift_enum_sub (submsg_count c)) (d_fields d')"
      by (simp add: fs'_def map_prefix_all)
    then have fs': "length fs' = length (d_fields d')"
      and same: "\<And>i. i < length (d_fields d') \<Longrightarrow> f_offset (fs' ! i) = f_offset (d_fields d' ! i) \<and>
        f_mode (fs' ! i) = f_mode (d_fields d' ! i) \<and> f_number (fs' ! i) = f_number (d_fields d' ! i) \<and>
        descriptortype (fs' ! i) = descriptortype (d_fields d' ! i)"
      by (auto simp: shift_enum_sub_def)
    have "layout_inv (platform d') fs' os" if "layout_inv (platform d') (d_fields d') os" for os
      using that same layout_inv_cong [OF fs'] by auto
    then have "\<exists>os. layout_inv (platform d') fs' os \<and> vec d' = concat (map oneof_items os)"
      using \<open>?Q d'\<close> unfolding parsed_def by blast
    then have "parsed (d'\<lparr>d_table := (d_table d')\<lparr>t_subs := alloc_subs c\<rparr>, d_fields := fs'\<rparr>)"
      using \<open>?Q d'\<close> same fs'
      by (auto simp: parsed_def list_all_length alternate_ok_def numbers_dense_def)
    then show ?thesis
      using \<open>?Q d'\<close> by (simp add: hpb_MtDecoder_AllocateSubs_def fs'_def)
  qed
  have "outcome ?Q (res_bind (hpb_MtDecoder_Parse alloc_ok mem ?d ptr)
      (\<lambda>(d, sub_counts, _). hpb_MtDecoder_AllocateSubs alloc_ok d sub_counts))"
    by (rule outcome_bind [OF parse]) (use alloc in auto)
  then show ?thesis
    by (simp add: hpb_MtDecoder_ParseMessage_def)
qed

end
