(* ===== verification/MtBuild.thy ===== *)
theory MtBuild
  imports MtParse
begin

text \<open>
  Building the table of a message: hasbits, the sorted layout items, offsets, and the layout
  that results.
\<close>

section \<open>Hasbits\<close>

abbreviation has_class :: "u16 \<Rightarrow> hpb_MiniTableField \<Rightarrow> bool" where
  "has_class k f \<equiv> f_offset f = k"

definition count_class :: "u16 \<Rightarrow> hpb_MiniTableField list \<Rightarrow> nat" where
  "count_class k fs = length (filter (has_class k) fs)"

lemma count_class_simps [simp]:
  "count_class k [] = 0"
  "count_class k (f # fs) = (if has_class k f then 1 else 0) + count_class k fs"
  by (simp_all add: count_class_def)

lemma assign_required_correct:
  "assign_required h fs = (fs', h') \<Longrightarrow> length fs' = length fs \<and> h' = h + count_class kRequiredPresence fs \<and>
     (\<forall>i < length fs. fs' ! i = (fs ! i)\<lparr>f_presence :=
        (if has_class kRequiredPresence (fs ! i) then of_nat (h + count_class kRequiredPresence (take i fs) + 1)
         else if has_class kNoPresence (fs ! i) then 0 else f_presence (fs ! i))\<rparr>)"
proof (induction h fs arbitrary: fs' h' rule: assign_required.induct)
  case (2 h f fs)
  then show ?case
    by (auto simp: Let_def nth_Cons less_Suc_eq_0_disj presence_class_defs algebra_simps
        split: prod.splits if_splits nat.splits)
qed simp

lemma assign_optional_correct:
  "assign_optional h fs = (fs', h') \<Longrightarrow> length fs' = length fs \<and> h' = h + count_class kHasbitPresence fs \<and>
     (\<forall>i < length fs. fs' ! i = (fs ! i)\<lparr>f_presence :=
        (if has_class kHasbitPresence (fs ! i) then of_nat (h + count_class kHasbitPresence (take i fs) + 1)
         else f_presence (fs ! i))\<rparr>)"
proof (induction h fs arbitrary: fs' h' rule: assign_optional.induct)
  case (2 h f fs)
  then show ?case
    by (auto simp: Let_def nth_Cons less_Suc_eq_0_disj presence_class_defs algebra_simps
        split: prod.splits if_splits nat.splits)
qed simp

text \<open>
  The hasbit of a field: the required fields come first, then the other fields with a hasbit,
  each group in field order; 0 means no hasbit.
\<close>

definition hasbit_index :: "hpb_MiniTableField list \<Rightarrow> nat \<Rightarrow> nat" where
  "hasbit_index fs i =
     (if has_class kRequiredPresence (fs ! i) then count_class kRequiredPresence (take i fs) + 1
      else if has_class kHasbitPresence (fs ! i)
      then count_class kRequiredPresence fs + count_class kHasbitPresence (take i fs) + 1
      else 0)"

definition hasbit_total :: "hpb_MiniTableField list \<Rightarrow> nat" where
  "hasbit_total fs = count_class kRequiredPresence fs + count_class kHasbitPresence fs"

definition hasbit_bytes :: "nat \<Rightarrow> nat" where
  "hasbit_bytes h = (if h = 0 then 0 else hpb_MiniTable_DivideRoundUp (h + 1) 8)"

lemma count_class_take_less:
  "i < length fs \<Longrightarrow> has_class k (fs ! i) \<Longrightarrow> count_class k (take i fs) < count_class k fs"
proof (induction fs arbitrary: i)
  case (Cons f fs)
  then show ?case
    by (cases i) auto
qed simp

lemma count_class_take_mono:
  "i < j \<Longrightarrow> j \<le> length fs \<Longrightarrow> has_class k (fs ! i) \<Longrightarrow> count_class k (take i fs) < count_class k (take j fs)"
  using count_class_take_less [of i "take j fs" k] by (simp add: min_def)

lemma hasbit_index_le: "i < length fs \<Longrightarrow> hasbit_index fs i \<le> hasbit_total fs"
  using count_class_take_less [of i fs]
  by (auto simp: hasbit_index_def hasbit_total_def Suc_le_eq add_strict_left_mono trans_less_add1)

lemma hasbit_index_inj:
  assumes "i < length fs" "j < length fs" "hasbit_index fs i = hasbit_index fs j" "hasbit_index fs i \<noteq> 0"
  shows "i = j"
proof -
  have less: "hasbit_index fs a \<noteq> hasbit_index fs b"
    if "a < b" "b < length fs" "hasbit_index fs a \<noteq> 0" "hasbit_index fs b \<noteq> 0" for a b
    using that count_class_take_mono [of a b fs] count_class_take_less [of a fs kRequiredPresence]
      count_class_take_less [of b fs kRequiredPresence]
    by (auto simp: hasbit_index_def split: if_splits)
  show ?thesis
    using assms less [of i j] less [of j i] by (cases i j rule: linorder_cases) auto
qed

lemma count_class_cong:
  "length fs' = length fs \<Longrightarrow> (\<And>i. i < length fs \<Longrightarrow> f_offset (fs' ! i) = f_offset (fs ! i)) \<Longrightarrow>
    count_class k fs' = count_class k fs"
proof -
  assume "length fs' = length fs" "\<And>i. i < length fs \<Longrightarrow> f_offset (fs' ! i) = f_offset (fs ! i)"
  then have "map f_offset fs' = map f_offset fs"
    by (simp add: list_eq_iff_nth_eq)
  moreover have "count_class k gs = length (filter (\<lambda>x. x = k) (map f_offset gs))" for gs
    by (induction gs) auto
  ultimately show ?thesis
    by metis
qed

lemma hasbits_both_passes:
  assumes r: "assign_required 0 fs = (fs1, h)" and q: "assign_optional h fs1 = (fs', h')"
  shows "length fs' = length fs" "h = count_class kRequiredPresence fs" "h' = hasbit_total fs"
    and "\<And>i. i < length fs \<Longrightarrow> fs' ! i = (fs ! i)\<lparr>f_presence :=
      (if unat (f_offset (fs ! i)) < 3 then of_nat (hasbit_index fs i) else f_presence (fs ! i))\<rparr>"
proof -
  note a = assign_required_correct [OF r] and b = assign_optional_correct [OF q]
  have off: "f_offset (fs1 ! i) = f_offset (fs ! i)" if "i < length fs" for i
    using a that by simp
  have cc: "count_class k (take i fs1) = count_class k (take i fs)" for k i
    using a off by (intro count_class_cong) simp_all
  show "length fs' = length fs" "h = count_class kRequiredPresence fs"
    using a b by simp_all
  show "h' = hasbit_total fs"
    using a b cc [of _ "length fs"] by (simp add: hasbit_total_def)
  show "fs' ! i = (fs ! i)\<lparr>f_presence :=
      (if unat (f_offset (fs ! i)) < 3 then of_nat (hasbit_index fs i) else f_presence (fs ! i))\<rparr>"
    if "i < length fs" for i
  proof -
    have "unat w < 3 \<longleftrightarrow> w = 0 \<or> w = 1 \<or> w = 2" for w :: u16
      by (auto simp: word_unat_eq_iff)
    then show ?thesis
      using a b that off cc by (auto simp: hasbit_index_def presence_class_defs)
  qed
qed

text \<open>The decoder after hasbits: \<open>d\<close> before, \<open>d'\<close> after.\<close>

definition hasbits_done :: "hpb_MtDecoder \<Rightarrow> hpb_MtDecoder \<Rightarrow> bool" where
  "hasbits_done d d' \<longleftrightarrow>
     (let fs = d_fields d in
      d' = d\<lparr>d_table := (d_table d)\<lparr>t_size := of_nat (hasbit_bytes (hasbit_total fs)),
               required_count := of_nat (count_class kRequiredPresence fs)\<rparr>,
             d_fields := d_fields d'\<rparr> \<and>
      length (d_fields d') = length fs \<and>
      (\<forall>i < length fs. d_fields d' ! i = (fs ! i)\<lparr>f_presence :=
         (if unat (f_offset (fs ! i)) < 3 then of_nat (hasbit_index fs i) else f_presence (fs ! i))\<rparr>))"

lemma AssignHasbits_correct:
  assumes "length (d_fields d) < 65536" "field_count (d_table d) = of_nat (length (d_fields d))"
  shows "if (of_nat (count_class kRequiredPresence (d_fields d)) :: byte) > 63
    then hpb_MtDecoder_AssignHasbits d = Inl TooManyRequired
    else \<exists>d'. hpb_MtDecoder_AssignHasbits d = Inr d' \<and> hasbits_done d d'"
proof -
  obtain fs1 h where r: "assign_required 0 (d_fields d) = (fs1, h)"
    by fastforce
  obtain fs' h' where q: "assign_optional h fs1 = (fs', h')"
    by fastforce
  note p = hasbits_both_passes [OF r q]
  have n: "unat (field_count (d_table d)) = length (d_fields d)"
    using assms by (simp add: unat_of_nat_u16)
  show ?thesis
    using r q p(1,4) unfolding hpb_MtDecoder_AssignHasbits_def n
    by (simp add: p(2,3) hasbits_done_def hasbit_bytes_def Let_def)
qed

section \<open>Layout items\<close>

definition field_item :: "nat \<Rightarrow> hpb_MiniTableField \<Rightarrow> hpb_LayoutItem" where
  "field_item i f = \<lparr>field_index = of_nat i, item_offset = 0, item_rep = hpb_MiniTableField_GetRep f,
     item_type = LayoutItemType_Field\<rparr>"

fun field_items :: "nat \<Rightarrow> hpb_MiniTableField list \<Rightarrow> hpb_LayoutItem list" where
  "field_items i [] = []"
| "field_items i (f # fs) =
     (if f_offset f \<ge> kOneofBase then field_items (i + 1) fs else field_item i f # field_items (i + 1) fs)"

lemma push_field_items_outcome:
  "outcome (\<lambda>d'. same_frame d d' \<and> d_fields d' = d_fields d \<and> vec d' = vec d @ field_items i fs)
     (push_field_items alloc_ok i fs d)"
proof (induction fs arbitrary: i d)
  case Nil
  then show ?case
    by (simp add: same_frame_def)
next
  case (Cons f fs)
  show ?case
  proof (cases "f_offset f \<ge> kOneofBase")
    case True
    then show ?thesis
      using Cons.IH [of d "i + 1"] by simp
  next
    case False
    have "outcome (\<lambda>d'. same_frame d d' \<and> d_fields d' = d_fields d \<and> vec d' = vec d @ field_items i (f # fs))
      (res_bind (hpb_MtDecoder_PushItem alloc_ok d (field_item i f)) (\<lambda>d. push_field_items alloc_ok (i + 1) fs d))"
      by (rule outcome_bind [OF PushItem_outcome], rule outcome_mono [OF Cons.IH])
        (use False in \<open>auto intro: same_frame_trans\<close>)
    then show ?thesis
      using False by (simp add: field_item_def)
  qed
qed

lemma field_items_set:
  "it \<in> set (field_items k fs) \<longleftrightarrow>
     (\<exists>i < length fs. unat (f_offset (fs ! i)) < 3 \<and> it = field_item (k + i) (fs ! i))"
proof (induction k fs rule: field_items.induct)
  case (2 k f fs)
  have "f_offset f \<ge> kOneofBase \<longleftrightarrow> \<not> unat (f_offset f) < 3"
    by (simp add: word_le_nat_alt kOneofBase_def not_less)
  then show ?case
    using 2 by (auto simp: less_Suc_eq_0_disj)
qed simp

lemma kHpb_bits: "nat (hpb_Log2Ceiling 2) = 1" "nat (hpb_Log2Ceiling 3) = 2"
  by code_simp+

lemma packed_key_eq:
  "packed_key item = (push_bit 17 (of_nat (kHpb_FieldRep (item_rep item))) OR
     push_bit 16 (of_nat (kHpb_LayoutItemType (item_type item)))) OR ucast (field_index item)"
  using kHpb_bits by (simp add: packed_key_def Let_def)

lemma packed_key_index: "ucast (packed_key item) = field_index item"
  by (rule bit_eqI) (simp add: packed_key_eq bit_simps)

lemma packed_key_type: "bit (packed_key item) 16 \<longleftrightarrow> item_type item = LayoutItemType_OneofField"
proof -
  have "\<not> bit (field_index item) 16"
    using bit_imp_le_length [of "field_index item" 16] by auto
  then show ?thesis
    by (cases "item_type item"; cases "item_rep item") (simp_all add: packed_key_eq bit_simps)
qed

lemma packed_key_inj:
  "packed_key a = packed_key b \<Longrightarrow> field_index a = field_index b \<and>
     (item_type a = LayoutItemType_OneofField \<longleftrightarrow> item_type b = LayoutItemType_OneofField)"
  by (metis packed_key_index packed_key_type)

definition layout_items ::
  "(nat list \<times> hpb_FieldRep) list \<Rightarrow> hpb_MiniTableField list \<Rightarrow> hpb_LayoutItem list" where
  "layout_items os fs = concat (map oneof_items os) @ field_items 0 fs"

lemma distinct_map_weaker:
  "distinct (map g xs) \<Longrightarrow> (\<And>a b. f a = f b \<Longrightarrow> g a = g b) \<Longrightarrow> distinct (map f xs)"
  unfolding distinct_map inj_on_def by blast

definition item_id :: "hpb_LayoutItem \<Rightarrow> u16 \<times> bool" where
  "item_id it = (field_index it, item_type it = LayoutItemType_OneofField)"

lemma of_nat_u16_inj: "i < 65536 \<Longrightarrow> j < 65536 \<Longrightarrow> (of_nat i :: u16) = of_nat j \<longleftrightarrow> i = j"
  by (metis unat_of_nat_u16)

lemma field_items_ids:
  "distinct (map item_id (field_items k fs))" if "k + length fs \<le> 65536"
  using that
proof (induction k fs rule: field_items.induct)
  case (2 k f fs)
  have "item_id it \<noteq> item_id (field_item k f)" if "it \<in> set (field_items (k + 1) fs)" for it
  proof -
    obtain i where "i < length fs" "it = field_item (k + 1 + i) (fs ! i)"
      using \<open>it \<in> set (field_items (k + 1) fs)\<close> by (auto simp: field_items_set)
    then show ?thesis
      using "2.prems" of_nat_u16_inj [of "k + 1 + i" k] by (simp add: item_id_def field_item_def)
  qed
  then show ?case
    using 2 by (cases "f_offset f \<ge> kOneofBase") fastforce+
qed simp

lemma oneof_items_ids:
  "distinct (concat (map fst os)) \<Longrightarrow> \<forall>o1 \<in> set os. fst o1 \<noteq> [] \<and> (\<forall>i \<in> set (fst o1). i < 65536) \<Longrightarrow>
   distinct (map item_id (concat (map oneof_items os)))"
proof (induction os)
  case (Cons o1 os)
  obtain i c where o1: "fst o1 = i # c"
    using Cons.prems(2) by (cases "fst o1") auto
  have "hd (fst o2) \<in> set (fst o2)" "hd (fst o2) < 65536" if "o2 \<in> set os" for o2
    using Cons.prems(2) that by auto
  moreover have "i \<notin> set (fst o2)" if "o2 \<in> set os" for o2
    using Cons.prems(1) that o1 by auto
  moreover have "i < 65536"
    using Cons.prems(2) o1 by simp
  ultimately have ne: "(of_nat (hd (fst o2)) :: u16) \<noteq> of_nat i" if "o2 \<in> set os" for o2
    using that by (metis of_nat_u16_inj)
  have "fst (item_id b) \<noteq> of_nat i" if "o2 \<in> set os" "b \<in> set (oneof_items o2)" for b o2
    using ne [OF that(1)] that(2) by (auto simp: oneof_items_def item_id_def)
  moreover have "fst (item_id a) = of_nat i" if "a \<in> set (oneof_items o1)" for a
    using that o1 by (auto simp: oneof_items_def item_id_def)
  ultimately have "item_id ` set (oneof_items o1) \<inter> item_id ` set (concat (map oneof_items os)) = {}"
    by fastforce
  moreover have "distinct (map item_id (oneof_items o1))"
    by (simp add: oneof_items_def item_id_def)
  moreover have "distinct (map item_id (concat (map oneof_items os)))"
    using Cons by simp
  ultimately show ?case
    by simp
qed simp

lemma layout_inv_member_bound:
  "layout_inv p fs os \<Longrightarrow> o1 \<in> set os \<Longrightarrow> i \<in> set (fst o1) \<Longrightarrow> i < length fs \<and> i < 65532"
  using chain_from_bound by (fastforce simp: layout_inv_def)

lemma layout_inv_member_offset:
  assumes "layout_inv p fs os" "i \<in> members os"
  shows "\<not> unat (f_offset (fs ! i)) < 3"
proof -
  obtain o1 where "o1 \<in> set os" "i \<in> set (fst o1)"
    using assms(2) by (auto simp: members_def)
  then show ?thesis
    using assms(1) chain_from_offset [of fs _ "fst o1" i] by (auto simp: layout_inv_def not_less)
qed

lemma layout_items_ids:
  assumes inv: "layout_inv p fs os"
  shows "distinct (map item_id (layout_items os fs))"
proof -
  have "\<forall>o1 \<in> set os. fst o1 \<noteq> [] \<and> (\<forall>i \<in> set (fst o1). i < 65536)"
    using inv layout_inv_member_bound [OF inv] by (fastforce simp: layout_inv_def)
  then have "distinct (map item_id (concat (map oneof_items os)))"
    using inv by (intro oneof_items_ids) (auto simp: layout_inv_def)
  moreover have "distinct (map item_id (field_items 0 fs))"
    using inv by (intro field_items_ids) (simp add: layout_inv_def)
  moreover have False if "o1 \<in> set os" "a \<in> set (oneof_items o1)" "i < length fs"
    "unat (f_offset (fs ! i)) < 3" "item_id a = item_id (field_item i (fs ! i))" for o1 a i
  proof -
    have "hd (fst o1) \<in> set (fst o1)"
      using inv that(1) by (auto simp: layout_inv_def)
    then have mem: "hd (fst o1) \<in> members os" and b: "hd (fst o1) < 65532"
      using that(1) layout_inv_member_bound [OF inv that(1)] by (auto simp: members_def)
    have "i < 65536"
      using inv that(3) by (simp add: layout_inv_def)
    then have "hd (fst o1) = i"
      using that(2,5) b of_nat_u16_inj [of "hd (fst o1)" i]
      by (auto simp: oneof_items_def field_item_def item_id_def)
    then show False
      using layout_inv_member_offset [OF inv mem] that(4) by simp
  qed
  ultimately show ?thesis
    by (fastforce simp: layout_items_def field_items_set)
qed

lemma layout_items_distinct_keys:
  "layout_inv p fs os \<Longrightarrow> distinct (map packed_key (layout_items os fs))"
  by (rule distinct_map_weaker [OF layout_items_ids]) (auto simp: item_id_def dest: packed_key_inj)

lemma SortLayoutItems_outcome:
  assumes "field_count (d_table d) = of_nat (length (d_fields d))" "layout_inv (platform d) (d_fields d) os"
    "vec d = concat (map oneof_items os)"
  shows "outcome (\<lambda>d'. same_frame d d' \<and> d_fields d' = d_fields d \<and>
      vec d' = sort_key packed_key (layout_items os (d_fields d))) (hpb_MtDecoder_SortLayoutItems alloc_ok d)"
proof -
  have n: "unat (field_count (d_table d)) = length (d_fields d)"
    using assms by (simp add: unat_of_nat_u16 layout_inv_def)
  show ?thesis
    unfolding hpb_MtDecoder_SortLayoutItems_def n
    by (rule outcome_bind [OF push_field_items_outcome])
      (use assms layout_items_distinct_keys [OF assms(2)] in \<open>auto simp: layout_items_def same_frame_def\<close>)
qed

section \<open>Offsets\<close>

definition chain_map :: "(nat list \<times> hpb_FieldRep) list \<Rightarrow> nat \<Rightarrow> nat list" where
  "chain_map os i = (case map_of (map (\<lambda>o1. (hd (fst o1), fst o1)) os) i of Some c \<Rightarrow> c | None \<Rightarrow> [])"

lemma chain_map_head:
  assumes "layout_inv p fs os" "o1 \<in> set os"
  shows "chain_map os (hd (fst o1)) = fst o1"
proof -
  have "distinct (concat (map fst os)) \<Longrightarrow> \<forall>o1 \<in> set os. fst o1 \<noteq> [] \<Longrightarrow> distinct (map (\<lambda>o1. hd (fst o1)) os)"
    for os :: "(nat list \<times> hpb_FieldRep) list"
  proof (induction os)
    case (Cons o1 os)
    have "hd (fst o1) \<noteq> hd (fst o2)" if "o2 \<in> set os" for o2
    proof -
      have "hd (fst o1) \<in> set (fst o1)" "hd (fst o2) \<in> set (fst o2)"
        using Cons.prems(2) that by auto
      then show ?thesis
        using Cons.prems(1) that by fastforce
    qed
    then show ?case
      using Cons by auto
  qed simp
  then have "distinct (map fst (map (\<lambda>o1. (hd (fst o1), fst o1)) os))"
    using assms(1) by (simp add: layout_inv_def comp_def)
  then have "map_of (map (\<lambda>o1. (hd (fst o1), fst o1)) os) (hd (fst o1)) = Some (fst o1)"
    using assms(2) by (intro map_of_is_SomeI) auto
  then show ?thesis
    by (simp add: chain_map_def)
qed

lemma layout_items_set:
  "it \<in> set (layout_items os fs) \<longleftrightarrow>
     (\<exists>o1 \<in> set os. it \<in> set (oneof_items o1)) \<or>
     (\<exists>i < length fs. unat (f_offset (fs ! i)) < 3 \<and> it = field_item i (fs ! i))"
  by (auto simp: layout_items_def field_items_set)

text \<open>What an unplaced item of the layout stands for.\<close>

lemma layout_item_cases:
  assumes inv: "layout_inv p fs os" and it: "it \<in> set (layout_items os fs)"
  obtains (oneof) o1 where "o1 \<in> set os" "it \<in> set (oneof_items o1)" "unat (field_index it) = hd (fst o1)"
      "chain_map os (unat (field_index it)) = fst o1" "is_chain (chain_map os) (length fs) (unat (field_index it)) fs"
    | (field) i where "i < length fs" "unat (f_offset (fs ! i)) < 3" "it = field_item i (fs ! i)"
      "unat (field_index it) = i" "i \<notin> members os"
proof -
  have n: "length fs \<le> 65532"
    using inv by (simp add: layout_inv_def)
  from it consider (a) o1 where "o1 \<in> set os" "it \<in> set (oneof_items o1)"
    | (b) i where "i < length fs" "unat (f_offset (fs ! i)) < 3" "it = field_item i (fs ! i)"
    by (auto simp: layout_items_set)
  then show thesis
  proof cases
    case a
    have ne: "fst o1 \<noteq> []" and ch: "chain_from fs (link_to (fst o1)) (fst o1)"
      using inv a(1) by (auto simp: layout_inv_def)
    then obtain i c where o1: "fst o1 = i # c"
      by (cases "fst o1") auto
    have b: "\<And>j. j \<in> set (fst o1) \<Longrightarrow> j < length fs" and i: "i < 65532"
      using layout_inv_member_bound [OF inv a(1)] o1 by auto
    have idx: "unat (field_index it) = hd (fst o1)"
      using a(2) i o1 by (auto simp: oneof_items_def unat_of_nat_u16)
    have "distinct (fst o1)"
      using inv a(1) by (auto simp: layout_inv_def distinct_concat_iff)
    then have "is_chain (chain_map os) (length fs) (unat (field_index it)) fs"
      using chain_map_head [OF inv a(1)] idx o1 ch b by (simp add: is_chain_def)
    then show thesis
      using oneof [OF a idx] chain_map_head [OF inv a(1)] idx by simp
  next
    case b
    then have "unat (field_index it) = i"
      using n by (simp add: field_item_def unat_of_nat_u16)
    moreover have "i \<notin> members os"
      using layout_inv_member_offset [OF inv] b(2) by blast
    ultimately show thesis
      using field b by blast
  qed
qed

lemma chains_disjoint:
  assumes "layout_inv p fs os" "o1 \<in> set os" "o2 \<in> set os" "hd (fst o1) \<noteq> hd (fst o2)"
  shows "set (fst o1) \<inter> set (fst o2) = {}"
proof -
  have "distinct (concat (map fst os))"
    using assms(1) by (simp add: layout_inv_def)
  moreover have "fst o1 \<noteq> fst o2"
    using assms(4) by auto
  ultimately show ?thesis
    using assms(2,3) by (auto simp: distinct_concat_iff)
qed

lemma oneof_items_case: 
  "it \<in> set (oneof_items o1) \<Longrightarrow> item_type it = LayoutItemType_OneofField \<or> item_type it = LayoutItemType_OneofCase"
  by (auto simp: oneof_items_def)

lemma layout_targets_disjoint:
  assumes inv: "layout_inv p fs os" and a: "a \<in> set (layout_items os fs)" and b: "b \<in> set (layout_items os fs)"
    and neq: "item_id a \<noteq> item_id b"
  shows "offset_targets (chain_map os) a \<inter> offset_targets (chain_map os) b = {}"
    and "case_targets (chain_map os) a \<inter> case_targets (chain_map os) b = {}"
proof -
  have idx: "field_index a = field_index b \<longleftrightarrow> unat (field_index a) = unat (field_index b)"
    by (simp add: word_unat_eq_iff)
  have mem: "set (fst o1) \<subseteq> members os" if "o1 \<in> set os" for o1
    using that by (auto simp: members_def)
  have "offset_targets (chain_map os) a \<inter> offset_targets (chain_map os) b = {} \<and>
      case_targets (chain_map os) a \<inter> case_targets (chain_map os) b = {}"
  using inv a
  proof (cases rule: layout_item_cases)
    case o1: (oneof o1)
    show ?thesis
    using inv b
    proof (cases rule: layout_item_cases)
      case o2: (oneof o2)
      show ?thesis
      proof (cases "field_index a = field_index b")
        case True
        then have "item_type a = LayoutItemType_OneofCase \<and> item_type b = LayoutItemType_OneofField \<or>
            item_type a = LayoutItemType_OneofField \<and> item_type b = LayoutItemType_OneofCase"
          using neq oneof_items_case [OF o1(2)] oneof_items_case [OF o2(2)] by (auto simp: item_id_def)
        then show ?thesis
          by (auto simp: offset_targets_def case_targets_def)
      next
        case False
        then have "set (fst o1) \<inter> set (fst o2) = {}"
          using idx o1(3) o2(3) chains_disjoint [OF inv o1(1) o2(1)] by simp
        then show ?thesis
          using oneof_items_case [OF o1(2)] oneof_items_case [OF o2(2)]
          by (auto simp: offset_targets_def case_targets_def o1(4) o2(4))
      qed
    next
      case (field i)
      then show ?thesis
        using o1 mem [OF o1(1)] oneof_items_case [OF o1(2)]
        by (auto simp: offset_targets_def case_targets_def field_item_def split: hpb_LayoutItemType.splits)
    qed
  next
    case f1: (field i)
    show ?thesis
    using inv b
    proof (cases rule: layout_item_cases)
      case o2: (oneof o2)
      then show ?thesis
        using f1 mem [OF o2(1)] oneof_items_case [OF o2(2)]
        by (auto simp: offset_targets_def case_targets_def field_item_def split: hpb_LayoutItemType.splits)
    next
      case f2: (field j)
      have ty: "item_type a = LayoutItemType_Field" "item_type b = LayoutItemType_Field"
        using f1(3) f2(3) by (simp_all add: field_item_def)
      then have "field_index a \<noteq> field_index b"
        using neq by (auto simp: item_id_def)
      then show ?thesis
        using idx ty by (simp add: offset_targets_def case_targets_def)
    qed
  qed
  then show "offset_targets (chain_map os) a \<inter> offset_targets (chain_map os) b = {}"
    "case_targets (chain_map os) a \<inter> case_targets (chain_map os) b = {}"
    by simp_all
qed

text \<open>
  The outcome of the last three passes. \<open>fs\<close> are the fields before and \<open>fs'\<close> after them,
  \<open>items\<close> the placed items between the end of the hasbits \<open>lo\<close> and the size \<open>sz\<close>.
\<close>

definition final_layout ::
  "hpb_MiniTablePlatform \<Rightarrow> nat \<Rightarrow> nat \<Rightarrow> hpb_LayoutItem list \<Rightarrow> (nat list \<times> hpb_FieldRep) list \<Rightarrow>
   hpb_MiniTableField list \<Rightarrow> hpb_MiniTableField list \<Rightarrow> bool" where
  "final_layout p lo sz items os fs fs' \<longleftrightarrow>
     placed_between p lo sz items \<and> unplaced ` set items = set (layout_items os fs) \<and>
     distinct (map item_id items) \<and> length fs' = length fs \<and>
     (\<forall>i < length fs. fs' ! i = (fs ! i)\<lparr>f_offset := f_offset (fs' ! i), f_presence := f_presence (fs' ! i)\<rparr> \<and>
        (i \<notin> members os \<longrightarrow> f_presence (fs' ! i) = f_presence (fs ! i))) \<and>
     (\<forall>it \<in> set items. \<forall>i \<in> offset_targets (chain_map os) it. f_offset (fs' ! i) = item_offset it) \<and>
     (\<forall>it \<in> set items. \<forall>i \<in> case_targets (chain_map os) it. f_presence (fs' ! i) = NOT (item_offset it))"

lemma item_id_unplaced [simp]: "item_id (unplaced it) = item_id it"
  by (simp add: item_id_def unplaced_def)

lemma targets_unplaced [simp]:
  "offset_targets C (unplaced it) = offset_targets C it" "case_targets C (unplaced it) = case_targets C it"
  by (simp_all add: offset_targets_def case_targets_def unplaced_def split: hpb_LayoutItemType.split)

lemma valid_unplaced [simp]:
  "case_valid C n (unplaced it) fs = case_valid C n it fs"
  "offset_valid C n (unplaced it) fs = offset_valid C n it fs"
  by (simp_all add: case_valid_def offset_valid_def unplaced_def)

lemma layout_items_unplaced: "it \<in> set (layout_items os fs) \<Longrightarrow> unplaced it = it"
  by (auto simp: layout_items_set oneof_items_def field_item_def unplaced_def)

lemma is_chain_cong:
  assumes "length fs' = length fs" "\<And>j. j < length fs \<Longrightarrow> f_offset (fs' ! j) = f_offset (fs ! j)"
    "is_chain C n i fs"
  shows "is_chain C n i fs'"
proof -
  have "j < length fs" if "j \<in> set (C i)" for j
    using assms(3) that by (auto simp: is_chain_def)
  then have "chain_from fs' h (C i) = chain_from fs h (C i)" for h
    using assms(1,2) by (intro chain_from_cong) auto
  then show ?thesis
    using assms(1,3) by (simp add: is_chain_def)
qed

lemma offset_valid_cong:
  "length fs' = length fs \<Longrightarrow> (\<And>j. j < length fs \<Longrightarrow> f_offset (fs' ! j) = f_offset (fs ! j)) \<Longrightarrow>
    offset_valid C n it fs \<Longrightarrow> offset_valid C n it fs'"
  using is_chain_cong [of fs' fs C n] by (auto simp: offset_valid_def)

lemma sorted_wrt_distinct:
  assumes "distinct (map g xs)" "\<And>a b. a \<in> set xs \<Longrightarrow> b \<in> set xs \<Longrightarrow> g a \<noteq> g b \<Longrightarrow> R a b"
  shows "sorted_wrt R xs"
  using assms by (induction xs) auto

lemma targets_members:
  assumes inv: "layout_inv p fs os" and it: "it \<in> set (layout_items os fs)"
  shows "case_targets (chain_map os) it \<subseteq> members os"
  using inv it
proof (cases rule: layout_item_cases)
  case (oneof o1)
  then show ?thesis
    by (auto simp: case_targets_def members_def)
next
  case (field i)
  then show ?thesis
    by (simp add: case_targets_def field_item_def)
qed

lemma layout_items_valid:
  assumes inv: "layout_inv p fs os" and it: "it \<in> set (layout_items os fs)"
  shows "case_valid (chain_map os) (length fs) it fs" "offset_valid (chain_map os) (length fs) it fs"
proof -
  have "case_valid (chain_map os) (length fs) it fs \<and> offset_valid (chain_map os) (length fs) it fs"
    using inv it
  proof (cases rule: layout_item_cases)
    case (oneof o1)
    then show ?thesis
      using oneof_items_case [OF oneof(2)] by (auto simp: case_valid_def offset_valid_def)
  next
    case (field i)
    moreover have "item_type it = LayoutItemType_Field"
      by (simp add: field(3) field_item_def)
    ultimately show ?thesis
      by (simp add: case_valid_def offset_valid_def)
  qed
  then show "case_valid (chain_map os) (length fs) it fs" "offset_valid (chain_map os) (length fs) it fs"
    by simp_all
qed

text \<open>The two passes over placed items.\<close>

lemma passes_correct:
  assumes inv: "layout_inv p fs os" and un: "unplaced ` set items = set (layout_items os fs)"
    and ids: "distinct (map item_id items)" and placed: "placed_between p lo sz items"
  shows "\<exists>fs1 fs'. assign_cases (length fs) items fs = Inr fs1 \<and> assign_offsets items fs1 = Inr fs' \<and>
    final_layout p lo sz items os fs fs'"
proof -
  let ?C = "chain_map os"
  have in_un: "unplaced it \<in> set (layout_items os fs)" if "it \<in> set items" for it
    using un that by blast
  have valid: "case_valid ?C (length fs) it fs" "offset_valid ?C (length fs) it fs" if "it \<in> set items" for it
    using layout_items_valid [OF inv in_un [OF that]] by simp_all
  have disj: "sorted_wrt (\<lambda>a b. case_targets ?C a \<inter> case_targets ?C b = {}) items"
    "sorted_wrt (\<lambda>a b. offset_targets ?C a \<inter> offset_targets ?C b = {}) items"
    using layout_targets_disjoint [OF inv in_un in_un] by (simp_all add: sorted_wrt_distinct [OF ids])
  obtain fs1 where fs1: "assign_cases (length fs) items fs = Inr fs1" "length fs1 = length fs"
    and c1: "\<And>it j. it \<in> set items \<Longrightarrow> j \<in> case_targets ?C it \<Longrightarrow>
      fs1 ! j = (fs ! j)\<lparr>f_presence := NOT (item_offset it)\<rparr>"
    and f1: "\<And>j. j < length fs \<Longrightarrow> \<forall>it \<in> set items. j \<notin> case_targets ?C it \<Longrightarrow> fs1 ! j = fs ! j"
    using case_pass.pass_correct [of items ?C "length fs" fs] valid(1) disj(1)
    by (auto simp: assign_cases_fold)
  have p1: "fs1 ! j = (fs ! j)\<lparr>f_presence := f_presence (fs1 ! j)\<rparr>" if "j < length fs" for j
    using c1 [of _ j] f1 [OF that] by (cases "\<exists>it \<in> set items. j \<in> case_targets ?C it") auto
  then have off1: "f_offset (fs1 ! j) = f_offset (fs ! j)" if "j < length fs" for j
    using that by (metis hpb_MiniTableField.select_convs(2) hpb_MiniTableField.surjective hpb_MiniTableField.update_convs(3))
  obtain fs' where fs': "assign_offsets items fs1 = Inr fs'" "length fs' = length fs"
    and c2: "\<And>it j. it \<in> set items \<Longrightarrow> j \<in> offset_targets ?C it \<Longrightarrow>
      fs' ! j = (fs1 ! j)\<lparr>f_offset := item_offset it\<rparr>"
    and f2: "\<And>j. j < length fs \<Longrightarrow> \<forall>it \<in> set items. j \<notin> offset_targets ?C it \<Longrightarrow> fs' ! j = fs1 ! j"
    using offset_pass.pass_correct [of items ?C "length fs" fs1] disj(2) fs1(2)
      offset_valid_cong [OF fs1(2) off1 valid(2)] by (auto simp: assign_offsets_fold)
  have p2: "fs' ! j = (fs1 ! j)\<lparr>f_offset := f_offset (fs' ! j)\<rparr>" if "j < length fs" for j
    using c2 [of _ j] f2 [OF that] by (cases "\<exists>it \<in> set items. j \<in> offset_targets ?C it") auto
  have pres: "f_presence (fs' ! j) = f_presence (fs1 ! j)" if "j < length fs" for j
    by (subst p2 [OF that]) simp
  have "fs' ! j = (fs ! j)\<lparr>f_offset := f_offset (fs' ! j), f_presence := f_presence (fs' ! j)\<rparr>"
    if "j < length fs" for j
    unfolding pres [OF that] by (subst p2 [OF that], subst p1 [OF that]) simp
  moreover have "f_presence (fs' ! j) = f_presence (fs ! j)" if "j < length fs" "j \<notin> members os" for j
    using f1 [OF that(1)] targets_members [OF inv in_un] that(2) pres [OF that(1)] by fastforce
  moreover have "f_offset (fs' ! j) = item_offset it" if "it \<in> set items" "j \<in> offset_targets ?C it" for it j
    using c2 [OF that] by simp
  moreover have "f_presence (fs' ! j) = NOT (item_offset it)" if "it \<in> set items" "j \<in> case_targets ?C it" for it j
    using c1 [OF that] pres case_pass.valid_bound [OF valid(1) [OF that(1)]] that(2) by auto
  ultimately have "final_layout p lo sz items os fs fs'"
    using placed un ids fs'(2) by (simp add: final_layout_def)
  then show ?thesis
    using fs1(1) fs'(1) by blast
qed

lemma AssignOffsets_outcome:
  assumes inv: "layout_inv (platform d) (d_fields d) os"
    and n: "field_count (d_table d) = of_nat (length (d_fields d))"
    and items: "vec d = sort_key packed_key (layout_items os (d_fields d))"
  shows "outcome (\<lambda>d'. \<exists>sz. sz \<le> 65535 \<and> unat (t_size (d_table d)) \<le> sz \<and>
      d' = d\<lparr>d_table := (d_table d)\<lparr>t_size := of_nat (align_up sz 8)\<rparr>, d_fields := d_fields d', vec := vec d'\<rparr> \<and>
      final_layout (platform d) (unat (t_size (d_table d))) sz (vec d') os (d_fields d) (d_fields d'))
    (hpb_MtDecoder_AssignOffsets d)"
proof (cases "place_items d (vec d)")
  case (Inl e)
  have "place_items d xs = Inl e \<Longrightarrow> \<not> fault e" for d xs
    by (induction xs arbitrary: d)
      (auto simp: res_bind_def hpb_MtDecoder_Place_def Let_def split: sum.splits if_splits prod.splits)
  then show ?thesis
    using Inl by (simp add: hpb_MtDecoder_AssignOffsets_def)
next
  case (Inr r)
  obtain d1 its where r: "place_items d (vec d) = Inr (d1, its)"
    using Inr by (cases r) auto
  let ?fs = "d_fields d" and ?C = "chain_map os"
  obtain x where d1: "d1 = d\<lparr>d_table := (d_table d)\<lparr>t_size := x\<rparr>\<rparr>"
    using place_items_Inr [OF r] by blast
  have un: "map unplaced its = map unplaced (vec d)" and lo: "unat (t_size (d_table d)) \<le> unat x"
    and placed: "placed_between (platform d) (unat (t_size (d_table d))) (unat x) its"
    using place_items_Inr [OF r] by (simp_all add: d1)
  have vecs: "map unplaced (vec d) = vec d"
    using layout_items_unplaced by (auto simp: items intro!: map_idI)
  have "unplaced ` set its = set (layout_items os ?fs)"
    using arg_cong [OF un [unfolded vecs], of set] by (simp add: items)
  moreover have "map item_id its = map item_id (vec d)"
    using arg_cong [OF un, of "map item_id"] by (simp add: comp_def)
  then have "distinct (map item_id its)"
    using layout_items_ids [OF inv] by (simp add: items distinct_map)
  ultimately obtain fs1 fs' where pass: "assign_cases (length ?fs) its ?fs = Inr fs1"
      "assign_offsets its fs1 = Inr fs'"
    and fin: "final_layout (platform d) (unat (t_size (d_table d))) (unat x) its os ?fs fs'"
    using passes_correct [OF inv _ _ placed] by blast
  have "unat (field_count (d_table d)) = length ?fs"
    using inv n by (simp add: unat_of_nat_u16 layout_inv_def)
  then have "hpb_MtDecoder_AssignOffsets d = Inr (d\<lparr>d_table := (d_table d)\<lparr>t_size :=
      of_nat (align_up (unat x) 8)\<rparr>, d_fields := fs', vec := its\<rparr>)"
    using r pass by (simp add: hpb_MtDecoder_AssignOffsets_def d1)
  moreover have "unat x \<le> 65535"
    using unsigned_less [of x, where 'a = nat] by simp
  ultimately show ?thesis
    using lo fin by (auto intro!: exI [of _ "unat x"])
qed

end
