(* ===== verification/MtTable.thy ===== *)
theory MtTable
  imports MtBuild
begin

text \<open>
  The theorems on \<open>hpb_MiniTable_Build\<close>: it never faults, and the layout of the tables it
  builds.
\<close>

section \<open>Reading the final layout\<close>

definition field_bytes :: "hpb_MiniTablePlatform \<Rightarrow> hpb_MiniTableField \<Rightarrow> nat set" where
  "field_bytes p f =
     {unat (f_offset f)..<unat (f_offset f) + hpb_MtDecoder_SizeOfRep (hpb_MiniTableField_GetRep f) p}"

lemma final_layout_same_rep:
  assumes "final_layout p lo sz items os fs fs'" "i < length fs"
  shows "hpb_MiniTableField_GetRep (fs' ! i) = hpb_MiniTableField_GetRep (fs ! i)"
proof -
  have "fs' ! i = (fs ! i)\<lparr>f_offset := f_offset (fs' ! i), f_presence := f_presence (fs' ! i)\<rparr>"
    using assms by (simp add: final_layout_def)
  then have "f_mode (fs' ! i) = f_mode (fs ! i)"
    by (metis hpb_MiniTableField.select_convs(6) hpb_MiniTableField.surjective
        hpb_MiniTableField.update_convs(2,3))
  then show ?thesis
    by (simp add: hpb_MiniTableField_GetRep_def)
qed

lemma unplaced_eqD:
  "unplaced it = u \<Longrightarrow> field_index it = field_index u \<and> item_rep it = item_rep u \<and> item_type it = item_type u"
  by (auto simp: unplaced_def)

text \<open>The item that holds a field, and the case item of a oneof member.\<close>

lemma final_layout_slot:
  assumes inv: "layout_inv p fs os" and fin: "final_layout p lo sz items os fs fs'" and i: "i < length fs"
  obtains it where "it \<in> set items" "i \<in> offset_targets (chain_map os) it" "f_offset (fs' ! i) = item_offset it"
    "hpb_MtDecoder_SizeOfRep (hpb_MiniTableField_GetRep (fs' ! i)) p \<le> item_size p it"
    "i \<notin> members os \<Longrightarrow> item_rep it = hpb_MiniTableField_GetRep (fs' ! i)"
    "item_type it = LayoutItemType_OneofField \<longleftrightarrow> i \<in> members os"
proof -
  have un: "unplaced ` set items = set (layout_items os fs)"
    and off: "\<And>it i. it \<in> set items \<Longrightarrow> i \<in> offset_targets (chain_map os) it \<Longrightarrow> f_offset (fs' ! i) = item_offset it"
    using fin by (simp_all add: final_layout_def)
  have n: "i < 65536"
    using inv i by (simp add: layout_inv_def)
  show thesis
  proof (cases "i \<in> members os")
    case True
    then obtain o1 where o1: "o1 \<in> set os" "i \<in> set (fst o1)"
      by (auto simp: members_def)
    define u where "u = \<lparr>field_index = of_nat (hd (fst o1)), item_offset = 0, item_rep = snd o1,
       item_type = LayoutItemType_OneofField\<rparr>"
    have "u \<in> set (layout_items os fs)"
      using o1(1) by (auto simp: layout_items_set oneof_items_def u_def)
    then obtain it where it: "it \<in> set items" "unplaced it = u"
      using un by (metis imageE)
    have "hd (fst o1) \<in> set (fst o1)"
      using o1(2) by (cases "fst o1") auto
    then have "unat (field_index u) = hd (fst o1)"
      using layout_inv_member_bound [OF inv o1(1), of "hd (fst o1)"] by (simp add: u_def unat_of_nat_u16)
    then have tg: "i \<in> offset_targets (chain_map os) it"
      using o1(2) chain_map_head [OF inv o1(1)] targets_unplaced(1) [of "chain_map os" it] it(2)
      by (simp add: offset_targets_def u_def)
    have "item_rep it = snd o1" "item_type it = LayoutItemType_OneofField"
      using unplaced_eqD [OF it(2)] by (simp_all add: u_def)
    moreover have "hpb_MtDecoder_SizeOfRep (hpb_MiniTableField_GetRep (fs ! i)) p \<le> hpb_MtDecoder_SizeOfRep (snd o1) p"
      using inv o1 by (auto simp: layout_inv_def)
    ultimately show thesis
      using that [OF it(1) tg off [OF it(1) tg]] final_layout_same_rep [OF fin i] True by simp
  next
    case False
    define u where "u = field_item i (fs ! i)"
    have "unat (f_offset (fs ! i)) < 3"
      using inv i False by (simp add: layout_inv_def)
    then have "u \<in> set (layout_items os fs)"
      using i by (auto simp: layout_items_set u_def)
    then obtain it where it: "it \<in> set items" "unplaced it = u"
      using un by (metis imageE)
    have tg: "i \<in> offset_targets (chain_map os) it"
      using unplaced_eqD [OF it(2)] n
      by (simp add: offset_targets_def u_def field_item_def unat_of_nat_u16)
    have "item_rep it = hpb_MiniTableField_GetRep (fs ! i)" "item_type it = LayoutItemType_Field"
      using unplaced_eqD [OF it(2)] by (simp_all add: u_def field_item_def)
    then show thesis
      using that [OF it(1) tg off [OF it(1) tg]] final_layout_same_rep [OF fin i] False by simp
  qed
qed

lemma final_layout_case:
  assumes inv: "layout_inv p fs os" and fin: "final_layout p lo sz items os fs fs'" and i: "i \<in> members os"
  obtains it where "it \<in> set items" "item_type it = LayoutItemType_OneofCase" "item_rep it = FieldRep_4Byte"
    "f_presence (fs' ! i) = NOT (item_offset it)" "i \<in> case_targets (chain_map os) it"
proof -
  have un: "unplaced ` set items = set (layout_items os fs)"
    and pres: "\<And>it i. it \<in> set items \<Longrightarrow> i \<in> case_targets (chain_map os) it \<Longrightarrow> f_presence (fs' ! i) = NOT (item_offset it)"
    using fin by (simp_all add: final_layout_def)
  obtain o1 where o1: "o1 \<in> set os" "i \<in> set (fst o1)"
    using i by (auto simp: members_def)
  define u where "u = \<lparr>field_index = of_nat (hd (fst o1)), item_offset = 0, item_rep = FieldRep_4Byte,
     item_type = LayoutItemType_OneofCase\<rparr>"
  have "u \<in> set (layout_items os fs)"
    using o1(1) by (auto simp: layout_items_set oneof_items_def u_def)
  then obtain it where it: "it \<in> set items" "unplaced it = u"
    using un by (metis imageE)
  have "hd (fst o1) \<in> set (fst o1)"
    using o1(2) by (cases "fst o1") auto
  then have "unat (field_index u) = hd (fst o1)"
    using layout_inv_member_bound [OF inv o1(1), of "hd (fst o1)"] by (simp add: u_def unat_of_nat_u16)
  then have tg: "i \<in> case_targets (chain_map os) it"
    using o1(2) chain_map_head [OF inv o1(1)] targets_unplaced(2) [of "chain_map os" it] it(2)
    by (simp add: case_targets_def u_def)
  show thesis
    using that [OF it(1) _ _ pres [OF it(1) tg] tg] unplaced_eqD [OF it(2)] by (simp add: u_def)
qed

lemma placed_disjoint:
  assumes "placed_between p lo sz items" "distinct (map item_id items)" "a \<in> set items" "b \<in> set items"
    "item_id a \<noteq> item_id b"
  shows "item_bytes p a \<inter> item_bytes p b = {}"
proof -
  have "sorted_wrt (\<lambda>a b. unat (item_offset a) + item_size p a \<le> unat (item_offset b)) items"
    using assms(1) by (simp add: placed_between_def)
  then have "unat (item_offset a) + item_size p a \<le> unat (item_offset b) \<or>
      unat (item_offset b) + item_size p b \<le> unat (item_offset a)"
    using assms(3-5) by (induction items) auto
  then show ?thesis
    by (auto simp: item_bytes_def)
qed

lemma placed_bytes: "placed_between p lo sz items \<Longrightarrow> a \<in> set items \<Longrightarrow> item_bytes p a \<subseteq> {lo..<sz}"
  by (auto simp: placed_between_def item_bytes_def)

section \<open>The layout of a message\<close>

text \<open>
  The layout promised for a message type: \<open>M\<close> are the members of oneofs, \<open>hb\<close> the number of
  bytes of hasbits and \<open>sz\<close> the end of the last field or case slot. The recorded size is a
  16-bit number: an end above 65528 rounds up to 65536 and is recorded as 0. Presence is a
  signed 16-bit number in the code, whose sign tells a hasbit from a case slot; the sign is the
  right one while the field count is below 32768 and the end at most 32768.
\<close>

definition layout_within :: "hpb_MiniTablePlatform \<Rightarrow> nat \<Rightarrow> nat \<Rightarrow> hpb_MiniTableField list \<Rightarrow> bool" where
  "layout_within p hb sz fs \<longleftrightarrow> (\<forall>f \<in> set fs. field_bytes p f \<subseteq> {hb..<sz})"

definition layout_disjoint :: "hpb_MiniTablePlatform \<Rightarrow> nat set \<Rightarrow> hpb_MiniTableField list \<Rightarrow> bool" where
  "layout_disjoint p M fs \<longleftrightarrow>
     (\<forall>i < length fs. \<forall>j < length fs. i \<noteq> j \<longrightarrow> field_bytes p (fs ! i) \<inter> field_bytes p (fs ! j) = {} \<or>
        i \<in> M \<and> j \<in> M \<and> f_offset (fs ! i) = f_offset (fs ! j) \<and> f_presence (fs ! i) = f_presence (fs ! j))"

definition layout_hasbits :: "nat set \<Rightarrow> nat \<Rightarrow> hpb_MiniTableField list \<Rightarrow> bool" where
  "layout_hasbits M hb fs \<longleftrightarrow>
     (\<forall>i < length fs. i \<notin> M \<longrightarrow> f_presence (fs ! i) = 0 \<or>
        unat (f_presence (fs ! i)) < 8 * hb \<and> unat (f_presence (fs ! i)) \<le> length fs \<and>
        (\<forall>j < length fs. j \<notin> M \<longrightarrow> f_presence (fs ! j) = f_presence (fs ! i) \<longrightarrow> j = i))"

definition layout_cases :: "hpb_MiniTablePlatform \<Rightarrow> nat set \<Rightarrow> nat \<Rightarrow> nat \<Rightarrow> hpb_MiniTableField list \<Rightarrow> bool" where
  "layout_cases p M hb sz fs \<longleftrightarrow>
     (\<forall>i \<in> M. i < length fs \<and> (\<exists>c. f_presence (fs ! i) = NOT (of_nat c) \<and> 4 dvd c \<and> hb \<le> c \<and> c + 4 \<le> sz \<and>
        (\<forall>f \<in> set fs. {c..<c + 4} \<inter> field_bytes p f = {})))"

definition layout_signs :: "nat set \<Rightarrow> nat \<Rightarrow> hpb_MiniTableField list \<Rightarrow> bool" where
  "layout_signs M sz fs \<longleftrightarrow>
     (length fs < 32768 \<and> sz \<le> 32768 \<longrightarrow> (\<forall>i < length fs. i \<in> M \<longleftrightarrow> sint (f_presence (fs ! i)) < 0))"

definition layout_end :: "nat \<Rightarrow> nat \<Rightarrow> hpb_MiniTableField list \<Rightarrow> bool" where
  "layout_end hb sz fs \<longleftrightarrow> sz = hb \<or> (\<exists>f \<in> set fs. sz \<le> unat (f_offset f) + 16) \<or>
     (\<exists>f \<in> set fs. f_presence f = NOT (of_nat (sz - 4)))"

definition layout_size :: "nat \<Rightarrow> hpb_MiniTable \<Rightarrow> bool" where
  "layout_size sz t \<longleftrightarrow>
     (if sz \<le> 65528 then sz \<le> unat (t_size t) \<and> unat (t_size t) < sz + 8 \<and> 8 dvd unat (t_size t) else t_size t = 0)"

definition message_layout :: "hpb_MiniTablePlatform \<Rightarrow> hpb_MiniTable \<Rightarrow> bool" where
  "message_layout p t \<longleftrightarrow> unat (field_count t) = length (t_fields t) \<and>
     (\<exists>M hb sz. hb \<le> sz \<and> sz \<le> 65535 \<and> layout_size sz t \<and> layout_end hb sz (t_fields t) \<and>
        layout_within p hb sz (t_fields t) \<and> layout_disjoint p M (t_fields t) \<and>
        layout_hasbits M hb (t_fields t) \<and> layout_cases p M hb sz (t_fields t) \<and>
        layout_signs M sz (t_fields t))"

lemma layout_size_align_up:
  assumes "sz \<le> 65535" "t_size t = of_nat (align_up sz 8)"
  shows "layout_size sz t"
proof (cases "sz \<le> 65528")
  case True
  then have "align_up sz 8 < 65536" "sz \<le> align_up sz 8" "align_up sz 8 < sz + 8" "8 dvd align_up sz 8"
    unfolding align_up_def by presburger+
  then show ?thesis
    using True assms(2) by (simp add: layout_size_def unat_of_nat_u16)
next
  case False
  then have "align_up sz 8 = 65536"
    using assms(1) unfolding align_up_def by presburger
  then show ?thesis
    using False assms(2) by (simp add: layout_size_def)
qed

lemma sint_negative_iff: "sint (w :: u16) < 0 \<longleftrightarrow> bit w 15"
  by (simp add: sint_uint signed_take_bit_negative_iff bit_uint_iff)

lemma sint_small:
  assumes "unat (w :: u16) < 32768"
  shows "0 \<le> sint w"
proof -
  have "unat w div 2 ^ 15 = 0"
    using assms by simp
  then have "\<not> bit (unat w) 15"
    by (simp add: bit_iff_odd)
  then show ?thesis
    using sint_negative_iff [of w] by (simp add: bit_unsigned_iff not_less [symmetric])
qed

lemma sint_case_slot:
  assumes "c < 32768"
  shows "sint (NOT (of_nat c :: u16)) < 0"
proof -
  have "\<not> bit (of_nat c :: u16) 15"
    using sint_small [of "of_nat c"] sint_negative_iff [of "of_nat c"] assms by (simp add: unat_of_nat_u16)
  then show ?thesis
    by (simp add: sint_negative_iff bit_not_iff)
qed

lemma layout_signs_intro:
  assumes "layout_hasbits M hb fs" "layout_cases p M hb sz fs"
  shows "layout_signs M sz fs"
  unfolding layout_signs_def
proof (intro impI allI)
  fix i assume small: "length fs < 32768 \<and> sz \<le> 32768" and i: "i < length fs"
  show "i \<in> M \<longleftrightarrow> sint (f_presence (fs ! i)) < 0"
  proof (cases "i \<in> M")
    case True
    then obtain c where "f_presence (fs ! i) = NOT (of_nat c)" "c + 4 \<le> sz"
      using assms(2) by (auto simp: layout_cases_def)
    then show ?thesis
      using True small sint_case_slot [of c] by simp
  next
    case False
    then have "unat (f_presence (fs ! i)) \<le> length fs"
      using assms(1) i by (auto simp: layout_hasbits_def)
    then show ?thesis
      using False small sint_small [of "f_presence (fs ! i)"] by simp
  qed
qed

lemma final_layout_end:
  assumes inv: "layout_inv p fs os" and fin: "final_layout p lo sz items os fs fs'"
  shows "layout_end lo sz fs'"
proof (cases "items = []")
  case True
  then show ?thesis
    using fin by (simp add: final_layout_def placed_between_def layout_end_def)
next
  case False
  define it where "it = last items"
  have it: "it \<in> set items" and sz: "sz = unat (item_offset it) + item_size p it"
    using False fin by (simp_all add: it_def final_layout_def placed_between_def)
  have un: "unplaced it \<in> set (layout_items os fs)" and len: "length fs' = length fs"
    using fin it by (auto simp: final_layout_def)
  have size: "item_size p it \<le> 16"
    by (cases "item_rep it"; cases p) simp_all
  obtain i where i: "i < length fs" "i \<in> offset_targets (chain_map os) it \<or>
      i \<in> case_targets (chain_map os) it \<and> item_rep it = FieldRep_4Byte"
    using inv un
  proof (cases rule: layout_item_cases)
    case (oneof o1)
    have hd: "hd (fst o1) \<in> set (fst o1)"
      using inv oneof(1) by (auto simp: layout_inv_def)
    have "hd (fst o1) \<in> offset_targets (chain_map os) (unplaced it) \<or>
        hd (fst o1) \<in> case_targets (chain_map os) (unplaced it) \<and> item_rep (unplaced it) = FieldRep_4Byte"
      using oneof(2,4) hd by (auto simp: oneof_items_def offset_targets_def case_targets_def)
    then show ?thesis
      using that [of "hd (fst o1)"] layout_inv_member_bound [OF inv oneof(1) hd]
      unfolding targets_unplaced by (simp add: unplaced_def)
  next
    case (field k)
    then show ?thesis
      using that [of k] targets_unplaced(1) [of "chain_map os" it]
      by (auto simp: offset_targets_def field_item_def)
  qed
  from i(2) show ?thesis
  proof
    assume "i \<in> offset_targets (chain_map os) it"
    then have "f_offset (fs' ! i) = item_offset it"
      using fin it by (simp add: final_layout_def)
    then show ?thesis
      using size sz i(1) len unfolding layout_end_def by (metis add_left_mono nth_mem)
  next
    assume "i \<in> case_targets (chain_map os) it \<and> item_rep it = FieldRep_4Byte"
    then have "f_presence (fs' ! i) = NOT (item_offset it)" "sz - 4 = unat (item_offset it)"
      using fin it sz by (simp_all add: final_layout_def)
    then show ?thesis
      using i(1) len unfolding layout_end_def
      by (intro disjI2 bexI [of _ "fs' ! i"]) (simp_all add: of_nat_unat)
  qed
qed

lemma final_layout_within:
  assumes inv: "layout_inv p fs os" and fin: "final_layout p lo sz items os fs fs'"
  shows "layout_within p lo sz fs'"
  unfolding layout_within_def
proof
  fix f assume "f \<in> set fs'"
  then obtain i where i: "i < length fs" "f = fs' ! i"
    using fin by (auto simp: in_set_conv_nth final_layout_def)
  obtain it where it: "it \<in> set items" "f_offset (fs' ! i) = item_offset it"
    "hpb_MtDecoder_SizeOfRep (hpb_MiniTableField_GetRep (fs' ! i)) p \<le> item_size p it"
    using final_layout_slot [OF inv fin i(1)] by metis
  then have "field_bytes p f \<subseteq> item_bytes p it"
    by (auto simp: field_bytes_def item_bytes_def i(2))
  also have "\<dots> \<subseteq> {lo..<sz}"
    using placed_bytes [of p lo sz items] it(1) fin unfolding final_layout_def by blast
  finally show "field_bytes p f \<subseteq> {lo..<sz}" .
qed

lemma same_chain_presence:
  assumes inv: "layout_inv p fs os" and fin: "final_layout p lo sz items os fs fs'"
    and a: "a \<in> set items" "item_type a = LayoutItemType_OneofField"
    and i: "i \<in> offset_targets (chain_map os) a" and j: "j \<in> offset_targets (chain_map os) a"
    and mem: "i \<in> members os"
  shows "f_presence (fs' ! i) = f_presence (fs' ! j)"
proof -
  obtain c where c: "c \<in> set items" "item_type c = LayoutItemType_OneofCase"
    "f_presence (fs' ! i) = NOT (item_offset c)" "i \<in> case_targets (chain_map os) c"
    using final_layout_case [OF inv fin mem] by metis
  have un: "unplaced a \<in> set (layout_items os fs)" "unplaced c \<in> set (layout_items os fs)"
    using fin a(1) c(1) by (auto simp: final_layout_def)
  have "case_targets (chain_map os) c = offset_targets (chain_map os) a"
    using inv un(1)
  proof (cases rule: layout_item_cases)
    case o1: (oneof o1)
    show ?thesis
      using inv un(2)
    proof (cases rule: layout_item_cases)
      case o2: (oneof o2)
      have tg: "offset_targets (chain_map os) a = set (fst o1)" "case_targets (chain_map os) c = set (fst o2)"
        using a(2) c(2) o1(4) o2(4) by (simp_all add: offset_targets_def case_targets_def unplaced_def)
      then have "i \<in> set (fst o1) \<inter> set (fst o2)"
        using i c(4) by simp
      then have "hd (fst o1) = hd (fst o2)"
        using chains_disjoint [OF inv o1(1) o2(1)] by blast
      then have "fst o1 = fst o2"
        using chain_map_head [OF inv o1(1)] chain_map_head [OF inv o2(1)] by metis
      then show ?thesis
        by (simp only: tg)
    next
      case (field k)
      show ?thesis
        using unplaced_eqD [OF field(3)] c(2) by (simp add: field_item_def)
    qed
  next
    case (field k)
    show ?thesis
      using unplaced_eqD [OF field(3)] a(2) by (simp add: field_item_def)
  qed
  then have "f_presence (fs' ! j) = NOT (item_offset c)"
    using fin c(1) j by (auto simp: final_layout_def)
  then show ?thesis
    using c(3) by simp
qed

lemma final_layout_disjoint:
  assumes inv: "layout_inv p fs os" and fin: "final_layout p lo sz items os fs fs'"
  shows "layout_disjoint p (members os) fs'"
  unfolding layout_disjoint_def
proof (intro allI impI)
  fix i j assume ij: "i < length fs'" "j < length fs'" "i \<noteq> j"
  then have len: "i < length fs" "j < length fs"
    using fin by (simp_all add: final_layout_def)
  obtain a where a: "a \<in> set items" "i \<in> offset_targets (chain_map os) a" "f_offset (fs' ! i) = item_offset a"
    "hpb_MtDecoder_SizeOfRep (hpb_MiniTableField_GetRep (fs' ! i)) p \<le> item_size p a"
    "item_type a = LayoutItemType_OneofField \<longleftrightarrow> i \<in> members os"
    using final_layout_slot [OF inv fin len(1)] by metis
  obtain b where b: "b \<in> set items" "j \<in> offset_targets (chain_map os) b" "f_offset (fs' ! j) = item_offset b"
    "hpb_MtDecoder_SizeOfRep (hpb_MiniTableField_GetRep (fs' ! j)) p \<le> item_size p b"
    "item_type b = LayoutItemType_OneofField \<longleftrightarrow> j \<in> members os"
    using final_layout_slot [OF inv fin len(2)] by metis
  have sub: "field_bytes p (fs' ! i) \<subseteq> item_bytes p a" "field_bytes p (fs' ! j) \<subseteq> item_bytes p b"
    using a(3,4) b(3,4) by (auto simp: field_bytes_def item_bytes_def)
  show "field_bytes p (fs' ! i) \<inter> field_bytes p (fs' ! j) = {} \<or> i \<in> members os \<and> j \<in> members os \<and>
      f_offset (fs' ! i) = f_offset (fs' ! j) \<and> f_presence (fs' ! i) = f_presence (fs' ! j)"
  proof (cases "item_id a = item_id b")
    case False
    then show ?thesis
      using placed_disjoint [of p lo sz items a b] fin a(1) b(1) sub by (auto simp: final_layout_def)
  next
    case True
    then have ab: "a = b"
      using fin a(1) b(1) by (auto simp: final_layout_def distinct_map inj_on_def)
    have "item_type a = LayoutItemType_OneofField"
      using a(2) b(2) ij(3) ab by (auto simp: offset_targets_def split: hpb_LayoutItemType.splits)
    then show ?thesis
      using same_chain_presence [OF inv fin a(1), of i j] a b ab by simp
  qed
qed

lemma final_layout_cases:
  assumes inv: "layout_inv p fs os" and fin: "final_layout p lo sz items os fs fs'"
  shows "layout_cases p (members os) lo sz fs'"
  unfolding layout_cases_def
proof (intro ballI conjI)
  fix i assume i: "i \<in> members os"
  then show "i < length fs'"
    using layout_inv_member_bound [OF inv] fin by (auto simp: members_def final_layout_def)
  obtain c where c: "c \<in> set items" "item_type c = LayoutItemType_OneofCase" "item_rep c = FieldRep_4Byte"
    "f_presence (fs' ! i) = NOT (item_offset c)"
    using final_layout_case [OF inv fin i] by metis
  have placed: "placed_between p lo sz items" "distinct (map item_id items)"
    using fin by (simp_all add: final_layout_def)
  have "{unat (item_offset c)..<unat (item_offset c) + 4} \<inter> field_bytes p f = {}" if f: "f \<in> set fs'" for f
  proof -
    obtain j where j: "j < length fs" "f = fs' ! j"
      using fin f by (auto simp: in_set_conv_nth final_layout_def)
    obtain a where a: "a \<in> set items" "j \<in> offset_targets (chain_map os) a" "f_offset (fs' ! j) = item_offset a"
      "hpb_MtDecoder_SizeOfRep (hpb_MiniTableField_GetRep (fs' ! j)) p \<le> item_size p a"
      using final_layout_slot [OF inv fin j(1)] by metis
    have "a \<noteq> c"
      using a(2) c(2) by (auto simp: offset_targets_def)
    then have "item_id a \<noteq> item_id c"
      using placed(2) a(1) c(1) by (auto simp: distinct_map inj_on_def)
    then show ?thesis
      using placed_disjoint [OF placed a(1) c(1)] a(3,4) c(3)
      by (auto simp: item_bytes_def field_bytes_def j(2))
  qed
  then show "\<exists>k. f_presence (fs' ! i) = NOT (of_nat k) \<and> 4 dvd k \<and> lo \<le> k \<and> k + 4 \<le> sz \<and>
      (\<forall>f \<in> set fs'. {k..<k + 4} \<inter> field_bytes p f = {})"
    using c placed(1)
    by (intro exI [of _ "unat (item_offset c)"]) (auto simp: placed_between_def of_nat_unat)
qed

lemma hasbit_bytes_small: "h \<le> 65532 \<Longrightarrow> hasbit_bytes h < 65536"
  using div_le_mono [of "8 + h" 65540 8] by (simp add: hasbit_bytes_def hpb_MiniTable_DivideRoundUp_def)

lemma hasbit_total_le: "hasbit_total fs \<le> length fs"
proof -
  have "count_class kRequiredPresence gs + count_class kHasbitPresence gs \<le> length gs" for gs
    by (induction gs) (auto simp: presence_class_defs)
  then show ?thesis
    by (simp add: hasbit_total_def)
qed

lemma final_layout_hasbits:
  assumes inv: "layout_inv p fs1 os" and fin: "final_layout p lo sz items os fs1 fs'"
    and lo: "lo = hasbit_bytes (hasbit_total fs)" and len: "length fs1 = length fs"
    and fs1: "\<And>i. i < length fs \<Longrightarrow> f_offset (fs1 ! i) = f_offset (fs ! i) \<and>
      (unat (f_offset (fs ! i)) < 3 \<longrightarrow> f_presence (fs1 ! i) = of_nat (hasbit_index fs i))"
  shows "layout_hasbits (members os) lo fs'"
proof -
  have n: "length fs \<le> 65532"
    using inv len by (simp add: layout_inv_def)
  have pres: "unat (f_presence (fs' ! i)) = hasbit_index fs i" if "i < length fs" "i \<notin> members os" for i
  proof -
    have "unat (f_offset (fs1 ! i)) < 3"
      using inv that len by (simp add: layout_inv_def)
    then have "f_presence (fs' ! i) = of_nat (hasbit_index fs i)"
      using fin fs1 [OF that(1)] that len by (simp add: final_layout_def)
    then show ?thesis
      using hasbit_index_le [OF that(1)] hasbit_total_le [of fs] n by (simp add: unat_of_nat_u16)
  qed
  have "hasbit_index fs i < 8 * lo" if "i < length fs" "hasbit_index fs i \<noteq> 0" for i
    using hasbit_index_le [OF that(1)] that(2)
    by (simp add: lo hasbit_bytes_def hpb_MiniTable_DivideRoundUp_def)
  moreover have len': "length fs' = length fs"
    using fin len by (simp add: final_layout_def)
  ultimately show ?thesis
    using pres hasbit_index_inj [of _ fs] le_trans [OF hasbit_index_le hasbit_total_le]
    unfolding layout_hasbits_def len' by (auto simp: word_unat_eq_iff)
qed

lemma hasbits_done_facts:
  assumes "hasbits_done d d'" "i < length (d_fields d)"
  shows "f_offset (d_fields d' ! i) = f_offset (d_fields d ! i)" "f_mode (d_fields d' ! i) = f_mode (d_fields d ! i)"
    "f_number (d_fields d' ! i) = f_number (d_fields d ! i)"
    "descriptortype (d_fields d' ! i) = descriptortype (d_fields d ! i)"
    "unat (f_offset (d_fields d ! i)) < 3 \<Longrightarrow> f_presence (d_fields d' ! i) = of_nat (hasbit_index (d_fields d) i)"
  using assms by (simp_all add: hasbits_done_def Let_def)

text \<open>Hasbits, sorting and offsets after a successful parse.\<close>

lemma final_layout_message:
  assumes inv: "layout_inv p fs1 os" and fin: "final_layout p lo sz items os fs1 fs'" and sz: "lo \<le> sz" "sz \<le> 65535"
    and lo: "lo = hasbit_bytes (hasbit_total fs)" and len: "length fs1 = length fs"
    and fs1: "\<And>i. i < length fs \<Longrightarrow> f_offset (fs1 ! i) = f_offset (fs ! i) \<and>
      (unat (f_offset (fs ! i)) < 3 \<longrightarrow> f_presence (fs1 ! i) = of_nat (hasbit_index fs i))"
    and t: "t_size t = of_nat (align_up sz 8)" "t_fields t = fs'" "unat (field_count t) = length fs"
  shows "message_layout p t"
proof -
  have "length fs' = length fs"
    using fin len by (simp add: final_layout_def)
  moreover note hbs = final_layout_hasbits [OF inv fin lo len fs1]
  ultimately show ?thesis
    unfolding message_layout_def
    using sz layout_size_align_up [OF sz(2) t(1)] final_layout_end [OF inv fin] layout_signs_intro [OF hbs final_layout_cases [OF inv fin]]
      final_layout_within [OF inv fin] final_layout_disjoint [OF inv fin] final_layout_cases [OF inv fin]
      hbs t(2,3)
    by (intro conjI exI [of _ "members os"] exI [of _ lo] exI [of _ sz]) simp_all
qed

lemma final_layout_numbers:
  assumes "final_layout p lo sz items os fs fs'" "i < length fs"
  shows "f_number (fs' ! i) = f_number (fs ! i)"
proof -
  have "fs' ! i = (fs ! i)\<lparr>f_offset := f_offset (fs' ! i), f_presence := f_presence (fs' ! i)\<rparr>"
    using assms by (simp add: final_layout_def)
  then show ?thesis
    by (metis hpb_MiniTableField.select_convs(1) hpb_MiniTableField.surjective
        hpb_MiniTableField.update_convs(2,3))
qed

lemma AssignHasbits_outcome:
  assumes "parsed d"
  shows "outcome (hasbits_done d) (hpb_MtDecoder_AssignHasbits d)"
proof -
  have "length (d_fields d) < 65536" "field_count (d_table d) = of_nat (length (d_fields d))"
    using assms by (auto simp: parsed_def layout_inv_def)
  from AssignHasbits_correct [OF this] show ?thesis
    by (auto split: if_splits)
qed

lemma layout_message_outcome:
  assumes parsed: "parsed d"
  shows "outcome (\<lambda>d'. message_layout (platform d) (table_view d') \<and> dense_prefix (table_view d'))
    (res_bind (hpb_MtDecoder_AssignHasbits d) (\<lambda>d.
       res_bind (hpb_MtDecoder_SortLayoutItems alloc_ok d) (\<lambda>d. hpb_MtDecoder_AssignOffsets d)))"
proof (rule outcome_bind [OF AssignHasbits_outcome [OF parsed]])
  fix d1 assume hb: "hasbits_done d d1"
  obtain os where inv: "layout_inv (platform d) (d_fields d) os" and vec: "vec d = concat (map oneof_items os)"
    using parsed by (auto simp: parsed_def)
  let ?fs = "d_fields d"
  have n: "length ?fs \<le> 65532" and fc: "field_count (d_table d) = of_nat (length ?fs)"
    and dense: "numbers_dense (unat (dense_below (d_table d))) ?fs"
    using inv parsed by (simp_all add: layout_inv_def parsed_def)
  have len: "length (d_fields d1) = length ?fs"
    and d1: "d1 = d\<lparr>d_table := (d_table d)\<lparr>t_size := of_nat (hasbit_bytes (hasbit_total ?fs)),
      required_count := of_nat (count_class kRequiredPresence ?fs)\<rparr>, d_fields := d_fields d1\<rparr>"
    using hb by (simp_all add: hasbits_done_def Let_def)
  have frame: "platform d1 = platform d" "vec d1 = vec d" "field_count (d_table d1) = field_count (d_table d)"
    "dense_below (d_table d1) = dense_below (d_table d)" "t_size (d_table d1) = of_nat (hasbit_bytes (hasbit_total ?fs))"
    by (subst d1, simp)+
  have inv1: "layout_inv (platform d1) (d_fields d1) os"
    using layout_inv_cong [OF len _ inv] hasbits_done_facts [OF hb] by (simp add: frame)
  have fc1: "field_count (d_table d1) = of_nat (length (d_fields d1))"
    by (simp add: frame fc len)
  show "outcome (\<lambda>d'. message_layout (platform d) (table_view d') \<and> dense_prefix (table_view d'))
      (res_bind (hpb_MtDecoder_SortLayoutItems alloc_ok d1) (\<lambda>d. hpb_MtDecoder_AssignOffsets d))"
  proof (rule outcome_bind [OF SortLayoutItems_outcome [OF fc1 inv1]])
    show "vec d1 = concat (map oneof_items os)"
      by (simp add: frame vec)
    fix d2 assume "same_frame d1 d2 \<and> d_fields d2 = d_fields d1 \<and>
      vec d2 = sort_key packed_key (layout_items os (d_fields d1))"
    then have d2: "platform d2 = platform d1" "d_table d2 = d_table d1" "d_fields d2 = d_fields d1"
      "vec d2 = sort_key packed_key (layout_items os (d_fields d2))"
      by (simp_all add: same_frame_def)
    have inv2: "layout_inv (platform d2) (d_fields d2) os" and fc2: "field_count (d_table d2) = of_nat (length (d_fields d2))"
      using inv1 fc1 by (simp_all add: d2)
    have lo: "unat (t_size (d_table d2)) = hasbit_bytes (hasbit_total ?fs)"
      using hasbit_bytes_small [of "hasbit_total ?fs"] hasbit_total_le [of ?fs] n
      by (simp add: d2 frame unat_of_nat_u16)
    show "outcome (\<lambda>d'. message_layout (platform d) (table_view d') \<and> dense_prefix (table_view d'))
        (hpb_MtDecoder_AssignOffsets d2)"
    proof (rule outcome_mono [OF AssignOffsets_outcome [OF inv2 fc2 d2(4)]], elim exE conjE)
      fix d3 sz
      assume sz: "sz \<le> 65535" "unat (t_size (d_table d2)) \<le> sz"
        and d3: "d3 = d2\<lparr>d_table := (d_table d2)\<lparr>t_size := of_nat (align_up sz 8)\<rparr>, d_fields := d_fields d3, vec := vec d3\<rparr>"
        and fin: "final_layout (platform d2) (unat (t_size (d_table d2))) sz (vec d3) os (d_fields d2) (d_fields d3)"
      have t3: "t_size (table_view d3) = of_nat (align_up sz 8)" "field_count (table_view d3) = field_count (d_table d)"
        "dense_below (table_view d3) = dense_below (d_table d)"
        by (subst d3, simp add: table_view_def d2 frame)+
      have fcn: "unat (field_count (d_table d)) = length ?fs"
        using n by (simp add: fc unat_of_nat_u16)
      have "message_layout (platform d2) (table_view d3)"
        using final_layout_message [OF inv2 fin sz(2,1) lo _ _ t3(1)] hasbits_done_facts [OF hb] fcn
        by (simp add: d2(3) len t3(2)) (simp add: table_view_def)
      moreover have "length (d_fields d3) = length ?fs"
        using fin len by (simp add: final_layout_def d2(3))
      moreover have "f_number (d_fields d3 ! i) = f_number (?fs ! i)" if "i < length ?fs" for i
        using final_layout_numbers [OF fin, of i] hasbits_done_facts(3) [OF hb that] that len by (simp add: d2(3))
      ultimately show "message_layout (platform d) (table_view d3) \<and> dense_prefix (table_view d3)"
        using dense fcn by (simp add: d2 frame dense_prefix_def t3(2,3) numbers_dense_def) (simp add: table_view_def)
    qed
  qed
qed

section \<open>Building never faults\<close>

lemma alternate_ok_type: "alternate_ok f \<Longrightarrow> \<exists>ty. hpb_MiniTableField_Type f = Inr ty"
  by (auto simp: alternate_ok_def hpb_MiniTableField_Type_def)

lemma ValidateEntryField_outcome:
  "alternate_ok f \<Longrightarrow> outcome (\<lambda>_. f_number f = k) (hpb_MtDecoder_ValidateEntryField f k)"
  using alternate_ok_type [of f] by (auto simp: hpb_MtDecoder_ValidateEntryField_def)

text \<open>
  The fixed layout of a map entry: the key at 8, the value 8 or 16 bytes after it, and both
  numbers in the dense prefix.
\<close>

definition map_layout :: "hpb_MiniTablePlatform \<Rightarrow> hpb_MiniTable \<Rightarrow> bool" where
  "map_layout p t \<longleftrightarrow>
     (\<exists>key val. t_fields t = [key, val] \<and> f_number key = 1 \<and> f_number val = 2 \<and>
        \<not> hpb_IsRepeatedOrMap key \<and> \<not> hpb_IsRepeatedOrMap val \<and>
        f_offset key = 8 \<and> f_offset val = (if p = Platform_32Bit then 16 else 24) \<and>
        t_size t = (if p = Platform_32Bit then 24 else 40) \<and>
        has_flag (ext_mode t) kHpb_ExtMode_IsMapEntry)"

lemma ValidateEntryField_scalar:
  "hpb_MtDecoder_ValidateEntryField f k = Inr u \<Longrightarrow> \<not> hpb_IsRepeatedOrMap f"
  by (auto simp: hpb_MtDecoder_ValidateEntryField_def split: if_splits)

lemma hasbits_done_frame:
  assumes "hasbits_done d d'"
  shows "platform d' = platform d" "vec d' = vec d" "field_count (d_table d') = field_count (d_table d)"
    "dense_below (d_table d') = dense_below (d_table d)" "length (d_fields d') = length (d_fields d)"
    "t_size (d_table d') = of_nat (hasbit_bytes (hasbit_total (d_fields d)))"
    "required_count (d_table d') = of_nat (count_class kRequiredPresence (d_fields d))"
proof -
  have d': "d' = d\<lparr>d_table := (d_table d)\<lparr>t_size := of_nat (hasbit_bytes (hasbit_total (d_fields d))),
      required_count := of_nat (count_class kRequiredPresence (d_fields d))\<rparr>, d_fields := d_fields d'\<rparr>"
    using assms by (simp add: hasbits_done_def Let_def)
  show "platform d' = platform d" "vec d' = vec d" "field_count (d_table d') = field_count (d_table d)"
    "dense_below (d_table d') = dense_below (d_table d)"
    "t_size (d_table d') = of_nat (hasbit_bytes (hasbit_total (d_fields d)))"
    "required_count (d_table d') = of_nat (count_class kRequiredPresence (d_fields d))"
    by (subst d', simp)+
  show "length (d_fields d') = length (d_fields d)"
    using assms by (simp add: hasbits_done_def Let_def)
qed

text \<open>What parsing and hasbits leave for the map entry checks.\<close>

definition entry_ready :: "hpb_MtDecoder \<Rightarrow> bool" where
  "entry_ready d \<longleftrightarrow> length (d_fields d) < 65536 \<and> field_count (d_table d) = of_nat (length (d_fields d)) \<and>
     list_all alternate_ok (d_fields d) \<and> numbers_dense (unat (dense_below (d_table d))) (d_fields d)"

lemma hasbits_done_ready:
  assumes "parsed d" "hasbits_done d d'"
  shows "entry_ready d'"
proof -
  have "length (d_fields d) \<le> 65532"
    using assms(1) by (auto simp: parsed_def layout_inv_def)
  then show ?thesis
    using assms(1) hasbits_done_facts [OF assms(2)]
    by (auto simp: entry_ready_def hasbits_done_frame [OF assms(2)] parsed_def list_all_length
        alternate_ok_def numbers_dense_def)
qed

lemma layout_map_entry_outcome:
  assumes ready: "entry_ready d"
  shows "outcome (\<lambda>d'. map_layout (platform d) (table_view d') \<and> dense_prefix (table_view d')) (layout_map_entry d)"
proof (cases "field_count (d_table d) = 2 \<and> \<not> list_ex (\<lambda>item. item_type item = LayoutItemType_OneofCase) (vec d)")
  case True
  have "length (d_fields d) = 2"
    using ready True unat_of_nat_u16 [of "length (d_fields d)"] by (simp add: entry_ready_def)
  then obtain key val where fs: "d_fields d = [key, val]"
    by (auto simp: numeral_2_eq_2 length_Suc_conv)
  have alt: "alternate_ok key" "alternate_ok val"
    using ready by (simp_all add: entry_ready_def fs)
  have dense: "unat (dense_below (d_table d)) \<le> 2"
    using ready by (auto simp: entry_ready_def fs numbers_dense_def)
  let ?Q = "\<lambda>d'. map_layout (platform d) (table_view d') \<and> dense_prefix (table_view d')"
  have "outcome ?Q (res_bind (hpb_MtDecoder_ValidateEntryField key 1) (\<lambda>_.
      res_bind (hpb_MtDecoder_ValidateEntryField val 2) (\<lambda>_.
        let kv_size = (if platform d = Platform_32Bit then 8 else 16); hasbit_size = 8 in
        Inr (d\<lparr>d_table := (d_table d)\<lparr>
                 t_size := of_nat (align_up (hasbit_size + kv_size + kv_size) 8),
                 ext_mode := ext_mode (d_table d) OR kHpb_ExtMode_IsMapEntry\<rparr>,
               d_fields := [key\<lparr>f_offset := of_nat hasbit_size\<rparr>,
                 val\<lparr>f_offset := of_nat (hasbit_size + kv_size)\<rparr>]\<rparr>))))"
  proof (rule outcome_bind [OF ValidateEntryField_outcome [OF alt(1)]],
      rule outcome_bind [OF ValidateEntryField_outcome [OF alt(2)]])
    fix u v
    assume "hpb_MtDecoder_ValidateEntryField key 1 = Inr u" "hpb_MtDecoder_ValidateEntryField val 2 = Inr v"
      and num: "f_number key = 1" "f_number val = 2"
    then have sc: "\<not> hpb_IsRepeatedOrMap key" "\<not> hpb_IsRepeatedOrMap val"
      by (simp_all add: ValidateEntryField_scalar)
    have flag: "has_flag (x OR kHpb_ExtMode_IsMapEntry) kHpb_ExtMode_IsMapEntry" for x
      by (simp add: has_flag_or) (simp add: has_flag_def ext_mode_defs)
    have nth: "f_number ([key\<lparr>f_offset := a\<rparr>, val\<lparr>f_offset := b\<rparr>] ! i) = 1 + of_nat i"
      if "i < unat (dense_below (d_table d))" for i a b
    proof -
      have "i = 0 \<or> i = 1"
        using that dense by linarith
      then show ?thesis
        using num by auto
    qed
    show "outcome ?Q (let kv_size = (if platform d = Platform_32Bit then 8 else 16); hasbit_size = 8 in
        Inr (d\<lparr>d_table := (d_table d)\<lparr>
                 t_size := of_nat (align_up (hasbit_size + kv_size + kv_size) 8),
                 ext_mode := ext_mode (d_table d) OR kHpb_ExtMode_IsMapEntry\<rparr>,
               d_fields := [key\<lparr>f_offset := of_nat hasbit_size\<rparr>,
                 val\<lparr>f_offset := of_nat (hasbit_size + kv_size)\<rparr>]\<rparr>))"
      using num sc flag nth dense True
      by (cases "platform d") (simp_all add: map_layout_def table_view_def dense_prefix_def align_up_def
          hpb_IsRepeatedOrMap_def)
  qed
  then show ?thesis
    using True by (simp add: layout_map_entry_def fs)
qed (auto simp: layout_map_entry_def)

lemma ParseMap_outcome:
  assumes "has_table d" "vec d = []" "dense_below (d_table d) = 0" "length ptr \<le> 65532"
  shows "outcome (\<lambda>d'. map_layout (platform d) (table_view d') \<and> dense_prefix (table_view d'))
    (hpb_MtDecoder_ParseMap alloc_ok mem d ptr)"
  unfolding hpb_MtDecoder_ParseMap_def
proof (rule outcome_bind [OF ParseMessage_outcome [OF assms]], elim conjE)
  fix d1 assume d1: "parsed d1" and plat: "platform d1 = platform d"
  show "outcome (\<lambda>d'. map_layout (platform d) (table_view d') \<and> dense_prefix (table_view d'))
    (res_bind (hpb_MtDecoder_AssignHasbits d1) layout_map_entry)"
  proof (rule outcome_bind [OF AssignHasbits_outcome [OF d1]])
    fix d2 assume "hasbits_done d1 d2"
    from layout_map_entry_outcome [OF hasbits_done_ready [OF d1 this]] hasbits_done_frame(1) [OF this] plat
    show "outcome (\<lambda>d'. map_layout (platform d) (table_view d') \<and> dense_prefix (table_view d')) (layout_map_entry d2)"
      by simp
  qed
qed

lemma Build_outcome:
  assumes len: "length ptr \<le> 65533"
  shows "outcome (\<lambda>(t, _). dense_prefix t \<and>
      (ptr \<noteq> [] \<longrightarrow> hd ptr = kHpb_EncodedVersion_MessageV1 \<longrightarrow> message_layout plat t) \<and>
      (ptr \<noteq> [] \<longrightarrow> hd ptr = kHpb_EncodedVersion_MapV1 \<longrightarrow> map_layout plat t))
    (hpb_MiniTable_BuildWithBuf alloc_ok mem ptr plat buf_size)"
proof -
  define d0 where "d0 = \<lparr>has_table = alloc_ok sizeof_MiniTable, d_table = kHpb_MiniTable_Empty\<lparr>t_size := 0,
    field_count := 0, ext_mode := kHpb_ExtMode_NonExtendable, dense_below := 0, table_mask := - 1,
    required_count := 0\<rparr>, d_fields = [], fields_cap = 0, platform = plat, vec = [],
    vec_capacity = buf_size div sizeof_LayoutItem\<rparr>"
  have d0: "vec d0 = []" "dense_below (d_table d0) = 0" "platform d0 = plat" "has_table d0 = alloc_ok sizeof_MiniTable"
    by (simp_all add: d0_def)
  let ?Q = "\<lambda>t. dense_prefix t \<and>
      (ptr \<noteq> [] \<longrightarrow> hd ptr = kHpb_EncodedVersion_MessageV1 \<longrightarrow> message_layout plat t) \<and>
      (ptr \<noteq> [] \<longrightarrow> hd ptr = kHpb_EncodedVersion_MapV1 \<longrightarrow> map_layout plat t)"
  have vers: "kHpb_EncodedVersion_MapV1 \<noteq> kHpb_EncodedVersion_MessageV1"
    "kHpb_EncodedVersion_MapV1 \<noteq> kHpb_EncodedVersion_MessageSetV1"
    "kHpb_EncodedVersion_MessageV1 \<noteq> kHpb_EncodedVersion_MessageSetV1"
    by code_simp+
  have empty: "dense_prefix (table_view d)" if "field_count (d_table d) = 0" "dense_below (d_table d) = 0" for d
    using that by (simp add: dense_prefix_def table_view_def)
  have msg: "outcome (\<lambda>d'. message_layout plat (table_view d') \<and> dense_prefix (table_view d'))
      (res_bind (hpb_MtDecoder_ParseMessage alloc_ok mem d0 data) (\<lambda>d.
         res_bind (hpb_MtDecoder_AssignHasbits d) (\<lambda>d.
         res_bind (hpb_MtDecoder_SortLayoutItems alloc_ok d) (\<lambda>d. hpb_MtDecoder_AssignOffsets d))))"
    if "has_table d0" "length data \<le> 65532" for data
  proof (rule outcome_bind [OF ParseMessage_outcome [OF that(1) d0(1,2) that(2)]])
    fix d assume "parsed d \<and> platform d = platform d0"
    then show "outcome (\<lambda>d'. message_layout plat (table_view d') \<and> dense_prefix (table_view d'))
        (res_bind (hpb_MtDecoder_AssignHasbits d) (\<lambda>d.
         res_bind (hpb_MtDecoder_SortLayoutItems alloc_ok d) (\<lambda>d. hpb_MtDecoder_AssignOffsets d)))"
      using layout_message_outcome [of d alloc_ok] d0(3) by simp
  qed
  have "outcome (\<lambda>d. ?Q (table_view d)) (hpb_MtDecoder_DoBuildMiniTableWithBuf alloc_ok mem
      (d0\<lparr>d_table := kHpb_MiniTable_Empty\<rparr>) ptr)"
  proof (cases ptr)
    case Nil
    then show ?thesis
      by (auto simp: hpb_MtDecoder_DoBuildMiniTableWithBuf_def empty)
  next
    case (Cons v data)
    have step: "hpb_MtDecoder_DoBuildMiniTableWithBuf alloc_ok mem (d0\<lparr>d_table := kHpb_MiniTable_Empty\<rparr>) ptr =
       (if \<not> has_table d0 then Inl OutOfMemory
        else if v = kHpb_EncodedVersion_MapV1 then hpb_MtDecoder_ParseMap alloc_ok mem d0 data
        else if v = kHpb_EncodedVersion_MessageV1 then
          res_bind (hpb_MtDecoder_ParseMessage alloc_ok mem d0 data) (\<lambda>d.
          res_bind (hpb_MtDecoder_AssignHasbits d) (\<lambda>d.
          res_bind (hpb_MtDecoder_SortLayoutItems alloc_ok d) (\<lambda>d. hpb_MtDecoder_AssignOffsets d)))
        else if v = kHpb_EncodedVersion_MessageSetV1 then hpb_MtDecoder_ParseMessageSet d0 data
        else Inl (InvalidMessageVersion v))"
      by (simp add: hpb_MtDecoder_DoBuildMiniTableWithBuf_def Cons d0_def)
    have data: "length data \<le> 65532"
      using len Cons by simp
    show ?thesis
    proof (cases "has_table d0")
      case True
      have map': "outcome (\<lambda>d'. map_layout plat (table_view d') \<and> dense_prefix (table_view d'))
          (hpb_MtDecoder_ParseMap alloc_ok mem d0 data)"
        using ParseMap_outcome [OF True d0(1,2) data] d0(3) by simp
      have "outcome (\<lambda>d. dense_prefix (table_view d)) (hpb_MtDecoder_ParseMessageSet d0 data)"
        by (auto simp: hpb_MtDecoder_ParseMessageSet_def empty)
      then show ?thesis
        using True vers Cons msg [OF True data] map' unfolding step
        by (auto elim: outcome_mono)
    qed (simp add: step)
  qed
  then show ?thesis
    unfolding hpb_MiniTable_BuildWithBuf_def
    by (intro outcome_bind) (auto simp: d0_def table_view_def)
qed

section \<open>Theorems on building\<close>

lemma outcome_Inr: "outcome P x \<Longrightarrow> x = Inr a \<Longrightarrow> P a"
  by simp

lemma outcome_Inl: "outcome P x \<Longrightarrow> x = Inl e \<Longrightarrow> \<not> fault e"
  by simp

text \<open>
  C2: for every descriptor of at most 65533 bytes, whatever its contents, whatever the
  allocator does and whatever the fresh memory holds, building a table ends in a table or in a
  reported error: no assertion is violated, no array is accessed out of bounds, and the loops
  over oneof lists end. In a table that is built, every lookup by number returns, and only a
  field with that number.
\<close>

theorem hpb_MiniTable_Build_safe:
  assumes "length data \<le> 65533"
  shows "case hpb_MiniTable_Build alloc_ok mem data plat of
      Inl e \<Rightarrow> \<not> fault e
    | Inr t \<Rightarrow> \<exists>r. hpb_MiniTable_FindFieldByNumber t number = Inr r \<and>
        (\<forall>i. r = Some i \<longrightarrow> i < length (t_fields t) \<and> f_number (t_fields t ! i) = number)"
  using Build_outcome [OF assms, of plat alloc_ok mem 0] FindFieldByNumber_dense [of _ number]
  by (auto simp: hpb_MiniTable_Build_def res_bind_def split: sum.splits)

definition example_mem :: "nat \<Rightarrow> hpb_MiniTableField" where
  "example_mem i = \<lparr>f_number = 0, f_offset = 9, f_presence = 7, submsg_index = 3,
     descriptortype = FieldType_Int32, f_mode = 255\<rparr>"

theorem hpb_MiniTable_Build_safe_witness:
  "\<exists>e. hpb_MiniTable_Build (\<lambda>_. True) example_mem [36, 40, 94, 41] Platform_64Bit = Inl e \<and> \<not> fault e"
proof -
  have "hpb_MiniTable_Build (\<lambda>_. True) example_mem [36, 40, 94, 41] Platform_64Bit = Inl (NoSuchFieldNumber 7)"
    by code_simp
  moreover have "length [36, 40, 94, 41 :: byte] \<le> 65533"
    by simp
  ultimately show ?thesis
    using hpb_MiniTable_Build_safe [of "[36, 40, 94, 41]", where alloc_ok = "\<lambda>_. True" and mem = example_mem
        and plat = Platform_64Bit] by simp
qed

text \<open>
  C1: the layout of every message table built from at most 65532 characters. All fields lie
  between the hasbits and the end of the layout; the end is at most the recorded size, which is
  the end rounded up to 8, unless it is above 65528: then the 16-bit size is recorded as 0, and
  a field or case slot near the end is there to cause it. Two fields share bytes only when both
  are members of the same oneof, with the same offset and case slot; a field outside oneofs has
  no hasbit or one of its own within the hasbit bytes; and the case slot of a oneof member is
  four aligned bytes that no field overlaps. With fewer than 32768 fields and an end of at most
  32768 the sign of the presence, read as a signed 16-bit number, tells members of oneofs from
  the other fields.
\<close>

theorem hpb_MiniTable_Build_layout:
  assumes "length data \<le> 65532"
    and "hpb_MiniTable_Build alloc_ok mem (kHpb_EncodedVersion_MessageV1 # data) plat = Inr t"
  shows "message_layout plat t"
  using Build_outcome [of "kHpb_EncodedVersion_MessageV1 # data" plat alloc_ok mem 0] assms
  by (auto simp: hpb_MiniTable_Build_def res_bind_Inr_iff)

theorem hpb_MiniTable_Build_layout_witness:
  "\<exists>t. hpb_MiniTable_Build (\<lambda>_. True) example_mem [36, 49] Platform_64Bit = Inr t \<and>
     message_layout Platform_64Bit t"
proof -
  obtain t where t: "hpb_MiniTable_Build (\<lambda>_. True) example_mem [36, 49] Platform_64Bit = Inr t"
  proof
    show "hpb_MiniTable_Build (\<lambda>_. True) example_mem [36, 49] Platform_64Bit =
      Inr \<lparr>t_subs = [],
        t_fields = [\<lparr>f_number = 1, f_offset = 8, f_presence = 1, submsg_index = 65535,
            descriptortype = FieldType_Bytes, f_mode = 146\<rparr>],
        t_size = 24, field_count = 1, ext_mode = 0, dense_below = 1, table_mask = 255, required_count = 0\<rparr>"
      by code_simp
  qed
  have "kHpb_EncodedVersion_MessageV1 = 36"
    by code_simp
  then show ?thesis
    using hpb_MiniTable_Build_layout [of "[49]" "\<lambda>_. True" example_mem Platform_64Bit t] t
    by auto
qed

text \<open>
  C31: a descriptor with the map version builds exactly an entry with a singular key numbered
  1 at offset 8 and a singular value numbered 2 one slot after it, marked as a map entry, or
  reports an error.
\<close>

theorem hpb_MiniTable_Build_map:
  assumes "length data \<le> 65532"
    and "hpb_MiniTable_Build alloc_ok mem (kHpb_EncodedVersion_MapV1 # data) plat = Inr t"
  shows "map_layout plat t"
  using Build_outcome [of "kHpb_EncodedVersion_MapV1 # data" plat alloc_ok mem 0] assms
  by (auto simp: hpb_MiniTable_Build_def res_bind_Inr_iff)

theorem hpb_MiniTable_Build_map_witness:
  "\<exists>t. hpb_MiniTable_Build (\<lambda>_. True) example_mem [37, 40, 47] Platform_64Bit = Inr t \<and>
     map_layout Platform_64Bit t"
proof -
  obtain t where t: "hpb_MiniTable_Build (\<lambda>_. True) example_mem [37, 40, 47] Platform_64Bit = Inr t"
  proof
    show "hpb_MiniTable_Build (\<lambda>_. True) example_mem [37, 40, 47] Platform_64Bit =
      Inr \<lparr>t_subs = [],
        t_fields = [\<lparr>f_number = 1, f_offset = 8, f_presence = 1, submsg_index = 65535,
            descriptortype = FieldType_Int32, f_mode = 66\<rparr>,
          \<lparr>f_number = 2, f_offset = 24, f_presence = 2, submsg_index = 65535,
            descriptortype = FieldType_Bool, f_mode = 2\<rparr>],
        t_size = 40, field_count = 2, ext_mode = 4, dense_below = 2, table_mask = 255, required_count = 0\<rparr>"
      by code_simp
  qed
  have "kHpb_EncodedVersion_MapV1 = 37"
    by code_simp
  then show ?thesis
    using hpb_MiniTable_Build_map [of "[40, 47]" "\<lambda>_. True" example_mem Platform_64Bit t] t by auto
qed

text \<open>
  C34: required fields get the lowest hasbits, and their number is recorded in 8 bits before
  it is checked: with \<open>R\<close> required fields the step is refused exactly when \<open>R mod 256\<close> exceeds 63,
  and \<open>R mod 256\<close> is what a table that is built records.
\<close>

theorem hpb_MtDecoder_AssignHasbits_required:
  assumes "length (d_fields d) < 65536" "field_count (d_table d) = of_nat (length (d_fields d))"
  shows "case hpb_MtDecoder_AssignHasbits d of
      Inl e \<Rightarrow> e = TooManyRequired \<and> count_class kRequiredPresence (d_fields d) mod 256 > 63
    | Inr d' \<Rightarrow> count_class kRequiredPresence (d_fields d) mod 256 \<le> 63 \<and>
        unat (required_count (d_table d')) = count_class kRequiredPresence (d_fields d) mod 256"
proof -
  have r: "unat (of_nat n :: byte) = n mod 256" for n
    by (simp add: unat_of_nat)
  show ?thesis
    using AssignHasbits_correct [OF assms] hasbits_done_frame(7) [of d]
    by (auto simp: word_less_nat_alt r split: if_splits)
qed

definition required_decoder :: hpb_MtDecoder where
  "required_decoder = \<lparr>has_table = True, d_table = kHpb_MiniTable_Empty\<lparr>field_count := 256\<rparr>,
     d_fields = replicate 256 ((example_mem 0)\<lparr>f_offset := kRequiredPresence\<rparr>), fields_cap = 256,
     platform = Platform_64Bit, vec = [], vec_capacity = 0\<rparr>"

theorem hpb_MtDecoder_AssignHasbits_required_witness:
  "\<exists>d'. hpb_MtDecoder_AssignHasbits required_decoder = Inr d' \<and> required_count (d_table d') = 0"
proof -
  have R: "count_class kRequiredPresence (d_fields required_decoder) = 256"
    by (simp add: required_decoder_def count_class_def)
  have "length (d_fields required_decoder) < 65536"
    "field_count (d_table required_decoder) = of_nat (length (d_fields required_decoder))"
    by (simp_all add: required_decoder_def)
  from hpb_MtDecoder_AssignHasbits_required [OF this] show ?thesis
    by (auto simp: R word_unat_eq_iff split: sum.splits)
qed

text \<open>
  The comparison of layout items ignores the difference between 1-byte and 4-byte fields:
  two such fields are ordered by their index alone.
\<close>

theorem hpb_MtDecoder_CompareFields_small_reps:
  assumes "item_type a = LayoutItemType_Field" "item_type b = LayoutItemType_Field"
    "item_rep a \<in> {FieldRep_1Byte, FieldRep_4Byte}" "item_rep b \<in> {FieldRep_1Byte, FieldRep_4Byte}"
    "field_index a < field_index b"
  shows "hpb_MtDecoder_CompareFields a b = Some (- 1) \<and> hpb_MtDecoder_CompareFields b a = Some 1"
proof -
  have key: "packed_key it = 0x20000 OR ucast (field_index it)"
    if "item_type it = LayoutItemType_Field" "item_rep it \<in> {FieldRep_1Byte, FieldRep_4Byte}" for it
    using that by (auto simp: packed_key_eq)
  have low: "unat (0x20000 OR ucast w :: u32) = 0x20000 + unat w" for w :: u16
  proof -
    have "push_bit 17 (1 :: u32) AND ucast w = 0"
      by (rule bit_eqI) (auto simp: bit_and_iff bit_push_bit_iff bit_1_iff bit_unsigned_iff
          simp del: push_bit_of_1 dest: bit_imp_le_length)
    then have "(0x20000 :: u32) OR ucast w = 0x20000 + ucast w"
      by (simp add: disjunctive_add_eq_or)
    then show ?thesis
      using unsigned_less [of w, where 'a = nat] by (simp add: unat_word_ariths unat_ucast_mod)
  qed
  show ?thesis
    using assms by (auto simp: hpb_MtDecoder_CompareFields_def key word_less_nat_alt word_unat_eq_iff low)
qed

theorem hpb_MtDecoder_CompareFields_small_reps_witness:
  "hpb_MtDecoder_CompareFields (field_item 0 (example_field 1 0 0)) (field_item 1 (example_field 2 0 0\<lparr>f_mode := 2\<rparr>)) = Some (- 1) \<and>
   item_rep (field_item 0 (example_field 1 0 0)) = FieldRep_4Byte \<and>
   item_rep (field_item 1 (example_field 2 0 0\<lparr>f_mode := 2\<rparr>)) = FieldRep_1Byte"
proof -
  have r: "item_rep (field_item 0 (example_field 1 0 0)) = FieldRep_4Byte"
    "item_rep (field_item 1 (example_field 2 0 0\<lparr>f_mode := 2\<rparr>)) = FieldRep_1Byte"
    by code_simp+
  then show ?thesis
    using hpb_MtDecoder_CompareFields_small_reps [of "field_item 0 (example_field 1 0 0)"
        "field_item 1 (example_field 2 0 0\<lparr>f_mode := 2\<rparr>)"]
    by (simp add: field_item_def)
qed

end
