(* ===== verification/MtLink.thy ===== *)
theory MtLink
  imports MiniTable
begin

text \<open>
  Linking of tables to the tables of their sub-messages and enums
  (\<open>mini_descriptor/link.c\<close>): the operations, and what a call of \<open>hpb_MiniTable_Link\<close>
  leaves in the table.

  Tables are named by their addresses; the store \<open>st\<close> gives the table at an address, of which
  only the \<open>ext\<close> byte is read here. A field of the table being linked is named by its index.
\<close>

section \<open>Operations\<close>

definition store_sub ::
  "hpb_MiniTable \<Rightarrow> hpb_MiniTableField \<Rightarrow> hpb_MiniTableSub \<Rightarrow> c_fail + (hpb_MiniTable \<times> bool)" where
  "store_sub t f s =
     (if unat (submsg_index f) < length (t_subs t)
      then Inr (t\<lparr>t_subs := (t_subs t)[unat (submsg_index f) := s]\<rparr>, True)
      else Inl OutOfBounds)"

definition is_map_entry :: "hpb_MiniTable \<Rightarrow> bool" where
  "is_map_entry t \<longleftrightarrow> has_flag (ext_mode t) kHpb_ExtMode_IsMapEntry"

definition map_field :: "hpb_MiniTableField \<Rightarrow> hpb_MiniTableField" where
  "map_field f = f\<lparr>f_mode := (f_mode f AND NOT kHpb_FieldMode_Mask) OR kHpb_FieldMode_Map\<rparr>"

definition hpb_MiniTable_SetSubMessage ::
  "(nat \<Rightarrow> hpb_MiniTable) \<Rightarrow> hpb_MiniTable \<Rightarrow> nat \<Rightarrow> nat option \<Rightarrow> c_fail + (hpb_MiniTable \<times> bool)" where
  "hpb_MiniTable_SetSubMessage st t i sub =
     (if \<not> i < unat (field_count t) then Inl AssertFail
      else case sub of None \<Rightarrow> Inl AssertFail | Some a \<Rightarrow>
        res_bind (array_get (t_fields t) i) (\<lambda>f.
          if descriptortype f = FieldType_Message
          then if is_map_entry (st a)
               then if is_map_entry t then Inr (t, False)
                    else store_sub (t\<lparr>t_fields := (t_fields t)[i := map_field f]\<rparr>) f (SubMsg (Some a))
               else store_sub t f (SubMsg (Some a))
          else if descriptortype f = FieldType_Group
          then if is_map_entry (st a) then Inr (t, False) else store_sub t f (SubMsg (Some a))
          else Inr (t, False)))"

definition hpb_MiniTable_SetSubEnum ::
  "hpb_MiniTable \<Rightarrow> nat \<Rightarrow> nat option \<Rightarrow> c_fail + (hpb_MiniTable \<times> bool)" where
  "hpb_MiniTable_SetSubEnum t i sub =
     (if \<not> i < unat (field_count t) then Inl AssertFail
      else case sub of None \<Rightarrow> Inl AssertFail | Some a \<Rightarrow>
        res_bind (array_get (t_fields t) i) (\<lambda>f. store_sub t f (SubEnum (Some a))))"

text \<open>
  One of the two loops of \<open>hpb_MiniTable_GetSubList\<close>: the fields of one C type are appended to
  the caller's array, which has room for \<open>cap\<close> pointers.
\<close>

fun sub_list_loop ::
  "nat \<Rightarrow> hpb_CType \<Rightarrow> hpb_MiniTable \<Rightarrow> nat list \<Rightarrow> nat list \<Rightarrow> c_fail + nat list" where
  "sub_list_loop cap c mt [] subs = Inr subs"
| "sub_list_loop cap c mt (i # is) subs =
     res_bind (array_get (t_fields mt) i) (\<lambda>f.
       res_bind (hpb_MiniTableField_CType f) (\<lambda>ty.
         if ty = c
         then if length subs < cap then sub_list_loop cap c mt is (subs @ [i]) else Inl OutOfBounds
         else sub_list_loop cap c mt is subs))"

definition hpb_MiniTable_GetSubList :: "nat \<Rightarrow> hpb_MiniTable \<Rightarrow> c_fail + (nat list \<times> u32)" where
  "hpb_MiniTable_GetSubList cap mt =
     res_bind (sub_list_loop cap CType_Message mt [0..<unat (field_count mt)] []) (\<lambda>msgs.
       res_bind (sub_list_loop cap CType_Enum mt [0..<unat (field_count mt)] msgs) (\<lambda>subs.
         let msg_count = of_nat (length msgs); enum_count = of_nat (length subs - length msgs)
         in Inr (subs, push_bit 16 msg_count OR enum_count)))"

text \<open>
  One of the two loops of \<open>hpb_MiniTable_Link\<close>: a field that \<open>sel\<close> selects takes the next element
  of the caller's array, which is read before the count is compared with \<open>sub_count\<close>.
\<close>

fun link_loop ::
  "(hpb_MiniTableField \<Rightarrow> c_fail + bool) \<Rightarrow>
   (hpb_MiniTable \<Rightarrow> nat \<Rightarrow> nat option \<Rightarrow> c_fail + (hpb_MiniTable \<times> bool)) \<Rightarrow>
   nat option list \<Rightarrow> nat \<Rightarrow> nat \<Rightarrow> nat list \<Rightarrow> hpb_MiniTable \<Rightarrow> c_fail + (hpb_MiniTable \<times> bool)" where
  "link_loop sel set_sub subs sub_count count [] mt = Inr (mt, True)"
| "link_loop sel set_sub subs sub_count count (i # is) mt =
     res_bind (array_get (t_fields mt) i) (\<lambda>f.
       res_bind (sel f) (\<lambda>selected.
         if \<not> selected then link_loop sel set_sub subs sub_count count is mt
         else res_bind (array_get subs count) (\<lambda>sub.
           if Suc count > sub_count then Inr (mt, False)
           else if sub = None then link_loop sel set_sub subs sub_count (Suc count) is mt
           else res_bind (set_sub mt i sub) (\<lambda>(mt, ok).
             if ok then link_loop sel set_sub subs sub_count (Suc count) is mt
             else Inr (mt, False)))))"

definition is_message_field :: "hpb_MiniTableField \<Rightarrow> c_fail + bool" where
  "is_message_field f = res_bind (hpb_MiniTableField_CType f) (\<lambda>c. Inr (c = CType_Message))"

definition hpb_MiniTable_Link ::
  "(nat \<Rightarrow> hpb_MiniTable) \<Rightarrow> hpb_MiniTable \<Rightarrow> nat option list \<Rightarrow> nat \<Rightarrow> nat option list \<Rightarrow> nat \<Rightarrow>
   c_fail + (hpb_MiniTable \<times> bool)" where
  "hpb_MiniTable_Link st mt sub_tables sub_table_count sub_enums sub_enum_count =
     res_bind (link_loop is_message_field (hpb_MiniTable_SetSubMessage st) sub_tables sub_table_count 0
                 [0..<unat (field_count mt)] mt) (\<lambda>(mt, ok).
       if ok
       then link_loop (\<lambda>f. Inr (hpb_MiniTableField_IsClosedEnum f)) hpb_MiniTable_SetSubEnum
              sub_enums sub_enum_count 0 [0..<unat (field_count mt)] mt
       else Inr (mt, False))"

section \<open>What a pass of the linker does\<close>

text \<open>
  Linking changes a field only in the mode bits, and nothing of a table but its fields and its
  entries: the rest that the two passes read is the same before and after.
\<close>

definition same_field :: "hpb_MiniTableField \<Rightarrow> hpb_MiniTableField \<Rightarrow> bool" where
  "same_field f g \<longleftrightarrow> f_number f = f_number g \<and> f_offset f = f_offset g \<and>
     f_presence f = f_presence g \<and> submsg_index f = submsg_index g \<and>
     descriptortype f = descriptortype g \<and>
     f_mode f AND NOT kHpb_FieldMode_Mask = f_mode g AND NOT kHpb_FieldMode_Mask"

definition link_frame :: "hpb_MiniTable \<Rightarrow> hpb_MiniTable \<Rightarrow> bool" where
  "link_frame t u \<longleftrightarrow> list_all2 same_field (t_fields t) (t_fields u) \<and>
     u = t\<lparr>t_subs := t_subs u, t_fields := t_fields u\<rparr> \<and> length (t_subs t) = length (t_subs u)"

lemma link_frame_rest:
  assumes "link_frame t u"
  shows "u = t\<lparr>t_subs := t_subs u, t_fields := t_fields u\<rparr>" "field_count u = field_count t" "ext_mode u = ext_mode t"
    "length (t_subs u) = length (t_subs t)"
proof -
  show u: "u = t\<lparr>t_subs := t_subs u, t_fields := t_fields u\<rparr>"
    using assms by (simp add: link_frame_def)
  show "field_count u = field_count t" "ext_mode u = ext_mode t"
    by (subst u, simp)+
  show "length (t_subs u) = length (t_subs t)"
    using assms by (simp add: link_frame_def)
qed

lemma same_field_refl [simp]: "same_field f f"
  by (simp add: same_field_def)

lemma link_frame_refl [simp]: "link_frame t t"
  by (simp add: link_frame_def list.rel_refl)

lemma same_field_trans: "same_field f g \<Longrightarrow> same_field g h \<Longrightarrow> same_field f h"
  by (simp add: same_field_def)

lemma link_frame_trans:
  assumes "link_frame t u" "link_frame u v"
  shows "link_frame t v"
proof -
  have "v = u\<lparr>t_subs := t_subs v, t_fields := t_fields v\<rparr>" "u = t\<lparr>t_subs := t_subs u, t_fields := t_fields u\<rparr>"
    using assms by (simp_all only: link_frame_def)
  then have "v = t\<lparr>t_subs := t_subs v, t_fields := t_fields v\<rparr>"
    by (metis hpb_MiniTable.surjective hpb_MiniTable.update_convs(1,2))
  then show ?thesis
    using assms list_all2_trans [of same_field same_field same_field] same_field_trans
    unfolding link_frame_def by (metis (no_types, lifting))
qed

lemma same_field_map_field [simp]: "same_field f (map_field f)"
  by (simp add: same_field_def map_field_def field_mode_defs)

lemma link_frame_nth:
  "link_frame t u \<Longrightarrow> i < length (t_fields t) \<Longrightarrow>
   i < length (t_fields u) \<and> same_field (t_fields t ! i) (t_fields u ! i)"
  by (auto simp: link_frame_def list_all2_conv_all_nth)

lemma same_field_alternate:
  assumes "same_field f g"
  shows "has_flag (f_mode f) kHpb_LabelFlags_IsAlternate \<longleftrightarrow> has_flag (f_mode g) kHpb_LabelFlags_IsAlternate"
proof -
  have "x AND 16 = (x AND NOT 3) AND 16" for x :: byte
    by (simp add: and.assoc)
  then show ?thesis
    using assms by (metis (no_types) same_field_def has_flag_def kHpb_LabelFlags_IsAlternate_def
        kHpb_FieldMode_Mask_def)
qed

lemma same_field_CType: "same_field f g \<Longrightarrow> hpb_MiniTableField_CType f = hpb_MiniTableField_CType g"
  using same_field_alternate [of f g]
  by (simp add: hpb_MiniTableField_CType_def hpb_MiniTableField_Type_def same_field_def)

definition sub_at :: "hpb_MiniTable \<Rightarrow> nat \<Rightarrow> nat" where
  "sub_at t i = unat (submsg_index (t_fields t ! i))"

definition selected ::
  "(hpb_MiniTableField \<Rightarrow> c_fail + bool) \<Rightarrow> hpb_MiniTable \<Rightarrow> nat list \<Rightarrow> nat list" where
  "selected sel t is = filter (\<lambda>i. sel (t_fields t ! i) = Inr True) is"

text \<open>The entries of \<open>subs\<close> after the non-null pointers of the caller have been stored.\<close>

fun sub_writes ::
  "(nat \<Rightarrow> hpb_MiniTableSub) \<Rightarrow> hpb_MiniTable \<Rightarrow> nat list \<Rightarrow> nat option list \<Rightarrow>
   hpb_MiniTableSub list \<Rightarrow> hpb_MiniTableSub list" where
  "sub_writes mk t (i # is) (Some a # ps) subs = sub_writes mk t is ps (subs[sub_at t i := mk a])"
| "sub_writes mk t (i # is) (None # ps) subs = sub_writes mk t is ps subs"
| "sub_writes mk t is ps subs = subs"

lemma length_sub_writes [simp]: "length (sub_writes mk t is ps subs) = length subs"
  by (induction mk t "is" ps subs rule: sub_writes.induct) simp_all

lemma sub_writes_other: "k \<notin> sub_at t ` set is \<Longrightarrow> sub_writes mk t is ps subs ! k = subs ! k"
  by (induction mk t "is" ps subs rule: sub_writes.induct) auto

lemma sub_writes_nth:
  "distinct (map (sub_at t) is) \<Longrightarrow> j < length is \<Longrightarrow> length is \<le> length ps \<Longrightarrow>
   \<forall>i \<in> set is. sub_at t i < length subs \<Longrightarrow>
   sub_writes mk t is ps subs ! sub_at t (is ! j) =
     (case ps ! j of None \<Rightarrow> subs ! sub_at t (is ! j) | Some a \<Rightarrow> mk a)"
proof (induction mk t "is" ps subs arbitrary: j rule: sub_writes.induct)
  case (1 mk t i "is" a ps subs)
  show ?case
  proof (cases j)
    case 0
    then show ?thesis
      using 1 sub_writes_other [of "sub_at t i" t "is"] by simp
  next
    case (Suc k)
    then have "sub_at t (is ! k) \<noteq> sub_at t i"
      using 1(2,3) by (simp, metis imageI nth_mem)
    then show ?thesis
      using 1 Suc by (simp split: option.split)
  qed
next
  case (2 mk t i "is" ps subs)
  show ?case
  proof (cases j)
    case 0
    then show ?thesis
      using 2 sub_writes_other [of "sub_at t i" t "is"] by simp
  next
    case (Suc k)
    then show ?thesis
      using 2 by (simp split: option.split)
  qed
qed simp_all

lemma sub_at_frame: "link_frame t u \<Longrightarrow> i < length (t_fields t) \<Longrightarrow> sub_at u i = sub_at t i"
  using link_frame_nth [of t u i] by (simp add: sub_at_def same_field_def)

lemma sub_writes_frame:
  "link_frame t u \<Longrightarrow> \<forall>i \<in> set is. i < length (t_fields t) \<Longrightarrow>
   sub_writes mk u is ps subs = sub_writes mk t is ps subs"
  by (induction mk u "is" ps subs rule: sub_writes.induct) (simp_all add: sub_at_frame)

text \<open>The fields after those linked to a table have been adjusted to it.\<close>

fun field_writes ::
  "(nat \<Rightarrow> 'f \<Rightarrow> 'f) \<Rightarrow> nat list \<Rightarrow> nat option list \<Rightarrow> 'f list \<Rightarrow> 'f list" where
  "field_writes adj (i # is) (Some a # ps) fs = field_writes adj is ps (fs[i := adj a (fs ! i)])"
| "field_writes adj (i # is) (None # ps) fs = field_writes adj is ps fs"
| "field_writes adj is ps fs = fs"

lemma field_writes_other: "k \<notin> set is \<Longrightarrow> field_writes adj is ps fs ! k = fs ! k"
  by (induction adj "is" ps fs rule: field_writes.induct) auto

lemma field_writes_nth:
  "distinct is \<Longrightarrow> j < length is \<Longrightarrow> length is \<le> length ps \<Longrightarrow> \<forall>i \<in> set is. i < length fs \<Longrightarrow>
   field_writes adj is ps fs ! (is ! j) =
     (case ps ! j of None \<Rightarrow> fs ! (is ! j) | Some a \<Rightarrow> adj a (fs ! (is ! j)))"
proof (induction adj "is" ps fs arbitrary: j rule: field_writes.induct)
  case (1 adj i "is" a ps fs)
  have "i \<noteq> is ! k" if "k < length is" for k
    using 1(2) that nth_mem by fastforce
  with 1 show ?case
    by (cases j) (simp_all add: field_writes_other split: option.split)
next
  case (2 adj i "is" ps fs)
  then show ?case
    by (cases j) (simp_all add: field_writes_other split: option.split)
qed simp_all

lemma field_writes_id: "field_writes (\<lambda>a f. f) is ps fs = fs"
  by (induction "\<lambda>(a :: nat) (f :: 'a). f" "is" ps fs rule: field_writes.induct) simp_all

locale link_pass =
  fixes sel :: "hpb_MiniTableField \<Rightarrow> c_fail + bool"
    and set_sub :: "hpb_MiniTable \<Rightarrow> nat \<Rightarrow> nat option \<Rightarrow> c_fail + (hpb_MiniTable \<times> bool)"
    and mk :: "nat \<Rightarrow> hpb_MiniTableSub"
    and adj :: "nat \<Rightarrow> hpb_MiniTableField \<Rightarrow> hpb_MiniTableField"
    and accepts :: "hpb_MiniTable \<Rightarrow> hpb_MiniTableField \<Rightarrow> nat \<Rightarrow> bool"
  assumes sel_frame: "same_field f g \<Longrightarrow> sel f = sel g"
    and accepts_frame: "link_frame t u \<Longrightarrow> same_field f g \<Longrightarrow> accepts t f a = accepts u g a"
    and set_ok: "i < unat (field_count t) \<Longrightarrow> i < length (t_fields t) \<Longrightarrow>
      sel (t_fields t ! i) = Inr True \<Longrightarrow> sub_at t i < length (t_subs t) \<Longrightarrow>
      accepts t (t_fields t ! i) a \<Longrightarrow>
      \<exists>u. set_sub t i (Some a) = Inr (u, True) \<and> link_frame t u \<and>
        t_subs u = (t_subs t)[sub_at t i := mk a] \<and>
        t_fields u = (t_fields t)[i := adj a (t_fields t ! i)]"
begin

lemma selected_frame:
  "link_frame t u \<Longrightarrow> \<forall>i \<in> set is. i < length (t_fields t) \<Longrightarrow> selected sel u is = selected sel t is"
proof -
  assume *: "link_frame t u" "\<forall>i \<in> set is. i < length (t_fields t)"
  have "sel (t_fields u ! i) = sel (t_fields t ! i)" if "i \<in> set is" for i
    using link_frame_nth [OF *(1)] *(2) that sel_frame [of "t_fields t ! i" "t_fields u ! i"] by simp
  then show ?thesis
    by (auto simp: selected_def intro: filter_cong)
qed

lemma pass_links:
  "\<forall>i \<in> set is. i < unat (field_count t) \<and> i < length (t_fields t) \<and> (\<exists>b. sel (t_fields t ! i) = Inr b) \<Longrightarrow>
   \<forall>i \<in> set (selected sel t is). sub_at t i < length (t_subs t) \<Longrightarrow>
   count + length (selected sel t is) \<le> sub_count \<Longrightarrow> sub_count \<le> length ps \<Longrightarrow>
   \<forall>(i, p) \<in> set (zip (selected sel t is) (drop count ps)).
     \<forall>a. p = Some a \<longrightarrow> accepts t (t_fields t ! i) a \<Longrightarrow>
   \<exists>u. link_loop sel set_sub ps sub_count count is t = Inr (u, True) \<and> link_frame t u \<and>
     t_subs u = sub_writes mk t (selected sel t is) (drop count ps) (t_subs t) \<and>
     t_fields u = field_writes adj (selected sel t is) (drop count ps) (t_fields t)"
proof (induction "is" arbitrary: t count)
  case Nil
  then show ?case by (simp add: selected_def)
next
  case (Cons i "is")
  show ?case
  proof (cases "sel (t_fields t ! i) = Inr True")
    case False
    then have "sel (t_fields t ! i) = Inr False" "selected sel t (i # is) = selected sel t is"
      using Cons.prems(1) by (auto simp: selected_def)
    then show ?thesis
      using Cons.IH [of t count] Cons.prems by auto
  next
    case True
    then have s: "selected sel t (i # is) = i # selected sel t is"
      by (simp add: selected_def)
    have c: "count < length ps" "Suc count \<le> sub_count"
      using Cons.prems(3,4) s by simp_all
    then have d: "drop count ps = ps ! count # drop (Suc count) ps"
      by (simp add: Cons_nth_drop_Suc)
    show ?thesis
    proof (cases "ps ! count")
      case None
      have "\<exists>u. link_loop sel set_sub ps sub_count (Suc count) is t = Inr (u, True) \<and> link_frame t u \<and>
          t_subs u = sub_writes mk t (selected sel t is) (drop (Suc count) ps) (t_subs t) \<and>
          t_fields u = field_writes adj (selected sel t is) (drop (Suc count) ps) (t_fields t)"
        using Cons.IH [of t "Suc count"] Cons.prems s d by auto
      then show ?thesis
        using None True c s d Cons.prems(1) by auto
    next
      case (Some a)
      then have acc: "accepts t (t_fields t ! i) a"
        using Cons.prems(5) s d by auto
      obtain v where v: "set_sub t i (Some a) = Inr (v, True)" "link_frame t v"
        "t_subs v = (t_subs t)[sub_at t i := mk a]" "t_fields v = (t_fields t)[i := adj a (t_fields t ! i)]"
        using set_ok [OF _ _ True _ acc] Cons.prems(1,2) s by auto
      have inr: "\<forall>j \<in> set (i # is). j < length (t_fields t)"
        using Cons.prems(1) by simp
      have s': "selected sel v is = selected sel t is"
        using selected_frame [OF v(2)] inr by simp
      have fields: "j < length (t_fields v) \<and> same_field (t_fields t ! j) (t_fields v ! j) \<and>
          sub_at v j = sub_at t j" if "j \<in> set is" for j
        using link_frame_nth [OF v(2)] sub_at_frame [OF v(2)] inr that by simp
      have sel_is: "set (selected sel t is) \<subseteq> set is"
        by (auto simp: selected_def)
      have "\<exists>u. link_loop sel set_sub ps sub_count (Suc count) is v = Inr (u, True) \<and> link_frame v u \<and>
          t_subs u = sub_writes mk v (selected sel v is) (drop (Suc count) ps) (t_subs v) \<and>
          t_fields u = field_writes adj (selected sel v is) (drop (Suc count) ps) (t_fields v)"
      proof (rule Cons.IH)
        have fc: "field_count v = field_count t"
          by (rule link_frame_rest(2) [OF v(2)])
        then show "\<forall>j \<in> set is. j < unat (field_count v) \<and> j < length (t_fields v) \<and>
            (\<exists>b. sel (t_fields v ! j) = Inr b)"
          using Cons.prems(1) fields sel_frame by (metis list.set_intros(2))
        show "\<forall>j \<in> set (selected sel v is). sub_at v j < length (t_subs v)"
          using Cons.prems(2) s s' fields sel_is v(3) by auto
        show "Suc count + length (selected sel v is) \<le> sub_count" "sub_count \<le> length ps"
          using Cons.prems(3,4) s s' by simp_all
        show "\<forall>(j, p) \<in> set (zip (selected sel v is) (drop (Suc count) ps)).
            \<forall>b. p = Some b \<longrightarrow> accepts v (t_fields v ! j) b"
        proof (safe)
          fix j b assume j: "(j, Some b) \<in> set (zip (selected sel v is) (drop (Suc count) ps))"
          then have "j \<in> set is"
            using s' sel_is set_zip_leftD by fastforce
          moreover have "accepts t (t_fields t ! j) b"
            using Cons.prems(5) s s' d j by auto
          ultimately show "accepts v (t_fields v ! j) b"
            using fields accepts_frame [OF v(2)] by blast
        qed
      qed
      then obtain u where u: "link_loop sel set_sub ps sub_count (Suc count) is v = Inr (u, True)"
        "link_frame v u" "t_subs u = sub_writes mk v (selected sel v is) (drop (Suc count) ps) (t_subs v)"
        "t_fields u = field_writes adj (selected sel v is) (drop (Suc count) ps) (t_fields v)"
        by blast
      moreover have "t_subs u = sub_writes mk t (selected sel t (i # is)) (drop count ps) (t_subs t)"
        using u(3) s s' d Some v(3) sub_writes_frame [OF v(2)] inr sel_is by (simp add: subset_iff)
      moreover have "t_fields u = field_writes adj (selected sel t (i # is)) (drop count ps) (t_fields t)"
        using u(4) s s' d Some v(4) by simp
      ultimately show ?thesis
        using Some True c v link_frame_trans Cons.prems(1) by auto
    qed
  qed
qed

end

text \<open>A sub-message is refused when it is a map entry and the field cannot be a map.\<close>

definition accepts_sub :: "(nat \<Rightarrow> hpb_MiniTable) \<Rightarrow> hpb_MiniTable \<Rightarrow> hpb_MiniTableField \<Rightarrow> nat \<Rightarrow> bool" where
  "accepts_sub st t f a \<longleftrightarrow>
     (is_map_entry (st a) \<longrightarrow> descriptortype f = FieldType_Message \<and> \<not> is_map_entry t)"

definition adjust_field :: "(nat \<Rightarrow> hpb_MiniTable) \<Rightarrow> nat \<Rightarrow> hpb_MiniTableField \<Rightarrow> hpb_MiniTableField" where
  "adjust_field st a f = (if is_map_entry (st a) then map_field f else f)"

lemma CType_Message_iff:
  "hpb_MiniTableField_CType f = Inr CType_Message \<longleftrightarrow>
   hpb_IsSubMessage f \<and> \<not> has_flag (f_mode f) kHpb_LabelFlags_IsAlternate"
  by (cases "descriptortype f")
    (auto simp: hpb_MiniTableField_CType_def hpb_MiniTableField_Type_def hpb_IsSubMessage_def)

lemma is_message_field_True:
  "is_message_field f = Inr True \<longleftrightarrow> hpb_MiniTableField_CType f = Inr CType_Message"
  by (cases "hpb_MiniTableField_CType f") (simp_all add: is_message_field_def)

lemma link_frame_store:
  "sub_at t i < length (t_subs t) \<Longrightarrow>
   link_frame t (t\<lparr>t_subs := (t_subs t)[sub_at t i := s]\<rparr>)"
  by (simp add: link_frame_def list.rel_refl)

lemma link_frame_map_field:
  assumes "i < length (t_fields t)"
  shows "link_frame t (t\<lparr>t_fields := (t_fields t)[i := map_field (t_fields t ! i)], t_subs := (t_subs t)[k := s]\<rparr>)"
  using assms by (simp add: link_frame_def list_all2_conv_all_nth nth_list_update)

interpretation message_pass: link_pass is_message_field "hpb_MiniTable_SetSubMessage st"
  "\<lambda>a. SubMsg (Some a)" "adjust_field st" "accepts_sub st" for st
proof
  show "same_field f g \<Longrightarrow> is_message_field f = is_message_field g" for f g
    by (simp add: is_message_field_def same_field_CType)
  show "link_frame t u \<Longrightarrow> same_field f g \<Longrightarrow> accepts_sub st t f a = accepts_sub st u g a" for t u f g a
    by (simp add: accepts_sub_def link_frame_rest(3) same_field_def is_map_entry_def)
next
  fix i t a
  assume *: "i < unat (field_count t)" "i < length (t_fields t)" "is_message_field (t_fields t ! i) = Inr True"
    "sub_at t i < length (t_subs t)" "accepts_sub st t (t_fields t ! i) a"
  then have "descriptortype (t_fields t ! i) = FieldType_Message \<or> descriptortype (t_fields t ! i) = FieldType_Group"
    by (simp add: is_message_field_True CType_Message_iff hpb_IsSubMessage_def)
  then show "\<exists>u. hpb_MiniTable_SetSubMessage st t i (Some a) = Inr (u, True) \<and> link_frame t u \<and>
      t_subs u = (t_subs t)[sub_at t i := SubMsg (Some a)] \<and>
      t_fields u = (t_fields t)[i := adjust_field st a (t_fields t ! i)]"
    using * link_frame_store [OF *(4)] link_frame_map_field [OF *(2)]
    by (auto simp: hpb_MiniTable_SetSubMessage_def store_sub_def accepts_sub_def sub_at_def
        adjust_field_def)
qed

interpretation enum_pass: link_pass "\<lambda>f. Inr (hpb_MiniTableField_IsClosedEnum f)"
  hpb_MiniTable_SetSubEnum "\<lambda>a. SubEnum (Some a)" "\<lambda>a f. f" "\<lambda>t f a. True"
proof
  show "same_field f g \<Longrightarrow> (Inr (hpb_MiniTableField_IsClosedEnum f) :: c_fail + bool) =
      Inr (hpb_MiniTableField_IsClosedEnum g)" for f g
    by (simp add: hpb_MiniTableField_IsClosedEnum_def same_field_def)
next
  fix i t a
  assume *: "i < unat (field_count t)" "i < length (t_fields t)" "sub_at t i < length (t_subs t)"
  then show "\<exists>u. hpb_MiniTable_SetSubEnum t i (Some a) = Inr (u, True) \<and> link_frame t u \<and>
      t_subs u = (t_subs t)[sub_at t i := SubEnum (Some a)] \<and> t_fields u = (t_fields t)[i := t_fields t ! i]"
    using link_frame_store [OF *(3)] by (simp add: hpb_MiniTable_SetSubEnum_def store_sub_def sub_at_def)
qed simp

section \<open>The list of sub-tables\<close>

definition ctype_fields :: "hpb_CType \<Rightarrow> hpb_MiniTable \<Rightarrow> nat list" where
  "ctype_fields c t = filter (\<lambda>i. hpb_MiniTableField_CType (t_fields t ! i) = Inr c) [0..<length (t_fields t)]"

abbreviation enum_fields :: "hpb_MiniTable \<Rightarrow> nat list" where
  "enum_fields \<equiv> ctype_fields CType_Enum"

lemma sub_list_loop_filter:
  "\<forall>i \<in> set is. i < length (t_fields t) \<and> (\<exists>ty. hpb_MiniTableField_CType (t_fields t ! i) = Inr ty) \<Longrightarrow>
   length subs + length (filter (\<lambda>i. hpb_MiniTableField_CType (t_fields t ! i) = Inr c) is) \<le> cap \<Longrightarrow>
   sub_list_loop cap c t is subs =
     Inr (subs @ filter (\<lambda>i. hpb_MiniTableField_CType (t_fields t ! i) = Inr c) is)"
  by (induction cap c t "is" subs rule: sub_list_loop.induct) (auto simp: array_get_def)

lemma filter_nth_later:
  "j < length (filter P xs) \<Longrightarrow> \<exists>m \<ge> j. m < length xs \<and> filter P xs ! j = xs ! m"
proof (induction xs arbitrary: j)
  case (Cons x xs)
  show ?case
  proof (cases "P x")
    case False
    then obtain m where "j \<le> m" "m < length xs" "filter P xs ! j = xs ! m"
      using Cons by auto
    then show ?thesis
      using False by (intro exI [of _ "Suc m"]) simp
  next
    case True
    show ?thesis
    proof (cases j)
      case (Suc k)
      then obtain m where "k \<le> m" "m < length xs" "filter P xs ! k = xs ! m"
        using Cons True by auto
      then show ?thesis
        using True Suc by (intro exI [of _ "Suc m"]) simp
    qed (use True in auto)
  qed
qed simp

text \<open>An element left out before a position shifts what the filtered list has there.\<close>

lemma filter_nth_shift:
  "distinct xs \<Longrightarrow> j < length (filter P xs) \<Longrightarrow> k \<le> j \<Longrightarrow> \<not> P (xs ! k) \<Longrightarrow> xs ! j \<noteq> filter P xs ! j"
proof (induction xs arbitrary: j k)
  case (Cons x xs)
  show ?case
  proof (cases "P x")
    case False
    then obtain m where "j \<le> m" "m < length xs" "filter P xs ! j = (x # xs) ! Suc m"
      using Cons.prems(2) filter_nth_later [of j P xs] by auto
    then show ?thesis
      using False Cons.prems(1) nth_eq_iff_index_eq [of "x # xs" j "Suc m"] by auto
  next
    case True
    then obtain j' k' where "j = Suc j'" "k = Suc k'"
      using Cons.prems by (cases j; cases k) auto
    then show ?thesis
      using Cons True by auto
  qed
qed simp

section \<open>Linking a table\<close>

definition message_fields :: "hpb_MiniTable \<Rightarrow> nat list" where
  "message_fields t = filter (\<lambda>i. hpb_IsSubMessage (t_fields t ! i)) [0..<length (t_fields t)]"

definition closed_enum_fields :: "hpb_MiniTable \<Rightarrow> nat list" where
  "closed_enum_fields t = filter (\<lambda>i. hpb_MiniTableField_IsClosedEnum (t_fields t ! i)) [0..<length (t_fields t)]"

text \<open>
  The tables the linker is meant for: every field has a type, and the fields that need a
  sub-table have distinct entries in \<open>subs\<close>.
\<close>

definition linkable :: "hpb_MiniTable \<Rightarrow> bool" where
  "linkable t \<longleftrightarrow> unat (field_count t) = length (t_fields t) \<and>
     (\<forall>f \<in> set (t_fields t). \<exists>c. hpb_MiniTableField_CType f = Inr c) \<and>
     (\<forall>i \<in> set (message_fields t @ closed_enum_fields t). sub_at t i < length (t_subs t)) \<and>
     distinct (map (sub_at t) (message_fields t @ closed_enum_fields t))"

lemma CType_IsSubMessage:
  "hpb_MiniTableField_CType f = Inr c \<Longrightarrow> hpb_IsSubMessage f \<longleftrightarrow> c = CType_Message"
  by (cases "descriptortype f")
    (auto simp: hpb_MiniTableField_CType_def hpb_MiniTableField_Type_def hpb_IsSubMessage_def split: if_splits)

lemma linkable_CType:
  "linkable t \<Longrightarrow> i < length (t_fields t) \<Longrightarrow> \<exists>c. hpb_MiniTableField_CType (t_fields t ! i) = Inr c"
  using nth_mem by (auto simp: linkable_def simp del: nth_mem)

lemma message_fields_ctype: "linkable t \<Longrightarrow> ctype_fields CType_Message t = message_fields t"
  unfolding ctype_fields_def message_fields_def
  by (intro filter_cong refl) (use linkable_CType CType_IsSubMessage in fastforce)

lemma closed_enum_fields_filter:
  assumes "linkable t"
  shows "closed_enum_fields t = filter (\<lambda>i. hpb_MiniTableField_IsClosedEnum (t_fields t ! i)) (enum_fields t)"
proof -
  have "hpb_MiniTableField_CType (t_fields t ! i) = Inr CType_Enum"
    if "i < length (t_fields t)" "hpb_MiniTableField_IsClosedEnum (t_fields t ! i)" for i
    using linkable_CType [OF assms that(1)] that(2)
    by (auto simp: hpb_MiniTableField_IsClosedEnum_def hpb_MiniTableField_CType_def hpb_MiniTableField_Type_def
        split: if_splits)
  then show ?thesis
    unfolding closed_enum_fields_def ctype_fields_def filter_filter by (intro filter_cong) auto
qed

lemma GetSubList_fields:
  assumes t: "linkable t" and cap: "length (message_fields t) + length (enum_fields t) \<le> cap"
  shows "hpb_MiniTable_GetSubList cap t = Inr (message_fields t @ enum_fields t,
      push_bit 16 (of_nat (length (message_fields t))) OR of_nat (length (enum_fields t)))"
proof -
  have n: "unat (field_count t) = length (t_fields t)"
    using t by (simp add: linkable_def)
  have "sub_list_loop cap c t [0..<length (t_fields t)] subs = Inr (subs @ ctype_fields c t)"
    if "length subs + length (ctype_fields c t) \<le> cap" for c subs
    using sub_list_loop_filter [of "[0..<length (t_fields t)]" t subs c cap] linkable_CType [OF t] that
    by (simp add: ctype_fields_def)
  from this [of "[]" CType_Message] this [of "message_fields t" CType_Enum] show ?thesis
    using cap by (simp add: hpb_MiniTable_GetSubList_def n message_fields_ctype [OF t] Let_def)
qed

lemma selected_messages:
  assumes "linkable t"
  shows "selected is_message_field t [0..<length (t_fields t)] = message_fields t"
  unfolding selected_def message_fields_def
proof (intro filter_cong refl)
  fix i assume "i \<in> set [0..<length (t_fields t)]"
  then obtain c where "hpb_MiniTableField_CType (t_fields t ! i) = Inr c"
    using linkable_CType [OF assms] by auto
  then show "is_message_field (t_fields t ! i) = Inr True \<longleftrightarrow> hpb_IsSubMessage (t_fields t ! i)"
    by (simp add: is_message_field_def CType_IsSubMessage)
qed

lemma selected_enums:
  "selected (\<lambda>f. Inr (hpb_MiniTableField_IsClosedEnum f)) t [0..<length (t_fields t)] = closed_enum_fields t"
  by (simp add: selected_def closed_enum_fields_def)

lemma link_frame_length: "link_frame t u \<Longrightarrow> length (t_fields u) = length (t_fields t)"
  by (auto simp: link_frame_def dest: list_all2_lengthD)

lemma closed_enum_fields_frame: "link_frame t u \<Longrightarrow> closed_enum_fields u = closed_enum_fields t"
  using enum_pass.selected_frame [of t u "[0..<length (t_fields t)]"] link_frame_length [of t u]
  by (simp add: selected_enums [symmetric])

lemma distinct_fields [simp]: "distinct (message_fields t)" "distinct (closed_enum_fields t)"
  by (simp_all add: message_fields_def closed_enum_fields_def)

lemma fields_bound:
  "i \<in> set (message_fields t) \<Longrightarrow> i < length (t_fields t)"
  "i \<in> set (closed_enum_fields t) \<Longrightarrow> i < length (t_fields t)"
  by (simp_all add: message_fields_def closed_enum_fields_def)

lemma Link_messages:
  assumes t: "linkable t" and len: "length (message_fields t) \<le> length tables"
    and acc: "\<forall>j < length (message_fields t). \<forall>a. tables ! j = Some a \<longrightarrow> accepts_sub st t (t_fields t ! (message_fields t ! j)) a"
  shows "\<exists>u. link_loop is_message_field (hpb_MiniTable_SetSubMessage st) tables (length tables) 0
      [0..<unat (field_count t)] t = Inr (u, True) \<and> link_frame t u \<and>
    t_subs u = sub_writes (\<lambda>a. SubMsg (Some a)) t (message_fields t) tables (t_subs t) \<and>
    t_fields u = field_writes (adjust_field st) (message_fields t) tables (t_fields t)"
proof -
  have n: "unat (field_count t) = length (t_fields t)"
    using t by (simp add: linkable_def)
  have "\<exists>b. is_message_field (t_fields t ! i) = Inr b" if "i < length (t_fields t)" for i
    using linkable_CType [OF t that] by (auto simp: is_message_field_def)
  moreover have "\<forall>(i, p) \<in> set (zip (message_fields t) tables). \<forall>a. p = Some a \<longrightarrow> accepts_sub st t (t_fields t ! i) a"
    using acc len by (auto simp: set_zip)
  ultimately show ?thesis
    using message_pass.pass_links [of "[0..<length (t_fields t)]" t 0 "length tables" tables st] t len
    by (simp add: n selected_messages [OF t] linkable_def)
qed

lemma Link_enums:
  assumes t: "linkable t" and u: "link_frame t u" and len: "length (closed_enum_fields t) \<le> length enums"
  shows "\<exists>v. link_loop (\<lambda>f. Inr (hpb_MiniTableField_IsClosedEnum f)) hpb_MiniTable_SetSubEnum enums
      (length enums) 0 [0..<unat (field_count u)] u = Inr (v, True) \<and> link_frame t v \<and>
    t_subs v = sub_writes (\<lambda>a. SubEnum (Some a)) t (closed_enum_fields t) enums (t_subs u) \<and>
    t_fields v = field_writes (\<lambda>a f. f) (closed_enum_fields t) enums (t_fields u)"
proof -
  have n: "unat (field_count u) = length (t_fields u)" "length (t_fields u) = length (t_fields t)"
    "length (t_subs u) = length (t_subs t)"
    using t link_frame_rest [OF u] link_frame_length [OF u] by (simp_all add: linkable_def)
  have s: "selected (\<lambda>f. Inr (hpb_MiniTableField_IsClosedEnum f)) u [0..<length (t_fields t)] = closed_enum_fields t"
    using selected_enums [of u] closed_enum_fields_frame [OF u] n by simp
  have "\<forall>i \<in> set (closed_enum_fields t). sub_at u i < length (t_subs u)"
    using t sub_at_frame [OF u] fields_bound(2) [of _ t] n by (simp add: linkable_def)
  then show ?thesis
    using enum_pass.pass_links [of "[0..<length (t_fields t)]" u 0 "length enums" enums]
      len s n link_frame_trans [OF u] sub_writes_frame [OF u] fields_bound(2) [of _ t] by auto
qed

text \<open>
  C12: a table whose fields are linkable, with arrays that hold one pointer for each sub-message
  field and one for each closed enum field, is linked without an error when no map entry is given
  for a group or for a field of a map entry. The entry of the \<open>j\<close>-th sub-message field is then the
  \<open>j\<close>-th table, the entry of the \<open>j\<close>-th closed enum field the \<open>j\<close>-th enum, entries given as
  \<open>NULL\<close> keep what they had, and a field linked to a map entry becomes a map field. Every other
  field, every other entry and the rest of the table, its size, counts, modes and masks, are
  unchanged.
\<close>

theorem hpb_MiniTable_Link_correct:
  assumes t: "linkable t" and tables: "length (message_fields t) \<le> length tables"
    and enums: "length (closed_enum_fields t) \<le> length enums"
    and acc: "\<forall>j < length (message_fields t). \<forall>a. tables ! j = Some a \<longrightarrow>
      accepts_sub st t (t_fields t ! (message_fields t ! j)) a"
  shows "\<exists>u. hpb_MiniTable_Link st t tables (length tables) enums (length enums) = Inr (u, True) \<and>
    (\<forall>j < length (message_fields t). let i = message_fields t ! j in
       t_subs u ! sub_at t i = (case tables ! j of None \<Rightarrow> t_subs t ! sub_at t i | Some a \<Rightarrow> SubMsg (Some a)) \<and>
       t_fields u ! i = (case tables ! j of None \<Rightarrow> t_fields t ! i | Some a \<Rightarrow> adjust_field st a (t_fields t ! i))) \<and>
    (\<forall>j < length (closed_enum_fields t). let i = closed_enum_fields t ! j in
       t_subs u ! sub_at t i = (case enums ! j of None \<Rightarrow> t_subs t ! sub_at t i | Some a \<Rightarrow> SubEnum (Some a))) \<and>
    (\<forall>i < length (t_fields t). \<not> hpb_IsSubMessage (t_fields t ! i) \<longrightarrow> t_fields u ! i = t_fields t ! i) \<and>
    (\<forall>k < length (t_subs t). k \<notin> sub_at t ` set (message_fields t @ closed_enum_fields t) \<longrightarrow>
       t_subs u ! k = t_subs t ! k) \<and>
    length (t_fields u) = length (t_fields t) \<and> length (t_subs u) = length (t_subs t) \<and>
    u = t\<lparr>t_subs := t_subs u, t_fields := t_fields u\<rparr>"
proof -
  obtain u where u: "link_loop is_message_field (hpb_MiniTable_SetSubMessage st) tables (length tables) 0
      [0..<unat (field_count t)] t = Inr (u, True)" "link_frame t u"
    and u_subs: "t_subs u = sub_writes (\<lambda>a. SubMsg (Some a)) t (message_fields t) tables (t_subs t)"
    and u_fields: "t_fields u = field_writes (adjust_field st) (message_fields t) tables (t_fields t)"
    using Link_messages [OF t tables acc] by blast
  obtain v where v: "link_loop (\<lambda>f. Inr (hpb_MiniTableField_IsClosedEnum f)) hpb_MiniTable_SetSubEnum enums
      (length enums) 0 [0..<unat (field_count u)] u = Inr (v, True)" and v_frame: "link_frame t v"
    and v_subs: "t_subs v = sub_writes (\<lambda>a. SubEnum (Some a)) t (closed_enum_fields t) enums (t_subs u)"
    and v_fields: "t_fields v = field_writes (\<lambda>a f. f) (closed_enum_fields t) enums (t_fields u)"
    using Link_enums [OF t u(2) enums] by blast
  have link: "hpb_MiniTable_Link st t tables (length tables) enums (length enums) = Inr (v, True)"
    using u(1) v by (simp add: hpb_MiniTable_Link_def)
  note rest = link_frame_rest(1,4) [OF v_frame] link_frame_length [OF v_frame]
  have d: "distinct (map (sub_at t) (message_fields t))" "distinct (map (sub_at t) (closed_enum_fields t))"
    "sub_at t ` set (message_fields t) \<inter> sub_at t ` set (closed_enum_fields t) = {}"
    "\<forall>i \<in> set (message_fields t). sub_at t i < length (t_subs t)"
    "\<forall>i \<in> set (closed_enum_fields t). sub_at t i < length (t_subs t)"
    using t by (simp_all add: linkable_def)
  have fields: "t_fields v ! i = t_fields u ! i" if "i < length (t_fields t)" for i
    using v_fields by (simp add: field_writes_id)
  have msg: "t_subs v ! sub_at t i = t_subs u ! sub_at t i" if "i \<in> set (message_fields t)" for i
    using d(3) that unfolding v_subs by (intro sub_writes_other) blast
  have enum: "t_subs u ! sub_at t i = t_subs t ! sub_at t i" if "i \<in> set (closed_enum_fields t)" for i
    using d(3) that unfolding u_subs by (intro sub_writes_other) blast
  show ?thesis
  proof (intro exI conjI allI impI)
    show "hpb_MiniTable_Link st t tables (length tables) enums (length enums) = Inr (v, True)"
      by (rule link)
  next
    fix j assume j: "j < length (message_fields t)"
    then have i: "message_fields t ! j \<in> set (message_fields t)"
      using tables by simp
    show "let i = message_fields t ! j in
       t_subs v ! sub_at t i = (case tables ! j of None \<Rightarrow> t_subs t ! sub_at t i | Some a \<Rightarrow> SubMsg (Some a)) \<and>
       t_fields v ! i = (case tables ! j of None \<Rightarrow> t_fields t ! i | Some a \<Rightarrow> adjust_field st a (t_fields t ! i))"
      using j tables msg [OF i] fields [OF fields_bound(1) [OF i]] fields_bound(1) [of _ t]
        sub_writes_nth [OF d(1) _ _ d(4), of j tables "\<lambda>a. SubMsg (Some a)"]
        field_writes_nth [of "message_fields t" j tables "t_fields t" "adjust_field st"]
      by (simp add: Let_def u_subs u_fields)
  next
    fix j assume j: "j < length (closed_enum_fields t)"
    then have i: "closed_enum_fields t ! j \<in> set (closed_enum_fields t)"
      using enums by simp
    show "let i = closed_enum_fields t ! j in
       t_subs v ! sub_at t i = (case enums ! j of None \<Rightarrow> t_subs t ! sub_at t i | Some a \<Rightarrow> SubEnum (Some a))"
      using j enums enum [OF i] d(5) u_subs
        sub_writes_nth [OF d(2), of j enums "t_subs u" "\<lambda>a. SubEnum (Some a)"]
      by (simp add: Let_def v_subs split: option.split)
  next
    fix i assume i: "i < length (t_fields t)" "\<not> hpb_IsSubMessage (t_fields t ! i)"
    then have "i \<notin> set (message_fields t)"
      by (simp add: message_fields_def)
    then show "t_fields v ! i = t_fields t ! i"
      using fields [OF i(1)] by (simp add: u_fields field_writes_other)
  next
    fix k assume "k \<notin> sub_at t ` set (message_fields t @ closed_enum_fields t)"
    then show "t_subs v ! k = t_subs t ! k"
      by (simp add: v_subs u_subs image_Un sub_writes_other)
  qed (rule rest)+
qed

text \<open>Three message fields numbered 1, 2 and 3 and a closed enum field numbered 4; table 5 is a map entry.\<close>

definition link_table :: hpb_MiniTable where
  "link_table = \<lparr>t_subs = [SubMsg None, SubMsg None, SubMsg None, SubEnum None],
     t_fields = [
       \<lparr>f_number = 1, f_offset = 8, f_presence = 1, submsg_index = 0, descriptortype = FieldType_Message, f_mode = 194\<rparr>,
       \<lparr>f_number = 2, f_offset = 16, f_presence = 0, submsg_index = 1, descriptortype = FieldType_Message, f_mode = 193\<rparr>,
       \<lparr>f_number = 3, f_offset = 24, f_presence = 2, submsg_index = 2, descriptortype = FieldType_Group, f_mode = 194\<rparr>,
       \<lparr>f_number = 4, f_offset = 4, f_presence = 3, submsg_index = 3, descriptortype = FieldType_Enum, f_mode = 66\<rparr>],
     t_size = 32, field_count = 4, ext_mode = 0, dense_below = 4, table_mask = - 1, required_count = 0\<rparr>"

definition link_store :: "nat \<Rightarrow> hpb_MiniTable" where
  "link_store a = (if a = 5 then kHpb_MiniTable_Empty\<lparr>ext_mode := kHpb_ExtMode_IsMapEntry\<rparr> else kHpb_MiniTable_Empty)"

lemma link_table_subs: "message_fields link_table = [0, 1, 2]" "closed_enum_fields link_table = [3]"
  by code_simp+

lemma link_table_linkable: "linkable link_table"
  unfolding linkable_def link_table_subs
  by (auto simp: link_table_def sub_at_def hpb_MiniTableField_CType_def hpb_MiniTableField_Type_def
      has_flag_def field_mode_defs)

theorem hpb_MiniTable_Link_correct_witness:
  "\<exists>u. hpb_MiniTable_Link link_store link_table [Some 9, Some 5, None] 3 [Some 7] 1 = Inr (u, True) \<and>
     t_subs u ! 0 = SubMsg (Some 9) \<and> t_subs u ! 2 = SubMsg None \<and> t_subs u ! 3 = SubEnum (Some 7) \<and>
     t_size u = 32"
proof -
  have acc: "\<forall>j < length (message_fields link_table). \<forall>a. [Some 9, Some 5, None] ! j = Some a \<longrightarrow>
      accepts_sub link_store link_table (t_fields link_table ! (message_fields link_table ! j)) a"
    unfolding link_table_subs
    by (auto simp: accepts_sub_def link_store_def is_map_entry_def has_flag_def link_table_def
        kHpb_MiniTable_Empty_def ext_mode_defs less_Suc_eq)
  have at: "sub_at link_table 0 = 0" "sub_at link_table 2 = 2" "sub_at link_table 3 = 3"
    "t_subs link_table ! 2 = SubMsg None"
    by (simp_all add: sub_at_def link_table_def)
  have len: "length [Some 9, Some 5, None :: nat option] = 3" "length [Some (7 :: nat)] = 1"
    by simp_all
  obtain u where u: "hpb_MiniTable_Link link_store link_table [Some 9, Some 5, None] 3 [Some 7] 1 = Inr (u, True)"
    and msg: "\<forall>j < 3. t_subs u ! sub_at link_table ([0, 1, 2] ! j) =
      (case [Some 9, Some 5, None] ! j of None \<Rightarrow> t_subs link_table ! sub_at link_table ([0, 1, 2] ! j)
       | Some a \<Rightarrow> SubMsg (Some a))"
    and enum: "\<forall>j < 1. t_subs u ! sub_at link_table ([3] ! j) = (case [Some 7] ! j of
        None \<Rightarrow> t_subs link_table ! sub_at link_table ([3] ! j) | Some a \<Rightarrow> SubEnum (Some a))"
    and rest: "u = link_table\<lparr>t_subs := t_subs u, t_fields := t_fields u\<rparr>"
    using hpb_MiniTable_Link_correct [OF link_table_linkable _ _ acc, of "[Some 7]", unfolded len link_table_subs Let_def] by auto
  have "t_size u = 32"
    by (subst rest, simp add: link_table_def)
  then show ?thesis
    using u spec [OF msg, of 0] spec [OF msg, of 2] spec [OF enum, of 0] by (simp add: at)
qed

text \<open>
  When the caller passes no tables for a message that has sub-message fields, the linker
  reads the element after the end of the array before it compares the count.
\<close>

theorem hpb_MiniTable_Link_short:
  assumes "linkable t" "message_fields t \<noteq> []"
  shows "hpb_MiniTable_Link st t [] 0 enums n = Inl OutOfBounds"
proof -
  have "link_loop is_message_field f [] 0 0 is t = Inl OutOfBounds"
    if "\<forall>i \<in> set is. i < length (t_fields t)" "\<exists>i \<in> set is. hpb_IsSubMessage (t_fields t ! i)" for f "is"
    using that
  proof (induction "is")
    case (Cons i "is")
    then obtain c where "hpb_MiniTableField_CType (t_fields t ! i) = Inr c"
      using linkable_CType [OF assms(1), of i] by auto
    then show ?case
      using Cons by (auto simp: is_message_field_def CType_IsSubMessage array_get_def)
  qed simp
  moreover have "\<exists>i \<in> set [0..<length (t_fields t)]. hpb_IsSubMessage (t_fields t ! i)"
    using assms(2) by (auto simp: message_fields_def filter_empty_conv)
  ultimately show ?thesis
    using assms(1) by (simp add: hpb_MiniTable_Link_def linkable_def)
qed

theorem hpb_MiniTable_Link_short_witness:
  "hpb_MiniTable_Link link_store link_table [] 0 [Some 7] 1 = Inl OutOfBounds"
  using hpb_MiniTable_Link_short [OF link_table_linkable] by (simp add: link_table_subs)

text \<open>A table with an open enum field and a closed enum field.\<close>

definition open_enum_table :: hpb_MiniTable where
  "open_enum_table = \<lparr>t_subs = [SubEnum None],
     t_fields = [
       \<lparr>f_number = 1, f_offset = 4, f_presence = 1, submsg_index = kHpb_NoSub, descriptortype = FieldType_Int32, f_mode = 82\<rparr>,
       \<lparr>f_number = 2, f_offset = 8, f_presence = 2, submsg_index = 0, descriptortype = FieldType_Enum, f_mode = 66\<rparr>],
     t_size = 16, field_count = 2, ext_mode = 0, dense_below = 2, table_mask = - 1, required_count = 0\<rparr>"

text \<open>
  C38: \<open>hpb_MiniTable_GetSubList\<close> lists the sub-message fields and then all enum fields of a table,
  open enums included, with their two counts, but \<open>hpb_MiniTable_Link\<close> takes an enum table for the
  closed enum fields only: given an enum table for each enum of the list, in its order, the
  \<open>j\<close>-th closed enum field is linked to the table of the \<open>j\<close>-th enum of the list. This is the table
  of another field as soon as an open enum field is among the first \<open>j + 1\<close> enums.
\<close>

theorem hpb_MiniTable_GetSubList_counts_open_enums:
  assumes t: "linkable t" and cap: "length (message_fields t) + length (enum_fields t) \<le> cap"
  shows "hpb_MiniTable_GetSubList cap t = Inr (message_fields t @ enum_fields t,
      push_bit 16 (of_nat (length (message_fields t))) OR of_nat (length (enum_fields t))) \<and>
    (\<exists>u. hpb_MiniTable_Link st t (map (\<lambda>i. None) (message_fields t)) (length (message_fields t))
         (map (\<lambda>i. Some (E i)) (enum_fields t)) (length (enum_fields t)) = Inr (u, True) \<and>
       (\<forall>j < length (closed_enum_fields t).
          t_subs u ! sub_at t (closed_enum_fields t ! j) = SubEnum (Some (E (enum_fields t ! j))) \<and>
          ((\<exists>k \<le> j. enum_fields t ! k \<notin> set (closed_enum_fields t)) \<longrightarrow>
             enum_fields t ! j \<noteq> closed_enum_fields t ! j)))"
proof -
  let ?tables = "map (\<lambda>i. None) (message_fields t) :: nat option list"
    and ?enums = "map (\<lambda>i. Some (E i)) (enum_fields t)"
  note closed = closed_enum_fields_filter [OF t]
  have le: "length (closed_enum_fields t) \<le> length ?enums"
    by (simp add: closed)
  obtain u where u: "link_loop is_message_field (hpb_MiniTable_SetSubMessage st) ?tables (length ?tables) 0
      [0..<unat (field_count t)] t = Inr (u, True)" "link_frame t u"
    using Link_messages [OF t, of ?tables st] by auto
  obtain v where v: "link_loop (\<lambda>f. Inr (hpb_MiniTableField_IsClosedEnum f)) hpb_MiniTable_SetSubEnum ?enums
      (length ?enums) 0 [0..<unat (field_count u)] u = Inr (v, True)"
    "t_subs v = sub_writes (\<lambda>a. SubEnum (Some a)) t (closed_enum_fields t) ?enums (t_subs u)"
    using Link_enums [OF t u(2) le] by blast
  have "t_subs v ! sub_at t (closed_enum_fields t ! j) = SubEnum (Some (E (enum_fields t ! j)))"
    if "j < length (closed_enum_fields t)" for j
    using sub_writes_nth [of t "closed_enum_fields t" j ?enums "t_subs u" "\<lambda>a. SubEnum (Some a)"] that le t
      link_frame_rest(4) [OF u(2)] by (simp add: v(2) linkable_def)
  moreover have "hpb_MiniTable_Link st t ?tables (length (message_fields t)) ?enums (length (enum_fields t)) = Inr (v, True)"
    using u(1) v(1) by (simp add: hpb_MiniTable_Link_def)
  moreover have "enum_fields t ! j \<noteq> closed_enum_fields t ! j"
    if "j < length (closed_enum_fields t)" "k \<le> j" "enum_fields t ! k \<notin> set (closed_enum_fields t)" for j k
  proof -
    have "k < length (enum_fields t)"
      using that(1,2) le by simp
    then have "\<not> hpb_MiniTableField_IsClosedEnum (t_fields t ! (enum_fields t ! k))"
      using that(3) by (simp add: closed)
    then show ?thesis
      unfolding closed using that(1,2) closed
      by (intro filter_nth_shift [of _ _ _ k]) (simp_all add: ctype_fields_def)
  qed
  ultimately show ?thesis
    using GetSubList_fields [OF t cap] by blast
qed

theorem hpb_MiniTable_GetSubList_counts_open_enums_witness:
  "hpb_MiniTable_GetSubList 2 open_enum_table = Inr ([0, 1], 2) \<and>
   (\<exists>u. hpb_MiniTable_Link link_store open_enum_table [] 0 [Some 7, Some 8] 2 = Inr (u, True) \<and>
      t_subs u ! 0 = SubEnum (Some 7))"
proof -
  have fields: "message_fields open_enum_table = []" "enum_fields open_enum_table = [0, 1]"
    "closed_enum_fields open_enum_table = [1]" "sub_at open_enum_table 1 = 0"
    by code_simp+
  have "linkable open_enum_table"
    unfolding linkable_def fields
    by (auto simp: open_enum_table_def sub_at_def hpb_MiniTableField_CType_def hpb_MiniTableField_Type_def
        has_flag_def field_mode_defs)
  from hpb_MiniTable_GetSubList_counts_open_enums [OF this, of 2 link_store "\<lambda>i. 7 + i"]
  show ?thesis
    using fields(4) by (auto simp: fields(1-3) numeral_2_eq_2)
qed

end
