(* ===== verification/HashTable.thy ===== *)
theory HashTable
  imports Prelude
begin

text \<open>
  The hash table shared by string and integer tables (\<open>hash/common.h\<close> and the first part of
  \<open>hash/common.c\<close>): a power-of-two array of entries in which the entries of one bucket are
  chained through \<open>next\<close>, with an entry of another chain evicted from a main position when
  that position is needed (Brent's variation).

  A pointer to an entry is its index in \<open>entries\<close>. A table key is a non-zero word, either an
  integer or the address of an owned copy of a string; the model has \<open>Some\<close> of the integer or of
  the string, and \<open>None\<close> for the word 0 that marks an empty entry.
\<close>

section \<open>Data\<close>

record 'k hpb_tabent =
  e_key :: "'k option"
  e_val :: u64
  e_next :: "nat option"

record 'k hpb_table =
  tab_count :: nat
  tab_mask :: u32
  tab_max_count :: u32
  tab_size_lg2 :: byte
  tab_entries :: "'k hpb_tabent list"

text \<open>
  The ways a table operation can go wrong: an access through a null pointer or outside the
  array, a violated \<open>HPB_ASSERT\<close>, and a loop over a chain that does not end. A walk over a chain
  that visits more entries than the table has is in a cycle, so the number of entries bounds
  the walks exactly.
\<close>

datatype tab_fail = BadAccess | AssertionFailed | NoReturn

text \<open>\<open>1 << size_lg2\<close> is a 32-bit shift; it is defined in C for \<open>size_lg2 \<le> 30\<close>.\<close>

definition table_size_of :: "byte \<Rightarrow> nat" where
  "table_size_of lg2 = (if lg2 = 0 then 0 else unat (push_bit (unat lg2) 1 :: u32))"

lemma table_size_less: "table_size_of lg2 < 2 ^ 32"
  unfolding table_size_of_def using unsigned_less [of "push_bit (unat lg2) 1 :: u32"] by auto

definition hpb_table_size :: "'k hpb_table \<Rightarrow> nat" where
  "hpb_table_size t = table_size_of (tab_size_lg2 t)"

definition hpb_tabent_isempty :: "'k hpb_tabent \<Rightarrow> bool" where
  "hpb_tabent_isempty e \<longleftrightarrow> e_key e = None"

section \<open>Operations\<close>

definition hpb_getentry :: "'k hpb_table \<Rightarrow> u32 \<Rightarrow> nat" where
  "hpb_getentry t hash = unat (hash AND tab_mask t)"

definition isfull :: "'k hpb_table \<Rightarrow> bool" where
  "isfull t \<longleftrightarrow> tab_count t = unat (tab_max_count t)"

text \<open>
  \<open>hpb_table_size(t) * MAX_LOAD\<close>: the constant 0.85 is the double \<open>7656119366529843 / 2 ^ 53\<close>, the
  product with a power of two is exact, and the conversion to \<open>uint32_t\<close> truncates.
\<close>

definition max_load :: "nat \<Rightarrow> nat" where
  "max_load sz = sz * 7656119366529843 div 2 ^ 53"

definition empty_ent :: "'k hpb_tabent" where
  "empty_ent = \<lparr>e_key = None, e_val = 0, e_next = None\<rparr>"

text \<open>
  Allocations are numbered: \<open>ok n\<close> tells whether the \<open>n\<close>-th one succeeds, and the operations that
  allocate take and return the number of the next one.
\<close>

definition init_table :: "byte \<Rightarrow> 'k hpb_table" where
  "init_table size_lg2 =
     (let sz = table_size_of size_lg2
      in \<lparr>tab_count = 0, tab_mask = (if sz \<noteq> 0 then of_nat (sz - 1) else 0),
          tab_max_count = of_nat (max_load sz), tab_size_lg2 = size_lg2,
          tab_entries = replicate sz empty_ent\<rparr>)"

definition tab_init :: "(nat \<Rightarrow> bool) \<Rightarrow> nat \<Rightarrow> byte \<Rightarrow> 'k hpb_table option \<times> nat" where
  "tab_init ok n size_lg2 =
     (if table_size_of size_lg2 > 0
      then (if ok n then Some (init_table size_lg2) else None, Suc n)
      else (Some (init_table size_lg2), n))"

definition ent_at :: "'k hpb_table \<Rightarrow> nat \<Rightarrow> tab_fail + 'k hpb_tabent" where
  "ent_at t i = (if i < length (tab_entries t) then Inr (tab_entries t ! i) else Inl BadAccess)"

definition set_ent :: "nat \<Rightarrow> 'k hpb_tabent \<Rightarrow> 'k hpb_table \<Rightarrow> 'k hpb_table" where
  "set_ent i e t = t\<lparr>tab_entries := (tab_entries t)[i := e]\<rparr>"

definition emptyent :: "'k hpb_table \<Rightarrow> nat \<Rightarrow> tab_fail + nat" where
  "emptyent t e =
     (case find (\<lambda>i. hpb_tabent_isempty (tab_entries t ! i))
             ([e + 1..<hpb_table_size t] @ [0..<hpb_table_size t]) of
        Some i \<Rightarrow> Inr i | None \<Rightarrow> Inl AssertionFailed)"

fun find_chain :: "nat \<Rightarrow> 'k hpb_table \<Rightarrow> 'k option \<Rightarrow> nat \<Rightarrow> tab_fail + nat option" where
  "find_chain 0 t key i = Inl NoReturn"
| "find_chain (Suc n) t key i =
     res_bind (ent_at t i) (\<lambda>e.
       if e_key e = key then Inr (Some i)
       else case e_next e of None \<Rightarrow> Inr None | Some j \<Rightarrow> find_chain n t key j)"

definition findentry :: "'k hpb_table \<Rightarrow> 'k option \<Rightarrow> u32 \<Rightarrow> tab_fail + nat option" where
  "findentry t key hash =
     (if tab_size_lg2 t = 0 then Inr None
      else res_bind (ent_at t (hpb_getentry t hash)) (\<lambda>e.
        if hpb_tabent_isempty e then Inr None
        else find_chain (length (tab_entries t)) t key (hpb_getentry t hash)))"

definition tab_lookup :: "'k hpb_table \<Rightarrow> 'k option \<Rightarrow> u32 \<Rightarrow> tab_fail + u64 option" where
  "tab_lookup t key hash =
     res_bind (findentry t key hash) (\<lambda>r.
       case r of None \<Rightarrow> Inr None
       | Some i \<Rightarrow> res_bind (ent_at t i) (\<lambda>e. Inr (Some (e_val e))))"

text \<open>The loop that finds the entry before an evicted one.\<close>

fun find_prev :: "nat \<Rightarrow> 'k hpb_table \<Rightarrow> nat \<Rightarrow> nat \<Rightarrow> tab_fail + nat" where
  "find_prev 0 t target i = Inl NoReturn"
| "find_prev (Suc n) t target i =
     res_bind (ent_at t i) (\<lambda>e.
       if e_next e = Some target then Inr i
       else case e_next e of None \<Rightarrow> Inl AssertionFailed | Some j \<Rightarrow> find_prev n t target j)"

text \<open>
  The body of \<open>insert\<close> between its two assertions: a new entry is given its key and value, and
  the table and the index of the entry are returned.
\<close>

definition insert_at :: "nat \<Rightarrow> 'k option \<Rightarrow> u64 \<Rightarrow> nat option \<Rightarrow> 'k hpb_table \<Rightarrow> 'k hpb_table" where
  "insert_at i tabkey val nxt t = set_ent i \<lparr>e_key = tabkey, e_val = val, e_next = nxt\<rparr> t"

definition place_collision ::
  "('k \<Rightarrow> u32) \<Rightarrow> 'k hpb_table \<Rightarrow> 'k option \<Rightarrow> u64 \<Rightarrow> nat \<Rightarrow> 'k hpb_tabent \<Rightarrow> 'k \<Rightarrow>
   tab_fail + ('k hpb_table \<times> nat)" where
  "place_collision hashfunc t tabkey val mainpos mainpos_e k0 =
     res_bind (emptyent t mainpos) (\<lambda>new_e.
       let chain = hpb_getentry t (hashfunc k0) in
       if chain = mainpos
       then Inr (insert_at new_e tabkey val (e_next mainpos_e)
                   (set_ent mainpos (mainpos_e\<lparr>e_next := Some new_e\<rparr>) t), new_e)
       else let t = set_ent new_e mainpos_e t in
         res_bind (find_prev (length (tab_entries t)) t mainpos chain) (\<lambda>prev.
           res_bind (ent_at t prev) (\<lambda>prev_e.
             Inr (insert_at mainpos tabkey val None (set_ent prev (prev_e\<lparr>e_next := Some new_e\<rparr>) t), mainpos))))"

definition tab_insert ::
  "('k \<Rightarrow> u32) \<Rightarrow> 'k hpb_table \<Rightarrow> 'k option \<Rightarrow> 'k option \<Rightarrow> u64 \<Rightarrow> u32 \<Rightarrow> tab_fail + 'k hpb_table" where
  "tab_insert hashfunc t key tabkey val hash =
     res_bind (findentry t key hash) (\<lambda>found.
       if found \<noteq> None then Inl AssertionFailed
       else let t = t\<lparr>tab_count := tab_count t + 1\<rparr>; mainpos = hpb_getentry t hash in
         res_bind (ent_at t mainpos) (\<lambda>mainpos_e.
           res_bind
             (case e_key mainpos_e of
                None \<Rightarrow> Inr (insert_at mainpos tabkey val None t, mainpos)
              | Some k0 \<Rightarrow> place_collision hashfunc t tabkey val mainpos mainpos_e k0) (\<lambda>(t, our_e).
             res_bind (findentry t key hash) (\<lambda>found.
               if found = Some our_e then Inr t else Inl AssertionFailed))))"

text \<open>The loop of \<open>rm\<close> that stops at the last entry before \<open>key\<close>, or at the end of the chain.\<close>

fun find_before :: "nat \<Rightarrow> 'k hpb_table \<Rightarrow> 'k option \<Rightarrow> nat \<Rightarrow> tab_fail + (nat \<times> nat) option" where
  "find_before 0 t key i = Inl NoReturn"
| "find_before (Suc n) t key i =
     res_bind (ent_at t i) (\<lambda>e.
       case e_next e of None \<Rightarrow> Inr None
       | Some j \<Rightarrow> res_bind (ent_at t j) (\<lambda>e'.
           if e_key e' = key then Inr (Some (i, j)) else find_before n t key j))"

definition clear_key :: "nat \<Rightarrow> 'k hpb_table \<Rightarrow> 'k hpb_table" where
  "clear_key i t = set_ent i ((tab_entries t ! i)\<lparr>e_key := None\<rparr>) t"

text \<open>\<open>rm\<close> returns the table and, when the key was found, the removed key and value.\<close>

definition tab_rm :: "'k hpb_table \<Rightarrow> 'k option \<Rightarrow> u32 \<Rightarrow> tab_fail + ('k hpb_table \<times> ('k option \<times> u64) option)" where
  "tab_rm t key hash =
     (let i = hpb_getentry t hash in
      res_bind (ent_at t i) (\<lambda>chain.
        if hpb_tabent_isempty chain then Inr (t, None)
        else if e_key chain = key
        then let t = t\<lparr>tab_count := tab_count t - 1\<rparr> in
          (case e_next chain of
             None \<Rightarrow> Inr (clear_key i t, Some (e_key chain, e_val chain))
           | Some j \<Rightarrow> res_bind (ent_at t j) (\<lambda>move.
               Inr (clear_key j (set_ent i move t), Some (e_key chain, e_val chain))))
        else res_bind (find_before (length (tab_entries t)) t key i) (\<lambda>r.
          case r of None \<Rightarrow> Inr (t, None)
          | Some (p, j) \<Rightarrow>
              res_bind (ent_at t p) (\<lambda>prev. res_bind (ent_at t j) (\<lambda>rm_e.
                Inr (set_ent p (prev\<lparr>e_next := e_next rm_e\<rparr>) (clear_key j (t\<lparr>tab_count := tab_count t - 1\<rparr>)),
                     Some (e_key rm_e, e_val rm_e)))))))"

text \<open>
  Iteration over the entries. Indices are \<open>size_t\<close>: iteration starts before 0 at the largest value
  and ends at \<open>SIZE_MAX - 1\<close>.
\<close>

function next_ent :: "'k hpb_table \<Rightarrow> u64 \<Rightarrow> u64" where
  "next_ent t i =
     (let i = i + 1 in
      if unat i \<ge> hpb_table_size t then - 2
      else if hpb_tabent_isempty (tab_entries t ! unat i) then next_ent t i else i)"
  by pat_completeness auto
termination
proof (relation "measure (\<lambda>(t, i). hpb_table_size t - unat (i + 1))")
  fix t :: "'k hpb_table" and i x :: u64
  assume x: "x = i + 1" and less: "\<not> hpb_table_size t \<le> unat x"
  have "x \<noteq> - 1"
    using less table_size_less [of "tab_size_lg2 t"] by (auto simp: hpb_table_size_def unat_minus_1)
  then have "unat (x + 1) = Suc (unat x)"
    by (metis add_eq_0_iff minus_unique unatSuc add.commute)
  then show "((t, x), t, i) \<in> measure (\<lambda>(t, i). hpb_table_size t - unat (i + 1))"
    using less x by simp
qed simp


declare next_ent.simps [simp del]

text \<open>
  Removal of the entry at an iterator: the first entry whose \<open>next\<close> is the entry is taken as its
  predecessor.
\<close>

definition remove_at :: "nat \<Rightarrow> 'k hpb_table \<Rightarrow> tab_fail + 'k hpb_table" where
  "remove_at i t =
     res_bind (ent_at t i) (\<lambda>ent.
       let t' = (case find (\<lambda>j. e_next (tab_entries t ! j) = Some i) [0..<hpb_table_size t] of
                   None \<Rightarrow> t
                 | Some prev \<Rightarrow> set_ent prev ((tab_entries t ! prev)\<lparr>e_next := e_next ent\<rparr>) t)
       in Inr (set_ent i ((tab_entries t' ! i)\<lparr>e_key := None, e_next := None\<rparr>)
                (t'\<lparr>tab_count := tab_count t' - 1\<rparr>)))"

end
