(* ===== verification/HashChain.thy ===== *)
theory HashChain
  imports HashTable
begin

text \<open>
  The invariant of the hash table and the effect of insertion and removal on it. The entries
  with one main position form a list linked through \<open>next\<close> that starts at that position; a
  ghost function gives that list for every position.
\<close>

section \<open>Chains\<close>

fun links :: "'k hpb_tabent list \<Rightarrow> nat list \<Rightarrow> nat option \<Rightarrow> bool" where
  "links es [] e \<longleftrightarrow> True"
| "links es (i # xs) e \<longleftrightarrow> e_next (es ! i) = (case xs of [] \<Rightarrow> e | j # _ \<Rightarrow> Some j) \<and> links es xs e"

lemma links_append:
  "links es (xs @ ys) e \<longleftrightarrow> links es xs (case ys of [] \<Rightarrow> e | j # _ \<Rightarrow> Some j) \<and> links es ys e"
proof (induction xs)
  case (Cons i xs)
  then show ?case by (cases xs) auto
qed simp

lemma links_cong:
  "(\<And>i. i \<in> set xs \<Longrightarrow> e_next (es ! i) = e_next (es' ! i)) \<Longrightarrow> links es xs e \<longleftrightarrow> links es' xs e"
  by (induction xs) (auto split: list.splits)

definition chain_ok :: "('k \<Rightarrow> nat) \<Rightarrow> 'k hpb_tabent list \<Rightarrow> nat \<Rightarrow> nat list \<Rightarrow> bool" where
  "chain_ok m es h xs \<longleftrightarrow> (xs = [] \<or> hd xs = h) \<and> distinct xs \<and> links es xs None \<and>
     (\<forall>i \<in> set xs. i < length es \<and> (\<exists>k. e_key (es ! i) = Some k \<and> m k = h))"

definition unique_keys :: "'k hpb_tabent list \<Rightarrow> bool" where
  "unique_keys es \<longleftrightarrow> (\<forall>i < length es. \<forall>j < length es.
     e_key (es ! i) \<noteq> None \<longrightarrow> e_key (es ! i) = e_key (es ! j) \<longrightarrow> i = j)"

definition chained :: "('k \<Rightarrow> nat) \<Rightarrow> 'k hpb_tabent list \<Rightarrow> (nat \<Rightarrow> nat list) \<Rightarrow> bool" where
  "chained m es C \<longleftrightarrow> (\<forall>h. chain_ok m es h (C h)) \<and>
     (\<forall>i < length es. \<forall>k. e_key (es ! i) = Some k \<longrightarrow> i \<in> set (C (m k))) \<and> unique_keys es"

lemma chained_chain: "chained m es C \<Longrightarrow> chain_ok m es h (C h)"
  by (simp add: chained_def)

lemma chained_mem:
  "chained m es C \<Longrightarrow> i \<in> set (C h) \<longleftrightarrow> i < length es \<and> (\<exists>k. e_key (es ! i) = Some k \<and> m k = h)"
  by (auto simp: chained_def chain_ok_def)

lemma chained_unique: "chained m es C \<Longrightarrow> unique_keys es"
  by (simp add: chained_def)

lemma chained_Cons:
  assumes "chained m es C" "h < length es" "e_key (es ! h) = Some k" "m k = h"
  shows "C h = h # tl (C h)"
proof -
  have "h \<in> set (C h)"
    using assms chained_mem by metis
  then show ?thesis
    using chained_chain [OF assms(1), of h] by (cases "C h") (auto simp: chain_ok_def)
qed

lemma chained_Nil:
  assumes "chained m es C" "h < length es" "\<And>k. e_key (es ! h) = Some k \<Longrightarrow> m k \<noteq> h"
  shows "C h = []"
proof (rule ccontr)
  assume "C h \<noteq> []"
  then have "h \<in> set (C h)"
    using chained_chain [OF assms(1), of h] by (cases "C h") (auto simp: chain_ok_def)
  then show False
    using assms chained_mem by metis
qed

text \<open>
  One chain is rebuilt: the entries that change were empty or in that chain, and the entries
  that are used afterwards belong to it.
\<close>

lemma chained_update:
  assumes c: "chained m es C" and len: "length es' = length es"
    and frame: "\<And>i. i < length es \<Longrightarrow> i \<notin> S \<Longrightarrow> es' ! i = es ! i"
    and old: "\<And>i k. i \<in> S \<Longrightarrow> i < length es \<Longrightarrow> e_key (es ! i) = Some k \<Longrightarrow> m k = h"
    and new: "\<And>i k. i < length es \<Longrightarrow> e_key (es' ! i) = Some k \<Longrightarrow> m k = h \<Longrightarrow> i \<in> set xs"
    and main: "\<And>i k. i \<in> S \<Longrightarrow> i < length es \<Longrightarrow> e_key (es' ! i) = Some k \<Longrightarrow> m k = h"
    and chain: "chain_ok m es' h xs" and uniq: "unique_keys es'"
  shows "chained m es' (C(h := xs))"
  unfolding chained_def
proof (intro conjI allI impI)
  fix h'
  show "chain_ok m es' h' ((C(h := xs)) h')"
  proof (cases "h' = h")
    case False
    have "es' ! i = es ! i" if i: "i \<in> set (C h')" for i
    proof -
      obtain k where "i < length es" "e_key (es ! i) = Some k" "m k = h'"
        using i unfolding chained_mem [OF c] by blast
      then show ?thesis
        using frame [of i] old [of i k] False by blast
    qed
    then have "chain_ok m es' h' (C h')"
      using chained_chain [OF c, of h'] links_cong [of "C h'" es es'] by (simp add: chain_ok_def len)
    then show ?thesis
      using False by simp
  qed (use chain in simp)
next
  fix i k
  assume i: "i < length es'" "e_key (es' ! i) = Some k"
  show "i \<in> set ((C(h := xs)) (m k))"
  proof (cases "m k = h")
    case True
    then show ?thesis
      using new i len by simp
  next
    case False
    then have "i \<notin> S"
      using main i len by auto
    then have "e_key (es ! i) = Some k"
      using frame i len by simp
    then show ?thesis
      using False i len chained_mem [OF c, of i "m k"] by simp
  qed
qed (rule uniq)

lemma unique_keysD:
  "unique_keys es \<Longrightarrow> i < length es \<Longrightarrow> j < length es \<Longrightarrow> e_key (es ! i) = Some k \<Longrightarrow>
   e_key (es ! j) = Some k \<Longrightarrow> i = j"
  by (auto simp: unique_keys_def)

text \<open>A key is absent from the entries.\<close>

definition fresh :: "'k \<Rightarrow> 'k hpb_tabent list \<Rightarrow> bool" where
  "fresh k es \<longleftrightarrow> (\<forall>i < length es. e_key (es ! i) \<noteq> Some k)"

lemma unique_keys_insert:
  assumes "unique_keys es" "fresh k es" "e_key e = Some k"
  shows "unique_keys (es[i := e])"
proof (cases "i < length es")
  case True
  then show ?thesis
    using assms by (auto simp: unique_keys_def fresh_def nth_list_update)
qed (use assms in \<open>simp add: list_update_beyond\<close>)

lemma unique_keys_map:
  "map e_key es = map e_key es' \<Longrightarrow> unique_keys es \<longleftrightarrow> unique_keys es'"
  unfolding unique_keys_def by (metis length_map nth_map)

lemma chained_fill:
  assumes c: "chained m es C" and i: "i < length es" "e_key (es ! i) = None"
    and k: "m k = i" "fresh k es"
  shows "chained m (es[i := \<lparr>e_key = Some k, e_val = v, e_next = None\<rparr>]) (C(i := [i]))"
proof (rule chained_update [OF c, where S = "{i}"])
  show "chain_ok m (es[i := \<lparr>e_key = Some k, e_val = v, e_next = None\<rparr>]) i [i]"
    using i k by (simp add: chain_ok_def)
  show "unique_keys (es[i := \<lparr>e_key = Some k, e_val = v, e_next = None\<rparr>])"
    using chained_unique [OF c] k by (intro unique_keys_insert) simp_all
  have "C i = []"
    using chained_Nil [OF c i(1)] i(2) by simp
  then show "j \<in> set [i]" if "j < length es" "e_key (es[i := \<lparr>e_key = Some k, e_val = v, e_next = None\<rparr>] ! j) = Some k'"
    "m k' = i" for j k'
    using that i(1) chained_mem [OF c, of j i] by (auto simp: nth_list_update split: if_splits)
qed (use i k in auto)

lemma chained_push:
  fixes v :: u64
  assumes c: "chained m es C" and h: "h < length es" "e_key (es ! h) = Some k0" "m k0 = h"
    and n: "n < length es" "e_key (es ! n) = None" and k: "m k = h" "fresh k es"
  defines "es' \<equiv> es[h := (es ! h)\<lparr>e_next := Some n\<rparr>, n := \<lparr>e_key = Some k, e_val = v, e_next = e_next (es ! h)\<rparr>]"
  shows "chained m es' (C(h := h # n # tl (C h)))"
proof -
  have nh: "n \<noteq> h"
    using h n by auto
  obtain xs where xs: "C h = h # xs"
    using chained_Cons [OF c h] by blast
  have ok: "chain_ok m es h (h # xs)"
    using chained_chain [OF c, of h] xs by simp
  have n_xs: "n \<notin> set xs"
    using chained_mem [OF c, of n h] n xs by auto
  have links': "links es' xs None"
  proof -
    have "e_next (es ! i) = e_next (es' ! i)" if "i \<in> set xs" for i
    proof -
      have "i \<noteq> n" "i \<noteq> h"
        using that n_xs ok by (auto simp: chain_ok_def)
      then show ?thesis
        by (simp add: es'_def)
    qed
    then show ?thesis
      using ok links_cong [of xs es es' None] by (simp add: chain_ok_def)
  qed
  show ?thesis
  proof (rule chained_update [OF c, where S = "{h, n}"])
    show "chain_ok m es' h (h # n # tl (C h))"
      using ok nh n_xs h n k links'
      by (auto simp: chain_ok_def xs es'_def nth_list_update)
    have "unique_keys (es[h := (es ! h)\<lparr>e_next := Some n\<rparr>])"
      using chained_unique [OF c] unique_keys_map [of "es[h := (es ! h)\<lparr>e_next := Some n\<rparr>]" es]
      by (simp add: map_update list_update_same_conv h)
    then show "unique_keys es'"
      unfolding es'_def by (rule unique_keys_insert) (use k h in \<open>auto simp: fresh_def nth_list_update\<close>)
    show "j \<in> set (h # n # tl (C h))" if "j < length es" "e_key (es' ! j) = Some k'" "m k' = h" for j k'
      using that chained_mem [OF c, of j h] by (auto simp: xs es'_def nth_list_update split: if_splits)
  qed (use h n k in \<open>auto simp: es'_def nth_list_update split: if_splits\<close>)
qed

text \<open>Every entry of a chain but the first has a predecessor.\<close>

lemma chained_prev:
  assumes c: "chained m es C" and p: "p < length es" "e_key (es ! p) = Some k0" "m k0 = h" "h \<noteq> p"
  obtains pre q suf where "C h = pre @ q # p # suf"
proof -
  obtain xs ys where xs: "C h = xs @ p # ys"
    using chained_mem [OF c, of p h] p by (metis in_set_conv_decomp)
  moreover have "xs \<noteq> []"
    using chained_chain [OF c, of h] xs p by (auto simp: chain_ok_def)
  ultimately show thesis
    using that [of "butlast xs" "last xs" ys] by simp
qed

lemma unique_keys_move:
  assumes "unique_keys es" "n < length es" "p < length es" "e_key (es ! n) = None" "e_key e = None"
  shows "unique_keys (es[n := es ! p, p := e])"
  using assms by (auto simp: unique_keys_def nth_list_update split: if_splits)

text \<open>The entry at \<open>p\<close>, not the head of its chain, moves to the empty position \<open>n\<close>.\<close>

lemma chained_move:
  assumes c: "chained m es C" and p: "p < length es" "e_key (es ! p) = Some k0" "m k0 = h" "h \<noteq> p"
    and n: "n < length es" "e_key (es ! n) = None" and C: "C h = pre @ q # p # suf"
    and e: "e_key e = None"
  defines "es' \<equiv> es[n := es ! p, q := (es ! q)\<lparr>e_next := Some n\<rparr>, p := e]"
  shows "chained m es' (C(h := pre @ q # n # suf))"
proof -
  have ok: "chain_ok m es h (pre @ q # p # suf)"
    using chained_chain [OF c, of h] C by simp
  have n_C: "n \<notin> set (C h)"
    using chained_mem [OF c, of n h] n by simp
  have ne: "n \<noteq> p" "n \<noteq> q" "q \<noteq> p"
    using n_C ok by (auto simp: C chain_ok_def)
  have q: "q < length es"
    using ok by (simp add: chain_ok_def)
  have at: "es' ! n = es ! p" "es' ! q = (es ! q)\<lparr>e_next := Some n\<rparr>" "es' ! p = e"
    using ne n p q by (simp_all add: es'_def)
  have frame: "es' ! i = es ! i" if "i \<notin> {n, q, p}" for i
    using that by (simp add: es'_def)
  have "links es' pre (Some q)" "links es' suf None"
  proof -
    have "es' ! i = es ! i" if "i \<in> set pre \<union> set suf" for i
      using that n_C ok by (intro frame) (auto simp: C chain_ok_def)
    then show "links es' pre (Some q)" "links es' suf None"
      using ok links_cong [of pre es es'] links_cong [of suf es es'] by (auto simp: chain_ok_def links_append)
  qed
  then have links': "links es' (pre @ q # n # suf) None"
    using ok by (simp add: links_append at chain_ok_def)
  have mem: "i < length es' \<and> (\<exists>k. e_key (es' ! i) = Some k \<and> m k = h)" if "i \<in> set (pre @ q # n # suf)" for i
  proof (cases "i \<in> {n, q}")
    case True
    then show ?thesis
      using ok p n at by (auto simp: es'_def chain_ok_def)
  next
    case False
    then have "i \<noteq> p"
      using that ok by (auto simp: chain_ok_def)
    then show ?thesis
      using that False frame [of i] ok by (auto simp: es'_def chain_ok_def)
  qed
  show ?thesis
  proof (rule chained_update [OF c, where S = "{n, q, p}"])
    show "chain_ok m es' h (pre @ q # n # suf)"
      unfolding chain_ok_def using ok links' mem n_C ne by (auto simp: C chain_ok_def hd_append)
    have "map e_key es' = map e_key (es[n := es ! p, p := e])"
      using ne by (intro nth_equalityI) (auto simp: es'_def nth_list_update n p q)
    then show "unique_keys es'"
      using unique_keys_map unique_keys_move [OF chained_unique [OF c] n(1) p(1) n(2) e] by blast
    show "i \<in> set (pre @ q # n # suf)" if "i < length es" "e_key (es' ! i) = Some k'" "m k' = h" for i k'
      using that e chained_mem [OF c, of i h] at frame [of i] by (cases "i \<in> {n, q, p}") (auto simp: C)
    show "m k' = h" if "i \<in> {n, q, p}" "i < length es" "e_key (es ! i) = Some k'" for i k'
      using that ok n p by (auto simp: chain_ok_def)
    show "m k' = h" if "i \<in> {n, q, p}" "i < length es" "e_key (es' ! i) = Some k'" for i k'
      using that ok p e at by (auto simp: chain_ok_def)
  qed (simp_all add: frame es'_def)
qed

text \<open>Removal of the only entry, of the head, and of another entry of a chain.\<close>

lemma unique_keys_clear:
  assumes "unique_keys es" "e_key e = None"
  shows "unique_keys (es[i := e])"
proof (cases "i < length es")
  case True
  then show ?thesis
    using assms by (auto simp: unique_keys_def nth_list_update split: if_splits)
qed (use assms in \<open>simp add: list_update_beyond\<close>)

lemma chained_clear_only:
  assumes c: "chained m es C" and h: "h < length es" "C h = [h]" and e: "e_key e = None"
  shows "chained m (es[h := e]) (C(h := []))"
proof (rule chained_update [OF c, where S = "{h}"])
  show "unique_keys (es[h := e])"
    using unique_keys_clear [OF chained_unique [OF c]] e by blast
  show "i \<in> set []" if "i < length es" "e_key (es[h := e] ! i) = Some k" "m k = h" for i k
    using that h e chained_mem [OF c, of i h] by (auto simp: nth_list_update split: if_splits)
  show "m k = h" if "i \<in> {h}" "i < length es" "e_key (es ! i) = Some k" for i k
    using that h chained_mem [OF c, of i h] by auto
qed (use h e in \<open>auto simp: chain_ok_def\<close>)

lemma chained_clear_head:
  assumes c: "chained m es C" and h: "h < length es" "C h = h # j # xs" and e: "e_key e = None"
  defines "es' \<equiv> es[h := es ! j, j := e]"
  shows "chained m es' (C(h := h # xs))"
proof -
  have ok: "chain_ok m es h (h # j # xs)"
    using chained_chain [OF c, of h] h by simp
  then have j: "j < length es" "j \<noteq> h" and xs: "h \<notin> set xs" "j \<notin> set xs"
    by (auto simp: chain_ok_def)
  have at: "es' ! h = es ! j" "es' ! j = e" "\<And>i. i \<notin> {h, j} \<Longrightarrow> es' ! i = es ! i"
    using h j by (simp_all add: es'_def)
  have "es' ! i = es ! i" if "i \<in> set xs" for i
    using that xs by (intro at(3)) auto
  note eq = this
  then have links': "links es' xs None"
    using ok links_cong [of xs es es' None] by (simp add: chain_ok_def)
  have mem: "i < length es \<and> (\<exists>k. e_key (es' ! i) = Some k \<and> m k = h)" if "i \<in> set (h # xs)" for i
    using that ok h at(1) eq by (cases "i = h") (auto simp: chain_ok_def)
  show ?thesis
  proof (rule chained_update [OF c, where S = "{h, j}"])
    show "chain_ok m es' h (h # xs)"
      unfolding chain_ok_def using ok xs mem links' at by (auto simp: es'_def chain_ok_def)
    have "unique_keys (es[h := es ! j, j := e])"
      using chained_unique [OF c] h j e by (auto simp: unique_keys_def nth_list_update split: if_splits)
    then show "unique_keys es'"
      by (simp add: es'_def)
    show "i \<in> set (h # xs)" if "i < length es" "e_key (es' ! i) = Some k" "m k = h" for i k
      using that e h at chained_mem [OF c, of i h] by (cases "i \<in> {h, j}") auto
    show "m k = h" if "i \<in> {h, j}" "i < length es" "e_key (es ! i) = Some k" for i k
      using that h chained_mem [OF c, of i h] by auto
    show "m k = h" if "i \<in> {h, j}" "i < length es" "e_key (es' ! i) = Some k" for i k
      using that h e at chained_mem [OF c, of j h] by auto
  qed (use at in \<open>simp_all add: es'_def\<close>)
qed

lemma chained_clear_inner:
  assumes c: "chained m es C" and C: "C h = pre @ p # j # suf" and e: "e_key e = None"
  defines "es' \<equiv> es[j := e, p := (es ! p)\<lparr>e_next := e_next (es ! j)\<rparr>]"
  shows "chained m es' (C(h := pre @ p # suf))"
proof -
  have ok: "chain_ok m es h (pre @ p # j # suf)"
    using chained_chain [OF c, of h] C by simp
  then have pj: "j < length es" "p < length es" "j \<noteq> p"
    by (auto simp: chain_ok_def)
  have at: "es' ! p = (es ! p)\<lparr>e_next := e_next (es ! j)\<rparr>" "es' ! j = e"
    "\<And>i. i \<notin> {p, j} \<Longrightarrow> es' ! i = es ! i"
    using pj by (simp_all add: es'_def)
  have eq: "es' ! i = es ! i" if "i \<in> set pre \<union> set suf" for i
    using that ok by (intro at) (auto simp: chain_ok_def)
  then have "links es' pre (Some p)" "links es' suf None"
    using ok links_cong [of pre es es'] links_cong [of suf es es'] by (auto simp: chain_ok_def links_append)
  then have links': "links es' (pre @ p # suf) None"
    using ok by (simp add: links_append at chain_ok_def)
  have mem: "i < length es \<and> (\<exists>k. e_key (es' ! i) = Some k \<and> m k = h)" if "i \<in> set (pre @ p # suf)" for i
    using that ok eq at(1) by (cases "i = p") (auto simp: chain_ok_def)
  show ?thesis
  proof (rule chained_update [OF c, where S = "{p, j}"])
    show "chain_ok m es' h (pre @ p # suf)"
      unfolding chain_ok_def using ok mem links' by (auto simp: es'_def chain_ok_def hd_append)
    have "map e_key es' = map e_key (es[j := e])"
      using pj by (intro nth_equalityI) (auto simp: es'_def nth_list_update)
    then show "unique_keys es'"
      using unique_keys_map unique_keys_clear [OF chained_unique [OF c] e] by blast
    show "i \<in> set (pre @ p # suf)" if "i < length es" "e_key (es' ! i) = Some k" "m k = h" for i k
      using that e C at chained_mem [OF c, of i h] by (cases "i \<in> {p, j}") auto
    show "m k = h" if "i \<in> {p, j}" "i < length es" "e_key (es ! i) = Some k" for i k
      using that C chained_mem [OF c, of i h] by auto
    show "m k = h" if "i \<in> {p, j}" "i < length es" "e_key (es' ! i) = Some k" for i k
      using that C e at chained_mem [OF c, of p h] by auto
  qed (use at in \<open>simp_all add: es'_def\<close>)
qed

section \<open>The table invariant\<close>

definition used :: "'k hpb_tabent list \<Rightarrow> nat set" where
  "used es = {i. i < length es \<and> e_key (es ! i) \<noteq> None}"

abbreviation main_pos :: "('k \<Rightarrow> u32) \<Rightarrow> 'k hpb_table \<Rightarrow> 'k \<Rightarrow> nat" where
  "main_pos hash t k \<equiv> hpb_getentry t (hash k)"

lemma getentry_update [simp]:
  "hpb_getentry (t\<lparr>tab_count := c\<rparr>) h = hpb_getentry t h"
  "hpb_getentry (t\<lparr>tab_entries := es\<rparr>) h = hpb_getentry t h"
  "hpb_getentry (set_ent i e t) h = hpb_getentry t h"
  by (simp_all add: hpb_getentry_def set_ent_def)

lemma table_size_update [simp]:
  "hpb_table_size (t\<lparr>tab_count := c\<rparr>) = hpb_table_size t"
  "hpb_table_size (t\<lparr>tab_entries := es\<rparr>) = hpb_table_size t"
  by (simp_all add: hpb_table_size_def)

definition tab_shape :: "'k hpb_table \<Rightarrow> bool" where
  "tab_shape t \<longleftrightarrow> tab_size_lg2 t \<le> 30 \<and> length (tab_entries t) = hpb_table_size t \<and>
     tab_mask t = of_nat (hpb_table_size t - 1) \<and> tab_max_count t = of_nat (max_load (hpb_table_size t))"

definition tab_inv :: "('k \<Rightarrow> u32) \<Rightarrow> 'k hpb_table \<Rightarrow> bool" where
  "tab_inv hash t \<longleftrightarrow> tab_shape t \<and> tab_count t = card (used (tab_entries t)) \<and>
     (\<exists>C. chained (main_pos hash t) (tab_entries t) C)"

lemma finite_used [simp]: "finite (used es)"
  by (simp add: used_def)

lemma table_size_exp:
  assumes "lg2 \<le> 30" "lg2 \<noteq> 0"
  shows "table_size_of lg2 = 2 ^ unat lg2"
proof -
  have "unat lg2 \<le> 30"
    using assms(1) by (simp add: word_le_nat_alt)
  then have "unat (push_bit (unat lg2) 1 :: u32) = 2 ^ unat lg2"
    by (intro unat_push_bit_one) simp
  then show ?thesis
    using assms(2) by (simp add: table_size_of_def del: push_bit_of_1)
qed

lemma table_size_le:
  assumes "lg2 \<le> 30"
  shows "table_size_of lg2 \<le> 2 ^ 30"
proof (cases "lg2 = 0")
  case False
  then have "table_size_of lg2 = 2 ^ unat lg2" "unat lg2 \<le> 30"
    using assms table_size_exp by (simp_all add: word_le_nat_alt)
  then show ?thesis
    using power_increasing [of "unat lg2" 30 "2 :: nat"] by simp
qed (simp add: table_size_of_def)

lemma max_load_less: "0 < sz \<Longrightarrow> max_load sz < sz"
  by (simp add: max_load_def less_mult_imp_div_less)

text \<open>The mask keeps every hash within the table.\<close>

lemma getentry_less:
  assumes "tab_shape t" "tab_size_lg2 t \<noteq> 0"
  shows "hpb_getentry t h < length (tab_entries t)"
proof -
  let ?lg = "unat (tab_size_lg2 t)"
  have lg: "?lg \<le> 30" and sz: "hpb_table_size t = 2 ^ ?lg"
    using assms table_size_exp by (auto simp: tab_shape_def hpb_table_size_def word_le_nat_alt)
  have "tab_mask t = mask ?lg"
    using assms(1) sz by (simp add: tab_shape_def mask_eq_exp_minus_1 of_nat_diff)
  then have "hpb_getentry t h < 2 ^ ?lg"
    using unat_and_mask_bound [of h ?lg] by (simp add: hpb_getentry_def)
  then show ?thesis
    using assms(1) sz by (simp add: tab_shape_def)
qed

section \<open>Finding entries\<close>

lemma ent_at_Inr [simp]: "i < length (tab_entries t) \<Longrightarrow> ent_at t i = Inr (tab_entries t ! i)"
  by (simp add: ent_at_def)

lemma find_chain_links:
  "links (tab_entries t) xs None \<Longrightarrow> \<forall>i \<in> set xs. i < length (tab_entries t) \<Longrightarrow> xs \<noteq> [] \<Longrightarrow>
   length xs \<le> n \<Longrightarrow>
   find_chain n t key (hd xs) = Inr (find (\<lambda>i. e_key (tab_entries t ! i) = key) xs)"
proof (induction xs arbitrary: n)
  case (Cons i xs)
  then obtain n' where n': "n = Suc n'"
    by (cases n) auto
  show ?case
  proof (cases xs)
    case Nil
    then show ?thesis
      using Cons.prems n' by simp
  next
    case (Cons j ys)
    then show ?thesis
      using Cons.prems Cons.IH [of n'] n' by simp
  qed
qed simp

text \<open>The index of the entry with a key, by a search of all entries.\<close>

definition tab_index :: "'k hpb_tabent list \<Rightarrow> 'k \<Rightarrow> nat option" where
  "tab_index es k = find (\<lambda>i. e_key (es ! i) = Some k) [0..<length es]"

lemma find_SomeD: "find P xs = Some x \<Longrightarrow> P x \<and> x \<in> set xs"
  by (induction xs) (auto split: if_splits)

lemma find_Some_unique:
  assumes "P i" "i \<in> set xs" "\<And>j. j \<in> set xs \<Longrightarrow> P j \<Longrightarrow> j = i"
  shows "find P xs = Some i"
proof -
  obtain j where j: "find P xs = Some j"
    using assms(1,2) by (metis find_None_iff not_None_eq)
  then have "P j" "j \<in> set xs"
    by (auto dest: find_SomeD)
  then show ?thesis
    using j assms(3) by simp
qed

lemma tab_index_Some:
  assumes "unique_keys es"
  shows "tab_index es k = Some i \<longleftrightarrow> i < length es \<and> e_key (es ! i) = Some k"
proof
  show "tab_index es k = Some i \<Longrightarrow> i < length es \<and> e_key (es ! i) = Some k"
    by (auto simp: tab_index_def find_Some_iff)
  show "i < length es \<and> e_key (es ! i) = Some k \<Longrightarrow> tab_index es k = Some i"
    unfolding tab_index_def using unique_keysD [OF assms] by (intro find_Some_unique) auto
qed

lemma tab_index_None: "tab_index es k = None \<longleftrightarrow> fresh k es"
  by (auto simp: tab_index_def fresh_def find_None_iff)

text \<open>A search of a chain finds the key of an entry with that main position.\<close>

lemma find_in_chain:
  assumes C: "chained m es C"
  shows "find (\<lambda>i. e_key (es ! i) = Some k) (C (m k)) = tab_index es k"
proof (cases "tab_index es k")
  case None
  then have "fresh k es"
    by (simp add: tab_index_None)
  then show ?thesis
    unfolding None find_None_iff using chained_mem [OF C, of _ "m k"] by (auto simp: fresh_def)
next
  case (Some i)
  note u = unique_keysD [OF chained_unique [OF C]]
  have i: "i < length es" "e_key (es ! i) = Some k"
    using Some tab_index_Some [OF chained_unique [OF C]] by auto
  then have "i \<in> set (C (m k))"
    using chained_mem [OF C, of i "m k"] by auto
  moreover have "j = i" if "j \<in> set (C (m k))" "e_key (es ! j) = Some k" for j
    using that u [of j i] i chained_mem [OF C, of j "m k"] by simp
  ultimately show ?thesis
    unfolding Some using i(2) by (intro find_Some_unique)
qed

lemma chain_length:
  assumes "chained m es C"
  shows "length (C h) \<le> length es"
proof -
  have "set (C h) \<subseteq> {..<length es}" "distinct (C h)"
    using chained_chain [OF assms, of h] by (auto simp: chain_ok_def)
  then show ?thesis
    using card_mono [of "{..<length es}" "set (C h)"] distinct_card [of "C h"] by simp
qed

lemma find_chain_correct:
  assumes C: "chained m (tab_entries t) C" and h: "m k < length (tab_entries t)"
    and ne: "e_key (tab_entries t ! m k) \<noteq> None"
  shows "find_chain (length (tab_entries t)) t (Some k) (m k) = Inr (tab_index (tab_entries t) k)"
proof -
  let ?es = "tab_entries t" and ?P = "\<lambda>i. e_key (tab_entries t ! i) = Some k"
  obtain k1 where k1: "e_key (?es ! m k) = Some k1"
    using ne by auto
  obtain pre suf where s: "C (m k1) = pre @ m k # suf"
    using chained_mem [OF C, of "m k" "m k1"] h k1 by (metis in_set_conv_decomp)
  have ok: "chain_ok m ?es (m k1) (pre @ m k # suf)"
    using chained_chain [OF C] s by metis
  have len: "length (m k # suf) \<le> length ?es"
    using chain_length [OF C, of "m k1"] s by simp
  have walk: "find_chain (length ?es) t (Some k) (m k) = Inr (find ?P (m k # suf))"
    using find_chain_links [of t "m k # suf" "length ?es" "Some k"] ok len
    by (auto simp: chain_ok_def links_append)
  show ?thesis
  proof (cases "m k1 = m k")
    case True
    then have "pre = []"
      using ok by (cases pre) (auto simp: chain_ok_def)
    then show ?thesis
      using walk find_in_chain [OF C, of k] s True by simp
  next
    case False
    have "tab_index ?es k = None"
      using chained_Nil [OF C h] k1 False find_in_chain [OF C, of k] by simp
    moreover from this have "find ?P (m k # suf) = None"
      using ok unfolding find_None_iff tab_index_None by (auto simp: fresh_def chain_ok_def)
    ultimately show ?thesis
      using walk by simp
  qed
qed

lemma tab_inv_chained: "tab_inv hash t \<Longrightarrow> \<exists>C. chained (main_pos hash t) (tab_entries t) C"
  by (simp add: tab_inv_def)

lemma tab_inv_getentry:
  "tab_inv hash t \<Longrightarrow> tab_size_lg2 t \<noteq> 0 \<Longrightarrow> hpb_getentry t h < length (tab_entries t)"
  using getentry_less by (auto simp: tab_inv_def)

lemma findentry_chained:
  assumes "tab_shape t" and C: "chained (main_pos hash t) (tab_entries t) C"
  shows "findentry t (Some k) (hash k) = Inr (tab_index (tab_entries t) k)"
proof (cases "tab_size_lg2 t = 0")
  case True
  then have "tab_entries t = []"
    using assms by (simp add: tab_shape_def hpb_table_size_def table_size_of_def)
  then show ?thesis
    using True by (simp add: findentry_def tab_index_def)
next
  case False
  have h: "main_pos hash t k < length (tab_entries t)"
    using getentry_less [OF assms(1) False] .
  have "tab_index (tab_entries t) k = None" if "e_key (tab_entries t ! main_pos hash t k) = None"
    using chained_Nil [OF C h] that find_in_chain [OF C, of k] by simp
  then show ?thesis
    using False h find_chain_correct [OF C h] by (auto simp: findentry_def hpb_tabent_isempty_def)
qed

lemma findentry_correct:
  "tab_inv hash t \<Longrightarrow> findentry t (Some k) (hash k) = Inr (tab_index (tab_entries t) k)"
  using findentry_chained by (auto simp: tab_inv_def)

section \<open>Insertion\<close>

definition tab_map :: "'k hpb_table \<Rightarrow> 'k \<Rightarrow> u64 option" where
  "tab_map t k = map_option (\<lambda>i. e_val (tab_entries t ! i)) (tab_index (tab_entries t) k)"

lemma tab_map_count [simp]: "tab_map (t\<lparr>tab_count := c\<rparr>) = tab_map t"
  by (rule ext) (simp add: tab_map_def)

lemma tab_map_Some:
  "unique_keys (tab_entries t) \<Longrightarrow> tab_map t k = Some v \<longleftrightarrow>
   (\<exists>i < length (tab_entries t). e_key (tab_entries t ! i) = Some k \<and> e_val (tab_entries t ! i) = v)"
  by (auto simp: tab_map_def tab_index_Some)

lemma emptyent_ok:
  assumes "tab_shape t" "i < length (tab_entries t)" "e_key (tab_entries t ! i) = None"
  obtains n where "emptyent t e = Inr n" "n < length (tab_entries t)" "e_key (tab_entries t ! n) = None"
proof (cases "find (\<lambda>i. hpb_tabent_isempty (tab_entries t ! i)) ([e + 1..<hpb_table_size t] @ [0..<hpb_table_size t])")
  case None
  then show thesis
    using assms by (auto simp: find_None_iff tab_shape_def hpb_tabent_isempty_def)
next
  case (Some n)
  then have "hpb_tabent_isempty (tab_entries t ! n)" "n \<in> set ([e + 1..<hpb_table_size t] @ [0..<hpb_table_size t])"
    by (auto dest: find_SomeD)
  then show thesis
    using that [of n] Some assms(1) by (auto simp: emptyent_def tab_shape_def hpb_tabent_isempty_def)
qed

lemma find_prev_links:
  "links (tab_entries t) (pre @ q # p # suf) None \<Longrightarrow> distinct (pre @ q # p # suf) \<Longrightarrow>
   \<forall>i \<in> set (pre @ q # p # suf). i < length (tab_entries t) \<Longrightarrow> length pre < n \<Longrightarrow>
   find_prev n t p (hd (pre @ [q])) = Inr q"
proof (induction pre arbitrary: n)
  case Nil
  then show ?case by (cases n) auto
next
  case (Cons i pre)
  then obtain n' where n': "n = Suc n'"
    by (cases n) auto
  have "find_prev n' t p (hd (pre @ [q])) = Inr q"
    using Cons n' by (auto split: list.splits)
  moreover have "e_next (tab_entries t ! i) = Some (hd (pre @ [q]))"
    using Cons.prems(1) by (cases pre) auto
  moreover have "hd (pre @ [q]) \<noteq> p"
    using Cons.prems(2) by (cases pre) auto
  ultimately show ?case
    using Cons.prems(3) n' by simp
qed

text \<open>
  What \<open>place\<close> must achieve: the new key sits at the returned position, the chains are intact,
  one more entry is used, and every other key keeps its value.
\<close>

definition placed :: "('k \<Rightarrow> u32) \<Rightarrow> 'k hpb_table \<Rightarrow> 'k \<Rightarrow> u64 \<Rightarrow> 'k hpb_table \<Rightarrow> nat \<Rightarrow> bool" where
  "placed hash t k v t' i \<longleftrightarrow> (\<exists>es'. t' = t\<lparr>tab_entries := es'\<rparr> \<and> length es' = length (tab_entries t) \<and>
     (\<exists>C. chained (main_pos hash t) es' C) \<and> i < length es' \<and>
     e_key (es' ! i) = Some k \<and> e_val (es' ! i) = v \<and>
     card (used es') = Suc (card (used (tab_entries t))) \<and>
     (\<forall>k' v'. k' \<noteq> k \<longrightarrow>
        (\<exists>j < length es'. e_key (es' ! j) = Some k' \<and> e_val (es' ! j) = v') =
        (\<exists>j < length es'. e_key (tab_entries t ! j) = Some k' \<and> e_val (tab_entries t ! j) = v')))"

lemma placed_entry:
  assumes "chained (main_pos hash t) es' C" "length es' = length (tab_entries t)"
    and n: "n < length (tab_entries t)" "e_key (tab_entries t ! n) = None"
    and i: "i < length es'" "e_key (es' ! i) = Some k" "e_val (es' ! i) = v"
    and used: "used es' = insert n (used (tab_entries t))"
    and keep: "\<And>j. j < length es' \<Longrightarrow> j \<noteq> i \<Longrightarrow> e_key (es' ! j) \<noteq> None \<Longrightarrow>
      \<exists>j' < length es'. e_key (tab_entries t ! j') = e_key (es' ! j) \<and> e_val (tab_entries t ! j') = e_val (es' ! j)"
    and stay: "\<And>j. j < length es' \<Longrightarrow> e_key (tab_entries t ! j) \<noteq> None \<Longrightarrow>
      \<exists>j' < length es'. e_key (es' ! j') = e_key (tab_entries t ! j) \<and> e_val (es' ! j') = e_val (tab_entries t ! j)"
  shows "placed hash t k v (t\<lparr>tab_entries := es'\<rparr>) i"
proof -
  have "n \<notin> used (tab_entries t)"
    using n by (simp add: used_def)
  then have "card (used es') = Suc (card (used (tab_entries t)))"
    by (simp add: used)
  moreover have "(\<exists>j < length es'. e_key (es' ! j) = Some k' \<and> e_val (es' ! j) = v') =
      (\<exists>j < length es'. e_key (tab_entries t ! j) = Some k' \<and> e_val (tab_entries t ! j) = v')" (is "?L = ?R")
    if "k' \<noteq> k" for k' v'
  proof
    assume ?L
    then obtain j where "j < length es'" "e_key (es' ! j) = Some k'" "e_val (es' ! j) = v'"
      by blast
    then show ?R
      using keep [of j] i(2) that by (cases "j = i") auto
  next
    assume ?R
    then obtain j where "j < length es'" "e_key (tab_entries t ! j) = Some k'" "e_val (tab_entries t ! j) = v'"
      by blast
    then show ?L
      using stay [of j] by auto
  qed
  ultimately show ?thesis
    unfolding placed_def using assms(1,2) i by blast
qed

lemma used_update:
  "i < length es \<Longrightarrow> used (es[i := e]) = (if e_key e = None then used es - {i} else insert i (used es))"
  by (auto simp: used_def nth_list_update)

lemma placed_main:
  assumes C: "chained (main_pos hash t) (tab_entries t) C" and k: "fresh k (tab_entries t)"
    and i: "main_pos hash t k < length (tab_entries t)" "e_key (tab_entries t ! main_pos hash t k) = None"
  shows "placed hash t k v (insert_at (main_pos hash t k) (Some k) v None t) (main_pos hash t k)"
  unfolding insert_at_def set_ent_def
proof (rule placed_entry [OF chained_fill [OF C i refl k]])
  show "used ((tab_entries t)[main_pos hash t k := \<lparr>e_key = Some k, e_val = v, e_next = None\<rparr>]) =
      insert (main_pos hash t k) (used (tab_entries t))"
    using i by (simp add: used_update)
next
  let ?es' = "(tab_entries t)[main_pos hash t k := \<lparr>e_key = Some k, e_val = v, e_next = None\<rparr>]"
  fix j assume j: "j < length ?es'" "e_key (tab_entries t ! j) \<noteq> None"
  then have "?es' ! j = tab_entries t ! j"
    using i by (auto simp: nth_list_update)
  then show "\<exists>j' < length ?es'. e_key (?es' ! j') = e_key (tab_entries t ! j) \<and> e_val (?es' ! j') = e_val (tab_entries t ! j)"
    using j(1) by metis
qed (use i in \<open>auto simp: nth_list_update\<close>)

lemma placed_chain:
  fixes v :: u64 and t :: "'k hpb_table"
  defines "es \<equiv> tab_entries t"
  assumes C: "chained (main_pos hash t) es C" and k: "fresh k es"
    and h: "main_pos hash t k < length es" "e_key (es ! main_pos hash t k) = Some k0"
      "main_pos hash t k0 = main_pos hash t k"
    and n: "n < length es" "e_key (es ! n) = None"
  shows "placed hash t k v (insert_at n (Some k) v (e_next (es ! main_pos hash t k))
      (set_ent (main_pos hash t k) ((es ! main_pos hash t k)\<lparr>e_next := Some n\<rparr>) t)) n"
proof -
  let ?h = "main_pos hash t k"
  let ?es' = "es[?h := (es ! ?h)\<lparr>e_next := Some n\<rparr>, n := \<lparr>e_key = Some k, e_val = v, e_next = e_next (es ! ?h)\<rparr>]"
  have ne: "n \<noteq> ?h"
    using h n by auto
  have at: "?es' ! n = \<lparr>e_key = Some k, e_val = v, e_next = e_next (es ! ?h)\<rparr>"
    "\<And>j. j \<noteq> n \<Longrightarrow> e_key (?es' ! j) = e_key (es ! j) \<and> e_val (?es' ! j) = e_val (es ! j)"
    using n h ne by (auto simp: nth_list_update)
  have eq: "insert_at n (Some k) v (e_next (es ! ?h)) (set_ent ?h ((es ! ?h)\<lparr>e_next := Some n\<rparr>) t) =
      t\<lparr>tab_entries := ?es'\<rparr>"
    by (simp add: insert_at_def set_ent_def es_def)
  have ch: "chained (main_pos hash t) ?es' (C(?h := ?h # n # tl (C ?h)))"
    using chained_push [OF C h(1,2) h(3) n refl k] h(3) by simp
  have us: "used ?es' = insert n (used es)"
    using n h ne by (auto simp: used_update used_def nth_list_update)
  show ?thesis
    unfolding eq
  proof (rule placed_entry [OF ch])
    fix j assume "j < length ?es'" "j \<noteq> n"
    then show "\<exists>j' < length ?es'. e_key (tab_entries t ! j') = e_key (?es' ! j) \<and> e_val (tab_entries t ! j') = e_val (?es' ! j)"
      using at(2) [of j] by (auto simp: es_def)
  next
    fix j assume j: "j < length ?es'" "e_key (tab_entries t ! j) \<noteq> None"
    then have "j \<noteq> n"
      using n by (auto simp: es_def)
    then show "\<exists>j' < length ?es'. e_key (?es' ! j') = e_key (tab_entries t ! j) \<and> e_val (?es' ! j') = e_val (tab_entries t ! j)"
      using at(2) [of j] j by (auto simp: es_def)
  qed (use us n at in \<open>simp_all add: es_def\<close>)
qed

lemma placed_evict:
  fixes v :: u64 and t :: "'k hpb_table"
  defines "es \<equiv> tab_entries t"
  assumes C: "chained (main_pos hash t) es C" and k: "fresh k es"
    and p: "main_pos hash t k < length es" "e_key (es ! main_pos hash t k) = Some k0"
      "main_pos hash t k0 \<noteq> main_pos hash t k"
    and n: "n < length es" "e_key (es ! n) = None"
    and q: "C (main_pos hash t k0) = pre @ q # main_pos hash t k # suf"
  shows "placed hash t k v (insert_at (main_pos hash t k) (Some k) v None
      (set_ent q ((es ! q)\<lparr>e_next := Some n\<rparr>) (set_ent n (es ! main_pos hash t k) t))) (main_pos hash t k)"
proof -
  let ?p = "main_pos hash t k" and ?h = "main_pos hash t k0"
  let ?e = "\<lparr>e_key = Some k, e_val = v, e_next = None\<rparr>"
  let ?es1 = "es[n := es ! ?p, q := (es ! q)\<lparr>e_next := Some n\<rparr>, ?p := empty_ent]"
  let ?es' = "es[n := es ! ?p, q := (es ! q)\<lparr>e_next := Some n\<rparr>, ?p := ?e]"
  have mem: "q \<in> set (C ?h)" "distinct (C ?h)"
    using chained_chain [OF C, of ?h] q by (auto simp: chain_ok_def)
  then have q': "q < length es" "e_key (es ! q) \<noteq> None" "q \<noteq> ?p"
    using chained_mem [OF C, of q ?h] q by auto
  have ne: "n \<noteq> ?p" "n \<noteq> q"
    using p n q' by auto
  have eq: "insert_at ?p (Some k) v None (set_ent q ((es ! q)\<lparr>e_next := Some n\<rparr>) (set_ent n (es ! ?p) t)) =
      t\<lparr>tab_entries := ?es'\<rparr>"
    by (simp add: insert_at_def set_ent_def es_def)
  have ch1: "chained (main_pos hash t) ?es1 (C(?h := pre @ q # n # suf))"
    using chained_move [OF C p(1,2) refl p(3) n q] by (simp add: empty_ent_def)
  have "fresh k ?es1"
    using k p q' by (auto simp: fresh_def nth_list_update n empty_ent_def)
  then have ch: "chained (main_pos hash t) ?es' ((C(?h := pre @ q # n # suf))(?p := [?p]))"
    using chained_fill [OF ch1, of ?p k v] p n q' by (simp add: empty_ent_def)
  have at: "?es' ! ?p = ?e" "?es' ! n = es ! ?p"
    "\<And>j. j \<noteq> n \<Longrightarrow> j \<noteq> ?p \<Longrightarrow> e_key (?es' ! j) = e_key (es ! j) \<and> e_val (?es' ! j) = e_val (es ! j)"
    using n p q' ne by (auto simp: nth_list_update)
  have us: "used ?es' = insert n (used es)"
    using n p q' ne by (auto simp: used_update used_def nth_list_update)
  show ?thesis
    unfolding eq
  proof (rule placed_entry [OF ch])
    fix j assume "j < length ?es'" "j \<noteq> ?p"
    then show "\<exists>j' < length ?es'. e_key (tab_entries t ! j') = e_key (?es' ! j) \<and> e_val (tab_entries t ! j') = e_val (?es' ! j)"
      using at(2) at(3) [of j] p n by (cases "j = n") (auto simp: es_def)
  next
    fix j assume j: "j < length ?es'" "e_key (tab_entries t ! j) \<noteq> None"
    then have "j \<noteq> n"
      using n by (auto simp: es_def)
    then show "\<exists>j' < length ?es'. e_key (?es' ! j') = e_key (tab_entries t ! j) \<and> e_val (?es' ! j') = e_val (tab_entries t ! j)"
      using at(2) at(3) [of j] j n by (cases "j = ?p") (auto simp: es_def)
  qed (use us n p at in \<open>simp_all add: es_def\<close>)
qed

lemma place_collision_placed:
  assumes sh: "tab_shape t" and C: "chained (main_pos hash t) (tab_entries t) C"
    and k: "fresh k (tab_entries t)"
    and p: "main_pos hash t k < length (tab_entries t)" "e_key (tab_entries t ! main_pos hash t k) = Some k0"
    and free: "i < length (tab_entries t)" "e_key (tab_entries t ! i) = None"
  shows "\<exists>t' our. place_collision hash t (Some k) v (main_pos hash t k) (tab_entries t ! main_pos hash t k) k0 =
      Inr (t', our) \<and> placed hash t k v t' our"
proof -
  let ?es = "tab_entries t" and ?p = "main_pos hash t k"
  obtain n where n: "emptyent t ?p = Inr n" "n < length ?es" "e_key (?es ! n) = None"
    using emptyent_ok [OF sh free] .
  show ?thesis
  proof (cases "main_pos hash t k0 = ?p")
    case True
    then show ?thesis
      using placed_chain [OF C k p True n(2,3), of v] n(1)
      by (simp add: place_collision_def Let_def)
  next
    case False
    obtain pre q suf where q: "C (main_pos hash t k0) = pre @ q # ?p # suf"
      using chained_prev [OF C p refl False] .
    have ok: "chain_ok (main_pos hash t) ?es (main_pos hash t k0) (pre @ q # ?p # suf)"
      using chained_chain [OF C] q by metis
    have n_out: "n \<notin> set (pre @ q # ?p # suf)"
      using chained_mem [OF C, of n "main_pos hash t k0"] n(3) q by simp
    let ?t1 = "set_ent n (?es ! ?p) t"
    have ne: "n \<noteq> q" and q': "q < length ?es"
      using n_out ok by (auto simp: chain_ok_def)
    have "?es[n := ?es ! ?p] ! i = ?es ! i" if "i \<in> set (pre @ q # ?p # suf)" for i
      using that n_out by (metis nth_list_update_neq)
    then have "links (tab_entries ?t1) (pre @ q # ?p # suf) None"
      using ok links_cong [of "pre @ q # ?p # suf" ?es "tab_entries ?t1" None] by (simp add: chain_ok_def set_ent_def)
    moreover have "length pre < length (tab_entries ?t1)"
      using chain_length [OF C, of "main_pos hash t k0"] q by (simp add: set_ent_def)
    moreover have "hd (pre @ [q]) = main_pos hash t k0"
      using ok by (cases pre) (auto simp: chain_ok_def)
    ultimately have "find_prev (length (tab_entries ?t1)) ?t1 ?p (main_pos hash t k0) = Inr q"
      using find_prev_links [of ?t1 pre q ?p suf "length (tab_entries ?t1)"] ok
      by (auto simp: chain_ok_def set_ent_def)
    then show ?thesis
      using placed_evict [OF C k p False n(2,3) q, of v] n(1) False q' ne
      by (simp add: place_collision_def Let_def ent_at_def set_ent_def)
  qed
qed

lemma placed_map:
  assumes "placed hash t k v t' i" and uniq: "unique_keys (tab_entries t)"
  shows "tab_map t' = (tab_map t)(k \<mapsto> v)"
proof -
  obtain es' C where es': "t' = t\<lparr>tab_entries := es'\<rparr>" "length es' = length (tab_entries t)"
    "chained (main_pos hash t) es' C" "i < length es'" "e_key (es' ! i) = Some k" "e_val (es' ! i) = v"
    and rest: "\<And>k' v'. k' \<noteq> k \<Longrightarrow> (\<exists>j < length es'. e_key (es' ! j) = Some k' \<and> e_val (es' ! j) = v') =
        (\<exists>j < length es'. e_key (tab_entries t ! j) = Some k' \<and> e_val (tab_entries t ! j) = v')"
    using assms(1) unfolding placed_def by blast
  have u': "unique_keys (tab_entries t')"
    using es'(1,3) chained_unique by auto
  show ?thesis
  proof
    fix k'
    show "tab_map t' k' = ((tab_map t)(k \<mapsto> v)) k'"
    proof (cases "k' = k")
      case True
      then show ?thesis
        using tab_map_Some [OF u', of k v] es' by auto
    next
      case False
      then have "tab_map t' k' = Some v' \<longleftrightarrow> tab_map t k' = Some v'" for v'
        using tab_map_Some [OF u', of k' v'] tab_map_Some [OF uniq, of k' v'] rest [of k' v'] es'(1,2) by simp
      then show ?thesis
        using False by (metis fun_upd_other option.exhaust)
    qed
  qed
qed

lemma tab_insert_correct:
  assumes inv: "tab_inv hash t" and k: "tab_map t k = None" and room: "tab_count t < hpb_table_size t"
  shows "\<exists>t'. tab_insert hash t (Some k) (Some k) v (hash k) = Inr t' \<and> tab_inv hash t' \<and>
    tab_map t' = (tab_map t)(k \<mapsto> v) \<and> tab_size_lg2 t' = tab_size_lg2 t \<and> tab_max_count t' = tab_max_count t \<and>
    tab_count t' = Suc (tab_count t)"
proof -
  let ?t = "t\<lparr>tab_count := tab_count t + 1\<rparr>" and ?es = "tab_entries t" and ?p = "main_pos hash t k"
  obtain C where sh: "tab_shape t" and cnt: "tab_count t = card (used ?es)" and C: "chained (main_pos hash t) ?es C"
    using inv by (auto simp: tab_inv_def)
  have sh': "tab_shape ?t" and C': "chained (main_pos hash ?t) (tab_entries ?t) C" and pos: "main_pos hash ?t = main_pos hash t"
    using sh C by (simp_all add: tab_shape_def hpb_table_size_def hpb_getentry_def)
  have fresh: "tab_index ?es k = None"
    using k by (simp add: tab_map_def)
  then have fr: "fresh k ?es"
    by (simp add: tab_index_None)
  have lg: "tab_size_lg2 t \<noteq> 0"
    using room by (auto simp: hpb_table_size_def table_size_of_def)
  have p: "?p < length ?es"
    using getentry_less [OF sh lg] .
  obtain i where i: "i < length ?es" "e_key (?es ! i) = None"
  proof (rule ccontr)
    assume "\<not> thesis"
    then have "used ?es = {..<length ?es}"
      using that by (auto simp: used_def)
    then show False
      using cnt room sh by (simp add: tab_shape_def)
  qed
  obtain t' our where t': "(case e_key (?es ! ?p) of
        None \<Rightarrow> Inr (insert_at ?p (Some k) v None ?t, ?p)
      | Some k0 \<Rightarrow> place_collision hash ?t (Some k) v ?p (?es ! ?p) k0) = Inr (t', our)"
    and pl: "placed hash ?t k v t' our"
  proof (cases "e_key (?es ! ?p)")
    case None
    then show thesis
      using that placed_main [OF C', of k v] fr p pos by simp
  next
    case (Some k0)
    then show thesis
      using that place_collision_placed [OF sh' C', of k k0 i v] fr p i pos by auto
  qed
  then obtain es' C2 where es': "t' = ?t\<lparr>tab_entries := es'\<rparr>" "length es' = length ?es"
    "chained (main_pos hash t) es' C2" "our < length es'" "e_key (es' ! our) = Some k"
    "card (used es') = Suc (card (used ?es))"
    unfolding placed_def pos by auto
  have sh2: "tab_shape t'" and pos2: "main_pos hash t' = main_pos hash t" and ent: "tab_entries t' = es'"
    using sh es'(1,2) by (simp_all add: tab_shape_def hpb_table_size_def hpb_getentry_def)
  have inv': "tab_inv hash t'"
    unfolding tab_inv_def pos2 ent using sh2 es' cnt by auto
  have "findentry t' (Some k) (hash k) = Inr (Some our)"
    using findentry_correct [OF inv', of k] tab_index_Some [OF chained_unique [OF es'(3)], of k our] es'(4,5) ent
    by simp
  moreover have "findentry t (Some k) (hash k) = Inr None"
    using findentry_correct [OF inv, of k] fresh by simp
  moreover have "tab_map t' = (tab_map t)(k \<mapsto> v)"
    using placed_map [OF pl] chained_unique [OF C] by simp
  ultimately show ?thesis
    using t' inv' p es'(1) by (auto simp: tab_insert_def Let_def ent_at_def split: option.splits)
qed

end
