(* ===== verification/HashRemove.thy ===== *)
theory HashRemove
  imports HashChain
begin

text \<open>
  Removal from the hash table and iteration over it.
\<close>

section \<open>Removal\<close>

lemma find_before_links:
  "links (tab_entries t) xs None \<Longrightarrow> \<forall>i \<in> set xs. i < length (tab_entries t) \<Longrightarrow> xs \<noteq> [] \<Longrightarrow>
   length xs \<le> n \<Longrightarrow> \<forall>i \<in> set (tl xs). e_key (tab_entries t ! i) \<noteq> key \<Longrightarrow>
   find_before n t key (hd xs) = Inr None"
proof (induction xs arbitrary: n)
  case (Cons i xs)
  then obtain n' where n': "n = Suc n'"
    by (cases n) auto
  show ?case
  proof (cases xs)
    case Nil
    then show ?thesis
      using Cons.prems n' by simp
  next
    case (Cons j ys)
    then show ?thesis
      using Cons.prems Cons.IH [of n'] n' by simp
  qed
qed simp

lemma find_before_found:
  "links (tab_entries t) (pre @ p # j # suf) None \<Longrightarrow>
   \<forall>i \<in> set (pre @ p # j # suf). i < length (tab_entries t) \<Longrightarrow> length pre < n \<Longrightarrow>
   \<forall>i \<in> set (tl (pre @ [p])). e_key (tab_entries t ! i) \<noteq> key \<Longrightarrow> e_key (tab_entries t ! j) = key \<Longrightarrow>
   find_before n t key (hd (pre @ [p])) = Inr (Some (p, j))"
proof (induction pre arbitrary: n)
  case Nil
  then show ?case by (cases n) auto
next
  case (Cons i pre)
  then obtain n' where n': "n = Suc n'"
    by (cases n) auto
  have nx: "e_next (tab_entries t ! i) = Some (hd (pre @ [p]))"
    using Cons.prems(1) by (cases pre) auto
  have mem: "hd (pre @ [p]) \<in> set (pre @ [p])"
    by (cases pre) auto
  have "find_before n' t key (hd (pre @ [p])) = Inr (Some (p, j))"
    using Cons.prems n' by (intro Cons.IH) (cases pre; auto)+
  then show ?case
    using nx mem Cons.prems(2,4) n' by auto
qed

text \<open>What removal must achieve, for the key that goes and for the others.\<close>

lemma removed_inv:
  assumes inv: "tab_inv hash t" and i: "tab_index (tab_entries t) k = Some i"
    and len: "length es' = length (tab_entries t)" and C: "chained (main_pos hash t) es' C"
    and used: "\<exists>x \<in> used (tab_entries t). used es' = used (tab_entries t) - {x}"
    and gone: "fresh k es'"
    and keep: "\<And>j. j < length es' \<Longrightarrow> e_key (es' ! j) \<noteq> None \<Longrightarrow>
      \<exists>j' < length es'. e_key (tab_entries t ! j') = e_key (es' ! j) \<and> e_val (tab_entries t ! j') = e_val (es' ! j)"
    and stay: "\<And>j. j < length es' \<Longrightarrow> j \<noteq> i \<Longrightarrow> e_key (tab_entries t ! j) \<noteq> None \<Longrightarrow>
      \<exists>j' < length es'. e_key (es' ! j') = e_key (tab_entries t ! j) \<and> e_val (es' ! j') = e_val (tab_entries t ! j)"
  defines "t' \<equiv> t\<lparr>tab_count := tab_count t - 1, tab_entries := es'\<rparr>"
  shows "tab_inv hash t' \<and> tab_map t' = (tab_map t)(k := None)"
proof
  have uniq: "unique_keys (tab_entries t)" and cnt: "tab_count t = card (used (tab_entries t))"
    using inv chained_unique by (auto simp: tab_inv_def)
  obtain x where x: "x \<in> used (tab_entries t)" "used es' = used (tab_entries t) - {x}"
    using used by blast
  have "card (used es') = tab_count t - 1"
    unfolding x(2) cnt by (rule card_Diff_singleton) (rule x(1))
  then show "tab_inv hash t'"
    using inv C len by (auto simp: tab_inv_def tab_shape_def t'_def)
  have u': "unique_keys (tab_entries t')"
    using chained_unique [OF C] by (simp add: t'_def)
  have ik: "e_key (tab_entries t ! i) = Some k"
    using i tab_index_Some [OF uniq] by simp
  show "tab_map t' = (tab_map t)(k := None)"
  proof
    fix k'
    show "tab_map t' k' = ((tab_map t)(k := None)) k'"
    proof (cases "k' = k")
      case True
      then show ?thesis
        using gone by (simp add: t'_def tab_map_def tab_index_None [symmetric])
    next
      case False
      have "tab_map t' k' = Some v \<longleftrightarrow> tab_map t k' = Some v" for v
      proof
        assume "tab_map t' k' = Some v"
        then obtain j where "j < length es'" "e_key (es' ! j) = Some k'" "e_val (es' ! j) = v"
          using tab_map_Some [OF u', of k' v] by (auto simp: t'_def)
        then show "tab_map t k' = Some v"
          using keep [of j] tab_map_Some [OF uniq, of k' v] len by auto
      next
        assume "tab_map t k' = Some v"
        then obtain j where j: "j < length es'" "e_key (tab_entries t ! j) = Some k'" "e_val (tab_entries t ! j) = v"
          using tab_map_Some [OF uniq, of k' v] len by auto
        then have "j \<noteq> i"
          using ik False by auto
        then show "tab_map t' k' = Some v"
          using stay [of j] j tab_map_Some [OF u', of k' v] by (auto simp: t'_def)
      qed
      then show ?thesis
        using False by (metis fun_upd_other option.exhaust)
    qed
  qed
qed

lemma rm_only:
  assumes inv: "tab_inv hash t" and C: "chained (main_pos hash t) (tab_entries t) C"
    and i: "tab_index (tab_entries t) k = Some (main_pos hash t k)" and only: "C (main_pos hash t k) = [main_pos hash t k]"
  defines "t' \<equiv> clear_key (main_pos hash t k) (t\<lparr>tab_count := tab_count t - 1\<rparr>)"
  shows "tab_inv hash t' \<and> tab_map t' = (tab_map t)(k := None)"
proof -
  let ?es = "tab_entries t" and ?h = "main_pos hash t k"
  let ?es' = "?es[?h := (?es ! ?h)\<lparr>e_key := None\<rparr>]"
  have uniq: "unique_keys ?es"
    using chained_unique [OF C] .
  have h: "?h < length ?es" "e_key (?es ! ?h) = Some k"
    using i tab_index_Some [OF uniq] by auto
  have t': "t' = t\<lparr>tab_count := tab_count t - 1, tab_entries := ?es'\<rparr>"
    by (simp add: t'_def clear_key_def set_ent_def)
  have ch: "chained (main_pos hash t) ?es' (C(?h := []))"
    using chained_clear_only [OF C h(1) only] by simp
  have us: "\<exists>x \<in> used ?es. used ?es' = used ?es - {x}"
    using h by (intro bexI [of _ ?h]) (auto simp: used_def nth_list_update)
  have gone: "fresh k ?es'"
    using h unique_keysD [OF uniq] by (auto simp: fresh_def nth_list_update)
  show ?thesis
    unfolding t'
  proof (rule removed_inv [OF inv i _ ch us gone])
    fix j assume "j < length ?es'" "j \<noteq> ?h"
    then show "\<exists>j' < length ?es'. e_key (?es' ! j') = e_key (?es ! j) \<and> e_val (?es' ! j') = e_val (?es ! j)"
      by (metis nth_list_update_neq)
  next
    fix j assume "j < length ?es'" "e_key (?es' ! j) \<noteq> None"
    then show "\<exists>j' < length ?es'. e_key (?es ! j') = e_key (?es' ! j) \<and> e_val (?es ! j') = e_val (?es' ! j)"
      using h by (intro exI [of _ j]) (auto simp: nth_list_update split: if_splits)
  qed simp
qed

lemma rm_head:
  assumes inv: "tab_inv hash t" and C: "chained (main_pos hash t) (tab_entries t) C"
    and i: "tab_index (tab_entries t) k = Some (main_pos hash t k)"
    and head: "C (main_pos hash t k) = main_pos hash t k # j # xs"
  defines "t' \<equiv> clear_key j (set_ent (main_pos hash t k) (tab_entries t ! j) (t\<lparr>tab_count := tab_count t - 1\<rparr>))"
  shows "tab_inv hash t' \<and> tab_map t' = (tab_map t)(k := None)"
proof -
  let ?es = "tab_entries t" and ?h = "main_pos hash t k"
  let ?es' = "?es[?h := ?es ! j, j := (?es ! j)\<lparr>e_key := None\<rparr>]"
  have uniq: "unique_keys ?es"
    using chained_unique [OF C] .
  have h: "?h < length ?es" "e_key (?es ! ?h) = Some k"
    using i tab_index_Some [OF uniq] by auto
  have "distinct (C ?h)" "j \<in> set (C ?h)"
    using chained_chain [OF C, of ?h] head by (auto simp: chain_ok_def)
  then have j: "j < length ?es" "e_key (?es ! j) \<noteq> None" "j \<noteq> ?h"
    using chained_mem [OF C, of j ?h] head by auto
  have t': "t' = t\<lparr>tab_count := tab_count t - 1, tab_entries := ?es'\<rparr>"
    using j by (simp add: t'_def clear_key_def set_ent_def)
  have ch: "chained (main_pos hash t) ?es' (C(?h := ?h # xs))"
    using chained_clear_head [OF C h(1) head] by simp
  have us: "\<exists>x \<in> used ?es. used ?es' = used ?es - {x}"
    using h j by (intro bexI [of _ j]) (auto simp: used_def nth_list_update split: if_splits)
  have gone: "fresh k ?es'"
    using h j unique_keysD [OF uniq] by (auto simp: fresh_def nth_list_update)
  show ?thesis
    unfolding t'
  proof (rule removed_inv [OF inv i _ ch us gone])
    fix l assume l: "l < length ?es'" "l \<noteq> ?h"
    show "\<exists>j' < length ?es'. e_key (?es' ! j') = e_key (?es ! l) \<and> e_val (?es' ! j') = e_val (?es ! l)"
      using l h j by (intro exI [of _ "if l = j then ?h else l"]) (auto simp: nth_list_update)
  next
    fix l assume l: "l < length ?es'" "e_key (?es' ! l) \<noteq> None"
    then show "\<exists>j' < length ?es'. e_key (?es ! j') = e_key (?es' ! l) \<and> e_val (?es ! j') = e_val (?es' ! l)"
      using h j by (intro exI [of _ "if l = ?h then j else l"]) (auto simp: nth_list_update split: if_splits)
  qed simp
qed

lemma rm_inner:
  assumes inv: "tab_inv hash t" and C: "chained (main_pos hash t) (tab_entries t) C"
    and i: "tab_index (tab_entries t) k = Some j" and inner: "C h = pre @ p # j # suf"
  defines "t' \<equiv> set_ent p ((tab_entries t ! p)\<lparr>e_next := e_next (tab_entries t ! j)\<rparr>) (clear_key j (t\<lparr>tab_count := tab_count t - 1\<rparr>))"
  shows "tab_inv hash t' \<and> tab_map t' = (tab_map t)(k := None)"
proof -
  let ?es = "tab_entries t"
  let ?es' = "?es[j := (?es ! j)\<lparr>e_key := None\<rparr>, p := (?es ! p)\<lparr>e_next := e_next (?es ! j)\<rparr>]"
  have uniq: "unique_keys ?es"
    using chained_unique [OF C] .
  have j: "j < length ?es" "e_key (?es ! j) = Some k"
    using i tab_index_Some [OF uniq] by auto
  have "distinct (C h)" "p \<in> set (C h)"
    using chained_chain [OF C, of h] inner by (auto simp: chain_ok_def)
  then have p: "p < length ?es" "e_key (?es ! p) \<noteq> None" "j \<noteq> p"
    using chained_mem [OF C, of p h] inner by auto
  have t': "t' = t\<lparr>tab_count := tab_count t - 1, tab_entries := ?es'\<rparr>"
    by (simp add: t'_def clear_key_def set_ent_def)
  have ch: "chained (main_pos hash t) ?es' (C(h := pre @ p # suf))"
    using chained_clear_inner [OF C inner] by simp
  have us: "\<exists>x \<in> used ?es. used ?es' = used ?es - {x}"
    using j p by (intro bexI [of _ j]) (auto simp: used_def nth_list_update split: if_splits)
  have gone: "fresh k ?es'"
    using p j unique_keysD [OF uniq] by (auto simp: fresh_def nth_list_update)
  show ?thesis
    unfolding t'
  proof (rule removed_inv [OF inv i _ ch us gone])
    fix l assume l: "l < length ?es'" "l \<noteq> j"
    show "\<exists>j' < length ?es'. e_key (?es' ! j') = e_key (?es ! l) \<and> e_val (?es' ! j') = e_val (?es ! l)"
      using l j p by (intro exI [of _ l]) (auto simp: nth_list_update)
  next
    fix l assume l: "l < length ?es'" "e_key (?es' ! l) \<noteq> None"
    then show "\<exists>j' < length ?es'. e_key (?es ! j') = e_key (?es' ! l) \<and> e_val (?es ! j') = e_val (?es' ! l)"
      using j p by (intro exI [of _ l]) (auto simp: nth_list_update split: if_splits)
  qed simp
qed

lemma tab_map_index: "tab_map t k = map_option (\<lambda>i. e_val (tab_entries t ! i)) (tab_index (tab_entries t) k)"
  by (simp add: tab_map_def)

lemma chain_next:
  assumes "chained m es C" "C h = pre @ i # xs"
  shows "e_next (es ! i) = (case xs of [] \<Rightarrow> None | j # _ \<Rightarrow> Some j)"
  using chained_chain [OF assms(1), of h] assms(2) by (simp add: chain_ok_def links_append)

lemma tab_rm_correct:
  assumes inv: "tab_inv hash t" and lg: "tab_size_lg2 t \<noteq> 0"
  shows "\<exists>t'. tab_rm t (Some k) (hash k) = Inr (t', map_option (\<lambda>v. (Some k, v)) (tab_map t k)) \<and>
    tab_inv hash t' \<and> tab_map t' = (tab_map t)(k := None) \<and> tab_size_lg2 t' = tab_size_lg2 t"
proof -
  let ?es = "tab_entries t" and ?h = "main_pos hash t k"
  obtain C where C: "chained (main_pos hash t) ?es C"
    using tab_inv_chained [OF inv] by blast
  note uniq = chained_unique [OF C]
  have h: "?h < length ?es"
    using tab_inv_getentry [OF inv lg] .
  show ?thesis
  proof (cases "tab_index ?es k")
    case None
    then have fr: "fresh k ?es" and m: "tab_map t k = None"
      by (simp_all add: tab_index_None tab_map_def)
    have "tab_rm t (Some k) (hash k) = Inr (t, None)"
    proof (cases "e_key (?es ! ?h)")
      case (Some k1)
      have "find_before (length ?es) t (Some k) ?h = Inr None"
      proof -
        obtain pre suf where s: "C (main_pos hash t k1) = pre @ ?h # suf"
          using chained_mem [OF C, of ?h "main_pos hash t k1"] h Some by (metis in_set_conv_decomp)
        have ok: "chain_ok (main_pos hash t) ?es (main_pos hash t k1) (pre @ ?h # suf)"
          using chained_chain [OF C] s by metis
        show ?thesis
          using find_before_links [of t "?h # suf" "length ?es" "Some k"] ok fr
            chain_length [OF C, of "main_pos hash t k1"] s
          by (auto simp: chain_ok_def links_append fresh_def)
      qed
      then show ?thesis
        using h Some fr by (auto simp: tab_rm_def Let_def hpb_tabent_isempty_def fresh_def)
    qed (use h in \<open>simp add: tab_rm_def Let_def hpb_tabent_isempty_def\<close>)
    then show ?thesis
      using inv m by (simp add: fun_upd_idem)
  next
    case (Some i)
    then have i: "i < length ?es" "e_key (?es ! i) = Some k"
      using tab_index_Some [OF uniq] by auto
    have v: "tab_map t k = Some (e_val (?es ! i))"
      using Some by (simp add: tab_map_def)
    show ?thesis
    proof (cases "i = ?h")
      case True
      have i': "tab_index ?es k = Some ?h"
        using Some True by simp
      obtain xs where xs: "C ?h = ?h # xs"
        using chained_Cons [OF C, of ?h k] i True by auto
      show ?thesis
      proof (cases xs)
        case Nil
        then show ?thesis
          using rm_only [OF inv C i'] xs chain_next [OF C, of ?h "[]" ?h xs] i v True
          by (simp add: tab_rm_def Let_def hpb_tabent_isempty_def clear_key_def set_ent_def)
      next
        case (Cons j ys)
        have "j < length ?es"
          using chained_mem [OF C, of j ?h] xs Cons by simp
        then show ?thesis
          using rm_head [OF inv C i', of j ys] xs Cons chain_next [OF C, of ?h "[]" ?h xs] i v True
          by (simp add: tab_rm_def Let_def hpb_tabent_isempty_def clear_key_def set_ent_def)
      qed
    next
      case False
      obtain pre p suf where s: "C ?h = pre @ p # i # suf"
        using chained_prev [OF C i refl] False by metis
      have ok: "chain_ok (main_pos hash t) ?es ?h (pre @ p # i # suf)"
        using chained_chain [OF C] s by metis
      have hd: "hd (pre @ [p]) = ?h"
        using ok by (cases pre) (auto simp: chain_ok_def)
      have other: "e_key (?es ! j) \<noteq> Some k" if "j < length ?es" "j \<noteq> i" for j
        using that i unique_keysD [OF uniq] by blast
      have "\<forall>j \<in> set (tl (pre @ [p])). e_key (?es ! j) \<noteq> Some k"
      proof
        fix j assume "j \<in> set (tl (pre @ [p]))"
        then have "j \<in> set (pre @ [p])"
          by (cases pre) auto
        then show "e_key (?es ! j) \<noteq> Some k"
          using ok by (intro other) (auto simp: chain_ok_def)
      qed
      then have "find_before (length ?es) t (Some k) ?h = Inr (Some (p, i))"
        using find_before_found [of t pre p i suf "length ?es" "Some k"] ok i hd
          chain_length [OF C, of ?h] s by (auto simp: chain_ok_def)
      moreover have "e_key (?es ! ?h) \<noteq> None" "e_key (?es ! ?h) \<noteq> Some k" "p < length ?es"
        using chained_mem [OF C, of ?h ?h] chained_mem [OF C, of p ?h] s hd other h False
        by (cases pre; auto)+
      ultimately show ?thesis
        using rm_inner [OF inv C Some s] h i v
        by (simp add: tab_rm_def Let_def hpb_tabent_isempty_def clear_key_def set_ent_def)
    qed
  qed
qed

section \<open>Iteration\<close>

text \<open>The used entries from an index on, in order.\<close>

definition used_from :: "'k hpb_table \<Rightarrow> nat \<Rightarrow> nat list" where
  "used_from t n = filter (\<lambda>i. e_key (tab_entries t ! i) \<noteq> None) [n..<hpb_table_size t]"

lemma table_size_less64: "hpb_table_size t < 2 ^ 32"
  using table_size_less by (simp add: hpb_table_size_def)

text \<open>\<open>next\<close> gives the first used entry after an index, or \<open>SIZE_MAX - 1\<close> when there is none.\<close>

lemma next_ent_correct:
  "next_ent t i = (case used_from t (unat (i + 1)) of [] \<Rightarrow> - 2 | j # _ \<Rightarrow> of_nat j)"
proof (induction t i rule: next_ent.induct)
  case (1 t i)
  let ?n = "unat (i + 1)"
  show ?case
  proof (cases "?n \<ge> hpb_table_size t")
    case True
    then show ?thesis
      by (simp add: next_ent.simps [of t i] used_from_def)
  next
    case False
    then have up: "[?n..<hpb_table_size t] = ?n # [Suc ?n..<hpb_table_size t]"
      by (simp add: upt_conv_Cons)
    show ?thesis
    proof (cases "e_key (tab_entries t ! ?n)")
      case None
      have "i + 1 \<noteq> - 1"
      proof
        assume e: "i + 1 = - 1"
        have "?n = 2 ^ 64 - 1"
          unfolding e by (simp add: unat_minus_1)
        then show False
          using False table_size_less64 [of t] by simp
      qed
      then have "unat (i + 1 + 1) = Suc ?n"
        by (metis add_eq_0_iff minus_unique unatSuc add.commute)
      then have "used_from t ?n = used_from t (unat (i + 1 + 1))"
        by (simp add: used_from_def up None)
      then show ?thesis
        using 1 [OF refl] False None
        by (simp add: next_ent.simps [of t i] Let_def hpb_tabent_isempty_def)
    next
      case (Some k)
      then show ?thesis
        using False by (simp add: next_ent.simps [of t i] Let_def hpb_tabent_isempty_def used_from_def up)
    qed
  qed
qed

lemma used_from_Cons:
  assumes "used_from t n = j # js"
  shows "j < hpb_table_size t" "n \<le> j" "e_key (tab_entries t ! j) \<noteq> None" "used_from t (Suc j) = js"
proof -
  have mem: "j \<in> set (used_from t n)"
    using assms by simp
  then show j: "j < hpb_table_size t" "n \<le> j" "e_key (tab_entries t ! j) \<noteq> None"
    by (auto simp: used_from_def)
  have up: "[n..<hpb_table_size t] = [n..<j] @ j # [Suc j..<hpb_table_size t]"
    using j by (metis append_assoc append_Cons append_Nil upt_add_eq_append upt_conv_Cons le_add_diff_inverse less_imp_le)
  have "filter (\<lambda>i. e_key (tab_entries t ! i) \<noteq> None) [n..<j] = []"
  proof (rule ccontr)
    assume "\<not> ?thesis"
    then obtain i l where "filter (\<lambda>i. e_key (tab_entries t ! i) \<noteq> None) [n..<j] = i # l"
      by (cases "filter (\<lambda>i. e_key (tab_entries t ! i) \<noteq> None) [n..<j]") auto
    moreover from this have "i \<in> set (filter (\<lambda>i. e_key (tab_entries t ! i) \<noteq> None) [n..<j])"
      by simp
    then have "i < j"
      by simp
    ultimately show False
      using assms up by (simp add: used_from_def)
  qed
  then show "used_from t (Suc j) = js"
    using assms up j(3) by (simp add: used_from_def)
qed

lemma next_ent_cases:
  obtains (no_more) "used_from t (unat (i + 1)) = []" "next_ent t i = - 2" "\<not> unat (next_ent t i) < hpb_table_size t"
  | (found) j js where "used_from t (unat (i + 1)) = j # js" "next_ent t i = of_nat j" "unat (next_ent t i) = j"
      "j < hpb_table_size t" "unat (next_ent t i + 1) = Suc j" "used_from t (Suc j) = js"
      "e_key (tab_entries t ! j) \<noteq> None"
proof (cases "used_from t (unat (i + 1))")
  case Nil
  have "unat (- 2 :: u64) = 2 ^ 64 - 2"
    by (simp add: unsigned_minus_1_eq_mask unat_minus_one)
  then show thesis
    using Nil next_ent_correct [of t i] table_size_less64 [of t] by (intro no_more) auto
next
  case (Cons j js)
  note c = used_from_Cons [OF Cons]
  have e: "next_ent t i = of_nat j"
    using next_ent_correct [of t i] Cons by simp
  have "j < 2 ^ 32"
    using c(1) table_size_less64 [of t] by simp
  then have u: "unat (of_nat m :: u64) = m" if "m \<le> Suc j" for m
    using that by (simp add: unat_of_nat)
  have "unat (of_nat j + 1 :: u64) = Suc j"
    using u [of "Suc j"] by (simp add: add.commute)
  then show thesis
    using found [of j js] Cons c e u [of j] by simp
qed

text \<open>The pairs that an iteration from an index on yields.\<close>

definition assoc_at :: "'k hpb_table \<Rightarrow> nat \<Rightarrow> 'k \<times> u64" where
  "assoc_at t j = (the (e_key (tab_entries t ! j)), e_val (tab_entries t ! j))"

definition assocs_from :: "'k hpb_table \<Rightarrow> nat \<Rightarrow> ('k \<times> u64) list" where
  "assocs_from t n = map (assoc_at t) (used_from t n)"

lemma assocs_keys:
  assumes "length (tab_entries t) = hpb_table_size t" "unique_keys (tab_entries t)"
  shows "distinct (map fst (assocs_from t n))"
proof -
  have "inj_on (\<lambda>j. the (e_key (tab_entries t ! j))) (set (used_from t n))"
    using assms by (auto simp: inj_on_def used_from_def intro: unique_keysD)
  moreover have "distinct (used_from t n)"
    by (simp add: used_from_def)
  ultimately show ?thesis
    by (simp add: assocs_from_def distinct_map comp_def assoc_at_def)
qed

lemma assocs_mem:
  assumes "length (tab_entries t) = hpb_table_size t" "unique_keys (tab_entries t)"
  shows "(k, v) \<in> set (assocs_from t 0) \<longleftrightarrow> tab_map t k = Some v"
proof -
  have "(k, v) \<in> set (assocs_from t 0) \<longleftrightarrow>
      (\<exists>j < length (tab_entries t). e_key (tab_entries t ! j) = Some k \<and> e_val (tab_entries t ! j) = v)"
    using assms(1) by (force simp: assocs_from_def used_from_def assoc_at_def)
  then show ?thesis
    using tab_map_Some [OF assms(2)] by simp
qed

lemma map_of_assocs:
  assumes "length (tab_entries t) = hpb_table_size t" "unique_keys (tab_entries t)"
  shows "map_of (assocs_from t 0) = tab_map t"
proof
  fix k
  have "map_of (assocs_from t 0) k = Some v \<longleftrightarrow> tab_map t k = Some v" for v
    using assocs_mem [OF assms] map_of_eq_Some_iff [OF assocs_keys [OF assms]] by simp
  then show "map_of (assocs_from t 0) k = tab_map t k"
    by (metis option.exhaust)
qed

lemma assocs_length:
  assumes "length (tab_entries t) = hpb_table_size t"
  shows "length (assocs_from t 0) = card (used (tab_entries t))"
proof -
  have "set (used_from t 0) = used (tab_entries t)" "distinct (used_from t 0)"
    using assms by (auto simp: used_from_def used_def)
  then show ?thesis
    by (metis assocs_from_def length_map distinct_card)
qed

lemma tab_inv_facts:
  assumes "tab_inv hash t"
  shows "length (tab_entries t) = hpb_table_size t" "unique_keys (tab_entries t)"
    "tab_count t = card (used (tab_entries t))" "tab_size_lg2 t \<le> 30"
    "unat (tab_max_count t) = max_load (hpb_table_size t)"
proof -
  show "length (tab_entries t) = hpb_table_size t" "tab_count t = card (used (tab_entries t))" "tab_size_lg2 t \<le> 30"
    using assms by (simp_all add: tab_inv_def tab_shape_def)
  show "unique_keys (tab_entries t)"
    using assms chained_unique by (auto simp: tab_inv_def)
  have "max_load (hpb_table_size t) < 2 ^ 32"
    using max_load_less [of "hpb_table_size t"] table_size_less64 [of t]
    by (cases "hpb_table_size t = 0") (auto simp: max_load_def)
  then show "unat (tab_max_count t) = max_load (hpb_table_size t)"
    using assms by (simp add: tab_inv_def tab_shape_def unat_of_nat)
qed

lemma tab_count_dom:
  assumes "tab_inv hash t"
  shows "tab_count t = card (dom (tab_map t))" "finite (dom (tab_map t))"
proof -
  note f = tab_inv_facts [OF assms]
  have "card (dom (map_of (assocs_from t 0))) = length (assocs_from t 0)"
    using distinct_card [OF assocs_keys [OF f(1,2), of 0]] by (simp add: dom_map_of_conv_image_fst)
  then show "tab_count t = card (dom (tab_map t))"
    using map_of_assocs [OF f(1,2)] assocs_length [OF f(1)] f(3) by simp
  show "finite (dom (tab_map t))"
    using finite_dom_map_of [of "assocs_from t 0"] map_of_assocs [OF f(1,2)] by simp
qed

section \<open>The map that a table implements\<close>

text \<open>
  What the clients of a table rely on when they fill it: a key that is absent can be put while
  there is room.
\<close>

locale map_store =
  fixes inv :: "'t \<Rightarrow> bool"
    and abs :: "'t \<Rightarrow> 'k \<Rightarrow> u64 option"
    and room :: "'t \<Rightarrow> nat"
    and valid :: "'k \<Rightarrow> bool"
    and put :: "'k \<Rightarrow> u64 \<Rightarrow> 't \<Rightarrow> tab_fail + 't"
  assumes put_ok: "inv t \<Longrightarrow> valid k \<Longrightarrow> abs t k = None \<Longrightarrow> 0 < room t \<Longrightarrow>
    \<exists>t'. put k v t = Inr t' \<and> inv t' \<and> abs t' = (abs t)(k \<mapsto> v) \<and> room t' = room t - 1"
begin

lemma put_all:
  "inv t \<Longrightarrow> distinct (map fst kvs) \<Longrightarrow> \<forall>(k, v) \<in> set kvs. valid k \<and> abs t k = None \<Longrightarrow>
   length kvs \<le> room t \<Longrightarrow>
   \<exists>t'. fold_res (\<lambda>(k, v). put k v) kvs t = Inr t' \<and> inv t' \<and> abs t' = abs t ++ map_of kvs \<and>
     room t' = room t - length kvs"
proof (induction kvs arbitrary: t)
  case (Cons kv kvs)
  obtain k v where kv: "kv = (k, v)"
    by force
  obtain u where u: "put k v t = Inr u" "inv u" "abs u = (abs t)(k \<mapsto> v)" "room u = room t - 1"
    using put_ok [of t k v] Cons.prems kv by auto
  have k: "k \<notin> fst ` set kvs"
    using Cons.prems(2) kv by simp
  have absent: "\<forall>(k', v') \<in> set kvs. valid k' \<and> abs u k' = None"
    using Cons.prems(3) u(3) k by (force simp: kv)
  have "distinct (map fst kvs)" "length kvs \<le> room u"
    using Cons.prems(2,4) u(4) by simp_all
  then obtain t' where t': "fold_res (\<lambda>(k, v). put k v) kvs u = Inr t'" "inv t'"
    "abs t' = abs u ++ map_of kvs" "room t' = room u - length kvs"
    using Cons.IH [OF u(2) _ absent] by blast
  have "map_of kvs k = None"
    using k by (simp add: map_of_eq_None_iff)
  then have "abs u ++ map_of kvs = abs t ++ map_of (kv # kvs)"
    by (auto simp: map_add_def fun_eq_iff u(3) kv split: option.splits)
  then show ?case
    using t' u(1,4) by (simp add: kv del: map_of.simps)
qed simp

end

interpretation tab: map_store "tab_inv hash" tab_map "\<lambda>t. hpb_table_size t - tab_count t" "\<lambda>_. True"
  "\<lambda>k v t. tab_insert hash t (Some k) (Some k) v (hash k)" for hash
proof
  fix t :: "'a hpb_table" and k v
  assume "tab_inv hash t" "tab_map t k = None" "0 < hpb_table_size t - tab_count t"
  then show "\<exists>t'. tab_insert hash t (Some k) (Some k) v (hash k) = Inr t' \<and> tab_inv hash t' \<and>
      tab_map t' = (tab_map t)(k \<mapsto> v) \<and> hpb_table_size t' - tab_count t' = hpb_table_size t - tab_count t - 1"
    using tab_insert_correct [of hash t k v] by (auto simp: hpb_table_size_def)
qed

text \<open>A fresh table is the empty map, with room for its load.\<close>

lemma init_table_inv:
  fixes hash :: "'k \<Rightarrow> u32"
  assumes "lg2 \<le> 30"
  shows "tab_inv hash (init_table lg2)" "tab_map (init_table lg2 :: 'k hpb_table) = (\<lambda>_. None)"
    "hpb_table_size (init_table lg2 :: 'k hpb_table) = table_size_of lg2"
    "tab_count (init_table lg2 :: 'k hpb_table) = 0" "tab_size_lg2 (init_table lg2 :: 'k hpb_table) = lg2"
proof -
  let ?es = "replicate (table_size_of lg2) empty_ent :: 'k hpb_tabent list"
  have key: "e_key (?es ! i) = None" if "i < length ?es" for i
    using that by (simp add: empty_ent_def)
  have "chained m ?es (\<lambda>_. [])" for m
    by (simp add: chained_def chain_ok_def unique_keys_def empty_ent_def)
  then have "\<exists>C. chained (main_pos hash (init_table lg2)) ?es C"
    by blast
  moreover have "used ?es = {}"
    using key by (auto simp: used_def)
  moreover have "tab_entries (init_table lg2) = ?es"
    by (simp add: init_table_def Let_def)
  ultimately show "tab_inv hash (init_table lg2)"
    using assms by (auto simp: tab_inv_def tab_shape_def init_table_def Let_def hpb_table_size_def)
  have "tab_index ?es k = None" for k
    unfolding tab_index_None by (simp add: fresh_def empty_ent_def)
  then show "tab_map (init_table lg2 :: 'k hpb_table) = (\<lambda>_. None)"
    by (simp add: fun_eq_iff tab_map_def init_table_def Let_def)
  show "hpb_table_size (init_table lg2 :: 'k hpb_table) = table_size_of lg2"
    "tab_count (init_table lg2 :: 'k hpb_table) = 0" "tab_size_lg2 (init_table lg2 :: 'k hpb_table) = lg2"
    by (simp_all add: init_table_def Let_def hpb_table_size_def)
qed

text \<open>Doubling the table makes room for one more entry than the load limit before.\<close>

lemma max_load_double:
  assumes "lg2 < 30"
  shows "max_load (table_size_of lg2) < max_load (table_size_of (lg2 + 1))"
proof -
  have n: "unat lg2 < 30"
    using assms by (simp add: word_less_nat_alt)
  then have 1: "unat (lg2 + 1) = Suc (unat lg2)"
    by (simp add: unat_word_ariths)
  then have "lg2 + 1 \<noteq> 0" "lg2 + 1 \<le> 30"
    using n by (auto simp: word_le_nat_alt simp flip: unat_eq_0)
  then have 2: "table_size_of (lg2 + 1) = 2 * 2 ^ unat lg2"
    using table_size_exp 1 by simp
  show ?thesis
  proof (cases "lg2 = 0")
    case True
    then show ?thesis
      using 2 by (simp add: table_size_of_def max_load_def)
  next
    case False
    then have "1 \<le> unat lg2"
      by (simp add: Suc_leI unat_gt_0)
    then have "(2 :: nat) \<le> 2 ^ unat lg2"
      using power_increasing [of 1 "unat lg2" "2 :: nat"] by simp
    then have "max_load (2 ^ unat lg2) + 1 \<le> max_load (2 * 2 ^ unat lg2)"
      by (simp add: max_load_def)
    moreover have "table_size_of lg2 = 2 ^ unat lg2"
      using False assms table_size_exp by simp
    ultimately show ?thesis
      using 2 by simp
  qed
qed

lemma tab_lookup_correct:
  assumes "tab_inv hash t"
  shows "tab_lookup t (Some k) (hash k) = Inr (tab_map t k)"
proof (cases "tab_index (tab_entries t) k")
  case None
  then show ?thesis
    using findentry_correct [OF assms, of k] by (simp add: tab_lookup_def tab_map_def)
next
  case (Some i)
  then have "i < length (tab_entries t)"
    using tab_index_Some [OF tab_inv_facts(2) [OF assms]] by simp
  then show ?thesis
    using Some findentry_correct [OF assms, of k] by (simp add: tab_lookup_def tab_map_def)
qed

end
