(* ===== verification/IntTable.thy ===== *)
theory IntTable
  imports HashRemove
begin

text \<open>
  Integer tables (\<open>hash/int_table.h\<close> and the integer part of \<open>hash/common.c\<close>): small keys are kept
  in an array, in which an absent key has the value with all bits set, and the others in the
  hash table. The array has at least one element, so the key 0 is never in the hash table,
  where it would mark an empty entry.
\<close>

section \<open>Operations\<close>

record hpb_inttable =
  it_t :: "u64 hpb_table"
  it_array :: "u64 list"
  it_array_size :: nat
  it_array_count :: nat

definition hpb_inthash :: "u64 \<Rightarrow> u32" where
  "hpb_inthash key = ucast key"

definition int_tabkey :: "u64 \<Rightarrow> u64 option" where
  "int_tabkey key = (if key = 0 then None else Some key)"

definition hpb_arrhas :: "u64 \<Rightarrow> bool" where
  "hpb_arrhas val \<longleftrightarrow> val \<noteq> - 1"

definition array_at :: "hpb_inttable \<Rightarrow> nat \<Rightarrow> tab_fail + u64" where
  "array_at t i = (if i < length (it_array t) then Inr (it_array t ! i) else Inl BadAccess)"

definition hpb_inttable_count :: "hpb_inttable \<Rightarrow> nat" where
  "hpb_inttable_count t = tab_count (it_t t) + it_array_count t"

definition hpb_inttable_sizedinit ::
  "(nat \<Rightarrow> bool) \<Rightarrow> nat \<Rightarrow> nat \<Rightarrow> byte \<Rightarrow> hpb_inttable option \<times> nat" where
  "hpb_inttable_sizedinit ok n asize hsize_lg2 =
     (case tab_init ok n hsize_lg2 of
        (None, n) \<Rightarrow> (None, n)
      | (Some h, n) \<Rightarrow>
          let array_size = max 1 asize in
          (if ok n
           then Some \<lparr>it_t = h, it_array = replicate array_size (- 1), it_array_size = array_size,
                  it_array_count = 0\<rparr>
           else None, Suc n))"

definition hpb_inttable_init :: "(nat \<Rightarrow> bool) \<Rightarrow> nat \<Rightarrow> hpb_inttable option \<times> nat" where
  "hpb_inttable_init ok n = hpb_inttable_sizedinit ok n 0 4"

text \<open>The pointer \<open>inttable_val\<close> returns, as the place it points to.\<close>

datatype int_place = InArray nat | InEntry nat

definition inttable_val :: "hpb_inttable \<Rightarrow> u64 \<Rightarrow> tab_fail + int_place option" where
  "inttable_val t key =
     (if unat key < it_array_size t
      then res_bind (array_at t (unat key)) (\<lambda>v. Inr (if hpb_arrhas v then Some (InArray (unat key)) else None))
      else res_bind (findentry (it_t t) (int_tabkey key) (hpb_inthash key)) (\<lambda>r. Inr (map_option InEntry r)))"

fun place_val :: "hpb_inttable \<Rightarrow> int_place \<Rightarrow> tab_fail + u64" where
  "place_val t (InArray i) = array_at t i"
| "place_val t (InEntry i) = res_bind (ent_at (it_t t) i) (\<lambda>e. Inr (e_val e))"

fun set_place :: "u64 \<Rightarrow> int_place \<Rightarrow> hpb_inttable \<Rightarrow> hpb_inttable" where
  "set_place v (InArray i) t = t\<lparr>it_array := (it_array t)[i := v]\<rparr>"
| "set_place v (InEntry i) t = t\<lparr>it_t := set_ent i ((tab_entries (it_t t) ! i)\<lparr>e_val := v\<rparr>) (it_t t)\<rparr>"

definition hpb_inttable_lookup :: "hpb_inttable \<Rightarrow> u64 \<Rightarrow> tab_fail + u64 option" where
  "hpb_inttable_lookup t key =
     res_bind (inttable_val t key) (\<lambda>r.
       case r of None \<Rightarrow> Inr None | Some p \<Rightarrow> res_bind (place_val t p) (\<lambda>v. Inr (Some v)))"

definition hpb_inttable_replace :: "hpb_inttable \<Rightarrow> u64 \<Rightarrow> u64 \<Rightarrow> tab_fail + (hpb_inttable \<times> bool)" where
  "hpb_inttable_replace t key val =
     res_bind (inttable_val t key) (\<lambda>r.
       case r of None \<Rightarrow> Inr (t, False) | Some p \<Rightarrow> Inr (set_place val p t, True))"

lemma next_ent_progress:
  assumes "unat i < hpb_table_size t" "unat (next_ent t i) < hpb_table_size t"
  shows "hpb_table_size t - unat (next_ent t i) < hpb_table_size t - unat i"
proof (cases rule: next_ent_cases [of t i])
  case no_more
  then show ?thesis
    using assms(2) by simp
next
  case (found j js)
  have "i \<noteq> - 1"
    using assms(1) table_size_less64 [of t] by (auto simp: unat_minus_1)
  then have "unat (i + 1) = Suc (unat i)"
    by (metis add_eq_0_iff minus_unique unatSuc add.commute)
  then show ?thesis
    using found used_from_Cons(2) [OF found(1)] assms by simp
qed

text \<open>The loop that inserts the entries of a full table into a new one.\<close>

function rehash_loop :: "u64 hpb_table \<Rightarrow> u64 \<Rightarrow> u64 hpb_table \<Rightarrow> tab_fail + u64 hpb_table" where
  "rehash_loop t i new_table =
     (if unat i < hpb_table_size t
      then let e = tab_entries t ! unat i;
               hash = (case e_key e of None \<Rightarrow> hpb_inthash 0 | Some k \<Rightarrow> hpb_inthash k)
           in res_bind (tab_insert hpb_inthash new_table (e_key e) (e_key e) (e_val e) hash)
                (\<lambda>new_table. if unat (next_ent t i) < hpb_table_size t
                  then rehash_loop t (next_ent t i) new_table else Inr new_table)
      else Inr new_table)"
  by pat_completeness auto
termination
  by (relation "measure (\<lambda>(t, i, new_table). hpb_table_size t - unat i)")
    (auto intro: next_ent_progress)

declare rehash_loop.simps [simp del]

definition grow :: "(nat \<Rightarrow> bool) \<Rightarrow> nat \<Rightarrow> u64 hpb_table \<Rightarrow> tab_fail + (u64 hpb_table option \<times> nat)" where
  "grow ok n t =
     (case tab_init ok n (tab_size_lg2 t + 1) of
        (None, n) \<Rightarrow> Inr (None, n)
      | (Some new_table, n) \<Rightarrow>
          res_bind (rehash_loop t (next_ent t (- 1)) new_table) (\<lambda>new_table.
            if tab_count t \<noteq> tab_count new_table then Inl AssertionFailed else Inr (Some new_table, n)))"

definition hpb_inttable_insert ::
  "(nat \<Rightarrow> bool) \<Rightarrow> nat \<Rightarrow> hpb_inttable \<Rightarrow> u64 \<Rightarrow> u64 \<Rightarrow> tab_fail + (hpb_inttable \<times> bool \<times> nat)" where
  "hpb_inttable_insert ok n t key val =
     (if \<not> hpb_arrhas val then Inl AssertionFailed
      else if unat key < it_array_size t
      then res_bind (array_at t (unat key)) (\<lambda>old.
             if hpb_arrhas old then Inl AssertionFailed
             else Inr (t\<lparr>it_array_count := it_array_count t + 1, it_array := (it_array t)[unat key := val]\<rparr>, True, n))
      else res_bind (if isfull (it_t t) then grow ok n (it_t t) else Inr (Some (it_t t), n)) (\<lambda>(h, n).
             case h of None \<Rightarrow> Inr (t, False, n)
             | Some h \<Rightarrow>
                 res_bind (tab_insert hpb_inthash h (int_tabkey key) (int_tabkey key) val (hpb_inthash key)) (\<lambda>h.
                   Inr (t\<lparr>it_t := h\<rparr>, True, n))))"

definition hpb_inttable_remove :: "hpb_inttable \<Rightarrow> u64 \<Rightarrow> tab_fail + (hpb_inttable \<times> u64 option)" where
  "hpb_inttable_remove t key =
     (if unat key < it_array_size t
      then res_bind (array_at t (unat key)) (\<lambda>v.
             if hpb_arrhas v
             then Inr (t\<lparr>it_array_count := it_array_count t - 1, it_array := (it_array t)[unat key := - 1]\<rparr>, Some v)
             else Inr (t, None))
      else res_bind (tab_rm (it_t t) (int_tabkey key) (hpb_inthash key)) (\<lambda>(h, r).
             Inr (t\<lparr>it_t := h\<rparr>, map_option snd r)))"

text \<open>
  One step of the iteration: the rest of the array is searched first, then the hash table from
  the entry at the distance of the iterator from the array.
\<close>

definition next_in_array :: "hpb_inttable \<Rightarrow> u64 \<Rightarrow> nat option" where
  "next_in_array t iter =
     (if unat (iter + 1) \<le> it_array_size t
      then find (\<lambda>i. hpb_arrhas (it_array t ! i)) [unat (iter + 1)..<it_array_size t] else None)"

definition hpb_inttable_next :: "hpb_inttable \<Rightarrow> u64 \<Rightarrow> (u64 \<times> u64 \<times> u64) option" where
  "hpb_inttable_next t iter =
     (case next_in_array t iter of
        Some i \<Rightarrow> Some (of_nat i, it_array t ! i, of_nat i)
      | None \<Rightarrow>
          let i = (if unat (iter + 1) \<le> it_array_size t then of_nat (it_array_size t) - 1 else iter);
              tab_idx = next_ent (it_t t) (i - of_nat (it_array_size t))
          in if unat tab_idx < hpb_table_size (it_t t)
             then let ent = tab_entries (it_t t) ! unat tab_idx in
               Some (case e_key ent of None \<Rightarrow> 0 | Some k \<Rightarrow> k, e_val ent, tab_idx + of_nat (it_array_size t))
             else None)"

definition hpb_inttable_removeiter :: "hpb_inttable \<Rightarrow> u64 \<Rightarrow> tab_fail + hpb_inttable" where
  "hpb_inttable_removeiter t iter =
     (if unat iter < it_array_size t
      then Inr (t\<lparr>it_array_count := it_array_count t - 1, it_array := (it_array t)[unat iter := - 1]\<rparr>)
      else res_bind (remove_at (unat (iter - of_nat (it_array_size t))) (it_t t)) (\<lambda>h. Inr (t\<lparr>it_t := h\<rparr>)))"

section \<open>The map that an integer table implements\<close>

definition int_inv :: "hpb_inttable \<Rightarrow> bool" where
  "int_inv t \<longleftrightarrow> tab_inv hpb_inthash (it_t t) \<and> tab_count (it_t t) \<le> unat (tab_max_count (it_t t)) \<and>
     length (it_array t) = it_array_size t \<and> 1 \<le> it_array_size t \<and> it_array_size t < 2 ^ 62 \<and>
     it_array_count t = card {i. i < it_array_size t \<and> hpb_arrhas (it_array t ! i)} \<and>
     (\<forall>k \<in> dom (tab_map (it_t t)). it_array_size t \<le> unat k)"

definition int_map :: "hpb_inttable \<Rightarrow> u64 \<Rightarrow> u64 option" where
  "int_map t k =
     (if unat k < it_array_size t
      then if hpb_arrhas (it_array t ! unat k) then Some (it_array t ! unat k) else None
      else tab_map (it_t t) k)"

lemma int_tabkey_Some: "k \<noteq> 0 \<Longrightarrow> int_tabkey k = Some k"
  by (simp add: int_tabkey_def)

lemma int_hash_key: "int_inv t \<Longrightarrow> \<not> unat k < it_array_size t \<Longrightarrow> int_tabkey k = Some k"
  by (auto simp: int_inv_def int_tabkey_def)

lemma findentry_entry:
  assumes "tab_inv hash t"
  shows "findentry t (Some k) (hash k) = Inr None \<and> tab_map t k = None \<or>
    (\<exists>i < length (tab_entries t). findentry t (Some k) (hash k) = Inr (Some i) \<and>
      e_key (tab_entries t ! i) = Some k \<and> tab_map t k = Some (e_val (tab_entries t ! i)))"
  using findentry_correct [OF assms, of k] tab_index_Some [OF tab_inv_facts(2) [OF assms], of k]
  by (cases "tab_index (tab_entries t) k") (auto simp: tab_map_def)

lemma inttable_lookup_map:
  assumes inv: "int_inv t"
  shows "hpb_inttable_lookup t k = Inr (int_map t k)"
proof (cases "unat k < it_array_size t")
  case True
  then show ?thesis
    using inv by (simp add: hpb_inttable_lookup_def inttable_val_def array_at_def int_map_def int_inv_def)
next
  case False
  have "tab_inv hpb_inthash (it_t t)"
    using inv by (simp add: int_inv_def)
  from findentry_entry [OF this, of k] show ?thesis
    using False int_hash_key [OF inv False]
    by (auto simp: hpb_inttable_lookup_def inttable_val_def int_map_def)
qed

section \<open>Growing the hash part\<close>

lemma tab_count_le_size:
  assumes "tab_inv hash t"
  shows "tab_count t \<le> hpb_table_size t"
proof -
  have "used (tab_entries t) \<subseteq> {..<length (tab_entries t)}"
    by (auto simp: used_def)
  then show ?thesis
    using card_mono [of "{..<length (tab_entries t)}"] tab_inv_facts [OF assms] by fastforce
qed

definition int_put :: "u64 \<Rightarrow> u64 \<Rightarrow> u64 hpb_table \<Rightarrow> tab_fail + u64 hpb_table" where
  "int_put k v t = tab_insert hpb_inthash t (Some k) (Some k) v (hpb_inthash k)"

lemma rehash_loop_fold:
  "used_from t n = js \<Longrightarrow> js \<noteq> [] \<Longrightarrow>
   rehash_loop t (of_nat (hd js)) new = fold_res (\<lambda>(k, v). int_put k v) (map (assoc_at t) js) new"
proof (induction js arbitrary: n new)
  case (Cons j js)
  note c = used_from_Cons [OF Cons.prems(1)]
  have "j < 2 ^ 32"
    using c(1) table_size_less64 [of t] by simp
  then have u: "unat (of_nat m :: u64) = m" if "m \<le> Suc j" for m
    using that by (simp add: unat_of_nat)
  have nx: "unat (of_nat j + 1 :: u64) = Suc j"
    using u [of "Suc j"] by (simp add: add.commute)
  obtain k where k: "e_key (tab_entries t ! j) = Some k"
    using c(3) by blast
  have a: "assoc_at t j = (k, e_val (tab_entries t ! j))"
    using k by (simp add: assoc_at_def)
  have step: "rehash_loop t (of_nat j) new =
      res_bind (int_put k (e_val (tab_entries t ! j)) new) (\<lambda>new.
        if unat (next_ent t (of_nat j)) < hpb_table_size t then rehash_loop t (next_ent t (of_nat j)) new else Inr new)"
    using c(1) u [of j] k by (subst rehash_loop.simps) (simp add: Let_def int_put_def)
  show ?case
  proof (cases rule: next_ent_cases [of t "of_nat j"])
    case no_more
    then have "js = []"
      using c(4) nx by simp
    then show ?thesis
      using step no_more k by (cases "int_put k (e_val (tab_entries t ! j)) new") (simp_all add: a)
  next
    case (found j' js')
    then have js: "js = j' # js'"
      using c(4) nx by simp
    have "rehash_loop t (of_nat j') new' = fold_res (\<lambda>(k, v). int_put k v) (map (assoc_at t) js) new'" for new'
      using Cons.IH [of "Suc j" new'] c(4) js by simp
    then show ?thesis
      using step found k by (cases "int_put k (e_val (tab_entries t ! j)) new") (simp_all add: a)
  qed
qed simp

lemma rehash_correct:
  "rehash_loop t (next_ent t (- 1)) new = fold_res (\<lambda>(k, v). int_put k v) (assocs_from t 0) new"
proof (cases rule: next_ent_cases [of t "- 1"])
  case no_more
  then show ?thesis
    by (simp add: rehash_loop.simps assocs_from_def)
next
  case (found j js)
  then show ?thesis
    using rehash_loop_fold [of t 0 "j # js" new] by (simp add: assocs_from_def)
qed

lemma grow_correct:
  assumes inv: "tab_inv hpb_inthash t" and lg: "tab_size_lg2 t < 30" and cnt: "tab_count t \<le> unat (tab_max_count t)"
  shows "\<exists>t'. grow (\<lambda>_. True) n t = Inr (Some t', Suc n) \<and> tab_inv hpb_inthash t' \<and> tab_map t' = tab_map t \<and>
    tab_count t' = tab_count t \<and> tab_count t' < unat (tab_max_count t')"
proof -
  let ?lg = "tab_size_lg2 t + 1" and ?new = "init_table (tab_size_lg2 t + 1) :: u64 hpb_table"
  have "unat (tab_size_lg2 t) < 30"
    using lg by (simp add: word_less_nat_alt)
  moreover from this have "unat ?lg = Suc (unat (tab_size_lg2 t))"
    by (simp add: unat_word_ariths)
  ultimately have lg1: "?lg \<le> 30"
    by (simp add: word_le_nat_alt)
  note f = tab_inv_facts [OF inv] and i = init_table_inv [where 'k = u64, OF lg1]
  have less: "tab_count t < max_load (table_size_of ?lg)"
    using cnt f(5) max_load_double [OF lg] by (simp add: hpb_table_size_def)
  then have sz: "0 < table_size_of ?lg"
    by (cases "table_size_of ?lg = 0") (auto simp: max_load_def)
  then have room: "length (assocs_from t 0) \<le> hpb_table_size ?new - tab_count ?new"
    using less max_load_less [OF sz] i(3,4) assocs_length [OF f(1)] f(3) by simp
  obtain t' where t': "fold_res (\<lambda>(k, v). int_put k v) (assocs_from t 0) ?new = Inr t'" "tab_inv hpb_inthash t'"
    "tab_map t' = tab_map ?new ++ map_of (assocs_from t 0)"
    "hpb_table_size t' - tab_count t' = hpb_table_size ?new - tab_count ?new - length (assocs_from t 0)"
    using tab.put_all [of hpb_inthash ?new "assocs_from t 0"] i(1) [of hpb_inthash] i(2) room
      assocs_keys [OF f(1,2), of 0] unfolding int_put_def by auto
  have map: "tab_map t' = tab_map t"
    using t'(3) i(2) map_of_assocs [OF f(1,2)] by (simp add: map_add_def)
  then have c: "tab_count t' = tab_count t"
    using tab_count_dom(1) [OF t'(2)] tab_count_dom(1) [OF inv] by simp
  have "hpb_table_size t' = table_size_of ?lg"
    using t'(4) c room i(3,4) assocs_length [OF f(1)] f(3) tab_count_le_size [OF t'(2)] by simp
  then have "tab_count t' < unat (tab_max_count t')"
    using c less tab_inv_facts(5) [OF t'(2)] by simp
  then show ?thesis
    using t' map c sz by (simp add: grow_def tab_init_def rehash_correct)
qed

section \<open>Operations on the map\<close>

lemma full_hash_bound:
  assumes inv: "tab_inv hash t" and full: "isfull t" and cnt: "tab_count t < 2 ^ 28"
  shows "tab_size_lg2 t < 30"
proof (rule ccontr)
  assume "\<not> ?thesis"
  then have "tab_size_lg2 t = 30"
    using tab_inv_facts(4) [OF inv] by simp
  then have "hpb_table_size t = 2 ^ 30"
    using table_size_exp [of 30] by (simp add: hpb_table_size_def)
  then have "tab_count t = max_load (2 ^ 30)"
    using full tab_inv_facts(5) [OF inv] by (simp add: isfull_def)
  then show False
    using cnt by (simp add: max_load_def)
qed

lemma array_update_card:
  assumes "i < length xs" "hpb_arrhas v \<noteq> hpb_arrhas (xs ! i)"
  shows "card {j. j < length xs \<and> hpb_arrhas (xs[i := v] ! j)} =
    (if hpb_arrhas v then Suc (card {j. j < length xs \<and> hpb_arrhas (xs ! j)})
     else card {j. j < length xs \<and> hpb_arrhas (xs ! j)} - 1)"
proof -
  let ?A = "{j. j < length xs \<and> hpb_arrhas (xs ! j)}"
  have "{j. j < length xs \<and> hpb_arrhas (xs[i := v] ! j)} = (if hpb_arrhas v then insert i ?A else ?A - {i})"
    using assms by (auto simp: nth_list_update)
  moreover have "hpb_arrhas v \<Longrightarrow> i \<notin> ?A" "\<not> hpb_arrhas v \<Longrightarrow> i \<in> ?A"
    using assms by auto
  ultimately show ?thesis
    by (simp add: card_Diff_singleton)
qed

lemma int_map_array:
  assumes "unat k < it_array_size t" "length (it_array t) = it_array_size t"
  shows "int_map (t\<lparr>it_array_count := c, it_array := (it_array t)[unat k := v]\<rparr>) =
    (int_map t)(k := if hpb_arrhas v then Some v else None)"
  using assms by (auto simp: fun_eq_iff int_map_def nth_list_update word_unat_eq_iff)

lemma inttable_insert_array:
  assumes inv: "int_inv t" and v: "hpb_arrhas v" and k: "unat k < it_array_size t" "int_map t k = None"
  shows "\<exists>t'. hpb_inttable_insert ok n t k v = Inr (t', True, n) \<and> int_inv t' \<and>
    int_map t' = (int_map t)(k \<mapsto> v) \<and> it_t t' = it_t t \<and> it_array_size t' = it_array_size t"
proof -
  have len: "length (it_array t) = it_array_size t"
    using inv by (simp add: int_inv_def)
  have old: "\<not> hpb_arrhas (it_array t ! unat k)"
    using k by (auto simp: int_map_def split: if_splits)
  have "int_inv (t\<lparr>it_array_count := it_array_count t + 1, it_array := (it_array t)[unat k := v]\<rparr>)"
    using inv array_update_card [of "unat k" "it_array t" v] v old k(1) by (simp add: int_inv_def)
  then show ?thesis
    using int_map_array [OF k(1) len, where c = "it_array_count t + 1" and v = v] v old k(1) len
    by (simp add: hpb_inttable_insert_def array_at_def)
qed

lemma inttable_insert_hash:
  assumes inv: "int_inv t" and v: "hpb_arrhas v" and k: "\<not> unat k < it_array_size t" "int_map t k = None"
    and cnt: "tab_count (it_t t) < 2 ^ 28"
  shows "\<exists>t' n'. hpb_inttable_insert (\<lambda>_. True) n t k v = Inr (t', True, n') \<and> int_inv t' \<and>
    int_map t' = (int_map t)(k \<mapsto> v) \<and> tab_count (it_t t') = Suc (tab_count (it_t t)) \<and>
    it_array_size t' = it_array_size t \<and> (\<not> isfull (it_t t) \<longrightarrow> tab_size_lg2 (it_t t') = tab_size_lg2 (it_t t) \<and> n' = n)"
proof -
  have ti: "tab_inv hpb_inthash (it_t t)" and le: "tab_count (it_t t) \<le> unat (tab_max_count (it_t t))"
    using inv by (simp_all add: int_inv_def)
  obtain h m where h: "(if isfull (it_t t) then grow (\<lambda>_. True) n (it_t t) else Inr (Some (it_t t), n)) = Inr (Some h, m)"
    and h_inv: "tab_inv hpb_inthash h" and h_map: "tab_map h = tab_map (it_t t)"
    and h_cnt: "tab_count h = tab_count (it_t t)" "tab_count h < unat (tab_max_count h)"
    and h_same: "\<not> isfull (it_t t) \<Longrightarrow> h = it_t t \<and> m = n"
  proof (cases "isfull (it_t t)")
    case True
    then show thesis
      using grow_correct [OF ti full_hash_bound [OF ti True cnt] le, of n] that by auto
  next
    case False
    then show thesis
      using that [of "it_t t" n] ti le by (auto simp: isfull_def)
  qed
  have "tab_count h < hpb_table_size h"
    using h_cnt(2) tab_inv_facts(5) [OF h_inv] max_load_less [of "hpb_table_size h"]
    by (cases "hpb_table_size h = 0") (auto simp: max_load_def)
  moreover have "tab_map h k = None"
    using k h_map by (simp add: int_map_def)
  ultimately obtain h' where h': "tab_insert hpb_inthash h (Some k) (Some k) v (hpb_inthash k) = Inr h'"
    "tab_inv hpb_inthash h'" "tab_map h' = (tab_map h)(k \<mapsto> v)" "tab_size_lg2 h' = tab_size_lg2 h"
    "tab_max_count h' = tab_max_count h" "tab_count h' = Suc (tab_count h)"
    using tab_insert_correct [OF h_inv, of k v] by blast
  have "hpb_inttable_insert (\<lambda>_. True) n t k v = Inr (t\<lparr>it_t := h'\<rparr>, True, m)"
    using v k(1) h h'(1) int_hash_key [OF inv k(1)] by (simp add: hpb_inttable_insert_def)
  moreover have "int_inv (t\<lparr>it_t := h'\<rparr>)"
    using inv h' h_cnt h_map k(1) by (auto simp: int_inv_def split: if_splits)
  moreover have "int_map (t\<lparr>it_t := h'\<rparr>) = (int_map t)(k \<mapsto> v)"
    using k(1) h'(3) h_map by (auto simp: fun_eq_iff int_map_def)
  ultimately show ?thesis
    using h'(4,6) h_cnt(1) h_same by auto
qed

lemma inttable_insert_map:
  assumes "int_inv t" "hpb_arrhas v" "int_map t k = None" "tab_count (it_t t) < 2 ^ 28"
  shows "\<exists>t' n'. hpb_inttable_insert (\<lambda>_. True) n t k v = Inr (t', True, n') \<and> int_inv t' \<and>
    int_map t' = (int_map t)(k \<mapsto> v) \<and> it_array_size t' = it_array_size t \<and>
    tab_count (it_t t') \<le> Suc (tab_count (it_t t))"
proof (cases "unat k < it_array_size t")
  case True
  then show ?thesis
    using inttable_insert_array [OF assms(1,2) True assms(3), of "\<lambda>_. True" n] by auto
next
  case False
  then show ?thesis
    using inttable_insert_hash [OF assms(1,2) False assms(3,4), of n] by fastforce
qed

lemma inttable_remove_map:
  assumes inv: "int_inv t" and lg: "tab_size_lg2 (it_t t) \<noteq> 0 \<or> unat k < it_array_size t"
  shows "\<exists>t'. hpb_inttable_remove t k = Inr (t', int_map t k) \<and> int_inv t' \<and>
    int_map t' = (int_map t)(k := None) \<and> it_array_size t' = it_array_size t \<and>
    tab_size_lg2 (it_t t') = tab_size_lg2 (it_t t) \<and> tab_count (it_t t') \<le> tab_count (it_t t)"
proof (cases "unat k < it_array_size t")
  case True
  have len: "length (it_array t) = it_array_size t"
    using inv by (simp add: int_inv_def)
  have none: "\<not> hpb_arrhas (- 1)"
    by (simp add: hpb_arrhas_def)
  show ?thesis
  proof (cases "hpb_arrhas (it_array t ! unat k)")
    case has: True
    then have "int_inv (t\<lparr>it_array_count := it_array_count t - 1, it_array := (it_array t)[unat k := - 1]\<rparr>)"
      using inv array_update_card [of "unat k" "it_array t" "- 1"] True none by (simp add: int_inv_def)
    then show ?thesis
      using int_map_array [OF True len, where c = "it_array_count t - 1" and v = "- 1"] none has True len
      by (simp add: hpb_inttable_remove_def array_at_def int_map_def)
  next
    case False
    then show ?thesis
      using True len inv by (auto simp: hpb_inttable_remove_def array_at_def int_map_def fun_eq_iff)
  qed
next
  case False
  have ti: "tab_inv hpb_inthash (it_t t)"
    using inv by (simp add: int_inv_def)
  obtain h where h: "tab_rm (it_t t) (Some k) (hpb_inthash k) = Inr (h, map_option (\<lambda>v. (Some k, v)) (tab_map (it_t t) k))"
    "tab_inv hpb_inthash h" "tab_map h = (tab_map (it_t t))(k := None)" "tab_size_lg2 h = tab_size_lg2 (it_t t)"
    using tab_rm_correct [OF ti] lg False by blast
  have "card (dom (tab_map h)) \<le> card (dom (tab_map (it_t t)))"
    using h(3) tab_count_dom(2) [OF ti] by (intro card_mono) auto
  then have "tab_count h \<le> tab_count (it_t t)"
    using tab_count_dom(1) [OF h(2)] tab_count_dom(1) [OF ti] by simp
  moreover from this have "int_inv (t\<lparr>it_t := h\<rparr>)"
    using inv h tab_inv_facts(5) [OF h(2)] tab_inv_facts(5) [OF ti]
    by (auto simp: int_inv_def hpb_table_size_def split: if_splits)
  moreover have "int_map (t\<lparr>it_t := h\<rparr>) = (int_map t)(k := None)"
    using False h(3) by (auto simp: fun_eq_iff int_map_def)
  ultimately show ?thesis
    using False h int_hash_key [OF inv False]
    by (auto simp: hpb_inttable_remove_def int_map_def option.map_comp comp_def option.map_ident)
qed

section \<open>Iteration\<close>

definition array_from :: "hpb_inttable \<Rightarrow> nat \<Rightarrow> nat list" where
  "array_from t n = filter (\<lambda>i. hpb_arrhas (it_array t ! i)) [n..<it_array_size t]"

text \<open>The pairs still to come when the iteration continues at position \<open>p\<close>.\<close>

definition remaining :: "hpb_inttable \<Rightarrow> nat \<Rightarrow> (u64 \<times> u64) list" where
  "remaining t p =
     (if p \<le> it_array_size t
      then map (\<lambda>i. (of_nat i, it_array t ! i)) (array_from t p) @ assocs_from (it_t t) 0
      else assocs_from (it_t t) (p - it_array_size t))"

lemma find_filter_upt:
  "find P [n..<m] = None \<longleftrightarrow> filter P [n..<m] = []"
  "find P [n..<m] = Some i \<Longrightarrow> filter P [n..<m] = i # filter P [Suc i..<m] \<and> n \<le> i \<and> i < m"
proof -
  show "find P [n..<m] = None \<longleftrightarrow> filter P [n..<m] = []"
    by (auto simp: find_None_iff filter_empty_conv)
  show "find P [n..<m] = Some i \<Longrightarrow> filter P [n..<m] = i # filter P [Suc i..<m] \<and> n \<le> i \<and> i < m"
  proof (induction "m - n" arbitrary: n)
    case (Suc x)
    then have "[n..<m] = n # [Suc n..<m]"
      by (simp add: upt_conv_Cons)
    moreover have "x = m - Suc n" "n < m"
      using Suc.hyps(2) by simp_all
    ultimately show ?case
      using Suc.hyps(1) [of "Suc n"] Suc.prems by (auto split: if_splits)
  qed simp
qed

lemma unat_of_nat_u64: "m < 2 ^ 64 \<Longrightarrow> unat (of_nat m :: u64) = m"
  by (simp add: unat_of_nat)

lemma inttable_next_hash:
  assumes inv: "int_inv t" and nx: "hpb_inttable_next t iter =
      (let tab_idx = next_ent (it_t t) i
       in if unat tab_idx < hpb_table_size (it_t t)
          then let ent = tab_entries (it_t t) ! unat tab_idx in
            Some (case e_key ent of None \<Rightarrow> 0 | Some k \<Rightarrow> k, e_val ent, tab_idx + of_nat (it_array_size t))
          else None)"
    and rem: "remaining t p = assocs_from (it_t t) (unat (i + 1))"
  shows "remaining t p = [] \<and> hpb_inttable_next t iter = None \<or>
    (\<exists>k v iter'. remaining t p = (k, v) # remaining t (unat (iter' + 1)) \<and>
      hpb_inttable_next t iter = Some (k, v, iter'))"
proof (cases rule: next_ent_cases [of "it_t t" i])
  case no_more
  then show ?thesis
    using nx rem by (simp add: Let_def assocs_from_def)
next
  case (found j js)
  obtain k where k: "e_key (tab_entries (it_t t) ! j) = Some k"
    using found(7) by blast
  have "j < 2 ^ 32" "it_array_size t < 2 ^ 62"
    using found(4) table_size_less64 [of "it_t t"] inv by (simp_all add: int_inv_def)
  then have "unat (of_nat (Suc (j + it_array_size t)) :: u64) = Suc (j + it_array_size t)"
    by (intro unat_of_nat_u64) simp
  moreover have "(of_nat (Suc (j + it_array_size t)) :: u64) = of_nat j + of_nat (it_array_size t) + 1"
    by simp
  ultimately have "unat (of_nat j + of_nat (it_array_size t) + 1 :: u64) = Suc (j + it_array_size t)"
    by metis
  then have "remaining t (unat (of_nat j + of_nat (it_array_size t) + 1 :: u64)) = map (assoc_at (it_t t)) js"
    using found(6) by (simp add: remaining_def assocs_from_def)
  then show ?thesis
    using nx rem found k by (simp add: Let_def assocs_from_def assoc_at_def)
qed

lemma inttable_next_cases:
  assumes inv: "int_inv t"
  shows "remaining t (unat (iter + 1)) = [] \<and> hpb_inttable_next t iter = None \<or>
    (\<exists>k v iter'. remaining t (unat (iter + 1)) = (k, v) # remaining t (unat (iter' + 1)) \<and>
      hpb_inttable_next t iter = Some (k, v, iter'))"
proof (cases "unat (iter + 1) \<le> it_array_size t")
  case True
  have size: "it_array_size t < 2 ^ 62"
    using inv by (simp add: int_inv_def)
  show ?thesis
  proof (cases "next_in_array t iter")
    case None
    then have "array_from t (unat (iter + 1)) = []"
      using True find_filter_upt(1) by (auto simp: next_in_array_def array_from_def)
    moreover have "of_nat (it_array_size t) - 1 - of_nat (it_array_size t) + 1 = (0 :: u64)"
      by simp
    ultimately show ?thesis
      using True None by (intro inttable_next_hash [OF inv, of _ "of_nat (it_array_size t) - 1 - of_nat (it_array_size t)"])
        (simp_all add: hpb_inttable_next_def Let_def remaining_def)
  next
    case (Some i)
    then have i: "array_from t (unat (iter + 1)) = i # array_from t (Suc i)" "i < it_array_size t"
      using True find_filter_upt(2) [of _ "unat (iter + 1)" "it_array_size t" i]
      by (auto simp: next_in_array_def array_from_def)
    have "unat (of_nat (Suc i) :: u64) = Suc i"
      using i(2) size by (intro unat_of_nat_u64) simp
    then have "unat (of_nat i + 1 :: u64) = Suc i"
      by (simp add: add.commute)
    then show ?thesis
      using True Some i by (simp add: hpb_inttable_next_def remaining_def)
  qed
next
  case False
  have size: "it_array_size t < 2 ^ 62"
    using inv by (simp add: int_inv_def)
  have "iter + 1 \<noteq> 0"
    using False by auto
  have "unat (iter - of_nat (it_array_size t) + 1) = unat (iter + 1) - it_array_size t"
  proof -
    have eq: "iter - of_nat (it_array_size t) + 1 = (iter + 1) - of_nat (it_array_size t)"
      by simp
    have "(of_nat (it_array_size t) :: u64) \<le> iter + 1"
      using False size unat_of_nat_u64 [of "it_array_size t"] by (simp add: word_le_nat_alt)
    then show ?thesis
      unfolding eq using unat_sub [of "of_nat (it_array_size t)" "iter + 1"] unat_of_nat_u64 [of "it_array_size t"] size
      by simp
  qed
  then show ?thesis
    using False by (intro inttable_next_hash [OF inv, of _ "iter - of_nat (it_array_size t)"])
      (simp_all add: hpb_inttable_next_def Let_def remaining_def next_in_array_def)
qed

text \<open>A client that visits the whole table, with a bound on the number of calls.\<close>

fun int_visit :: "nat \<Rightarrow> hpb_inttable \<Rightarrow> u64 \<Rightarrow> (u64 \<times> u64) list option" where
  "int_visit 0 t iter = None"
| "int_visit (Suc n) t iter =
     (case hpb_inttable_next t iter of
        None \<Rightarrow> Some []
      | Some (k, v, iter) \<Rightarrow> map_option (\<lambda>kvs. (k, v) # kvs) (int_visit n t iter))"

lemma int_visit_remaining:
  assumes "int_inv t"
  shows "length (remaining t (unat (iter + 1))) < n \<Longrightarrow> int_visit n t iter = Some (remaining t (unat (iter + 1)))"
proof (induction n arbitrary: iter)
  case (Suc n)
  show ?case
    using inttable_next_cases [OF assms, of iter] Suc by (auto split: option.splits)
qed simp

lemma remaining_map:
  assumes inv: "int_inv t"
  shows "distinct (map fst (remaining t 0))" "map_of (remaining t 0) = int_map t"
    "length (remaining t 0) = hpb_inttable_count t"
proof -
  have ti: "tab_inv hpb_inthash (it_t t)" and size: "it_array_size t < 2 ^ 62" "length (it_array t) = it_array_size t"
    and hash: "\<And>k. k \<in> dom (tab_map (it_t t)) \<Longrightarrow> it_array_size t \<le> unat k"
    and cnt: "it_array_count t = card {i. i < it_array_size t \<and> hpb_arrhas (it_array t ! i)}"
    using inv by (auto simp: int_inv_def)
  note f = tab_inv_facts [OF ti]
  let ?arr = "map (\<lambda>i. (of_nat i :: u64, it_array t ! i)) (array_from t 0)"
  have r: "remaining t 0 = ?arr @ assocs_from (it_t t) 0"
    by (simp add: remaining_def)
  have u: "unat (of_nat i :: u64) = i" if "i < it_array_size t" for i
    using that size by (intro unat_of_nat_u64) simp
  have inj: "inj_on (of_nat :: nat \<Rightarrow> u64) (set (array_from t 0))"
    using u by (intro inj_onI) (metis array_from_def atLeastLessThan_upt filter_is_subset subsetD atLeastLessThan_iff)
  have keys: "unat k < it_array_size t" if "k \<in> fst ` set ?arr" for k
    using that u by (auto simp: array_from_def)
  have keys': "it_array_size t \<le> unat k" if "k \<in> fst ` set (assocs_from (it_t t) 0)" for k
    using that hash assocs_mem [OF f(1,2)] by force
  have "distinct (array_from t 0)"
    by (simp add: array_from_def)
  then have d: "distinct (map fst ?arr)"
    using inj by (simp add: comp_def distinct_map)
  show dist: "distinct (map fst (remaining t 0))"
    using d assocs_keys [OF f(1,2), of 0] keys keys' by (fastforce simp: r)
  show "map_of (remaining t 0) = int_map t"
  proof
    fix k
    have "map_of (remaining t 0) k = Some v \<longleftrightarrow> int_map t k = Some v" for v
    proof -
      have "(k, v) \<in> set ?arr \<longleftrightarrow> unat k < it_array_size t \<and> hpb_arrhas (it_array t ! unat k) \<and> v = it_array t ! unat k"
        using u by (auto simp: array_from_def image_iff intro!: exI [of _ "unat k"])
      moreover have "(k, v) \<in> set (assocs_from (it_t t) 0) \<longleftrightarrow> tab_map (it_t t) k = Some v"
        using assocs_mem [OF f(1,2)] .
      moreover have "\<not> unat k < it_array_size t" if "tab_map (it_t t) k = Some v"
        using hash [of k] that by (simp add: domIff)
      ultimately show ?thesis
        using map_of_eq_Some_iff [OF dist] by (auto simp: r int_map_def)
    qed
    then show "map_of (remaining t 0) k = int_map t k"
      by (metis option.exhaust)
  qed
  have "length (array_from t 0) = it_array_count t"
  proof -
    have "set (array_from t 0) = {i. i < it_array_size t \<and> hpb_arrhas (it_array t ! i)}"
      by (auto simp: array_from_def)
    then show ?thesis
      using cnt distinct_card [of "array_from t 0"] by (simp add: array_from_def)
  qed
  then show "length (remaining t 0) = hpb_inttable_count t"
    using assocs_length [OF f(1)] f(3) by (simp add: r hpb_inttable_count_def)
qed

section \<open>Theorems\<close>

text \<open>
  C8: an integer table is a finite map, whether a key is in its array or in its hash part.
  Inserting an absent key with a value other than all ones, growing the hash part when it is
  full, adds exactly that pair; a lookup afterwards gives the value, and every other key keeps
  its own.
\<close>

theorem hpb_inttable_insert_lookup:
  assumes "int_inv t" "hpb_arrhas v" "hpb_inttable_lookup t k = Inr None" "tab_count (it_t t) < 2 ^ 28"
  shows "\<exists>t' n'. hpb_inttable_insert (\<lambda>_. True) n t k v = Inr (t', True, n') \<and> int_inv t' \<and>
    hpb_inttable_lookup t' k = Inr (Some v) \<and>
    (\<forall>k'. k' \<noteq> k \<longrightarrow> hpb_inttable_lookup t' k' = hpb_inttable_lookup t k')"
proof -
  have "int_map t k = None"
    using assms(3) inttable_lookup_map [OF assms(1)] by simp
  then obtain t' n' where t': "hpb_inttable_insert (\<lambda>_. True) n t k v = Inr (t', True, n')" "int_inv t'"
    "int_map t' = (int_map t)(k \<mapsto> v)"
    using inttable_insert_map [OF assms(1,2) _ assms(4), of k n] by blast
  then show ?thesis
    using inttable_lookup_map [OF assms(1)] inttable_lookup_map [OF t'(2)] by auto
qed

lemma inttable_init_inv:
  "\<exists>t. hpb_inttable_init (\<lambda>_. True) n = (Some t, n + 2) \<and> int_inv t \<and> int_map t = (\<lambda>_. None) \<and>
     tab_size_lg2 (it_t t) = 4 \<and> tab_count (it_t t) = 0"
proof -
  note i = init_table_inv [where 'k = u64, of 4]
  have "table_size_of 4 = 16"
    by (simp add: table_size_of_def)
  moreover have "{i. i < (1 :: nat) \<and> hpb_arrhas ([- 1] ! i)} = {}"
    by (auto simp: hpb_arrhas_def intro!: gr0I)
  ultimately show ?thesis
    using i(1) [of hpb_inthash] i(2-5)
    by (auto simp: hpb_inttable_init_def hpb_inttable_sizedinit_def tab_init_def int_inv_def int_map_def
        fun_eq_iff hpb_arrhas_def)
qed

theorem hpb_inttable_insert_lookup_witness:
  "\<exists>t t' n'. hpb_inttable_init (\<lambda>_. True) 0 = (Some t, 2) \<and>
     hpb_inttable_insert (\<lambda>_. True) 2 t 1000 5 = Inr (t', True, n') \<and>
     hpb_inttable_lookup t' 1000 = Inr (Some 5) \<and> hpb_inttable_lookup t' 7 = Inr None"
proof -
  obtain t where t: "hpb_inttable_init (\<lambda>_. True) 0 = (Some t, 2)" "int_inv t" "int_map t = (\<lambda>_. None)"
    "tab_count (it_t t) = 0"
    using inttable_init_inv [of 0] by (auto simp: numeral_2_eq_2)
  have none: "hpb_inttable_lookup t k = Inr None" for k
    using inttable_lookup_map [OF t(2)] t(3) by simp
  obtain t' n' where t': "hpb_inttable_insert (\<lambda>_. True) 2 t 1000 5 = Inr (t', True, n')"
    "hpb_inttable_lookup t' 1000 = Inr (Some 5)" "\<forall>k'. k' \<noteq> 1000 \<longrightarrow> hpb_inttable_lookup t' k' = hpb_inttable_lookup t k'"
    using hpb_inttable_insert_lookup [OF t(2) _ none, where v = 5 and k = 1000 and n = 2] t(4) by (auto simp: hpb_arrhas_def)
  moreover have "hpb_inttable_lookup t' 7 = Inr None"
    using t'(3) none by simp
  ultimately show ?thesis
    using t(1) by blast
qed

text \<open>
  C11: visiting an integer table from \<open>HPB_INTTABLE_BEGIN\<close> ends after as many steps as the table
  has entries, yields every key once, and yields exactly the pairs that lookups find.
\<close>

theorem hpb_inttable_iteration:
  assumes "int_inv t"
  shows "\<exists>kvs. int_visit (hpb_inttable_count t + 1) t (- 1) = Some kvs \<and> distinct (map fst kvs) \<and>
    (\<forall>k. hpb_inttable_lookup t k = Inr (map_of kvs k)) \<and> length kvs = hpb_inttable_count t"
  using int_visit_remaining [OF assms, of "- 1" "hpb_inttable_count t + 1"] remaining_map [OF assms]
    inttable_lookup_map [OF assms] by simp

theorem hpb_inttable_iteration_witness:
  "\<exists>t. hpb_inttable_init (\<lambda>_. True) 0 = (Some t, 2) \<and> int_visit 1 t (- 1) = Some []"
proof -
  obtain t where t: "hpb_inttable_init (\<lambda>_. True) 0 = (Some t, 2)" "int_inv t" "int_map t = (\<lambda>_. None)"
    using inttable_init_inv [of 0] by (auto simp: numeral_2_eq_2)
  have "hpb_inttable_count t = 0"
    using remaining_map(2,3) [OF t(2)] t(3) by (cases "remaining t 0") (auto simp: fun_eq_iff split: if_splits)
  then show ?thesis
    using hpb_inttable_iteration [OF t(2)] t(1) by simp
qed

text \<open>
  C10: removing a key returns its value, forgets the key and keeps every other; the table must
  have a hash part or the key be one of the array.
\<close>

theorem hpb_inttable_remove_lookup:
  assumes "int_inv t" "tab_size_lg2 (it_t t) \<noteq> 0 \<or> unat k < it_array_size t"
  shows "\<exists>t' r. hpb_inttable_remove t k = Inr (t', r) \<and> int_inv t' \<and> hpb_inttable_lookup t k = Inr r \<and>
    hpb_inttable_lookup t' k = Inr None \<and>
    (\<forall>k'. k' \<noteq> k \<longrightarrow> hpb_inttable_lookup t' k' = hpb_inttable_lookup t k')"
proof -
  obtain t' where t': "hpb_inttable_remove t k = Inr (t', int_map t k)" "int_inv t'"
    "int_map t' = (int_map t)(k := None)"
    using inttable_remove_map [OF assms] by blast
  then show ?thesis
    using inttable_lookup_map [OF assms(1)] inttable_lookup_map [OF t'(2)] by auto
qed

text \<open>The table with the keys 17 and 33, which share a bucket of a table of four.\<close>

definition chain_table :: hpb_inttable where
  "chain_table = \<lparr>it_t = \<lparr>tab_count = 2, tab_mask = 3, tab_max_count = 3, tab_size_lg2 = 2,
       tab_entries = [empty_ent, \<lparr>e_key = Some 17, e_val = 7, e_next = Some 2\<rparr>,
         \<lparr>e_key = Some 33, e_val = 8, e_next = None\<rparr>, empty_ent]\<rparr>,
     it_array = [- 1], it_array_size = 1, it_array_count = 0\<rparr>"

definition small_table :: hpb_inttable where
  "small_table = \<lparr>it_t = init_table 2, it_array = [- 1], it_array_size = 1, it_array_count = 0\<rparr>"

lemma small_table_eq:
  "small_table = \<lparr>it_t = \<lparr>tab_count = 0, tab_mask = 3, tab_max_count = 3, tab_size_lg2 = 2,
       tab_entries = [empty_ent, empty_ent, empty_ent, empty_ent]\<rparr>,
     it_array = [- 1], it_array_size = 1, it_array_count = 0\<rparr>"
proof -
  have "table_size_of 2 = 4" "max_load 4 = 3"
    by (simp_all add: table_size_of_def max_load_def)
  then show ?thesis
    by (simp add: small_table_def init_table_def Let_def numeral_eq_Suc)
qed

lemma chain_table_built:
  "res_bind (hpb_inttable_insert (\<lambda>_. True) 2 small_table 17 7)
     (\<lambda>(t, _, n). hpb_inttable_insert (\<lambda>_. True) n t 33 8) = Inr (chain_table, True, 2)"
  unfolding small_table_eq by code_simp

text \<open>
  Removing the entry at an iterator position loses the rest of its chain when the entry is the
  head of the chain: a key outside the array whose bucket is that position is not found
  afterwards, whether or not it is the key of the removed entry.
\<close>

theorem hpb_inttable_removeiter_loses_chain:
  assumes inv: "int_inv t" and lg2: "tab_size_lg2 (it_t t) \<noteq> 0" and key: "\<not> unat k < it_array_size t"
    and iter: "iter = of_nat (it_array_size t + hpb_getentry (it_t t) (hpb_inthash k))"
  shows "\<exists>t'. hpb_inttable_removeiter t iter = Inr t' \<and> hpb_inttable_lookup t' k = Inr None"
proof -
  let ?i = "hpb_getentry (it_t t) (hpb_inthash k)" and ?h = "it_t t"
  have ti: "tab_inv hpb_inthash ?h" and as: "it_array_size t < 2 ^ 62"
    using inv by (simp_all add: int_inv_def)
  have i: "?i < length (tab_entries ?h)"
    by (rule tab_inv_getentry [OF ti lg2])
  have "?i < 2 ^ 32"
    using unsigned_less [of "hpb_inthash k AND tab_mask ?h", where 'a = nat] by (simp add: hpb_getentry_def)
  then have u: "unat iter = it_array_size t + ?i" "iter - of_nat (it_array_size t) = of_nat ?i" "unat (of_nat ?i :: u64) = ?i"
    using as unfolding iter by (simp_all add: unat_of_nat del: of_nat_add) (simp add: of_nat_add)
  let ?h1 = "case find (\<lambda>j. e_next (tab_entries ?h ! j) = Some ?i) [0..<hpb_table_size ?h] of None \<Rightarrow> ?h
    | Some prev \<Rightarrow> set_ent prev ((tab_entries ?h ! prev)\<lparr>e_next := e_next (tab_entries ?h ! ?i)\<rparr>) ?h"
  let ?h2 = "set_ent ?i ((tab_entries ?h1 ! ?i)\<lparr>e_key := None, e_next := None\<rparr>) (?h1\<lparr>tab_count := tab_count ?h1 - 1\<rparr>)"
  have "remove_at ?i ?h = Inr ?h2"
    using i by (simp add: remove_at_def ent_at_def Let_def)
  then have r: "hpb_inttable_removeiter t iter = Inr (t\<lparr>it_t := ?h2\<rparr>)"
    unfolding hpb_inttable_removeiter_def u by simp
  have h1: "tab_mask ?h1 = tab_mask ?h" "tab_size_lg2 ?h1 = tab_size_lg2 ?h" "length (tab_entries ?h1) = length (tab_entries ?h)"
    by (simp_all add: set_ent_def split: option.split)
  have "tab_mask ?h2 = tab_mask ?h" "tab_size_lg2 ?h2 \<noteq> 0" "ent_at ?h2 ?i = Inr ((tab_entries ?h1 ! ?i)\<lparr>e_key := None, e_next := None\<rparr>)"
    using h1 lg2 i by (simp_all add: set_ent_def ent_at_def)
  then have "findentry ?h2 key (hpb_inthash k) = Inr None" for key
    by (simp add: findentry_def hpb_getentry_def hpb_tabent_isempty_def)
  then have "hpb_inttable_lookup (t\<lparr>it_t := ?h2\<rparr>) k = Inr None"
    using key by (simp add: hpb_inttable_lookup_def inttable_val_def)
  then show ?thesis
    using r by blast
qed

text \<open>
  When the hash part has no bucket, as after compacting a table whose keys all fit in the
  array, the removal of a key outside the array reads through the null pointer, while a lookup
  reports that the key is absent.
\<close>

theorem hpb_inttable_remove_null:
  assumes "int_inv t" "tab_size_lg2 (it_t t) = 0" "\<not> unat k < it_array_size t"
  shows "hpb_inttable_remove t k = Inl BadAccess \<and> hpb_inttable_lookup t k = Inr None"
proof -
  have "tab_entries (it_t t) = []"
    using assms tab_inv_facts(1) [of hpb_inthash "it_t t"]
    by (simp add: int_inv_def hpb_table_size_def table_size_of_def)
  then show ?thesis
    using assms inttable_lookup_map [OF assms(1)]
    by (simp add: hpb_inttable_remove_def tab_rm_def ent_at_def Let_def int_map_def tab_map_def tab_index_def)
qed

theorem hpb_inttable_remove_null_witness:
  "\<exists>t. hpb_inttable_sizedinit (\<lambda>_. True) 0 1 0 = (Some t, 1) \<and> hpb_inttable_remove t 9 = Inl BadAccess"
proof -
  let ?t = "\<lparr>it_t = init_table 0, it_array = [- 1], it_array_size = 1, it_array_count = 0\<rparr>"
  note i = init_table_inv [where 'k = u64, of 0]
  have "{i. i < (1 :: nat) \<and> hpb_arrhas ([- 1] ! i)} = {}"
    by (auto simp: hpb_arrhas_def intro!: gr0I)
  then have "int_inv ?t"
    using i(1) [of hpb_inthash] i(2,4) by (simp add: int_inv_def)
  then have "hpb_inttable_remove ?t 9 = Inl BadAccess"
    using hpb_inttable_remove_null [of ?t 9] i(5) by simp
  moreover have "hpb_inttable_sizedinit (\<lambda>_. True) 0 1 0 = (Some ?t, 1)"
    by (simp add: hpb_inttable_sizedinit_def tab_init_def table_size_of_def)
  ultimately show ?thesis
    by blast
qed

lemma small_table_inv: "int_inv small_table" "int_map small_table = (\<lambda>_. None)" "tab_count (it_t small_table) = 0"
proof -
  note i = init_table_inv [where 'k = u64, of 2]
  have "{i. i < (1 :: nat) \<and> hpb_arrhas ([- 1] ! i)} = {}"
    by (auto simp: hpb_arrhas_def intro!: gr0I)
  then show "int_inv small_table" "int_map small_table = (\<lambda>_. None)" "tab_count (it_t small_table) = 0"
    using i(1) [of hpb_inthash] i(2,4)
    by (auto simp: small_table_def int_inv_def int_map_def hpb_arrhas_def fun_eq_iff)
qed

lemma chain_table_inv: "int_inv chain_table" "int_map chain_table = [17 \<mapsto> 7, 33 \<mapsto> 8]"
proof -
  have v: "hpb_arrhas 7" "hpb_arrhas 8"
    by (simp_all add: hpb_arrhas_def)
  obtain t n where t: "hpb_inttable_insert (\<lambda>_. True) 2 small_table 17 7 = Inr (t, True, n)" "int_inv t"
    "int_map t = [17 \<mapsto> 7]" "tab_count (it_t t) \<le> 1"
    using inttable_insert_map [OF small_table_inv(1) v(1), of 17 2] small_table_inv(2,3) by auto
  then obtain u m where u: "hpb_inttable_insert (\<lambda>_. True) n t 33 8 = Inr (u, True, m)" "int_inv u"
    "int_map u = [17 \<mapsto> 7, 33 \<mapsto> 8]"
    using inttable_insert_map [OF t(2) v(2), of 33 n] by auto
  moreover have "u = chain_table"
    using chain_table_built t(1) u(1) by simp
  ultimately show "int_inv chain_table" "int_map chain_table = [17 \<mapsto> 7, 33 \<mapsto> 8]"
    by simp_all
qed

theorem hpb_inttable_remove_lookup_witness:
  "\<exists>t' r. hpb_inttable_remove chain_table 17 = Inr (t', r) \<and> r = Some 7 \<and> hpb_inttable_lookup t' 33 = Inr (Some 8)"
proof -
  have look: "hpb_inttable_lookup chain_table 17 = Inr (Some 7)" "hpb_inttable_lookup chain_table 33 = Inr (Some 8)"
    using inttable_lookup_map [OF chain_table_inv(1)] chain_table_inv(2) by simp_all
  have "tab_size_lg2 (it_t chain_table) \<noteq> 0"
    by (simp add: chain_table_def)
  then show ?thesis
    using hpb_inttable_remove_lookup [OF chain_table_inv(1), of 17] look by fastforce
qed

theorem hpb_inttable_removeiter_loses_chain_witness:
  "\<exists>t'. hpb_inttable_lookup chain_table 33 = Inr (Some 8) \<and> hpb_inttable_next chain_table (- 1) = Some (17, 7, 2) \<and>
     hpb_inttable_removeiter chain_table 2 = Inr t' \<and> hpb_inttable_lookup t' 33 = Inr None"
proof -
  have look: "hpb_inttable_lookup chain_table 33 = Inr (Some 8)" "hpb_inttable_next chain_table (- 1) = Some (17, 7, 2)"
    by code_simp+
  have "hpb_getentry (it_t chain_table) (hpb_inthash 33) = 1"
    by code_simp
  moreover have "it_array_size chain_table = 1" "tab_size_lg2 (it_t chain_table) \<noteq> 0"
    by (simp_all add: chain_table_def)
  ultimately show ?thesis
    using hpb_inttable_removeiter_loses_chain [OF chain_table_inv(1), of 33 2] look by auto
qed

end
