(* ===== verification/IntCompact.thy ===== *)
theory IntCompact
  imports IntTable
begin

text \<open>
  Compaction of integer tables (\<open>hpb_inttable_compact\<close>): the keys are counted in buckets of powers
  of two, the largest array that is at least a tenth full is chosen, and the table is rebuilt.
\<close>

section \<open>Operations\<close>











section \<open>The bucket of a key\<close>









section \<open>The histogram\<close>









section \<open>Rebuilding the table\<close>



section \<open>Theorems\<close>











end
