(* ===== verification/Arena.thy ===== *)
theory Arena
  imports Prelude
begin

text \<open>
  Memory arenas (\<open>mem/arena.c\<close>, \<open>mem/arena.h\<close>, \<open>mem/internal/arena.h\<close>, \<open>mem/alloc.h\<close>) on an
  explicit store. The structures \<open>hpb_Arena\<close> and \<open>_hpb_MemBlock\<close> live at addresses in two maps,
  the other bytes in a third; the memory obtained from the block allocator and not yet returned
  is a list of regions. Returning a region removes the structures in it, so that a later access
  is an invalid one. The block allocator is a parameter that gives the address of the next block,
  or zero when there is none.

  The atomic operations are those of one thread: a load reads the value last stored and a
  compare-and-exchange succeeds when the value is the one expected.
\<close>

section \<open>Data\<close>

record hpb_Arena =
  a_ptr :: u64
  a_end :: u64
  a_block_alloc :: u64
  a_parent_or_count :: u64
  a_next :: u64
  a_tail :: u64
  a_blocks :: u64

record hpb_MemBlock =
  b_next :: u64
  b_size :: u32

type_synonym region = "u64 \<times> u64"

record heap =
  h_arenas :: "u64 \<Rightarrow> hpb_Arena option"
  h_blocks :: "u64 \<Rightarrow> hpb_MemBlock option"
  h_mem :: "u64 \<Rightarrow> byte"
  h_live :: "region list"
  h_user :: "region list"
  h_calls :: nat
  h_ids :: "u64 list"

type_synonym allocator = "nat \<Rightarrow> region list \<Rightarrow> u64 \<Rightarrow> u64"

datatype mem_fail = InvalidAccess | InvalidFree | FailedAssert | EndlessLoop

text \<open>
  A loop over linked structures stops when it has taken more steps than there are structures,
  since it then follows a cycle.
\<close>

definition arena_bound :: "heap \<Rightarrow> nat" where
  "arena_bound h = Suc (length (h_ids h))"

definition block_bound :: "heap \<Rightarrow> nat" where
  "block_bound h = Suc (length (h_live h))"

definition arena_at :: "heap \<Rightarrow> u64 \<Rightarrow> mem_fail + hpb_Arena" where
  "arena_at h a = (case h_arenas h a of None \<Rightarrow> Inl InvalidAccess | Some r \<Rightarrow> Inr r)"

definition block_at :: "heap \<Rightarrow> u64 \<Rightarrow> mem_fail + hpb_MemBlock" where
  "block_at h b = (case h_blocks h b of None \<Rightarrow> Inl InvalidAccess | Some r \<Rightarrow> Inr r)"

definition set_arena :: "u64 \<Rightarrow> hpb_Arena \<Rightarrow> heap \<Rightarrow> heap" where
  "set_arena a r h = h\<lparr>h_arenas := (h_arenas h)(a \<mapsto> r)\<rparr>"

definition inside :: "u64 \<Rightarrow> region \<Rightarrow> bool" where
  "inside x reg \<longleftrightarrow> unat (fst reg) \<le> unat x \<and> unat x < unat (fst reg) + unat (snd reg)"

section \<open>The block allocator\<close>

definition hpb_malloc :: "allocator \<Rightarrow> u64 \<Rightarrow> u64 \<Rightarrow> heap \<Rightarrow> mem_fail + (u64 \<times> heap)" where
  "hpb_malloc mall alloc sz h =
     (if alloc = 0 then Inl FailedAssert
      else let p = mall (h_calls h) (h_live h @ h_user h) sz
           in Inr (p, h\<lparr>h_calls := Suc (h_calls h), h_live := (if p = 0 then h_live h else (p, sz) # h_live h)\<rparr>))"

definition hpb_free :: "u64 \<Rightarrow> u64 \<Rightarrow> heap \<Rightarrow> mem_fail + heap" where
  "hpb_free alloc p h =
     (if alloc = 0 then Inl FailedAssert
      else case find (\<lambda>reg. fst reg = p) (h_live h) of
        None \<Rightarrow> Inl InvalidFree
      | Some reg \<Rightarrow>
          Inr (h\<lparr>h_live := remove1 reg (h_live h),
                 h_arenas := (\<lambda>x. if inside x reg then None else h_arenas h x),
                 h_blocks := (\<lambda>x. if inside x reg then None else h_blocks h x)\<rparr>))"

section \<open>Sizes and tagged words\<close>

definition HPB_MALLOC_ALIGN :: u64 where
  "HPB_MALLOC_ALIGN = 8"

definition HPB_ALIGN_UP :: "u64 \<Rightarrow> u64 \<Rightarrow> u64" where
  "HPB_ALIGN_UP sz align = (sz + align - 1) div align * align"

definition HPB_ALIGN_DOWN :: "u64 \<Rightarrow> u64 \<Rightarrow> u64" where
  "HPB_ALIGN_DOWN sz align = sz div align * align"

definition HPB_ALIGN_MALLOC :: "u64 \<Rightarrow> u64" where
  "HPB_ALIGN_MALLOC sz = HPB_ALIGN_UP sz HPB_MALLOC_ALIGN"

definition sizeof_Arena :: u64 where
  "sizeof_Arena = 56"

definition sizeof_MemBlock :: u64 where
  "sizeof_MemBlock = 16"

definition memblock_reserve :: u64 where
  "memblock_reserve = HPB_ALIGN_UP sizeof_MemBlock HPB_MALLOC_ALIGN"

definition hpb_Arena_IsTaggedRefcount :: "u64 \<Rightarrow> bool" where
  "hpb_Arena_IsTaggedRefcount poc \<longleftrightarrow> poc AND 1 = 1"

definition hpb_Arena_IsTaggedPointer :: "u64 \<Rightarrow> bool" where
  "hpb_Arena_IsTaggedPointer poc \<longleftrightarrow> poc AND 1 = 0"

definition hpb_Arena_RefCountFromTagged :: "u64 \<Rightarrow> mem_fail + u64" where
  "hpb_Arena_RefCountFromTagged poc =
     (if hpb_Arena_IsTaggedRefcount poc then Inr (drop_bit 1 poc) else Inl FailedAssert)"

definition hpb_Arena_TaggedFromRefcount :: "u64 \<Rightarrow> u64" where
  "hpb_Arena_TaggedFromRefcount refcount = push_bit 1 refcount OR 1"

definition hpb_Arena_TaggedFromPointer :: "u64 \<Rightarrow> mem_fail + u64" where
  "hpb_Arena_TaggedFromPointer a = (if hpb_Arena_IsTaggedPointer a then Inr a else Inl FailedAssert)"

definition hpb_Arena_BlockAlloc :: "hpb_Arena \<Rightarrow> u64" where
  "hpb_Arena_BlockAlloc r = a_block_alloc r AND NOT 1"

definition hpb_Arena_MakeBlockAlloc :: "u64 \<Rightarrow> bool \<Rightarrow> mem_fail + u64" where
  "hpb_Arena_MakeBlockAlloc alloc has_initial =
     (if alloc AND 1 \<noteq> 0 then Inl FailedAssert else Inr (alloc OR (if has_initial then 1 else 0)))"

definition hpb_Arena_HasInitialBlock :: "hpb_Arena \<Rightarrow> bool" where
  "hpb_Arena_HasInitialBlock r \<longleftrightarrow> a_block_alloc r AND 1 \<noteq> 0"

section \<open>Roots\<close>

text \<open>The walk to the root, which makes each node on the way point to its grandparent.\<close>

fun find_root_loop :: "nat \<Rightarrow> heap \<Rightarrow> u64 \<Rightarrow> u64 \<Rightarrow> mem_fail + (heap \<times> u64 \<times> u64)" where
  "find_root_loop 0 h a poc = Inl EndlessLoop"
| "find_root_loop (Suc n) h a poc =
     (if \<not> hpb_Arena_IsTaggedPointer poc then Inr (h, a, poc)
      else let nxt = poc in
        if a = nxt then Inl FailedAssert
        else res_bind (arena_at h nxt) (\<lambda>r.
          let next_poc = a_parent_or_count r in
          if hpb_Arena_IsTaggedPointer next_poc
          then if a = next_poc then Inl FailedAssert
               else res_bind (arena_at h a) (\<lambda>ra.
                 find_root_loop n (set_arena a (ra\<lparr>a_parent_or_count := next_poc\<rparr>) h) nxt next_poc)
          else find_root_loop n h nxt next_poc))"

definition hpb_Arena_FindRoot :: "heap \<Rightarrow> u64 \<Rightarrow> mem_fail + (heap \<times> u64 \<times> u64)" where
  "hpb_Arena_FindRoot h a =
     res_bind (arena_at h a) (\<lambda>r. find_root_loop (arena_bound h) h a (a_parent_or_count r))"

text \<open>The walk of the functions that do not change the tree.\<close>

fun walk_up :: "nat \<Rightarrow> heap \<Rightarrow> u64 \<Rightarrow> u64 \<Rightarrow> mem_fail + (u64 \<times> u64)" where
  "walk_up 0 h a poc = Inl EndlessLoop"
| "walk_up (Suc n) h a poc =
     (if \<not> hpb_Arena_IsTaggedPointer poc then Inr (a, poc)
      else res_bind (arena_at h poc) (\<lambda>r. walk_up n h poc (a_parent_or_count r)))"

definition hpb_Arena_DebugRefCount :: "heap \<Rightarrow> u64 \<Rightarrow> mem_fail + u32" where
  "hpb_Arena_DebugRefCount h a =
     res_bind (arena_at h a) (\<lambda>r.
     res_bind (walk_up (arena_bound h) h a (a_parent_or_count r)) (\<lambda>(_, poc).
     res_bind (hpb_Arena_RefCountFromTagged poc) (\<lambda>c. Inr (ucast c))))"

fun blocks_size :: "nat \<Rightarrow> heap \<Rightarrow> u64 \<Rightarrow> u64 \<Rightarrow> mem_fail + u64" where
  "blocks_size 0 h b memsize = Inl EndlessLoop"
| "blocks_size (Suc n) h b memsize =
     (if b = 0 then Inr memsize
      else res_bind (block_at h b) (\<lambda>r. blocks_size n h (b_next r) (memsize + (sizeof_MemBlock + ucast (b_size r)))))"

fun arenas_size :: "nat \<Rightarrow> heap \<Rightarrow> u64 \<Rightarrow> u64 \<Rightarrow> mem_fail + u64" where
  "arenas_size 0 h a memsize = Inl EndlessLoop"
| "arenas_size (Suc n) h a memsize =
     (if a = 0 then Inr memsize
      else res_bind (arena_at h a) (\<lambda>r.
           res_bind (blocks_size (block_bound h) h (a_blocks r) memsize) (\<lambda>memsize.
           arenas_size n h (a_next r) memsize)))"

definition hpb_Arena_SpaceAllocated :: "heap \<Rightarrow> u64 \<Rightarrow> mem_fail + (heap \<times> u64)" where
  "hpb_Arena_SpaceAllocated h a =
     res_bind (hpb_Arena_FindRoot h a) (\<lambda>(h, root, _).
     res_bind (arenas_size (arena_bound h) h root 0) (\<lambda>memsize. Inr (h, memsize)))"

section \<open>Allocation from an arena\<close>

definition hpb_Arena_AddBlock :: "u64 \<Rightarrow> u64 \<Rightarrow> u64 \<Rightarrow> heap \<Rightarrow> mem_fail + heap" where
  "hpb_Arena_AddBlock a ptr sz h =
     res_bind (arena_at h a) (\<lambda>r.
       Inr (set_arena a (r\<lparr>a_blocks := ptr, a_ptr := ptr + memblock_reserve, a_end := ptr + sz\<rparr>)
              (h\<lparr>h_blocks := (h_blocks h)(ptr \<mapsto> \<lparr>b_next = a_blocks r, b_size = ucast sz\<rparr>)\<rparr>)))"

definition hpb_Arena_AllocBlock :: "allocator \<Rightarrow> u64 \<Rightarrow> u64 \<Rightarrow> heap \<Rightarrow> mem_fail + (bool \<times> heap)" where
  "hpb_Arena_AllocBlock mall a sz h =
     res_bind (arena_at h a) (\<lambda>r.
       if a_block_alloc r = 0 then Inr (False, h)
       else res_bind (if a_blocks r \<noteq> 0 then res_bind (block_at h (a_blocks r)) (\<lambda>b. Inr (ucast (b_size b))) else Inr 128)
         (\<lambda>last_size.
            let block_size = max sz (last_size * 2) + memblock_reserve in
            res_bind (hpb_malloc mall (hpb_Arena_BlockAlloc r) block_size h) (\<lambda>(block, h).
              if block = 0 then Inr (False, h)
              else res_bind (hpb_Arena_AddBlock a block block_size h) (\<lambda>h. Inr (True, h)))))"

definition hpb_ArenaHas :: "heap \<Rightarrow> u64 \<Rightarrow> mem_fail + u64" where
  "hpb_ArenaHas h a = res_bind (arena_at h a) (\<lambda>r. Inr (a_end r - a_ptr r))"

text \<open>
  \<open>_hpb_Arena_SlowMalloc\<close> and \<open>hpb_Arena_Malloc\<close> call each other; the second call of
  \<open>hpb_Arena_Malloc\<close> finds the new block.
\<close>

definition hpb_Arena_SlowMalloc ::
  "(u64 \<Rightarrow> u64 \<Rightarrow> heap \<Rightarrow> mem_fail + (u64 \<times> heap)) \<Rightarrow> allocator \<Rightarrow> u64 \<Rightarrow> u64 \<Rightarrow> heap \<Rightarrow> mem_fail + (u64 \<times> heap)" where
  "hpb_Arena_SlowMalloc malloc_again mall a sz h =
     res_bind (hpb_Arena_AllocBlock mall a sz h) (\<lambda>(ok, h).
       if \<not> ok then Inr (0, h)
       else res_bind (hpb_ArenaHas h a) (\<lambda>has.
         if \<not> has \<ge> sz then Inl FailedAssert else malloc_again a sz h))"

primrec malloc_depth :: "nat \<Rightarrow> allocator \<Rightarrow> u64 \<Rightarrow> u64 \<Rightarrow> heap \<Rightarrow> mem_fail + (u64 \<times> heap)" where
  "malloc_depth 0 mall a sz h = Inl EndlessLoop"
| "malloc_depth (Suc d) mall a sz h =
     (let sz = HPB_ALIGN_MALLOC sz; span = sz in
      res_bind (hpb_ArenaHas h a) (\<lambda>has.
        if has < span then hpb_Arena_SlowMalloc (malloc_depth d mall) mall a sz h
        else res_bind (arena_at h a) (\<lambda>r.
          let ret = a_ptr r in
          if HPB_ALIGN_MALLOC ret \<noteq> ret \<or> HPB_ALIGN_MALLOC sz \<noteq> sz then Inl FailedAssert
          else Inr (ret, set_arena a (r\<lparr>a_ptr := a_ptr r + span\<rparr>) h))))"

definition hpb_Arena_Malloc :: "allocator \<Rightarrow> u64 \<Rightarrow> u64 \<Rightarrow> heap \<Rightarrow> mem_fail + (u64 \<times> heap)" where
  "hpb_Arena_Malloc = malloc_depth 2"

definition hpb_Arena_ShrinkLast :: "u64 \<Rightarrow> u64 \<Rightarrow> u64 \<Rightarrow> u64 \<Rightarrow> heap \<Rightarrow> mem_fail + heap" where
  "hpb_Arena_ShrinkLast a ptr oldsize sz h =
     (let oldsize = HPB_ALIGN_MALLOC oldsize; sz = HPB_ALIGN_MALLOC sz in
      res_bind (arena_at h a) (\<lambda>r.
        if ptr + oldsize \<noteq> a_ptr r \<or> \<not> sz \<le> oldsize then Inl FailedAssert
        else Inr (set_arena a (r\<lparr>a_ptr := ptr + sz\<rparr>) h)))"

text \<open>\<open>memcpy\<close> between regions that do not overlap.\<close>

definition mem_copy :: "u64 \<Rightarrow> u64 \<Rightarrow> u64 \<Rightarrow> heap \<Rightarrow> heap" where
  "mem_copy dst src n h =
     h\<lparr>h_mem := (\<lambda>x. if x - dst < n then h_mem h (src + (x - dst)) else h_mem h x)\<rparr>"

definition hpb_Arena_Realloc :: "allocator \<Rightarrow> u64 \<Rightarrow> u64 \<Rightarrow> u64 \<Rightarrow> u64 \<Rightarrow> heap \<Rightarrow> mem_fail + (u64 \<times> heap)" where
  "hpb_Arena_Realloc mall a ptr oldsize sz h =
     (let oldsize = HPB_ALIGN_MALLOC oldsize; sz = HPB_ALIGN_MALLOC sz in
      res_bind (arena_at h a) (\<lambda>r.
        let is_most_recent_alloc = (ptr + oldsize = a_ptr r); diff = sz - oldsize; has = a_end r - a_ptr r in
        if is_most_recent_alloc \<and> sint diff \<le> sint has
        then Inr (ptr, set_arena a (r\<lparr>a_ptr := a_ptr r + diff\<rparr>) h)
        else if \<not> is_most_recent_alloc \<and> sz \<le> oldsize then Inr (ptr, h)
        else res_bind (hpb_Arena_Malloc mall a sz h) (\<lambda>(ret, h).
          Inr (ret, if ret \<noteq> 0 \<and> oldsize > 0 then mem_copy ret ptr (min oldsize sz) h else h))))"

section \<open>Creation\<close>

definition new_arena :: "u64 \<Rightarrow> u64 \<Rightarrow> hpb_Arena \<Rightarrow> heap \<Rightarrow> heap" where
  "new_arena a block_alloc r h =
     (set_arena a (r\<lparr>a_block_alloc := block_alloc, a_parent_or_count := hpb_Arena_TaggedFromRefcount 1,
        a_next := 0, a_tail := a, a_blocks := 0\<rparr>) h)\<lparr>h_ids := a # h_ids h\<rparr>"

text \<open>The fields that are written later have an arbitrary value here: zero.\<close>

definition blank_arena :: hpb_Arena where
  "blank_arena = \<lparr>a_ptr = 0, a_end = 0, a_block_alloc = 0, a_parent_or_count = 0, a_next = 0, a_tail = 0, a_blocks = 0\<rparr>"

definition hpb_Arena_InitSlow :: "allocator \<Rightarrow> u64 \<Rightarrow> heap \<Rightarrow> mem_fail + (u64 \<times> heap)" where
  "hpb_Arena_InitSlow mall alloc h =
     (let first_block_overhead = sizeof_Arena + memblock_reserve; n = first_block_overhead + 256 in
      if alloc = 0 then Inr (0, h)
      else res_bind (hpb_malloc mall alloc n h) (\<lambda>(mem, h).
        if mem = 0 then Inr (0, h)
        else let a = mem + (n - sizeof_Arena); n = n - sizeof_Arena in
          res_bind (hpb_Arena_MakeBlockAlloc alloc False) (\<lambda>ba.
          res_bind (hpb_Arena_AddBlock a mem n (new_arena a ba blank_arena h)) (\<lambda>h. Inr (a, h)))))"

definition hpb_Arena_Init :: "allocator \<Rightarrow> u64 \<Rightarrow> u64 \<Rightarrow> u64 \<Rightarrow> heap \<Rightarrow> mem_fail + (u64 \<times> heap)" where
  "hpb_Arena_Init mall mem n alloc h =
     (let aligned = HPB_ALIGN_UP mem HPB_MALLOC_ALIGN; delta = aligned - mem;
          (mem, n) = (if n \<noteq> 0 then (aligned, if delta \<le> n then n - delta else 0) else (mem, n));
          n = HPB_ALIGN_DOWN n 8
      in if n < sizeof_Arena then hpb_Arena_InitSlow mall alloc h
         else let a = mem + (n - sizeof_Arena) in
           res_bind (hpb_Arena_MakeBlockAlloc alloc True) (\<lambda>ba.
             Inr (a, new_arena a ba (blank_arena\<lparr>a_ptr := mem, a_end := mem + (n - sizeof_Arena)\<rparr>) h)))"

definition hpb_Arena_New :: "allocator \<Rightarrow> u64 \<Rightarrow> heap \<Rightarrow> mem_fail + (u64 \<times> heap)" where
  "hpb_Arena_New mall hpb_alloc_global h = hpb_Arena_Init mall 0 0 hpb_alloc_global h"

section \<open>Release\<close>

fun free_blocks :: "nat \<Rightarrow> u64 \<Rightarrow> u64 \<Rightarrow> heap \<Rightarrow> mem_fail + heap" where
  "free_blocks 0 alloc b h = Inl EndlessLoop"
| "free_blocks (Suc n) alloc b h =
     (if b = 0 then Inr h
      else res_bind (block_at h b) (\<lambda>r.
           res_bind (hpb_free alloc b h) (\<lambda>h. free_blocks n alloc (b_next r) h)))"

fun free_arenas :: "nat \<Rightarrow> u64 \<Rightarrow> heap \<Rightarrow> mem_fail + heap" where
  "free_arenas 0 a h = Inl EndlessLoop"
| "free_arenas (Suc n) a h =
     (if a = 0 then Inr h
      else res_bind (arena_at h a) (\<lambda>r.
           res_bind (free_blocks (block_bound h) (hpb_Arena_BlockAlloc r) (a_blocks r) h) (\<lambda>h.
           free_arenas n (a_next r) h)))"

definition arena_dofree :: "u64 \<Rightarrow> heap \<Rightarrow> mem_fail + heap" where
  "arena_dofree a h =
     res_bind (arena_at h a) (\<lambda>r.
     res_bind (hpb_Arena_RefCountFromTagged (a_parent_or_count r)) (\<lambda>c.
       if c \<noteq> 1 then Inl FailedAssert else free_arenas (arena_bound h) a h))"

text \<open>A compare-and-exchange of \<open>parent_or_count\<close>.\<close>

definition exchange_poc :: "u64 \<Rightarrow> u64 \<Rightarrow> u64 \<Rightarrow> heap \<Rightarrow> mem_fail + (bool \<times> heap)" where
  "exchange_poc a expected desired h =
     res_bind (arena_at h a) (\<lambda>r.
       if a_parent_or_count r = expected then Inr (True, set_arena a (r\<lparr>a_parent_or_count := desired\<rparr>) h)
       else Inr (False, h))"

fun free_retry :: "nat \<Rightarrow> u64 \<Rightarrow> heap \<Rightarrow> mem_fail + heap" where
  "free_retry 0 a h = Inl EndlessLoop"
| "free_retry (Suc n) a h =
     res_bind (arena_at h a) (\<lambda>r.
     res_bind (walk_up (arena_bound h) h a (a_parent_or_count r)) (\<lambda>(a, poc).
       if poc = hpb_Arena_TaggedFromRefcount 1 then arena_dofree a h
       else res_bind (hpb_Arena_RefCountFromTagged poc) (\<lambda>c.
            res_bind (exchange_poc a poc (hpb_Arena_TaggedFromRefcount (c - 1)) h) (\<lambda>(ok, h).
              if ok then Inr h else free_retry n a h))))"

definition hpb_Arena_Free :: "u64 \<Rightarrow> heap \<Rightarrow> mem_fail + heap" where
  "hpb_Arena_Free a h = free_retry (arena_bound h) a h"

section \<open>Fusing\<close>

fun find_tail :: "nat \<Rightarrow> heap \<Rightarrow> u64 \<Rightarrow> mem_fail + u64" where
  "find_tail 0 h a = Inl EndlessLoop"
| "find_tail (Suc n) h a =
     res_bind (arena_at h a) (\<lambda>r. if a_next r \<noteq> 0 then find_tail n h (a_next r) else Inr a)"

fun fuse_lists_loop :: "nat \<Rightarrow> u64 \<Rightarrow> u64 \<Rightarrow> heap \<Rightarrow> mem_fail + (u64 \<times> heap)" where
  "fuse_lists_loop 0 parent_tail child h = Inl EndlessLoop"
| "fuse_lists_loop (Suc n) parent_tail child h =
     res_bind (find_tail (arena_bound h) h parent_tail) (\<lambda>parent_tail.
     res_bind (arena_at h parent_tail) (\<lambda>rt.
       let displaced = a_next rt; h = set_arena parent_tail (rt\<lparr>a_next := child\<rparr>) h in
       res_bind (arena_at h child) (\<lambda>rc.
         if displaced \<noteq> 0 then fuse_lists_loop n (a_tail rc) displaced h else Inr (a_tail rc, h))))"

definition hpb_Arena_DoFuseArenaLists :: "u64 \<Rightarrow> u64 \<Rightarrow> heap \<Rightarrow> mem_fail + heap" where
  "hpb_Arena_DoFuseArenaLists parent child h =
     res_bind (arena_at h parent) (\<lambda>r.
     res_bind (fuse_lists_loop (arena_bound h) (a_tail r) child h) (\<lambda>(parent_tail, h).
     res_bind (arena_at h parent) (\<lambda>r. Inr (set_arena parent (r\<lparr>a_tail := parent_tail\<rparr>) h))))"

text \<open>The second half of \<open>_hpb_Arena_DoFuse\<close>: \<open>root2\<close> is put below \<open>root1\<close>.\<close>

definition fuse_roots :: "u64 \<Rightarrow> u64 \<Rightarrow> u64 \<Rightarrow> u64 \<Rightarrow> u64 \<Rightarrow> heap \<Rightarrow> mem_fail + (u64 option \<times> u64 \<times> heap)" where
  "fuse_roots root1 count1 root2 count2 ref_delta h =
     (let r2_untagged_count = count2 AND NOT 1;
          with_r2_refs = count1 + r2_untagged_count
      in res_bind (exchange_poc root1 count1 with_r2_refs h) (\<lambda>(ok, h).
           if \<not> ok then Inr (None, ref_delta, h)
           else res_bind (hpb_Arena_TaggedFromPointer root1) (\<lambda>tagged.
                res_bind (exchange_poc root2 count2 tagged h) (\<lambda>(ok, h).
                  if \<not> ok then Inr (None, ref_delta + r2_untagged_count, h)
                  else res_bind (hpb_Arena_DoFuseArenaLists root1 root2 h) (\<lambda>h.
                    Inr (Some root1, ref_delta, h))))))"

definition hpb_Arena_DoFuse :: "u64 \<Rightarrow> u64 \<Rightarrow> u64 \<Rightarrow> heap \<Rightarrow> mem_fail + (u64 option \<times> u64 \<times> heap)" where
  "hpb_Arena_DoFuse a1 a2 ref_delta h =
     res_bind (hpb_Arena_FindRoot h a1) (\<lambda>(h, root1, count1).
     res_bind (hpb_Arena_FindRoot h a2) (\<lambda>(h, root2, count2).
       if root1 = root2 then Inr (Some root1, ref_delta, h)
       else if root1 > root2 then fuse_roots root2 count2 root1 count1 ref_delta h
       else fuse_roots root1 count1 root2 count2 ref_delta h))"

definition hpb_Arena_FixupRefs :: "u64 \<Rightarrow> u64 \<Rightarrow> heap \<Rightarrow> mem_fail + (bool \<times> heap)" where
  "hpb_Arena_FixupRefs new_root ref_delta h =
     (if ref_delta = 0 then Inr (True, h)
      else res_bind (arena_at h new_root) (\<lambda>r.
        let poc = a_parent_or_count r in
        if hpb_Arena_IsTaggedPointer poc then Inr (False, h)
        else let with_refs = poc - ref_delta in
          if hpb_Arena_IsTaggedPointer with_refs then Inl FailedAssert
          else exchange_poc new_root poc with_refs h))"

fun fuse_loop :: "nat \<Rightarrow> u64 \<Rightarrow> u64 \<Rightarrow> u64 \<Rightarrow> heap \<Rightarrow> mem_fail + (bool \<times> heap)" where
  "fuse_loop 0 a1 a2 ref_delta h = Inl EndlessLoop"
| "fuse_loop (Suc n) a1 a2 ref_delta h =
     res_bind (hpb_Arena_DoFuse a1 a2 ref_delta h) (\<lambda>(new_root, ref_delta, h).
       case new_root of
         None \<Rightarrow> fuse_loop n a1 a2 ref_delta h
       | Some root \<Rightarrow> res_bind (hpb_Arena_FixupRefs root ref_delta h) (\<lambda>(ok, h).
           if ok then Inr (True, h) else fuse_loop n a1 a2 ref_delta h))"

definition hpb_Arena_Fuse :: "u64 \<Rightarrow> u64 \<Rightarrow> heap \<Rightarrow> mem_fail + (bool \<times> heap)" where
  "hpb_Arena_Fuse a1 a2 h =
     (if a1 = a2 then Inr (True, h)
      else res_bind (arena_at h a1) (\<lambda>r1.
        if hpb_Arena_HasInitialBlock r1 then Inr (False, h)
        else res_bind (arena_at h a2) (\<lambda>r2.
          if hpb_Arena_HasInitialBlock r2 then Inr (False, h)
          else fuse_loop (arena_bound h) a1 a2 0 h)))"

end
