(* ===== verification/ArenaAlloc.thy ===== *)
theory ArenaAlloc
  imports Arena
begin

text \<open>
  Memory safety of allocation from arenas. The bytes of the regions obtained from the block
  allocator are divided into pieces: the structures of the arenas, the headers of the blocks, the
  free space of each arena and the allocations that were returned. The invariant says that the
  pieces do not overlap.
\<close>

section \<open>Regions and the allocator\<close>

definition range_of :: "region \<Rightarrow> nat set" where
  "range_of reg = {unat (fst reg) ..< unat (fst reg) + unat (snd reg)}"

definition space :: "heap \<Rightarrow> nat set" where
  "space h = (\<Union>reg \<in> set (h_live h @ h_user h). range_of reg)"

text \<open>
  What \<open>malloc\<close> promises: the block is aligned, does not wrap around the address space and
  overlaps no region that is in use; a request of zero bytes gives no block.
\<close>

definition malloc_ok :: "allocator \<Rightarrow> bool" where
  "malloc_ok mall \<longleftrightarrow> (\<forall>n regs sz. mall n regs sz \<noteq> 0 \<longrightarrow>
     sz \<noteq> 0 \<and> 8 dvd unat (mall n regs sz) \<and> unat (mall n regs sz) + unat sz < 2 ^ 64 \<and>
     (\<forall>reg \<in> set regs. range_of (mall n regs sz, sz) \<inter> range_of reg = {}))"

section \<open>Alignment\<close>

lemma unat_add_small: "unat a + unat b < 2 ^ 64 \<Longrightarrow> unat (a + b :: u64) = unat a + unat b"
  by (simp add: unat_word_ariths(1))

lemma unat_sub_le: "unat b \<le> unat a \<Longrightarrow> unat (a - b :: u64) = unat a - unat b"
  by (simp add: unat_sub word_le_nat_alt)

lemma unat_align_malloc:
  assumes "unat sz + 7 < 2 ^ 64"
  shows "unat (HPB_ALIGN_MALLOC sz) = (unat sz + 7) div 8 * 8"
proof -
  have "unat (sz + 7) = unat sz + 7"
    using assms unat_add_small [of sz 7] by simp
  moreover have "sz + 8 - 1 = sz + 7"
    by simp
  ultimately have "unat (sz + 8 - 1) = unat sz + 7"
    by (simp only:)
  then have "unat ((sz + 8 - 1) div 8) = (unat sz + 7) div 8"
    by (simp add: unat_div_distrib)
  moreover have "(unat sz + 7) div 8 * 8 < 2 ^ 64"
    using assms by linarith
  ultimately show ?thesis
    by (simp add: HPB_ALIGN_MALLOC_def HPB_ALIGN_UP_def HPB_MALLOC_ALIGN_def unat_word_ariths(2))
qed

lemma align_malloc_id:
  assumes "8 dvd unat sz" "unat sz + 7 < 2 ^ 64"
  shows "HPB_ALIGN_MALLOC sz = sz"
proof -
  obtain k where "unat sz = 8 * k"
    using assms(1) by blast
  then show ?thesis
    using unat_align_malloc [OF assms(2)] by (simp add: word_unat_eq_iff)
qed

lemma align_malloc_facts:
  assumes "unat sz \<le> 2 ^ 63"
  shows "8 dvd unat (HPB_ALIGN_MALLOC sz)" "unat sz \<le> unat (HPB_ALIGN_MALLOC sz)"
    "unat (HPB_ALIGN_MALLOC sz) \<le> 2 ^ 63" "HPB_ALIGN_MALLOC (HPB_ALIGN_MALLOC sz) = HPB_ALIGN_MALLOC sz"
proof -
  have u: "unat (HPB_ALIGN_MALLOC sz) = (unat sz + 7) div 8 * 8"
    using assms by (intro unat_align_malloc) simp
  then show d: "8 dvd unat (HPB_ALIGN_MALLOC sz)" and "unat sz \<le> unat (HPB_ALIGN_MALLOC sz)"
    by simp_all
  have "(unat sz + 7) div 8 \<le> (2 ^ 63 + 7) div 8"
    using assms by (intro div_le_mono) simp
  then show le: "unat (HPB_ALIGN_MALLOC sz) \<le> 2 ^ 63"
    using u by simp
  show "HPB_ALIGN_MALLOC (HPB_ALIGN_MALLOC sz) = HPB_ALIGN_MALLOC sz"
    using d le by (intro align_malloc_id) simp_all
qed

lemma memblock_reserve_16: "memblock_reserve = 16"
  by (simp add: memblock_reserve_def HPB_ALIGN_UP_def sizeof_MemBlock_def HPB_MALLOC_ALIGN_def)

section \<open>Pieces of memory\<close>

datatype piece = ArenaStruct u64 | BlockHeader u64 | FreeSpace u64 | Allocated nat

fun piece_range :: "heap \<Rightarrow> region list \<Rightarrow> piece \<Rightarrow> nat set" where
  "piece_range h allocs (ArenaStruct a) = (case h_arenas h a of None \<Rightarrow> {} | Some _ \<Rightarrow> {unat a ..< unat a + 56})"
| "piece_range h allocs (BlockHeader b) = (case h_blocks h b of None \<Rightarrow> {} | Some _ \<Rightarrow> {unat b ..< unat b + 16})"
| "piece_range h allocs (FreeSpace a) =
     (case h_arenas h a of None \<Rightarrow> {} | Some r \<Rightarrow> {unat (a_ptr r) ..< unat (a_end r)})"
| "piece_range h allocs (Allocated i) = (if i < length allocs then range_of (allocs ! i) else {})"

definition pieces_apart :: "heap \<Rightarrow> region list \<Rightarrow> bool" where
  "pieces_apart h allocs \<longleftrightarrow>
     (\<forall>p. piece_range h allocs p \<subseteq> space h) \<and>
     (\<forall>p q. p \<noteq> q \<longrightarrow> piece_range h allocs p \<inter> piece_range h allocs q = {})"

definition head_ok :: "heap \<Rightarrow> hpb_Arena \<Rightarrow> bool" where
  "head_ok h r \<longleftrightarrow> a_ptr r \<noteq> 0 \<and> 8 dvd unat (a_ptr r) \<and> unat (a_ptr r) \<le> unat (a_end r) \<and>
     (a_blocks r \<noteq> 0 \<longrightarrow> h_blocks h (a_blocks r) \<noteq> None)"

definition layout_ok :: "heap \<Rightarrow> region list \<Rightarrow> bool" where
  "layout_ok h allocs \<longleftrightarrow> pieces_apart h allocs \<and> (\<forall>a r. h_arenas h a = Some r \<longrightarrow> head_ok h r) \<and>
     (\<forall>(p, n) \<in> set allocs. p \<noteq> 0 \<and> 8 dvd unat p \<and> 8 dvd unat n \<and> unat p + unat n < 2 ^ 64)"

text \<open>
  Pieces that are carved out of old pieces stay apart: every new piece lies in an old one or in
  fresh memory, and the new pieces of one old piece, or of the fresh memory, are apart.
\<close>

lemma pieces_apart_carve:
  assumes old: "pieces_apart h allocs"
    and own: "\<And>p. piece_range h' allocs' p \<subseteq> (\<Union>q \<in> own p. piece_range h allocs q) \<union> (if p \<in> F then fresh else {})"
    and fresh: "fresh \<inter> space h = {}" "space h' = space h \<union> fresh"
    and apart: "\<And>p q. p \<noteq> q \<Longrightarrow> own p \<inter> own q \<noteq> {} \<or> p \<in> F \<and> q \<in> F \<Longrightarrow>
      piece_range h' allocs' p \<inter> piece_range h' allocs' q = {}"
  shows "pieces_apart h' allocs'"
proof -
  have sub: "piece_range h allocs q \<subseteq> space h" for q
    using old by (simp add: pieces_apart_def)
  have sub': "piece_range h' allocs' p \<subseteq> space h'" for p
  proof -
    have "(\<Union>q \<in> own p. piece_range h allocs q) \<subseteq> space h"
      using sub by blast
    then show ?thesis
      using own [of p] fresh(2) by (auto split: if_splits)
  qed
  have "x \<notin> piece_range h' allocs' q" if "p \<noteq> q" "x \<in> piece_range h' allocs' p" for p q x
  proof
    assume xq: "x \<in> piece_range h' allocs' q"
    have one: "own p \<inter> own q = {}" "\<not> (p \<in> F \<and> q \<in> F)"
      using apart [OF that(1)] that(2) xq by auto
    have p: "x \<in> fresh \<and> p \<in> F \<or> (\<exists>p' \<in> own p. x \<in> piece_range h allocs p')"
      using own [of p] that(2) by (auto split: if_splits)
    have q: "x \<in> fresh \<and> q \<in> F \<or> (\<exists>q' \<in> own q. x \<in> piece_range h allocs q')"
      using own [of q] xq by (auto split: if_splits)
    have "x \<notin> fresh \<or> x \<notin> piece_range h allocs y" for y
      using fresh(1) sub [of y] by auto
    then obtain p' q' where "p' \<in> own p" "q' \<in> own q" "x \<in> piece_range h allocs p'" "x \<in> piece_range h allocs q'"
      using p q one(2) by blast
    moreover have "p' \<noteq> q'"
      using calculation one(1) by auto
    ultimately show False
      using old unfolding pieces_apart_def by blast
  qed
  then show ?thesis
    using sub' by (auto simp: pieces_apart_def)
qed

section \<open>Taking memory from a block\<close>

lemma take_layout:
  assumes lay: "layout_ok h allocs" and r: "h_arenas h a = Some r" and has: "unat sz \<le> unat (a_end r) - unat (a_ptr r)"
    and dvd: "8 dvd unat sz"
  shows "layout_ok (set_arena a (r\<lparr>a_ptr := a_ptr r + sz\<rparr>) h) (allocs @ [(a_ptr r, sz)])"
    (is "layout_ok ?h ?allocs")
proof -
  have hd: "a_ptr r \<noteq> 0" "8 dvd unat (a_ptr r)" "unat (a_ptr r) \<le> unat (a_end r)"
    using lay r by (auto simp: layout_ok_def head_ok_def)
  have u: "unat (a_ptr r + sz) = unat (a_ptr r) + unat sz"
    using has hd(3) unsigned_less [of "a_end r", where 'a = nat] by (intro unat_add_small) simp
  let ?own = "\<lambda>p. {if p = Allocated (length allocs) then FreeSpace a else p}"
  have range: "piece_range ?h ?allocs (Allocated (length allocs)) = {unat (a_ptr r) ..< unat (a_ptr r) + unat sz}"
    "piece_range ?h ?allocs (FreeSpace a) = {unat (a_ptr r) + unat sz ..< unat (a_end r)}"
    "piece_range h allocs (FreeSpace a) = {unat (a_ptr r) ..< unat (a_end r)}"
    using u r by (auto simp: range_of_def set_arena_def)
  have same: "piece_range ?h ?allocs p = piece_range h allocs p" if "p \<noteq> FreeSpace a" "p \<noteq> Allocated (length allocs)" for p
    using that r by (cases p) (auto simp: set_arena_def nth_append split: option.splits)
  have "pieces_apart ?h ?allocs"
  proof (rule pieces_apart_carve [where own = ?own and fresh = "{}" and F = "{}"])
    show "pieces_apart h allocs"
      using lay by (simp add: layout_ok_def)
    show "piece_range ?h ?allocs p \<subseteq> (\<Union>q \<in> ?own p. piece_range h allocs q) \<union> (if p \<in> {} then {} else {})" for p
      using range same [of p] has hd(3) by (cases "p = FreeSpace a \<or> p = Allocated (length allocs)") auto
    show "piece_range ?h ?allocs p \<inter> piece_range ?h ?allocs q = {}" if "p \<noteq> q" "?own p \<inter> ?own q \<noteq> {} \<or> p \<in> {} \<and> q \<in> {}" for p q
      using that range by (auto split: if_splits)
  qed (simp_all add: space_def set_arena_def)
  moreover have "8 dvd unat (a_ptr r) + unat sz"
    using hd(2) dvd by (rule dvd_add)
  moreover have "a_ptr r + sz \<noteq> 0"
    using u hd(1) by (metis add_eq_0_iff_both_eq_0 unat_0 unat_eq_0)
  moreover have "unat (a_ptr r) + unat sz \<le> unat (a_end r)" "unat (a_end r) < 2 ^ 64"
    using has hd(3) unsigned_less [of "a_end r", where 'a = nat] by simp_all
  ultimately show ?thesis
    using lay hd u dvd r by (auto simp: layout_ok_def head_ok_def set_arena_def)
qed

section \<open>New blocks\<close>

lemma add_block_layout:
  assumes lay: "layout_ok h allocs" and r: "h_arenas h a = Some r"
    and p: "p \<noteq> 0" "8 dvd unat p" "unat p + unat sz < 2 ^ 64" "16 \<le> unat sz"
    and fresh: "\<forall>reg \<in> set (h_live h @ h_user h). range_of (p, sz) \<inter> range_of reg = {}"
  shows "layout_ok (set_arena a (r\<lparr>a_blocks := p, a_ptr := p + 16, a_end := p + sz\<rparr>)
    (h\<lparr>h_calls := c, h_live := (p, sz) # h_live h, h_blocks := (h_blocks h)(p \<mapsto> b)\<rparr>)) allocs"
    (is "layout_ok ?h allocs")
proof -
  have u: "unat (p + 16) = unat p + 16" "unat (p + sz) = unat p + unat sz"
    using p(3,4) unat_add_small [of p 16] unat_add_small [of p sz] by simp_all
  let ?F = "{BlockHeader p, FreeSpace a}" let ?own = "\<lambda>q. if q \<in> ?F then {} else {q}"
  have range: "piece_range ?h allocs (BlockHeader p) = {unat p ..< unat p + 16}"
    "piece_range ?h allocs (FreeSpace a) = {unat p + 16 ..< unat p + unat sz}"
    using u by (auto simp: set_arena_def)
  have same: "piece_range ?h allocs q = piece_range h allocs q" if "q \<noteq> FreeSpace a" "q \<noteq> BlockHeader p" for q
    using that r by (cases q) (auto simp: set_arena_def split: option.splits)
  have "pieces_apart ?h allocs"
  proof (rule pieces_apart_carve [where own = ?own and fresh = "range_of (p, sz)" and F = ?F])
    show "pieces_apart h allocs"
      using lay by (simp add: layout_ok_def)
    show "piece_range ?h allocs q \<subseteq> (\<Union>q' \<in> ?own q. piece_range h allocs q') \<union> (if q \<in> ?F then range_of (p, sz) else {})" for q
      using range same [of q] p(4) by (cases "q = FreeSpace a \<or> q = BlockHeader p") (auto simp: range_of_def)
    show "range_of (p, sz) \<inter> space h = {}"
      using fresh by (auto simp: space_def)
    show "piece_range ?h allocs q \<inter> piece_range ?h allocs q' = {}"
      if "q \<noteq> q'" "?own q \<inter> ?own q' \<noteq> {} \<or> q \<in> ?F \<and> q' \<in> ?F" for q q'
      using that range by (auto split: if_splits)
  qed (auto simp: space_def set_arena_def)
  moreover have "8 dvd unat p + 16"
    using p(2) by simp
  moreover have "p + 16 \<noteq> 0"
    using u by (metis add_is_0 unat_0 zero_neq_numeral)
  ultimately show ?thesis
    using lay u p by (auto simp: layout_ok_def head_ok_def set_arena_def)
qed

lemma AllocBlock_cases:
  assumes hd: "head_ok h r" and mall: "malloc_ok mall" and r: "h_arenas h a = Some r"
    and alloc: "a_block_alloc r \<noteq> 1" and sz: "unat sz \<le> 2 ^ 63"
  obtains (none) n where "hpb_Arena_AllocBlock mall a sz h = Inr (False, h\<lparr>h_calls := n\<rparr>)"
  | (block) p bs n where "hpb_Arena_AllocBlock mall a sz h = Inr (True, set_arena a (r\<lparr>a_blocks := p, a_ptr := p + 16, a_end := p + bs\<rparr>)
      (h\<lparr>h_calls := n, h_live := (p, bs) # h_live h, h_blocks := (h_blocks h)(p \<mapsto> \<lparr>b_next = a_blocks r, b_size = ucast bs\<rparr>)\<rparr>))"
    "p \<noteq> 0" "8 dvd unat p" "unat p + unat bs < 2 ^ 64" "unat sz + 16 \<le> unat bs"
    "\<forall>reg \<in> set (h_live h @ h_user h). range_of (p, bs) \<inter> range_of reg = {}" "hpb_Arena_BlockAlloc r \<noteq> 0"
proof (cases "a_block_alloc r = 0")
  case True
  then show thesis
    using r that(1) [of "h_calls h"] by (simp add: hpb_Arena_AllocBlock_def arena_at_def)
next
  case False
  obtain ls :: u64 where ls: "(if a_blocks r \<noteq> 0 then res_bind (block_at h (a_blocks r)) (\<lambda>b. Inr (ucast (b_size b))) else Inr 128) = Inr ls"
    "unat ls < 2 ^ 32"
  proof (cases "a_blocks r = 0")
    case True
    then show thesis
      using that [of 128] by simp
  next
    case False
    then obtain b where "h_blocks h (a_blocks r) = Some b"
      using hd unfolding head_ok_def by blast
    then show thesis
      using False that [of "ucast (b_size b)"] unsigned_less [of "b_size b", where 'a = nat]
      by (simp add: block_at_def unat_ucast_small)
  qed
  let ?bs = "max sz (ls * 2) + memblock_reserve"
  have ls2: "unat (ls * 2) = 2 * unat ls"
    using ls(2) by (simp add: unat_word_ariths(2))
  have m: "unat sz \<le> unat (max sz (ls * 2))" "unat (max sz (ls * 2)) \<le> 2 ^ 63"
    using ls(2) ls2 sz by (auto simp: max_def word_le_nat_alt)
  then have bs: "unat ?bs = unat (max sz (ls * 2)) + 16"
    by (simp add: memblock_reserve_16 unat_word_ariths(1))
  have ba: "hpb_Arena_BlockAlloc r \<noteq> 0"
  proof
    assume "hpb_Arena_BlockAlloc r = 0"
    moreover have "bit (hpb_Arena_BlockAlloc r) n \<longleftrightarrow> bit (a_block_alloc r) n \<and> n \<noteq> 0" for n
      by (auto simp: hpb_Arena_BlockAlloc_def bit_and_iff bit_not_iff bit_1_iff dest: bit_imp_le_length)
    ultimately have "\<not> bit (a_block_alloc r) n" if "n \<noteq> 0" for n
      using that by (metis bit_0_eq bot_apply bot_bool_def)
    then have "a_block_alloc r = 0 \<or> a_block_alloc r = 1"
      by (metis (no_types, lifting) bit_1_iff bit_0_eq bit_eq_iff bot_apply bot_bool_def)
    then show False
      using False alloc by blast
  qed
  let ?p = "mall (h_calls h) (h_live h @ h_user h) ?bs"
  show thesis
  proof (cases "?p = 0")
    case True
    then show thesis
      using False r ls(1) ba that(1) [of "Suc (h_calls h)"]
      by (simp add: hpb_Arena_AllocBlock_def arena_at_def hpb_malloc_def Let_def)
  next
    case nz: False
    have ok: "8 dvd unat ?p" "unat ?p + unat ?bs < 2 ^ 64"
      "\<forall>reg \<in> set (h_live h @ h_user h). range_of (?p, ?bs) \<inter> range_of reg = {}"
      using mall nz unfolding malloc_ok_def by blast+
    show thesis
    proof (rule that(2) [of ?p ?bs "Suc (h_calls h)"])
      show "hpb_Arena_AllocBlock mall a sz h = Inr (True, set_arena a (r\<lparr>a_blocks := ?p, a_ptr := ?p + 16, a_end := ?p + ?bs\<rparr>)
        (h\<lparr>h_calls := Suc (h_calls h), h_live := (?p, ?bs) # h_live h,
           h_blocks := (h_blocks h)(?p \<mapsto> \<lparr>b_next = a_blocks r, b_size = ucast ?bs\<rparr>)\<rparr>))"
        using False r ls(1) ba nz
        by (simp add: hpb_Arena_AllocBlock_def hpb_Arena_AddBlock_def arena_at_def hpb_malloc_def Let_def memblock_reserve_16)
      show "unat sz + 16 \<le> unat ?bs"
        using bs m by simp
    qed (use nz ok ba in auto)
  qed
qed

section \<open>Allocation\<close>

lemma malloc_depth_fast:
  assumes hd: "head_ok h r" and r: "h_arenas h a = Some r" and sz: "unat sz \<le> 2 ^ 63"
    and has: "unat (HPB_ALIGN_MALLOC sz) \<le> unat (a_end r) - unat (a_ptr r)"
  shows "malloc_depth (Suc d) mall a sz h = Inr (a_ptr r, set_arena a (r\<lparr>a_ptr := a_ptr r + HPB_ALIGN_MALLOC sz\<rparr>) h)"
proof -
  have hd: "8 dvd unat (a_ptr r)" "unat (a_ptr r) \<le> unat (a_end r)"
    using hd by (auto simp: head_ok_def)
  have "HPB_ALIGN_MALLOC (a_ptr r) = a_ptr r"
  proof (cases "unat (a_ptr r) = 2 ^ 64 - 8")
    case True
    then have "a_ptr r = 2 ^ 64 - 8"
      by (simp add: word_unat_eq_iff)
    then show ?thesis
      by (simp add: HPB_ALIGN_MALLOC_def HPB_ALIGN_UP_def HPB_MALLOC_ALIGN_def)
  next
    case False
    then have "unat (a_ptr r) + 7 < 2 ^ 64"
      using hd(1) unsigned_less [of "a_ptr r", where 'a = nat] by (auto elim!: dvdE)
    then show ?thesis
      by (rule align_malloc_id [OF hd(1)])
  qed
  then show ?thesis
    using r has hd(2) align_malloc_facts(4) [OF sz]
    by (simp add: Let_def hpb_ArenaHas_def arena_at_def word_less_nat_alt unat_sub_le)
qed

text \<open>
  An allocation takes the memory from the current block, fails, or adds a block that is large
  enough and takes the memory from it.
\<close>

lemma Malloc_cases:
  assumes hd: "head_ok h r" and mall: "malloc_ok mall" and r: "h_arenas h a = Some r"
    and alloc: "a_block_alloc r \<noteq> 1" and sz: "unat sz \<le> 2 ^ 63"
  obtains (fast) "hpb_Arena_Malloc mall a sz h = Inr (a_ptr r, set_arena a (r\<lparr>a_ptr := a_ptr r + HPB_ALIGN_MALLOC sz\<rparr>) h)"
      "unat (HPB_ALIGN_MALLOC sz) \<le> unat (a_end r) - unat (a_ptr r)"
  | (none) n where "hpb_Arena_Malloc mall a sz h = Inr (0, h\<lparr>h_calls := n\<rparr>)"
  | (block) p bs n where "hpb_Arena_Malloc mall a sz h =
        Inr (p + 16, set_arena a (r\<lparr>a_blocks := p, a_end := p + bs, a_ptr := p + 16 + HPB_ALIGN_MALLOC sz\<rparr>)
          (h\<lparr>h_calls := n, h_live := (p, bs) # h_live h, h_blocks := (h_blocks h)(p \<mapsto> \<lparr>b_next = a_blocks r, b_size = ucast bs\<rparr>)\<rparr>))"
      "p \<noteq> 0" "8 dvd unat p" "unat p + unat bs < 2 ^ 64" "unat (HPB_ALIGN_MALLOC sz) + 16 \<le> unat bs"
      "\<forall>reg \<in> set (h_live h @ h_user h). range_of (p, bs) \<inter> range_of reg = {}" "hpb_Arena_BlockAlloc r \<noteq> 0"
proof (cases "unat (HPB_ALIGN_MALLOC sz) \<le> unat (a_end r) - unat (a_ptr r)")
  case True
  then show thesis
    using malloc_depth_fast [OF hd r sz True, of "Suc 0" mall] that(1)
    unfolding hpb_Arena_Malloc_def numeral_2_eq_2 by blast
next
  case False
  let ?sz = "HPB_ALIGN_MALLOC sz"
  note al = align_malloc_facts [OF sz]
  have slow: "hpb_Arena_Malloc mall a sz h = hpb_Arena_SlowMalloc (malloc_depth 1 mall) mall a ?sz h"
    using False r hd
    by (simp add: hpb_Arena_Malloc_def numeral_2_eq_2 hpb_ArenaHas_def arena_at_def head_ok_def word_less_nat_alt unat_sub_le Let_def)
  from hd mall r alloc al(3) show ?thesis
  proof (cases rule: AllocBlock_cases)
    case (none n)
    then show thesis
      using that(2) [of n] by (simp add: slow hpb_Arena_SlowMalloc_def)
  next
    case (block p bs n)
    let ?r = "r\<lparr>a_blocks := p, a_ptr := p + 16, a_end := p + bs\<rparr>"
    let ?h = "set_arena a ?r (h\<lparr>h_calls := n, h_live := (p, bs) # h_live h,
        h_blocks := (h_blocks h)(p \<mapsto> \<lparr>b_next = a_blocks r, b_size = ucast bs\<rparr>)\<rparr>)"
    have r': "h_arenas ?h a = Some ?r"
      by (simp add: set_arena_def)
    have w: "unat (p + 16) = unat p + 16" "unat (p + bs) = unat p + unat bs"
      using block(4,5) unat_add_small [of p 16] unat_add_small [of p bs] by simp_all
    then have u: "unat (p + 16) \<le> unat (p + bs)" "unat ?sz \<le> unat (p + bs) - unat (p + 16)"
      using block(5) by simp_all
    have "p + 16 \<noteq> 0" "8 dvd unat (p + 16)"
      using w block(3) by (auto simp: word_unat_eq_iff)
    then have hd': "head_ok ?h ?r"
      using u(1) block(2) by (simp add: head_ok_def set_arena_def)
    have "unat (HPB_ALIGN_MALLOC ?sz) \<le> unat (a_end ?r) - unat (a_ptr ?r)"
      using u(2) al(4) by simp
    note fast = malloc_depth_fast [OF hd' r' al(3) this, of 0 mall]
    have "hpb_ArenaHas ?h a = Inr (p + bs - (p + 16))"
      by (simp only: hpb_ArenaHas_def arena_at_def r') simp
    moreover have "?sz \<le> p + bs - (p + 16)"
      unfolding word_le_nat_alt unat_sub_le [OF u(1)] by (rule u(2))
    ultimately have "hpb_Arena_Malloc mall a sz h = malloc_depth (Suc 0) mall a ?sz ?h"
      using block(1) by (simp add: slow hpb_Arena_SlowMalloc_def del: malloc_depth.simps)
    then show thesis
      using fast al(4) block that(3) [of p bs n] by (simp add: set_arena_def del: malloc_depth.simps)
  qed
qed

lemma layout_ok_calls: "layout_ok (h\<lparr>h_calls := n\<rparr>) allocs = layout_ok h allocs"
proof -
  have "piece_range (h\<lparr>h_calls := n\<rparr>) allocs p = piece_range h allocs p" for p
    by (cases p) simp_all
  then show ?thesis
    by (simp add: layout_ok_def pieces_apart_def space_def head_ok_def)
qed

lemma Malloc_result:
  assumes lay: "layout_ok h allocs" and mall: "malloc_ok mall" and r: "h_arenas h a = Some r"
    and alloc: "a_block_alloc r \<noteq> 1" and sz: "unat sz \<le> 2 ^ 63"
  shows "\<exists>p h'. hpb_Arena_Malloc mall a sz h = Inr (p, h') \<and> h_mem h' = h_mem h \<and>
    layout_ok h' (if p = 0 then allocs else allocs @ [(p, HPB_ALIGN_MALLOC sz)])"
proof -
  have hd: "head_ok h r"
    using lay r by (simp add: layout_ok_def)
  note al = align_malloc_facts [OF sz]
  from hd mall r alloc sz show ?thesis
  proof (cases rule: Malloc_cases)
    case fast
    then show ?thesis
      using take_layout [OF lay r fast(2) al(1)] hd by (simp add: head_ok_def set_arena_def)
  next
    case (none n)
    then show ?thesis
      using lay by (simp add: layout_ok_calls)
  next
    case (block p bs n)
    let ?r = "r\<lparr>a_blocks := p, a_ptr := p + 16, a_end := p + bs\<rparr>"
    let ?h = "set_arena a ?r (h\<lparr>h_calls := n, h_live := (p, bs) # h_live h,
        h_blocks := (h_blocks h)(p \<mapsto> \<lparr>b_next = a_blocks r, b_size = ucast bs\<rparr>)\<rparr>)"
    have lay': "layout_ok ?h allocs"
      using add_block_layout [OF lay r block(2-4) _ block(6)] block(5) by simp
    have r': "h_arenas ?h a = Some ?r"
      by (simp add: set_arena_def)
    have w: "unat (p + 16) = unat p + 16" "unat (p + bs) = unat p + unat bs"
      using block(4,5) unat_add_small [of p 16] unat_add_small [of p bs] by simp_all
    have "unat (HPB_ALIGN_MALLOC sz) \<le> unat (a_end ?r) - unat (a_ptr ?r)" "p + 16 \<noteq> 0"
      using block(5) w by (auto simp: word_unat_eq_iff)
    then show ?thesis
      using take_layout [OF lay' r' _ al(1)] block(1) by (simp add: set_arena_def)
  qed
qed

section \<open>Shrinking and growing the last allocation\<close>

text \<open>The end of an allocation that touches the free space can be moved.\<close>

lemma move_boundary:
  assumes lay: "layout_ok h allocs" and r: "h_arenas h a = Some r"
    and i: "i < length allocs" "allocs ! i = (ptr, old)" and last: "ptr + old = a_ptr r"
    and k: "unat k \<le> unat old + (unat (a_end r) - unat (a_ptr r))" "8 dvd unat k"
  shows "layout_ok (set_arena a (r\<lparr>a_ptr := ptr + k\<rparr>) h) (allocs[i := (ptr, k)])"
    (is "layout_ok ?h ?allocs")
proof -
  have hd: "a_ptr r \<noteq> 0" "8 dvd unat (a_ptr r)" "unat (a_ptr r) \<le> unat (a_end r)"
    using lay r by (auto simp: layout_ok_def head_ok_def)
  have al: "ptr \<noteq> 0" "8 dvd unat ptr" "8 dvd unat old" "unat ptr + unat old < 2 ^ 64"
    using lay i nth_mem [OF i(1)] by (auto simp: layout_ok_def)
  have up: "unat ptr + unat old = unat (a_ptr r)"
    using last al(4) unat_add_small by metis
  have u: "unat (ptr + k) = unat ptr + unat k"
    using k(1) hd(3) up unsigned_less [of "a_end r", where 'a = nat] by (intro unat_add_small) simp
  let ?F = "{FreeSpace a, Allocated i}" let ?own = "\<lambda>p. if p \<in> ?F then ?F else {p}"
  have range: "piece_range ?h ?allocs (Allocated i) = {unat ptr ..< unat ptr + unat k}"
    "piece_range ?h ?allocs (FreeSpace a) = {unat ptr + unat k ..< unat (a_end r)}"
    "piece_range h allocs (FreeSpace a) = {unat (a_ptr r) ..< unat (a_end r)}"
    "piece_range h allocs (Allocated i) = {unat ptr ..< unat (a_ptr r)}"
    using u r i up by (auto simp: range_of_def set_arena_def)
  have same: "piece_range ?h ?allocs p = piece_range h allocs p" if "p \<notin> ?F" for p
    using that r by (cases p) (auto simp: set_arena_def split: option.splits)
  have "pieces_apart ?h ?allocs"
  proof (rule pieces_apart_carve [where own = ?own and fresh = "{}" and F = "{}"])
    show "pieces_apart h allocs"
      using lay by (simp add: layout_ok_def)
    show "piece_range ?h ?allocs p \<subseteq> (\<Union>q \<in> ?own p. piece_range h allocs q) \<union> (if p \<in> {} then {} else {})" for p
    proof (cases "p \<in> ?F")
      case True
      moreover have "{unat ptr ..< unat (a_end r)} \<subseteq> (\<Union>q \<in> ?F. piece_range h allocs q)"
        using range up by auto
      moreover have "piece_range ?h ?allocs p \<subseteq> {unat ptr ..< unat (a_end r)}"
        using True range(1,2) k(1) up hd(3) by auto
      ultimately show ?thesis
        by auto
    qed (simp add: same)
    show "piece_range ?h ?allocs p \<inter> piece_range ?h ?allocs q = {}" if "p \<noteq> q" "?own p \<inter> ?own q \<noteq> {} \<or> p \<in> {} \<and> q \<in> {}" for p q
      using that range(1,2) by (auto split: if_splits)
  qed (simp_all add: space_def set_arena_def)
  moreover have "8 dvd unat ptr + unat k"
    using al(2) k(2) by (rule dvd_add)
  moreover have "ptr + k \<noteq> 0"
    using u al(1) by (metis add_eq_0_iff_both_eq_0 unat_0 unat_eq_0)
  moreover have e: "unat ptr + unat k \<le> unat (a_end r)" "unat (a_end r) < 2 ^ 64"
    using k(1) up hd(3) unsigned_less [of "a_end r", where 'a = nat] by simp_all
  moreover have "\<forall>(p, n) \<in> set ?allocs. p \<noteq> 0 \<and> 8 dvd unat p \<and> 8 dvd unat n \<and> unat p + unat n < 2 ^ 64"
    using lay al(1,2) k(2) e set_update_subset_insert [of allocs i "(ptr, k)"] by (auto simp: layout_ok_def)
  ultimately show ?thesis
    using lay u r by (auto simp: layout_ok_def head_ok_def set_arena_def)
qed

lemma layout_ok_shrink:
  assumes lay: "layout_ok h allocs" and i: "i < length allocs" "allocs ! i = (ptr, old)"
    and k: "unat k \<le> unat old" "8 dvd unat k"
  shows "layout_ok h (allocs[i := (ptr, k)])"
proof -
  have sub: "piece_range h (allocs[i := (ptr, k)]) p \<subseteq> piece_range h allocs p" for p
    using i k(1) by (cases p) (auto simp: range_of_def nth_list_update)
  have "pieces_apart h (allocs[i := (ptr, k)])"
    using lay sub unfolding layout_ok_def pieces_apart_def by blast
  moreover have "ptr \<noteq> 0" "8 dvd unat ptr" "unat ptr + unat old < 2 ^ 64"
    using lay i nth_mem [OF i(1)] by (auto simp: layout_ok_def)
  then have "\<forall>(p, n) \<in> set (allocs[i := (ptr, k)]). p \<noteq> 0 \<and> 8 dvd unat p \<and> 8 dvd unat n \<and> unat p + unat n < 2 ^ 64"
    using lay k set_update_subset_insert [of allocs i "(ptr, k)"] by (auto simp: layout_ok_def)
  ultimately show ?thesis
    using lay by (simp add: layout_ok_def)
qed

lemma mem_copy_simps:
  "h_mem (mem_copy dst src n h) x = (if x - dst < n then h_mem h (src + (x - dst)) else h_mem h x)"
  "layout_ok (mem_copy dst src n h) allocs = layout_ok h allocs"
proof -
  have "piece_range (mem_copy dst src n h) allocs p = piece_range h allocs p" for p
    by (cases p) (simp_all add: mem_copy_def)
  then show "layout_ok (mem_copy dst src n h) allocs = layout_ok h allocs"
    by (simp add: layout_ok_def pieces_apart_def space_def head_ok_def mem_copy_def)
qed (simp add: mem_copy_def)

text \<open>The bytes of two allocations are different bytes.\<close>

lemma layout_ok_apart: "layout_ok h allocs \<Longrightarrow> p \<noteq> q \<Longrightarrow> piece_range h allocs p \<inter> piece_range h allocs q = {}"
  by (simp add: layout_ok_def pieces_apart_def)

lemma allocated_apart:
  assumes "layout_ok h allocs" "i < length allocs" "j < length allocs" "i \<noteq> j" "unat x \<in> range_of (allocs ! i)"
  shows "unat x \<notin> range_of (allocs ! j)"
proof -
  have "piece_range h allocs (Allocated i) \<inter> piece_range h allocs (Allocated j) = {}"
    using assms(4) by (intro layout_ok_apart [OF assms(1)]) simp
  moreover have "piece_range h allocs (Allocated i) = range_of (allocs ! i)"
    "piece_range h allocs (Allocated j) = range_of (allocs ! j)"
    using assms(2,3) by simp_all
  ultimately show ?thesis
    using assms(5) by blast
qed

definition keeps_bytes :: "heap \<Rightarrow> heap \<Rightarrow> region list \<Rightarrow> bool" where
  "keeps_bytes h h' allocs \<longleftrightarrow> (\<forall>x. (\<exists>reg \<in> set allocs. unat x \<in> range_of reg) \<longrightarrow> h_mem h' x = h_mem h x)"

lemma sint_diff:
  fixes a b :: u64
  assumes "unat a < 2 ^ 63" "unat b < 2 ^ 63"
  shows "sint (a - b) = int (unat a) - int (unat b)"
proof -
  have "a - b = word_of_int (int (unat a) - int (unat b))"
    by (simp add: word_of_int_minus)
  then have "sint (a - b) = signed_take_bit 63 (int (unat a) - int (unat b))"
    by (simp only: sint_sbintrunc') simp
  also have "\<dots> = int (unat a) - int (unat b)"
  proof (rule signed_take_bit_int_eq_self)
    have "int (unat a) < 2 ^ 63" "int (unat b) < 2 ^ 63"
      using assms by (metis of_nat_less_iff of_nat_numeral of_nat_power)+
    then show "- (2 ^ 63) \<le> int (unat a) - int (unat b)" "int (unat a) - int (unat b) < 2 ^ 63"
      by linarith+
  qed
  finally show ?thesis .
qed

lemma sint_le_unat: "sint w \<le> int (unat w)" for w :: u64
  by (simp add: sint_uint signed_take_bit_int_less_eq_self_iff order_trans [of _ 0])

lemma Realloc_result:
  assumes lay: "layout_ok h allocs" and mall: "malloc_ok mall" and r: "h_arenas h a = Some r"
    and alloc: "a_block_alloc r \<noteq> 1" and i: "i < length allocs" "allocs ! i = (ptr, HPB_ALIGN_MALLOC old)"
    and sz: "unat old \<le> 2 ^ 62" "unat sz \<le> 2 ^ 62"
  shows "\<exists>p h'. hpb_Arena_Realloc mall a ptr old sz h = Inr (p, h') \<and> keeps_bytes h h' allocs \<and>
    (if p = 0 then layout_ok h' allocs
     else (\<forall>k. unat k < unat old \<longrightarrow> unat k < unat sz \<longrightarrow> h_mem h' (p + k) = h_mem h (ptr + k)) \<and>
       (layout_ok h' (allocs[i := (p, HPB_ALIGN_MALLOC sz)]) \<or> layout_ok h' (allocs @ [(p, HPB_ALIGN_MALLOC sz)])))"
proof -
  let ?old = "HPB_ALIGN_MALLOC old" and ?sz = "HPB_ALIGN_MALLOC sz"
  have hd: "unat (a_ptr r) \<le> unat (a_end r)"
    using lay r by (simp add: layout_ok_def head_ok_def)
  have al: "8 dvd unat ?sz" "unat sz \<le> unat ?sz" "unat old \<le> unat ?old" "HPB_ALIGN_MALLOC ?sz = ?sz" "ptr \<noteq> 0"
    and b: "unat ?sz \<le> 2 ^ 63" "unat ?old \<le> 2 ^ 63"
    using align_malloc_facts [of sz] align_malloc_facts [of old] sz lay i nth_mem [OF i(1)]
    by (auto simp: layout_ok_def)
  let ?recent = "ptr + ?old = a_ptr r" and ?diff = "?sz - ?old" and ?has = "a_end r - a_ptr r"
  consider (grow) "?recent" "sint ?diff \<le> sint ?has" | (stay) "\<not> ?recent" "?sz \<le> ?old"
    | (move) "\<not> (?recent \<and> sint ?diff \<le> sint ?has)" "\<not> (\<not> ?recent \<and> ?sz \<le> ?old)"
    by blast
  then show ?thesis
  proof cases
    case grow
    have eq: "a_ptr r + ?diff = ptr + ?sz"
      using grow(1) by (simp flip: grow(1))
    have "unat ?sz < 2 ^ 63" "unat ?old < 2 ^ 63"
      using sz unat_align_malloc [of sz] unat_align_malloc [of old] div_times_less_eq_dividend [of "unat sz + 7" 8]
        div_times_less_eq_dividend [of "unat old + 7" 8] by simp_all
    then have "int (unat ?sz) - int (unat ?old) \<le> int (unat ?has)"
      using grow(2) sint_diff sint_le_unat [of ?has] by simp
    then have "unat ?sz \<le> unat ?old + (unat (a_end r) - unat (a_ptr r))"
      unfolding unat_sub_le [OF hd] by linarith
    then have "layout_ok (set_arena a (r\<lparr>a_ptr := ptr + ?sz\<rparr>) h) (allocs[i := (ptr, ?sz)])"
      by (rule move_boundary [OF lay r i grow(1) _ al(1)])
    moreover have "hpb_Arena_Realloc mall a ptr old sz h = Inr (ptr, set_arena a (r\<lparr>a_ptr := ptr + ?sz\<rparr>) h)"
      using grow r unfolding eq [symmetric] by (simp add: hpb_Arena_Realloc_def arena_at_def Let_def)
    ultimately show ?thesis
      using al(5) by (simp add: keeps_bytes_def set_arena_def)
  next
    case stay
    have "layout_ok h (allocs[i := (ptr, ?sz)])"
      using layout_ok_shrink [OF lay i _ al(1)] stay(2) by (simp add: word_le_nat_alt)
    moreover have "hpb_Arena_Realloc mall a ptr old sz h = Inr (ptr, h)"
      using stay r by (simp add: hpb_Arena_Realloc_def arena_at_def Let_def)
    ultimately show ?thesis
      using al(5) by (simp add: keeps_bytes_def)
  next
    case move
    obtain p h' where p: "hpb_Arena_Malloc mall a ?sz h = Inr (p, h')" "h_mem h' = h_mem h"
      "layout_ok h' (if p = 0 then allocs else allocs @ [(p, ?sz)])"
      using Malloc_result [OF lay mall r alloc b(1)] unfolding al(4) by blast
    let ?h = "if p \<noteq> 0 \<and> ?old > 0 then mem_copy p ptr (min ?old ?sz) h' else h'"
    have "hpb_Arena_Realloc mall a ptr old sz h = Inr (p, ?h)"
      using move r p(1) by (auto simp: hpb_Arena_Realloc_def arena_at_def Let_def)
    moreover have "h_mem ?h (p + k) = h_mem h (ptr + k)" if "p \<noteq> 0" "unat k < unat old" "unat k < unat sz" for k
    proof -
      have "k < min ?old ?sz" "?old > 0"
        using that(2,3) al(2,3) by (auto simp: word_less_nat_alt min_def)
      then show ?thesis
        using that(1) p(2) by (simp add: mem_copy_simps)
    qed
    moreover have "h_mem ?h x = h_mem h x" if "reg \<in> set allocs" "unat x \<in> range_of reg" for reg x
    proof (cases "p \<noteq> 0 \<and> x - p < min ?old ?sz")
      case True
      then have lay': "layout_ok h' (allocs @ [(p, ?sz)])"
        using p(3) by simp
      have le: "unat (x - p) < unat ?sz"
        using True by (auto simp: word_less_nat_alt [symmetric])
      then have "unat (p + (x - p)) = unat p + unat (x - p)"
        using lay' by (intro unat_add_small) (auto simp: layout_ok_def)
      then have "unat x \<in> range_of ((allocs @ [(p, ?sz)]) ! length allocs)"
        using le by (simp add: range_of_def)
      moreover obtain j where "j < length allocs" "allocs ! j = reg"
        using \<open>reg \<in> set allocs\<close> by (metis in_set_conv_nth)
      ultimately show ?thesis
        using allocated_apart [OF lay', of "length allocs" j x] that(2) by (simp add: nth_append)
    qed (auto simp: mem_copy_simps p(2))
    moreover have "layout_ok ?h (if p = 0 then allocs else allocs @ [(p, ?sz)])"
      using p(3) by (auto simp: mem_copy_simps)
    ultimately show ?thesis
      unfolding keeps_bytes_def by (intro exI [of _ p] exI [of _ ?h]) (auto split: if_splits)
  qed
qed

end
