(* ===== verification/ArenaGroup.thy ===== *)
theory ArenaGroup
  imports ArenaAlloc
begin

text \<open>
  Fused arenas. The arenas that were fused form a group: a tree of parent pointers that leads to
  the root, which counts the references, and a list through \<open>next\<close> that starts at the root. The
  invariant describes the groups by the list of the members of each root.
\<close>

section \<open>Tagged words\<close>

lemma tagged_pointer: "hpb_Arena_IsTaggedPointer w \<longleftrightarrow> even (unat w)"
  by (simp add: hpb_Arena_IsTaggedPointer_def and_one_eq word_unat_eq_iff unat_mod_distrib even_iff_mod_2_eq_zero)

lemma tagged_refcount: "hpb_Arena_IsTaggedRefcount w \<longleftrightarrow> odd (unat w)"
proof -
  have "unat (w AND 1) = unat w mod 2"
    by (simp add: and_one_eq unat_mod_distrib)
  then show ?thesis
    by (auto simp: hpb_Arena_IsTaggedRefcount_def word_unat_eq_iff odd_iff_mod_2_eq_one)
qed

definition tagged_count :: "nat \<Rightarrow> u64" where
  "tagged_count c = of_nat (2 * c + 1)"

lemma unat_tagged_count: "c < 2 ^ 62 \<Longrightarrow> unat (tagged_count c) = 2 * c + 1"
  unfolding tagged_count_def by (subst unat_of_nat) simp

lemma TaggedFromRefcount:
  assumes "unat c < 2 ^ 62"
  shows "hpb_Arena_TaggedFromRefcount c = tagged_count (unat c)"
proof -
  have "push_bit 1 c = 2 * c"
    by (simp add: push_bit_eq_mult mult.commute)
  moreover have "2 * c OR 1 = 2 * c + 1"
  proof -
    have "even (2 * c)"
      by simp
    then show ?thesis
      by (metis even_or_iff or_one_eq even_plus_one_iff odd_one add.right_neutral of_bool_eq(2))
  qed
  ultimately show ?thesis
    unfolding hpb_Arena_TaggedFromRefcount_def tagged_count_def by (simp only: of_nat_add of_nat_mult) simp
qed

lemma RefCountFromTagged:
  assumes "c < 2 ^ 62"
  shows "hpb_Arena_RefCountFromTagged (tagged_count c) = Inr (of_nat c)"
proof -
  have "unat (drop_bit 1 (tagged_count c)) = c"
    using unat_tagged_count [OF assms] by (simp add: unat_drop_bit_div)
  then have "drop_bit 1 (tagged_count c) = of_nat c"
    by (metis word_of_nat_eq_iff unat_of_nat of_nat_unat ucast_id)
  then show ?thesis
    using unat_tagged_count [OF assms] by (simp add: hpb_Arena_RefCountFromTagged_def tagged_refcount)
qed

section \<open>Groups\<close>

fun list_links :: "heap \<Rightarrow> u64 list \<Rightarrow> bool" where
  "list_links h [] \<longleftrightarrow> True"
| "list_links h [a] \<longleftrightarrow> (\<exists>r. h_arenas h a = Some r \<and> a_next r = 0)"
| "list_links h (a # b # as) \<longleftrightarrow> (\<exists>r. h_arenas h a = Some r \<and> a_next r = b) \<and> list_links h (b # as)"

definition root_ok :: "u64 set \<Rightarrow> u64 list \<Rightarrow> hpb_Arena \<Rightarrow> bool" where
  "root_ok H as r \<longleftrightarrow> a_parent_or_count r = tagged_count (card (H \<inter> set as)) \<and> H \<inter> set as \<noteq> {} \<and> a_tail r = last as"

definition member_ok :: "heap \<Rightarrow> u64 set \<Rightarrow> u64 \<Rightarrow> u64 list \<Rightarrow> u64 \<Rightarrow> bool" where
  "member_ok h H root as a \<longleftrightarrow> a \<noteq> 0 \<and> 8 dvd unat a \<and> a \<in> set (h_ids h) \<and> (\<exists>r. h_arenas h a = Some r \<and>
     (if a = root then root_ok H as r
      else hpb_Arena_IsTaggedPointer (a_parent_or_count r) \<and> a_parent_or_count r \<in> set as \<and> a_parent_or_count r < a))"

definition group_ok :: "heap \<Rightarrow> u64 set \<Rightarrow> u64 \<Rightarrow> u64 list \<Rightarrow> bool" where
  "group_ok h H root as \<longleftrightarrow> as \<noteq> [] \<longrightarrow>
     hd as = root \<and> distinct as \<and> list_links h as \<and> (\<forall>a \<in> set as. member_ok h H root as a)"

text \<open>The members of the group of each root, and the handles that were not released.\<close>

definition groups_ok :: "heap \<Rightarrow> u64 set \<Rightarrow> (u64 \<Rightarrow> u64 list) \<Rightarrow> bool" where
  "groups_ok h H G \<longleftrightarrow> (\<forall>root. group_ok h H root (G root)) \<and>
     (\<forall>r1 r2. r1 \<noteq> r2 \<longrightarrow> set (G r1) \<inter> set (G r2) = {}) \<and> H \<subseteq> (\<Union>root. set (G root))"

section \<open>Bounds\<close>

lemma aligned_card:
  assumes "finite S" "\<forall>a \<in> S. 8 dvd unat (a :: u64)"
  shows "card S \<le> 2 ^ 61"
proof -
  have "inj_on (\<lambda>a. unat a div 8) S"
    using assms(2) by (intro inj_onI) (metis dvd_div_mult_self word_unat_eq_iff)
  moreover have "(\<lambda>a. unat a div 8) ` S \<subseteq> {..< 2 ^ 61}"
    using unsigned_less [where 'a = nat and 'b = 64] by (auto simp: less_mult_imp_div_less)
  ultimately have "card S \<le> card {..< 2 ^ 61 :: nat}"
    by (intro card_inj_on_le) auto
  then show ?thesis
    by simp
qed

lemma groups_ok_card:
  assumes "groups_ok h H G"
  shows "card (H \<inter> set (G root)) \<le> 2 ^ 61"
proof (rule aligned_card)
  have "group_ok h H root (G root)"
    using assms by (simp add: groups_ok_def)
  then show "\<forall>a \<in> H \<inter> set (G root). 8 dvd unat a"
    by (cases "G root") (auto simp: group_ok_def member_ok_def)
qed simp

lemma member_facts:
  assumes "groups_ok h H G" "a \<in> set (G root)"
  obtains r where "h_arenas h a = Some r" "a \<noteq> 0" "a \<in> set (h_ids h)" "8 dvd unat a"
    "a = root \<Longrightarrow> root_ok H (G root) r"
    "a \<noteq> root \<Longrightarrow> hpb_Arena_IsTaggedPointer (a_parent_or_count r) \<and> a_parent_or_count r \<in> set (G root) \<and> a_parent_or_count r < a"
proof -
  have "group_ok h H root (G root)" "G root \<noteq> []"
    using assms by (auto simp: groups_ok_def)
  then have "member_ok h H root (G root) a"
    using assms(2) by (simp add: group_ok_def)
  then show thesis
    using that by (auto simp: member_ok_def split: if_splits)
qed

lemma root_facts:
  assumes "groups_ok h H G" "G root \<noteq> []"
  obtains r where "h_arenas h root = Some r" "root \<in> set (G root)" "root_ok H (G root) r" "root \<noteq> 0" "8 dvd unat root"
    "\<not> hpb_Arena_IsTaggedPointer (a_parent_or_count r)"
proof -
  have "hd (G root) = root"
    using assms by (auto simp: groups_ok_def group_ok_def)
  then have m: "root \<in> set (G root)"
    using assms(2) by (metis hd_in_set)
  obtain r where r: "h_arenas h root = Some r" "root_ok H (G root) r" "root \<noteq> 0" "8 dvd unat root"
    using member_facts [OF assms(1) m] by metis
  moreover have "card (H \<inter> set (G root)) < 2 ^ 62"
    using groups_ok_card [OF assms(1), of root] by simp
  then have "\<not> hpb_Arena_IsTaggedPointer (a_parent_or_count r)"
    using r(2) by (simp add: root_ok_def tagged_pointer unat_tagged_count)
  ultimately show thesis
    using m that by blast
qed

section \<open>Finding the root\<close>

text \<open>Path splitting changes only pointers to parents.\<close>

definition repointed :: "heap \<Rightarrow> heap \<Rightarrow> bool" where
  "repointed h h' \<longleftrightarrow> (\<exists>f. h' = h\<lparr>h_arenas := f\<rparr> \<and>
     (\<forall>a. case h_arenas h a of None \<Rightarrow> f a = None
        | Some r \<Rightarrow> if hpb_Arena_IsTaggedPointer (a_parent_or_count r)
                    then \<exists>p. hpb_Arena_IsTaggedPointer p \<and> f a = Some (r\<lparr>a_parent_or_count := p\<rparr>) else f a = Some r))"

lemma repointed_refl: "repointed h h"
  unfolding repointed_def
  by (rule exI [of _ "h_arenas h"]) (auto split: option.splits intro!: exI [of _ "a_parent_or_count _"])

lemma repointed_trans:
  assumes "repointed h h'" "repointed h' h''"
  shows "repointed h h''"
proof -
  obtain f g where f: "h' = h\<lparr>h_arenas := f\<rparr>" "\<And>a. case h_arenas h a of None \<Rightarrow> f a = None
        | Some r \<Rightarrow> if hpb_Arena_IsTaggedPointer (a_parent_or_count r)
                    then \<exists>p. hpb_Arena_IsTaggedPointer p \<and> f a = Some (r\<lparr>a_parent_or_count := p\<rparr>) else f a = Some r"
    and g: "h'' = h'\<lparr>h_arenas := g\<rparr>" "\<And>a. case h_arenas h' a of None \<Rightarrow> g a = None
        | Some r \<Rightarrow> if hpb_Arena_IsTaggedPointer (a_parent_or_count r)
                    then \<exists>p. hpb_Arena_IsTaggedPointer p \<and> g a = Some (r\<lparr>a_parent_or_count := p\<rparr>) else g a = Some r"
    using assms unfolding repointed_def by blast
  have "case h_arenas h a of None \<Rightarrow> g a = None
        | Some r \<Rightarrow> if hpb_Arena_IsTaggedPointer (a_parent_or_count r)
                    then \<exists>p. hpb_Arena_IsTaggedPointer p \<and> g a = Some (r\<lparr>a_parent_or_count := p\<rparr>) else g a = Some r" for a
    using f(2) [of a] g(2) [of a] by (auto simp: f(1) split: option.splits if_splits)
  then show ?thesis
    unfolding repointed_def f(1) g(1) by (intro exI [of _ g]) simp
qed

lemma list_links_cong:
  "(\<And>a. a \<in> set as \<Longrightarrow> map_option a_next (h_arenas h' a) = map_option a_next (h_arenas h a)) \<Longrightarrow>
   list_links h' as \<longleftrightarrow> list_links h as"
proof (induction as rule: list_links.induct [where ?a0.0 = h])
  case (2 h a)
  then show ?case
    by (auto dest!: meta_spec [of _ a] simp: map_option_case split: option.splits)
next
  case (3 h a b as)
  then have "map_option a_next (h_arenas h' a) = map_option a_next (h_arenas h a)"
    by simp
  then have "(\<exists>r. h_arenas h' a = Some r \<and> a_next r = b) \<longleftrightarrow> (\<exists>r. h_arenas h a = Some r \<and> a_next r = b)"
    by (cases "h_arenas h' a"; cases "h_arenas h a") auto
  then show ?case
    using 3 by simp
qed simp

lemma repoint_groups:
  assumes ok: "groups_ok h H G" and a: "a \<in> set (G root)" "a \<noteq> root" "h_arenas h a = Some r"
    and p: "hpb_Arena_IsTaggedPointer p" "p \<in> set (G root)" "p < a"
  shows "groups_ok (set_arena a (r\<lparr>a_parent_or_count := p\<rparr>) h) H G" (is "groups_ok ?h H G")
proof -
  have links: "list_links ?h as \<longleftrightarrow> list_links h as" for as
    using a(3) by (intro list_links_cong) (simp add: set_arena_def)
  have m: "member_ok ?h H R (G R) b" if "member_ok h H R (G R) b" "b \<in> set (G R)" for R b
  proof (cases "b = a")
    case True
    moreover have "R = root"
      using True that(2) a(1) ok by (auto simp: groups_ok_def)
    ultimately show ?thesis
      using that(1) a p by (simp add: member_ok_def set_arena_def)
  next
    case False
    then show ?thesis
      using that(1) by (simp add: member_ok_def set_arena_def)
  qed
  have "group_ok ?h H R (G R)" for R
  proof -
    have "group_ok h H R (G R)"
      using ok by (simp add: groups_ok_def)
    then show ?thesis
      using m [of R] by (simp add: group_ok_def links)
  qed
  then show ?thesis
    using ok by (simp add: groups_ok_def)
qed

lemma repoint_repointed:
  assumes "h_arenas h a = Some r" "hpb_Arena_IsTaggedPointer (a_parent_or_count r)" "hpb_Arena_IsTaggedPointer p"
  shows "repointed h (set_arena a (r\<lparr>a_parent_or_count := p\<rparr>) h)"
proof -
  let ?f = "(h_arenas h)(a \<mapsto> r\<lparr>a_parent_or_count := p\<rparr>)"
  have "case h_arenas h x of None \<Rightarrow> ?f x = None
        | Some r \<Rightarrow> if hpb_Arena_IsTaggedPointer (a_parent_or_count r)
                    then \<exists>p. hpb_Arena_IsTaggedPointer p \<and> ?f x = Some (r\<lparr>a_parent_or_count := p\<rparr>) else ?f x = Some r" for x
  proof (cases "x = a")
    case True
    then show ?thesis
      using assms by auto
  next
    case False
    show ?thesis
    proof (cases "h_arenas h x")
      case (Some y)
      then have "?f x = Some (y\<lparr>a_parent_or_count := a_parent_or_count y\<rparr>)"
        using False by simp
      then show ?thesis
        using Some False by (auto simp del: fun_upd_apply intro: exI [of _ "a_parent_or_count y"])
    qed (simp add: False)
  qed
  then show ?thesis
    unfolding repointed_def set_arena_def by blast
qed

text \<open>The members below an address bound the length of the way to the root.\<close>

definition below :: "heap \<Rightarrow> u64 \<Rightarrow> nat" where
  "below h a = card {b \<in> set (h_ids h). b < a}"

lemma below_less:
  assumes "p < a" "p \<in> set (h_ids h)"
  shows "below h p < below h a"
  unfolding below_def by (rule psubset_card_mono) (use assms in auto)

lemma below_bound: "below h a < arena_bound h"
proof -
  have "below h a \<le> card (set (h_ids h))"
    unfolding below_def by (rule card_mono) auto
  also have "\<dots> \<le> length (h_ids h)"
    by (rule card_length)
  finally show ?thesis
    by (simp add: arena_bound_def)
qed

lemma find_root_loop_correct:
  "groups_ok h H G \<Longrightarrow> a \<in> set (G root) \<Longrightarrow> h_arenas h a = Some r \<Longrightarrow> below h a < n \<Longrightarrow>
   \<exists>h' rr. find_root_loop n h a (a_parent_or_count r) = Inr (h', root, a_parent_or_count rr) \<and>
     groups_ok h' H G \<and> repointed h h' \<and> h_arenas h' root = Some rr"
proof (induction n arbitrary: h a r)
  case (Suc n)
  note ok = Suc.prems(1)
  show ?case
  proof (cases "a = root")
    case True
    have "G root \<noteq> []"
      using Suc.prems(2) by auto
    then have "\<not> hpb_Arena_IsTaggedPointer (a_parent_or_count r)"
      using root_facts [OF ok] Suc.prems(3) True by (metis option.inject)
    then show ?thesis
      using True Suc.prems repointed_refl by (intro exI [of _ h] exI [of _ r]) simp
  next
    case False
    let ?p = "a_parent_or_count r"
    have p: "hpb_Arena_IsTaggedPointer ?p" "?p \<in> set (G root)" "?p < a"
      using member_facts [OF ok Suc.prems(2)] Suc.prems(3) False by (metis option.inject)+
    obtain rp where rp: "h_arenas h ?p = Some rp" "?p \<in> set (h_ids h)"
      "?p \<noteq> root \<Longrightarrow> hpb_Arena_IsTaggedPointer (a_parent_or_count rp) \<and> a_parent_or_count rp \<in> set (G root) \<and> a_parent_or_count rp < ?p"
      using member_facts [OF ok p(2)] by metis
    have n: "below h ?p < n"
      using below_less [OF p(3) rp(2)] Suc.prems(4) by simp
    show ?thesis
    proof (cases "hpb_Arena_IsTaggedPointer (a_parent_or_count rp)")
      case split: True
      have "?p \<noteq> root"
        using root_facts [OF ok, of root] rp(1) split p(2) by (metis empty_iff empty_set option.inject)
      then have pp: "a_parent_or_count rp \<in> set (G root)" "a_parent_or_count rp < ?p"
        using rp(3) by auto
      let ?h = "set_arena a (r\<lparr>a_parent_or_count := a_parent_or_count rp\<rparr>) h"
      have ok': "groups_ok ?h H G"
        using repoint_groups [OF ok Suc.prems(2) False Suc.prems(3) split pp(1)] pp(2) p(3) by simp
      have step: "repointed h ?h"
        using repoint_repointed [OF Suc.prems(3) p(1) split] .
      have "h_arenas ?h ?p = Some rp" "below ?h ?p < n"
        using rp(1) p(3) n by (auto simp: set_arena_def below_def)
      then obtain h' rr where h': "find_root_loop n ?h ?p (a_parent_or_count rp) = Inr (h', root, a_parent_or_count rr)"
        "groups_ok h' H G" "repointed ?h h'" "h_arenas h' root = Some rr"
        using Suc.IH [OF ok' p(2)] by blast
      moreover have "find_root_loop (Suc n) h a ?p = find_root_loop n ?h ?p (a_parent_or_count rp)"
        using p(1,3) split rp(1) pp(2) Suc.prems(3) by (auto simp: arena_at_def Let_def)
      ultimately show ?thesis
        using repointed_trans [OF step] by metis
    next
      case stop: False
      have "find_root_loop (Suc n) h a ?p = find_root_loop n h ?p (a_parent_or_count rp)"
        using p(1,3) stop rp(1) by (auto simp: arena_at_def Let_def)
      then show ?thesis
        using Suc.IH [OF ok p(2) rp(1) n] by simp
    qed
  qed
qed simp

lemma FindRoot_correct:
  assumes "groups_ok h H G" "a \<in> set (G root)"
  shows "\<exists>h' rr. hpb_Arena_FindRoot h a = Inr (h', root, a_parent_or_count rr) \<and>
     groups_ok h' H G \<and> repointed h h' \<and> h_arenas h' root = Some rr"
proof -
  obtain r where r: "h_arenas h a = Some r"
    using member_facts [OF assms] by metis
  show ?thesis
    using find_root_loop_correct [OF assms r below_bound] r by (simp add: hpb_Arena_FindRoot_def arena_at_def)
qed

lemma walk_up_correct:
  "groups_ok h H G \<Longrightarrow> a \<in> set (G root) \<Longrightarrow> h_arenas h a = Some r \<Longrightarrow> below h a < n \<Longrightarrow>
   \<exists>rr. walk_up n h a (a_parent_or_count r) = Inr (root, a_parent_or_count rr) \<and> h_arenas h root = Some rr"
proof (induction n arbitrary: a r)
  case (Suc n)
  note ok = Suc.prems(1)
  show ?case
  proof (cases "a = root")
    case True
    have "G root \<noteq> []"
      using Suc.prems(2) by auto
    then have "\<not> hpb_Arena_IsTaggedPointer (a_parent_or_count r)"
      using root_facts [OF ok] Suc.prems(3) True by (metis option.inject)
    then show ?thesis
      using True Suc.prems by simp
  next
    case False
    let ?p = "a_parent_or_count r"
    have p: "hpb_Arena_IsTaggedPointer ?p" "?p \<in> set (G root)" "?p < a"
      using member_facts [OF ok Suc.prems(2)] Suc.prems(3) False by (metis option.inject)+
    obtain rp where rp: "h_arenas h ?p = Some rp" "?p \<in> set (h_ids h)"
      using member_facts [OF ok p(2)] by metis
    have "below h ?p < n"
      using below_less [OF p(3) rp(2)] Suc.prems(4) by simp
    then show ?thesis
      using Suc.IH [OF ok p(2) rp(1)] p(1) rp(1) by (simp add: arena_at_def)
  qed
qed simp

end
