(* ===== verification/ArenaFuse.thy ===== *)
theory ArenaFuse
  imports ArenaGroup
begin

section \<open>Joining two groups\<close>

lemma list_links_last:
  "list_links h as \<Longrightarrow> as \<noteq> [] \<Longrightarrow> \<exists>r. h_arenas h (last as) = Some r \<and> a_next r = 0"
  by (induction as rule: list_links.induct [where ?a0.0 = h]) auto

lemma list_links_mem: "list_links h as \<Longrightarrow> a \<in> set as \<Longrightarrow> \<exists>r. h_arenas h a = Some r"
  by (induction as rule: list_links.induct [where ?a0.0 = h]) auto

lemma list_links_append:
  assumes "list_links h as" "list_links h bs" "as \<noteq> []" "bs \<noteq> []" "distinct (as @ bs)"
    and upd: "\<And>a r. a \<in> set (as @ bs) \<Longrightarrow> h_arenas h a = Some r \<Longrightarrow>
      \<exists>r'. h_arenas h' a = Some r' \<and> a_next r' = (if a = last as then hd bs else a_next r)"
  shows "list_links h' (as @ bs)"
proof -
  have bs: "list_links h' bs"
  proof -
    have "map_option a_next (h_arenas h' b) = map_option a_next (h_arenas h b)" if "b \<in> set bs" for b
    proof -
      have "b \<noteq> last as"
        using that last_in_set [OF assms(3)] assms(5) unfolding distinct_append by blast
      moreover obtain r where "h_arenas h b = Some r"
        using list_links_mem [OF assms(2) \<open>b \<in> set bs\<close>] by blast
      ultimately show ?thesis
        using upd [of b r] that by auto
    qed
    then show ?thesis
      using list_links_cong [of bs h' h] assms(2) by blast
  qed
  show ?thesis
    using assms(1,3,5) upd
  proof (induction as rule: list_links.induct [where ?a0.0 = h])
    case (2 h a)
    then obtain r' where "h_arenas h' a = Some r'" "a_next r' = hd bs"
      by force
    then show ?case
      using bs assms(4) by (cases bs) auto
  next
    case (3 h a b as)
    then have "list_links h' ((b # as) @ bs)"
      by auto
    moreover have "a \<noteq> last (a # b # as)"
      using 3(4) last_in_set [of "b # as"] by (auto simp del: last.simps simp: last_ConsR)
    then obtain r' where "h_arenas h' a = Some r'" "a_next r' = b"
      using 3(2) 3(5) [of a] by auto
    ultimately show ?case
      by simp
  qed simp
qed

definition joined :: "(u64 \<Rightarrow> u64 list) \<Rightarrow> u64 \<Rightarrow> u64 \<Rightarrow> u64 \<Rightarrow> u64 list" where
  "joined G r1 r2 = G(r1 := G r1 @ G r2, r2 := [])"

lemma joined_members:
  assumes "r1 \<noteq> r2"
  shows "(\<Union>R. set (joined G r1 r2 R)) = (\<Union>R. set (G R))"
proof
  show "(\<Union>R. set (G R)) \<subseteq> (\<Union>R. set (joined G r1 r2 R))"
  proof
    fix x
    assume "x \<in> (\<Union>R. set (G R))"
    then obtain R where "x \<in> set (G R)"
      by blast
    then have "x \<in> set (joined G r1 r2 (if R = r2 then r1 else R))"
      using assms by (auto simp: joined_def)
    then show "x \<in> (\<Union>R. set (joined G r1 r2 R))"
      by blast
  qed
qed (auto simp: joined_def split: if_splits)

definition join_arena :: "u64 \<Rightarrow> u64 \<Rightarrow> u64 \<Rightarrow> u64 \<Rightarrow> u64 \<Rightarrow> u64 \<Rightarrow> hpb_Arena \<Rightarrow> hpb_Arena" where
  "join_arena r1 r2 poc tl1 tl2 x r =
     r\<lparr>a_parent_or_count := if x = r1 then poc else if x = r2 then r1 else a_parent_or_count r,
       a_next := if x = tl1 then r2 else a_next r, a_tail := if x = r1 then tl2 else a_tail r\<rparr>"

lemma join_groups:
  assumes ok: "groups_ok h H G" and ne: "G r1 \<noteq> []" "G r2 \<noteq> []" and less: "r1 < r2"
    and h': "h_ids h' = h_ids h" "\<And>x. h_arenas h' x = map_option
      (join_arena r1 r2 (tagged_count (card (H \<inter> set (G r1 @ G r2)))) (last (G r1)) (last (G r2)) x) (h_arenas h x)"
  shows "groups_ok h' H (joined G r1 r2)"
proof -
  have grp: "group_ok h H R (G R)" for R
    using ok by (simp add: groups_ok_def)
  have dist: "set (G R) \<inter> set (G R') = {}" if "R \<noteq> R'" for R R'
    using ok that by (simp add: groups_ok_def)
  have d12: "set (G r1) \<inter> set (G r2) = {}"
    using dist less by simp
  have "hd (G r1) = r1" "hd (G r2) = r2"
    using grp [of r1] grp [of r2] ne by (auto simp: group_ok_def)
  then have r2: "r2 \<in> set (G r2)" "r1 \<in> set (G r1)" "hd (G r1) = r1" "hd (G r2) = r2"
    using hd_in_set [OF ne(1)] hd_in_set [OF ne(2)] by simp_all
  have other: "x \<noteq> r1" "x \<noteq> r2" "x \<noteq> last (G r1)" if "x \<in> set (G R)" "R \<noteq> r1" "R \<noteq> r2" for x R
    using that dist [of R r1] dist [of R r2] r2 last_in_set [OF ne(1)] by auto
  have "group_ok h' H R (joined G r1 r2 R)" for R
  proof (cases "R = r1 \<or> R = r2")
    case True
    have "group_ok h' H r1 (G r1 @ G r2)"
    proof -
      have links: "list_links h' (G r1 @ G r2)"
      proof (rule list_links_append)
        show "list_links h (G r1)" "list_links h (G r2)" "distinct (G r1 @ G r2)"
          using grp [of r1] grp [of r2] ne d12 by (auto simp: group_ok_def)
        show "\<exists>r'. h_arenas h' a = Some r' \<and> a_next r' = (if a = last (G r1) then hd (G r2) else a_next r)"
          if "h_arenas h a = Some r" for a r
          using that h'(2) [of a] r2(4) by (simp add: join_arena_def)
      qed (use ne in auto)
      have mem: "member_ok h' H r1 (G r1 @ G r2) a" if a: "a \<in> set (G R)" and R: "R = r1 \<or> R = r2" for a R
      proof -
        obtain r where r: "h_arenas h a = Some r" "a \<noteq> 0" "a \<in> set (h_ids h)" "8 dvd unat a"
          "a = R \<Longrightarrow> root_ok H (G R) r"
          "a \<noteq> R \<Longrightarrow> hpb_Arena_IsTaggedPointer (a_parent_or_count r) \<and> a_parent_or_count r \<in> set (G R) \<and> a_parent_or_count r < a"
          using member_facts [OF ok a] by metis
        have "hpb_Arena_IsTaggedPointer r1"
          using root_facts [OF ok ne(1)] by (metis dvd_trans even_numeral tagged_pointer dvd_triv_left numeral_eq_iff
              even_mult_iff evenE dvd_def)
        moreover have "H \<inter> set (G r1) \<noteq> {}"
          using root_facts [OF ok ne(1)] by (metis root_ok_def)
        ultimately show ?thesis
          using r a R r2 less d12 ne h'(1) h'(2) [of a]
          by (auto simp: member_ok_def join_arena_def root_ok_def Int_Un_distrib)
      qed
      show ?thesis
        using links mem [of _ r1] mem [of _ r2] grp [of r1] grp [of r2] ne d12 r2(3)
        by (auto simp: group_ok_def)
    qed
    then show ?thesis
      using True less by (auto simp: joined_def group_ok_def)
  next
    case False
    have "list_links h' (G R) \<longleftrightarrow> list_links h (G R)"
      using other(3) False h'(2) by (intro list_links_cong) (auto simp: join_arena_def option.map_comp comp_def intro!: option.map_cong)
    moreover have "member_ok h' H R (G R) a" if "a \<in> set (G R)" "member_ok h H R (G R) a" for a
      using that(2) other [OF that(1)] False h'(1) h'(2) [of a] by (auto simp: member_ok_def join_arena_def root_ok_def)
    ultimately show ?thesis
      using grp [of R] False by (simp add: group_ok_def joined_def)
  qed
  moreover have "set (joined G r1 r2 R) \<inter> set (joined G r1 r2 R') = {}" if "R \<noteq> R'" for R R'
    using that dist [of R R'] dist [of R r2] dist [of R' r2] dist [of R r1] dist [of R' r1] by (auto simp: joined_def)
  moreover have "(\<Union>R. set (joined G r1 r2 R)) = (\<Union>R. set (G R))"
    using less by (intro joined_members) simp
  ultimately show ?thesis
    using ok by (simp add: groups_ok_def)
qed

section \<open>The allocation part of an arena\<close>

definition alloc_part :: "hpb_Arena \<Rightarrow> u64 \<times> u64 \<times> u64 \<times> u64" where
  "alloc_part r = (a_ptr r, a_end r, a_block_alloc r, a_blocks r)"

definition relinked :: "heap \<Rightarrow> heap \<Rightarrow> bool" where
  "relinked h h' \<longleftrightarrow> (\<exists>f. h' = h\<lparr>h_arenas := f\<rparr> \<and>
     (\<forall>a. map_option alloc_part (f a) = map_option alloc_part (h_arenas h a)))"

lemma relinked_refl: "relinked h h"
  unfolding relinked_def by (rule exI [of _ "h_arenas h"]) simp

lemma relinked_trans:
  assumes "relinked h h'" "relinked h' h''"
  shows "relinked h h''"
proof -
  obtain f g where "h' = h\<lparr>h_arenas := f\<rparr>" "\<forall>a. map_option alloc_part (f a) = map_option alloc_part (h_arenas h a)"
    "h'' = h'\<lparr>h_arenas := g\<rparr>" "\<forall>a. map_option alloc_part (g a) = map_option alloc_part (h_arenas h' a)"
    using assms unfolding relinked_def by blast
  then show ?thesis
    unfolding relinked_def by (intro exI [of _ g]) simp
qed

lemma relinked_set:
  assumes "h_arenas h a = Some r" "alloc_part r' = alloc_part r"
  shows "relinked h (set_arena a r' h)"
  unfolding relinked_def set_arena_def
  by (rule exI [of _ "(h_arenas h)(a \<mapsto> r')"]) (use assms in simp)

lemma repointed_relinked:
  assumes "repointed h h'"
  shows "relinked h h'"
proof -
  obtain f where f: "h' = h\<lparr>h_arenas := f\<rparr>" "\<And>a. case h_arenas h a of None \<Rightarrow> f a = None
        | Some r \<Rightarrow> if hpb_Arena_IsTaggedPointer (a_parent_or_count r)
                    then \<exists>p. hpb_Arena_IsTaggedPointer p \<and> f a = Some (r\<lparr>a_parent_or_count := p\<rparr>) else f a = Some r"
    using assms unfolding repointed_def by blast
  have "map_option alloc_part (f a) = map_option alloc_part (h_arenas h a)" for a
    using f(2) [of a] by (auto simp: alloc_part_def split: option.splits if_splits)
  then show ?thesis
    unfolding relinked_def f(1) by blast
qed

section \<open>Fusing\<close>

lemma and_not_one: "(x AND NOT 1) + (x AND 1) = x" for x :: u64
proof -
  have "(x AND NOT 1) AND (x AND 1) = 0"
    by (rule bit_eqI) (auto simp: bit_simps)
  then have "(x AND NOT 1) + (x AND 1) = (x AND NOT 1) OR (x AND 1)"
    by (rule disjunctive_add_eq_or)
  also have "\<dots> = x"
    by (rule bit_eqI) (auto simp: bit_simps)
  finally show ?thesis .
qed

lemma tagged_count_add: "c2 < 2 ^ 62 \<Longrightarrow> tagged_count c1 + (tagged_count c2 AND NOT 1) = tagged_count (c1 + c2)"
proof -
  assume "c2 < 2 ^ 62"
  then have "tagged_count c2 AND 1 = 1"
    using tagged_refcount [of "tagged_count c2"] unat_tagged_count by (simp add: hpb_Arena_IsTaggedRefcount_def)
  then have "(tagged_count c2 AND NOT 1) + 1 = tagged_count c2"
    using and_not_one [of "tagged_count c2"] by simp
  then have "tagged_count c2 AND NOT 1 = tagged_count c2 - 1"
    by (simp add: eq_diff_eq)
  then show ?thesis
    by (simp add: tagged_count_def algebra_simps)
qed

lemma DoFuseArenaLists_eq:
  assumes "h_arenas h r1 = Some x1" "h_arenas h (a_tail x1) = Some xt" "a_next xt = 0"
    "h_arenas h r2 = Some x2" "r2 \<noteq> a_tail x1"
  shows "\<exists>y. h_arenas (set_arena (a_tail x1) (xt\<lparr>a_next := r2\<rparr>) h) r1 = Some y \<and>
    hpb_Arena_DoFuseArenaLists r1 r2 h = Inr (set_arena r1 (y\<lparr>a_tail := a_tail x2\<rparr>) (set_arena (a_tail x1) (xt\<lparr>a_next := r2\<rparr>) h))"
  using assms by (auto simp: hpb_Arena_DoFuseArenaLists_def arena_at_def arena_bound_def set_arena_def Let_def)

lemma join_heap:
  assumes ok: "groups_ok h H G" and ne: "G r1 \<noteq> []" "G r2 \<noteq> []" and less: "r1 < r2"
    and x: "h_arenas h r1 = Some x1" "h_arenas h r2 = Some x2"
  shows "\<exists>h'. fuse_roots r1 (a_parent_or_count x1) r2 (a_parent_or_count x2) d h = Inr (Some r1, d, h') \<and>
    groups_ok h' H (joined G r1 r2) \<and> relinked h h'"
proof -
  have r1: "root_ok H (G r1) x1" "8 dvd unat r1" "r1 \<in> set (G r1)"
    using root_facts [OF ok ne(1)] x(1) by (metis option.inject)+
  have r2: "root_ok H (G r2) x2" "r2 \<in> set (G r2)"
    using root_facts [OF ok ne(2)] x(2) by (metis option.inject)+
  have disj: "set (G r1) \<inter> set (G r2) = {}"
    using ok less by (simp add: groups_ok_def)
  let ?c1 = "card (H \<inter> set (G r1))" and ?c2 = "card (H \<inter> set (G r2))"
  have "(H \<inter> set (G r1)) \<inter> (H \<inter> set (G r2)) = {}"
    using disj by blast
  then have c: "?c2 < 2 ^ 62" "card (H \<inter> set (G r1 @ G r2)) = ?c1 + ?c2"
    using groups_ok_card [OF ok, of r2] by (simp_all add: Int_Un_distrib card_Un_disjoint)
  have poc: "a_parent_or_count x1 + (a_parent_or_count x2 AND NOT 1) = tagged_count (card (H \<inter> set (G r1 @ G r2)))"
    using r1(1) r2(1) tagged_count_add [OF c(1)] c(2) by (simp add: root_ok_def)
  have "list_links h (G r1)"
    using ok ne(1) by (auto simp: groups_ok_def group_ok_def)
  then obtain xt where xt: "h_arenas h (last (G r1)) = Some xt" "a_next xt = 0"
    using list_links_last ne(1) by blast
  have tl: "a_tail x1 = last (G r1)" "a_tail x2 = last (G r2)" "last (G r1) \<noteq> r2" "r1 \<noteq> r2"
    using r1(1) r2 last_in_set [OF ne(1)] disj less by (auto simp: root_ok_def)
  have tag: "hpb_Arena_TaggedFromPointer r1 = Inr r1"
    using r1(2) by (auto simp: hpb_Arena_TaggedFromPointer_def tagged_pointer elim!: dvdE)
  let ?poc = "tagged_count (card (H \<inter> set (G r1 @ G r2)))"
  let ?h1 = "set_arena r1 (x1\<lparr>a_parent_or_count := ?poc\<rparr>) h"
  let ?h2 = "set_arena r2 (x2\<lparr>a_parent_or_count := r1\<rparr>) ?h1"
  obtain xt' where xt': "h_arenas ?h2 (last (G r1)) = Some xt'" "a_next xt' = 0"
    using xt x(1) tl(3) by (cases "last (G r1) = r1") (auto simp: set_arena_def)
  have "h_arenas ?h2 r1 = Some (x1\<lparr>a_parent_or_count := ?poc\<rparr>)" "h_arenas ?h2 r2 = Some (x2\<lparr>a_parent_or_count := r1\<rparr>)"
    using tl(4) by (simp_all add: set_arena_def)
  then obtain y where y: "h_arenas (set_arena (last (G r1)) (xt'\<lparr>a_next := r2\<rparr>) ?h2) r1 = Some y"
    "hpb_Arena_DoFuseArenaLists r1 r2 ?h2 =
       Inr (set_arena r1 (y\<lparr>a_tail := last (G r2)\<rparr>) (set_arena (last (G r1)) (xt'\<lparr>a_next := r2\<rparr>) ?h2))"
    using DoFuseArenaLists_eq [of ?h2 r1 "x1\<lparr>a_parent_or_count := ?poc\<rparr>" xt' r2 "x2\<lparr>a_parent_or_count := r1\<rparr>"] xt' tl
    by auto
  let ?h = "set_arena r1 (y\<lparr>a_tail := last (G r2)\<rparr>) (set_arena (last (G r1)) (xt'\<lparr>a_next := r2\<rparr>) ?h2)"
  have "h_arenas ?h z = map_option (join_arena r1 r2 ?poc (last (G r1)) (last (G r2)) z) (h_arenas h z)" for z
  proof (cases "z = r1 \<or> z = r2 \<or> z = last (G r1)")
    case True
    then show ?thesis
      using y(1) xt' x tl by (auto simp: set_arena_def join_arena_def split: if_splits)
  next
    case False
    then have "join_arena r1 r2 ?poc (last (G r1)) (last (G r2)) z r = r" for r
      by (simp add: join_arena_def)
    then show ?thesis
      using False by (simp add: set_arena_def option.map_ident_strong)
  qed
  then have "groups_ok ?h H (joined G r1 r2)"
    by (intro join_groups [OF ok ne less]) (simp add: set_arena_def)
  moreover have "relinked h ?h"
  proof -
    have "relinked h ?h1"
      by (rule relinked_set [OF x(1)]) (simp add: alloc_part_def)
    moreover have "relinked ?h1 ?h2"
      using x(2) tl(4) by (intro relinked_set [of _ _ x2]) (simp_all add: alloc_part_def set_arena_def)
    moreover have "relinked ?h2 (set_arena (last (G r1)) (xt'\<lparr>a_next := r2\<rparr>) ?h2)"
      by (rule relinked_set [OF xt'(1)]) (simp add: alloc_part_def)
    moreover have "relinked (set_arena (last (G r1)) (xt'\<lparr>a_next := r2\<rparr>) ?h2) ?h"
      by (rule relinked_set [OF y(1)]) (simp add: alloc_part_def)
    ultimately show ?thesis
      using relinked_trans by blast
  qed
  moreover have "exchange_poc r1 (a_parent_or_count x1) ?poc h = Inr (True, ?h1)"
    using x(1) by (simp add: exchange_poc_def arena_at_def)
  moreover have "exchange_poc r2 (a_parent_or_count x2) r1 ?h1 = Inr (True, ?h2)"
    using x(2) tl(4) by (simp add: exchange_poc_def arena_at_def set_arena_def)
  ultimately show ?thesis
    using y(2) unfolding fuse_roots_def Let_def poc by (intro exI [of _ ?h]) (simp add: tag)
qed

definition fused :: "(u64 \<Rightarrow> u64 list) \<Rightarrow> u64 \<Rightarrow> u64 \<Rightarrow> u64 \<Rightarrow> u64 list" where
  "fused G r1 r2 = (if r1 = r2 then G else joined G (min r1 r2) (max r1 r2))"

lemma fused_members: "(\<Union>R. set (fused G r1 r2 R)) = (\<Union>R. set (G R))"
proof (cases "r1 = r2")
  case False
  then show ?thesis
    using joined_members [of "min r1 r2" "max r1 r2" G] by (auto simp: fused_def min_def max_def)
qed (simp add: fused_def)

lemma DoFuse_correct:
  assumes ok: "groups_ok h H G" and a: "a1 \<in> set (G r1)" "a2 \<in> set (G r2)"
  shows "\<exists>h' root. hpb_Arena_DoFuse a1 a2 d h = Inr (Some root, d, h') \<and> groups_ok h' H (fused G r1 r2) \<and> relinked h h'"
proof -
  obtain h1 x1 where h1: "hpb_Arena_FindRoot h a1 = Inr (h1, r1, a_parent_or_count x1)" "groups_ok h1 H G" "repointed h h1"
    "h_arenas h1 r1 = Some x1"
    using FindRoot_correct [OF ok a(1)] by blast
  obtain h2 x2 where h2: "hpb_Arena_FindRoot h1 a2 = Inr (h2, r2, a_parent_or_count x2)" "groups_ok h2 H G" "repointed h1 h2"
    "h_arenas h2 r2 = Some x2"
    using FindRoot_correct [OF h1(2) a(2)] by blast
  have link: "relinked h h2"
    using repointed_relinked h1(3) h2(3) relinked_trans by blast
  have ne: "G r1 \<noteq> []" "G r2 \<noteq> []"
    using a by auto
  have "h_arenas h2 r1 = Some x1"
  proof -
    have "\<not> hpb_Arena_IsTaggedPointer (a_parent_or_count x1)"
      using root_facts [OF h1(2) ne(1)] h1(4) by (metis option.inject)
    then show ?thesis
      using h2(3) h1(4) unfolding repointed_def by (auto dest!: spec [of _ r1])
  qed
  note x = this h2(4)
  consider "r1 = r2" | "r1 < r2" | "r2 < r1"
    by force
  then show ?thesis
  proof cases
    case 1
    then show ?thesis
      using h1(1) h2(1,2) link by (simp add: hpb_Arena_DoFuse_def fused_def)
  next
    case 2
    obtain h' where "fuse_roots r1 (a_parent_or_count x1) r2 (a_parent_or_count x2) d h2 = Inr (Some r1, d, h')"
      "groups_ok h' H (joined G r1 r2)" "relinked h2 h'"
      using join_heap [OF h2(2) ne 2 x, of d] by blast
    moreover have "fused G r1 r2 = joined G r1 r2" "r1 \<noteq> r2" "\<not> r2 < r1"
      using 2 by (auto simp: fused_def min_def max_def)
    ultimately show ?thesis
      using h1(1) h2(1) relinked_trans [OF link] by (simp add: hpb_Arena_DoFuse_def)
  next
    case 3
    obtain h' where "fuse_roots r2 (a_parent_or_count x2) r1 (a_parent_or_count x1) d h2 = Inr (Some r2, d, h')"
      "groups_ok h' H (joined G r2 r1)" "relinked h2 h'"
      using join_heap [OF h2(2) ne(2,1) 3 x(2,1), of d] by blast
    moreover have "fused G r1 r2 = joined G r2 r1" "r1 \<noteq> r2"
      using 3 by (auto simp: fused_def min_def max_def)
    ultimately show ?thesis
      using 3 h1(1) h2(1) relinked_trans [OF link] by (simp add: hpb_Arena_DoFuse_def)
  qed
qed

text \<open>Two arenas without an initial block are fused; the groups of the others do not change.\<close>

lemma Fuse_correct:
  assumes ok: "groups_ok h H G" and a: "a1 \<in> set (G r1)" "a2 \<in> set (G r2)"
    and x: "h_arenas h a1 = Some x1" "h_arenas h a2 = Some x2"
    and init: "\<not> hpb_Arena_HasInitialBlock x1" "\<not> hpb_Arena_HasInitialBlock x2"
  shows "\<exists>h'. hpb_Arena_Fuse a1 a2 h = Inr (True, h') \<and> groups_ok h' H (fused G r1 r2) \<and> relinked h h'"
proof (cases "a1 = a2")
  case True
  then have "r1 = r2"
    using ok a by (auto simp: groups_ok_def)
  then show ?thesis
    using True ok relinked_refl by (simp add: hpb_Arena_Fuse_def fused_def)
next
  case False
  then show ?thesis
    using DoFuse_correct [OF ok a, of 0] x init
    by (auto simp: hpb_Arena_Fuse_def arena_at_def arena_bound_def hpb_Arena_FixupRefs_def)
qed

end
