(* ===== verification/ArenaFree.thy ===== *)
theory ArenaFree
  imports ArenaFuse
begin

text \<open>
  Release of arenas. Every region obtained from the block allocator is a block of exactly one
  arena that was not released; the release of the last reference of a group returns the blocks of
  all its arenas.
\<close>

section \<open>Blocks\<close>

fun block_chain :: "heap \<Rightarrow> u64 \<Rightarrow> u64 list \<Rightarrow> bool" where
  "block_chain h b [] \<longleftrightarrow> b = 0"
| "block_chain h b (x # xs) \<longleftrightarrow> b = x \<and> x \<noteq> 0 \<and> (\<exists>m. h_blocks h x = Some m \<and> block_chain h (b_next m) xs)"

definition live_ok :: "heap \<Rightarrow> bool" where
  "live_ok h \<longleftrightarrow> distinct (map fst (h_live h)) \<and> (\<forall>reg \<in> set (h_live h). snd reg \<noteq> 0) \<and>
     (\<forall>reg \<in> set (h_live h). \<forall>reg' \<in> set (h_live h). reg \<noteq> reg' \<longrightarrow> range_of reg \<inter> range_of reg' = {}) \<and>
     (\<forall>reg \<in> set (h_live h). \<forall>reg' \<in> set (h_user h). range_of reg \<inter> range_of reg' = {})"

text \<open>The heap without the regions that start at some addresses.\<close>

definition dropped :: "u64 set \<Rightarrow> region list \<Rightarrow> u64 \<Rightarrow> bool" where
  "dropped X regs x \<longleftrightarrow> (\<exists>reg \<in> set regs. fst reg \<in> X \<and> inside x reg)"

definition drop_regions :: "u64 set \<Rightarrow> heap \<Rightarrow> heap" where
  "drop_regions X h =
     h\<lparr>h_live := filter (\<lambda>reg. fst reg \<notin> X) (h_live h),
       h_arenas := (\<lambda>x. if dropped X (h_live h) x then None else h_arenas h x),
       h_blocks := (\<lambda>x. if dropped X (h_live h) x then None else h_blocks h x)\<rparr>"

lemma dropped_Un:
  "dropped (X \<union> Y) regs x \<longleftrightarrow> dropped X regs x \<or> dropped Y (filter (\<lambda>reg. fst reg \<notin> X) regs) x"
  unfolding dropped_def set_filter by blast

lemma drop_drop: "drop_regions Y (drop_regions X h) = drop_regions (X \<union> Y) h"
  by (rule heap.equality) (simp_all add: drop_regions_def dropped_Un conj_commute fun_eq_iff)

lemma drop_empty: "drop_regions {} h = h"
  by (simp add: drop_regions_def dropped_def)

lemma live_ok_drop: "live_ok h \<Longrightarrow> live_ok (drop_regions X h)"
  by (simp add: live_ok_def drop_regions_def distinct_map_filter)

lemma inside_range: "inside x reg \<longleftrightarrow> unat x \<in> range_of reg"
  by (auto simp: inside_def range_of_def)

lemma start_inside: "snd reg \<noteq> 0 \<Longrightarrow> inside (fst reg) reg"
  by (simp add: inside_def unat_gt_0)

lemma inside_unique:
  assumes "live_ok h" "reg \<in> set (h_live h)" "reg' \<in> set (h_live h)" "inside x reg" "inside x reg'"
  shows "reg = reg'"
  using assms unfolding live_ok_def inside_range by blast

lemma hpb_free_drop:
  assumes "live_ok h" "p \<in> fst ` set (h_live h)" "alloc \<noteq> 0"
  shows "hpb_free alloc p h = Inr (drop_regions {p} h)"
proof -
  have dist: "distinct (map fst (h_live h))"
    using assms(1) by (simp add: live_ok_def)
  obtain reg where reg: "find (\<lambda>reg. fst reg = p) (h_live h) = Some reg" "reg \<in> set (h_live h)" "fst reg = p"
  proof (cases "find (\<lambda>reg. fst reg = p) (h_live h)")
    case None
    then show thesis
      using assms(2) by (auto simp: find_None_iff)
  next
    case (Some reg)
    then have "reg \<in> set (h_live h)" "fst reg = p"
      by (auto simp: find_Some_iff)
    then show thesis
      using that Some by blast
  qed
  have "remove1 reg (h_live h) = filter (\<lambda>reg. fst reg \<noteq> p) (h_live h)"
  proof -
    have "fst r = p \<longleftrightarrow> r = reg" if "r \<in> set (h_live h)" for r
      using dist that reg by (auto simp: distinct_map inj_on_def)
    then have "filter (\<lambda>r. fst r \<noteq> p) (h_live h) = filter (\<lambda>r. r \<noteq> reg) (h_live h)"
      by (intro filter_cong) auto
    then show ?thesis
      using dist by (simp add: distinct_remove1_removeAll distinct_map removeAll_filter_not_eq eq_commute)
  qed
  moreover have "dropped {p} (h_live h) x \<longleftrightarrow> inside x reg" for x
    using dist reg unfolding dropped_def distinct_map inj_on_def by blast
  ultimately show ?thesis
    using reg assms(3) by (simp add: hpb_free_def drop_regions_def)
qed

lemma block_chain_drop:
  assumes "block_chain h b xs" "live_ok h" "set xs \<subseteq> fst ` set (h_live h)" "set xs \<inter> X = {}"
  shows "block_chain (drop_regions X h) b xs"
  using assms(1,3,4)
proof (induction xs arbitrary: b)
  case (Cons x xs)
  obtain reg where reg: "reg \<in> set (h_live h)" "fst reg = x"
    using Cons.prems(2) by auto
  have "inside x reg"
    using assms(2) reg start_inside [of reg] by (simp add: live_ok_def)
  then have "\<not> dropped X (h_live h) x"
    using inside_unique [OF assms(2) reg(1)] reg(2) Cons.prems(3) by (auto simp: dropped_def)
  then have "h_blocks (drop_regions X h) x = h_blocks h x"
    by (simp add: drop_regions_def)
  then show ?case
    using Cons by auto
qed simp

lemma free_blocks_correct:
  "live_ok h \<Longrightarrow> block_chain h b xs \<Longrightarrow> distinct xs \<Longrightarrow> set xs \<subseteq> fst ` set (h_live h) \<Longrightarrow>
   (xs \<noteq> [] \<longrightarrow> alloc \<noteq> 0) \<Longrightarrow> length xs < n \<Longrightarrow> free_blocks n alloc b h = Inr (drop_regions (set xs) h)"
proof (induction xs arbitrary: n b h)
  case Nil
  then show ?case
    by (cases n) (simp_all add: drop_empty)
next
  case (Cons x xs)
  obtain k where k: "n = Suc k" "length xs < k"
    using Cons.prems(6) by (cases n) auto
  obtain m where m: "b = x" "x \<noteq> 0" "h_blocks h x = Some m" "block_chain h (b_next m) xs"
    using Cons.prems(2) by auto
  let ?h = "drop_regions {x} h"
  have "hpb_free alloc x h = Inr ?h"
    using Cons.prems by (intro hpb_free_drop) auto
  moreover have "block_chain ?h (b_next m) xs"
    using Cons.prems m(4) by (intro block_chain_drop) auto
  moreover have "set xs \<subseteq> fst ` set (h_live ?h)"
  proof
    fix y
    assume "y \<in> set xs"
    then have "y \<in> fst ` set (h_live h)" "y \<noteq> x"
      using Cons.prems(3,4) by auto
    then show "y \<in> fst ` set (h_live ?h)"
      by (auto simp: drop_regions_def)
  qed
  ultimately show ?case
    using Cons.IH [OF live_ok_drop [OF Cons.prems(1)], of "{x}" "b_next m" k] Cons.prems m k
    by (simp add: block_at_def drop_drop)
qed

section \<open>Blocks and arenas\<close>

definition owner_ok :: "heap \<Rightarrow> region set \<Rightarrow> (u64 \<Rightarrow> u64 list) \<Rightarrow> u64 \<Rightarrow> bool" where
  "owner_ok h U B a \<longleftrightarrow> (\<exists>r. h_arenas h a = Some r \<and> head_ok h r \<and> a_block_alloc r \<noteq> 1 \<and>
     block_chain h (a_blocks r) (B a) \<and> distinct (B a) \<and> (B a \<noteq> [] \<longrightarrow> hpb_Arena_BlockAlloc r \<noteq> 0) \<and>
     (if hpb_Arena_HasInitialBlock r then \<exists>reg \<in> U. inside a reg
      else \<exists>reg \<in> set (h_live h). fst reg \<in> set (B a) \<and> inside a reg))"

definition blocks_ok :: "heap \<Rightarrow> region set \<Rightarrow> u64 set \<Rightarrow> (u64 \<Rightarrow> u64 list) \<Rightarrow> bool" where
  "blocks_ok h U M B \<longleftrightarrow> live_ok h \<and> U \<subseteq> set (h_user h) \<and> (\<forall>a \<in> M. owner_ok h U B a) \<and>
     (\<forall>a \<in> M. \<forall>b \<in> M. a \<noteq> b \<longrightarrow> set (B a) \<inter> set (B b) = {}) \<and> fst ` set (h_live h) = (\<Union>a \<in> M. set (B a))"

lemma blocks_ok_disjoint: "blocks_ok h U M B \<Longrightarrow> a \<in> M \<Longrightarrow> b \<in> M \<Longrightarrow> a \<noteq> b \<Longrightarrow> set (B a) \<inter> set (B b) = {}"
  by (simp add: blocks_ok_def)

lemma blocks_ok_live: "blocks_ok h U M B \<Longrightarrow> fst ` set (h_live h) = (\<Union>a \<in> M. set (B a))"
  by (simp add: blocks_ok_def)

lemma drop_live: "fst ` set (h_live (drop_regions X h)) = fst ` set (h_live h) - X"
  by (auto simp: drop_regions_def)

lemma block_chain_head: "block_chain h b xs \<Longrightarrow> b \<noteq> 0 \<Longrightarrow> h_blocks h b \<noteq> None"
  by (cases xs) auto

lemma not_dropped:
  assumes ok: "blocks_ok h U M B" and a: "a \<in> M" "X \<inter> set (B a) = {}"
  shows "\<not> dropped X (h_live h) a"
proof
  assume "dropped X (h_live h) a"
  then obtain reg where reg: "reg \<in> set (h_live h)" "fst reg \<in> X" "inside a reg"
    by (auto simp: dropped_def)
  have live: "live_ok h" and U: "U \<subseteq> set (h_user h)" and own: "owner_ok h U B a"
    using ok a(1) by (auto simp: blocks_ok_def)
  from own consider reg' where "reg' \<in> U" "inside a reg'" | reg' where "reg' \<in> set (h_live h)" "fst reg' \<in> set (B a)" "inside a reg'"
    unfolding owner_ok_def by (metis (full_types))
  then show False
  proof cases
    case 1
    then show False
      using live U reg unfolding live_ok_def inside_range by blast
  next
    case 2
    then have "reg' = reg"
      using inside_unique [OF live] reg(1,3) by blast
    then show False
      using 2(2) reg(2) a(2) by blast
  qed
qed

lemma owner_ok_drop:
  assumes ok: "blocks_ok h U M B" and a: "a \<in> M" "X \<inter> set (B a) = {}"
  shows "owner_ok (drop_regions X h) U B a"
proof -
  let ?h = "drop_regions X h"
  have live: "live_ok h" and own: "owner_ok h U B a" and sub: "set (B a) \<subseteq> fst ` set (h_live h)"
    using ok a(1) by (auto simp: blocks_ok_def)
  obtain r where r: "h_arenas h a = Some r" "head_ok h r" "a_block_alloc r \<noteq> 1" "block_chain h (a_blocks r) (B a)" "distinct (B a)"
    "B a \<noteq> [] \<Longrightarrow> hpb_Arena_BlockAlloc r \<noteq> 0"
    "if hpb_Arena_HasInitialBlock r then \<exists>reg \<in> U. inside a reg
      else \<exists>reg \<in> set (h_live h). fst reg \<in> set (B a) \<and> inside a reg"
    using own unfolding owner_ok_def by blast
  have chain: "block_chain ?h (a_blocks r) (B a)"
    using r(4) live sub a(2) by (intro block_chain_drop) auto
  have "h_arenas ?h a = Some r"
    using r(1) not_dropped [OF assms] by (simp add: drop_regions_def)
  moreover have "head_ok ?h r"
    using r(2) block_chain_head [OF chain] by (auto simp: head_ok_def)
  moreover have "if hpb_Arena_HasInitialBlock r then \<exists>reg \<in> U. inside a reg
      else \<exists>reg \<in> set (h_live ?h). fst reg \<in> set (B a) \<and> inside a reg"
    using r(7) a(2) by (fastforce simp: drop_regions_def)
  ultimately show ?thesis
    using r(3,5,6) chain unfolding owner_ok_def by blast
qed

lemma blocks_ok_drop:
  assumes ok: "blocks_ok h U M B" and S: "S \<subseteq> M"
  shows "blocks_ok (drop_regions (\<Union>a \<in> S. set (B a)) h) U (M - S) B"
proof -
  let ?X = "\<Union>a \<in> S. set (B a)"
  have disj: "?X \<inter> set (B a) = {}" if "a \<in> M - S" for a
  proof -
    have "set (B b) \<inter> set (B a) = {}" if "b \<in> S" for b
      using that \<open>a \<in> M - S\<close> S by (intro blocks_ok_disjoint [OF ok]) auto
    then show ?thesis
      by blast
  qed
  have "owner_ok (drop_regions ?X h) U B a" if "a \<in> M - S" for a
    using owner_ok_drop [OF ok _ disj [OF that]] that by simp
  moreover have "fst ` set (h_live (drop_regions ?X h)) = (\<Union>a \<in> M - S. set (B a))"
    unfolding drop_live blocks_ok_live [OF ok] using disj by blast
  moreover have "live_ok (drop_regions ?X h)"
    using ok by (intro live_ok_drop) (simp add: blocks_ok_def)
  moreover have "h_user (drop_regions ?X h) = h_user h"
    by (simp add: drop_regions_def)
  ultimately show ?thesis
    using ok unfolding blocks_ok_def by simp
qed

section \<open>Releasing a group\<close>

lemma free_arenas_correct:
  assumes ok: "blocks_ok h U M B"
  shows "set as \<subseteq> M \<Longrightarrow> distinct as \<Longrightarrow> list_links h as \<Longrightarrow> 0 \<notin> set as \<Longrightarrow> \<forall>a \<in> set as. X \<inter> set (B a) = {} \<Longrightarrow>
    length as < n \<Longrightarrow>
    free_arenas n (case as of [] \<Rightarrow> 0 | a # _ \<Rightarrow> a) (drop_regions X h) = Inr (drop_regions (X \<union> (\<Union>a \<in> set as. set (B a))) h)"
proof (induction as arbitrary: n X)
  case Nil
  then show ?case
    by (cases n) simp_all
next
  case (Cons a as)
  let ?h = "drop_regions X h"
  obtain k where k: "n = Suc k" "length as < k"
    using Cons.prems(6) by (cases n) auto
  have a: "a \<in> M" "a \<noteq> 0" "X \<inter> set (B a) = {}"
    using Cons.prems by auto
  obtain r0 where r0: "h_arenas h a = Some r0" "a_next r0 = (case as of [] \<Rightarrow> 0 | b # _ \<Rightarrow> b)"
    using Cons.prems(3) by (cases as) auto
  have own: "owner_ok ?h U B a"
    using owner_ok_drop [OF ok a(1,3)] .
  then obtain r where r: "h_arenas ?h a = Some r" "block_chain ?h (a_blocks r) (B a)" "distinct (B a)"
    "B a \<noteq> [] \<Longrightarrow> hpb_Arena_BlockAlloc r \<noteq> 0"
    unfolding owner_ok_def by blast
  have "r = r0"
    using r(1) r0(1) not_dropped [OF ok a(1,3)] by (simp add: drop_regions_def)
  have live: "live_ok ?h"
    using ok live_ok_drop by (simp add: blocks_ok_def)
  have sub: "set (B a) \<subseteq> fst ` set (h_live ?h)"
    unfolding drop_live blocks_ok_live [OF ok] using a by blast
  have "length (B a) < block_bound ?h"
  proof -
    have "length (B a) = card (set (B a))"
      using r(3) by (simp add: distinct_card)
    also have "\<dots> \<le> card (set (map fst (h_live ?h)))"
      using sub by (intro card_mono) auto
    also have "\<dots> \<le> length (h_live ?h)"
      using card_length [of "map fst (h_live ?h)"] by simp
    finally show ?thesis
      by (simp add: block_bound_def)
  qed
  then have "free_blocks (block_bound ?h) (hpb_Arena_BlockAlloc r) (a_blocks r) ?h = Inr (drop_regions (X \<union> set (B a)) h)"
    using free_blocks_correct [OF live r(2,3) sub] r(4) by (simp add: drop_drop)
  moreover have "free_arenas k (case as of [] \<Rightarrow> 0 | b # _ \<Rightarrow> b) (drop_regions (X \<union> set (B a)) h) =
      Inr (drop_regions (X \<union> set (B a) \<union> (\<Union>a \<in> set as. set (B a))) h)"
  proof (rule Cons.IH)
    show "list_links h as"
      using Cons.prems(3) by (cases as) auto
    have "set (B a) \<inter> set (B b) = {}" if "b \<in> set as" for b
      using that Cons.prems(1,2) by (intro blocks_ok_disjoint [OF ok]) auto
    then show "\<forall>b \<in> set as. (X \<union> set (B a)) \<inter> set (B b) = {}"
      using Cons.prems(5) by (simp add: Int_Un_distrib2)
  qed (use Cons.prems k in auto)
  ultimately show ?case
    using a(2) r(1) r0(2) k \<open>r = r0\<close> by (simp add: arena_at_def Un_assoc)
qed

text \<open>The groups that are not released do not notice.\<close>

lemma member_ok_frame:
  assumes "h_arenas h' a = h_arenas h a" "h_ids h' = h_ids h" "H' \<inter> set as = H \<inter> set as"
  shows "member_ok h' H' R as a = member_ok h H R as a"
  by (simp only: member_ok_def root_ok_def assms)

lemma groups_ok_drop:
  assumes ok: "groups_ok h H G" and bl: "blocks_ok h U (\<Union>R. set (G R)) B"
  shows "groups_ok (drop_regions (\<Union>a \<in> set (G root). set (B a)) h) (H - set (G root)) (G(root := []))"
    (is "groups_ok ?h ?H ?G")
proof -
  let ?X = "\<Union>a \<in> set (G root). set (B a)"
  have disj: "set (G R) \<inter> set (G root) = {}" if "R \<noteq> root" for R
    using ok that by (simp add: groups_ok_def)
  have same: "h_arenas ?h a = h_arenas h a" if "a \<in> set (G R)" "R \<noteq> root" for a R
  proof -
    have "set (B b) \<inter> set (B a) = {}" if "b \<in> set (G root)" for b
      using \<open>a \<in> set (G R)\<close> disj [OF \<open>R \<noteq> root\<close>] that by (intro blocks_ok_disjoint [OF bl]) auto
    then have "?X \<inter> set (B a) = {}"
      by blast
    then have "\<not> dropped ?X (h_live h) a"
      using that(1) by (intro not_dropped [OF bl]) auto
    then show ?thesis
      by (simp add: drop_regions_def)
  qed
  have "group_ok ?h ?H R (?G R)" for R
  proof (cases "R = root")
    case False
    have g: "group_ok h H R (G R)"
      using ok by (simp add: groups_ok_def)
    have H: "?H \<inter> set (G R) = H \<inter> set (G R)"
      using disj [OF False] by auto
    have "list_links ?h (G R) \<longleftrightarrow> list_links h (G R)"
      using same False by (intro list_links_cong) simp
    moreover have "member_ok ?h ?H R (G R) a" if "member_ok h H R (G R) a" "a \<in> set (G R)" for a
      using that(1) member_ok_frame [OF same [OF that(2) False] _ H] by (simp add: drop_regions_def)
    ultimately show ?thesis
      using g False by (simp add: group_ok_def)
  qed (simp add: group_ok_def)
  moreover have "?H \<subseteq> (\<Union>R. set (?G R))"
  proof
    fix a
    assume a: "a \<in> ?H"
    then obtain R where "a \<in> set (G R)"
      using ok unfolding groups_ok_def by blast
    then show "a \<in> (\<Union>R. set (?G R))"
      using a by (auto intro!: exI [of _ R])
  qed
  ultimately show ?thesis
    using ok by (simp add: groups_ok_def)
qed

section \<open>Releasing a reference\<close>

lemma tagged_count_inject: "c < 2 ^ 62 \<Longrightarrow> d < 2 ^ 62 \<Longrightarrow> tagged_count c = tagged_count d \<longleftrightarrow> c = d"
  using unat_tagged_count by (metis add_right_cancel mult_left_cancel zero_neq_numeral)

lemma decrement_groups:
  assumes ok: "groups_ok h H G" and a: "a \<in> H" "a \<in> set (G root)" and r: "h_arenas h root = Some r"
    and more: "card (H \<inter> set (G root)) \<noteq> 1"
  shows "groups_ok (set_arena root (r\<lparr>a_parent_or_count := tagged_count (card (H \<inter> set (G root)) - 1)\<rparr>) h) (H - {a}) G"
    (is "groups_ok ?h ?H G")
proof -
  have other: "root \<notin> set (G R)" if "R \<noteq> root" for R
  proof -
    have "root \<in> set (G root)"
      using root_facts [OF ok, of root] a(2) by (metis empty_iff empty_set)
    then show ?thesis
      using ok that unfolding groups_ok_def by blast
  qed
  have a': "a \<notin> set (G R)" if "R \<noteq> root" for R
    using ok that a(2) unfolding groups_ok_def by blast
  have card: "card (?H \<inter> set (G root)) = card (H \<inter> set (G root)) - 1"
    using a by (simp add: Diff_Int_distrib2 card_Diff_singleton)
  have ne: "?H \<inter> set (G root) \<noteq> {}"
  proof
    assume "?H \<inter> set (G root) = {}"
    then have "H \<inter> set (G root) = {a}"
      using a by blast
    then show False
      using more by simp
  qed
  have H: "?H \<inter> set (G R) = H \<inter> set (G R)" if "R \<noteq> root" for R
    using a' [OF that] by auto
  have "group_ok ?h ?H R (G R)" for R
  proof -
    have g: "group_ok h H R (G R)"
      using ok by (simp add: groups_ok_def)
    have "list_links ?h (G R) \<longleftrightarrow> list_links h (G R)"
      using r by (intro list_links_cong) (simp add: set_arena_def)
    moreover have "member_ok ?h ?H R (G R) b" if "member_ok h H R (G R) b" "b \<in> set (G R)" for b
    proof (cases "R = root")
      case True
      then show ?thesis
        using that r card ne by (auto simp: member_ok_def root_ok_def set_arena_def)
    next
      case False
      then have "b \<noteq> root"
        using that(2) other by auto
      then show ?thesis
        using that(1) member_ok_frame [of ?h b h ?H "G R" H R] H [OF False] by (simp add: set_arena_def)
    qed
    ultimately show ?thesis
      using g by (simp add: group_ok_def)
  qed
  then show ?thesis
    using ok unfolding groups_ok_def by blast
qed

lemma blocks_ok_relinked:
  assumes "blocks_ok h U M B" "relinked h h'"
  shows "blocks_ok h' U M B"
proof -
  obtain f where f: "h' = h\<lparr>h_arenas := f\<rparr>" "\<And>a. map_option alloc_part (f a) = map_option alloc_part (h_arenas h a)"
    using assms(2) unfolding relinked_def by blast
  have chain: "block_chain h' b xs \<longleftrightarrow> block_chain h b xs" for b xs
    by (induction xs arbitrary: b) (simp_all add: f(1))
  have "owner_ok h' U B a" if "owner_ok h U B a" for a
  proof -
    obtain r where r: "h_arenas h a = Some r" "head_ok h r" "a_block_alloc r \<noteq> 1"
     "block_chain h (a_blocks r) (B a)" "distinct (B a)" "B a \<noteq> [] \<longrightarrow> hpb_Arena_BlockAlloc r \<noteq> 0"
     "if hpb_Arena_HasInitialBlock r then \<exists>reg \<in> U. inside a reg
      else \<exists>reg \<in> set (h_live h). fst reg \<in> set (B a) \<and> inside a reg"
      using \<open>owner_ok h U B a\<close> unfolding owner_ok_def by blast
    obtain r' where r': "f a = Some r'" "alloc_part r' = alloc_part r"
      using f(2) [of a] r(1) by auto
    then show ?thesis
      using r unfolding owner_ok_def
      by (intro exI [of _ r']) (simp add: f(1) alloc_part_def head_ok_def hpb_Arena_BlockAlloc_def hpb_Arena_HasInitialBlock_def chain [unfolded f(1)])
  qed
  moreover have "live_ok h' \<longleftrightarrow> live_ok h" "h_user h' = h_user h" "h_live h' = h_live h"
    by (simp_all add: f(1) live_ok_def)
  ultimately show ?thesis
    using assms(1) by (simp add: blocks_ok_def)
qed

lemma Free_correct:
  assumes ok: "groups_ok h H G" and bl: "blocks_ok h U (\<Union>R. set (G R)) B" and a: "a \<in> H" "a \<in> set (G root)"
  shows "\<exists>h' G'. hpb_Arena_Free a h = Inr h' \<and> groups_ok h' (H - {a}) G' \<and> blocks_ok h' U (\<Union>R. set (G' R)) B \<and>
    h_user h' = h_user h \<and>
    h_live h' = (if H \<inter> set (G root) = {a} then filter (\<lambda>reg. fst reg \<notin> (\<Union>b \<in> set (G root). set (B b))) (h_live h) else h_live h)"
proof -
  let ?c = "card (H \<inter> set (G root))" and ?X = "\<Union>b \<in> set (G root). set (B b)"
  have ne: "G root \<noteq> []"
    using a(2) by auto
  obtain r where r: "h_arenas h root = Some r" "root_ok H (G root) r" "root \<noteq> 0"
    using root_facts [OF ok ne] by metis
  obtain ra where ra: "h_arenas h a = Some ra"
    using member_facts [OF ok a(2)] by metis
  have walk: "walk_up (arena_bound h) h a (a_parent_or_count ra) = Inr (root, a_parent_or_count r)"
    using walk_up_correct [OF ok a(2) ra below_bound] r(1) by auto
  have c: "?c < 2 ^ 62" "0 < ?c"
    using groups_ok_card [OF ok, of root] a by (auto simp: card_gt_0_iff)
  have poc: "a_parent_or_count r = tagged_count ?c"
    using r(2) by (simp add: root_ok_def)
  have one: "hpb_Arena_TaggedFromRefcount 1 = tagged_count 1"
    using TaggedFromRefcount [of 1] by simp
  have iff: "?c = 1 \<longleftrightarrow> H \<inter> set (G root) = {a}"
  proof
    assume "?c = 1"
    then obtain x where x: "H \<inter> set (G root) = {x}"
      by (rule card_1_singletonE)
    have "a \<in> H \<inter> set (G root)"
      using a by blast
    then show "H \<inter> set (G root) = {a}"
      unfolding x by simp
  qed simp
  obtain n where n: "arena_bound h = Suc n"
    by (simp add: arena_bound_def)
  show ?thesis
  proof (cases "?c = 1")
    case True
    have grp: "distinct (G root)" "list_links h (G root)" "hd (G root) = root"
      using ok ne by (auto simp: groups_ok_def group_ok_def)
    have mem: "b \<noteq> 0" "b \<in> set (h_ids h)" if "b \<in> set (G root)" for b
      using member_facts [OF ok that] by metis+
    have "length (G root) < arena_bound h"
    proof -
      have "length (G root) \<le> card (set (h_ids h))"
        using grp(1) mem(2) by (metis List.finite_set card_mono distinct_card subsetI)
      also have "\<dots> \<le> length (h_ids h)"
        by (rule card_length)
      finally show ?thesis
        by (simp add: arena_bound_def)
    qed
    moreover have "set (G root) \<subseteq> (\<Union>R. set (G R))" "0 \<notin> set (G root)"
      using mem(1) by auto
    ultimately have "free_arenas (arena_bound h) (case G root of [] \<Rightarrow> 0 | a # _ \<Rightarrow> a) (drop_regions {} h) =
        Inr (drop_regions ({} \<union> ?X) h)"
      using grp(1,2) by (intro free_arenas_correct [OF bl]) simp_all
    moreover have "(case G root of [] \<Rightarrow> 0 | a # _ \<Rightarrow> a) = root"
      using grp(3) ne by (cases "G root") auto
    ultimately have "free_arenas (arena_bound h) root h = Inr (drop_regions ?X h)"
      by (simp add: drop_empty)
    then have "hpb_Arena_Free a h = Inr (drop_regions ?X h)"
      using ra walk poc one True r(1) RefCountFromTagged [of 1] n
      by (simp add: hpb_Arena_Free_def arena_at_def arena_dofree_def)
    moreover have "groups_ok (drop_regions ?X h) (H - {a}) (G(root := []))"
    proof -
      have "H - {a} = H - set (G root)"
        using True iff by blast
      then show ?thesis
        using groups_ok_drop [OF ok bl, of root] by simp
    qed
    moreover have "blocks_ok (drop_regions ?X h) U (\<Union>R. set ((G(root := [])) R)) B"
    proof -
      have "(\<Union>R. set ((G(root := [])) R)) = (\<Union>R. set (G R)) - set (G root)"
        using ok unfolding groups_ok_def by (auto split: if_splits) blast
      then show ?thesis
        using blocks_ok_drop [OF bl, of "set (G root)"] by (simp only:) blast
    qed
    ultimately show ?thesis
      using True iff by (intro exI [of _ "drop_regions ?X h"] exI [of _ "G(root := [])"]) (simp add: drop_regions_def)
  next
    case False
    let ?h = "set_arena root (r\<lparr>a_parent_or_count := tagged_count (?c - 1)\<rparr>) h"
    have "tagged_count ?c \<noteq> tagged_count 1"
      using tagged_count_inject [OF c(1), of 1] False by simp
    moreover have "unat (of_nat ?c - 1 :: u64) = ?c - 1"
    proof -
      have "(of_nat ?c - 1 :: u64) = of_nat (?c - 1)"
        using c(2) by (simp add: of_nat_diff)
      moreover have "unat (of_nat (?c - 1) :: u64) = ?c - 1"
        using c(1) by (subst unat_of_nat) simp
      ultimately show ?thesis
        by simp
    qed
    then have "hpb_Arena_TaggedFromRefcount (of_nat ?c - 1) = tagged_count (?c - 1)"
      using TaggedFromRefcount [of "of_nat ?c - 1"] c(1) by simp
    ultimately have "hpb_Arena_Free a h = Inr ?h"
      using ra walk poc one r(1) RefCountFromTagged [OF c(1)] n
      by (simp add: hpb_Arena_Free_def arena_at_def exchange_poc_def)
    moreover have "groups_ok ?h (H - {a}) G"
      by (rule decrement_groups [OF ok a r(1) False])
    moreover have "blocks_ok ?h U (\<Union>R. set (G R)) B"
      by (rule blocks_ok_relinked [OF bl relinked_set [OF r(1)]]) (simp add: alloc_part_def)
    ultimately show ?thesis
      using False iff by (intro exI [of _ ?h] exI [of _ G]) (simp add: set_arena_def)
  qed
qed

end
