(* ===== verification/ArenaLife.thy ===== *)
theory ArenaLife
  imports ArenaFree
begin

text \<open>
  The life of arenas: every state that creation, allocation, fusing and release can reach keeps
  the invariants on groups and blocks, so that no operation on an arena that was not released
  fails, and when the last arena is released all memory has been returned.
\<close>

section \<open>Invariant\<close>

definition life_inv :: "heap \<Rightarrow> u64 set \<Rightarrow> region set \<Rightarrow> bool" where
  "life_inv h H U \<longleftrightarrow> (\<exists>G B. groups_ok h H G \<and> blocks_ok h U (\<Union>R. set (G R)) B)"

definition link_part :: "hpb_Arena \<Rightarrow> u64 \<times> u64 \<times> u64" where
  "link_part r = (a_parent_or_count r, a_next r, a_tail r)"

lemma groups_ok_alloc:
  assumes ok: "groups_ok h H G" and ids: "h_ids h' = h_ids h"
    and same: "\<And>a. map_option link_part (h_arenas h' a) = map_option link_part (h_arenas h a)"
  shows "groups_ok h' H G"
proof -
  have links: "list_links h' as \<longleftrightarrow> list_links h as" for as
  proof (rule list_links_cong)
    fix a
    show "map_option a_next (h_arenas h' a) = map_option a_next (h_arenas h a)"
      using same [of a] by (cases "h_arenas h' a"; cases "h_arenas h a") (auto simp: link_part_def)
  qed
  have mem: "member_ok h' H R as a" if m: "member_ok h H R as a" for R as a
  proof -
    obtain r where r: "h_arenas h a = Some r" "if a = R then root_ok H as r
      else hpb_Arena_IsTaggedPointer (a_parent_or_count r) \<and> a_parent_or_count r \<in> set as \<and> a_parent_or_count r < a"
      "a \<noteq> 0" "8 dvd unat a" "a \<in> set (h_ids h)"
      using m unfolding member_ok_def by blast
    obtain r' where r': "h_arenas h' a = Some r'" "link_part r' = link_part r"
      using same [of a] r(1) by auto
    then show ?thesis
      using r ids unfolding member_ok_def by (intro conjI exI [of _ r']) (auto simp: link_part_def root_ok_def split: if_splits)
  qed
  have "group_ok h' H R (G R)" for R
  proof -
    have "group_ok h H R (G R)"
      using ok by (simp add: groups_ok_def)
    then show ?thesis
      using mem by (simp add: group_ok_def links)
  qed
  then show ?thesis
    using ok by (simp add: groups_ok_def)
qed

section \<open>Allocation\<close>

lemma block_chain_mem: "block_chain h b xs \<Longrightarrow> x \<in> set xs \<Longrightarrow> x \<noteq> 0 \<and> h_blocks h x \<noteq> None"
  by (induction xs arbitrary: b) auto

lemma block_chain_frame:
  "(\<And>x. x \<in> set xs \<Longrightarrow> h_blocks h' x = h_blocks h x) \<Longrightarrow> block_chain h' b xs = block_chain h b xs"
  by (induction xs arbitrary: b) auto

lemma live_ok_add:
  assumes "live_ok h" "sz \<noteq> 0"
    and fresh: "\<forall>reg \<in> set (h_live h @ h_user h). range_of (p, sz) \<inter> range_of reg = {}"
    and h': "h_live h' = (p, sz) # h_live h" "h_user h' = h_user h"
  shows "live_ok h'" "p \<notin> fst ` set (h_live h)"
proof -
  have p: "unat p \<in> range_of (p, sz)"
    using assms(2) by (simp add: range_of_def unat_gt_0)
  show new: "p \<notin> fst ` set (h_live h)"
  proof
    assume "p \<in> fst ` set (h_live h)"
    then obtain reg where reg: "reg \<in> set (h_live h)" "fst reg = p"
      by blast
    then have "unat p \<in> range_of reg"
      using assms(1) start_inside [of reg] by (auto simp: live_ok_def inside_range)
    then show False
      using p fresh reg(1) by auto
  qed
  have "range_of reg \<inter> range_of (p, sz) = {}" if "reg \<in> set (h_live h)" for reg
    using fresh that by auto
  then show "live_ok h'"
    using assms(1,2) fresh new unfolding live_ok_def h' by auto
qed

text \<open>Adding a block to an arena, or only changing its head.\<close>

lemma blocks_ok_head:
  assumes ok: "blocks_ok h U M B" and a: "a \<in> M" "h_arenas h a = Some r"
    and r': "head_ok h r'" "a_blocks r' = a_blocks r" "a_block_alloc r' = a_block_alloc r"
  shows "blocks_ok (set_arena a r' h) U M B"
proof -
  let ?h = "set_arena a r' h"
  have chain: "block_chain ?h b xs = block_chain h b xs" for b xs
    by (intro block_chain_frame) (simp add: set_arena_def)
  note chain = this this [unfolded set_arena_def]
  have "owner_ok ?h U B b" if own: "owner_ok h U B b" for b
  proof (cases "b = a")
    case True
    then show ?thesis
      using own a(2) r' by (auto simp: owner_ok_def chain hpb_Arena_BlockAlloc_def hpb_Arena_HasInitialBlock_def
          head_ok_def set_arena_def)
  next
    case False
    then have "h_arenas ?h b = h_arenas h b"
      by (simp add: set_arena_def)
    then show ?thesis
      using own by (auto simp: owner_ok_def chain head_ok_def set_arena_def)
  qed
  then show ?thesis
    using ok by (auto simp: blocks_ok_def live_ok_def set_arena_def)
qed

lemma blocks_ok_block:
  assumes ok: "blocks_ok h U M B" and a: "a \<in> M" "h_arenas h a = Some r"
    and p: "p \<noteq> 0" "bs \<noteq> 0" "\<forall>reg \<in> set (h_live h @ h_user h). range_of (p, bs) \<inter> range_of reg = {}"
    and r': "a_ptr r' \<noteq> 0" "8 dvd unat (a_ptr r')" "unat (a_ptr r') \<le> unat (a_end r')" "a_blocks r' = p"
      "a_block_alloc r' = a_block_alloc r" "hpb_Arena_BlockAlloc r \<noteq> 0"
  shows "blocks_ok (set_arena a r' (h\<lparr>h_calls := n, h_live := (p, bs) # h_live h,
    h_blocks := (h_blocks h)(p \<mapsto> \<lparr>b_next = a_blocks r, b_size = s\<rparr>)\<rparr>)) U M (B(a := p # B a))"
    (is "blocks_ok ?h U M ?B")
proof -
  have live: "live_ok h"
    using ok by (simp add: blocks_ok_def)
  have live': "live_ok ?h" and new: "p \<notin> fst ` set (h_live h)"
    using live_ok_add [OF live p(2,3), of ?h] by (simp_all add: set_arena_def)
  have sub: "set (B b) \<subseteq> fst ` set (h_live h)" if "b \<in> M" for b
    using blocks_ok_live [OF ok] that by auto
  have chain: "block_chain ?h c (B b) = block_chain h c (B b)" if "b \<in> M" for b c
    using sub [OF that] new by (intro block_chain_frame) (auto simp: set_arena_def)
  have "owner_ok ?h U ?B b" if b: "b \<in> M" for b
  proof -
    obtain x where x: "h_arenas h b = Some x" "head_ok h x" "a_block_alloc x \<noteq> 1" "block_chain h (a_blocks x) (B b)" "distinct (B b)"
      "B b \<noteq> [] \<longrightarrow> hpb_Arena_BlockAlloc x \<noteq> 0" "if hpb_Arena_HasInitialBlock x then \<exists>reg \<in> U. inside b reg
      else \<exists>reg \<in> set (h_live h). fst reg \<in> set (B b) \<and> inside b reg"
      using ok b unfolding blocks_ok_def owner_ok_def by blast
    show ?thesis
    proof (cases "b = a")
      case True
      then have "x = r"
        using x(1) a(2) by simp
      have "block_chain ?h (a_blocks r') (p # B a)"
        using chain [OF a(1), of "a_blocks r"] x(4) True \<open>x = r\<close> p(1) r'(4) by (simp add: set_arena_def)
      moreover have "head_ok ?h r'"
        using r' by (simp add: head_ok_def set_arena_def)
      moreover have "distinct (p # B a)"
        using x(5) True new sub [OF a(1)] by auto
      moreover have "if hpb_Arena_HasInitialBlock r' then \<exists>reg \<in> U. inside a reg
          else \<exists>reg \<in> set (h_live ?h). fst reg \<in> set (p # B a) \<and> inside a reg"
        using x(7) True \<open>x = r\<close> r'(5) by (auto simp: hpb_Arena_HasInitialBlock_def set_arena_def)
      moreover have "a_block_alloc r' \<noteq> 1" "hpb_Arena_BlockAlloc r' \<noteq> 0" "h_arenas ?h a = Some r'"
        using x(3) \<open>x = r\<close> r'(5,6) by (simp_all add: hpb_Arena_BlockAlloc_def set_arena_def)
      ultimately show ?thesis
        unfolding owner_ok_def True fun_upd_same by blast
    next
      case False
      have "h_arenas ?h b = Some x" "head_ok ?h x"
        using x(1,2) False by (auto simp: set_arena_def head_ok_def)
      moreover have "if hpb_Arena_HasInitialBlock x then \<exists>reg \<in> U. inside b reg
          else \<exists>reg \<in> set (h_live ?h). fst reg \<in> set (B b) \<and> inside b reg"
        using x(7) by (auto simp: set_arena_def)
      ultimately show ?thesis
        using x(3-6) False unfolding owner_ok_def fun_upd_other [OF False] chain [OF b] by blast
    qed
  qed
  moreover have "set (?B b) \<inter> set (?B c) = {}" if "b \<in> M" "c \<in> M" "b \<noteq> c" for b c
    using blocks_ok_disjoint [OF ok that] sub [OF that(1)] sub [OF that(2)] new that(3) by auto
  moreover have "fst ` set (h_live ?h) = (\<Union>b \<in> M. set (?B b))"
    using blocks_ok_live [OF ok] a(1) by (auto simp: set_arena_def split: if_splits)
  moreover have "h_user ?h = h_user h"
    by (simp add: set_arena_def)
  ultimately show ?thesis
    using ok live' by (simp add: blocks_ok_def)
qed

lemma member_owner:
  assumes "groups_ok h H G" "blocks_ok h U (\<Union>R. set (G R)) B" "a \<in> H"
  obtains r root where "a \<in> set (G root)" "h_arenas h a = Some r" "head_ok h r" "a_block_alloc r \<noteq> 1"
proof -
  obtain root where "a \<in> set (G root)"
    using assms(1,3) unfolding groups_ok_def by blast
  moreover have "owner_ok h U B a"
    using assms(2) calculation unfolding blocks_ok_def by blast
  ultimately show thesis
    using that unfolding owner_ok_def by blast
qed

lemma groups_ok_heads:
  assumes "groups_ok h H G" "h_arenas h a = Some r" "link_part r' = link_part r" "h_arenas h' = (h_arenas h)(a \<mapsto> r')" "h_ids h' = h_ids h"
  shows "groups_ok h' H G"
  using assms by (intro groups_ok_alloc [OF assms(1)]) auto

lemma Malloc_life:
  assumes inv: "life_inv h H U" and mall: "malloc_ok mall" and a: "a \<in> H" and sz: "unat sz \<le> 2 ^ 63"
  shows "\<exists>p h'. hpb_Arena_Malloc mall a sz h = Inr (p, h') \<and> life_inv h' H U \<and> h_user h' = h_user h"
proof -
  obtain G B where ok: "groups_ok h H G" and bl: "blocks_ok h U (\<Union>R. set (G R)) B"
    using inv unfolding life_inv_def by blast
  obtain r root where r: "a \<in> set (G root)" "h_arenas h a = Some r" "head_ok h r" "a_block_alloc r \<noteq> 1"
    using member_owner [OF ok bl a] by blast
  have aM: "a \<in> (\<Union>R. set (G R))"
    using r(1) by blast
  note al = align_malloc_facts [OF sz]
  have hd: "a_ptr r \<noteq> 0" "8 dvd unat (a_ptr r)" "unat (a_ptr r) \<le> unat (a_end r)"
    using r(3) by (auto simp: head_ok_def)
  from r(3) mall r(2,4) sz show ?thesis
  proof (cases rule: Malloc_cases)
    case fast
    let ?r = "r\<lparr>a_ptr := a_ptr r + HPB_ALIGN_MALLOC sz\<rparr>"
    have u: "unat (a_ptr r + HPB_ALIGN_MALLOC sz) = unat (a_ptr r) + unat (HPB_ALIGN_MALLOC sz)"
      using fast(2) hd(3) unsigned_less [of "a_end r", where 'a = nat] by (intro unat_add_small) simp
    then have "a_ptr r + HPB_ALIGN_MALLOC sz \<noteq> 0"
      using hd(1) by (metis add_eq_0_iff_both_eq_0 unat_0 unat_eq_0)
    moreover have "8 dvd unat (a_ptr r + HPB_ALIGN_MALLOC sz)" "unat (a_ptr r + HPB_ALIGN_MALLOC sz) \<le> unat (a_end r)"
      using u hd al(1) fast(2) by simp_all
    ultimately have "head_ok h ?r"
      using r(3) by (simp add: head_ok_def)
    then have "blocks_ok (set_arena a ?r h) U (\<Union>R. set (G R)) B"
      by (intro blocks_ok_head [OF bl aM r(2)]) simp_all
    moreover have "groups_ok (set_arena a ?r h) H G"
      by (rule groups_ok_heads [OF ok r(2)]) (simp_all add: link_part_def set_arena_def)
    moreover have "h_user (set_arena a ?r h) = h_user h"
      by (simp add: set_arena_def)
    ultimately show ?thesis
      unfolding life_inv_def fast(1) by blast
  next
    case (none n)
    have "groups_ok (h\<lparr>h_calls := n\<rparr>) H G"
      by (rule groups_ok_alloc [OF ok]) simp_all
    moreover have "relinked (h\<lparr>h_calls := n\<rparr>) (h\<lparr>h_calls := n\<rparr>)"
      by (rule relinked_refl)
    moreover have "blocks_ok (h\<lparr>h_calls := n\<rparr>) U (\<Union>R. set (G R)) B"
    proof -
      have chain: "block_chain (h\<lparr>h_calls := n\<rparr>) b xs = block_chain h b xs" for b xs
        by (intro block_chain_frame) simp
      have same: "h_live (h\<lparr>h_calls := n\<rparr>) = h_live h" "h_user (h\<lparr>h_calls := n\<rparr>) = h_user h"
        "h_arenas (h\<lparr>h_calls := n\<rparr>) = h_arenas h" "h_blocks (h\<lparr>h_calls := n\<rparr>) = h_blocks h"
        by simp_all
      show ?thesis
        using bl unfolding blocks_ok_def owner_ok_def live_ok_def head_ok_def chain same .
    qed
    moreover have "h_user (h\<lparr>h_calls := n\<rparr>) = h_user h"
      by simp
    ultimately show ?thesis
      unfolding life_inv_def none by blast
  next
    case (block p bs n)
    let ?sz = "HPB_ALIGN_MALLOC sz"
    let ?r = "r\<lparr>a_blocks := p, a_end := p + bs, a_ptr := p + 16 + ?sz\<rparr>"
    have w: "unat (p + bs) = unat p + unat bs" "unat (p + 16) = unat p + 16"
      using block(4,5) unat_add_small [of p bs] unat_add_small [of p 16] by simp_all
    have "unat (p + 16 + ?sz) = unat (p + 16) + unat ?sz"
      using w block(4,5) by (intro unat_add_small) simp
    then have u: "unat (p + 16 + ?sz) = unat p + 16 + unat ?sz"
      using w by simp
    then have "p + 16 + ?sz \<noteq> 0"
      by (metis add_is_0 unat_0 zero_neq_numeral)
    moreover have "8 dvd unat (p + 16 + ?sz)"
      using u block(3) al(1) by simp
    moreover have "unat (p + 16 + ?sz) \<le> unat (p + bs)"
      using u w block(5) by simp
    moreover have "bs \<noteq> 0"
      using block(5) by auto
    ultimately have "blocks_ok (set_arena a ?r (h\<lparr>h_calls := n, h_live := (p, bs) # h_live h,
        h_blocks := (h_blocks h)(p \<mapsto> \<lparr>b_next = a_blocks r, b_size = ucast bs\<rparr>)\<rparr>)) U (\<Union>R. set (G R)) (B(a := p # B a))"
      using block by (intro blocks_ok_block [OF bl aM r(2)]) simp_all
    moreover have "groups_ok (set_arena a ?r (h\<lparr>h_calls := n, h_live := (p, bs) # h_live h,
        h_blocks := (h_blocks h)(p \<mapsto> \<lparr>b_next = a_blocks r, b_size = ucast bs\<rparr>)\<rparr>)) H G"
      by (rule groups_ok_heads [OF ok r(2)]) (simp_all add: link_part_def set_arena_def)
    ultimately show ?thesis
      unfolding life_inv_def block(1) by (intro exI conjI) (rule refl, assumption+, simp add: set_arena_def)
  qed
qed

section \<open>Creation\<close>

lemma groups_ok_new:
  assumes ok: "groups_ok h H G" and a: "a \<notin> (\<Union>R. set (G R))" "a \<noteq> 0" "8 dvd unat a"
    and h': "h_ids h' = a # h_ids h" "h_arenas h' = (h_arenas h)(a \<mapsto> r)"
    and r: "a_parent_or_count r = tagged_count 1" "a_next r = 0" "a_tail r = a"
  shows "groups_ok h' (insert a H) (G(a := [a]))"
proof -
  have aH: "a \<notin> H"
    using ok a(1) unfolding groups_ok_def by blast
  have "group_ok h' (insert a H) R ((G(a := [a])) R)" for R
  proof (cases "R = a")
    case True
    then show ?thesis
      using a h' r aH by (simp add: group_ok_def member_ok_def root_ok_def)
  next
    case False
    have g: "group_ok h H R (G R)"
      using ok by (simp add: groups_ok_def)
    have notin: "a \<notin> set (G R)"
      using a(1) by blast
    have "list_links h' (G R) \<longleftrightarrow> list_links h (G R)"
      using notin h'(2) by (intro list_links_cong) auto
    moreover have "member_ok h' (insert a H) R (G R) b" if m: "member_ok h H R (G R) b" "b \<in> set (G R)" for b
    proof -
      have "insert a H \<inter> set (G R) = H \<inter> set (G R)" "h_arenas h' b = h_arenas h b"
        using notin m(2) h'(2) by auto
      then show ?thesis
        using m(1) h'(1) unfolding member_ok_def root_ok_def by auto
    qed
    ultimately show ?thesis
      using g False by (simp add: group_ok_def)
  qed
  moreover have "set ((G(a := [a])) R) \<inter> set ((G(a := [a])) R') = {}" if "R \<noteq> R'" for R R'
    using that ok a(1) by (auto simp: groups_ok_def)
  moreover have "insert a H \<subseteq> (\<Union>R. set ((G(a := [a])) R))"
  proof
    fix x
    assume x: "x \<in> insert a H"
    have "G a = []"
      using root_facts [OF ok, of a] a(1) by (metis UN_I UNIV_I)
    moreover obtain R where "x = a \<or> x \<in> set (G R)"
      using x ok unfolding groups_ok_def by blast
    ultimately have "x \<in> set ((G(a := [a])) (if x = a then a else R))"
      by auto
    then show "x \<in> (\<Union>R. set ((G(a := [a])) R))"
      by blast
  qed
  ultimately show ?thesis
    by (simp add: groups_ok_def)
qed

lemma owner_region:
  assumes "owner_ok h U B a" "U \<subseteq> set (h_user h)"
  obtains reg where "reg \<in> set (h_live h) \<union> U" "inside a reg"
  using assms unfolding owner_ok_def by (auto split: if_splits)

lemma owner_ok_frame:
  assumes own: "owner_ok h U B b" and same: "h_arenas h' b = h_arenas h b" "set (h_live h) \<subseteq> set (h_live h')" "U \<subseteq> U'"
    and bl: "\<And>x. h_blocks h x \<noteq> None \<Longrightarrow> h_blocks h' x \<noteq> None" "\<And>x. x \<in> set (B b) \<Longrightarrow> h_blocks h' x = h_blocks h x" "B' b = B b"
  shows "owner_ok h' U' B' b"
proof -
  obtain x where x: "h_arenas h b = Some x" "head_ok h x" "a_block_alloc x \<noteq> 1" "block_chain h (a_blocks x) (B b)" "distinct (B b)"
    "B b \<noteq> [] \<longrightarrow> hpb_Arena_BlockAlloc x \<noteq> 0" "if hpb_Arena_HasInitialBlock x then \<exists>reg \<in> U. inside b reg
      else \<exists>reg \<in> set (h_live h). fst reg \<in> set (B b) \<and> inside b reg"
    using own unfolding owner_ok_def by blast
  have "block_chain h' (a_blocks x) (B b)"
    using x(4) block_chain_frame [OF bl(2)] by blast
  moreover have "head_ok h' x"
    using x(2) bl(1) unfolding head_ok_def by blast
  moreover have "if hpb_Arena_HasInitialBlock x then \<exists>reg \<in> U'. inside b reg
      else \<exists>reg \<in> set (h_live h'). fst reg \<in> set (B b) \<and> inside b reg"
    using x(7) same(2,3) by (auto split: if_splits)
  ultimately show ?thesis
    using x(1,3,5,6) unfolding owner_ok_def same(1) bl(3) by blast
qed

lemma blocks_ok_new:
  assumes ok: "blocks_ok h U M B" and a: "a \<notin> M" "inside a (p, sz)"
    and p: "p \<noteq> 0" "sz \<noteq> 0" "\<forall>reg \<in> set (h_live h @ h_user h). range_of (p, sz) \<inter> range_of reg = {}"
    and h': "h_live h' = (p, sz) # h_live h" "h_user h' = h_user h" "h_arenas h' = (h_arenas h)(a \<mapsto> r)"
      "h_blocks h' = (h_blocks h)(p \<mapsto> m)" "b_next m = 0"
    and r: "head_ok h' r" "a_blocks r = p" "\<not> hpb_Arena_HasInitialBlock r" "hpb_Arena_BlockAlloc r \<noteq> 0" "a_block_alloc r \<noteq> 1"
  shows "blocks_ok h' U (insert a M) (B(a := [p]))"
proof -
  have live: "live_ok h"
    using ok by (simp add: blocks_ok_def)
  have live': "live_ok h'" and new: "p \<notin> fst ` set (h_live h)"
    using live_ok_add [OF live p(2,3) h'(1,2)] by simp_all
  have sub: "set (B b) \<subseteq> fst ` set (h_live h)" if "b \<in> M" for b
    using blocks_ok_live [OF ok] that by auto
  have "owner_ok h' U (B(a := [p])) b" if b: "b \<in> M" for b
  proof (rule owner_ok_frame)
    show "owner_ok h U B b"
      using ok b by (simp add: blocks_ok_def)
    show "h_arenas h' b = h_arenas h b" "(B(a := [p])) b = B b"
      using a(1) b h'(3) by auto
    show "h_blocks h' x = h_blocks h x" if "x \<in> set (B b)" for x
      using that sub [OF b] new h'(4) by auto
  qed (use h' in auto)
  moreover have "owner_ok h' U (B(a := [p])) a"
    unfolding owner_ok_def by (rule exI [of _ r]) (use r h' p a(2) in auto)
  moreover have "set ((B(a := [p])) b) \<inter> set ((B(a := [p])) c) = {}" if "b \<in> insert a M" "c \<in> insert a M" "b \<noteq> c" for b c
    using that blocks_ok_disjoint [OF ok, of b c] sub [of b] sub [of c] new by auto
  moreover have "fst ` set (h_live h') = (\<Union>b \<in> insert a M. set ((B(a := [p])) b))"
  proof -
    have "(\<Union>b \<in> M. set ((B(a := [p])) b)) = (\<Union>b \<in> M. set (B b))"
      using a(1) by (intro SUP_cong) auto
    then show ?thesis
      using blocks_ok_live [OF ok] h'(1) by simp
  qed
  ultimately show ?thesis
    using ok live' h'(2) by (simp add: blocks_ok_def)
qed

lemma blocks_ok_init:
  assumes ok: "blocks_ok h U M B" and a: "a \<notin> M" "inside a reg" "reg \<in> set (h_user h)"
    and h': "h_live h' = h_live h" "h_user h' = h_user h" "h_arenas h' = (h_arenas h)(a \<mapsto> r)" "h_blocks h' = h_blocks h"
    and r: "head_ok h' r" "a_blocks r = 0" "hpb_Arena_HasInitialBlock r" "a_block_alloc r \<noteq> 1"
  shows "blocks_ok h' (insert reg U) (insert a M) (B(a := []))"
proof -
  have "owner_ok h' (insert reg U) (B(a := [])) b" if b: "b \<in> M" for b
  proof (rule owner_ok_frame)
    show "owner_ok h U B b"
      using ok b by (simp add: blocks_ok_def)
    show "h_arenas h' b = h_arenas h b" "(B(a := [])) b = B b"
      using a(1) b h'(3) by auto
  qed (use h' in auto)
  moreover have "owner_ok h' (insert reg U) (B(a := [])) a"
    unfolding owner_ok_def by (rule exI [of _ r]) (use r h' a(2) in auto)
  moreover have "set ((B(a := [])) b) \<inter> set ((B(a := [])) c) = {}" if "b \<in> insert a M" "c \<in> insert a M" "b \<noteq> c" for b c
    using that blocks_ok_disjoint [OF ok, of b c] by auto
  moreover have "(\<Union>b \<in> M. set ((B(a := [])) b)) = (\<Union>b \<in> M. set (B b))"
    using a(1) by (intro SUP_cong) auto
  moreover have "live_ok h'"
    using ok h'(1,2) by (simp add: blocks_ok_def live_ok_def)
  ultimately show ?thesis
    using ok a(3) h'(1,2) by (simp add: blocks_ok_def)
qed

end
