(* ===== verification/ArenaInit.thy ===== *)
theory ArenaInit
  imports ArenaLife
begin

text \<open>Creation of arenas and the states that the operations on arenas reach.\<close>

section \<open>A first block from the allocator\<close>

definition users_ok :: "region list \<Rightarrow> bool" where
  "users_ok user \<longleftrightarrow> (\<forall>reg \<in> set user. fst reg \<noteq> 0 \<and> unat (fst reg) + unat (snd reg) < 2 ^ 64 \<and>
     (\<forall>reg' \<in> set user. reg \<noteq> reg' \<longrightarrow> range_of reg \<inter> range_of reg' = {}))"

lemma even_alloc:
  fixes alloc :: u64
  assumes "alloc AND 1 = 0"
  shows "alloc AND NOT 1 = alloc" "alloc \<noteq> 1" "(alloc OR 1) AND 1 \<noteq> 0" "alloc OR 1 = 1 \<longleftrightarrow> alloc = 0"
    "(alloc OR 1) AND NOT 1 = alloc"
proof -
  show e: "alloc AND NOT 1 = alloc"
    using and_not_one [of alloc] assms by simp
  show "alloc \<noteq> 1"
    using assms by auto
  have b: "\<not> bit alloc 0"
    using assms by (simp add: and_one_eq bit_0 even_iff_mod_2_eq_zero)
  show "(alloc OR 1) AND 1 \<noteq> 0"
    by (simp add: bit_eq_iff bit_simps) (auto intro!: exI [of _ 0])
  show i: "(alloc OR 1) AND NOT 1 = alloc"
    using b by (intro bit_eqI) (auto simp: bit_simps intro: gr0I)
  show "alloc OR 1 = 1 \<longleftrightarrow> alloc = 0"
    using i by auto
qed

lemma live_ok_user: "live_ok h \<Longrightarrow> reg \<in> set (h_live h) \<Longrightarrow> reg' \<in> set (h_user h) \<Longrightarrow> range_of reg \<inter> range_of reg' = {}"
  by (simp add: live_ok_def)

lemma users_ok_apart: "users_ok user \<Longrightarrow> reg \<in> set user \<Longrightarrow> reg' \<in> set user \<Longrightarrow> reg \<noteq> reg' \<Longrightarrow> range_of reg \<inter> range_of reg' = {}"
  by (simp add: users_ok_def)

lemma no_member:
  assumes bl: "blocks_ok h U M B" and a: "unat a \<in> S" and S: "\<forall>reg \<in> set (h_live h) \<union> U. S \<inter> range_of reg = {}"
  shows "a \<notin> M"
proof
  assume "a \<in> M"
  then have "owner_ok h U B a" "U \<subseteq> set (h_user h)"
    using bl by (auto simp: blocks_ok_def)
  then obtain reg where "reg \<in> set (h_live h) \<union> U" "unat a \<in> range_of reg"
    using owner_region by (metis inside_range)
  then show False
    using a S by blast
qed

lemma new_members:
  assumes ok: "groups_ok h H G" and a: "a \<notin> (\<Union>R. set (G R))"
  shows "(\<Union>R. set ((G(a := [a])) R)) = insert a (\<Union>R. set (G R))"
proof -
  have "G a = []"
    using root_facts [OF ok, of a] a by (metis UN_I UNIV_I)
  then show ?thesis
    by (auto split: if_splits) (metis empty_iff empty_set)
qed

lemma InitSlow_life:
  assumes inv: "life_inv h H U" and mall: "malloc_ok mall" and alloc: "alloc AND 1 = 0"
  shows "\<exists>a h'. hpb_Arena_InitSlow mall alloc h = Inr (a, h') \<and> h_user h' = h_user h \<and>
    life_inv h' (if a = 0 then H else insert a H) U"
proof -
  obtain G B where ok: "groups_ok h H G" and bl: "blocks_ok h U (\<Union>R. set (G R)) B"
    using inv unfolding life_inv_def by blast
  have calls: "life_inv (h\<lparr>h_calls := n\<rparr>) H U" for n
  proof -
    have same: "h_live (h\<lparr>h_calls := n\<rparr>) = h_live h" "h_user (h\<lparr>h_calls := n\<rparr>) = h_user h"
      "h_arenas (h\<lparr>h_calls := n\<rparr>) = h_arenas h" "h_blocks (h\<lparr>h_calls := n\<rparr>) = h_blocks h"
      by simp_all
    have chain: "block_chain (h\<lparr>h_calls := n\<rparr>) b xs = block_chain h b xs" for b xs
      by (intro block_chain_frame) simp
    have "blocks_ok (h\<lparr>h_calls := n\<rparr>) U (\<Union>R. set (G R)) B"
      using bl unfolding blocks_ok_def owner_ok_def live_ok_def head_ok_def chain same .
    moreover have "groups_ok (h\<lparr>h_calls := n\<rparr>) H G"
      by (rule groups_ok_alloc [OF ok]) simp_all
    ultimately show ?thesis
      unfolding life_inv_def by blast
  qed
  let ?p = "mall (h_calls h) (h_live h @ h_user h) 328"
  show ?thesis
  proof (cases "alloc = 0 \<or> ?p = 0")
    case True
    then show ?thesis
      using inv calls [of "Suc (h_calls h)"]
      by (auto simp: hpb_Arena_InitSlow_def hpb_malloc_def Let_def memblock_reserve_16 sizeof_Arena_def)
  next
    case False
    have p: "8 dvd unat ?p" "unat ?p + 328 < 2 ^ 64"
      "\<forall>reg \<in> set (h_live h @ h_user h). range_of (?p, 328) \<inter> range_of reg = {}"
      using mall False unfolding malloc_ok_def by force+
    let ?a = "?p + 272"
    have u: "unat ?a = unat ?p + 272" "unat (?p + 16) = unat ?p + 16"
      using p(2) unat_add_small [of ?p 272] unat_add_small [of ?p 16] by simp_all
    define r where "r = \<lparr>a_ptr = ?p + 16, a_end = ?a, a_block_alloc = alloc, a_parent_or_count = hpb_Arena_TaggedFromRefcount 1,
      a_next = 0, a_tail = ?a, a_blocks = ?p\<rparr>"
    define h' where "h' = h\<lparr>h_calls := Suc (h_calls h), h_live := (?p, 328) # h_live h,
      h_arenas := (h_arenas h)(?a \<mapsto> r), h_blocks := (h_blocks h)(?p \<mapsto> \<lparr>b_next = 0, b_size = 272\<rparr>), h_ids := ?a # h_ids h\<rparr>"
    have init: "hpb_Arena_InitSlow mall alloc h = Inr (?a, h')"
      using False alloc even_alloc(1) [OF alloc]
      by (simp add: hpb_Arena_InitSlow_def hpb_malloc_def Let_def memblock_reserve_16 sizeof_Arena_def
          hpb_Arena_MakeBlockAlloc_def hpb_Arena_AddBlock_def new_arena_def set_arena_def arena_at_def blank_arena_def
          h'_def r_def)
    have ins: "inside ?a (?p, 328)"
      using u by (simp add: inside_def)
    have notin: "?a \<notin> (\<Union>R. set (G R))"
      using bl p(3) ins by (intro no_member [OF bl, of _ "range_of (?p, 328)"]) (auto simp: inside_range blocks_ok_def)
    have nz: "?a \<noteq> 0" "?p + 16 \<noteq> 0"
      using u by (metis add_is_0 unat_0 zero_neq_numeral)+
    have "blocks_ok h' U (insert ?a (\<Union>R. set (G R))) (B(?a := [?p]))"
    proof (rule blocks_ok_new [OF bl notin ins _ _ p(3), of h' r "\<lparr>b_next = 0, b_size = 272\<rparr>"])
      show "head_ok h' r"
        using nz u p(1) by (simp add: head_ok_def r_def h'_def)
      show "\<not> hpb_Arena_HasInitialBlock r" "hpb_Arena_BlockAlloc r \<noteq> 0" "a_block_alloc r \<noteq> 1"
        using alloc even_alloc(1,2) [OF alloc] False
        by (simp_all add: r_def hpb_Arena_HasInitialBlock_def hpb_Arena_BlockAlloc_def)
    qed (use False in \<open>simp_all add: h'_def r_def\<close>)
    moreover have "groups_ok h' (insert ?a H) (G(?a := [?a]))"
      using TaggedFromRefcount [of 1] u(1) p(1)
      by (intro groups_ok_new [OF ok notin nz(1), of h' r]) (simp_all add: h'_def r_def)
    ultimately have "life_inv h' (insert ?a H) U"
      unfolding life_inv_def using new_members [OF ok notin] by metis
    then show ?thesis
      using init nz(1) by (simp add: h'_def)
  qed
qed

section \<open>A first block from the caller\<close>

lemma align_up_cases:
  fixes mem n :: u64
  assumes "unat mem + unat n < 2 ^ 64"
  defines "A \<equiv> HPB_ALIGN_UP mem HPB_MALLOC_ALIGN"
  defines "n1 \<equiv> (if A - mem \<le> n then n - (A - mem) else 0)"
  defines "n2 \<equiv> HPB_ALIGN_DOWN n1 8"
  assumes big: "56 \<le> unat n2" and nz: "mem \<noteq> 0"
  shows "unat (A + (n2 - 56)) = unat A + unat n2 - 56" "8 dvd unat A" "8 dvd unat n2" "unat mem \<le> unat A"
    "unat A + unat n2 \<le> unat mem + unat n" "A \<noteq> 0"
proof -
  have n2: "unat n2 = unat n1 div 8 * 8"
  proof -
    have "unat (n1 div 8) = unat n1 div 8"
      by (simp add: unat_div_distrib)
    moreover have "unat n1 div 8 * 8 < 2 ^ 64"
      using div_times_less_eq_dividend [of "unat n1" 8] unsigned_less [of n1, where 'a = nat] by simp
    ultimately show ?thesis
      unfolding n2_def HPB_ALIGN_DOWN_def by (simp add: unat_word_ariths(2))
  qed
  then show d2: "8 dvd unat n2"
    by simp
  have le: "A - mem \<le> n" and n1: "n1 = n - (A - mem)"
    using big n2 by (auto simp: n1_def split: if_splits)
  have room: "unat mem + 7 < 2 ^ 64"
  proof -
    have "56 \<le> unat n1"
      using big n2 div_times_less_eq_dividend [of "unat n1" 8] by simp
    moreover have "unat n1 \<le> unat n"
      using le unfolding n1 by (simp add: unat_sub word_le_nat_alt)
    ultimately show ?thesis
      using assms(1) by simp
  qed
  have A: "unat A = (unat mem + 7) div 8 * 8"
    unfolding A_def using unat_align_malloc [OF room] by (simp add: HPB_ALIGN_MALLOC_def)
  then show dA: "8 dvd unat A"
    by simp
  show ge: "unat mem \<le> unat A"
    using A by linarith
  then have delta: "unat (A - mem) = unat A - unat mem"
    by (rule unat_sub_le)
  have "unat n1 = unat n - (unat A - unat mem)"
    using le delta unfolding n1 by (simp add: unat_sub word_le_nat_alt)
  moreover have "unat A - unat mem \<le> unat n"
    using le delta by (simp add: word_le_nat_alt)
  ultimately show sum: "unat A + unat n2 \<le> unat mem + unat n"
    using n2 ge div_times_less_eq_dividend [of "unat n1" 8] by linarith
  have "unat (n2 - 56) = unat n2 - 56"
    using big by (subst unat_sub_le) simp_all
  moreover have "unat A + (unat n2 - 56) < 2 ^ 64"
    using sum assms(1) by linarith
  ultimately show "unat (A + (n2 - 56)) = unat A + unat n2 - 56"
    using big unat_add_small [of A "n2 - 56"] by simp
  have "0 < unat mem"
    using nz by (simp add: unat_gt_0)
  then have "0 < unat A"
    using ge by simp
  then show "A \<noteq> 0"
    by (simp add: unat_gt_0)
qed

lemma Init_life:
  assumes inv: "life_inv h H U" and mall: "malloc_ok mall" and alloc: "alloc AND 1 = 0" "alloc \<noteq> 0"
    and user: "users_ok (h_user h)" and reg: "(mem, n) \<in> set (h_user h)" "(mem, n) \<notin> U" "n \<noteq> 0"
  shows "\<exists>a h' U'. hpb_Arena_Init mall mem n alloc h = Inr (a, h') \<and> h_user h' = h_user h \<and> U' \<subseteq> insert (mem, n) U \<and>
    life_inv h' (if a = 0 then H else insert a H) U'"
proof -
  define A where "A = HPB_ALIGN_UP mem HPB_MALLOC_ALIGN"
  define n2 where "n2 = HPB_ALIGN_DOWN (if A - mem \<le> n then n - (A - mem) else 0) 8"
  show ?thesis
  proof (cases "n2 < sizeof_Arena")
    case True
    then have "hpb_Arena_Init mall mem n alloc h = hpb_Arena_InitSlow mall alloc h"
      using reg(3) by (simp add: hpb_Arena_Init_def Let_def flip: A_def) (simp add: n2_def split: if_splits)
    then show ?thesis
      using InitSlow_life [OF inv mall alloc(1)] by (metis subset_insertI)
  next
    case False
    obtain G B where ok: "groups_ok h H G" and bl: "blocks_ok h U (\<Union>R. set (G R)) B"
      using inv unfolding life_inv_def by blast
    have wf: "unat mem + unat n < 2 ^ 64" "mem \<noteq> 0"
      using user reg(1) unfolding users_ok_def by force+
    have big: "56 \<le> unat n2"
      using False by (simp add: sizeof_Arena_def word_less_nat_alt not_less)
    note f = align_up_cases [OF wf(1) big [unfolded n2_def A_def] wf(2), folded A_def, folded n2_def]
    let ?a = "A + (n2 - 56)"
    define r where "r = \<lparr>a_ptr = A, a_end = ?a, a_block_alloc = alloc OR 1, a_parent_or_count = hpb_Arena_TaggedFromRefcount 1,
      a_next = 0, a_tail = ?a, a_blocks = 0\<rparr>"
    define h' where "h' = h\<lparr>h_arenas := (h_arenas h)(?a \<mapsto> r), h_ids := ?a # h_ids h\<rparr>"
    have init: "hpb_Arena_Init mall mem n alloc h = Inr (?a, h')"
      using False reg(3) alloc(1) unfolding hpb_Arena_Init_def Let_def A_def [symmetric]
      by (simp add: n2_def [symmetric] hpb_Arena_MakeBlockAlloc_def new_arena_def set_arena_def blank_arena_def
          sizeof_Arena_def h'_def r_def)
    have ins: "inside ?a (mem, n)"
    proof -
      have "unat mem \<le> unat A + unat n2 - 56" "unat A + unat n2 - 56 < unat mem + unat n"
        using f(4,5) big by linarith+
      then show ?thesis
        by (simp add: inside_def f(1))
    qed
    have notin: "?a \<notin> (\<Union>R. set (G R))"
    proof (rule no_member [OF bl, of _ "range_of (mem, n)"])
      show "unat ?a \<in> range_of (mem, n)"
        using ins by (simp add: inside_range)
      have live: "live_ok h"
        using bl by (simp add: blocks_ok_def)
      have "range_of (mem, n) \<inter> range_of reg = {}" if "reg \<in> set (h_live h)" for reg
        using live_ok_user [OF live that reg(1)] by (simp add: Int_commute)
      moreover have "range_of (mem, n) \<inter> range_of reg = {}" if "reg \<in> U" for reg
      proof -
        have "reg \<in> set (h_user h)" "(mem, n) \<noteq> reg"
          using that bl reg(2) by (auto simp: blocks_ok_def)
        then show ?thesis
          using users_ok_apart [OF user reg(1)] by blast
      qed
      ultimately show "\<forall>reg \<in> set (h_live h) \<union> U. range_of (mem, n) \<inter> range_of reg = {}"
        by blast
    qed
    have nz: "?a \<noteq> 0"
    proof -
      have "0 < unat A"
        using f(6) by (simp add: unat_gt_0)
      then have "0 < unat ?a"
        using f(1) big by simp
      then show ?thesis
        by (simp add: unat_gt_0)
    qed
    have "blocks_ok h' (insert (mem, n) U) (insert ?a (\<Union>R. set (G R))) (B(?a := []))"
    proof (rule blocks_ok_init [OF bl notin ins reg(1), of h' r])
      show "head_ok h' r"
        using f big by (simp add: head_ok_def r_def)
      show "hpb_Arena_HasInitialBlock r" "a_block_alloc r \<noteq> 1"
        using even_alloc(3,4) [OF alloc(1)] alloc(2) by (simp_all add: r_def hpb_Arena_HasInitialBlock_def)
    qed (simp_all add: h'_def r_def)
    moreover have "groups_ok h' (insert ?a H) (G(?a := [?a]))"
    proof -
      have "8 dvd unat A + (unat n2 - 56)"
        using f(2,3) big by (intro dvd_add dvd_diff_nat) simp_all
      then have "8 dvd unat ?a"
        using f(1) big by simp
      then show ?thesis
        using TaggedFromRefcount [of 1]
        by (intro groups_ok_new [OF ok notin nz, of h' r]) (simp_all add: h'_def r_def)
    qed
    ultimately have "life_inv h' (insert ?a H) (insert (mem, n) U)"
      unfolding life_inv_def using new_members [OF ok notin] by metis
    then show ?thesis
      using init nz by (intro exI [of _ ?a] exI [of _ h'] exI [of _ "insert (mem, n) U"]) (simp add: h'_def)
  qed
qed

section \<open>Reachable states\<close>

definition empty_heap :: "region list \<Rightarrow> heap" where
  "empty_heap user = \<lparr>h_arenas = (\<lambda>_. None), h_blocks = (\<lambda>_. None), h_mem = (\<lambda>_. 0), h_live = [], h_user = user,
     h_calls = 0, h_ids = []\<rparr>"

text \<open>
  The states of a program that uses arenas: the heap, the arenas that were created and not
  released, and the memory of the caller that was given to an arena.
\<close>

inductive reachable :: "allocator \<Rightarrow> region list \<Rightarrow> heap \<Rightarrow> u64 set \<Rightarrow> region set \<Rightarrow> bool" for mall user where
  start: "reachable mall user (empty_heap user) {} {}"
| new: "reachable mall user h H U \<Longrightarrow> alloc AND 1 = 0 \<Longrightarrow> hpb_Arena_New mall alloc h = Inr (a, h') \<Longrightarrow>
    reachable mall user h' (if a = 0 then H else insert a H) U"
| init: "reachable mall user h H U \<Longrightarrow> alloc AND 1 = 0 \<Longrightarrow> alloc \<noteq> 0 \<Longrightarrow> (mem, n) \<in> set user - U \<Longrightarrow> n \<noteq> 0 \<Longrightarrow>
    hpb_Arena_Init mall mem n alloc h = Inr (a, h') \<Longrightarrow>
    reachable mall user h' (if a = 0 then H else insert a H) (insert (mem, n) U)"
| malloc: "reachable mall user h H U \<Longrightarrow> a \<in> H \<Longrightarrow> unat sz \<le> 2 ^ 63 \<Longrightarrow> hpb_Arena_Malloc mall a sz h = Inr (p, h') \<Longrightarrow>
    reachable mall user h' H U"
| fuse: "reachable mall user h H U \<Longrightarrow> a \<in> H \<Longrightarrow> b \<in> H \<Longrightarrow> hpb_Arena_Fuse a b h = Inr (c, h') \<Longrightarrow> reachable mall user h' H U"
| free: "reachable mall user h H U \<Longrightarrow> a \<in> H \<Longrightarrow> hpb_Arena_Free a h = Inr h' \<Longrightarrow> reachable mall user h' (H - {a}) U"

lemma blocks_ok_more_users:
  assumes "blocks_ok h U M B" "U \<subseteq> U'" "U' \<subseteq> set (h_user h)"
  shows "blocks_ok h U' M B"
proof -
  have "owner_ok h U' B a" if "owner_ok h U B a" for a
    using that assms(2) by (intro owner_ok_frame [OF that]) auto
  then show ?thesis
    using assms by (simp add: blocks_ok_def)
qed

lemma Fuse_life:
  assumes inv: "life_inv h H U" and a: "a \<in> H" "b \<in> H"
  shows "\<exists>c h'. hpb_Arena_Fuse a b h = Inr (c, h') \<and> life_inv h' H U \<and> h_user h' = h_user h"
proof -
  obtain G B where ok: "groups_ok h H G" and bl: "blocks_ok h U (\<Union>R. set (G R)) B"
    using inv unfolding life_inv_def by blast
  obtain x r1 where x: "a \<in> set (G r1)" "h_arenas h a = Some x"
    using member_owner [OF ok bl a(1)] by blast
  obtain y r2 where y: "b \<in> set (G r2)" "h_arenas h b = Some y"
    using member_owner [OF ok bl a(2)] by blast
  show ?thesis
  proof (cases "a \<noteq> b \<and> (hpb_Arena_HasInitialBlock x \<or> hpb_Arena_HasInitialBlock y)")
    case True
    then have "hpb_Arena_Fuse a b h = Inr (False, h)"
      using x(2) y(2) by (auto simp: hpb_Arena_Fuse_def arena_at_def)
    then show ?thesis
      using inv by blast
  next
    case False
    show ?thesis
    proof (cases "a = b")
      case True
      then have "hpb_Arena_Fuse a b h = Inr (True, h)"
        by (simp add: hpb_Arena_Fuse_def)
      then show ?thesis
        using inv by blast
    next
      case neq: False
      obtain h' where h': "hpb_Arena_Fuse a b h = Inr (True, h')" "groups_ok h' H (fused G r1 r2)" "relinked h h'"
        using Fuse_correct [OF ok x(1) y(1) x(2) y(2)] False neq by blast
      have "(\<Union>R. set (fused G r1 r2 R)) = (\<Union>R. set (G R))"
        by (rule fused_members)
      then have "blocks_ok h' U (\<Union>R. set (fused G r1 r2 R)) B"
        using blocks_ok_relinked [OF bl h'(3)] by simp
      moreover have "h_user h' = h_user h"
        using h'(3) by (auto simp: relinked_def)
      ultimately show ?thesis
        using h'(1,2) unfolding life_inv_def by blast
    qed
  qed
qed

lemma Free_life:
  assumes inv: "life_inv h H U" and a: "a \<in> H"
  shows "\<exists>h'. hpb_Arena_Free a h = Inr h' \<and> life_inv h' (H - {a}) U \<and> h_user h' = h_user h"
proof -
  obtain G B where ok: "groups_ok h H G" and bl: "blocks_ok h U (\<Union>R. set (G R)) B"
    using inv unfolding life_inv_def by blast
  obtain root where "a \<in> set (G root)"
    using member_owner [OF ok bl a] by blast
  then show ?thesis
    using Free_correct [OF ok bl a] unfolding life_inv_def by blast
qed

lemma reachable_inv:
  assumes "malloc_ok mall" "users_ok user"
  shows "reachable mall user h H U \<Longrightarrow> life_inv h H U \<and> h_user h = user"
proof (induction rule: reachable.induct)
  case start
  have "groups_ok (empty_heap user) {} (\<lambda>_. [])" "blocks_ok (empty_heap user) {} {} (\<lambda>_. [])"
    by (simp_all add: groups_ok_def group_ok_def blocks_ok_def live_ok_def empty_heap_def)
  then show ?case
    unfolding life_inv_def by (auto simp: empty_heap_def intro!: exI [of _ "\<lambda>_. []"])
next
  case (new h H U alloc a h')
  have "hpb_Arena_New mall alloc h = hpb_Arena_InitSlow mall alloc h"
    by (simp add: hpb_Arena_New_def hpb_Arena_Init_def HPB_ALIGN_DOWN_def sizeof_Arena_def Let_def)
  then show ?case
    using InitSlow_life [of h H U mall alloc] assms(1) new by auto
next
  case (init h H U alloc mem n a h')
  then obtain U' where U': "U' \<subseteq> insert (mem, n) U" "life_inv h' (if a = 0 then H else insert a H) U'" "h_user h' = h_user h"
    using Init_life [of h H U mall alloc mem n] assms by auto
  then obtain G B where "groups_ok h' (if a = 0 then H else insert a H) G" "blocks_ok h' U' (\<Union>R. set (G R)) B"
    unfolding life_inv_def by blast
  moreover have "insert (mem, n) U \<subseteq> set (h_user h')"
    using init U'(3) unfolding life_inv_def blocks_ok_def by auto
  ultimately show ?case
    using U' blocks_ok_more_users [OF _ U'(1)] init unfolding life_inv_def by blast
next
  case (malloc h H U a sz p h')
  then show ?case
    using Malloc_life [of h H U mall a sz] assms(1) by auto
next
  case (fuse h H U a b c h')
  then show ?case
    using Fuse_life [of h H U a b] by auto
next
  case (free h H U a h')
  then show ?case
    using Free_life [of h H U a] by auto
qed

end
