(* ===== verification/ArenaSafe.thy ===== *)
theory ArenaSafe
  imports ArenaInit
begin

text \<open>The theorems on arenas, with an allocator that hands out increasing addresses as an example.\<close>

section \<open>An allocator\<close>

definition bump_top :: "region list \<Rightarrow> nat" where
  "bump_top regs = foldr (\<lambda>reg t. max t (unat (fst reg) + unat (snd reg))) regs 8"

definition bump :: allocator where
  "bump n regs sz =
     (let p = (bump_top regs + 7) div 8 * 8 in if sz = 0 \<or> p + unat sz \<ge> 2 ^ 64 then 0 else of_nat p)"

lemma bump_top_ge: "reg \<in> set regs \<Longrightarrow> unat (fst reg) + unat (snd reg) \<le> bump_top regs"
  by (induction regs) (auto simp: bump_top_def)

lemma bump_ok: "malloc_ok bump"
proof -
  have "sz \<noteq> 0 \<and> 8 dvd unat (bump n regs sz) \<and> unat (bump n regs sz) + unat sz < 2 ^ 64 \<and>
     (\<forall>reg \<in> set regs. range_of (bump n regs sz, sz) \<inter> range_of reg = {})" if nz: "bump n regs sz \<noteq> 0" for n regs sz
  proof -
    let ?p = "(bump_top regs + 7) div 8 * 8"
    have p: "bump n regs sz = of_nat ?p" "sz \<noteq> 0" "?p + unat sz < 2 ^ 64"
      using nz by (auto simp: bump_def Let_def split: if_splits)
    then have u: "unat (bump n regs sz) = ?p"
      by (simp only: p(1)) (subst unat_of_nat, simp)
    have "bump_top regs \<le> ?p"
      by linarith
    then have "unat (fst reg) + unat (snd reg) \<le> ?p" if "reg \<in> set regs" for reg
      using bump_top_ge [OF that] by simp
    then have "range_of (bump n regs sz, sz) \<inter> range_of reg = {}" if "reg \<in> set regs" for reg
      using that u by (fastforce simp: range_of_def)
    then show ?thesis
      using u p by simp
  qed
  then show ?thesis
    unfolding malloc_ok_def by blast
qed

section \<open>Layout\<close>

lemma InitSlow_layout:
  assumes lay: "layout_ok h allocs" and mall: "malloc_ok mall" and init: "hpb_Arena_InitSlow mall alloc h = Inr (a, h')"
    and alloc: "alloc AND 1 = 0"
  shows "layout_ok h' allocs"
proof -
  let ?p = "mall (h_calls h) (h_live h @ h_user h) 328"
  show ?thesis
  proof (cases "alloc = 0 \<or> ?p = 0")
    case True
    then show ?thesis
      using lay init
      by (cases "alloc = 0") (auto simp: hpb_Arena_InitSlow_def hpb_malloc_def Let_def memblock_reserve_16 sizeof_Arena_def
          layout_ok_calls)
  next
    case False
    have p: "8 dvd unat ?p" "unat ?p + 328 < 2 ^ 64"
      "\<forall>reg \<in> set (h_live h @ h_user h). range_of (?p, 328) \<inter> range_of reg = {}"
      using mall False unfolding malloc_ok_def by force+
    let ?a = "?p + 272"
    have u: "unat ?a = unat ?p + 272" "unat (?p + 16) = unat ?p + 16"
      using p(2) unat_add_small [of ?p 272] unat_add_small [of ?p 16] by simp_all
    define r where "r = \<lparr>a_ptr = ?p + 16, a_end = ?a, a_block_alloc = alloc, a_parent_or_count = hpb_Arena_TaggedFromRefcount 1,
      a_next = 0, a_tail = ?a, a_blocks = ?p\<rparr>"
    have h': "h' = h\<lparr>h_calls := Suc (h_calls h), h_live := (?p, 328) # h_live h, h_ids := ?a # h_ids h,
      h_blocks := (h_blocks h)(?p \<mapsto> \<lparr>b_next = 0, b_size = 272\<rparr>), h_arenas := (h_arenas h)(?a \<mapsto> r)\<rparr>"
      using False alloc init
      by (auto simp: hpb_Arena_InitSlow_def hpb_malloc_def Let_def memblock_reserve_16 sizeof_Arena_def
          hpb_Arena_MakeBlockAlloc_def hpb_Arena_AddBlock_def new_arena_def set_arena_def arena_at_def blank_arena_def r_def)
    let ?F = "{ArenaStruct ?a, BlockHeader ?p, FreeSpace ?a}" let ?own = "\<lambda>q. if q \<in> ?F then {} else {q}"
    have range: "piece_range h' allocs (ArenaStruct ?a) = {unat ?p + 272 ..< unat ?p + 328}"
      "piece_range h' allocs (BlockHeader ?p) = {unat ?p ..< unat ?p + 16}"
      "piece_range h' allocs (FreeSpace ?a) = {unat ?p + 16 ..< unat ?p + 272}"
      using u by (simp_all add: h' r_def add.commute)
    have same: "piece_range h' allocs q = piece_range h allocs q" if "q \<notin> ?F" for q
      using that by (cases q) (auto simp: h' split: option.splits)
    have "pieces_apart h' allocs"
    proof (rule pieces_apart_carve [where own = ?own and fresh = "range_of (?p, 328)" and F = ?F])
      show "pieces_apart h allocs"
        using lay by (simp add: layout_ok_def)
      show "piece_range h' allocs q \<subseteq> (\<Union>q' \<in> ?own q. piece_range h allocs q') \<union> (if q \<in> ?F then range_of (?p, 328) else {})" for q
        using range same [of q] by (cases "q \<in> ?F") (auto simp: range_of_def)
      show "range_of (?p, 328) \<inter> space h = {}"
        using p(3) by (auto simp: space_def)
      show "space h' = space h \<union> range_of (?p, 328)"
        by (auto simp: space_def h')
      show "piece_range h' allocs q \<inter> piece_range h' allocs q' = {}"
        if "q \<noteq> q'" "?own q \<inter> ?own q' \<noteq> {} \<or> q \<in> ?F \<and> q' \<in> ?F" for q q'
        using that range by (auto split: if_splits)
    qed
    moreover have "head_ok h' x" if "h_arenas h' b = Some x" for b x
    proof (cases "b = ?a")
      case True
      have "?p + 16 \<noteq> 0"
        using u by (metis add_is_0 unat_0 zero_neq_numeral)
      then show ?thesis
        using that True u p(1) by (auto simp: h' head_ok_def r_def)
    next
      case False
      then have "head_ok h x"
        using that lay by (simp add: h' layout_ok_def)
      then show ?thesis
        by (auto simp: head_ok_def h')
    qed
    ultimately show ?thesis
      using lay by (simp add: layout_ok_def)
  qed
qed

section \<open>An example\<close>

definition ex_arena :: "u64 \<Rightarrow> hpb_Arena" where
  "ex_arena p = \<lparr>a_ptr = p + 16, a_end = p + 272, a_block_alloc = 16, a_parent_or_count = 3, a_next = 0, a_tail = p + 272, a_blocks = p\<rparr>"

lemma New_bump:
  assumes "bump (h_calls h) (h_live h @ h_user h) 328 = p" "p \<noteq> 0"
  shows "\<exists>h'. hpb_Arena_New bump 16 h = Inr (p + 272, h') \<and> h_arenas h' = (h_arenas h)(p + 272 \<mapsto> ex_arena p) \<and>
    h_live h' = (p, 328) # h_live h \<and> h_user h' = h_user h"
proof -
  have slow: "hpb_Arena_New bump 16 h = hpb_Arena_InitSlow bump 16 h"
    by (simp add: hpb_Arena_New_def hpb_Arena_Init_def HPB_ALIGN_DOWN_def sizeof_Arena_def Let_def)
  have "hpb_Arena_TaggedFromRefcount 1 = 3"
    by (simp add: hpb_Arena_TaggedFromRefcount_def)
  then show ?thesis
    using assms unfolding slow
    by (simp add: hpb_Arena_InitSlow_def hpb_malloc_def Let_def memblock_reserve_16 sizeof_Arena_def
        hpb_Arena_MakeBlockAlloc_def hpb_Arena_AddBlock_def new_arena_def set_arena_def arena_at_def blank_arena_def ex_arena_def)
qed

lemma layout_ok_empty: "layout_ok (empty_heap user) []"
proof -
  have "piece_range (empty_heap user) [] p = {}" for p
    by (cases p) (simp_all add: empty_heap_def)
  then show ?thesis
    by (simp add: layout_ok_def pieces_apart_def) (simp add: empty_heap_def)
qed

lemma one_arena:
  obtains h where "hpb_Arena_New bump 16 (empty_heap []) = Inr (280, h)" "h_arenas h = [280 \<mapsto> ex_arena 8]"
    "h_live h = [(8, 328)]" "h_user h = []" "reachable bump [] h {280} {}" "layout_ok h []"
proof -
  have "bump (h_calls (empty_heap [])) (h_live (empty_heap []) @ h_user (empty_heap [])) 328 = 8"
    by (simp add: bump_def bump_top_def empty_heap_def)
  then obtain h where h: "hpb_Arena_New bump 16 (empty_heap []) = Inr (280, h)" "h_arenas h = [280 \<mapsto> ex_arena 8]"
    "h_live h = [(8, 328)]" "h_user h = []"
    using New_bump [of "empty_heap []" 8] by (auto simp: empty_heap_def)
  have "reachable bump [] h (if (280 :: u64) = 0 then {} else insert 280 {}) {}"
    by (rule reachable.new [OF reachable.start _ h(1)]) simp
  then have "reachable bump [] h {280} {}"
    by simp
  moreover have "hpb_Arena_InitSlow bump 16 (empty_heap []) = Inr (280, h)"
    using h(1) by (simp add: hpb_Arena_New_def hpb_Arena_Init_def HPB_ALIGN_DOWN_def sizeof_Arena_def Let_def)
  then have "layout_ok h []"
    by (rule InitSlow_layout [OF layout_ok_empty bump_ok]) simp
  ultimately show thesis
    using that h by blast
qed

section \<open>Theorems\<close>

text \<open>
  C4: an allocation of at most \<open>2 ^ 63\<close> bytes returns without a failed assertion. Unless it
  returns null, the memory it returns is aligned, lies in memory obtained from the allocator or
  given by the caller, and overlaps no earlier allocation, no arena structure, no block header
  and no free space of any arena; no byte of memory changes.
\<close>

theorem hpb_Arena_Malloc_layout:
  assumes "layout_ok h allocs" "malloc_ok mall" "h_arenas h a = Some r" "a_block_alloc r \<noteq> 1" "unat sz \<le> 2 ^ 63"
  shows "\<exists>p h'. hpb_Arena_Malloc mall a sz h = Inr (p, h') \<and> h_mem h' = h_mem h \<and>
    layout_ok h' (if p = 0 then allocs else allocs @ [(p, HPB_ALIGN_MALLOC sz)])"
  by (rule Malloc_result [OF assms])

theorem hpb_Arena_Malloc_layout_witness:
  "\<exists>h p h'. hpb_Arena_New bump 16 (empty_heap []) = Inr (280, h) \<and> hpb_Arena_Malloc bump 280 100 h = Inr (p, h') \<and>
     layout_ok h' (if p = 0 then [] else [(p, 104)])"
proof -
  obtain h where h: "hpb_Arena_New bump 16 (empty_heap []) = Inr (280, h)" "h_arenas h = [280 \<mapsto> ex_arena 8]" "layout_ok h []"
    using one_arena by blast
  have al: "HPB_ALIGN_MALLOC 100 = 104"
    by (simp add: HPB_ALIGN_MALLOC_def HPB_ALIGN_UP_def HPB_MALLOC_ALIGN_def)
  have ex: "h_arenas h 280 = Some (ex_arena 8)" "a_block_alloc (ex_arena 8) \<noteq> 1" "unat (100 :: u64) \<le> 2 ^ 63"
    by (simp_all add: h(2) ex_arena_def)
  show ?thesis
    using hpb_Arena_Malloc_layout [OF h(3) bump_ok ex] h(1) unfolding al append_Nil by blast
qed

text \<open>
  C14: a reallocation of an allocation returns without a failed assertion; unless it returns null,
  the bytes up to the smaller size are those of the old allocation, the new allocation overlaps
  nothing else, and the bytes of all other allocations are unchanged. A null result leaves the
  old allocation as it was.
\<close>

theorem hpb_Arena_Realloc_contents:
  assumes "layout_ok h allocs" "malloc_ok mall" "h_arenas h a = Some r" "a_block_alloc r \<noteq> 1"
    "i < length allocs" "allocs ! i = (ptr, HPB_ALIGN_MALLOC old)" "unat old \<le> 2 ^ 62" "unat sz \<le> 2 ^ 62"
  shows "\<exists>p h'. hpb_Arena_Realloc mall a ptr old sz h = Inr (p, h') \<and> keeps_bytes h h' allocs \<and>
    (if p = 0 then layout_ok h' allocs
     else (\<forall>k. unat k < unat old \<longrightarrow> unat k < unat sz \<longrightarrow> h_mem h' (p + k) = h_mem h (ptr + k)) \<and>
       (layout_ok h' (allocs[i := (p, HPB_ALIGN_MALLOC sz)]) \<or> layout_ok h' (allocs @ [(p, HPB_ALIGN_MALLOC sz)])))"
  by (rule Realloc_result [OF assms])

theorem hpb_Arena_Realloc_contents_witness:
  "\<exists>h h' p h''. hpb_Arena_New bump 16 (empty_heap []) = Inr (280, h) \<and> hpb_Arena_Malloc bump 280 100 h = Inr (24, h') \<and>
     hpb_Arena_Realloc bump 280 24 100 200 h' = Inr (p, h'') \<and> keeps_bytes h' h'' [(24, 104)]"
proof -
  obtain h where h: "hpb_Arena_New bump 16 (empty_heap []) = Inr (280, h)" "h_arenas h = [280 \<mapsto> ex_arena 8]" "layout_ok h []"
    using one_arena by blast
  have al: "HPB_ALIGN_MALLOC 100 = 104"
    by (simp add: HPB_ALIGN_MALLOC_def HPB_ALIGN_UP_def HPB_MALLOC_ALIGN_def)
  have hd: "head_ok h (ex_arena 8)"
    using h(2,3) by (simp add: layout_ok_def)
  let ?h = "set_arena 280 ((ex_arena 8)\<lparr>a_ptr := a_ptr (ex_arena 8) + HPB_ALIGN_MALLOC 100\<rparr>) h"
  have "malloc_depth (Suc (Suc 0)) bump 280 100 h = Inr (a_ptr (ex_arena 8), ?h)"
    by (rule malloc_depth_fast [OF hd]) (simp_all add: h(2) al ex_arena_def)
  then have m: "hpb_Arena_Malloc bump 280 100 h = Inr (24, ?h)"
    unfolding hpb_Arena_Malloc_def numeral_2_eq_2 by (simp add: ex_arena_def del: malloc_depth.simps)
  have "layout_ok ?h ([] @ [(a_ptr (ex_arena 8), HPB_ALIGN_MALLOC 100)])"
    by (rule take_layout [OF h(3)]) (simp_all add: h(2) al ex_arena_def)
  then have "layout_ok ?h [(24, 104)]"
    by (simp add: al ex_arena_def)
  then obtain p h'' where "hpb_Arena_Realloc bump 280 24 100 200 ?h = Inr (p, h'')" "keeps_bytes ?h h'' [(24, 104)]"
    using hpb_Arena_Realloc_contents [OF _ bump_ok, of ?h "[(24, 104)]" 280 _ 0 24 100 200] al
    by (auto simp: set_arena_def ex_arena_def)
  then show ?thesis
    using h(1) m by blast
qed

text \<open>
  C6: in every state that creation, allocation, fusing and release can reach, an operation on
  arenas that were not released returns: there is no failed assertion, no access to released
  memory, no release of memory that is not held, and no endless loop.
\<close>

theorem hpb_Arena_operations_return:
  assumes "malloc_ok mall" "users_ok user" "reachable mall user h H U" "a \<in> H" "b \<in> H" "unat sz \<le> 2 ^ 63"
  shows "(\<exists>h'. hpb_Arena_Free a h = Inr h') \<and> (\<exists>c h'. hpb_Arena_Fuse a b h = Inr (c, h')) \<and>
    (\<exists>p h'. hpb_Arena_Malloc mall a sz h = Inr (p, h'))"
proof -
  have inv: "life_inv h H U"
    using reachable_inv [OF assms(1-3)] by simp
  show ?thesis
    using Free_life [OF inv assms(4)] Fuse_life [OF inv assms(4,5)] Malloc_life [OF inv assms(1,4,6)] by blast
qed

theorem hpb_Arena_operations_return_witness:
  "\<exists>h h'. hpb_Arena_New bump 16 (empty_heap []) = Inr (280, h) \<and> hpb_Arena_Free 280 h = Inr h'"
proof -
  obtain h where h: "hpb_Arena_New bump 16 (empty_heap []) = Inr (280, h)" "reachable bump [] h {280} {}"
    using one_arena by blast
  then show ?thesis
    using hpb_Arena_operations_return [OF bump_ok _ h(2), of 280 280 0] by (auto simp: users_ok_def)
qed

text \<open>
  C7: when every arena has been released, fused or not, all memory obtained from the allocator
  has been returned to it.
\<close>

theorem hpb_Arena_no_leak:
  assumes "malloc_ok mall" "users_ok user" "reachable mall user h {} U"
  shows "h_live h = []"
proof -
  obtain G B where ok: "groups_ok h {} G" and bl: "blocks_ok h U (\<Union>R. set (G R)) B"
    using reachable_inv [OF assms] unfolding life_inv_def by blast
  have "G R = []" for R
  proof (rule ccontr)
    assume "G R \<noteq> []"
    then obtain r where "root_ok {} (G R) r"
      using root_facts [OF ok] by metis
    then show False
      by (simp add: root_ok_def)
  qed
  then show ?thesis
    using blocks_ok_live [OF bl] by simp
qed

theorem hpb_Arena_no_leak_witness:
  "\<exists>h h'. hpb_Arena_New bump 16 (empty_heap []) = Inr (280, h) \<and> h_live h = [(8, 328)] \<and>
     hpb_Arena_Free 280 h = Inr h' \<and> h_live h' = []"
proof -
  obtain h where h: "hpb_Arena_New bump 16 (empty_heap []) = Inr (280, h)" "h_live h = [(8, 328)]" "reachable bump [] h {280} {}"
    using one_arena by blast
  have user: "users_ok []"
    by (simp add: users_ok_def)
  obtain h' where h': "hpb_Arena_Free 280 h = Inr h'"
    using Free_life [of h "{280}" "{}" 280] reachable_inv [OF bump_ok user h(3)] by auto
  then have "reachable bump [] h' {} {}"
    using reachable.free [OF h(3) _ h'] by simp
  then show ?thesis
    using hpb_Arena_no_leak [OF bump_ok user] h h' by blast
qed

text \<open>
  C16: fusing two arenas that have no initial block succeeds and extends the lifetime of both:
  releasing the first of them afterwards returns no memory to the allocator.
\<close>

theorem hpb_Arena_Fuse_extends:
  assumes "malloc_ok mall" "users_ok user" "reachable mall user h H U" "a \<in> H" "b \<in> H" "a \<noteq> b"
    "h_arenas h a = Some x" "h_arenas h b = Some y" "\<not> hpb_Arena_HasInitialBlock x" "\<not> hpb_Arena_HasInitialBlock y"
  shows "\<exists>h1 h2. hpb_Arena_Fuse a b h = Inr (True, h1) \<and> hpb_Arena_Free a h1 = Inr h2 \<and> h_live h2 = h_live h"
proof -
  obtain G B where ok: "groups_ok h H G" and bl: "blocks_ok h U (\<Union>R. set (G R)) B"
    using reachable_inv [OF assms(1-3)] unfolding life_inv_def by blast
  obtain r1 r2 where r: "a \<in> set (G r1)" "b \<in> set (G r2)"
    using member_owner [OF ok bl] assms(4,5) by metis
  obtain h1 where h1: "hpb_Arena_Fuse a b h = Inr (True, h1)" "groups_ok h1 H (fused G r1 r2)" "relinked h h1"
    using Fuse_correct [OF ok r assms(7-10)] by blast
  have bl1: "blocks_ok h1 U (\<Union>R. set (fused G r1 r2 R)) B"
    using blocks_ok_relinked [OF bl h1(3)] fused_members by simp
  have live: "h_live h1 = h_live h"
    using h1(3) by (auto simp: relinked_def)
  have both: "a \<in> set (fused G r1 r2 (min r1 r2))" "b \<in> set (fused G r1 r2 (min r1 r2))"
    using r by (auto simp: fused_def joined_def min_def max_def)
  then have "b \<in> H \<inter> set (fused G r1 r2 (min r1 r2))"
    using assms(5) by blast
  then have "H \<inter> set (fused G r1 r2 (min r1 r2)) \<noteq> {a}"
    using assms(6) by auto
  then show ?thesis
    using Free_correct [OF h1(2) bl1 assms(4) both(1)] h1(1) live by auto
qed

theorem hpb_Arena_Fuse_extends_witness:
  "\<exists>h0 h h1 h2. hpb_Arena_New bump 16 (empty_heap []) = Inr (280, h0) \<and> hpb_Arena_New bump 16 h0 = Inr (608, h) \<and>
     hpb_Arena_Fuse 280 608 h = Inr (True, h1) \<and> hpb_Arena_Free 280 h1 = Inr h2 \<and> h_live h2 = [(336, 328), (8, 328)]"
proof -
  obtain h0 where h0: "hpb_Arena_New bump 16 (empty_heap []) = Inr (280, h0)" "h_arenas h0 = [280 \<mapsto> ex_arena 8]"
    "h_live h0 = [(8, 328)]" "h_user h0 = []" "reachable bump [] h0 {280} {}"
    using one_arena by blast
  have "bump (h_calls h0) (h_live h0 @ h_user h0) 328 = 336"
    by (simp add: h0(3,4) bump_def bump_top_def)
  then obtain h where h: "hpb_Arena_New bump 16 h0 = Inr (608, h)" "h_arenas h = [280 \<mapsto> ex_arena 8, 608 \<mapsto> ex_arena 336]"
    "h_live h = [(336, 328), (8, 328)]"
    using New_bump [of h0 336] h0 by auto
  have "reachable bump [] h (if (608 :: u64) = 0 then {280} else insert 608 {280}) {}"
    by (rule reachable.new [OF h0(5) _ h(1)]) simp
  then have "reachable bump [] h {608, 280} {}"
    by simp
  then have "\<exists>h1 h2. hpb_Arena_Fuse 280 608 h = Inr (True, h1) \<and> hpb_Arena_Free 280 h1 = Inr h2 \<and> h_live h2 = h_live h"
    using hpb_Arena_Fuse_extends [OF bump_ok, of "[]" h "{608, 280}" "{}" 280 608 "ex_arena 8" "ex_arena 336"] h(2)
    by (simp add: users_ok_def hpb_Arena_HasInitialBlock_def ex_arena_def)
  then show ?thesis
    using h0(1) h(1,3) by auto
qed

text \<open>
  An arena created in memory of the caller without a block allocator cannot grow; but an
  allocation that does not fit does not return null, it calls the missing allocator. Here 128
  bytes leave 72 for allocations, and a request of 80 fails the assertion of \<open>hpb_malloc\<close>.
\<close>

theorem hpb_Arena_fixed_size_overflow:
  "\<exists>a h. hpb_Arena_Init mall 4096 128 0 (empty_heap [(4096, 128)]) = Inr (a, h) \<and>
     (\<exists>h'. hpb_Arena_Malloc mall a 72 h = Inr (4096, h')) \<and> hpb_Arena_Malloc mall a 80 h = Inl FailedAssert"
proof -
  let ?r = "\<lparr>a_ptr = 4096, a_end = 4168, a_block_alloc = 1, a_parent_or_count = hpb_Arena_TaggedFromRefcount 1,
    a_next = 0, a_tail = 4168, a_blocks = 0\<rparr>"
  let ?h = "(empty_heap [(4096, 128)])\<lparr>h_arenas := (h_arenas (empty_heap [(4096, 128)]))(4168 \<mapsto> ?r), h_ids := [4168]\<rparr>"
  have init: "hpb_Arena_Init mall 4096 128 0 (empty_heap [(4096, 128)]) = Inr (4168, ?h)"
    by (simp add: hpb_Arena_Init_def HPB_ALIGN_UP_def HPB_ALIGN_DOWN_def HPB_MALLOC_ALIGN_def sizeof_Arena_def
        hpb_Arena_MakeBlockAlloc_def new_arena_def set_arena_def blank_arena_def Let_def empty_heap_def)
  have r: "h_arenas ?h 4168 = Some ?r"
    by simp
  have "HPB_ALIGN_MALLOC 72 = 72" "HPB_ALIGN_MALLOC 80 = 80"
    by (simp_all add: HPB_ALIGN_MALLOC_def HPB_ALIGN_UP_def HPB_MALLOC_ALIGN_def)
  have "head_ok ?h ?r"
    by (simp add: head_ok_def)
  then have "malloc_depth (Suc (Suc 0)) mall 4168 72 ?h = Inr (a_ptr ?r, set_arena 4168 (?r\<lparr>a_ptr := a_ptr ?r + HPB_ALIGN_MALLOC 72\<rparr>) ?h)"
    by (rule malloc_depth_fast [OF _ r]) (simp_all add: \<open>HPB_ALIGN_MALLOC 72 = 72\<close>)
  then have "\<exists>h'. hpb_Arena_Malloc mall 4168 72 ?h = Inr (4096, h')"
    unfolding hpb_Arena_Malloc_def numeral_2_eq_2 by (simp del: malloc_depth.simps)
  moreover have "hpb_Arena_Malloc mall 4168 80 ?h = Inl FailedAssert"
    unfolding hpb_Arena_Malloc_def numeral_2_eq_2
    by (simp add: \<open>HPB_ALIGN_MALLOC 80 = 80\<close> Let_def hpb_ArenaHas_def arena_at_def hpb_Arena_SlowMalloc_def
        hpb_Arena_AllocBlock_def hpb_malloc_def hpb_Arena_BlockAlloc_def)
  ultimately show ?thesis
    using init by blast
qed

end
