(* ===== verification/Memory.thy ===== *)
theory Memory
  imports ArenaSafe
begin

text \<open>
  Access to the bytes of an arena's memory: \<open>memcpy\<close>, \<open>memmove\<close>, \<open>memset\<close> and words of eight
  bytes in little-endian order. An access to an offset of an allocation that does not wrap around
  the address space changes the bytes at these offsets and no others.
\<close>

section \<open>Operations\<close>

definition mem_write :: "u64 \<Rightarrow> byte list \<Rightarrow> heap \<Rightarrow> heap" where
  "mem_write p bs h =
     h\<lparr>h_mem := (\<lambda>x. if unat (x - p) < length bs then bs ! unat (x - p) else h_mem h x)\<rparr>"

definition mem_read :: "heap \<Rightarrow> u64 \<Rightarrow> nat \<Rightarrow> byte list" where
  "mem_read h p n = map (\<lambda>i. h_mem h (p + of_nat i)) [0..<n]"

definition mem_set :: "u64 \<Rightarrow> byte \<Rightarrow> u64 \<Rightarrow> heap \<Rightarrow> heap" where
  "mem_set p v n h = h\<lparr>h_mem := (\<lambda>x. if x - p < n then v else h_mem h x)\<rparr>"

fun le_word :: "byte list \<Rightarrow> u64" where
  "le_word [] = 0"
| "le_word (b # bs) = ucast b OR push_bit 8 (le_word bs)"

fun le_bytes :: "nat \<Rightarrow> u64 \<Rightarrow> byte list" where
  "le_bytes 0 w = []"
| "le_bytes (Suc n) w = ucast w # le_bytes n (drop_bit 8 w)"

definition load64 :: "heap \<Rightarrow> u64 \<Rightarrow> u64" where
  "load64 h p = le_word (mem_read h p 8)"

definition store64 :: "u64 \<Rightarrow> u64 \<Rightarrow> heap \<Rightarrow> heap" where
  "store64 p w h = mem_write p (le_bytes 8 w) h"

section \<open>Words\<close>

lemma le_word_bytes: "le_word (le_bytes n w) = take_bit (8 * n) w"
proof (induction n arbitrary: w)
  case (Suc n)
  have "ucast (ucast w :: byte) = take_bit 8 w"
    by (rule bit_word_eqI) (auto simp: bit_simps)
  then have "le_word (le_bytes (Suc n) w) = take_bit 8 w OR push_bit 8 (take_bit (8 * n) (drop_bit 8 w))"
    using Suc by simp
  also have "\<dots> = take_bit (8 * Suc n) w"
    by (rule bit_word_eqI) (auto simp: bit_simps)
  finally show ?case .
qed simp

lemma length_le_bytes [simp]: "length (le_bytes n w) = n"
  by (induction n arbitrary: w) simp_all

lemma le_word_le_bytes_8 [simp]: "le_word (le_bytes 8 w) = w"
proof -
  have "take_bit 64 w = w"
    by (rule bit_word_eqI) (auto simp: bit_simps)
  then show ?thesis
    by (simp add: le_word_bytes)
qed

section \<open>Which bytes change\<close>

lemma in_span:
  fixes x q n :: u64
  assumes "unat q + unat n < 2 ^ 64"
  shows "x - q < n \<longleftrightarrow> unat x \<in> {unat q ..< unat q + unat n}"
proof (cases "unat q \<le> unat x")
  case True
  then have "unat (x - q) = unat x - unat q"
    by (rule unat_sub_le)
  then show ?thesis
    using True by (auto simp: word_less_nat_alt)
next
  case False
  have "unat x < 2 ^ 64"
    using unsigned_less [of x, where 'a = nat] by simp
  moreover have "unat (x - q) = unat x + 2 ^ 64 - unat q"
    using False by (simp add: unat_sub_if')
  ultimately have "\<not> unat (x - q) < unat n"
    using assms by simp
  then show ?thesis
    using False assms by (auto simp: word_less_nat_alt)
qed

lemma unat_offset: "unat p + n < 2 ^ 64 \<Longrightarrow> unat (p + of_nat n :: u64) = unat p + n"
  by (subst unat_add_small) (auto simp: unat_of_nat)

lemma h_mem_copy:
  assumes "unat dst + unat n < 2 ^ 64"
  shows "h_mem (mem_copy dst src n h) x =
    (if unat x \<in> {unat dst ..< unat dst + unat n} then h_mem h (src + (x - dst)) else h_mem h x)"
  using in_span [OF assms] by (simp add: mem_copy_def)

lemma h_mem_set:
  assumes "unat p + unat n < 2 ^ 64"
  shows "h_mem (mem_set p v n h) x = (if unat x \<in> {unat p ..< unat p + unat n} then v else h_mem h x)"
  using in_span [OF assms] by (simp add: mem_set_def)

lemma h_mem_write:
  assumes "unat p + length bs < 2 ^ 64"
  shows "h_mem (mem_write p bs h) x =
    (if unat x \<in> {unat p ..< unat p + length bs} then bs ! (unat x - unat p) else h_mem h x)"
proof -
  have n: "unat (of_nat (length bs) :: u64) = length bs"
    using assms by (simp add: unat_of_nat)
  then have "unat (x - p) < length bs \<longleftrightarrow> unat x \<in> {unat p ..< unat p + length bs}"
    using in_span [of p "of_nat (length bs)" x] assms by (simp add: word_less_nat_alt)
  then show ?thesis
    by (auto simp: mem_write_def unat_sub_le)
qed

lemma mem_read_cong:
  assumes "\<And>x. unat x \<in> {unat p ..< unat p + n} \<Longrightarrow> h_mem h' x = h_mem h x" "unat p + n < 2 ^ 64"
  shows "mem_read h' p n = mem_read h p n"
  using assms by (auto simp: mem_read_def unat_offset)

lemma mem_read_write:
  assumes "unat p + length bs < 2 ^ 64"
  shows "mem_read (mem_write p bs h) p (length bs) = bs"
  using assms by (intro nth_equalityI) (auto simp: mem_read_def h_mem_write unat_offset)

lemma load64_store64:
  assumes "unat p + 8 < 2 ^ 64"
  shows "load64 (store64 p w h) p = w"
  using mem_read_write [of p "le_bytes 8 w" h] assms by (simp add: load64_def store64_def)

lemma load64_cong:
  assumes "\<And>x. unat x \<in> {unat p ..< unat p + 8} \<Longrightarrow> h_mem h' x = h_mem h x" "unat p + 8 < 2 ^ 64"
  shows "load64 h' p = load64 h p"
  using mem_read_cong [OF assms] by (simp add: load64_def)

lemma h_mem_store64:
  assumes "unat p + 8 < 2 ^ 64" "unat x \<notin> {unat p ..< unat p + 8}"
  shows "h_mem (store64 p w h) x = h_mem h x"
  using assms h_mem_write [of p "le_bytes 8 w" h x] by (auto simp: store64_def)

lemma load64_store64_other:
  assumes "unat p + 8 < 2 ^ 64" "unat q + 8 < 2 ^ 64" "{unat p ..< unat p + 8} \<inter> {unat q ..< unat q + 8} = {}"
  shows "load64 (store64 p w h) q = load64 h q"
  using assms by (intro load64_cong h_mem_store64) auto

section \<open>Layout\<close>

text \<open>Writing bytes does not move a piece.\<close>

lemma layout_ok_mem [simp]: "layout_ok (h\<lparr>h_mem := m\<rparr>) allocs = layout_ok h allocs"
proof -
  have "piece_range (h\<lparr>h_mem := m\<rparr>) allocs p = piece_range h allocs p" for p
    by (cases p) simp_all
  then show ?thesis
    by (simp add: layout_ok_def pieces_apart_def space_def head_ok_def)
qed

lemma layout_ok_writes [simp]:
  "layout_ok (mem_write p bs h) allocs = layout_ok h allocs"
  "layout_ok (mem_set p v n h) allocs = layout_ok h allocs"
  "layout_ok (mem_copy dst src n h) allocs = layout_ok h allocs"
  "layout_ok (store64 p w h) allocs = layout_ok h allocs"
  by (simp_all add: mem_write_def mem_set_def mem_copy_def store64_def)

text \<open>An allocation may be used as two.\<close>

lemma layout_ok_split:
  assumes lay: "layout_ok h (allocs @ [(p, n)])" and k: "8 dvd unat k" "unat k \<le> unat n"
  shows "layout_ok h (allocs @ [(p, k), (p + k, n - k)])"
proof -
  let ?A = "allocs @ [(p, n)]" and ?B = "allocs @ [(p, k), (p + k, n - k)]" and ?l = "length allocs"
  have p: "p \<noteq> 0" "8 dvd unat p" "8 dvd unat n" "unat p + unat n < 2 ^ 64"
    using lay by (auto simp: layout_ok_def)
  have u: "unat (p + k) = unat p + unat k" "unat (n - k) = unat n - unat k"
    using p(4) k(2) by (simp_all add: unat_add_small unat_sub_le)
  define own where "own = (\<lambda>q. if q = Allocated (Suc ?l) then Allocated ?l else q)"
  have range: "piece_range h ?B (Allocated ?l) = {unat p ..< unat p + unat k}"
    "piece_range h ?B (Allocated (Suc ?l)) = {unat p + unat k ..< unat p + unat n}"
    "piece_range h ?A (Allocated ?l) = {unat p ..< unat p + unat n}"
    using u k(2) by (simp_all add: range_of_def nth_append)
  have sub: "piece_range h ?B q \<subseteq> piece_range h ?A (own q)" for q
  proof (cases "q = Allocated ?l \<or> q = Allocated (Suc ?l)")
    case True
    then show ?thesis
      using range k(2) by (auto simp: own_def)
  next
    case False
    then show ?thesis
      by (cases q) (auto simp: own_def nth_append)
  qed
  have "pieces_apart h ?B"
  proof (rule pieces_apart_carve [where own = "\<lambda>q. {own q}" and fresh = "{}" and F = "{}"])
    show "pieces_apart h ?A"
      using lay by (simp add: layout_ok_def)
    show "piece_range h ?B q \<inter> piece_range h ?B q' = {}"
      if "q \<noteq> q'" "{own q} \<inter> {own q'} \<noteq> {} \<or> q \<in> {} \<and> q' \<in> {}" for q q'
      using that range by (auto simp: own_def split: if_splits)
  qed (use sub in auto)
  moreover have "p + k \<noteq> 0"
    using u(1) p(1) by (metis add_eq_0_iff_both_eq_0 unat_0 unat_eq_0)
  moreover have "8 dvd unat p + unat k" "8 dvd unat n - unat k"
    using p k by (simp_all add: dvd_diff_nat)
  ultimately show ?thesis
    using lay k p u by (auto simp: layout_ok_def)
qed

end
