(* ===== verification/Array.thy ===== *)
theory Array
  imports Memory MiniTable
begin

text \<open>
  Repeated fields (\<open>collections/array.c\<close>, \<open>collections/internal/array.h\<close>). An array is a header
  of three words, the tagged address of the elements, their number and the capacity, in the bytes
  of an arena; the elements are bytes of the same or of another allocation of the arena. A value
  (\<open>hpb_MessageValue\<close>, a union) is the list of its bytes.
\<close>

section \<open>The header\<close>

definition sizeof_Array :: u64 where
  "sizeof_Array = 24"

definition Array_data :: "heap \<Rightarrow> u64 \<Rightarrow> u64" where
  "Array_data h arr = load64 h arr"

definition Array_size :: "heap \<Rightarrow> u64 \<Rightarrow> u64" where
  "Array_size h arr = load64 h (arr + 8)"

definition Array_capacity :: "heap \<Rightarrow> u64 \<Rightarrow> u64" where
  "Array_capacity h arr = load64 h (arr + 16)"

definition hpb_Array_ElementSizeLg2 :: "heap \<Rightarrow> u64 \<Rightarrow> mem_fail + u64" where
  "hpb_Array_ElementSizeLg2 h arr =
     (let ret = Array_data h arr AND 7 in if ret \<le> 4 then Inr ret else Inl FailedAssert)"

definition hpb_array_constptr :: "heap \<Rightarrow> u64 \<Rightarrow> mem_fail + u64" where
  "hpb_array_constptr h arr =
     res_bind (hpb_Array_ElementSizeLg2 h arr) (\<lambda>_. Inr (Array_data h arr AND NOT 7))"

definition hpb_array_tagptr :: "u64 \<Rightarrow> u64 \<Rightarrow> mem_fail + u64" where
  "hpb_array_tagptr ptr elem_size_lg2 =
     (if elem_size_lg2 \<le> 4 then Inr (ptr OR elem_size_lg2) else Inl FailedAssert)"

definition hpb_array_ptr :: "heap \<Rightarrow> u64 \<Rightarrow> mem_fail + u64" where
  "hpb_array_ptr h arr = hpb_array_constptr h arr"

definition hpb_tag_arrptr :: "u64 \<Rightarrow> u64 \<Rightarrow> mem_fail + u64" where
  "hpb_tag_arrptr ptr elem_size_lg2 =
     (if elem_size_lg2 \<le> 4 \<and> ptr AND 7 = 0 then Inr (ptr OR elem_size_lg2) else Inl FailedAssert)"

fun hpb_Array_CTypeSizeLg2 :: "hpb_CType \<Rightarrow> u64" where
  "hpb_Array_CTypeSizeLg2 CType_Bool = 0"
| "hpb_Array_CTypeSizeLg2 CType_Float = 2"
| "hpb_Array_CTypeSizeLg2 CType_Int32 = 2"
| "hpb_Array_CTypeSizeLg2 CType_UInt32 = 2"
| "hpb_Array_CTypeSizeLg2 CType_Enum = 2"
| "hpb_Array_CTypeSizeLg2 CType_Message = 3"
| "hpb_Array_CTypeSizeLg2 CType_Double = 3"
| "hpb_Array_CTypeSizeLg2 CType_Int64 = 3"
| "hpb_Array_CTypeSizeLg2 CType_UInt64 = 3"
| "hpb_Array_CTypeSizeLg2 CType_String = 4"
| "hpb_Array_CTypeSizeLg2 CType_Bytes = 4"

section \<open>Creation and growth\<close>

definition hpb_Array_New_lg2 :: "allocator \<Rightarrow> u64 \<Rightarrow> u64 \<Rightarrow> u64 \<Rightarrow> heap \<Rightarrow> mem_fail + (u64 \<times> heap)" where
  "hpb_Array_New_lg2 mall a init_capacity elem_size_lg2 h =
     (if \<not> elem_size_lg2 \<le> 4 then Inl FailedAssert
      else let arr_size = HPB_ALIGN_UP sizeof_Array HPB_MALLOC_ALIGN;
               bytes = arr_size + push_bit (unat elem_size_lg2) init_capacity in
        res_bind (hpb_Arena_Malloc mall a bytes h) (\<lambda>(arr, h).
          if arr = 0 then Inr (0, h)
          else res_bind (hpb_tag_arrptr (arr + arr_size) elem_size_lg2) (\<lambda>data.
            Inr (arr, store64 (arr + 16) init_capacity (store64 (arr + 8) 0 (store64 arr data h))))))"

definition hpb_Array_New :: "allocator \<Rightarrow> u64 \<Rightarrow> hpb_CType \<Rightarrow> heap \<Rightarrow> mem_fail + (u64 \<times> heap)" where
  "hpb_Array_New mall a type h = hpb_Array_New_lg2 mall a 4 (hpb_Array_CTypeSizeLg2 type) h"

text \<open>
  The loop doubles the capacity until it is large enough. A capacity that has been doubled 64
  times is zero and stays zero, so that the loop does not end when it has not ended by then.
\<close>

fun double_capacity :: "nat \<Rightarrow> u64 \<Rightarrow> u64 \<Rightarrow> mem_fail + u64" where
  "double_capacity 0 new_capacity min_capacity = Inl EndlessLoop"
| "double_capacity (Suc n) new_capacity min_capacity =
     (if new_capacity < min_capacity then double_capacity n (new_capacity * 2) min_capacity else Inr new_capacity)"

definition hpb_array_realloc :: "allocator \<Rightarrow> u64 \<Rightarrow> u64 \<Rightarrow> u64 \<Rightarrow> heap \<Rightarrow> mem_fail + (bool \<times> heap)" where
  "hpb_array_realloc mall arr min_capacity arena h =
     (let new_capacity = max (Array_capacity h arr) 4;
          elem_size_lg2 = Array_data h arr AND 7;
          old_bytes = push_bit (unat elem_size_lg2) (Array_capacity h arr) in
      res_bind (hpb_array_ptr h arr) (\<lambda>ptr.
      res_bind (double_capacity 65 new_capacity min_capacity) (\<lambda>new_capacity.
      let new_bytes = push_bit (unat elem_size_lg2) new_capacity in
      res_bind (hpb_Arena_Realloc mall arena ptr old_bytes new_bytes h) (\<lambda>(ptr, h).
      if ptr = 0 then Inr (False, h)
      else res_bind (hpb_tag_arrptr ptr elem_size_lg2) (\<lambda>data.
        Inr (True, store64 (arr + 16) new_capacity (store64 arr data h)))))))"

definition hpb_array_reserve :: "allocator \<Rightarrow> u64 \<Rightarrow> u64 \<Rightarrow> u64 \<Rightarrow> heap \<Rightarrow> mem_fail + (bool \<times> heap)" where
  "hpb_array_reserve mall arr sz arena h =
     (if Array_capacity h arr < sz then hpb_array_realloc mall arr sz arena h else Inr (True, h))"

definition hpb_Array_ResizeUninitialized :: "allocator \<Rightarrow> u64 \<Rightarrow> u64 \<Rightarrow> u64 \<Rightarrow> heap \<Rightarrow> mem_fail + (bool \<times> heap)" where
  "hpb_Array_ResizeUninitialized mall arr sz arena h =
     (if \<not> (sz \<le> Array_size h arr \<or> arena \<noteq> 0) then Inl FailedAssert
      else res_bind (hpb_array_reserve mall arr sz arena h) (\<lambda>(ok, h).
        if \<not> ok then Inr (False, h) else Inr (True, store64 (arr + 8) sz h)))"

definition hpb_Array_Resize :: "allocator \<Rightarrow> u64 \<Rightarrow> u64 \<Rightarrow> u64 \<Rightarrow> heap \<Rightarrow> mem_fail + (bool \<times> heap)" where
  "hpb_Array_Resize mall arr sz arena h =
     (let oldsize = Array_size h arr in
      res_bind (hpb_Array_ResizeUninitialized mall arr sz arena h) (\<lambda>(ok, h).
        if \<not> ok then Inr (False, h)
        else let newsize = Array_size h arr in
          if newsize > oldsize
          then let lg2 = Array_data h arr AND 7 in
            res_bind (hpb_array_ptr h arr) (\<lambda>data.
              Inr (True, mem_set (data + push_bit (unat lg2) oldsize) 0 (push_bit (unat lg2) (newsize - oldsize)) h))
          else Inr (True, h)))"

section \<open>Elements\<close>

definition hpb_Array_DataPtr :: "heap \<Rightarrow> u64 \<Rightarrow> mem_fail + u64" where
  "hpb_Array_DataPtr h arr = hpb_array_ptr h arr"

definition hpb_Array_MutableDataPtr :: "heap \<Rightarrow> u64 \<Rightarrow> mem_fail + u64" where
  "hpb_Array_MutableDataPtr h arr = hpb_array_ptr h arr"

definition hpb_Array_Size :: "heap \<Rightarrow> u64 \<Rightarrow> u64" where
  "hpb_Array_Size h arr = Array_size h arr"

definition hpb_Array_Get :: "heap \<Rightarrow> u64 \<Rightarrow> u64 \<Rightarrow> mem_fail + byte list" where
  "hpb_Array_Get h arr i =
     res_bind (hpb_array_constptr h arr) (\<lambda>data.
       let lg2 = Array_data h arr AND 7 in
       if \<not> i < Array_size h arr then Inl FailedAssert
       else Inr (mem_read h (data + push_bit (unat lg2) i) (2 ^ unat lg2)))"

definition hpb_Array_Set :: "u64 \<Rightarrow> u64 \<Rightarrow> byte list \<Rightarrow> heap \<Rightarrow> mem_fail + heap" where
  "hpb_Array_Set arr i val h =
     res_bind (hpb_array_ptr h arr) (\<lambda>data.
       let lg2 = Array_data h arr AND 7 in
       if \<not> i < Array_size h arr then Inl FailedAssert
       else Inr (mem_write (data + push_bit (unat lg2) i) (take (2 ^ unat lg2) val) h))"

definition hpb_Array_Set_elem :: "u64 \<Rightarrow> u64 \<Rightarrow> byte list \<Rightarrow> u64 \<Rightarrow> heap \<Rightarrow> mem_fail + heap" where
  "hpb_Array_Set_elem arr i data elem_size h =
     (if \<not> i < Array_size h arr then Inl FailedAssert
      else res_bind (hpb_Array_ElementSizeLg2 h arr) (\<lambda>lg2.
        if elem_size \<noteq> push_bit (unat lg2) 1 then Inl FailedAssert
        else res_bind (hpb_array_ptr h arr) (\<lambda>arr_data.
          Inr (mem_write (arr_data + i * elem_size) (take (unat elem_size) data) h))))"

definition hpb_Array_Append :: "allocator \<Rightarrow> u64 \<Rightarrow> byte list \<Rightarrow> u64 \<Rightarrow> heap \<Rightarrow> mem_fail + (bool \<times> heap)" where
  "hpb_Array_Append mall arr val arena h =
     (if arena = 0 then Inl FailedAssert
      else res_bind (hpb_Array_Resize mall arr (Array_size h arr + 1) arena h) (\<lambda>(ok, h).
        if \<not> ok then Inr (False, h)
        else res_bind (hpb_Array_Set arr (Array_size h arr - 1) val h) (\<lambda>h. Inr (True, h))))"

definition hpb_Array_Move :: "u64 \<Rightarrow> u64 \<Rightarrow> u64 \<Rightarrow> u64 \<Rightarrow> heap \<Rightarrow> mem_fail + heap" where
  "hpb_Array_Move arr dst_idx src_idx count h =
     (let lg2 = Array_data h arr AND 7 in
      res_bind (hpb_array_ptr h arr) (\<lambda>data.
        Inr (mem_copy (data + push_bit (unat lg2) dst_idx) (data + push_bit (unat lg2) src_idx)
               (push_bit (unat lg2) count) h)))"

definition hpb_Array_Insert :: "allocator \<Rightarrow> u64 \<Rightarrow> u64 \<Rightarrow> u64 \<Rightarrow> u64 \<Rightarrow> heap \<Rightarrow> mem_fail + (bool \<times> heap)" where
  "hpb_Array_Insert mall arr i count arena h =
     (if arena = 0 \<or> \<not> i \<le> Array_size h arr \<or> \<not> count + Array_size h arr \<ge> count then Inl FailedAssert
      else let oldsize = Array_size h arr in
        res_bind (hpb_Array_Resize mall arr (Array_size h arr + count) arena h) (\<lambda>(ok, h).
          if \<not> ok then Inr (False, h)
          else res_bind (hpb_Array_Move arr (i + count) i (oldsize - i) h) (\<lambda>h. Inr (True, h))))"

definition hpb_Array_Delete :: "u64 \<Rightarrow> u64 \<Rightarrow> u64 \<Rightarrow> heap \<Rightarrow> mem_fail + heap" where
  "hpb_Array_Delete arr i count h =
     (let e = i + count in
      if \<not> i \<le> e \<or> \<not> e \<le> Array_size h arr then Inl FailedAssert
      else res_bind (hpb_Array_Move arr i e (Array_size h arr - e) h) (\<lambda>h.
        Inr (store64 (arr + 8) (Array_size h arr - count) h)))"

definition hpb_array_detach :: "u64 \<Rightarrow> u64 \<Rightarrow> heap \<Rightarrow> heap" where
  "hpb_array_detach msg ofs h = store64 (msg + ofs) 0 h"

section \<open>Integers of 64 bits in two halves\<close>

text \<open>These functions (\<open>array_split64.h\<close>) are for arrays with elements of eight bytes.\<close>

definition split64_val :: "u32 \<Rightarrow> u32 \<Rightarrow> byte list" where
  "split64_val hi lo = le_bytes 8 (push_bit 32 (ucast hi) OR ucast lo)"

definition hpb_Array_GetInt64Hi :: "heap \<Rightarrow> u64 \<Rightarrow> u64 \<Rightarrow> mem_fail + u32" where
  "hpb_Array_GetInt64Hi h array i = res_bind (hpb_Array_Get h array i) (\<lambda>v. Inr (ucast (signed_drop_bit 32 (le_word v))))"

definition hpb_Array_GetInt64Lo :: "heap \<Rightarrow> u64 \<Rightarrow> u64 \<Rightarrow> mem_fail + u32" where
  "hpb_Array_GetInt64Lo h array i = res_bind (hpb_Array_Get h array i) (\<lambda>v. Inr (ucast (le_word v)))"

definition hpb_Array_SetInt64Split :: "u64 \<Rightarrow> u64 \<Rightarrow> u32 \<Rightarrow> u32 \<Rightarrow> heap \<Rightarrow> mem_fail + heap" where
  "hpb_Array_SetInt64Split array i hi lo h = hpb_Array_Set array i (split64_val hi lo) h"

definition hpb_Array_AppendInt64Split :: "allocator \<Rightarrow> u64 \<Rightarrow> u32 \<Rightarrow> u32 \<Rightarrow> u64 \<Rightarrow> heap \<Rightarrow> mem_fail + (bool \<times> heap)" where
  "hpb_Array_AppendInt64Split mall array hi lo arena h = hpb_Array_Append mall array (split64_val hi lo) arena h"

definition hpb_Array_GetUInt64Hi :: "heap \<Rightarrow> u64 \<Rightarrow> u64 \<Rightarrow> mem_fail + u32" where
  "hpb_Array_GetUInt64Hi h array i = res_bind (hpb_Array_Get h array i) (\<lambda>v. Inr (ucast (drop_bit 32 (le_word v))))"

definition hpb_Array_GetUInt64Lo :: "heap \<Rightarrow> u64 \<Rightarrow> u64 \<Rightarrow> mem_fail + u32" where
  "hpb_Array_GetUInt64Lo h array i = res_bind (hpb_Array_Get h array i) (\<lambda>v. Inr (ucast (le_word v)))"

definition hpb_Array_SetUInt64Split :: "u64 \<Rightarrow> u64 \<Rightarrow> u32 \<Rightarrow> u32 \<Rightarrow> heap \<Rightarrow> mem_fail + heap" where
  "hpb_Array_SetUInt64Split array i hi lo h = hpb_Array_Set array i (split64_val hi lo) h"

definition hpb_Array_AppendUInt64Split :: "allocator \<Rightarrow> u64 \<Rightarrow> u32 \<Rightarrow> u32 \<Rightarrow> u64 \<Rightarrow> heap \<Rightarrow> mem_fail + (bool \<times> heap)" where
  "hpb_Array_AppendUInt64Split mall array hi lo arena h = hpb_Array_Append mall array (split64_val hi lo) arena h"

end
