(* ===== verification/ArrayOps.thy ===== *)
theory ArrayOps
  imports Array
begin

text \<open>
  Arrays refine lists. The invariant says that the header and the elements are two allocations of
  the arena and that the size is within the capacity; the abstraction reads the elements. The
  operations on the bytes are described by offsets from the first element.
\<close>

section \<open>Words\<close>

lemma push_bit_of_nat: "push_bit k w = of_nat (unat w * 2 ^ k)" for w :: u64
  by (simp add: push_bit_eq_mult)

lemma unat_push_bit: "unat w * 2 ^ k < 2 ^ 64 \<Longrightarrow> unat (push_bit k w) = unat w * 2 ^ k" for w :: u64
  by (simp only: push_bit_of_nat unat_of_nat) simp

lemma and_7_mod: "w AND 7 = w mod 8" for w :: u64
proof -
  have "(7 :: u64) = mask 3"
    by (simp add: mask_eq_exp_minus_1)
  then have "w AND 7 = take_bit 3 w"
    by (simp only: take_bit_eq_mask)
  then show ?thesis
    by (simp add: take_bit_eq_mod)
qed

lemma and_7_aligned: "8 dvd unat w \<longleftrightarrow> w AND 7 = 0" for w :: u64
  by (simp add: and_7_mod word_unat_eq_iff unat_mod_distrib dvd_eq_mod_eq_0)

lemma tagged_arrptr:
  fixes p t :: u64
  assumes "p AND 7 = 0" "t \<le> 4"
  shows "(p OR t) AND 7 = t" "(p OR t) AND NOT 7 = p"
proof -
  have "t mod 8 = t"
    using assms(2) by (simp add: word_unat_eq_iff unat_mod_distrib word_le_nat_alt)
  then have t: "t AND 7 = t"
    by (simp add: and_7_mod)
  show "(p OR t) AND 7 = t"
    using assms(1) t by (simp add: bit.conj_disj_distrib2)
  have "p AND NOT 7 = p"
  proof -
    have "(p AND 7) OR (p AND NOT 7) = p"
      by (simp flip: bit.conj_disj_distrib)
    then show ?thesis
      using assms(1) by simp
  qed
  moreover have "t AND NOT 7 = 0"
  proof -
    have "(t AND 7) AND NOT 7 = 0"
      by (simp add: and.assoc)
    then show ?thesis
      using t by simp
  qed
  ultimately show "(p OR t) AND NOT 7 = p"
    by (simp add: bit.conj_disj_distrib2)
qed

section \<open>Bytes at an offset\<close>

lemma byte_set:
  assumes "unat p + N < 2 ^ 64" "d + n \<le> N" "m < N"
  shows "h_mem (mem_set (p + of_nat d) v (of_nat n) h) (p + of_nat m) =
    (if d \<le> m \<and> m < d + n then v else h_mem h (p + of_nat m))"
proof -
  have "unat (of_nat n :: u64) = n" "unat (p + of_nat d) = unat p + d" "unat (p + of_nat m) = unat p + m"
    using assms by (simp_all add: unat_of_nat unat_offset)
  then show ?thesis
    using assms h_mem_set [of "p + of_nat d" "of_nat n"] by simp
qed

lemma byte_write:
  assumes "unat p + N < 2 ^ 64" "d + length bs \<le> N" "m < N"
  shows "h_mem (mem_write (p + of_nat d) bs h) (p + of_nat m) =
    (if d \<le> m \<and> m < d + length bs then bs ! (m - d) else h_mem h (p + of_nat m))"
proof -
  have "unat (p + of_nat d) = unat p + d" "unat (p + of_nat m) = unat p + m"
    using assms by (simp_all add: unat_offset)
  then show ?thesis
    using assms h_mem_write [of "p + of_nat d" bs] by simp
qed

lemma byte_copy:
  assumes "unat p + N < 2 ^ 64" "d + n \<le> N" "m < N"
  shows "h_mem (mem_copy (p + of_nat d) (p + of_nat s) (of_nat n) h) (p + of_nat m) =
    (if d \<le> m \<and> m < d + n then h_mem h (p + of_nat (s + (m - d))) else h_mem h (p + of_nat m))"
proof -
  have "unat (of_nat n :: u64) = n" "unat (p + of_nat d) = unat p + d" "unat (p + of_nat m) = unat p + m"
    using assms by (simp_all add: unat_of_nat unat_offset)
  then show ?thesis
    using assms h_mem_copy [of "p + of_nat d" "of_nat n"] by (simp add: of_nat_diff add_diff_eq add.assoc)
qed

text \<open>The bytes outside \<open>N\<close> bytes from \<open>p\<close> are the same.\<close>

definition writes :: "u64 \<Rightarrow> nat \<Rightarrow> heap \<Rightarrow> heap \<Rightarrow> bool" where
  "writes p N h h' \<longleftrightarrow> (\<exists>m. h' = h\<lparr>h_mem := m\<rparr>) \<and> (\<forall>x. unat x \<notin> {unat p ..< unat p + N} \<longrightarrow> h_mem h' x = h_mem h x)"

lemma writes_offset:
  assumes "unat p + N < 2 ^ 64"
  shows "d + n \<le> N \<Longrightarrow> writes p N h (mem_set (p + of_nat d) v (of_nat n) h)"
    "d + length bs \<le> N \<Longrightarrow> writes p N h (mem_write (p + of_nat d) bs h)"
    "d + n \<le> N \<Longrightarrow> writes p N h (mem_copy (p + of_nat d) src (of_nat n) h)"
proof -
  have u: "unat (of_nat n :: u64) = n" "unat (p + of_nat d) = unat p + d" if "d + n \<le> N" for d n
    using that assms by (simp_all add: unat_of_nat unat_offset)
  show "writes p N h (mem_set (p + of_nat d) v (of_nat n) h)" if "d + n \<le> N"
    unfolding writes_def
    using u [OF that] that assms h_mem_set [of "p + of_nat d" "of_nat n"] by (auto simp: mem_set_def)
  show "writes p N h (mem_write (p + of_nat d) bs h)" if "d + length bs \<le> N"
    unfolding writes_def
    using u [OF that] that assms h_mem_write [of "p + of_nat d" bs] by (auto simp: mem_write_def)
  show "writes p N h (mem_copy (p + of_nat d) src (of_nat n) h)" if "d + n \<le> N"
    unfolding writes_def
    using u [OF that] that assms h_mem_copy [of "p + of_nat d" "of_nat n"] by (auto simp: mem_copy_def)
qed

lemma writes_store64: "unat p + 8 < 2 ^ 64 \<Longrightarrow> writes p 8 h (store64 p w h)"
  using writes_offset(2) [of p 8 0 "le_bytes 8 w" h] by (simp add: store64_def)

section \<open>Elements\<close>

definition elem :: "heap \<Rightarrow> u64 \<Rightarrow> nat \<Rightarrow> nat \<Rightarrow> byte list" where
  "elem h p es k = map (\<lambda>b. h_mem h (p + of_nat (k * es + b))) [0..<es]"

lemma elem_read: "mem_read h (p + of_nat (k * es)) es = elem h p es k"
  by (simp add: mem_read_def elem_def add.assoc)

lemma elem_eqI:
  assumes "\<And>b. b < es \<Longrightarrow> h_mem h' (p' + of_nat (k' * es + b)) = h_mem h (p + of_nat (k * es + b))"
  shows "elem h' p' es k' = elem h p es k"
  using assms by (simp add: elem_def)

lemma slot_le: "b < es \<Longrightarrow> i * es \<le> k * es + b \<longleftrightarrow> i \<le> k" for b es i k :: nat
proof -
  assume b: "b < es"
  have "k * es + b < Suc k * es"
    using b by simp
  moreover have "Suc k * es \<le> i * es" if "k < i"
    using that by (intro mult_le_mono1) simp
  moreover have "i * es \<le> k * es" if "i \<le> k"
    using that by (intro mult_le_mono1)
  ultimately show ?thesis
    by (cases "i \<le> k") (simp_all add: trans_le_add1 not_le)
qed

lemma slot_less: "b < es \<Longrightarrow> k * es + b < i * es \<longleftrightarrow> k < i" for b es i k :: nat
  using slot_le [of b es i k] by (auto simp: not_le [symmetric])

lemma slot_shift: "d \<le> k \<Longrightarrow> s * es + (k * es + b - d * es) = (s + (k - d)) * es + b" for d k s es b :: nat
  by (auto simp: add_mult_distrib dest!: le_Suc_ex)

end
