(* ===== verification/ArrayList.thy ===== *)
theory ArrayList
  imports ArrayOps
begin

text \<open>The invariant of an array, its elements as a list, and what each operation does to them.\<close>

section \<open>Invariant and abstraction\<close>

definition arr_lg2 :: "heap \<Rightarrow> u64 \<Rightarrow> nat" where
  "arr_lg2 h arr = unat (Array_data h arr AND 7)"

definition arr_ptr :: "heap \<Rightarrow> u64 \<Rightarrow> u64" where
  "arr_ptr h arr = Array_data h arr AND NOT 7"

definition array_list :: "heap \<Rightarrow> u64 \<Rightarrow> byte list list" where
  "array_list h arr = map (elem h (arr_ptr h arr) (2 ^ arr_lg2 h arr)) [0..<unat (Array_size h arr)]"

definition array_inv :: "heap \<Rightarrow> region list \<Rightarrow> u64 \<Rightarrow> nat \<Rightarrow> nat \<Rightarrow> bool" where
  "array_inv h allocs arr i j \<longleftrightarrow> i < length allocs \<and> j < length allocs \<and> i \<noteq> j \<and> allocs ! i = (arr, 24) \<and>
     allocs ! j = (arr_ptr h arr, HPB_ALIGN_MALLOC (push_bit (arr_lg2 h arr) (Array_capacity h arr))) \<and>
     arr_lg2 h arr \<le> 4 \<and> unat (Array_size h arr) \<le> unat (Array_capacity h arr) \<and>
     unat (Array_capacity h arr) * 2 ^ arr_lg2 h arr \<le> 2 ^ 61"

text \<open>Nothing but the two allocations of the array changes.\<close>

definition others_kept :: "heap \<Rightarrow> heap \<Rightarrow> region list \<Rightarrow> nat \<Rightarrow> nat \<Rightarrow> bool" where
  "others_kept h h' allocs i j \<longleftrightarrow>
     (\<forall>k x. k < length allocs \<longrightarrow> k \<noteq> i \<longrightarrow> k \<noteq> j \<longrightarrow> unat x \<in> range_of (allocs ! k) \<longrightarrow> h_mem h' x = h_mem h x)"

definition allocs_kept :: "region list \<Rightarrow> region list \<Rightarrow> nat \<Rightarrow> nat \<Rightarrow> bool" where
  "allocs_kept allocs allocs' j j' \<longleftrightarrow> length allocs \<le> length allocs' \<and> (j' = j \<or> length allocs \<le> j') \<and>
     (\<forall>k. k < length allocs \<longrightarrow> k \<noteq> j \<longrightarrow> allocs' ! k = allocs ! k)"

abbreviation capacity_bytes :: "heap \<Rightarrow> u64 \<Rightarrow> nat" where
  "capacity_bytes h arr \<equiv> unat (Array_capacity h arr) * 2 ^ arr_lg2 h arr"

abbreviation size_bytes :: "heap \<Rightarrow> u64 \<Rightarrow> nat" where
  "size_bytes h arr \<equiv> unat (Array_size h arr) * 2 ^ arr_lg2 h arr"

lemma length_array_list [simp]: "length (array_list h arr) = unat (Array_size h arr)"
  by (simp add: array_list_def)

lemma array_inv_facts:
  assumes "layout_ok h allocs" "array_inv h allocs arr i j"
  shows "unat arr + 24 < 2 ^ 64" "arr_ptr h arr \<noteq> 0" "8 dvd unat (arr_ptr h arr)"
    "unat (arr_ptr h arr) + capacity_bytes h arr < 2 ^ 64" "size_bytes h arr \<le> capacity_bytes h arr"
    "capacity_bytes h arr \<le> unat (snd (allocs ! j))" "arr_lg2 h arr \<le> 4"
    "hpb_array_ptr h arr = Inr (arr_ptr h arr)"
proof -
  let ?c = "push_bit (arr_lg2 h arr) (Array_capacity h arr)"
  have inv: "i < length allocs" "j < length allocs" "allocs ! i = (arr, 24)" "allocs ! j = (arr_ptr h arr, HPB_ALIGN_MALLOC ?c)"
    "arr_lg2 h arr \<le> 4" "unat (Array_size h arr) \<le> unat (Array_capacity h arr)" "capacity_bytes h arr \<le> 2 ^ 61"
    using assms(2) by (simp_all add: array_inv_def)
  have all: "\<forall>(p, n) \<in> set allocs. p \<noteq> 0 \<and> 8 dvd unat p \<and> 8 dvd unat n \<and> unat p + unat n < 2 ^ 64"
    using assms(1) by (simp add: layout_ok_def)
  show "unat arr + 24 < 2 ^ 64"
    using bspec [OF all nth_mem [OF inv(1)]] inv(3) by simp
  show "arr_ptr h arr \<noteq> 0" "8 dvd unat (arr_ptr h arr)"
    using bspec [OF all nth_mem [OF inv(2)]] inv(4) by simp_all
  have c: "unat ?c = capacity_bytes h arr"
    using inv(7) by (intro unat_push_bit) simp
  then have le: "capacity_bytes h arr \<le> unat (HPB_ALIGN_MALLOC ?c)"
    using align_malloc_facts(2) [of ?c] inv(7) by simp
  then show "unat (arr_ptr h arr) + capacity_bytes h arr < 2 ^ 64" "capacity_bytes h arr \<le> unat (snd (allocs ! j))"
    using bspec [OF all nth_mem [OF inv(2)]] inv(4) by simp_all
  show "size_bytes h arr \<le> capacity_bytes h arr" "arr_lg2 h arr \<le> 4"
    using inv(5,6) by simp_all
  then have "Array_data h arr AND 7 \<le> 4"
    by (simp add: arr_lg2_def word_le_nat_alt)
  then show "hpb_array_ptr h arr = Inr (arr_ptr h arr)"
    by (simp add: hpb_array_ptr_def hpb_array_constptr_def hpb_Array_ElementSizeLg2_def Let_def arr_ptr_def)
qed

section \<open>Fields of the header\<close>

lemma header_unat:
  fixes arr :: u64
  assumes "unat arr + 24 < 2 ^ 64"
  shows "unat (arr + 8) = unat arr + 8" "unat (arr + 16) = unat arr + 16"
  using assms unat_add_small [of arr 8] unat_add_small [of arr 16] by simp_all

lemma header_cong:
  assumes "\<And>x. unat x \<in> range_of (arr, 24) \<Longrightarrow> h_mem h' x = h_mem h x" "unat arr + 24 < 2 ^ 64"
  shows "Array_data h' arr = Array_data h arr" "Array_size h' arr = Array_size h arr" "Array_capacity h' arr = Array_capacity h arr"
proof -
  note u = header_unat [OF assms(2)]
  show "Array_data h' arr = Array_data h arr"
    unfolding Array_data_def using assms by (intro load64_cong) (simp_all add: range_of_def)
  show "Array_size h' arr = Array_size h arr"
    unfolding Array_size_def using assms u by (intro load64_cong) (simp_all add: range_of_def)
  show "Array_capacity h' arr = Array_capacity h arr"
    unfolding Array_capacity_def using assms u by (intro load64_cong) (simp_all add: range_of_def)
qed

lemma header_store:
  assumes "unat arr + 24 < 2 ^ 64"
  shows "Array_data (store64 arr w h) arr = w" "Array_data (store64 (arr + 8) w h) arr = Array_data h arr"
    "Array_data (store64 (arr + 16) w h) arr = Array_data h arr"
    "Array_size (store64 arr w h) arr = Array_size h arr" "Array_size (store64 (arr + 8) w h) arr = w"
    "Array_size (store64 (arr + 16) w h) arr = Array_size h arr"
    "Array_capacity (store64 arr w h) arr = Array_capacity h arr" "Array_capacity (store64 (arr + 8) w h) arr = Array_capacity h arr"
    "Array_capacity (store64 (arr + 16) w h) arr = w"
  using assms header_unat [OF assms]
  by (simp_all add: Array_data_def Array_size_def Array_capacity_def load64_store64 load64_store64_other)

lemma header_store_mem:
  assumes "unat arr + 24 < 2 ^ 64" "unat x \<notin> range_of (arr, 24)"
  shows "h_mem (store64 arr w h) x = h_mem h x" "h_mem (store64 (arr + 8) w h) x = h_mem h x"
    "h_mem (store64 (arr + 16) w h) x = h_mem h x"
  using assms header_unat [OF assms(1)] by (auto simp: range_of_def intro!: h_mem_store64)

section \<open>Writing elements\<close>

text \<open>A write to the bytes of the elements keeps the header and all other allocations.\<close>

lemma array_write:
  assumes lay: "layout_ok h allocs" and inv: "array_inv h allocs arr i j"
    and w: "writes (arr_ptr h arr) (capacity_bytes h arr) h h'"
  shows "layout_ok h' allocs" "array_inv h' allocs arr i j" "others_kept h h' allocs i j"
    "Array_data h' arr = Array_data h arr" "Array_size h' arr = Array_size h arr" "Array_capacity h' arr = Array_capacity h arr"
proof -
  note f = array_inv_facts [OF lay inv]
  have ij: "i < length allocs" "j < length allocs" "i \<noteq> j" "allocs ! i = (arr, 24)" "fst (allocs ! j) = arr_ptr h arr"
    using inv by (simp_all add: array_inv_def)
  obtain m where m: "h' = h\<lparr>h_mem := m\<rparr>"
    using w by (auto simp: writes_def)
  then show "layout_ok h' allocs"
    using lay by simp
  have keep: "h_mem h' x = h_mem h x" if k: "k < length allocs" "k \<noteq> j" "unat x \<in> range_of (allocs ! k)" for k x
  proof -
    have "unat x \<notin> range_of (allocs ! j)"
      by (rule allocated_apart [OF lay k(1) ij(2) k(2,3)])
    then have "unat x \<notin> {unat (arr_ptr h arr) ..< unat (arr_ptr h arr) + capacity_bytes h arr}"
      using f(6) by (auto simp: range_of_def ij(5))
    then show ?thesis
      using w by (simp add: writes_def)
  qed
  then show "others_kept h h' allocs i j"
    by (simp add: others_kept_def)
  have "h_mem h' x = h_mem h x" if "unat x \<in> range_of (arr, 24)" for x
    using keep [of i x] ij that by simp
  note hc = header_cong [OF this f(1)]
  then show "Array_data h' arr = Array_data h arr" "Array_size h' arr = Array_size h arr"
    "Array_capacity h' arr = Array_capacity h arr"
    by simp_all
  then show "array_inv h' allocs arr i j"
    using inv by (simp add: array_inv_def arr_ptr_def arr_lg2_def)
qed

text \<open>A write to the header keeps the elements.\<close>

lemma header_write_elem:
  assumes lay: "layout_ok h allocs" and inv: "array_inv h allocs arr i j" and w: "writes arr 24 h h'"
    and k: "k < unat (Array_capacity h arr)"
  shows "elem h' (arr_ptr h arr) (2 ^ arr_lg2 h arr) k = elem h (arr_ptr h arr) (2 ^ arr_lg2 h arr) k"
proof (rule elem_eqI)
  let ?es = "2 ^ arr_lg2 h arr" and ?p = "arr_ptr h arr"
  note f = array_inv_facts [OF lay inv]
  have ij: "i < length allocs" "j < length allocs" "i \<noteq> j" "allocs ! i = (arr, 24)" "fst (allocs ! j) = ?p"
    using inv by (simp_all add: array_inv_def)
  fix b :: nat
  assume "b < ?es"
  then have m: "k * ?es + b < capacity_bytes h arr"
    using k by (simp add: slot_less)
  then have "unat (?p + of_nat (k * ?es + b)) = unat ?p + (k * ?es + b)"
    using f(4) by (intro unat_offset) simp
  then have "unat (?p + of_nat (k * ?es + b)) \<in> range_of (allocs ! j)"
    using m f(6) by (simp add: range_of_def ij(5))
  then have "unat (?p + of_nat (k * ?es + b)) \<notin> range_of (allocs ! i)"
    using allocated_apart [OF lay ij(2,1)] ij(3) by metis
  then show "h_mem h' (?p + of_nat (k * ?es + b)) = h_mem h (?p + of_nat (k * ?es + b))"
    using w ij(4) by (simp add: writes_def range_of_def)
qed

section \<open>Operations within the capacity\<close>

definition array_becomes ::
  "heap \<Rightarrow> region list \<Rightarrow> heap \<Rightarrow> region list \<Rightarrow> u64 \<Rightarrow> nat \<Rightarrow> nat \<Rightarrow> nat \<Rightarrow> byte list list \<Rightarrow> bool" where
  "array_becomes h allocs h' allocs' arr i j j' xs \<longleftrightarrow> layout_ok h' allocs' \<and> array_inv h' allocs' arr i j' \<and>
     others_kept h h' allocs i j \<and> allocs_kept allocs allocs' j j' \<and> array_list h' arr = xs"

lemma allocs_kept_refl [simp]: "allocs_kept allocs allocs j j"
  by (simp add: allocs_kept_def)

lemma Get_correct:
  assumes "layout_ok h allocs" "array_inv h allocs arr i j" "n < Array_size h arr"
  shows "hpb_Array_Get h arr n = Inr (array_list h arr ! unat n)"
proof -
  have "hpb_array_constptr h arr = Inr (arr_ptr h arr)"
    using array_inv_facts(8) [OF assms(1,2)] by (simp add: hpb_array_ptr_def)
  then show ?thesis
    using assms(3)
    by (simp add: hpb_Array_Get_def push_bit_of_nat elem_read array_list_def arr_lg2_def word_less_nat_alt del: of_nat_mult)
qed

lemma Set_correct:
  assumes lay: "layout_ok h allocs" and inv: "array_inv h allocs arr i j" and n: "n < Array_size h arr"
    and val: "2 ^ arr_lg2 h arr \<le> length val"
  shows "\<exists>h'. hpb_Array_Set arr n val h = Inr h' \<and> Array_data h' arr = Array_data h arr \<and>
    array_becomes h allocs h' allocs arr i j j ((array_list h arr)[unat n := take (2 ^ arr_lg2 h arr) val])"
proof -
  let ?es = "2 ^ arr_lg2 h arr" and ?p = "arr_ptr h arr" and ?v = "take (2 ^ arr_lg2 h arr) val"
  let ?h = "mem_write (?p + of_nat (unat n * ?es)) ?v h"
  note f = array_inv_facts [OF lay inv]
  have len: "length ?v = ?es"
    using val by simp
  have "Suc (unat n) * ?es \<le> size_bytes h arr"
    using n by (intro mult_le_mono1) (simp add: word_less_nat_alt Suc_le_eq)
  then have fit: "unat n * ?es + length ?v \<le> capacity_bytes h arr"
    using f(5) unfolding len mult_Suc by linarith
  note w = array_write [OF lay inv writes_offset(2) [OF f(4) fit]]
  have "hpb_Array_Set arr n val h = Inr ?h"
    using f(8) n by (simp add: hpb_Array_Set_def Let_def push_bit_of_nat arr_lg2_def)
  moreover have "elem ?h ?p ?es k = (if k = unat n then ?v else elem h ?p ?es k)" if k: "k < unat (Array_size h arr)" for k
  proof -
    have byte: "h_mem ?h (?p + of_nat (k * ?es + b)) =
      (if unat n \<le> k \<and> k * ?es + b < Suc (unat n) * ?es then ?v ! (k * ?es + b - unat n * ?es)
       else h_mem h (?p + of_nat (k * ?es + b)))" if b: "b < ?es" for b
    proof -
      have "k * ?es + b < capacity_bytes h arr"
        using b k f(5) slot_less [of b ?es k "unat (Array_size h arr)"] by linarith
      then show ?thesis
        using byte_write [OF f(4) fit, of "k * ?es + b" h] b len slot_le [of b ?es "unat n" k] by (simp add: add.commute)
    qed
    show ?thesis
    proof (cases "k = unat n")
      case True
      have "elem ?h ?p ?es k = map (\<lambda>b. ?v ! b) [0..<?es]"
        unfolding elem_def using byte by (intro map_cong) (simp_all add: True del: of_nat_add of_nat_mult)
      also have "\<dots> = ?v"
        using len by (metis map_nth)
      finally show ?thesis
        using True by simp
    next
      case False
      then have "elem ?h ?p ?es k = elem h ?p ?es k"
        using byte slot_less [of _ ?es k "Suc (unat n)"] by (intro elem_eqI) (auto simp del: of_nat_add of_nat_mult mult_Suc)
      then show ?thesis
        using False by simp
    qed
  qed
  then have "array_list ?h arr = (array_list h arr)[unat n := ?v]"
    using w(4,5) by (intro nth_equalityI) (simp_all add: array_list_def arr_ptr_def arr_lg2_def nth_list_update)
  ultimately show ?thesis
    using w by (simp add: array_becomes_def)
qed

lemma Move_correct:
  assumes lay: "layout_ok h allocs" and inv: "array_inv h allocs arr i j"
    and d: "unat dst + unat count \<le> unat (Array_capacity h arr)"
  shows "\<exists>h'. hpb_Array_Move arr dst src count h = Inr h' \<and> writes (arr_ptr h arr) (capacity_bytes h arr) h h' \<and>
    (\<forall>k < unat (Array_capacity h arr). elem h' (arr_ptr h arr) (2 ^ arr_lg2 h arr) k =
       elem h (arr_ptr h arr) (2 ^ arr_lg2 h arr)
         (if unat dst \<le> k \<and> k < unat dst + unat count then unat src + (k - unat dst) else k))"
proof -
  let ?es = "2 ^ arr_lg2 h arr" and ?p = "arr_ptr h arr"
  let ?h = "mem_copy (?p + of_nat (unat dst * ?es)) (?p + of_nat (unat src * ?es)) (of_nat (unat count * ?es)) h"
  note f = array_inv_facts [OF lay inv]
  have fit: "unat dst * ?es + unat count * ?es \<le> capacity_bytes h arr"
    using mult_le_mono1 [OF d, of ?es] by (simp add: add_mult_distrib)
  have "hpb_Array_Move arr dst src count h = Inr ?h"
    using f(8) by (simp add: hpb_Array_Move_def Let_def push_bit_of_nat arr_lg2_def)
  moreover have "elem ?h ?p ?es k =
      elem h ?p ?es (if unat dst \<le> k \<and> k < unat dst + unat count then unat src + (k - unat dst) else k)"
    if k: "k < unat (Array_capacity h arr)" for k
  proof (rule elem_eqI)
    fix b :: nat
    assume b: "b < ?es"
    have m: "k * ?es + b < capacity_bytes h arr"
      using b k by (simp add: slot_less)
    have copy: "h_mem ?h (?p + of_nat (k * ?es + b)) =
      (if unat dst \<le> k \<and> k < unat dst + unat count then h_mem h (?p + of_nat (unat src * ?es + (k * ?es + b - unat dst * ?es)))
       else h_mem h (?p + of_nat (k * ?es + b)))"
      unfolding byte_copy [OF f(4) fit m] add_mult_distrib [symmetric] slot_le [OF b] slot_less [OF b] ..
    show "h_mem ?h (?p + of_nat (k * ?es + b)) =
      h_mem h (?p + of_nat ((if unat dst \<le> k \<and> k < unat dst + unat count then unat src + (k - unat dst) else k) * ?es + b))"
    proof (cases "unat dst \<le> k \<and> k < unat dst + unat count")
      case True
      then show ?thesis
        unfolding copy if_P [OF True] by (simp only: slot_shift)
    next
      case False
      show ?thesis
        unfolding copy if_not_P [OF False] ..
    qed
  qed
  ultimately show ?thesis
    using writes_offset(3) [OF f(4) fit] by blast
qed

lemma array_list_shrink:
  assumes lay: "layout_ok h allocs" and inv: "array_inv h allocs arr i j" and n: "unat n \<le> unat (Array_capacity h arr)"
  shows "array_inv (store64 (arr + 8) n h) allocs arr i j" "others_kept h (store64 (arr + 8) n h) allocs i j"
    "array_list (store64 (arr + 8) n h) arr = map (elem h (arr_ptr h arr) (2 ^ arr_lg2 h arr)) [0..<unat n]"
    "writes arr 24 h (store64 (arr + 8) n h)"
proof -
  let ?h = "store64 (arr + 8) n h"
  note f = array_inv_facts [OF lay inv]
  note st = header_store [OF f(1)] and u = header_unat [OF f(1)]
  show w: "writes arr 24 h ?h"
    using writes_store64 [of "arr + 8" h n] f(1) u by (auto simp: writes_def)
  have eq: "arr_ptr ?h arr = arr_ptr h arr" "arr_lg2 ?h arr = arr_lg2 h arr"
    by (simp_all add: arr_ptr_def arr_lg2_def st)
  show "array_inv ?h allocs arr i j"
    using inv n by (simp add: array_inv_def eq st)
  show "others_kept h ?h allocs i j"
    unfolding others_kept_def
  proof (intro allI impI)
    fix k and x :: u64
    assume k: "k < length allocs" "k \<noteq> i" "k \<noteq> j" "unat x \<in> range_of (allocs ! k)"
    have "unat x \<notin> range_of (allocs ! i)"
      using inv by (intro allocated_apart [OF lay k(1) _ k(2,4)]) (simp add: array_inv_def)
    then show "h_mem ?h x = h_mem h x"
      using inv header_store_mem [OF f(1)] by (simp add: array_inv_def)
  qed
  show "array_list ?h arr = map (elem h (arr_ptr h arr) (2 ^ arr_lg2 h arr)) [0..<unat n]"
    using n header_write_elem [OF lay inv w] by (simp add: array_list_def eq st)
qed

lemma others_kept_trans:
  assumes "others_kept h h' allocs i j" "others_kept h' h'' allocs' i j'" "allocs_kept allocs allocs' j j'"
  shows "others_kept h h'' allocs i j"
  unfolding others_kept_def
proof (intro allI impI)
  fix k and x :: u64
  assume k: "k < length allocs" "k \<noteq> i" "k \<noteq> j" "unat x \<in> range_of (allocs ! k)"
  have "k < length allocs'" "k \<noteq> j'" "allocs' ! k = allocs ! k"
    using assms(3) k by (auto simp: allocs_kept_def)
  then have "h_mem h'' x = h_mem h' x"
    using assms(2) k by (simp add: others_kept_def)
  then show "h_mem h'' x = h_mem h x"
    using assms(1) k by (simp add: others_kept_def)
qed

lemma Delete_correct:
  assumes lay: "layout_ok h allocs" and inv: "array_inv h allocs arr i j"
    and n: "unat n + unat count \<le> unat (Array_size h arr)"
  shows "\<exists>h'. hpb_Array_Delete arr n count h = Inr h' \<and>
    array_becomes h allocs h' allocs arr i j j (take (unat n) (array_list h arr) @ drop (unat n + unat count) (array_list h arr))"
proof -
  let ?sz = "Array_size h arr" and ?es = "2 ^ arr_lg2 h arr" and ?p = "arr_ptr h arr"
  have "unat ?sz < 2 ^ 64"
    using unsigned_less [of ?sz, where 'a = nat] by simp
  then have e: "unat (n + count) = unat n + unat count"
    using n by (intro unat_add_small) simp
  then have rest: "unat (?sz - (n + count)) = unat ?sz - (unat n + unat count)" "unat (?sz - count) = unat ?sz - unat count"
    using n by (simp_all add: unat_sub_le)
  have cap: "unat ?sz \<le> unat (Array_capacity h arr)"
    using inv by (simp add: array_inv_def)
  have fits: "unat n + unat (?sz - (n + count)) \<le> unat (Array_capacity h arr)"
    using n cap rest by simp
  obtain h1 where h1: "hpb_Array_Move arr n (n + count) (?sz - (n + count)) h = Inr h1" "writes ?p (capacity_bytes h arr) h h1"
    "\<forall>k < unat (Array_capacity h arr). elem h1 ?p ?es k =
       elem h ?p ?es (if unat n \<le> k \<and> k < unat n + unat (?sz - (n + count)) then unat (n + count) + (k - unat n) else k)"
    using Move_correct [OF lay inv, of n "?sz - (n + count)" "n + count"] fits by blast
  note w = array_write [OF lay inv h1(2)]
  have eq: "arr_ptr h1 arr = ?p" "arr_lg2 h1 arr = arr_lg2 h arr"
    using w(4) by (simp_all add: arr_ptr_def arr_lg2_def)
  let ?h = "store64 (arr + 8) (?sz - count) h1"
  have le: "unat (?sz - count) \<le> unat (Array_capacity h1 arr)"
    using w(6) cap rest by simp
  note s = array_list_shrink [OF w(1,2) le]
  have "n \<le> n + count" "n + count \<le> ?sz"
    using e n by (simp_all add: word_le_nat_alt)
  then have "hpb_Array_Delete arr n count h = Inr ?h"
    using h1(1) w(5) by (simp add: hpb_Array_Delete_def Let_def)
  moreover have "array_list ?h arr = take (unat n) (array_list h arr) @ drop (unat n + unat count) (array_list h arr)"
  proof (rule nth_equalityI)
    show len: "length (array_list ?h arr) = length (take (unat n) (array_list h arr) @ drop (unat n + unat count) (array_list h arr))"
      using n rest by (simp add: s(3))
    fix k
    assume "k < length (array_list ?h arr)"
    then have k: "k < unat ?sz - unat count"
      by (simp add: s(3) rest)
    then have "array_list ?h arr ! k = elem h ?p ?es (if unat n \<le> k then unat count + k else k)"
      using h1(3) cap rest e n by (auto simp: s(3) eq add.commute add.left_commute)
    then show "array_list ?h arr ! k = (take (unat n) (array_list h arr) @ drop (unat n + unat count) (array_list h arr)) ! k"
      using k n by (auto simp: nth_append array_list_def)
  qed
  ultimately show ?thesis
    using s w others_kept_trans [OF w(3) s(2)] by (simp add: array_becomes_def)
qed

end
