(* ===== verification/ArenaRefuse.thy ===== *)
theory ArenaRefuse
  imports ArenaSafe
begin

text \<open>
  When an arena returns no memory: the head block has no room for the request, and the arena has
  no block allocator or the allocator returns a null pointer for the new block. The call of the
  allocator is named by its number.
\<close>

section \<open>The condition\<close>

definition last_block_size :: "heap \<Rightarrow> hpb_Arena \<Rightarrow> u64" where
  "last_block_size h r =
     (if a_blocks r = 0 then 128 else case h_blocks h (a_blocks r) of None \<Rightarrow> 0 | Some b \<Rightarrow> ucast (b_size b))"

definition arena_refused :: "allocator \<Rightarrow> u64 \<Rightarrow> u64 \<Rightarrow> nat \<Rightarrow> heap \<Rightarrow> bool" where
  "arena_refused mall a sz n h \<longleftrightarrow>
     (case h_arenas h a of None \<Rightarrow> False
      | Some r \<Rightarrow> a_end r - a_ptr r < HPB_ALIGN_MALLOC sz \<and>
          (a_block_alloc r = 0 \<or>
           mall n (h_live h @ h_user h) (max (HPB_ALIGN_MALLOC sz) (last_block_size h r * 2) + memblock_reserve) = 0))"

section \<open>Allocation\<close>

lemma AllocBlock_refused:
  assumes "hpb_Arena_AllocBlock mall a sz h = Inr (False, h')" "h_arenas h a = Some r"
  shows "a_block_alloc r = 0 \<and> h' = h \<or>
    mall (h_calls h) (h_live h @ h_user h) (max sz (last_block_size h r * 2) + memblock_reserve) = 0 \<and>
    h' = h\<lparr>h_calls := Suc (h_calls h)\<rparr>"
  using assms
  by (auto simp: hpb_Arena_AllocBlock_def arena_at_def block_at_def hpb_malloc_def last_block_size_def res_bind_Inr_iff
      Let_def split: if_splits option.splits)

text \<open>A null result means a refusal, in the heap before the call and in the heap it leaves.\<close>

lemma Malloc_refused:
  assumes hd: "head_ok h r" and mall: "malloc_ok mall" and r: "h_arenas h a = Some r"
    and alloc: "a_block_alloc r \<noteq> 1" and sz: "unat sz \<le> 2 ^ 63" and none: "hpb_Arena_Malloc mall a sz h = Inr (0, h')"
  shows "arena_refused mall a sz (h_calls h) h \<and> arena_refused mall a sz (h_calls h' - 1) h'"
proof -
  let ?sz = "HPB_ALIGN_MALLOC sz"
  note al = align_malloc_facts [OF sz]
  have small: "a_end r - a_ptr r < ?sz"
  proof (rule ccontr)
    assume "\<not> a_end r - a_ptr r < ?sz"
    then show False
      using none r hd
      by (simp add: hpb_Arena_Malloc_def numeral_2_eq_2 hpb_ArenaHas_def arena_at_def head_ok_def Let_def split: if_splits)
  qed
  then have slow: "hpb_Arena_SlowMalloc (malloc_depth 1 mall) mall a ?sz h = Inr (0, h')"
    using none r by (simp add: hpb_Arena_Malloc_def numeral_2_eq_2 hpb_ArenaHas_def arena_at_def Let_def)
  from hd mall r alloc al(3) have "hpb_Arena_AllocBlock mall a ?sz h = Inr (False, h')"
  proof (cases rule: AllocBlock_cases)
    case (block p bs n)
    have "unat (p + 16) = unat p + 16"
      using block(4,5) unat_add_small [of p 16] by simp
    then have "p + 16 \<noteq> 0"
      by (auto simp: word_unat_eq_iff)
    then show ?thesis
      using slow block(1) al(4)
      by (auto simp: hpb_Arena_SlowMalloc_def hpb_ArenaHas_def arena_at_def set_arena_def Let_def split: if_splits)
  next
    case (none n)
    then show ?thesis
      using slow by (simp add: hpb_Arena_SlowMalloc_def)
  qed
  from AllocBlock_refused [OF this r] show ?thesis
    using small r by (auto simp: arena_refused_def last_block_size_def)
qed

text \<open>The condition is exact: it is also sufficient.\<close>

lemma refused_Malloc:
  assumes hd: "head_ok h r" and mall: "malloc_ok mall" and r: "h_arenas h a = Some r" and alloc: "a_block_alloc r \<noteq> 1"
    and sz: "unat sz \<le> 2 ^ 63" and refused: "arena_refused mall a sz (h_calls h) h"
  shows "\<exists>h'. hpb_Arena_Malloc mall a sz h = Inr (0, h')"
proof -
  let ?sz = "HPB_ALIGN_MALLOC sz"
  have "\<exists>h'. hpb_Arena_AllocBlock mall a ?sz h = Inr (False, h')"
    using hd mall r alloc align_malloc_facts(3) [OF sz]
  proof (cases rule: AllocBlock_cases)
    case (block p bs n)
    show ?thesis
      using refused r hd block(7)
      by (auto simp: arena_refused_def hpb_Arena_AllocBlock_def arena_at_def block_at_def hpb_malloc_def last_block_size_def
          head_ok_def Let_def split: if_splits option.splits)
  qed blast
  then show ?thesis
    using refused r
    by (auto simp: arena_refused_def hpb_Arena_Malloc_def numeral_2_eq_2 hpb_ArenaHas_def arena_at_def
        hpb_Arena_SlowMalloc_def Let_def)
qed

text \<open>
  A reallocation that returns a null pointer has asked for new memory and not received it. The
  old pointer is null only for an empty block.
\<close>

lemma Realloc_refused:
  assumes lay: "layout_ok h allocs" and mall: "malloc_ok mall" and r: "h_arenas h a = Some r"
    and alloc: "a_block_alloc r \<noteq> 1" and sz: "0 < unat sz" "unat sz \<le> 2 ^ 62" and ptr: "ptr \<noteq> 0 \<or> old = 0"
    and none: "hpb_Arena_Realloc mall a ptr old sz h = Inr (0, h')"
  shows "arena_refused mall a sz (h_calls h) h \<and> arena_refused mall a sz (h_calls h' - 1) h'"
proof -
  let ?sz = "HPB_ALIGN_MALLOC sz"
  have hd: "head_ok h r"
    using lay r by (simp add: layout_ok_def)
  have al: "unat ?sz \<le> 2 ^ 63" "unat sz \<le> unat ?sz" "HPB_ALIGN_MALLOC ?sz = ?sz"
    using align_malloc_facts [of sz] sz by simp_all
  have "HPB_ALIGN_MALLOC 0 = 0"
    by (simp add: HPB_ALIGN_MALLOC_def HPB_ALIGN_UP_def HPB_MALLOC_ALIGN_def)
  then have "ptr \<noteq> 0 \<or> \<not> (ptr + HPB_ALIGN_MALLOC old = a_ptr r) \<and> \<not> ?sz \<le> HPB_ALIGN_MALLOC old"
    using ptr hd al(2) sz(1) by (auto simp: head_ok_def word_le_nat_alt)
  then have "hpb_Arena_Malloc mall a ?sz h = Inr (0, h')"
    using none r by (auto simp: hpb_Arena_Realloc_def Let_def arena_at_def res_bind_Inr_iff split: if_splits)
  from Malloc_refused [OF hd mall r alloc al(1) this] show ?thesis
    unfolding arena_refused_def al(3) .
qed

end
