(* ===== verification/ArrayGrow.thy ===== *)
theory ArrayGrow
  imports ArrayList ArenaRefuse
begin

text \<open>Growth of an array: the elements keep their values when they move to a larger allocation.\<close>

section \<open>The capacity\<close>

lemma double_capacity_correct:
  assumes "0 < unat c" "unat m \<le> 2 ^ 62" "unat m \<le> unat c * 2 ^ n"
  shows "\<exists>r. double_capacity (Suc n) c m = Inr r \<and> unat m \<le> unat r \<and> unat c \<le> unat r \<and> (r = c \<or> unat r < 2 * unat m)"
  using assms
proof (induction n arbitrary: c)
  case 0
  then show ?case
    by (simp add: word_less_nat_alt)
next
  case (Suc n)
  show ?case
  proof (cases "c < m")
    case True
    then have lt: "unat c < unat m"
      by (simp add: word_less_nat_alt)
    then have u: "unat (c * 2) = 2 * unat c"
      using Suc.prems(2) by (simp add: unat_word_ariths(2))
    obtain r where r: "double_capacity (Suc n) (c * 2) m = Inr r" "unat m \<le> unat r" "unat (c * 2) \<le> unat r"
      "r = c * 2 \<or> unat r < 2 * unat m"
      using Suc.IH [of "c * 2"] Suc.prems u by auto
    then have "unat r < 2 * unat m"
      using u lt by auto
    then show ?thesis
      using r True u by auto
  next
    case False
    then show ?thesis
      by (simp add: word_less_nat_alt)
  qed
qed

section \<open>Reallocation\<close>

lemma tagged_header:
  assumes "Array_data h arr = p OR t" "8 dvd unat p" "t \<le> 4"
  shows "arr_ptr h arr = p" "arr_lg2 h arr = unat t"
  using tagged_arrptr [of p t] assms by (simp_all add: arr_ptr_def arr_lg2_def and_7_aligned)

lemma realloc_moved:
  assumes lay: "layout_ok h allocs" and inv: "array_inv h allocs arr i j"
    and keep: "keeps_bytes h h1 allocs" and lay1: "layout_ok h1 allocs'" and al: "allocs_kept allocs allocs' j j'"
    and j': "j' < length allocs'" "j' \<noteq> i" "allocs' ! j' = (p, HPB_ALIGN_MALLOC (push_bit (arr_lg2 h arr) c))"
    and c: "unat (Array_capacity h arr) \<le> unat c" "unat c * 2 ^ arr_lg2 h arr \<le> 2 ^ 61"
    and bytes: "\<And>m. m < size_bytes h arr \<Longrightarrow> h_mem h1 (p + of_nat m) = h_mem h (arr_ptr h arr + of_nat m)"
    and h2: "h2 = store64 (arr + 16) c (store64 arr (p OR (Array_data h arr AND 7)) h1)"
  shows "array_becomes h allocs h2 allocs' arr i j j' (array_list h arr)" "Array_size h2 arr = Array_size h arr"
    "Array_capacity h2 arr = c" "arr_lg2 h2 arr = arr_lg2 h arr"
proof -
  let ?es = "2 ^ arr_lg2 h arr"
  note f = array_inv_facts [OF lay inv]
  note st = header_store [OF f(1)]
  have i: "i < length allocs" "i \<noteq> j" "allocs ! i = (arr, 24)" "j < length allocs"
    "unat (Array_size h arr) \<le> unat (Array_capacity h arr)"
    using inv by (simp_all add: array_inv_def)
  have i': "i < length allocs'" "allocs' ! i = (arr, 24)"
    using al i by (auto simp: allocs_kept_def)
  have "h_mem h1 x = h_mem h x" if "unat x \<in> range_of (arr, 24)" for x
    using keep nth_mem [OF i(1)] that i(3) by (auto simp: keeps_bytes_def)
  note hc = header_cong [OF this f(1)]
  have lay2: "layout_ok h2 allocs'"
    using lay1 by (simp add: h2)
  then have p: "8 dvd unat p" "unat p + unat (snd (allocs' ! j')) < 2 ^ 64"
    using nth_mem [OF j'(1)] j'(3) by (auto simp: layout_ok_def)
  have t: "Array_data h arr AND 7 \<le> 4"
    using f(7) by (simp add: arr_lg2_def word_le_nat_alt)
  have "Array_data h2 arr = p OR (Array_data h arr AND 7)"
    by (simp add: h2 st)
  note tag = tagged_header [OF this p(1) t]
  then show lg: "arr_lg2 h2 arr = arr_lg2 h arr"
    by (simp add: arr_lg2_def)
  show size: "Array_size h2 arr = Array_size h arr" and cap: "Array_capacity h2 arr = c"
    by (simp_all add: h2 st hc)
  have inv2: "array_inv h2 allocs' arr i j'"
    using i i' j' c f(7) by (simp add: array_inv_def tag(1) lg size cap)
  have mem: "h_mem h2 x = h_mem h1 x" if "unat x \<notin> range_of (arr, 24)" for x
    unfolding h2 using header_store_mem [OF f(1) that] by simp
  have apart: "unat x \<notin> range_of (arr, 24)" if "k < length allocs'" "k \<noteq> i" "unat x \<in> range_of (allocs' ! k)" for k x
    using allocated_apart [OF lay1 that(1) i'(1) that(2,3)] i'(2) by simp
  have "others_kept h h2 allocs i j"
    unfolding others_kept_def
  proof (intro allI impI)
    fix k and x :: u64
    assume k: "k < length allocs" "k \<noteq> i" "k \<noteq> j" "unat x \<in> range_of (allocs ! k)"
    have "h_mem h2 x = h_mem h1 x"
      using al k by (intro mem apart [of k]) (auto simp: allocs_kept_def)
    also have "\<dots> = h_mem h x"
      using keep nth_mem [OF k(1)] k(4) by (auto simp: keeps_bytes_def)
    finally show "h_mem h2 x = h_mem h x" .
  qed
  moreover have "array_list h2 arr = array_list h arr"
    unfolding array_list_def tag(1) lg size
  proof (intro map_cong elem_eqI)
    fix k b :: nat
    assume "k \<in> set [0..<unat (Array_size h arr)]" "b < ?es"
    then have m: "k * ?es + b < size_bytes h arr"
      by (simp add: slot_less)
    have "size_bytes h arr \<le> capacity_bytes h2 arr"
      using i(5) c(1) by (simp add: cap lg)
    also have "\<dots> \<le> unat (snd (allocs' ! j'))"
      by (rule array_inv_facts(6) [OF lay2 inv2])
    finally have le: "k * ?es + b < unat (snd (allocs' ! j'))"
      using m by simp
    then have "unat (p + of_nat (k * ?es + b)) = unat p + (k * ?es + b)"
      using p(2) by (intro unat_offset) simp
    then have "unat (p + of_nat (k * ?es + b)) \<in> range_of (allocs' ! j')"
      using le j'(3) by (simp add: range_of_def)
    then have "unat (p + of_nat (k * ?es + b)) \<notin> range_of (arr, 24)"
      by (rule apart [OF j'(1,2)])
    then show "h_mem h2 (p + of_nat (k * ?es + b)) = h_mem h (arr_ptr h arr + of_nat (k * ?es + b))"
      using mem bytes [OF m] by simp
  qed simp
  ultimately show "array_becomes h allocs h2 allocs' arr i j j' (array_list h arr)"
    using lay2 inv2 al by (simp add: array_becomes_def)
qed

text \<open>An array that was not moved and whose bytes were kept has the same elements.\<close>

lemma array_kept:
  assumes lay: "layout_ok h allocs" and inv: "array_inv h allocs arr i j" and keep: "keeps_bytes h h1 allocs"
    and lay1: "layout_ok h1 allocs"
  shows "array_becomes h allocs h1 allocs arr i j j (array_list h arr)" "Array_data h1 arr = Array_data h arr"
proof -
  let ?es = "2 ^ arr_lg2 h arr" and ?p = "arr_ptr h arr"
  note f = array_inv_facts [OF lay inv]
  have ij: "i < length allocs" "allocs ! i = (arr, 24)" "j < length allocs" "fst (allocs ! j) = ?p"
    using inv by (simp_all add: array_inv_def)
  have same: "h_mem h1 x = h_mem h x" if "k < length allocs" "unat x \<in> range_of (allocs ! k)" for k x
    using keep nth_mem [OF that(1)] that(2) by (auto simp: keeps_bytes_def)
  then have "h_mem h1 x = h_mem h x" if "unat x \<in> range_of (arr, 24)" for x
    using ij that by metis
  note hc = header_cong [OF this f(1)]
  then have eq: "arr_ptr h1 arr = ?p" "arr_lg2 h1 arr = arr_lg2 h arr"
    by (simp_all add: arr_ptr_def arr_lg2_def)
  have "array_list h1 arr = array_list h arr"
    unfolding array_list_def eq hc
  proof (intro map_cong elem_eqI)
    fix k b :: nat
    assume "k \<in> set [0..<unat (Array_size h arr)]" "b < ?es"
    then have m: "k * ?es + b < size_bytes h arr"
      by (simp add: slot_less)
    then have "unat (?p + of_nat (k * ?es + b)) = unat ?p + (k * ?es + b)"
      using f(4,5) by (intro unat_offset) linarith
    moreover have "k * ?es + b < unat (snd (allocs ! j))"
      using m f(5,6) by linarith
    ultimately have "unat (?p + of_nat (k * ?es + b)) \<in> range_of (allocs ! j)"
      by (simp add: range_of_def ij(4))
    then show "h_mem h1 (?p + of_nat (k * ?es + b)) = h_mem h (?p + of_nat (k * ?es + b))"
      by (rule same [OF ij(3)])
  qed (simp_all add: hc)
  moreover have "array_inv h1 allocs arr i j"
    using inv by (simp add: array_inv_def eq hc)
  ultimately show "array_becomes h allocs h1 allocs arr i j j (array_list h arr)"
    using lay1 same by (simp add: array_becomes_def others_kept_def)
  show "Array_data h1 arr = Array_data h arr"
    by (rule hc)
qed

lemma new_capacity:
  assumes inv: "array_inv h allocs arr i j" and m: "unat m * 2 ^ arr_lg2 h arr \<le> 2 ^ 60"
  shows "\<exists>c. double_capacity 65 (max (Array_capacity h arr) 4) m = Inr c \<and> unat m \<le> unat c \<and>
    unat (Array_capacity h arr) \<le> unat c \<and> unat c * 2 ^ arr_lg2 h arr \<le> 2 ^ 61 \<and> 4 \<le> unat c \<and>
    (c = max (Array_capacity h arr) 4 \<or> unat c < 2 * unat m)"
proof -
  let ?s = "max (Array_capacity h arr) 4" and ?es = "2 ^ arr_lg2 h arr :: nat"
  have s: "unat ?s = max (unat (Array_capacity h arr)) 4"
    by (auto simp: max_def word_le_nat_alt)
  have es: "1 \<le> ?es" "?es \<le> 16"
    using inv power_increasing [of "arr_lg2 h arr" 4 "2 :: nat"] by (simp_all add: array_inv_def)
  have "unat m * 1 \<le> unat m * ?es"
    using es(1) by (rule mult_le_mono2)
  then have m': "unat m \<le> 2 ^ 60"
    using m by linarith
  then have "unat m \<le> 2 ^ 62" "0 < unat ?s"
    using s by simp_all
  moreover have "unat m \<le> unat ?s * 2 ^ 64"
    using s m' by simp
  ultimately obtain c where c: "double_capacity 65 ?s m = Inr c" "unat m \<le> unat c" "unat ?s \<le> unat c" "c = ?s \<or> unat c < 2 * unat m"
    using double_capacity_correct [of ?s m 64] by auto
  have "unat c * ?es \<le> 2 ^ 61"
  proof (cases "c = ?s")
    case True
    have "unat (Array_capacity h arr) * ?es \<le> 2 ^ 61" "4 * ?es \<le> 2 ^ 61"
      using inv es by (simp_all add: array_inv_def)
    then show ?thesis
      using True s by (simp add: max_def split: if_splits)
  next
    case False
    then have "unat c * ?es \<le> 2 * unat m * ?es"
      using c(4) by (intro mult_le_mono1) simp
    also have "\<dots> \<le> 2 ^ 61"
      using m by simp
    finally show ?thesis .
  qed
  then show ?thesis
    using c s by auto
qed

text \<open>
  An array that needs room for \<open>m\<close> elements is refused it: its capacity is smaller, and the arena
  has no memory for the least doubled capacity that is enough, which is 4 or less than twice \<open>m\<close>.
\<close>

definition array_refused :: "allocator \<Rightarrow> u64 \<Rightarrow> u64 \<Rightarrow> nat \<Rightarrow> heap \<Rightarrow> bool" where
  "array_refused mall arr a m h \<longleftrightarrow> unat (Array_capacity h arr) < m \<and>
     (\<exists>c. m \<le> unat c \<and> (c = 4 \<or> unat c < 2 * m) \<and>
        arena_refused mall a (push_bit (arr_lg2 h arr) c) (h_calls h) h)"

lemma realloc_correct:
  assumes lay: "layout_ok h allocs" and inv: "array_inv h allocs arr i j" and mall: "malloc_ok mall"
    and r: "h_arenas h a = Some r" "a_block_alloc r \<noteq> 1" and m: "unat m * 2 ^ arr_lg2 h arr \<le> 2 ^ 60"
  shows "\<exists>ok h' allocs' j'. hpb_array_realloc mall arr m a h = Inr (ok, h') \<and>
    array_becomes h allocs h' allocs' arr i j j' (array_list h arr) \<and> arr_lg2 h' arr = arr_lg2 h arr \<and>
    (ok \<longrightarrow> unat m \<le> unat (Array_capacity h' arr)) \<and>
    (Array_capacity h arr < m \<longrightarrow> \<not> ok \<longrightarrow> array_refused mall arr a (unat m) h)"
proof -
  let ?old = "push_bit (arr_lg2 h arr) (Array_capacity h arr)" and ?p = "arr_ptr h arr"
  note f = array_inv_facts [OF lay inv]
  have j: "i \<noteq> j" "i < length allocs" "j < length allocs" "allocs ! j = (?p, HPB_ALIGN_MALLOC ?old)" "capacity_bytes h arr \<le> 2 ^ 61"
    using inv by (simp_all add: array_inv_def)
  obtain c where c: "double_capacity 65 (max (Array_capacity h arr) 4) m = Inr c" "unat m \<le> unat c"
    "unat (Array_capacity h arr) \<le> unat c" "unat c * 2 ^ arr_lg2 h arr \<le> 2 ^ 61" "4 \<le> unat c"
    "c = max (Array_capacity h arr) 4 \<or> unat c < 2 * unat m"
    using new_capacity [OF inv m] by blast
  let ?new = "push_bit (arr_lg2 h arr) c"
  have u: "unat ?old = capacity_bytes h arr" "unat ?new = unat c * 2 ^ arr_lg2 h arr"
    using j(5) c(4) by (simp_all add: unat_push_bit)
  have le: "unat ?old \<le> 2 ^ 62" "unat ?new \<le> 2 ^ 62"
    using j(5) c(4) u by simp_all
  obtain p h1 where p: "hpb_Arena_Realloc mall a ?p ?old ?new h = Inr (p, h1)" "keeps_bytes h h1 allocs"
    "if p = 0 then layout_ok h1 allocs
     else (\<forall>k. unat k < unat ?old \<longrightarrow> unat k < unat ?new \<longrightarrow> h_mem h1 (p + k) = h_mem h (?p + k)) \<and>
       (layout_ok h1 (allocs[j := (p, HPB_ALIGN_MALLOC ?new)]) \<or> layout_ok h1 (allocs @ [(p, HPB_ALIGN_MALLOC ?new)]))"
    using Realloc_result [OF lay mall r j(3,4) le] by blast
  have def: "hpb_array_realloc mall arr m a h = (if p = 0 then Inr (False, h1)
      else res_bind (hpb_tag_arrptr p (Array_data h arr AND 7)) (\<lambda>data. Inr (True, store64 (arr + 16) c (store64 arr data h1))))"
    using p(1) c(1) f(8) by (simp add: hpb_array_realloc_def Let_def arr_lg2_def)
  show ?thesis
  proof (cases "p = 0")
    case True
    have "?p \<noteq> 0"
      using lay nth_mem [OF j(3)] j(4) by (auto simp: layout_ok_def)
    then have "arena_refused mall a ?new (h_calls h) h"
      using Realloc_refused [OF lay mall r _ le(2), of ?p ?old h1] p(1) True u(2) c(5) by simp
    moreover have "c = 4" if "Array_capacity h arr < m" "\<not> unat c < 2 * unat m"
      using that c(2,6) by (auto simp: max_def word_less_nat_alt split: if_splits)
    ultimately have "Array_capacity h arr < m \<longrightarrow> array_refused mall arr a (unat m) h"
      using c(2) by (auto simp: array_refused_def word_less_nat_alt)
    then show ?thesis
      using True def array_kept [OF lay inv p(2)] p(3) by (auto simp: arr_lg2_def intro: exI [of _ allocs])
  next
    case False
    obtain allocs' j' where al: "layout_ok h1 allocs'" "allocs_kept allocs allocs' j j'" "j' < length allocs'" "j' \<noteq> i"
      "allocs' ! j' = (p, HPB_ALIGN_MALLOC ?new)"
    proof -
      have "allocs_kept allocs (allocs[j := (p, HPB_ALIGN_MALLOC ?new)]) j j"
        "allocs_kept allocs (allocs @ [(p, HPB_ALIGN_MALLOC ?new)]) j (length allocs)"
        by (simp_all add: allocs_kept_def nth_append)
      then show thesis
        using p(3) False j that [of "allocs[j := (p, HPB_ALIGN_MALLOC ?new)]" j]
          that [of "allocs @ [(p, HPB_ALIGN_MALLOC ?new)]" "length allocs"] by auto
    qed
    have bytes: "h_mem h1 (p + of_nat n) = h_mem h (?p + of_nat n)" if "n < size_bytes h arr" for n
    proof -
      have "n < unat ?old" "unat ?old \<le> unat ?new"
        using that f(5) c(3) unfolding u by (linarith, simp)
      moreover have "unat (of_nat n :: u64) = n"
        using calculation le(1) by (simp add: unat_of_nat)
      ultimately show ?thesis
        using p(3) False by simp
    qed
    have "8 dvd unat p"
      using al(1) nth_mem [OF al(3)] al(5) by (auto simp: layout_ok_def)
    then have "hpb_tag_arrptr p (Array_data h arr AND 7) = Inr (p OR (Array_data h arr AND 7))"
      using f(7) by (simp add: hpb_tag_arrptr_def and_7_aligned arr_lg2_def word_le_nat_alt)
    then show ?thesis
      using def False realloc_moved [OF lay inv p(2) al c(3,4) bytes refl] c(2) by auto
  qed
qed

section \<open>Resize, append and insert\<close>

lemma ResizeUninitialized_correct:
  assumes lay: "layout_ok h allocs" and inv: "array_inv h allocs arr i j" and mall: "malloc_ok mall"
    and r: "h_arenas h a = Some r" "a_block_alloc r \<noteq> 1" "a \<noteq> 0" and m: "unat m * 2 ^ arr_lg2 h arr \<le> 2 ^ 60"
  shows "\<exists>ok h' allocs' j'. hpb_Array_ResizeUninitialized mall arr m a h = Inr (ok, h') \<and> arr_lg2 h' arr = arr_lg2 h arr \<and>
    (if ok then \<exists>xs. length xs = unat m - unat (Array_size h arr) \<and> Array_size h' arr = m \<and>
        array_becomes h allocs h' allocs' arr i j j' (take (unat m) (array_list h arr) @ xs)
     else array_becomes h allocs h' allocs' arr i j j' (array_list h arr) \<and> array_refused mall arr a (unat m) h)"
proof -
  obtain ok h1 allocs' j' where h1: "hpb_array_reserve mall arr m a h = Inr (ok, h1)" "arr_lg2 h1 arr = arr_lg2 h arr"
    "array_becomes h allocs h1 allocs' arr i j j' (array_list h arr)" "ok \<longrightarrow> unat m \<le> unat (Array_capacity h1 arr)"
    "\<not> ok \<longrightarrow> array_refused mall arr a (unat m) h"
  proof (cases "Array_capacity h arr < m")
    case True
    then show thesis
      using realloc_correct [OF lay inv mall r(1,2) m] that unfolding hpb_array_reserve_def by auto
  next
    case False
    have "array_becomes h allocs h allocs arr i j j (array_list h arr)"
      using lay inv by (simp add: array_becomes_def others_kept_def)
    then show thesis
      using False that unfolding hpb_array_reserve_def by (simp add: word_less_nat_alt)
  qed
  have b: "layout_ok h1 allocs'" "array_inv h1 allocs' arr i j'" "others_kept h h1 allocs i j" "allocs_kept allocs allocs' j j'"
    "array_list h1 arr = array_list h arr"
    using h1(3) by (simp_all add: array_becomes_def)
  have sz: "unat (Array_size h1 arr) = unat (Array_size h arr)"
    using arg_cong [OF b(5), of length] by simp
  show ?thesis
  proof (cases ok)
    case True
    let ?h = "store64 (arr + 8) m h1"
    have cap: "unat m \<le> unat (Array_capacity h1 arr)"
      using h1(4) True by simp
    note s = array_list_shrink [OF b(1,2) cap]
    let ?e = "elem h1 (arr_ptr h1 arr) (2 ^ arr_lg2 h1 arr)"
    have "array_list ?h arr = take (unat m) (array_list h1 arr) @ map ?e [unat (Array_size h1 arr)..<unat m]"
      unfolding s(3) by (rule nth_equalityI) (auto simp: nth_append array_list_def)
    moreover have "Array_size ?h arr = m" "arr_lg2 ?h arr = arr_lg2 h arr"
      using header_store [OF array_inv_facts(1) [OF b(1,2)]] h1(2) by (simp_all add: arr_lg2_def)
    moreover have "hpb_Array_ResizeUninitialized mall arr m a h = Inr (True, ?h)"
      using h1(1) r(3) True by (simp add: hpb_Array_ResizeUninitialized_def)
    ultimately show ?thesis
      using b s(1,2) others_kept_trans [OF b(3) s(2) b(4)] sz
      by (intro exI [of _ True] exI [of _ ?h] exI [of _ allocs'] exI [of _ j'])
        (auto simp: array_becomes_def intro!: exI [of _ "map ?e [unat (Array_size h1 arr)..<unat m]"])
  next
    case False
    then have "hpb_Array_ResizeUninitialized mall arr m a h = Inr (False, h1)"
      using h1(1) r(3) by (simp add: hpb_Array_ResizeUninitialized_def)
    then show ?thesis
      using h1(2,3,5) False by auto
  qed
qed

lemma array_becomes_trans:
  assumes "array_becomes h allocs h1 allocs1 arr i j j1 xs" "array_becomes h1 allocs1 h2 allocs1 arr i j1 j1 ys"
  shows "array_becomes h allocs h2 allocs1 arr i j j1 ys"
  using assms others_kept_trans [of h h1 allocs i j h2 allocs1 j1] by (auto simp: array_becomes_def)

lemma memset_correct:
  assumes lay: "layout_ok h allocs" and inv: "array_inv h allocs arr i j" and n: "n \<le> unat (Array_size h arr)"
    and h': "h' = mem_set (arr_ptr h arr + of_nat (n * 2 ^ arr_lg2 h arr)) 0 (of_nat ((unat (Array_size h arr) - n) * 2 ^ arr_lg2 h arr)) h"
  shows "array_becomes h allocs h' allocs arr i j j
      (take n (array_list h arr) @ replicate (unat (Array_size h arr) - n) (replicate (2 ^ arr_lg2 h arr) 0))"
    "arr_lg2 h' arr = arr_lg2 h arr" "Array_size h' arr = Array_size h arr"
proof -
  let ?es = "2 ^ arr_lg2 h arr" and ?p = "arr_ptr h arr" and ?sz = "unat (Array_size h arr)"
  note f = array_inv_facts [OF lay inv]
  have "n * ?es + (?sz - n) * ?es = ?sz * ?es"
    using n by (simp flip: add_mult_distrib)
  then have fit: "n * ?es + (?sz - n) * ?es \<le> capacity_bytes h arr" and all: "n * ?es + (?sz - n) * ?es = size_bytes h arr"
    using f(5) by simp_all
  note w = array_write [OF lay inv writes_offset(1) [OF f(4) fit, where v = 0 and h = h, folded h']]
  have "elem h' ?p ?es k = (if n \<le> k then replicate ?es 0 else elem h ?p ?es k)" if k: "k < ?sz" for k
  proof -
    have "h_mem h' (?p + of_nat (k * ?es + b)) = (if n \<le> k then 0 else h_mem h (?p + of_nat (k * ?es + b)))" if b: "b < ?es" for b
    proof -
      have lt: "k * ?es + b < size_bytes h arr"
        using b k by (simp add: slot_less)
      then have m: "k * ?es + b < capacity_bytes h arr"
        using f(5) by linarith
      show ?thesis
        unfolding h' byte_set [OF f(4) fit m] all slot_le [OF b] using lt by simp
    qed
    then show ?thesis
      by (auto simp: elem_def map_replicate_const simp del: of_nat_add of_nat_mult intro!: nth_equalityI)
  qed
  then have "array_list h' arr = take n (array_list h arr) @ replicate (?sz - n) (replicate ?es 0)"
    using n w(4,5) by (intro nth_equalityI) (auto simp: array_list_def arr_ptr_def arr_lg2_def nth_append)
  then show "array_becomes h allocs h' allocs arr i j j (take n (array_list h arr) @ replicate (?sz - n) (replicate ?es 0))"
    using w by (simp add: array_becomes_def)
  show "arr_lg2 h' arr = arr_lg2 h arr" "Array_size h' arr = Array_size h arr"
    using w by (simp_all add: arr_lg2_def)
qed

end
