(* ===== verification/ArrayUse.thy ===== *)
theory ArrayUse
  imports ArrayGrow
begin

text \<open>The operations of arrays that allocate, and their use on an arena that stays usable.\<close>

section \<open>Resize, append and insert\<close>

lemma count_le_bytes: "n * 2 ^ l \<le> B \<Longrightarrow> n \<le> B" for n l B :: nat
  by (rule order_trans [of _ "n * 2 ^ l"]) simp_all

lemma Resize_correct:
  assumes lay: "layout_ok h allocs" and inv: "array_inv h allocs arr i j" and mall: "malloc_ok mall"
    and r: "h_arenas h a = Some r" "a_block_alloc r \<noteq> 1" "a \<noteq> 0" and m: "unat m * 2 ^ arr_lg2 h arr \<le> 2 ^ 60"
  shows "\<exists>ok h' allocs' j'. hpb_Array_Resize mall arr m a h = Inr (ok, h') \<and> arr_lg2 h' arr = arr_lg2 h arr \<and>
    (\<not> ok \<longrightarrow> array_refused mall arr a (unat m) h) \<and>
    array_becomes h allocs h' allocs' arr i j j'
      (if ok then take (unat m) (array_list h arr) @ replicate (unat m - unat (Array_size h arr)) (replicate (2 ^ arr_lg2 h arr) 0)
       else array_list h arr)"
proof -
  let ?n = "unat (Array_size h arr)"
  obtain ok h1 allocs' j' where h1: "hpb_Array_ResizeUninitialized mall arr m a h = Inr (ok, h1)" "arr_lg2 h1 arr = arr_lg2 h arr"
    "if ok then \<exists>xs. length xs = unat m - ?n \<and> Array_size h1 arr = m \<and>
        array_becomes h allocs h1 allocs' arr i j j' (take (unat m) (array_list h arr) @ xs)
     else array_becomes h allocs h1 allocs' arr i j j' (array_list h arr) \<and> array_refused mall arr a (unat m) h"
    using ResizeUninitialized_correct [OF assms] by blast
  show ?thesis
  proof (cases "ok \<and> ?n < unat m")
    case True
    then obtain xs where xs: "length xs = unat m - ?n" "Array_size h1 arr = m"
      "array_becomes h allocs h1 allocs' arr i j j' (take (unat m) (array_list h arr) @ xs)"
      using h1(3) by auto
    have b: "layout_ok h1 allocs'" "array_inv h1 allocs' arr i j'" "array_list h1 arr = array_list h arr @ xs"
      using xs(3) True by (simp_all add: array_becomes_def)
    let ?h = "mem_set (arr_ptr h1 arr + of_nat (?n * 2 ^ arr_lg2 h1 arr)) 0
      (of_nat ((unat (Array_size h1 arr) - ?n) * 2 ^ arr_lg2 h1 arr)) h1"
    note s = memset_correct [OF b(1,2) _ refl, of ?n]
    have "unat (m - Array_size h arr) = unat m - ?n"
      using True by (simp add: unat_sub_le)
    then have "hpb_Array_Resize mall arr m a h = Inr (True, ?h)"
      using h1(1) True xs(2) array_inv_facts(8) [OF b(1,2)]
      by (simp add: hpb_Array_Resize_def Let_def word_less_nat_alt push_bit_of_nat arr_lg2_def del: of_nat_mult)
    then show ?thesis
      using array_becomes_trans [OF xs(3) s(1)] s(2) True xs(2) b(3) h1(2) by auto
  next
    case False
    have "hpb_Array_Resize mall arr m a h = Inr (ok, h1)"
      using h1 False by (auto simp: hpb_Array_Resize_def Let_def word_less_nat_alt)
    moreover have "array_becomes h allocs h1 allocs' arr i j j'
      (if ok then take (unat m) (array_list h arr) @ replicate (unat m - ?n) (replicate (2 ^ arr_lg2 h arr) 0) else array_list h arr)"
      using h1(3) False by (auto split: if_splits)
    moreover have "\<not> ok \<longrightarrow> array_refused mall arr a (unat m) h"
      using h1(3) by simp
    ultimately show ?thesis
      using h1(2) by blast
  qed
qed

lemma Append_correct:
  assumes lay: "layout_ok h allocs" and inv: "array_inv h allocs arr i j" and mall: "malloc_ok mall"
    and r: "h_arenas h a = Some r" "a_block_alloc r \<noteq> 1" "a \<noteq> 0"
    and m: "Suc (unat (Array_size h arr)) * 2 ^ arr_lg2 h arr \<le> 2 ^ 60" and val: "2 ^ arr_lg2 h arr \<le> length val"
  shows "\<exists>ok h' allocs' j'. hpb_Array_Append mall arr val a h = Inr (ok, h') \<and> arr_lg2 h' arr = arr_lg2 h arr \<and>
    (\<not> ok \<longrightarrow> array_refused mall arr a (Suc (unat (Array_size h arr))) h) \<and>
    array_becomes h allocs h' allocs' arr i j j'
      (if ok then array_list h arr @ [take (2 ^ arr_lg2 h arr) val] else array_list h arr)"
proof -
  let ?n = "Array_size h arr" and ?es = "2 ^ arr_lg2 h arr :: nat"
  have n: "Suc (unat ?n) \<le> 2 ^ 60"
    using m by (rule count_le_bytes)
  then have u: "unat (?n + 1) = Suc (unat ?n)"
    using unat_add_small [of ?n 1] by simp
  obtain ok h1 allocs1 j1 where h1: "hpb_Array_Resize mall arr (?n + 1) a h = Inr (ok, h1)" "arr_lg2 h1 arr = arr_lg2 h arr"
    "array_becomes h allocs h1 allocs1 arr i j j1 (if ok then array_list h arr @ [replicate ?es 0] else array_list h arr)"
    "\<not> ok \<longrightarrow> array_refused mall arr a (Suc (unat ?n)) h"
    using Resize_correct [OF lay inv mall r, of "?n + 1"] m u by (auto split: if_splits)
  show ?thesis
  proof (cases ok)
    case True
    have b: "layout_ok h1 allocs1" "array_inv h1 allocs1 arr i j1" "array_list h1 arr = array_list h arr @ [replicate ?es 0]"
      using h1(3) True by (simp_all add: array_becomes_def)
    have "unat (Array_size h1 arr) = Suc (unat ?n)"
      using arg_cong [OF b(3), of length] by simp
    then have last: "Array_size h1 arr - 1 = ?n" "?n < Array_size h1 arr"
      using u by (auto simp: word_less_nat_alt word_unat_eq_iff unat_sub_le)
    obtain h2 where "hpb_Array_Set arr ?n val h1 = Inr h2" "Array_data h2 arr = Array_data h1 arr"
      "array_becomes h1 allocs1 h2 allocs1 arr i j1 j1 ((array_list h arr @ [replicate ?es 0])[unat ?n := take ?es val])"
      using Set_correct [OF b(1,2) last(2), of val] val h1(2) b(3) by auto
    then show ?thesis
      using h1(1,2) True r(3) last(1) array_becomes_trans [OF h1(3)]
      by (auto simp: hpb_Array_Append_def arr_lg2_def list_update_append)
  next
    case False
    then show ?thesis
      using h1 r(3) by (auto simp: hpb_Array_Append_def)
  qed
qed

lemma Insert_correct:
  assumes lay: "layout_ok h allocs" and inv: "array_inv h allocs arr i j" and mall: "malloc_ok mall"
    and r: "h_arenas h a = Some r" "a_block_alloc r \<noteq> 1" "a \<noteq> 0" and n: "n \<le> Array_size h arr"
    and m: "(unat (Array_size h arr) + unat count) * 2 ^ arr_lg2 h arr \<le> 2 ^ 60"
  shows "\<exists>ok h' allocs' j' xs. hpb_Array_Insert mall arr n count a h = Inr (ok, h') \<and> arr_lg2 h' arr = arr_lg2 h arr \<and>
    (\<not> ok \<longrightarrow> array_refused mall arr a (unat (Array_size h arr) + unat count) h) \<and>
    length xs = unat count \<and> array_becomes h allocs h' allocs' arr i j j'
      (if ok then take (unat n) (array_list h arr) @ xs @ drop (unat n) (array_list h arr) else array_list h arr)"
proof -
  let ?n = "Array_size h arr" and ?es = "2 ^ arr_lg2 h arr :: nat" and ?xs = "array_list h arr"
  have n2: "unat ?n + unat count \<le> 2 ^ 60"
    using m by (rule count_le_bytes)
  then have u: "unat (?n + count) = unat ?n + unat count" "unat (n + count) = unat n + unat count"
    "unat (?n - n) = unat ?n - unat n"
    using n by (simp_all add: unat_add_small unat_sub_le word_le_nat_alt)
  obtain ok h1 allocs1 j1 where h1: "hpb_Array_Resize mall arr (?n + count) a h = Inr (ok, h1)" "arr_lg2 h1 arr = arr_lg2 h arr"
    "array_becomes h allocs h1 allocs1 arr i j j1 (if ok then ?xs @ replicate (unat count) (replicate ?es 0) else ?xs)"
    "\<not> ok \<longrightarrow> array_refused mall arr a (unat ?n + unat count) h"
    using Resize_correct [OF lay inv mall r, of "?n + count"] m u by (auto split: if_splits)
  have pre: "count \<le> count + ?n"
    using u(1) by (simp add: word_le_nat_alt add.commute)
  have ins: "hpb_Array_Insert mall arr n count a h = (if ok
      then res_bind (hpb_Array_Move arr (n + count) n (?n - n) h1) (\<lambda>h. Inr (True, h)) else Inr (False, h1))"
    using h1(1) r(3) n pre by (simp add: hpb_Array_Insert_def Let_def add.commute)
  show ?thesis
  proof (cases ok)
    case True
    have b: "layout_ok h1 allocs1" "array_inv h1 allocs1 arr i j1"
      and l: "array_list h1 arr = ?xs @ replicate (unat count) (replicate ?es 0)"
      using h1(3) True by (simp_all add: array_becomes_def)
    have sz: "unat (Array_size h1 arr) = unat ?n + unat count"
      using arg_cong [OF l, of length] by simp
    have cap: "unat (Array_size h1 arr) \<le> unat (Array_capacity h1 arr)"
      using b(2) by (simp add: array_inv_def)
    then have fit: "unat (n + count) + unat (?n - n) \<le> unat (Array_capacity h1 arr)"
      using sz u n by (simp add: word_le_nat_alt)
    let ?e = "elem h1 (arr_ptr h1 arr) (2 ^ arr_lg2 h1 arr)"
    obtain h2 where h2: "hpb_Array_Move arr (n + count) n (?n - n) h1 = Inr h2"
      "writes (arr_ptr h1 arr) (capacity_bytes h1 arr) h1 h2"
      "\<forall>k < unat (Array_capacity h1 arr). elem h2 (arr_ptr h1 arr) (2 ^ arr_lg2 h1 arr) k =
        ?e (if unat (n + count) \<le> k \<and> k < unat (n + count) + unat (?n - n) then unat n + (k - unat (n + count)) else k)"
      using Move_correct [OF b fit, of n] by blast
    note w = array_write [OF b h2(2)]
    have e: "?e k = ?xs ! k" if "k < unat ?n" for k
    proof -
      have "array_list h1 arr ! k = ?e k"
        using that sz by (simp add: array_list_def)
      then show ?thesis
        using that by (simp add: l nth_append)
    qed
    let ?ys = "map ?e [unat n..<unat n + unat count]"
    have "array_list h2 arr = take (unat n) ?xs @ ?ys @ drop (unat n) ?xs"
    proof (rule nth_equalityI)
      show "length (array_list h2 arr) = length (take (unat n) ?xs @ ?ys @ drop (unat n) ?xs)"
        using w(5) sz n by (simp add: word_le_nat_alt)
      fix k
      assume "k < length (array_list h2 arr)"
      then have k: "k < unat ?n + unat count"
        using w(5) sz by simp
      then have "array_list h2 arr ! k = (if unat n + unat count \<le> k then ?e (k - unat count) else ?e k)"
        using h2(3) w(4,5) sz cap u n by (auto simp: array_list_def arr_ptr_def arr_lg2_def word_le_nat_alt)
      then show "array_list h2 arr ! k = (take (unat n) ?xs @ ?ys @ drop (unat n) ?xs) ! k"
        using k e n by (auto simp: nth_append word_le_nat_alt)
    qed
    then have "array_becomes h1 allocs1 h2 allocs1 arr i j1 j1 (take (unat n) ?xs @ ?ys @ drop (unat n) ?xs)"
      using w by (simp add: array_becomes_def)
    then have "array_becomes h allocs h2 allocs1 arr i j j1 (take (unat n) ?xs @ ?ys @ drop (unat n) ?xs)"
      by (rule array_becomes_trans [OF h1(3)])
    moreover have "hpb_Array_Insert mall arr n count a h = Inr (True, h2)" "arr_lg2 h2 arr = arr_lg2 h arr"
      using ins True h2(1) w(4) h1(2) by (simp_all add: arr_lg2_def)
    moreover have "length ?ys = unat count"
      by simp
    ultimately show ?thesis
      by (intro exI [of _ True] exI [of _ h2] exI [of _ allocs1] exI [of _ j1] exI [of _ ?ys]) simp
  next
    case False
    then show ?thesis
      using h1 ins by (intro exI [of _ False] exI [of _ h1] exI [of _ allocs1] exI [of _ j1]
          exI [of _ "replicate (unat count) []"]) simp
  qed
qed

section \<open>Creation\<close>

lemma align_header:
  assumes "unat n \<le> 2 ^ 62"
  shows "HPB_ALIGN_MALLOC (24 + n) = 24 + HPB_ALIGN_MALLOC n"
proof -
  have n: "unat (24 + n) = 24 + unat n"
    using assms by (subst unat_add_small) simp_all
  have al: "unat (HPB_ALIGN_MALLOC n) \<le> 2 ^ 63" "unat (HPB_ALIGN_MALLOC n) = (unat n + 7) div 8 * 8"
    using align_malloc_facts(3) [of n] unat_align_malloc [of n] assms by simp_all
  have "unat (HPB_ALIGN_MALLOC (24 + n)) = (24 + unat n + 7) div 8 * 8"
    using unat_align_malloc [of "24 + n"] n assms by simp
  also have "\<dots> = 24 + (unat n + 7) div 8 * 8"
    by presburger
  also have "\<dots> = unat (24 + HPB_ALIGN_MALLOC n)"
    using al by (subst unat_add_small) simp_all
  finally show ?thesis
    by (simp add: word_unat_eq_iff)
qed

lemma New_correct:
  assumes lay: "layout_ok h allocs" and mall: "malloc_ok mall" and r: "h_arenas h a = Some r" "a_block_alloc r \<noteq> 1"
    and lg: "lg \<le> 4" and c: "unat c * 2 ^ unat lg \<le> 2 ^ 61"
  shows "\<exists>arr h'. hpb_Array_New_lg2 mall a c lg h = Inr (arr, h') \<and> keeps_bytes h h' allocs \<and>
    (if arr = 0 then layout_ok h' allocs
     else layout_ok h' (allocs @ [(arr, 24), (arr + 24, HPB_ALIGN_MALLOC (push_bit (unat lg) c))]) \<and>
       array_inv h' (allocs @ [(arr, 24), (arr + 24, HPB_ALIGN_MALLOC (push_bit (unat lg) c))]) arr
         (length allocs) (Suc (length allocs)) \<and> arr_lg2 h' arr = unat lg \<and> array_list h' arr = [])"
proof -
  let ?n = "push_bit (unat lg) c"
  have n: "unat ?n = unat c * 2 ^ unat lg" "unat ?n \<le> 2 ^ 62"
    using c by (simp_all add: unat_push_bit)
  then have "unat (24 + ?n) = 24 + unat ?n"
    by (subst unat_add_small) simp_all
  then have "unat (24 + ?n) \<le> 2 ^ 63"
    using n(2) by simp
  then obtain arr h1 where h1: "hpb_Arena_Malloc mall a (24 + ?n) h = Inr (arr, h1)" "h_mem h1 = h_mem h"
    "layout_ok h1 (if arr = 0 then allocs else allocs @ [(arr, HPB_ALIGN_MALLOC (24 + ?n))])"
    using Malloc_result [OF lay mall r] by blast
  have sz: "HPB_ALIGN_UP sizeof_Array HPB_MALLOC_ALIGN = 24"
    by (simp add: HPB_ALIGN_UP_def sizeof_Array_def HPB_MALLOC_ALIGN_def)
  have def: "hpb_Array_New_lg2 mall a c lg h = (if arr = 0 then Inr (0, h1)
      else res_bind (hpb_tag_arrptr (arr + 24) lg) (\<lambda>data.
        Inr (arr, store64 (arr + 16) c (store64 (arr + 8) 0 (store64 arr data h1)))))"
    using lg h1(1) by (simp add: hpb_Array_New_lg2_def sz Let_def)
  show ?thesis
  proof (cases "arr = 0")
    case True
    then show ?thesis
      using def h1 by (auto simp: keeps_bytes_def)
  next
    case False
    let ?al = "allocs @ [(arr, 24), (arr + 24, HPB_ALIGN_MALLOC ?n)]"
    have big: "24 \<le> unat (24 + HPB_ALIGN_MALLOC ?n)"
      using align_malloc_facts(3) [of ?n] n(2) by (subst unat_add_small) simp_all
    have lay1: "layout_ok h1 ?al"
      using layout_ok_split [of h1 allocs arr "24 + HPB_ALIGN_MALLOC ?n" 24] h1(3) False big n(2)
      by (simp add: align_header)
    then have a: "unat arr + 24 < 2 ^ 64" "8 dvd unat (arr + 24)"
      by (auto simp: layout_ok_def)
    note st = header_store [OF a(1)]
    let ?d = "arr + 24 OR lg"
    let ?h = "store64 (arr + 16) c (store64 (arr + 8) 0 (store64 arr ?d h1))"
    have "hpb_Array_New_lg2 mall a c lg h = Inr (arr, ?h)"
      using def False lg a(2) by (simp add: hpb_tag_arrptr_def and_7_aligned)
    moreover have d: "Array_data ?h arr = ?d"
      by (simp add: st)
    note tag = tagged_header [OF d a(2) lg]
    have "array_inv ?h ?al arr (length allocs) (Suc (length allocs))"
      using lg c by (simp add: array_inv_def tag st nth_append word_le_nat_alt)
    moreover have "array_list ?h arr = []"
      by (simp add: array_list_def st)
    moreover have "h_mem ?h x = h_mem h x" if x: "reg \<in> set allocs" "unat x \<in> range_of reg" for reg x
    proof -
      obtain k where "k < length allocs" "allocs ! k = reg"
        using x(1) by (metis in_set_conv_nth)
      then have "unat x \<notin> range_of (arr, 24)"
        using allocated_apart [OF lay1, of k "length allocs" x] x(2) by (simp add: nth_append)
      then show ?thesis
        using header_store_mem [OF a(1)] h1(2) by simp
    qed
    ultimately show ?thesis
      using False lay1 tag(2) by (auto simp: keeps_bytes_def)
  qed
qed

end
