(* ===== verification/ArraySafe.thy ===== *)
theory ArraySafe
  imports ArrayUse
begin

text \<open>
  The contract of a list that grows, which arrays satisfy on an arena that can allocate, and the
  theorems on arrays.
\<close>

section \<open>The arena stays usable\<close>

definition same_alloc :: "u64 \<Rightarrow> heap \<Rightarrow> heap \<Rightarrow> bool" where
  "same_alloc a h h' \<longleftrightarrow>
     (\<forall>r. h_arenas h a = Some r \<longrightarrow> (\<exists>r'. h_arenas h' a = Some r' \<and> a_block_alloc r' = a_block_alloc r))"

lemma same_alloc_refl [simp]: "same_alloc a h h"
  by (simp add: same_alloc_def)

lemma same_alloc_trans: "same_alloc a h h1 \<Longrightarrow> same_alloc a h1 h2 \<Longrightarrow> same_alloc a h h2"
  unfolding same_alloc_def by metis

lemma same_alloc_mem [simp]:
  "same_alloc a h (mem_copy dst src n h') = same_alloc a h h'"
  "same_alloc a h (mem_set p v m h') = same_alloc a h h'"
  "same_alloc a h (mem_write p bs h') = same_alloc a h h'"
  "same_alloc a h (store64 p w h') = same_alloc a h h'"
  by (simp_all add: same_alloc_def mem_copy_def mem_set_def mem_write_def store64_def)

lemma AllocBlock_same: "hpb_Arena_AllocBlock mall a sz h = Inr (ok, h') \<Longrightarrow> same_alloc a h h'"
  by (auto simp: hpb_Arena_AllocBlock_def hpb_Arena_AddBlock_def hpb_malloc_def arena_at_def set_arena_def same_alloc_def
      res_bind_Inr_iff Let_def split: option.splits if_splits)

lemma malloc_depth_same: "malloc_depth d mall a sz h = Inr (p, h') \<Longrightarrow> same_alloc a h h'"
proof (induction d arbitrary: sz h p h')
  case (Suc d)
  let ?sz = "HPB_ALIGN_MALLOC sz"
  obtain has where has: "hpb_ArenaHas h a = Inr has"
    using Suc.prems by (auto simp: Let_def res_bind_Inr_iff)
  show ?case
  proof (cases "has < ?sz")
    case True
    then have slow: "hpb_Arena_SlowMalloc (malloc_depth d mall) mall a ?sz h = Inr (p, h')"
      using Suc.prems has by (simp add: Let_def)
    then obtain ok h1 where h1: "hpb_Arena_AllocBlock mall a ?sz h = Inr (ok, h1)"
      "h' = h1 \<or> malloc_depth d mall a ?sz h1 = Inr (p, h')"
      unfolding hpb_Arena_SlowMalloc_def by (auto simp: res_bind_Inr_iff split: if_splits)
    then show ?thesis
      using AllocBlock_same [OF h1(1)] Suc.IH [of ?sz h1 p h'] same_alloc_trans by blast
  next
    case False
    then show ?thesis
      using Suc.prems has
      by (auto simp: Let_def res_bind_Inr_iff arena_at_def set_arena_def same_alloc_def split: if_splits option.splits)
  qed
qed simp

lemma Malloc_same: "hpb_Arena_Malloc mall a sz h = Inr (p, h') \<Longrightarrow> same_alloc a h h'"
  unfolding hpb_Arena_Malloc_def by (rule malloc_depth_same)

lemma Realloc_same: "hpb_Arena_Realloc mall a ptr old sz h = Inr (p, h') \<Longrightarrow> same_alloc a h h'"
proof -
  assume re: "hpb_Arena_Realloc mall a ptr old sz h = Inr (p, h')"
  then obtain r where r: "h_arenas h a = Some r"
    by (auto simp: hpb_Arena_Realloc_def Let_def res_bind_Inr_iff arena_at_def split: option.splits)
  then have "same_alloc a h (set_arena a (r\<lparr>a_ptr := d\<rparr>) h)" for d
    by (simp add: same_alloc_def set_arena_def)
  then show ?thesis
    using re r by (auto simp: hpb_Arena_Realloc_def Let_def res_bind_Inr_iff arena_at_def dest!: Malloc_same split: if_splits)
qed

lemma array_realloc_same: "hpb_array_realloc mall arr m a h = Inr (ok, h') \<Longrightarrow> same_alloc a h h'"
  by (auto simp: hpb_array_realloc_def Let_def res_bind_Inr_iff dest!: Realloc_same split: if_splits)

lemma Resize_same: "hpb_Array_Resize mall arr m a h = Inr (ok, h') \<Longrightarrow> same_alloc a h h'"
  by (auto simp: hpb_Array_Resize_def hpb_Array_ResizeUninitialized_def hpb_array_reserve_def Let_def res_bind_Inr_iff
      dest!: array_realloc_same split: if_splits)

lemma Append_same: "hpb_Array_Append mall arr val a h = Inr (ok, h') \<Longrightarrow> same_alloc a h h'"
  by (auto simp: hpb_Array_Append_def hpb_Array_Set_def Let_def res_bind_Inr_iff dest!: Resize_same split: if_splits)

section \<open>A list that grows\<close>

fun append_all :: "('v \<Rightarrow> 's \<Rightarrow> 'f + bool \<times> 's) \<Rightarrow> 'v list \<Rightarrow> 's \<Rightarrow> 'f + bool \<times> 's" where
  "append_all app [] s = Inr (True, s)"
| "append_all app (v # vs) s = res_bind (app v s) (\<lambda>(ok, s). if ok then append_all app vs s else Inr (False, s))"

locale growable_list =
  fixes good :: "'s \<Rightarrow> bool" and contents :: "'s \<Rightarrow> 'e list" and app :: "'v \<Rightarrow> 's \<Rightarrow> 'f + bool \<times> 's"
    and value_ok :: "'v \<Rightarrow> bool" and enc :: "'v \<Rightarrow> 'e" and limit :: nat
  assumes append: "good s \<Longrightarrow> length (contents s) < limit \<Longrightarrow> value_ok v \<Longrightarrow>
    \<exists>ok s'. app v s = Inr (ok, s') \<and> good s' \<and> contents s' = (if ok then contents s @ [enc v] else contents s)"
begin

lemma append_all_contents:
  assumes "good s" "length (contents s) + length vs \<le> limit" "\<forall>v \<in> set vs. value_ok v"
  shows "\<exists>ok s' n. append_all app vs s = Inr (ok, s') \<and> good s' \<and> n \<le> length vs \<and> (ok \<longrightarrow> n = length vs) \<and>
    contents s' = contents s @ map enc (take n vs)"
  using assms
proof (induction vs arbitrary: s)
  case (Cons v vs)
  obtain ok s1 where s1: "app v s = Inr (ok, s1)" "good s1" "contents s1 = (if ok then contents s @ [enc v] else contents s)"
    using append [of s v] Cons.prems by auto
  show ?case
  proof (cases ok)
    case True
    obtain ok2 s2 n where s2: "append_all app vs s1 = Inr (ok2, s2)" "good s2" "n \<le> length vs" "ok2 \<longrightarrow> n = length vs"
      "contents s2 = contents s1 @ map enc (take n vs)"
      using Cons.IH [of s1] Cons.prems s1 True by auto
    then show ?thesis
      using s1 True by (intro exI [of _ ok2] exI [of _ s2] exI [of _ "Suc n"]) auto
  next
    case False
    then show ?thesis
      using s1 by (intro exI [of _ False] exI [of _ s1] exI [of _ 0]) simp
  qed
qed auto

end

definition array_good :: "allocator \<Rightarrow> u64 \<Rightarrow> u64 \<Rightarrow> nat \<Rightarrow> heap \<Rightarrow> bool" where
  "array_good mall arr a lg h \<longleftrightarrow> malloc_ok mall \<and> a \<noteq> 0 \<and> (\<exists>r. h_arenas h a = Some r \<and> a_block_alloc r \<noteq> 1) \<and>
     arr_lg2 h arr = lg \<and> (\<exists>allocs i j. layout_ok h allocs \<and> array_inv h allocs arr i j)"

lemma array_good_append:
  assumes good: "array_good mall arr a lg h" and len: "length (array_list h arr) < 2 ^ 56" and val: "length val = 16"
  shows "\<exists>ok h'. hpb_Array_Append mall arr val a h = Inr (ok, h') \<and> array_good mall arr a lg h' \<and>
    array_list h' arr = (if ok then array_list h arr @ [take (2 ^ lg) val] else array_list h arr)"
proof -
  obtain r allocs i j where r: "a \<noteq> 0" "h_arenas h a = Some r" "a_block_alloc r \<noteq> 1" "arr_lg2 h arr = lg" "malloc_ok mall"
    and inv: "layout_ok h allocs" "array_inv h allocs arr i j"
    using good by (auto simp: array_good_def)
  have lg: "2 ^ lg \<le> (2 :: nat) ^ 4"
    using array_inv_facts(7) [OF inv] r(4) by (intro power_increasing) simp_all
  then have "Suc (unat (Array_size h arr)) * 2 ^ lg \<le> 2 ^ 56 * 2 ^ 4"
    using len by (intro mult_le_mono) simp_all
  then have m: "Suc (unat (Array_size h arr)) * 2 ^ arr_lg2 h arr \<le> 2 ^ 60"
    by (simp add: r(4))
  have v: "2 ^ arr_lg2 h arr \<le> length val"
    using val lg r(4) by simp
  obtain ok h' allocs' j' where h': "hpb_Array_Append mall arr val a h = Inr (ok, h')" "arr_lg2 h' arr = arr_lg2 h arr"
    "array_becomes h allocs h' allocs' arr i j j' (if ok then array_list h arr @ [take (2 ^ arr_lg2 h arr) val] else array_list h arr)"
    using Append_correct [OF inv r(5,2,3,1) m v] by blast
  moreover have "array_good mall arr a lg h'"
    using Append_same [OF h'(1)] h'(2,3) r unfolding array_good_def same_alloc_def array_becomes_def by metis
  ultimately show ?thesis
    using r(4) by (auto simp: array_becomes_def)
qed

interpretation arr: growable_list "array_good mall arr a lg" "\<lambda>h. array_list h arr" "\<lambda>v. hpb_Array_Append mall arr v a"
  "\<lambda>v. length v = 16" "take (2 ^ lg)" "2 ^ 56" for mall arr a lg
  using array_good_append by unfold_locales blast

section \<open>An example\<close>

lemma one_array:
  obtains h0 h where "hpb_Arena_New bump 16 (empty_heap []) = Inr (280, h0)"
    "hpb_Array_New bump 280 CType_Int64 h0 = Inr (24, h)" "layout_ok h [(24, 24), (48, 32)]"
    "array_inv h [(24, 24), (48, 32)] 24 0 1" "arr_lg2 h 24 = 3" "array_list h 24 = []"
    "h_arenas h 280 = Some ((ex_arena 8)\<lparr>a_ptr := 80\<rparr>)" "Array_capacity h 24 = 4"
proof -
  obtain h0 where h0: "hpb_Arena_New bump 16 (empty_heap []) = Inr (280, h0)" "h_arenas h0 = [280 \<mapsto> ex_arena 8]" "layout_ok h0 []"
    using one_arena by blast
  have al: "HPB_ALIGN_MALLOC 56 = 56" "HPB_ALIGN_MALLOC 32 = 32" "HPB_ALIGN_UP sizeof_Array HPB_MALLOC_ALIGN = 24"
    by (simp_all add: HPB_ALIGN_MALLOC_def HPB_ALIGN_UP_def HPB_MALLOC_ALIGN_def sizeof_Array_def)
  have hd: "head_ok h0 (ex_arena 8)"
    using h0(2,3) by (simp add: layout_ok_def)
  let ?h = "set_arena 280 ((ex_arena 8)\<lparr>a_ptr := a_ptr (ex_arena 8) + HPB_ALIGN_MALLOC 56\<rparr>) h0"
  have "malloc_depth (Suc (Suc 0)) bump 280 56 h0 = Inr (a_ptr (ex_arena 8), ?h)"
    by (rule malloc_depth_fast [OF hd]) (simp_all add: h0(2) al ex_arena_def)
  then have m: "hpb_Arena_Malloc bump 280 56 h0 = Inr (24, ?h)"
    unfolding hpb_Arena_Malloc_def numeral_2_eq_2 by (simp add: ex_arena_def del: malloc_depth.simps)
  let ?h' = "store64 40 4 (store64 32 0 (store64 24 51 ?h))"
  have n: "hpb_Array_New_lg2 bump 280 4 3 h0 = Inr (24, ?h')"
    using m by (simp add: hpb_Array_New_lg2_def al(3) hpb_tag_arrptr_def push_bit_eq_mult)
  have ex: "h_arenas h0 280 = Some (ex_arena 8)" "a_block_alloc (ex_arena 8) \<noteq> 1"
    "(3 :: u64) \<le> 4" "unat (4 :: u64) * 2 ^ unat (3 :: u64) \<le> 2 ^ 61"
    by (simp_all add: h0(2) ex_arena_def)
  have "layout_ok ?h' [(24, 24), (48, 32)] \<and> array_inv ?h' [(24, 24), (48, 32)] 24 0 1 \<and> arr_lg2 ?h' 24 = 3 \<and> array_list ?h' 24 = []"
    using New_correct [OF h0(3) bump_ok ex] n al(2) by (simp add: push_bit_eq_mult)
  moreover have "h_arenas ?h' 280 = Some ((ex_arena 8)\<lparr>a_ptr := 80\<rparr>)"
    by (simp add: store64_def mem_write_def set_arena_def al ex_arena_def)
  moreover have "Array_capacity ?h' 24 = 4"
    using header_store [of 24] by simp
  ultimately show thesis
    using that h0(1) n by (simp add: hpb_Array_New_def)
qed

lemma filled_array:
  obtains h0 h h1 al j where "hpb_Arena_New bump 16 (empty_heap []) = Inr (280, h0)"
    "hpb_Array_New bump 280 CType_Int64 h0 = Inr (24, h)" "hpb_Array_Resize bump 24 2 280 h = Inr (True, h1)"
    "layout_ok h1 al" "array_inv h1 al 24 0 j" "array_list h1 24 = replicate 2 (replicate 8 0)" "arr_lg2 h1 24 = 3"
    "unat (Array_size h1 24) = 2"
proof -
  obtain h0 h where h: "hpb_Arena_New bump 16 (empty_heap []) = Inr (280, h0)" "hpb_Array_New bump 280 CType_Int64 h0 = Inr (24, h)"
    and i: "layout_ok h [(24, 24), (48, 32)]" "array_inv h [(24, 24), (48, 32)] 24 0 1"
    and e: "arr_lg2 h 24 = 3" "array_list h 24 = []" "h_arenas h 280 = Some ((ex_arena 8)\<lparr>a_ptr := 80\<rparr>)" "Array_capacity h 24 = 4"
    by (rule one_array)
  have pre: "a_block_alloc ((ex_arena 8)\<lparr>a_ptr := 80\<rparr>) \<noteq> 1" "(280 :: u64) \<noteq> 0" "unat (2 :: u64) * 2 ^ arr_lg2 h 24 \<le> 2 ^ 60"
    by (simp_all add: ex_arena_def e(1))
  obtain ok h1 al j where h1: "hpb_Array_Resize bump 24 2 280 h = Inr (ok, h1)" "arr_lg2 h1 24 = arr_lg2 h 24"
    "array_becomes h [(24, 24), (48, 32)] h1 al 24 0 1 j (if ok
       then take (unat (2 :: u64)) (array_list h 24) @ replicate (unat (2 :: u64) - unat (Array_size h 24)) (replicate (2 ^ arr_lg2 h 24) 0)
       else array_list h 24)"
    using Resize_correct [OF i bump_ok e(3) pre] by blast
  have ok: "ok"
    using h1(1) e(4) by (auto simp: hpb_Array_Resize_def hpb_Array_ResizeUninitialized_def hpb_array_reserve_def Let_def
        res_bind_Inr_iff split: if_splits)
  have "unat (Array_size h 24) = 0"
    using arg_cong [OF e(2), of length] by simp
  then have b: "layout_ok h1 al" "array_inv h1 al 24 0 j" "array_list h1 24 = replicate 2 (replicate 8 0)"
    using h1(3) ok e(1,2) by (simp_all add: array_becomes_def)
  moreover have "unat (Array_size h1 24) = 2"
    using arg_cong [OF b(3), of length] by simp
  ultimately show thesis
    using that h h1(1,2) ok e(1) by simp
qed

section \<open>Theorems\<close>

text \<open>
  C5: the operations of an array that allocate return, without a failed assertion and without an
  endless loop, and act on its elements as on a list: resizing cuts the list or extends it with
  zero elements, appending adds the value at the end, inserting shifts the elements from the
  index on. They fail only when the capacity is too small and the arena has no memory for a larger
  one: its head block has no room and it has no block allocator, or the allocator returns a null
  pointer. The elements then stay as they were. In every case the invariants of the array and of
  the arena hold afterwards and no byte of another allocation changes.
\<close>

theorem hpb_Array_grow_refines:
  assumes "layout_ok h allocs" "array_inv h allocs arr i j" "malloc_ok mall" "h_arenas h a = Some r" "a_block_alloc r \<noteq> 1" "a \<noteq> 0"
    and "(unat (Array_size h arr) + unat n + 1) * 2 ^ arr_lg2 h arr \<le> 2 ^ 60" "k \<le> Array_size h arr"
    "length val = 16"
  shows "(\<exists>ok h' allocs' j'. hpb_Array_Resize mall arr n a h = Inr (ok, h') \<and> array_becomes h allocs h' allocs' arr i j j'
      (if ok then take (unat n) (array_list h arr) @ replicate (unat n - length (array_list h arr)) (replicate (2 ^ arr_lg2 h arr) 0)
       else array_list h arr) \<and> (ok \<or> array_refused mall arr a (unat n) h)) \<and>
    (\<exists>ok h' allocs' j'. hpb_Array_Append mall arr val a h = Inr (ok, h') \<and> array_becomes h allocs h' allocs' arr i j j'
      (if ok then array_list h arr @ [take (2 ^ arr_lg2 h arr) val] else array_list h arr) \<and>
      (ok \<or> array_refused mall arr a (length (array_list h arr) + 1) h)) \<and>
    (\<exists>ok h' allocs' j' xs. hpb_Array_Insert mall arr k n a h = Inr (ok, h') \<and> length xs = unat n \<and>
      array_becomes h allocs h' allocs' arr i j j'
        (if ok then take (unat k) (array_list h arr) @ xs @ drop (unat k) (array_list h arr) else array_list h arr) \<and>
      (ok \<or> array_refused mall arr a (length (array_list h arr) + unat n) h))"
proof -
  have lg: "arr_lg2 h arr \<le> 4"
    by (rule array_inv_facts(7) [OF assms(1,2)])
  then have val: "2 ^ arr_lg2 h arr \<le> length val"
    using power_increasing [OF lg, of "2 :: nat"] assms(9) by simp
  have le: "x * 2 ^ arr_lg2 h arr \<le> 2 ^ 60" if "x \<le> unat (Array_size h arr) + unat n + 1" for x
    using mult_le_mono1 [OF that] assms(7) by (rule order_trans)
  have fits: "unat n * 2 ^ arr_lg2 h arr \<le> 2 ^ 60" "Suc (unat (Array_size h arr)) * 2 ^ arr_lg2 h arr \<le> 2 ^ 60"
    "(unat (Array_size h arr) + unat n) * 2 ^ arr_lg2 h arr \<le> 2 ^ 60"
    by (rule le, simp)+
  show ?thesis
    using Resize_correct [OF assms(1-6) fits(1)] Append_correct [OF assms(1-6) fits(2) val]
      Insert_correct [OF assms(1-6,8) fits(3)] unfolding length_array_list Suc_eq_plus1 by blast
qed

theorem hpb_Array_grow_refines_witness:
  "\<exists>h0 h h' allocs' j'. hpb_Arena_New bump 16 (empty_heap []) = Inr (280, h0) \<and>
     hpb_Array_New bump 280 CType_Int64 h0 = Inr (24, h) \<and> hpb_Array_Resize bump 24 5 280 h = Inr (True, h') \<and>
     array_becomes h [(24, 24), (48, 32)] h' allocs' 24 0 1 j' (replicate 5 (replicate 8 0))"
proof -
  obtain h0 h where h: "hpb_Arena_New bump 16 (empty_heap []) = Inr (280, h0)" "hpb_Array_New bump 280 CType_Int64 h0 = Inr (24, h)"
    and i: "layout_ok h [(24, 24), (48, 32)]" "array_inv h [(24, 24), (48, 32)] 24 0 1"
    and e: "arr_lg2 h 24 = 3" "array_list h 24 = []" "h_arenas h 280 = Some ((ex_arena 8)\<lparr>a_ptr := 80\<rparr>)"
    by (rule one_array)
  have s: "unat (Array_size h 24) = 0"
    using arg_cong [OF e(2), of length] by simp
  have pre: "a_block_alloc ((ex_arena 8)\<lparr>a_ptr := 80\<rparr>) \<noteq> 1" "(280 :: u64) \<noteq> 0"
    "(unat (Array_size h 24) + unat (5 :: u64) + 1) * 2 ^ arr_lg2 h 24 \<le> 2 ^ 60" "0 \<le> Array_size h 24" "length (replicate 16 (0 :: byte)) = 16"
    by (simp_all add: ex_arena_def s e(1))
  obtain ok h' allocs' j' where "hpb_Array_Resize bump 24 5 280 h = Inr (ok, h')"
    "array_becomes h [(24, 24), (48, 32)] h' allocs' 24 0 1 j'
      (if ok then take (unat (5 :: u64)) (array_list h 24) @ replicate (unat (5 :: u64) - length (array_list h 24)) (replicate (2 ^ arr_lg2 h 24) 0)
       else array_list h 24)" "ok \<or> array_refused bump 24 280 5 h"
    using hpb_Array_grow_refines [OF i bump_ok e(3) pre] by auto
  moreover have "\<not> array_refused bump 24 280 5 h"
  proof
    assume "array_refused bump 24 280 5 h"
    then obtain c where c: "c = 4 \<or> unat c < 10" "arena_refused bump 280 (push_bit 3 c) (h_calls h) h"
      by (auto simp: array_refused_def e(1))
    have room: "a_end (ex_arena 8) - 80 = 200"
      by (simp add: ex_arena_def)
    have "unat c < 10"
      using c(1) by auto
    then have "unat (push_bit 3 c) = 8 * unat c"
      by (simp add: unat_push_bit)
    moreover from this have "unat (HPB_ALIGN_MALLOC (push_bit 3 c)) = 8 * unat c"
      using \<open>unat c < 10\<close> align_malloc_id [of "push_bit 3 c"] by simp
    ultimately show False
      using c(2) \<open>unat c < 10\<close> room by (simp add: arena_refused_def e(3) word_less_nat_alt)
  qed
  ultimately show ?thesis
    using h unfolding e(1,2) by auto
qed

text \<open>
  C15: reading, writing and deleting elements act as on a list, and each keeps the invariants and
  every byte of other allocations; the value that was written is the one that is read.
\<close>

theorem hpb_Array_element_refines:
  assumes "layout_ok h allocs" "array_inv h allocs arr i j" "n < Array_size h arr" "length val = 16"
    "unat m + unat count \<le> unat (Array_size h arr)"
  shows "hpb_Array_Get h arr n = Inr (array_list h arr ! unat n) \<and>
    (\<exists>h'. hpb_Array_Set arr n val h = Inr h' \<and> hpb_Array_Get h' arr n = Inr (take (2 ^ arr_lg2 h arr) val) \<and>
      array_becomes h allocs h' allocs arr i j j ((array_list h arr)[unat n := take (2 ^ arr_lg2 h arr) val])) \<and>
    (\<exists>h'. hpb_Array_Delete arr m count h = Inr h' \<and>
      array_becomes h allocs h' allocs arr i j j (take (unat m) (array_list h arr) @ drop (unat m + unat count) (array_list h arr)))"
proof -
  have lg: "arr_lg2 h arr \<le> 4"
    by (rule array_inv_facts(7) [OF assms(1,2)])
  then have val: "2 ^ arr_lg2 h arr \<le> length val"
    using power_increasing [OF lg, of "2 :: nat"] assms(4) by simp
  let ?xs = "(array_list h arr)[unat n := take (2 ^ arr_lg2 h arr) val]"
  obtain h' where h': "hpb_Array_Set arr n val h = Inr h'" "array_becomes h allocs h' allocs arr i j j ?xs"
    using Set_correct [OF assms(1-3) val] by blast
  then have b: "layout_ok h' allocs" "array_inv h' allocs arr i j" "array_list h' arr = ?xs"
    by (simp_all add: array_becomes_def)
  have len: "unat n < unat (Array_size h arr)" "unat (Array_size h' arr) = unat (Array_size h arr)"
    using assms(3) arg_cong [OF b(3), of length] by (simp_all add: word_less_nat_alt)
  then have "hpb_Array_Get h' arr n = Inr (take (2 ^ arr_lg2 h arr) val)"
    using Get_correct [OF b(1,2), of n] b(3) by (simp add: word_less_nat_alt)
  then show ?thesis
    using Get_correct [OF assms(1-3)] Delete_correct [OF assms(1,2,5)] h' by blast
qed

theorem hpb_Array_element_refines_witness:
  "\<exists>h0 h h1 h2. hpb_Arena_New bump 16 (empty_heap []) = Inr (280, h0) \<and> hpb_Array_New bump 280 CType_Int64 h0 = Inr (24, h) \<and>
     hpb_Array_Resize bump 24 2 280 h = Inr (True, h1) \<and> hpb_Array_Get h1 24 1 = Inr (replicate 8 0) \<and>
     hpb_Array_Set 24 1 (replicate 16 7) h1 = Inr h2 \<and> hpb_Array_Get h2 24 1 = Inr (replicate 8 7)"
proof -
  obtain h0 h h1 al j where h: "hpb_Arena_New bump 16 (empty_heap []) = Inr (280, h0)" "hpb_Array_New bump 280 CType_Int64 h0 = Inr (24, h)"
    "hpb_Array_Resize bump 24 2 280 h = Inr (True, h1)"
    and b: "layout_ok h1 al" "array_inv h1 al 24 0 j" "array_list h1 24 = replicate 2 (replicate 8 0)" "arr_lg2 h1 24 = 3"
      "unat (Array_size h1 24) = 2"
    by (rule filled_array)
  have pre1: "1 < Array_size h1 24" "length (replicate 16 (7 :: byte)) = 16" "unat (0 :: u64) + unat (0 :: u64) \<le> unat (Array_size h1 24)"
    by (simp_all add: word_less_nat_alt b(5))
  note r = hpb_Array_element_refines [OF b(1,2) pre1]
  have "hpb_Array_Get h1 24 1 = Inr (replicate 8 0)"
    using r b(3) by (simp add: numeral_2_eq_2)
  moreover obtain h2 where "hpb_Array_Set 24 1 (replicate 16 7) h1 = Inr h2"
    "hpb_Array_Get h2 24 1 = Inr (take (2 ^ arr_lg2 h1 24) (replicate 16 7))"
    using r by blast
  ultimately show ?thesis
    using h b(4) by auto
qed

text \<open>
  An element of eight bytes that is set from two halves of 32 bits gives the same halves back,
  read as a signed or as an unsigned integer.
\<close>

theorem hpb_Array_split64_roundtrip:
  assumes "layout_ok h allocs" "array_inv h allocs arr i j" "arr_lg2 h arr = 3" "n < Array_size h arr"
  shows "\<exists>h'. hpb_Array_SetInt64Split arr n hi lo h = Inr h' \<and> hpb_Array_SetUInt64Split arr n hi lo h = Inr h' \<and>
    hpb_Array_GetInt64Hi h' arr n = Inr hi \<and> hpb_Array_GetInt64Lo h' arr n = Inr lo \<and>
    hpb_Array_GetUInt64Hi h' arr n = Inr hi \<and> hpb_Array_GetUInt64Lo h' arr n = Inr lo"
proof -
  have "2 ^ arr_lg2 h arr \<le> length (split64_val hi lo)"
    by (simp add: assms(3) split64_val_def)
  then obtain h' where h': "hpb_Array_Set arr n (split64_val hi lo) h = Inr h'"
    "array_becomes h allocs h' allocs arr i j j ((array_list h arr)[unat n := take (2 ^ arr_lg2 h arr) (split64_val hi lo)])"
    using Set_correct [OF assms(1,2,4)] by blast
  then have b: "layout_ok h' allocs" "array_inv h' allocs arr i j"
    "array_list h' arr = (array_list h arr)[unat n := split64_val hi lo]"
    by (simp_all add: array_becomes_def assms(3) split64_val_def)
  have "unat n < unat (Array_size h arr)" "unat (Array_size h' arr) = unat (Array_size h arr)"
    using assms(4) arg_cong [OF b(3), of length] by (simp_all add: word_less_nat_alt)
  then have "hpb_Array_Get h' arr n = Inr (split64_val hi lo)"
    using Get_correct [OF b(1,2), of n] b(3) by (simp add: word_less_nat_alt)
  moreover have "le_word (split64_val hi lo) = push_bit 32 (ucast hi) OR ucast lo"
    by (simp add: split64_val_def)
  moreover have "ucast (drop_bit 32 (push_bit 32 (ucast hi) OR ucast lo :: u64)) = hi"
    "ucast (signed_drop_bit 32 (push_bit 32 (ucast hi) OR ucast lo :: u64)) = hi"
    "ucast (push_bit 32 (ucast hi) OR ucast lo :: u64) = lo"
    by (rule bit_word_eqI, auto simp: bit_simps dest: bit_imp_le_length)+
  ultimately show ?thesis
    using h'(1) by (simp add: hpb_Array_SetInt64Split_def hpb_Array_SetUInt64Split_def hpb_Array_GetInt64Hi_def
        hpb_Array_GetInt64Lo_def hpb_Array_GetUInt64Hi_def hpb_Array_GetUInt64Lo_def)
qed

theorem hpb_Array_split64_roundtrip_witness:
  "\<exists>h0 h h1 h2. hpb_Arena_New bump 16 (empty_heap []) = Inr (280, h0) \<and> hpb_Array_New bump 280 CType_Int64 h0 = Inr (24, h) \<and>
     hpb_Array_Resize bump 24 2 280 h = Inr (True, h1) \<and> hpb_Array_SetInt64Split 24 1 5 9 h1 = Inr h2 \<and>
     hpb_Array_GetInt64Hi h2 24 1 = Inr 5 \<and> hpb_Array_GetUInt64Lo h2 24 1 = Inr 9"
proof -
  obtain h0 h h1 al j where h: "hpb_Arena_New bump 16 (empty_heap []) = Inr (280, h0)" "hpb_Array_New bump 280 CType_Int64 h0 = Inr (24, h)"
    "hpb_Array_Resize bump 24 2 280 h = Inr (True, h1)"
    and b: "layout_ok h1 al" "array_inv h1 al 24 0 j" "array_list h1 24 = replicate 2 (replicate 8 0)" "arr_lg2 h1 24 = 3"
      "unat (Array_size h1 24) = 2"
    by (rule filled_array)
  have "1 < Array_size h1 24"
    by (simp add: word_less_nat_alt b(5))
  then show ?thesis
    using hpb_Array_split64_roundtrip [OF b(1,2,4)] h by blast
qed

text \<open>
  Appending values one after another to an array returns, and the array then holds its old
  elements followed by the values, or by those before the first failed append.
\<close>

theorem hpb_Array_append_all:
  assumes "array_good mall arr a lg h" "length (array_list h arr) + length vals \<le> 2 ^ 56" "\<forall>v \<in> set vals. length v = 16"
  shows "\<exists>ok h' n. append_all (\<lambda>v. hpb_Array_Append mall arr v a) vals h = Inr (ok, h') \<and> array_good mall arr a lg h' \<and>
    n \<le> length vals \<and> (ok \<longrightarrow> n = length vals) \<and> array_list h' arr = array_list h arr @ map (take (2 ^ lg)) (take n vals)"
  using arr.append_all_contents [OF assms] by blast

theorem hpb_Array_append_all_witness:
  "\<exists>h0 h ok h' n. hpb_Arena_New bump 16 (empty_heap []) = Inr (280, h0) \<and>
     hpb_Array_New bump 280 CType_Int64 h0 = Inr (24, h) \<and>
     append_all (\<lambda>v. hpb_Array_Append bump 24 v 280) (replicate 7 (replicate 16 1)) h = Inr (ok, h') \<and>
     array_list h' 24 = replicate n (replicate 8 1) \<and> (ok \<longrightarrow> n = 7)"
proof -
  obtain h0 h where h: "hpb_Arena_New bump 16 (empty_heap []) = Inr (280, h0)" "hpb_Array_New bump 280 CType_Int64 h0 = Inr (24, h)"
    and i: "layout_ok h [(24, 24), (48, 32)]" "array_inv h [(24, 24), (48, 32)] 24 0 1"
    and e: "arr_lg2 h 24 = 3" "array_list h 24 = []" "h_arenas h 280 = Some ((ex_arena 8)\<lparr>a_ptr := 80\<rparr>)"
    by (rule one_array)
  have good: "array_good bump 24 280 3 h"
    unfolding array_good_def using i e bump_ok by (auto simp: ex_arena_def)
  let ?vs = "replicate 7 (replicate 16 (1 :: byte))"
  obtain ok h' n where r: "append_all (\<lambda>v. hpb_Array_Append bump 24 v 280) ?vs h = Inr (ok, h')" "n \<le> 7" "ok \<longrightarrow> n = 7"
    "array_list h' 24 = map (take (2 ^ 3)) (take n ?vs)"
    using hpb_Array_append_all [OF good, of ?vs] e(2) by auto
  have "array_list h' 24 = replicate n (replicate 8 1)"
    unfolding r(4) using r(2) by (simp add: min_def)
  then show ?thesis
    using h r(1,3) by blast
qed

text \<open>
  C39: the number of bytes is not checked for overflow: an array of four elements of eight bytes
  that is resized to \<open>2 ^ 61\<close> elements keeps its allocation, and the resize reports success with a
  size and capacity whose bytes fill the whole address space.
\<close>

theorem hpb_Array_resize_overflow:
  assumes "layout_ok h allocs" "array_inv h allocs arr i j" "h_arenas h a = Some r" "a \<noteq> 0"
    "arr_lg2 h arr = 3" "Array_capacity h arr = 4" "unat (a_end r - a_ptr r) < 2 ^ 63"
  shows "\<exists>h'. hpb_Array_ResizeUninitialized mall arr (2 ^ 61) a h = Inr (True, h') \<and> Array_size h' arr = 2 ^ 61 \<and>
    Array_capacity h' arr = 2 ^ 61 \<and> arr_ptr h' arr = arr_ptr h arr"
proof -
  note f = array_inv_facts [OF assms(1,2)]
  note st = header_store [OF f(1)]
  have lg: "Array_data h arr AND 7 = 3"
    using assms(5) by (simp add: arr_lg2_def word_unat_eq_iff)
  have c: "double_capacity 65 4 (2 ^ 61) = Inr (2 ^ 61)"
    by code_simp
  have z: "push_bit 3 (2 ^ 61 :: u64) = 0" "push_bit 3 (4 :: u64) = 32" "HPB_ALIGN_MALLOC 0 = 0" "HPB_ALIGN_MALLOC 32 = 32"
    "(18446744073709551616 :: u64) = 0"
    by (simp_all add: push_bit_eq_mult HPB_ALIGN_MALLOC_def HPB_ALIGN_UP_def HPB_MALLOC_ALIGN_def)
  have has: "0 \<le> sint (a_end r - a_ptr r)"
    using assms(7) sint_diff [of "a_end r - a_ptr r" 0] by simp
  then have neg: "sint (0 - 32 :: u64) \<le> sint (a_end r - a_ptr r)"
    by (rule order_trans [rotated]) simp
  define h1 where "h1 = (if arr_ptr h arr + 32 = a_ptr r then set_arena a (r\<lparr>a_ptr := a_ptr r - 32\<rparr>) h else h)"
  have h1: "hpb_Arena_Realloc mall a (arr_ptr h arr) 32 0 h = Inr (arr_ptr h arr, h1)" "h_mem h1 = h_mem h"
    using assms(3) neg by (simp_all add: hpb_Arena_Realloc_def z arena_at_def set_arena_def Let_def h1_def)
  have hc: "Array_data h1 arr = Array_data h arr" "Array_size h1 arr = Array_size h arr"
    using header_cong [OF _ f(1), of h1 h] h1(2) by simp_all
  have tag: "hpb_tag_arrptr (arr_ptr h arr) 3 = Inr (arr_ptr h arr OR 3)"
    using f(3) by (simp add: hpb_tag_arrptr_def and_7_aligned)
  let ?h = "store64 (arr + 8) (2 ^ 61) (store64 (arr + 16) (2 ^ 61) (store64 arr (arr_ptr h arr OR 3) h1))"
  have "hpb_array_realloc mall arr (2 ^ 61) a h = Inr (True, store64 (arr + 16) (2 ^ 61) (store64 arr (arr_ptr h arr OR 3) h1))"
    using c h1(1) f(2,8) assms(6) tag z(1,2) by (simp add: hpb_array_realloc_def lg Let_def z(5))
  then have "hpb_Array_ResizeUninitialized mall arr (2 ^ 61) a h = Inr (True, ?h)"
    using assms(4,6) by (simp add: hpb_Array_ResizeUninitialized_def hpb_array_reserve_def)
  moreover have "arr_ptr ?h arr = arr_ptr h arr"
    using f(3) by (intro tagged_header(1) [of _ _ _ 3]) (simp_all add: st)
  ultimately show ?thesis
    by (simp add: st)
qed

theorem hpb_Array_resize_overflow_witness:
  "\<exists>h0 h h'. hpb_Arena_New bump 16 (empty_heap []) = Inr (280, h0) \<and> hpb_Array_New bump 280 CType_Int64 h0 = Inr (24, h) \<and>
     hpb_Array_ResizeUninitialized bump 24 (2 ^ 61) 280 h = Inr (True, h') \<and> Array_size h' 24 = 2 ^ 61"
proof -
  obtain h0 h where h: "hpb_Arena_New bump 16 (empty_heap []) = Inr (280, h0)" "hpb_Array_New bump 280 CType_Int64 h0 = Inr (24, h)"
    and i: "layout_ok h [(24, 24), (48, 32)]" "array_inv h [(24, 24), (48, 32)] 24 0 1"
    and e: "arr_lg2 h 24 = 3" "array_list h 24 = []" "h_arenas h 280 = Some ((ex_arena 8)\<lparr>a_ptr := 80\<rparr>)" "Array_capacity h 24 = 4"
    by (rule one_array)
  have "(280 :: u64) \<noteq> 0" "unat (a_end ((ex_arena 8)\<lparr>a_ptr := 80\<rparr>) - a_ptr ((ex_arena 8)\<lparr>a_ptr := 80\<rparr>)) < 2 ^ 63"
    by (simp_all add: ex_arena_def)
  then show ?thesis
    using hpb_Array_resize_overflow [OF i e(3) _ e(1,4), of bump] h by blast
qed

end
