(* ===== verification/Wyhash.thy ===== *)
theory Wyhash
  imports HashTable
begin

text \<open>
  The string hash (\<open>Wyhash\<close> in \<open>hash/common.c\<close>, adapted from Abseil). Loads are little endian and
  fail when they leave the buffer; the theorems show that they never do, and that the portable
  multiplication agrees with the 128-bit one in its low half.
\<close>

section \<open>Operations\<close>

text \<open>\<open>memcpy\<close> of \<open>n\<close> bytes into an integer.\<close>

fun le_word :: "byte list \<Rightarrow> u64" where
  "le_word [] = 0"
| "le_word (b # bs) = ucast b OR push_bit 8 (le_word bs)"

definition load_bytes :: "nat \<Rightarrow> byte list \<Rightarrow> nat \<Rightarrow> tab_fail + u64" where
  "load_bytes n ptr off =
     (if off + n \<le> length ptr then Inr (le_word (take n (drop off ptr))) else Inl BadAccess)"

definition UnalignedLoad64 :: "byte list \<Rightarrow> nat \<Rightarrow> tab_fail + u64" where
  "UnalignedLoad64 ptr off = load_bytes 8 ptr off"

definition UnalignedLoad32 :: "byte list \<Rightarrow> nat \<Rightarrow> tab_fail + u64" where
  "UnalignedLoad32 ptr off = load_bytes 4 ptr off"

text \<open>The low and the high half of a product, with and without a 128-bit type.\<close>

definition hpb_umul128 :: "u64 \<Rightarrow> u64 \<Rightarrow> u64 \<times> u64" where
  "hpb_umul128 v0 v1 = (let p = ucast v0 * ucast v1 :: 128 word in (ucast p, ucast (drop_bit 64 p)))"

definition hpb_umul128_portable :: "u64 \<Rightarrow> u64 \<Rightarrow> u64 \<times> u64" where
  "hpb_umul128_portable v0 v1 =
     (let a32 = drop_bit 32 v0; a00 = v0 AND 0xffffffff;
          b32 = drop_bit 32 v1; b00 = v1 AND 0xffffffff;
          high = a32 * b32; low = a00 * b00; mid1 = a32 * b00; mid2 = a00 * b32
      in (low + (push_bit 32 mid1 + push_bit 32 mid2), high + (drop_bit 32 mid1 + drop_bit 32 mid2)))"

definition WyhashMix :: "u64 \<Rightarrow> u64 \<Rightarrow> u64" where
  "WyhashMix v0 v1 = (let (low, high) = hpb_umul128 v0 v1 in low XOR high)"

text \<open>One round over 64 bytes: the two states are updated with four 8-byte words each.\<close>

definition wyhash_block :: "u64 list \<Rightarrow> byte list \<Rightarrow> u64 \<times> u64 \<Rightarrow> tab_fail + (u64 \<times> u64)" where
  "wyhash_block salt ptr st =
     res_bind (UnalignedLoad64 ptr 0) (\<lambda>a. res_bind (UnalignedLoad64 ptr 8) (\<lambda>b.
     res_bind (UnalignedLoad64 ptr 16) (\<lambda>c. res_bind (UnalignedLoad64 ptr 24) (\<lambda>d.
     res_bind (UnalignedLoad64 ptr 32) (\<lambda>e. res_bind (UnalignedLoad64 ptr 40) (\<lambda>f.
     res_bind (UnalignedLoad64 ptr 48) (\<lambda>g. res_bind (UnalignedLoad64 ptr 56) (\<lambda>h.
       let (current_state, duplicated_state) = st;
           cs0 = WyhashMix (a XOR salt ! 1) (b XOR current_state);
           cs1 = WyhashMix (c XOR salt ! 2) (d XOR current_state);
           ds0 = WyhashMix (e XOR salt ! 3) (f XOR duplicated_state);
           ds1 = WyhashMix (g XOR salt ! 4) (h XOR duplicated_state)
       in Inr (cs0 XOR cs1, ds0 XOR ds1)))))))))"

function wyhash_blocks :: "u64 list \<Rightarrow> byte list \<Rightarrow> u64 \<times> u64 \<Rightarrow> tab_fail + (byte list \<times> u64 \<times> u64)" where
  "wyhash_blocks salt ptr st =
     res_bind (wyhash_block salt ptr st) (\<lambda>st.
       let ptr = drop 64 ptr in
       if length ptr > 64 then wyhash_blocks salt ptr st else Inr (ptr, st))"
  by pat_completeness auto
termination
  by (relation "measure (\<lambda>(salt, ptr, st). length ptr)") auto

function wyhash_words :: "u64 list \<Rightarrow> byte list \<Rightarrow> u64 \<Rightarrow> tab_fail + (byte list \<times> u64)" where
  "wyhash_words salt ptr current_state =
     (if length ptr > 16
      then res_bind (UnalignedLoad64 ptr 0) (\<lambda>a. res_bind (UnalignedLoad64 ptr 8) (\<lambda>b.
        wyhash_words salt (drop 16 ptr) (WyhashMix (a XOR salt ! 1) (b XOR current_state))))
      else Inr (ptr, current_state))"
  by pat_completeness auto
termination
  by (relation "measure (\<lambda>(salt, ptr, st). length ptr)") auto

declare wyhash_blocks.simps [simp del] wyhash_words.simps [simp del]

text \<open>The last 16 bytes at most.\<close>

definition wyhash_tail :: "byte list \<Rightarrow> tab_fail + (u64 \<times> u64)" where
  "wyhash_tail ptr =
     (let len = length ptr in
      if len > 8
      then res_bind (UnalignedLoad64 ptr 0) (\<lambda>a. res_bind (UnalignedLoad64 ptr (len - 8)) (\<lambda>b. Inr (a, b)))
      else if len > 3
      then res_bind (UnalignedLoad32 ptr 0) (\<lambda>a. res_bind (UnalignedLoad32 ptr (len - 4)) (\<lambda>b. Inr (a, b)))
      else if len > 0
      then res_bind (load_bytes 1 ptr 0) (\<lambda>p0. res_bind (load_bytes 1 ptr (len div 2)) (\<lambda>p1.
           res_bind (load_bytes 1 ptr (len - 1)) (\<lambda>p2.
             Inr ((push_bit 16 p0 OR push_bit 8 p1) OR p2, 0))))
      else Inr (0, 0))"

definition Wyhash :: "byte list \<Rightarrow> u64 \<Rightarrow> u64 list \<Rightarrow> tab_fail + u64" where
  "Wyhash data seed salt =
     (let starting_length = of_nat (length data); current_state = seed XOR salt ! 0 in
      res_bind
        (if length data > 64
         then res_bind (wyhash_blocks salt data (current_state, current_state)) (\<lambda>(ptr, cs, ds).
                Inr (ptr, cs XOR ds))
         else Inr (data, current_state)) (\<lambda>(ptr, current_state).
        res_bind (wyhash_words salt ptr current_state) (\<lambda>(ptr, current_state).
          res_bind (wyhash_tail ptr) (\<lambda>(a, b).
            let w = WyhashMix (a XOR salt ! 1) (b XOR current_state);
                z = salt ! 1 XOR starting_length
            in Inr (WyhashMix w z)))))"

definition kWyhashSalt :: "u64 list" where
  "kWyhashSalt = [0x243F6A8885A308D3, 0x13198A2E03707344, 0xA4093822299F31D0,
     0x082EFA98EC4E6C89, 0x452821E638D01377]"

definition hpb_Hash :: "byte list \<Rightarrow> u64 \<Rightarrow> tab_fail + u32" where
  "hpb_Hash p seed = res_bind (Wyhash p seed kWyhashSalt) (\<lambda>h. Inr (ucast h))"

definition hpb_Hash_NoSeed :: "byte list \<Rightarrow> tab_fail + u32" where
  "hpb_Hash_NoSeed p = hpb_Hash p 0"

section \<open>No load leaves the buffer\<close>

lemma load_bytes_Inr: "off + n \<le> length ptr \<Longrightarrow> \<exists>w. load_bytes n ptr off = Inr w"
  by (simp add: load_bytes_def)

lemma load64_Inr: "off + 8 \<le> length ptr \<Longrightarrow> \<exists>w. UnalignedLoad64 ptr off = Inr w"
  by (simp add: UnalignedLoad64_def load_bytes_Inr)

lemma wyhash_block_Inr: "64 \<le> length ptr \<Longrightarrow> \<exists>st'. wyhash_block salt ptr st = Inr st'"
  by (simp add: wyhash_block_def UnalignedLoad64_def load_bytes_def split: prod.split)

lemma wyhash_blocks_Inr: "64 \<le> length ptr \<Longrightarrow> \<exists>r. wyhash_blocks salt ptr st = Inr r"
proof (induction salt ptr st rule: wyhash_blocks.induct)
  case (1 salt ptr st)
  obtain st' where st': "wyhash_block salt ptr st = Inr st'"
    using wyhash_block_Inr [OF 1(2)] by blast
  show ?case
    using 1(1) [OF st' refl] st' by (subst wyhash_blocks.simps) (auto simp: Let_def)
qed

lemma wyhash_words_Inr: "\<exists>ptr' cs'. wyhash_words salt ptr cs = Inr (ptr', cs') \<and> length ptr' \<le> 16"
proof (induction salt ptr cs rule: wyhash_words.induct)
  case (1 salt ptr cs)
  show ?case
  proof (cases "length ptr > 16")
    case True
    then obtain a b where "UnalignedLoad64 ptr 0 = Inr a" "UnalignedLoad64 ptr 8 = Inr b"
      using load64_Inr [of 0 ptr] load64_Inr [of 8 ptr] by auto
    then show ?thesis
      using True 1 by (subst wyhash_words.simps) simp
  qed (simp add: wyhash_words.simps [of salt ptr cs])
qed

lemma wyhash_tail_Inr: "\<exists>a b. wyhash_tail ptr = Inr (a, b)"
proof -
  have "length ptr div 2 + 1 \<le> length ptr" if "0 < length ptr"
    using that by linarith
  then show ?thesis
    by (auto simp: wyhash_tail_def Let_def UnalignedLoad64_def UnalignedLoad32_def load_bytes_def Suc_le_eq)
qed

text \<open>
  Hashing a buffer of any length returns: the 64-byte, 16-byte and tail loads stay within
  the buffer.
\<close>

theorem hpb_Hash_safe: "\<exists>h. hpb_Hash p seed = Inr h"
proof -
  let ?salt = kWyhashSalt
  obtain ptr cs where "(if length p > 64
      then res_bind (wyhash_blocks ?salt p (seed XOR ?salt ! 0, seed XOR ?salt ! 0)) (\<lambda>(ptr, cs, ds).
             Inr (ptr, cs XOR ds))
      else Inr (p, seed XOR ?salt ! 0)) = Inr (ptr, cs)"
    using wyhash_blocks_Inr [of p ?salt "(seed XOR ?salt ! 0, seed XOR ?salt ! 0)"]
    by (cases "length p > 64") (auto split: prod.splits)
  moreover obtain ptr' cs' where "wyhash_words ?salt ptr cs = Inr (ptr', cs')"
    using wyhash_words_Inr by blast
  moreover obtain a b where "wyhash_tail ptr' = Inr (a, b)"
    using wyhash_tail_Inr by blast
  ultimately show ?thesis
    by (simp add: hpb_Hash_def Wyhash_def Let_def)
qed

section \<open>Multiplication\<close>

lemma word_split32: "v = drop_bit 32 v * 2 ^ 32 + (v AND 0xffffffff)" for v :: u64
proof -
  have "v = push_bit 32 (drop_bit 32 v) OR take_bit 32 v"
    by (rule bit_eqI) (auto simp: bit_simps)
  moreover have "push_bit 32 (drop_bit 32 v) AND take_bit 32 v = 0"
    by (rule bit_eqI) (auto simp: bit_simps)
  ultimately have "v = push_bit 32 (drop_bit 32 v) + take_bit 32 v"
    using disjunctive_add_eq_or by metis
  then show ?thesis
    by (simp add: push_bit_eq_mult take_bit_eq_mask mask_eq_exp_minus_1)
qed

text \<open>
  Without a 128-bit integer type the product is assembled from four 32-bit products; its
  low 64 bits are those of the exact product.
\<close>

theorem hpb_umul128_portable_low: "fst (hpb_umul128_portable v0 v1) = fst (hpb_umul128 v0 v1)"
proof -
  let ?a = "drop_bit 32 v0" and ?b = "v0 AND 0xffffffff"
  let ?c = "drop_bit 32 v1" and ?d = "v1 AND 0xffffffff"
  let ?X = "2 ^ 32 :: u64"
  have X: "?X * ?X = 0"
    by simp
  have "v0 * v1 = (?a * ?X + ?b) * (?c * ?X + ?d)"
    by (simp only: word_split32 [symmetric])
  also have "\<dots> = ?a * ?c * (?X * ?X) + (?b * ?d + (?a * ?d * ?X + ?b * ?c * ?X))"
    by (simp only: algebra_simps)
  also have "\<dots> = fst (hpb_umul128_portable v0 v1)"
    unfolding X by (simp add: hpb_umul128_portable_def Let_def push_bit_eq_mult)
  finally have "v0 * v1 = fst (hpb_umul128_portable v0 v1)" .
  moreover have "ucast (ucast v0 * ucast v1 :: 128 word) = v0 * v1"
  proof -
    have "unat v0 < 2 ^ 128" "unat v1 < 2 ^ 128"
      using unsigned_less [of v0, where 'a = nat] unsigned_less [of v1, where 'a = nat] by simp_all
    then have "unat (ucast v0 * ucast v1 :: 128 word) = unat v0 * unat v1 mod 2 ^ 128"
      by (simp add: unat_word_ariths unat_ucast_mod)
    moreover have "(2 :: nat) ^ 64 dvd 2 ^ 128"
      by (rule le_imp_power_dvd) simp
    ultimately show ?thesis
      by (simp add: word_unat_eq_iff unat_ucast_mod unat_word_ariths mod_mod_cancel)
  qed
  ultimately show ?thesis
    by (simp add: hpb_umul128_def Let_def)
qed

end
