(* ===== verification/StrTable.thy ===== *)
theory StrTable
  imports HashRemove Wyhash Lex
begin

text \<open>
  String tables (\<open>hash/str_table.h\<close> and the string part of \<open>hash/common.c\<close>): the hash table with
  owned copies of byte strings as keys and \<open>Wyhash\<close> as hash, growing by doubling.
\<close>

section \<open>Operations\<close>

type_synonym hpb_strtable = "byte list hpb_table"

text \<open>\<open>hpb_Hash_NoSeed\<close> always returns (\<open>hpb_Hash_safe\<close>), so the error branch is never taken.\<close>

definition strhash :: "byte list \<Rightarrow> u32" where
  "strhash key = (case hpb_Hash_NoSeed key of Inr h \<Rightarrow> h | Inl _ \<Rightarrow> 0)"

text \<open>The copy of a key is prefixed by its length in 32 bits, which is what is read back.\<close>

definition strcopy :: "byte list \<Rightarrow> byte list" where
  "strcopy k = take (length k mod 2 ^ 32) k"

definition hpb_strtable_init ::
  "(nat \<Rightarrow> bool) \<Rightarrow> nat \<Rightarrow> u64 \<Rightarrow> tab_fail + (hpb_strtable option \<times> nat)" where
  "hpb_strtable_init ok n expected_size =
     (let need_entries = (expected_size + 1) * 1204 div 1024 in
      if \<not> unat need_entries * 2 ^ 53 \<ge> unat expected_size * 7656119366529843 then Inl AssertionFailed
      else Inr (tab_init ok n (word_of_int (hpb_Log2Ceiling (sint (ucast need_entries :: u32))))))"

definition hpb_strtable_count :: "hpb_strtable \<Rightarrow> nat" where
  "hpb_strtable_count t = tab_count t"

definition hpb_strtable_clear :: "hpb_strtable \<Rightarrow> hpb_strtable" where
  "hpb_strtable_clear t = t\<lparr>tab_count := 0, tab_entries := replicate (hpb_table_size t) empty_ent\<rparr>"

text \<open>
  \<open>hpb_strtable_next2\<close> returns the key, the value and the new position, or \<open>None\<close> for false. The
  iteration only stops at used entries, whose key is not 0.
\<close>

definition hpb_strtable_next2 :: "hpb_strtable \<Rightarrow> u64 \<Rightarrow> (byte list \<times> u64 \<times> u64) option" where
  "hpb_strtable_next2 t iter =
     (let tab_idx = next_ent t iter in
      if unat tab_idx < hpb_table_size t
      then let ent = tab_entries t ! unat tab_idx in
        (case e_key ent of Some key \<Rightarrow> Some (key, e_val ent, tab_idx) | None \<Rightarrow> None)
      else None)"

lemma next2_progress:
  assumes "hpb_strtable_next2 t iter = Some (k, v, iter')"
  shows "hpb_table_size t - unat (iter' + 1) < hpb_table_size t - unat (iter + 1)"
proof (cases rule: next_ent_cases [of t iter])
  case no_more
  then show ?thesis
    using assms by (simp add: hpb_strtable_next2_def Let_def)
next
  case (found j js)
  then have "iter' = of_nat j"
    using assms by (auto simp: hpb_strtable_next2_def Let_def split: option.splits)
  then show ?thesis
    using found used_from_Cons(2) [OF found(1)] by simp
qed

text \<open>
  The loop of \<open>hpb_strtable_resize\<close>: the result of the insertions is ignored.
\<close>

function resize_loop ::
  "(nat \<Rightarrow> hpb_strtable \<Rightarrow> byte list \<Rightarrow> u64 \<Rightarrow> tab_fail + (hpb_strtable \<times> bool \<times> nat)) \<Rightarrow>
   hpb_strtable \<Rightarrow> u64 \<Rightarrow> hpb_strtable \<Rightarrow> nat \<Rightarrow> tab_fail + (hpb_strtable \<times> nat)" where
  "resize_loop ins t iter new_table n =
     (case hpb_strtable_next2 t iter of
        None \<Rightarrow> Inr (new_table, n)
      | Some (key, val, iter) \<Rightarrow>
          res_bind (ins n new_table key val) (\<lambda>(new_table, _, n). resize_loop ins t iter new_table n))"
  by pat_completeness auto
termination
  by (relation "measure (\<lambda>(ins, t, iter, new_table, n). hpb_table_size t - unat (iter + 1))")
    (auto dest: next2_progress)

declare resize_loop.simps [simp del]

definition hpb_strtable_resize ::
  "(nat \<Rightarrow> hpb_strtable \<Rightarrow> byte list \<Rightarrow> u64 \<Rightarrow> tab_fail + (hpb_strtable \<times> bool \<times> nat)) \<Rightarrow>
   (nat \<Rightarrow> bool) \<Rightarrow> nat \<Rightarrow> hpb_strtable \<Rightarrow> byte \<Rightarrow> tab_fail + (hpb_strtable \<times> bool \<times> nat)" where
  "hpb_strtable_resize ins ok n t size_lg2 =
     (case tab_init ok n size_lg2 of
        (None, n) \<Rightarrow> Inr (t, False, n)
      | (Some new_table, n) \<Rightarrow>
          res_bind (resize_loop ins t (- 1) new_table n) (\<lambda>(new_table, n). Inr (new_table, True, n)))"

text \<open>
  Insertion calls resizing, which inserts into the new table; \<open>depth\<close> bounds the nesting of the
  calls, and the theorems show that two levels are always enough.
\<close>

primrec hpb_strtable_insert ::
  "nat \<Rightarrow> (nat \<Rightarrow> bool) \<Rightarrow> nat \<Rightarrow> hpb_strtable \<Rightarrow> byte list \<Rightarrow> u64 \<Rightarrow> tab_fail + (hpb_strtable \<times> bool \<times> nat)" where
  "hpb_strtable_insert 0 ok n t k v = Inl NoReturn"
| "hpb_strtable_insert (Suc depth) ok n t k v =
     res_bind (if isfull t
               then hpb_strtable_resize (hpb_strtable_insert depth ok) ok n t (tab_size_lg2 t + 1)
               else Inr (t, True, n)) (\<lambda>(t, resized, n).
       if \<not> resized then Inr (t, False, n)
       else if \<not> ok n then Inr (t, False, Suc n)
       else res_bind (tab_insert strhash t (Some k) (Some (strcopy k)) v (strhash k)) (\<lambda>t.
         Inr (t, True, Suc n)))"

definition hpb_strtable_lookup2 :: "hpb_strtable \<Rightarrow> byte list \<Rightarrow> tab_fail + u64 option" where
  "hpb_strtable_lookup2 t key = tab_lookup t (Some key) (strhash key)"

definition hpb_strtable_remove2 :: "hpb_strtable \<Rightarrow> byte list \<Rightarrow> tab_fail + (hpb_strtable \<times> u64 option)" where
  "hpb_strtable_remove2 t key =
     res_bind (tab_rm t (Some key) (strhash key)) (\<lambda>(t, r). Inr (t, map_option snd r))"

definition hpb_strtable_removeiter :: "hpb_strtable \<Rightarrow> u64 \<Rightarrow> tab_fail + hpb_strtable" where
  "hpb_strtable_removeiter t iter = remove_at (unat iter) t"

definition hpb_strtable_setentryvalue :: "hpb_strtable \<Rightarrow> u64 \<Rightarrow> u64 \<Rightarrow> tab_fail + hpb_strtable" where
  "hpb_strtable_setentryvalue t iter v =
     res_bind (ent_at t (unat iter)) (\<lambda>ent. Inr (set_ent (unat iter) (ent\<lparr>e_val := v\<rparr>) t))"

text \<open>The older iterators: a table, or \<open>NULL\<close>, and an index.\<close>

record hpb_strtable_iter =
  i_t :: "hpb_strtable option"
  i_index :: u64

definition hpb_strtable_begin :: "hpb_strtable \<Rightarrow> hpb_strtable_iter" where
  "hpb_strtable_begin t = \<lparr>i_t = Some t, i_index = next_ent t (- 1)\<rparr>"

definition hpb_strtable_next :: "hpb_strtable_iter \<Rightarrow> tab_fail + hpb_strtable_iter" where
  "hpb_strtable_next i =
     (case i_t i of None \<Rightarrow> Inl BadAccess | Some t \<Rightarrow> Inr (i\<lparr>i_index := next_ent t (i_index i)\<rparr>))"

definition hpb_strtable_done :: "hpb_strtable_iter \<Rightarrow> bool" where
  "hpb_strtable_done i =
     (case i_t i of None \<Rightarrow> True
      | Some t \<Rightarrow> unat (i_index i) \<ge> hpb_table_size t \<or>
          hpb_tabent_isempty (tab_entries t ! unat (i_index i)))"

definition str_tabent :: "hpb_strtable_iter \<Rightarrow> tab_fail + byte list hpb_tabent" where
  "str_tabent i = (case i_t i of None \<Rightarrow> Inl BadAccess | Some t \<Rightarrow> ent_at t (unat (i_index i)))"

definition hpb_strtable_iter_key :: "hpb_strtable_iter \<Rightarrow> tab_fail + byte list" where
  "hpb_strtable_iter_key i =
     (if hpb_strtable_done i then Inl AssertionFailed
      else res_bind (str_tabent i) (\<lambda>e. case e_key e of None \<Rightarrow> Inl BadAccess | Some k \<Rightarrow> Inr k))"

definition hpb_strtable_iter_value :: "hpb_strtable_iter \<Rightarrow> tab_fail + u64" where
  "hpb_strtable_iter_value i =
     (if hpb_strtable_done i then Inl AssertionFailed
      else res_bind (str_tabent i) (\<lambda>e. Inr (e_val e)))"

definition hpb_strtable_iter_setdone :: "hpb_strtable_iter \<Rightarrow> hpb_strtable_iter" where
  "hpb_strtable_iter_setdone i = i\<lparr>i_t := None, i_index := - 1\<rparr>"

section \<open>Insertion, lookup and removal\<close>

definition str_inv :: "hpb_strtable \<Rightarrow> bool" where
  "str_inv t \<longleftrightarrow> tab_inv strhash t \<and> tab_count t \<le> unat (tab_max_count t) \<and>
     (\<forall>k \<in> dom (tab_map t). length k < 2 ^ 32)"

definition str_room :: "hpb_strtable \<Rightarrow> nat" where
  "str_room t = unat (tab_max_count t) - tab_count t"

lemma strcopy_short: "length k < 2 ^ 32 \<Longrightarrow> strcopy k = k"
  by (simp add: strcopy_def)

text \<open>The entries an iteration visits are those the loop inserts.\<close>

lemma next2_cases:
  obtains (no_more) "assocs_from t (unat (iter + 1)) = []" "hpb_strtable_next2 t iter = None"
  | (found) k v iter' where "assocs_from t (unat (iter + 1)) = (k, v) # assocs_from t (unat (iter' + 1))"
      "hpb_strtable_next2 t iter = Some (k, v, iter')"
proof (cases rule: next_ent_cases [of t iter])
  case no_more
  then show thesis
    using that(1) by (simp add: assocs_from_def hpb_strtable_next2_def Let_def)
next
  case (found j js)
  then obtain k where "e_key (tab_entries t ! j) = Some k"
    by blast
  then show thesis
    using that(2) [of k "e_val (tab_entries t ! j)" "of_nat j"] found by (simp add: assocs_from_def hpb_strtable_next2_def Let_def assoc_at_def)
qed

definition ignore_result :: "tab_fail + (hpb_strtable \<times> bool \<times> nat) \<Rightarrow> tab_fail + (hpb_strtable \<times> nat)" where
  "ignore_result r = res_bind r (\<lambda>(t, _, n). Inr (t, n))"

lemma resize_loop_fold:
  "resize_loop ins t iter new n =
   fold_res (\<lambda>(k, v) (new, n). ignore_result (ins n new k v)) (assocs_from t (unat (iter + 1))) (new, n)"
proof (induction ins t iter new n rule: resize_loop.induct)
  case (1 ins t iter new n)
  show ?case
  proof (cases rule: next2_cases [of t iter])
    case no_more
    then show ?thesis
      by (simp add: resize_loop.simps [of ins t iter])
  next
    case (found k v iter')
    then show ?thesis
      using 1 by (cases "ins n new k v") (auto simp: resize_loop.simps [of ins t iter] ignore_result_def)
  qed
qed

lemma strtable_insert_room:
  assumes inv: "str_inv t" and k: "length k < 2 ^ 32" "tab_map t k = None" and room: "0 < str_room t"
  shows "\<exists>t'. hpb_strtable_insert (Suc d) (\<lambda>_. True) n t k v = Inr (t', True, Suc n) \<and> str_inv t' \<and>
    tab_map t' = (tab_map t)(k \<mapsto> v) \<and> str_room t' = str_room t - 1 \<and> tab_size_lg2 t' = tab_size_lg2 t"
proof -
  have ti: "tab_inv strhash t"
    using inv by (simp add: str_inv_def)
  have sz: "0 < hpb_table_size t"
    using room tab_inv_facts(5) [OF ti] by (cases "hpb_table_size t = 0") (auto simp: str_room_def max_load_def)
  then have "tab_count t < hpb_table_size t"
    using room max_load_less [OF sz] tab_inv_facts(5) [OF ti] by (simp add: str_room_def)
  then obtain t' where t': "tab_insert strhash t (Some k) (Some k) v (strhash k) = Inr t'" "tab_inv strhash t'"
    "tab_map t' = (tab_map t)(k \<mapsto> v)" "tab_size_lg2 t' = tab_size_lg2 t" "tab_max_count t' = tab_max_count t"
    "tab_count t' = Suc (tab_count t)"
    using tab_insert_correct [OF ti k(2)] by blast
  have "\<not> isfull t"
    using room by (simp add: isfull_def str_room_def)
  then show ?thesis
    using t' inv room k(1) by (auto simp: strcopy_short str_inv_def str_room_def)
qed

text \<open>Filling a table within its load, as a map store.\<close>

interpretation str: map_store "\<lambda>(t, n). str_inv t" "\<lambda>(t, n). tab_map t" "\<lambda>(t, n). str_room t"
  "\<lambda>k. length k < 2 ^ 32"
  "\<lambda>k v (t, n). ignore_result (hpb_strtable_insert (Suc d) (\<lambda>_. True) n t k v)" for d
proof
  fix tn :: "hpb_strtable \<times> nat" and k v
  obtain t n where tn: "tn = (t, n)"
    by force
  assume "case tn of (t, n) \<Rightarrow> str_inv t" "length k < 2 ^ 32" "(case tn of (t, n) \<Rightarrow> tab_map t) k = None"
    "0 < (case tn of (t, n) \<Rightarrow> str_room t)"
  then show "\<exists>t'. (case tn of (t, n) \<Rightarrow> ignore_result (hpb_strtable_insert (Suc d) (\<lambda>_. True) n t k v)) = Inr t' \<and>
      (case t' of (t, n) \<Rightarrow> str_inv t) \<and>
      (case t' of (t, n) \<Rightarrow> tab_map t) = (case tn of (t, n) \<Rightarrow> tab_map t)(k \<mapsto> v) \<and>
      (case t' of (t, n) \<Rightarrow> str_room t) = (case tn of (t, n) \<Rightarrow> str_room t) - 1"
    using strtable_insert_room [of t k d n v] by (auto simp: tn ignore_result_def)
qed

lemma init_table_str:
  assumes "lg2 \<le> 30"
  shows "str_inv (init_table lg2)" "str_room (init_table lg2) = max_load (table_size_of lg2)"
    "tab_map (init_table lg2 :: hpb_strtable) = (\<lambda>_. None)"
proof -
  note i = init_table_inv [where 'k = "byte list", OF assms]
  have "tab_inv strhash (init_table lg2)"
    by (rule i(1))
  then show "str_inv (init_table lg2)" "str_room (init_table lg2) = max_load (table_size_of lg2)"
    using i(2-4) tab_inv_facts(5) [of strhash "init_table lg2"] by (simp_all add: str_inv_def str_room_def)
qed (rule init_table_inv(2) [OF assms])

lemma strtable_resize_correct:
  assumes inv: "str_inv t" and lg: "tab_size_lg2 t < 30"
  shows "\<exists>t' n'. hpb_strtable_resize (hpb_strtable_insert (Suc d) (\<lambda>_. True)) (\<lambda>_. True) n t (tab_size_lg2 t + 1) =
      Inr (t', True, n') \<and> str_inv t' \<and> tab_map t' = tab_map t \<and> 0 < str_room t'"
proof -
  let ?lg = "tab_size_lg2 t + 1"
  have n: "unat (tab_size_lg2 t) < 30"
    using lg by (simp add: word_less_nat_alt)
  have "unat ?lg = Suc (unat (tab_size_lg2 t))"
    using n by (simp add: unat_word_ariths)
  then have lg1: "?lg \<le> 30"
    using n by (simp add: word_le_nat_alt)
  have ti: "tab_inv strhash t"
    using inv by (simp add: str_inv_def)
  note f = tab_inv_facts [OF ti]
  have cnt: "tab_count t \<le> max_load (table_size_of (tab_size_lg2 t))"
    using inv f(5) by (simp add: str_inv_def hpb_table_size_def)
  have less: "length (assocs_from t 0) < max_load (table_size_of ?lg)"
    using assocs_length [OF f(1)] f(3) cnt max_load_double [OF lg] by simp
  have valid: "\<forall>(k, v) \<in> set (assocs_from t 0). length k < 2 ^ 32 \<and> tab_map (init_table ?lg) k = None"
    using inv assocs_mem [OF f(1,2)] init_table_str(3) [OF lg1] by (auto simp: str_inv_def)
  obtain t' n' where t': "fold_res (\<lambda>(k, v) (new, n). ignore_result (hpb_strtable_insert (Suc d) (\<lambda>_. True) n new k v))
      (assocs_from t 0) (init_table ?lg, if table_size_of ?lg > 0 then Suc n else n) = Inr (t', n')" "str_inv t'"
    "tab_map t' = tab_map (init_table ?lg) ++ map_of (assocs_from t 0)"
    "str_room t' = str_room (init_table ?lg) - length (assocs_from t 0)"
    using str.put_all [of "(init_table ?lg, if table_size_of ?lg > 0 then Suc n else n)" "assocs_from t 0" d]
      init_table_str [OF lg1] assocs_keys [OF f(1,2), of 0] valid less by auto
  moreover have "tab_map t' = tab_map t"
    using t'(3) init_table_str(3) [OF lg1] map_of_assocs [OF f(1,2)] by (simp add: map_add_def)
  moreover have "0 < str_room t'"
    using t'(4) init_table_str(2) [OF lg1] less by simp
  ultimately show ?thesis
    using resize_loop_fold [of "hpb_strtable_insert (Suc d) (\<lambda>_. True)" t "- 1"]
    by (auto simp: hpb_strtable_resize_def tab_init_def)
qed

text \<open>A table that holds less than \<open>2 ^ 28\<close> entries can still be doubled when it is full.\<close>

lemma full_size_bound:
  assumes inv: "tab_inv hash t" and full: "isfull t" and cnt: "tab_count t < 2 ^ 28"
  shows "tab_size_lg2 t < 30"
proof (rule ccontr)
  assume "\<not> ?thesis"
  then have "tab_size_lg2 t = 30"
    using tab_inv_facts(4) [OF inv] by simp
  then have "hpb_table_size t = 2 ^ 30"
    using table_size_exp [of 30] by (simp add: hpb_table_size_def)
  then have "tab_count t = max_load (2 ^ 30)"
    using full tab_inv_facts(5) [OF inv] by (simp add: isfull_def)
  then show False
    using cnt by (simp add: max_load_def)
qed

lemma strtable_insert_map:
  assumes inv: "str_inv t" and cnt: "tab_count t < 2 ^ 28" and k: "length k < 2 ^ 32" "tab_map t k = None"
  shows "\<exists>t' n'. hpb_strtable_insert (Suc (Suc d)) (\<lambda>_. True) n t k v = Inr (t', True, n') \<and> str_inv t' \<and>
    tab_map t' = (tab_map t)(k \<mapsto> v) \<and> tab_size_lg2 t' \<noteq> 0"
proof -
  have nz: "tab_size_lg2 u \<noteq> 0" if "str_inv u" "0 < str_room u" for u
    using that tab_inv_facts(5) [of strhash u]
    by (auto simp: str_inv_def str_room_def hpb_table_size_def table_size_of_def max_load_def)
  show ?thesis
  proof (cases "isfull t")
    case False
    then have "0 < str_room t"
      using inv by (simp add: str_inv_def str_room_def isfull_def)
    then show ?thesis
      using strtable_insert_room [OF inv k, of "Suc d" n v] nz [OF inv] by auto
  next
    case True
    then have "tab_size_lg2 t < 30"
      using inv cnt full_size_bound by (auto simp: str_inv_def)
    then obtain u m where u: "hpb_strtable_resize (hpb_strtable_insert (Suc d) (\<lambda>_. True)) (\<lambda>_. True) n t (tab_size_lg2 t + 1) =
        Inr (u, True, m)" "str_inv u" "tab_map u = tab_map t" "0 < str_room u"
      using strtable_resize_correct [OF inv, of d n] by blast
    then obtain w where w: "hpb_strtable_insert (Suc (Suc d)) (\<lambda>_. True) m u k v = Inr (w, True, Suc m)" "str_inv w"
      "tab_map w = (tab_map t)(k \<mapsto> v)" "tab_size_lg2 w = tab_size_lg2 u"
      using strtable_insert_room [OF u(2) k(1), of "Suc d" m v] k(2) by auto
    have "\<not> isfull u"
      using u(4) by (simp add: isfull_def str_room_def)
    then show ?thesis
      using True u(1) w nz [OF u(2,4)] by (auto simp: res_bind_Inr_iff)
  qed
qed

lemma strtable_remove_map:
  assumes inv: "str_inv t" and lg: "tab_size_lg2 t \<noteq> 0"
  shows "\<exists>t'. hpb_strtable_remove2 t k = Inr (t', tab_map t k) \<and> str_inv t' \<and>
    tab_map t' = (tab_map t)(k := None) \<and> tab_size_lg2 t' = tab_size_lg2 t"
proof -
  have ti: "tab_inv strhash t"
    using inv by (simp add: str_inv_def)
  obtain t' where t': "tab_rm t (Some k) (strhash k) = Inr (t', map_option (\<lambda>v. (Some k, v)) (tab_map t k))"
    "tab_inv strhash t'" "tab_map t' = (tab_map t)(k := None)" "tab_size_lg2 t' = tab_size_lg2 t"
    using tab_rm_correct [OF ti lg] by blast
  note f = tab_inv_facts [OF t'(2)] and g = tab_inv_facts [OF ti]
  have "card (dom (tab_map t')) \<le> card (dom (tab_map t))"
    using t'(3) tab_count_dom(2) [OF ti] by (intro card_mono) auto
  then have "tab_count t' \<le> tab_count t"
    using tab_count_dom(1) [OF t'(2)] tab_count_dom(1) [OF ti] by simp
  then have "str_inv t'"
    using inv t' f(5) g(5) by (auto simp: str_inv_def hpb_table_size_def)
  then show ?thesis
    using t' by (auto simp: hpb_strtable_remove2_def option.map_comp comp_def option.map_ident)
qed

section \<open>Refinement of a map\<close>

text \<open>A client of a string table, and the map it sees.\<close>

datatype str_op = StrInsert "byte list" u64 | StrRemove "byte list" | StrLookup "byte list"

datatype str_out = Inserted bool | Value "u64 option"

fun str_step :: "nat \<Rightarrow> hpb_strtable \<times> nat \<Rightarrow> str_op \<Rightarrow> tab_fail + ((hpb_strtable \<times> nat) \<times> str_out)" where
  "str_step depth (t, n) (StrInsert k v) =
     res_bind (hpb_strtable_insert depth (\<lambda>_. True) n t k v) (\<lambda>(t, b, n). Inr ((t, n), Inserted b))"
| "str_step depth (t, n) (StrRemove k) =
     res_bind (hpb_strtable_remove2 t k) (\<lambda>(t, r). Inr ((t, n), Value r))"
| "str_step depth (t, n) (StrLookup k) =
     res_bind (hpb_strtable_lookup2 t k) (\<lambda>r. Inr ((t, n), Value r))"

fun str_run :: "nat \<Rightarrow> hpb_strtable \<times> nat \<Rightarrow> str_op list \<Rightarrow> tab_fail + str_out list" where
  "str_run depth st [] = Inr []"
| "str_run depth st (x # ops) =
     res_bind (str_step depth st x) (\<lambda>(st, out). res_bind (str_run depth st ops) (\<lambda>outs. Inr (out # outs)))"

fun map_step :: "(byte list \<Rightarrow> u64 option) \<Rightarrow> str_op \<Rightarrow> (byte list \<Rightarrow> u64 option) \<times> str_out" where
  "map_step m (StrInsert k v) = (m(k \<mapsto> v), Inserted True)"
| "map_step m (StrRemove k) = (m(k := None), Value (m k))"
| "map_step m (StrLookup k) = (m, Value (m k))"

text \<open>The operations are used as documented: only absent keys of less than 4 GiB are inserted.\<close>

fun op_ok :: "(byte list \<Rightarrow> u64 option) \<Rightarrow> str_op \<Rightarrow> bool" where
  "op_ok m (StrInsert k v) \<longleftrightarrow> m k = None \<and> length k < 2 ^ 32"
| "op_ok m x \<longleftrightarrow> True"

fun map_run :: "(byte list \<Rightarrow> u64 option) \<Rightarrow> str_op list \<Rightarrow> str_out list" where
  "map_run m [] = []"
| "map_run m (x # ops) = snd (map_step m x) # map_run (fst (map_step m x)) ops"

fun ops_ok :: "(byte list \<Rightarrow> u64 option) \<Rightarrow> str_op list \<Rightarrow> bool" where
  "ops_ok m [] \<longleftrightarrow> True"
| "ops_ok m (x # ops) \<longleftrightarrow> op_ok m x \<and> ops_ok (fst (map_step m x)) ops"

lemma map_step_card:
  "finite (dom m) \<Longrightarrow> finite (dom (fst (map_step m x))) \<and> card (dom (fst (map_step m x))) \<le> Suc (card (dom m))"
proof (cases x)
  case (StrRemove k)
  assume "finite (dom m)"
  then have "card (dom m - {k}) \<le> card (dom m)"
    by (intro card_mono) auto
  then show ?thesis
    using \<open>finite (dom m)\<close> StrRemove by simp
qed (simp_all add: card_insert_if)

lemma str_step_map:
  assumes inv: "str_inv t" "tab_size_lg2 t \<noteq> 0" and cnt: "tab_count t < 2 ^ 28" and x: "op_ok (tab_map t) x"
  shows "\<exists>t' n'. str_step (Suc (Suc d)) (t, n) x = Inr ((t', n'), snd (map_step (tab_map t) x)) \<and> str_inv t' \<and>
    tab_size_lg2 t' \<noteq> 0 \<and> tab_map t' = fst (map_step (tab_map t) x)"
proof (cases x)
  case (StrInsert k v)
  then show ?thesis
    using strtable_insert_map [OF inv(1) cnt, of k d n v] x by (auto simp del: hpb_strtable_insert.simps)
next
  case (StrRemove k)
  then show ?thesis
    using strtable_remove_map [OF inv, of k] inv(2) by auto
next
  case (StrLookup k)
  then show ?thesis
    using inv tab_lookup_correct [of strhash t k] by (auto simp: hpb_strtable_lookup2_def str_inv_def)
qed

lemma str_run_map:
  "str_inv t \<Longrightarrow> tab_size_lg2 t \<noteq> 0 \<Longrightarrow> tab_count t + length ops \<le> 2 ^ 28 \<Longrightarrow> ops_ok (tab_map t) ops \<Longrightarrow>
   str_run (Suc (Suc d)) (t, n) ops = Inr (map_run (tab_map t) ops)"
proof (induction ops arbitrary: t n)
  case (Cons x ops)
  have x: "op_ok (tab_map t) x"
    using Cons.prems(4) by simp
  have cnt: "tab_count t < 2 ^ 28"
    using Cons.prems(3) by simp
  obtain t' n' where t': "str_step (Suc (Suc d)) (t, n) x = Inr ((t', n'), snd (map_step (tab_map t) x))"
    "str_inv t'" "tab_size_lg2 t' \<noteq> 0" "tab_map t' = fst (map_step (tab_map t) x)"
    using str_step_map [OF Cons.prems(1,2) cnt x] by blast
  have "tab_inv strhash t" "tab_inv strhash t'"
    using Cons.prems(1) t'(2) by (simp_all add: str_inv_def)
  then have "tab_count t' \<le> Suc (tab_count t)"
    using tab_count_dom map_step_card t'(4) by metis
  then have "str_run (Suc (Suc d)) (t', n') ops = Inr (map_run (tab_map t') ops)"
    using Cons.prems(3,4) t'(2-4) by (intro Cons.IH) simp_all
  then show ?case
    using t' by simp
qed simp

text \<open>
  C3: a string table that holds at least one bucket behaves as a finite map. Started from any
  state that satisfies the invariant, with allocations that succeed, every sequence of less than
  \<open>2 ^ 28\<close> insertions of absent keys, removals and lookups, growing as needed, returns the
  results of the same operations on the map of its entries.
\<close>

theorem hpb_strtable_refines_map:
  assumes "str_inv t" "tab_size_lg2 t \<noteq> 0" "tab_count t + length ops \<le> 2 ^ 28" "ops_ok (tab_map t) ops" "2 \<le> depth"
  shows "str_run depth (t, n) ops = Inr (map_run (tab_map t) ops)"
  using str_run_map [OF assms(1-4), of "depth - 2" n] assms(5)
  by (metis One_nat_def Suc_1 Suc_pred add_2_eq_Suc le_add_diff_inverse)

theorem hpb_strtable_refines_map_witness:
  "str_run 2 (init_table 1, 0) [StrInsert [97] 1, StrInsert [98] 2, StrLookup [97], StrRemove [98], StrLookup [98]] =
   Inr [Inserted True, Inserted True, Value (Some 1), Value (Some 2), Value None]"
proof -
  let ?ops = "[StrInsert [97] 1, StrInsert [98] 2, StrLookup [97], StrRemove [98], StrLookup [98]]"
  have i: "str_inv (init_table 1)" "tab_map (init_table 1 :: hpb_strtable) = (\<lambda>_. None)"
    using init_table_str [of 1] by simp_all
  have "tab_size_lg2 (init_table 1 :: hpb_strtable) \<noteq> 0" "tab_count (init_table 1 :: hpb_strtable) + length ?ops \<le> 2 ^ 28"
    by (simp_all add: init_table_def Let_def)
  then show ?thesis
    using hpb_strtable_refines_map [of "init_table 1" ?ops 2 0] i by simp
qed

section \<open>Behaviour at the edges\<close>

lemma strtable_init_0: "hpb_strtable_init ok n 0 = Inr (Some (init_table 0), n)"
proof -
  have "hpb_Log2Ceiling 1 = 0"
    by (simp add: hpb_Log2Ceiling_def)
  then show ?thesis
    by (simp add: hpb_strtable_init_def tab_init_def table_size_of_def Let_def)
qed

text \<open>
  A table initialized for no entries has no bucket array; a lookup in it reports a missing
  key, but a removal reads through the null pointer.
\<close>

theorem hpb_strtable_remove2_null:
  "hpb_strtable_init ok n 0 = Inr (Some (init_table 0), n) \<and>
   hpb_strtable_lookup2 (init_table 0) key = Inr None \<and>
   hpb_strtable_remove2 (init_table 0) key = Inl BadAccess"
proof (intro conjI)
  show "hpb_strtable_init ok n 0 = Inr (Some (init_table 0), n)"
    by (rule strtable_init_0)
  have size: "tab_size_lg2 (init_table 0 :: hpb_strtable) = 0" "tab_entries (init_table 0 :: hpb_strtable) = []"
    by (simp_all add: init_table_def Let_def table_size_of_def)
  show "hpb_strtable_lookup2 (init_table 0) key = Inr None"
    by (simp add: hpb_strtable_lookup2_def tab_lookup_def findentry_def size)
  show "hpb_strtable_remove2 (init_table 0) key = Inl BadAccess"
    by (simp add: hpb_strtable_remove2_def tab_rm_def ent_at_def Let_def size)
qed

lemma insert_no_memory:
  assumes "str_inv new" "0 < str_room new" "\<not> ok n"
  shows "hpb_strtable_insert (Suc d) ok n new k v = Inr (new, False, Suc n)"
  using assms by (simp add: isfull_def str_room_def)

lemma resize_no_memory:
  assumes "str_inv new" "0 < str_room new"
  shows "\<forall>i < length kvs. \<not> ok (n + i) \<Longrightarrow>
    fold_res (\<lambda>(k, v) (new, n). ignore_result (hpb_strtable_insert (Suc d) ok n new k v)) kvs (new, n) =
      Inr (new, n + length kvs)"
proof (induction kvs arbitrary: n)
  case (Cons kv kvs)
  have "\<not> ok n" "\<forall>i < length kvs. \<not> ok (Suc n + i)"
    using Cons.prems by force+
  then show ?case
    using Cons.IH [of "Suc n"] insert_no_memory [OF assms, of ok n] by (auto simp: ignore_result_def split: prod.split)
qed simp

text \<open>
  C37: when a full table is resized and the copies of the old keys cannot be allocated while the
  array and the copy of the new key can, the insertion reports success although every entry
  that was in the table is gone.
\<close>

theorem hpb_strtable_resize_loses_entries:
  assumes inv: "str_inv t" and full: "isfull t" "tab_count t < 2 ^ 28" and k: "length k < 2 ^ 32"
    and ok: "ok n" "\<forall>i < tab_count t. \<not> ok (Suc n + i)" "ok (Suc n + tab_count t)"
  shows "\<exists>t'. hpb_strtable_insert (Suc (Suc d)) ok n t k v = Inr (t', True, n + tab_count t + 2) \<and>
    tab_map t' = [k \<mapsto> v]"
proof -
  let ?lg = "tab_size_lg2 t + 1"
  have ti: "tab_inv strhash t"
    using inv by (simp add: str_inv_def)
  note f = tab_inv_facts [OF ti]
  have lg: "tab_size_lg2 t < 30"
    using full_size_bound [OF ti full] .
  then have "unat (tab_size_lg2 t) < 30"
    by (simp add: word_less_nat_alt)
  moreover from this have "unat ?lg = Suc (unat (tab_size_lg2 t))"
    by (simp add: unat_word_ariths)
  ultimately have lg1: "?lg \<le> 30"
    by (simp add: word_le_nat_alt)
  note new = init_table_str [OF lg1]
  have room: "0 < str_room (init_table ?lg)"
    using new(2) max_load_double [OF lg] by simp
  then have sz: "0 < table_size_of ?lg"
    using new(2) by (cases "table_size_of ?lg = 0") (auto simp: max_load_def)
  have len: "length (assocs_from t 0) = tab_count t"
    using assocs_length [OF f(1)] f(3) by simp
  have loop: "resize_loop (hpb_strtable_insert (Suc d) ok) t (- 1) (init_table ?lg) (Suc n) =
      Inr (init_table ?lg, Suc n + tab_count t)"
    using resize_no_memory [OF new(1) room, of "assocs_from t 0" ok "Suc n" d] ok(2) len
      resize_loop_fold [of "hpb_strtable_insert (Suc d) ok" t "- 1" "init_table ?lg" "Suc n"] by simp
  have res: "hpb_strtable_resize (hpb_strtable_insert (Suc d) ok) ok n t ?lg = Inr (init_table ?lg, True, Suc n + tab_count t)"
    using loop ok(1) sz by (simp add: hpb_strtable_resize_def tab_init_def)
  obtain t' where "tab_insert strhash (init_table ?lg) (Some k) (Some k) v (strhash k) = Inr t'"
    "tab_map t' = (tab_map (init_table ?lg))(k \<mapsto> v)"
    using tab_insert_correct [of strhash "init_table ?lg" k v] new(1,3) sz
    by (auto simp: str_inv_def init_table_def Let_def hpb_table_size_def)
  then show ?thesis
    using res full(1) ok(3) k new(3) by (simp add: strcopy_short)
qed

theorem hpb_strtable_resize_loses_entries_witness:
  "\<exists>t t'. str_inv t \<and> tab_map t = [[97] \<mapsto> 1] \<and>
     hpb_strtable_insert 2 (\<lambda>m. m \<noteq> 1) 0 t [98] 2 = Inr (t', True, 3) \<and> tab_map t' = [[98] \<mapsto> 2]"
proof -
  have i: "str_inv (init_table 1)" "tab_map (init_table 1 :: hpb_strtable) = (\<lambda>_. None)" "0 < str_room (init_table 1)"
    using init_table_str [of 1] by (simp_all add: table_size_of_def max_load_def)
  obtain t where t: "str_inv t" "tab_map t = [[97] \<mapsto> 1]" "str_room t = str_room (init_table 1) - 1"
    using strtable_insert_room [OF i(1) _ _ i(3), of "[97]" 0 0 1] i(2) by auto
  have "tab_count t = 1"
    using tab_count_dom(1) [of strhash t] t(1,2) by (simp add: str_inv_def)
  moreover have "str_room t = 0"
    using t(3) init_table_str(2) [of 1] by (simp add: table_size_of_def max_load_def)
  ultimately have c: "tab_count t = 1" "isfull t"
    using t(1) by (simp_all add: isfull_def str_room_def str_inv_def)
  have "\<exists>t'. hpb_strtable_insert (Suc (Suc 0)) (\<lambda>m. m \<noteq> 1) 0 t [98] 2 = Inr (t', True, 0 + tab_count t + 2) \<and>
      tab_map t' = [[98] \<mapsto> 2]"
    by (rule hpb_strtable_resize_loses_entries) (use t(1) c in simp_all)
  moreover have "Suc (Suc 0) = 2" "0 + tab_count t + 2 = 3"
    using c(1) by simp_all
  ultimately show ?thesis
    using t(1,2) by (metis (no_types))
qed

end
