(* ===== verification/MapOps.thy ===== *)
theory MapOps
  imports StrTable Memory MiniTable
begin

text \<open>
  Map fields (\<open>collections/map.c\<close>, \<open>collections/map.h\<close>, \<open>collections/internal/map.h\<close> and
  \<open>collections/map_gencode_util.h\<close>): string tables from the bytes of a key to a word that holds
  the bytes of the value or, for strings, the address of a copy of its \<open>hpb_StringView\<close>.

  A value (\<open>hpb_MessageValue\<close>, a union of 16 bytes) is the list of its bytes; as a string it is the
  address and the size of a text. Functions of \<open>internal/map.h\<close> whose name differs from a public
  one only in the leading underscore end in \<open>_internal\<close> here.
\<close>

section \<open>Data\<close>

record hpb_Map =
  m_key_size :: byte
  m_val_size :: byte
  m_table :: hpb_strtable

text \<open>
  The memory that the functions share: the number of the next allocation, the number of the
  next \<open>hpb_StringView\<close> to allocate, the \<open>hpb_StringView\<close> structs allocated for values by address,
  and the bytes of the texts that the values of the client point to.
\<close>

record map_env =
  env_n :: nat
  env_v :: nat
  env_views :: "u64 \<Rightarrow> byte list option"
  env_mem :: "u64 \<Rightarrow> byte"

text \<open>
  An arena tells which allocations succeed and at which addresses the \<open>hpb_StringView\<close> structs are.
\<close>

record map_arena =
  ar_ok :: "nat \<Rightarrow> bool"
  ar_view :: "nat \<Rightarrow> u64"

datatype hpb_MapInsertStatus =
  MapInsertStatus_Inserted | MapInsertStatus_Replaced | MapInsertStatus_OutOfMemory

definition HPB_MAPTYPE_STRING :: nat where
  "HPB_MAPTYPE_STRING = 0"

fun hpb_Map_CTypeSize :: "hpb_CType \<Rightarrow> nat" where
  "hpb_Map_CTypeSize CType_Bool = 1"
| "hpb_Map_CTypeSize CType_Float = 4"
| "hpb_Map_CTypeSize CType_Int32 = 4"
| "hpb_Map_CTypeSize CType_UInt32 = 4"
| "hpb_Map_CTypeSize CType_Enum = 4"
| "hpb_Map_CTypeSize CType_Message = 8"
| "hpb_Map_CTypeSize CType_Double = 8"
| "hpb_Map_CTypeSize CType_Int64 = 8"
| "hpb_Map_CTypeSize CType_UInt64 = 8"
| "hpb_Map_CTypeSize CType_String = HPB_MAPTYPE_STRING"
| "hpb_Map_CTypeSize CType_Bytes = HPB_MAPTYPE_STRING"

section \<open>Conversions\<close>

definition view_data :: "byte list \<Rightarrow> u64" where
  "view_data v = le_word (take 8 v)"

definition view_size :: "byte list \<Rightarrow> u64" where
  "view_size v = le_word (take 8 (drop 8 v))"

definition view_bytes :: "map_env \<Rightarrow> byte list \<Rightarrow> byte list" where
  "view_bytes env v = map (\<lambda>i. env_mem env (view_data v + of_nat i)) [0..<unat (view_size v)]"

definition hpb_map_tokey :: "map_env \<Rightarrow> byte list \<Rightarrow> nat \<Rightarrow> byte list" where
  "hpb_map_tokey env key sz = (if sz = HPB_MAPTYPE_STRING then view_bytes env key else take sz key)"

text \<open>
  The bytes of \<open>out\<close>; for a string the bytes that the view written to \<open>out\<close> shows, which are those of
  the key that the table owns.
\<close>

definition hpb_map_fromkey :: "byte list \<Rightarrow> nat \<Rightarrow> tab_fail + byte list" where
  "hpb_map_fromkey key sz =
     (if sz = HPB_MAPTYPE_STRING then Inr key
      else if sz \<le> length key then Inr (take sz key) else Inl BadAccess)"

text \<open>
  The result is the return value, \<open>*msgval\<close> after the call, of which a number replaces the first
  bytes, and the memory. An allocation from the arena \<open>NULL\<close> accesses its fields.
\<close>

definition hpb_map_tovalue ::
  "map_arena option \<Rightarrow> byte list \<Rightarrow> nat \<Rightarrow> u64 \<Rightarrow> map_env \<Rightarrow> tab_fail + (bool \<times> u64 \<times> map_env)" where
  "hpb_map_tovalue a val sz msgval env =
     (if sz = HPB_MAPTYPE_STRING
      then case a of
          None \<Rightarrow> Inl BadAccess
        | Some ar \<Rightarrow>
            if \<not> ar_ok ar (env_n env) then Inr (False, msgval, env\<lparr>env_n := Suc (env_n env)\<rparr>)
            else let strp = ar_view ar (env_v env) in
              Inr (True, strp, env\<lparr>env_n := Suc (env_n env), env_v := Suc (env_v env),
                env_views := (env_views env)(strp \<mapsto> take 16 val)\<rparr>)
      else Inr (True, le_word (take sz val @ drop sz (le_bytes 8 msgval)), env))"

definition hpb_map_fromvalue :: "map_env \<Rightarrow> u64 \<Rightarrow> nat \<Rightarrow> tab_fail + byte list" where
  "hpb_map_fromvalue env val sz =
     (if sz = HPB_MAPTYPE_STRING
      then case env_views env val of None \<Rightarrow> Inl BadAccess | Some strp \<Rightarrow> Inr strp
      else Inr (take sz (le_bytes 8 val)))"

section \<open>Operations\<close>

text \<open>
  The result of \<open>hpb_strtable_init\<close> is ignored: when there is no memory for the entries the map
  has a table with a size and no entries.
\<close>

definition no_entries :: "u64 \<Rightarrow> hpb_strtable" where
  "no_entries expected_size =
     (init_table (word_of_int (hpb_Log2Ceiling (sint (ucast ((expected_size + 1) * 1204 div 1024) :: u32)))))\<lparr>tab_entries := []\<rparr>"

definition hpb_Map_New_internal ::
  "map_arena \<Rightarrow> nat \<Rightarrow> nat \<Rightarrow> map_env \<Rightarrow> tab_fail + (hpb_Map option \<times> map_env)" where
  "hpb_Map_New_internal a key_size value_size env =
     (let n = Suc (env_n env) in
      if \<not> ar_ok a (env_n env) then Inr (None, env\<lparr>env_n := n\<rparr>)
      else res_bind (hpb_strtable_init (ar_ok a) n 4) (\<lambda>(t, n).
        Inr (Some \<lparr>m_key_size = of_nat key_size, m_val_size = of_nat value_size,
               m_table = (case t of Some t \<Rightarrow> t | None \<Rightarrow> no_entries 4)\<rparr>, env\<lparr>env_n := n\<rparr>)))"

definition hpb_Map_New ::
  "map_arena \<Rightarrow> hpb_CType \<Rightarrow> hpb_CType \<Rightarrow> map_env \<Rightarrow> tab_fail + (hpb_Map option \<times> map_env)" where
  "hpb_Map_New a key_type value_type env =
     hpb_Map_New_internal a (hpb_Map_CTypeSize key_type) (hpb_Map_CTypeSize value_type) env"

definition hpb_Map_Size_internal :: "hpb_Map \<Rightarrow> nat" where
  "hpb_Map_Size_internal m = tab_count (m_table m)"

definition hpb_Map_Size :: "hpb_Map \<Rightarrow> nat" where
  "hpb_Map_Size m = hpb_Map_Size_internal m"

text \<open>
  The result is the return value and \<open>*val\<close> when it was written; \<open>val\<close> tells whether the pointer is
  not \<open>NULL\<close>.
\<close>

definition hpb_Map_Get_internal ::
  "map_env \<Rightarrow> hpb_Map \<Rightarrow> byte list \<Rightarrow> nat \<Rightarrow> bool \<Rightarrow> nat \<Rightarrow> tab_fail + (bool \<times> byte list option)" where
  "hpb_Map_Get_internal env m key key_size val val_size =
     res_bind (hpb_strtable_lookup2 (m_table m) (hpb_map_tokey env key key_size)) (\<lambda>r.
       case r of
         Some tabval \<Rightarrow>
           if val then res_bind (hpb_map_fromvalue env tabval val_size) (\<lambda>out. Inr (True, Some out))
           else Inr (True, None)
       | None \<Rightarrow> Inr (False, None))"

definition hpb_Map_Get :: "map_env \<Rightarrow> hpb_Map \<Rightarrow> byte list \<Rightarrow> bool \<Rightarrow> tab_fail + (bool \<times> byte list option)" where
  "hpb_Map_Get env m key val =
     hpb_Map_Get_internal env m key (unat (m_key_size m)) val (unat (m_val_size m))"

definition hpb_Map_Clear_internal :: "hpb_Map \<Rightarrow> hpb_Map" where
  "hpb_Map_Clear_internal m = m\<lparr>m_table := hpb_strtable_clear (m_table m)\<rparr>"

definition hpb_Map_Clear :: "hpb_Map \<Rightarrow> hpb_Map" where
  "hpb_Map_Clear m = hpb_Map_Clear_internal m"

text \<open>Two levels of calls are enough for the insertion, as shown for string tables.\<close>

definition hpb_Map_Insert_internal ::
  "hpb_Map \<Rightarrow> byte list \<Rightarrow> nat \<Rightarrow> byte list \<Rightarrow> nat \<Rightarrow> map_arena \<Rightarrow> map_env \<Rightarrow>
   tab_fail + (hpb_MapInsertStatus \<times> hpb_Map \<times> map_env)" where
  "hpb_Map_Insert_internal m key key_size val val_size a env =
     (let strkey = hpb_map_tokey env key key_size in
      res_bind (hpb_map_tovalue (Some a) val val_size 0 env) (\<lambda>(stored, tabval, env).
        if \<not> stored then Inr (MapInsertStatus_OutOfMemory, m, env)
        else res_bind (hpb_strtable_remove2 (m_table m) strkey) (\<lambda>(t, removed).
          res_bind (hpb_strtable_insert 2 (ar_ok a) (env_n env) t strkey tabval) (\<lambda>(t, inserted, n).
            Inr (if \<not> inserted then MapInsertStatus_OutOfMemory
                 else if removed \<noteq> None then MapInsertStatus_Replaced else MapInsertStatus_Inserted,
                 m\<lparr>m_table := t\<rparr>, env\<lparr>env_n := n\<rparr>)))))"

definition hpb_Map_Insert ::
  "hpb_Map \<Rightarrow> byte list \<Rightarrow> byte list \<Rightarrow> map_arena option \<Rightarrow> map_env \<Rightarrow>
   tab_fail + (hpb_MapInsertStatus \<times> hpb_Map \<times> map_env)" where
  "hpb_Map_Insert m key val arena env =
     (case arena of
        None \<Rightarrow> Inl AssertionFailed
      | Some a \<Rightarrow> hpb_Map_Insert_internal m key (unat (m_key_size m)) val (unat (m_val_size m)) a env)"

definition hpb_Map_Set ::
  "hpb_Map \<Rightarrow> byte list \<Rightarrow> byte list \<Rightarrow> map_arena option \<Rightarrow> map_env \<Rightarrow> tab_fail + (bool \<times> hpb_Map \<times> map_env)" where
  "hpb_Map_Set m key val arena env =
     res_bind (hpb_Map_Insert m key val arena env) (\<lambda>(status, m, env).
       Inr (status \<noteq> MapInsertStatus_OutOfMemory, m, env))"

text \<open>
  \<open>*val\<close> is written when the key was removed and keeps its contents, here \<open>uninit\<close>, otherwise.
\<close>

definition hpb_Map_Delete_internal ::
  "map_env \<Rightarrow> hpb_Map \<Rightarrow> byte list \<Rightarrow> nat \<Rightarrow> u64 \<Rightarrow> tab_fail + (bool \<times> u64 \<times> hpb_Map)" where
  "hpb_Map_Delete_internal env m key key_size uninit =
     res_bind (hpb_strtable_remove2 (m_table m) (hpb_map_tokey env key key_size)) (\<lambda>(t, r).
       Inr (r \<noteq> None, (case r of Some v \<Rightarrow> v | None \<Rightarrow> uninit), m\<lparr>m_table := t\<rparr>))"

definition hpb_Map_Delete ::
  "u64 \<Rightarrow> map_env \<Rightarrow> hpb_Map \<Rightarrow> byte list \<Rightarrow> bool \<Rightarrow> tab_fail + (bool \<times> byte list option \<times> hpb_Map)" where
  "hpb_Map_Delete uninit env m key val =
     res_bind (hpb_Map_Delete_internal env m key (unat (m_key_size m)) uninit) (\<lambda>(removed, v, m).
       if val
       then res_bind (hpb_map_fromvalue env v (unat (m_val_size m))) (\<lambda>out. Inr (removed, Some out, m))
       else Inr (removed, None, m))"

definition hpb_Map_Delete2 ::
  "u64 \<Rightarrow> map_env \<Rightarrow> hpb_Map \<Rightarrow> byte list \<Rightarrow> bool \<Rightarrow> tab_fail + (bool \<times> byte list option \<times> hpb_Map)" where
  "hpb_Map_Delete2 uninit env m key val = hpb_Map_Delete uninit env m key val"

section \<open>Iteration\<close>

definition kHpb_Map_Begin :: u64 where
  "kHpb_Map_Begin = - 1"

text \<open>The key, the value and the new position, or \<open>None\<close> for false.\<close>

definition hpb_Map_Next :: "map_env \<Rightarrow> hpb_Map \<Rightarrow> u64 \<Rightarrow> tab_fail + (byte list \<times> byte list \<times> u64) option" where
  "hpb_Map_Next env m iter =
     (case hpb_strtable_next2 (m_table m) iter of
        None \<Rightarrow> Inr None
      | Some (k, v, iter) \<Rightarrow>
          res_bind (hpb_map_fromkey k (unat (m_key_size m))) (\<lambda>key.
          res_bind (hpb_map_fromvalue env v (unat (m_val_size m))) (\<lambda>val. Inr (Some (key, val, iter)))))"

definition hpb_Map_SetEntryValue ::
  "u64 \<Rightarrow> map_env \<Rightarrow> hpb_Map \<Rightarrow> u64 \<Rightarrow> byte list \<Rightarrow> tab_fail + (hpb_Map \<times> map_env)" where
  "hpb_Map_SetEntryValue uninit env m iter val =
     res_bind (hpb_map_tovalue None val (unat (m_val_size m)) uninit env) (\<lambda>(_, v, env).
       res_bind (hpb_strtable_setentryvalue (m_table m) iter v) (\<lambda>t. Inr (m\<lparr>m_table := t\<rparr>, env)))"

definition map_iter :: "hpb_Map \<Rightarrow> u64 \<Rightarrow> hpb_strtable_iter" where
  "map_iter m iter = \<lparr>i_t = Some (m_table m), i_index = iter\<rparr>"

text \<open>The entry, or \<open>None\<close> for \<open>NULL\<close>, and the new position.\<close>

definition hpb_map_next :: "hpb_Map \<Rightarrow> u64 \<Rightarrow> tab_fail + (byte list hpb_tabent option \<times> u64)" where
  "hpb_map_next m iter =
     res_bind (hpb_strtable_next (map_iter m iter)) (\<lambda>it.
       if hpb_strtable_done it then Inr (None, i_index it)
       else res_bind (str_tabent it) (\<lambda>e. Inr (Some e, i_index it)))"

definition hpb_MapIterator_Next :: "hpb_Map \<Rightarrow> u64 \<Rightarrow> tab_fail + (bool \<times> u64)" where
  "hpb_MapIterator_Next m iter = res_bind (hpb_map_next m iter) (\<lambda>(e, iter). Inr (e \<noteq> None, iter))"

definition hpb_MapIterator_Done :: "hpb_Map \<Rightarrow> u64 \<Rightarrow> tab_fail + bool" where
  "hpb_MapIterator_Done m iter =
     (if iter = kHpb_Map_Begin then Inl AssertionFailed else Inr (hpb_strtable_done (map_iter m iter)))"

definition hpb_MapIterator_Key :: "hpb_Map \<Rightarrow> u64 \<Rightarrow> tab_fail + byte list" where
  "hpb_MapIterator_Key m iter =
     res_bind (hpb_strtable_iter_key (map_iter m iter)) (\<lambda>k. hpb_map_fromkey k (unat (m_key_size m)))"

definition hpb_MapIterator_Value :: "map_env \<Rightarrow> hpb_Map \<Rightarrow> u64 \<Rightarrow> tab_fail + byte list" where
  "hpb_MapIterator_Value env m iter =
     res_bind (hpb_strtable_iter_value (map_iter m iter)) (\<lambda>v. hpb_map_fromvalue env v (unat (m_val_size m)))"

section \<open>Entries in generated code\<close>

text \<open>The entries that \<open>hpb_map_next\<close> returns, which generated code uses as messages.\<close>

definition hpb_msg_map_key :: "byte list hpb_tabent \<Rightarrow> nat \<Rightarrow> tab_fail + byte list" where
  "hpb_msg_map_key ent sz = (case e_key ent of None \<Rightarrow> Inl BadAccess | Some k \<Rightarrow> hpb_map_fromkey k sz)"

definition hpb_msg_map_value :: "map_env \<Rightarrow> byte list hpb_tabent \<Rightarrow> nat \<Rightarrow> tab_fail + byte list" where
  "hpb_msg_map_value env ent sz = hpb_map_fromvalue env (e_val ent) sz"

definition hpb_msg_map_set_value ::
  "map_env \<Rightarrow> byte list hpb_tabent \<Rightarrow> byte list \<Rightarrow> nat \<Rightarrow> tab_fail + (byte list hpb_tabent \<times> map_env)" where
  "hpb_msg_map_set_value env ent val sz =
     (if sz = HPB_MAPTYPE_STRING
      then case env_views env (e_val ent) of
          None \<Rightarrow> Inl BadAccess
        | Some _ \<Rightarrow> Inr (ent, env\<lparr>env_views := (env_views env)(e_val ent \<mapsto> take 16 val)\<rparr>)
      else Inr (ent\<lparr>e_val := le_word (take sz val @ drop sz (le_bytes 8 (e_val ent)))\<rparr>, env))"

end
