(* ===== verification/MapSafe.thy ===== *)
theory MapSafe
  imports MapOps
begin

text \<open>
  Map fields as finite maps from the bytes of keys to the bytes of values, iteration over them,
  and what is left of a map when an insertion runs out of memory.
\<close>

section \<open>Conversions\<close>

definition val_bytes :: "map_env \<Rightarrow> nat \<Rightarrow> u64 \<Rightarrow> byte list" where
  "val_bytes env vs v = (if vs = 0 then (case env_views env v of Some b \<Rightarrow> b | None \<Rightarrow> []) else take vs (le_bytes 8 v))"

definition valid_val :: "map_env \<Rightarrow> nat \<Rightarrow> u64 \<Rightarrow> bool" where
  "valid_val env vs v \<longleftrightarrow> (vs = 0 \<longrightarrow> env_views env v \<noteq> None)"

lemma le_bytes_le_word: "length bs \<le> 8 \<Longrightarrow> le_bytes (length bs) (le_word bs) = bs"
proof (induction bs)
  case (Cons b bs)
  let ?w = "ucast b OR push_bit 8 (le_word bs) :: u64"
  have "ucast ?w = b"
    by (rule bit_word_eqI) (auto simp: bit_simps)
  moreover have "drop_bit 8 ?w = take_bit 56 (le_word bs)"
    by (rule bit_word_eqI) (auto simp: bit_simps dest: bit_imp_le_length)
  moreover have "take_bit 56 (le_word bs) = le_word bs"
  proof -
    have "le_word bs = le_word (le_bytes (length bs) (le_word bs))"
      using Cons by simp
    also have "\<dots> = take_bit (8 * length bs) (le_word bs)"
      by (rule le_word_bytes)
    finally have "le_word bs = take_bit (8 * length bs) (le_word bs)" .
    moreover have "min 56 (8 * length bs) = 8 * length bs"
      using Cons.prems by simp
    ultimately show ?thesis
      by (metis take_bit_take_bit)
  qed
  ultimately show ?case
    using Cons by simp
qed simp

lemma take_le_bytes_le_word:
  assumes "length bs = 8"
  shows "le_bytes 8 (le_word bs) = bs"
  using le_bytes_le_word [of bs] assms by simp

text \<open>Converting to the table and back is the identity on the bytes of the type.\<close>

lemma fromvalue_val_bytes: "valid_val env vs v \<Longrightarrow> hpb_map_fromvalue env v vs = Inr (val_bytes env vs v)"
  by (auto simp: hpb_map_fromvalue_def val_bytes_def valid_val_def HPB_MAPTYPE_STRING_def)

definition user_val :: "nat \<Rightarrow> byte list \<Rightarrow> byte list" where
  "user_val vs val = (if vs = 0 then take 16 val else take vs val)"

lemma tovalue_number:
  assumes "vs \<noteq> 0" "vs \<le> 8" "length val = 16"
  shows "\<exists>v. hpb_map_tovalue a val vs msgval env = Inr (True, v, env) \<and> valid_val env vs v \<and> val_bytes env vs v = user_val vs val"
proof -
  let ?bs = "take vs val @ drop vs (le_bytes 8 msgval)"
  have len: "length ?bs = 8"
    using assms by simp
  have "take vs (le_bytes 8 (le_word ?bs)) = take vs val"
    unfolding take_le_bytes_le_word [OF len] using assms by simp
  then show ?thesis
    using assms by (simp add: hpb_map_tovalue_def val_bytes_def valid_val_def user_val_def HPB_MAPTYPE_STRING_def)
qed

text \<open>
  An arena gives an \<open>hpb_StringView\<close> memory that no other has.
\<close>

definition env_ok :: "map_arena \<Rightarrow> nat \<Rightarrow> map_env \<Rightarrow> bool" where
  "env_ok a N env \<longleftrightarrow> inj_on (ar_view a) {..<N} \<and> dom (env_views env) \<subseteq> ar_view a ` {..<env_v env}"

definition env_grows :: "map_env \<Rightarrow> map_env \<Rightarrow> bool" where
  "env_grows env env' \<longleftrightarrow> env_views env \<subseteq>\<^sub>m env_views env' \<and> env_mem env' = env_mem env \<and>
     env_v env \<le> env_v env' \<and> env_v env' \<le> Suc (env_v env)"

lemma env_growsD:
  assumes "env_grows env env'" "valid_val env vs v"
  shows "valid_val env' vs v" "val_bytes env' vs v = val_bytes env vs v"
proof -
  have eq: "env_views env' v = env_views env v" if "vs = 0"
    using assms that by (force simp: env_grows_def valid_val_def map_le_def)
  show "valid_val env' vs v"
    using assms(2) eq by (auto simp: valid_val_def)
  show "val_bytes env' vs v = val_bytes env vs v"
    using eq by (simp add: val_bytes_def)
qed

lemma tovalue_correct:
  assumes vs: "vs \<le> 8" and val: "length val = 16" and env: "env_ok a N env" "env_v env < N"
    and ok: "vs = 0 \<Longrightarrow> ar_ok a (env_n env)"
  shows "\<exists>v env'. hpb_map_tovalue (Some a) val vs msgval env = Inr (True, v, env') \<and> valid_val env' vs v \<and>
    val_bytes env' vs v = user_val vs val \<and> env_grows env env' \<and> env_ok a N env'"
proof (cases "vs = 0")
  case False
  then show ?thesis
    using tovalue_number [OF False vs val, of "Some a" msgval env] env(1) by (auto simp: env_grows_def)
next
  case True
  let ?p = "ar_view a (env_v env)"
  have "?p \<notin> ar_view a ` {..<env_v env}"
    using env by (auto simp: env_ok_def dest: inj_onD)
  then have "env_views env ?p = None"
    using env(1) by (auto simp: env_ok_def)
  then have "env_views env \<subseteq>\<^sub>m (env_views env)(?p \<mapsto> take 16 val)"
    by (auto simp: map_le_def)
  then show ?thesis
    using True ok env(1)
    by (auto simp: hpb_map_tovalue_def HPB_MAPTYPE_STRING_def valid_val_def val_bytes_def user_val_def env_grows_def
        env_ok_def Let_def lessThan_Suc)
qed

section \<open>The invariant\<close>

definition map_inv :: "map_env \<Rightarrow> hpb_Map \<Rightarrow> bool" where
  "map_inv env m \<longleftrightarrow> str_inv (m_table m) \<and> tab_size_lg2 (m_table m) \<noteq> 0 \<and>
     m_key_size m \<le> 8 \<and> m_val_size m \<le> 8 \<and>
     (m_key_size m \<noteq> 0 \<longrightarrow> (\<forall>k \<in> dom (tab_map (m_table m)). length k = unat (m_key_size m))) \<and>
     (\<forall>v \<in> ran (tab_map (m_table m)). valid_val env (unat (m_val_size m)) v)"

definition map_abs :: "map_env \<Rightarrow> hpb_Map \<Rightarrow> byte list \<Rightarrow> byte list option" where
  "map_abs env m k = map_option (val_bytes env (unat (m_val_size m))) (tab_map (m_table m) k)"

lemma map_abs_empty: "tab_map (m_table m) = (\<lambda>_. None) \<Longrightarrow> map_abs env m = (\<lambda>_. None)"
  by (rule ext) (simp add: map_abs_def)

lemma map_invD:
  assumes "map_inv env m"
  shows "str_inv (m_table m)" "tab_size_lg2 (m_table m) \<noteq> 0" "tab_inv strhash (m_table m)"
    "unat (m_key_size m) \<le> 8" "unat (m_val_size m) \<le> 8"
    "tab_map (m_table m) k = Some v \<Longrightarrow> valid_val env (unat (m_val_size m)) v"
    "tab_map (m_table m) k = Some v \<Longrightarrow> m_key_size m \<noteq> 0 \<Longrightarrow> length k = unat (m_key_size m)"
  using assms by (auto simp: map_inv_def str_inv_def word_le_nat_alt ran_def)

text \<open>A map keeps its contents when others allocate.\<close>

lemma map_frame:
  assumes "map_inv env m" "env_grows env env'"
  shows "map_inv env' m" "map_abs env' m = map_abs env m"
proof -
  show "map_inv env' m"
    using assms env_growsD(1) by (auto simp: map_inv_def)
  show "map_abs env' m = map_abs env m"
    using map_invD(6) [OF assms(1)] env_growsD(2) [OF assms(2)]
    by (auto simp: map_abs_def fun_eq_iff intro!: map_option_cong)
qed

lemma map_size_card:
  assumes "map_inv env m"
  shows "hpb_Map_Size m = card (dom (map_abs env m))" "finite (dom (map_abs env m))"
proof -
  have "dom (map_abs env m) = dom (tab_map (m_table m))"
    by (auto simp: map_abs_def)
  then show "hpb_Map_Size m = card (dom (map_abs env m))" "finite (dom (map_abs env m))"
    using tab_count_dom [OF map_invD(3) [OF assms]] by (simp_all add: hpb_Map_Size_def hpb_Map_Size_internal_def)
qed

section \<open>Operations\<close>

lemma strtable_clear_init:
  assumes "tab_inv hash t"
  shows "hpb_strtable_clear t = init_table (tab_size_lg2 t)"
  using assms by (auto simp: hpb_strtable_clear_def init_table_def tab_inv_def tab_shape_def Let_def hpb_table_size_def
      intro!: hpb_table.equality)

lemma map_new:
  assumes "\<And>i. ar_ok a i"
  shows "\<exists>m env'. hpb_Map_New a kt vt env = Inr (Some m, env') \<and> env_grows env env' \<and> env_v env' = env_v env \<and>
    env_views env' = env_views env \<and> map_inv env' m \<and>
    map_abs env' m = (\<lambda>_. None) \<and> unat (m_key_size m) = hpb_Map_CTypeSize kt \<and> unat (m_val_size m) = hpb_Map_CTypeSize vt"
proof -
  have lg: "hpb_Log2Ceiling 5 = 3"
    by (simp add: hpb_Log2Ceiling_def builtin_clz_def) code_simp
  have init: "hpb_strtable_init (ar_ok a) n 4 = Inr (Some (init_table 3), Suc n)" for n
    using assms by (simp add: hpb_strtable_init_def lg tab_init_def table_size_of_def)
  have sz: "hpb_Map_CTypeSize ct \<le> 8" for ct
    by (cases ct) (simp_all add: HPB_MAPTYPE_STRING_def)
  have u: "unat (of_nat (hpb_Map_CTypeSize ct) :: byte) = hpb_Map_CTypeSize ct" for ct
    using sz [of ct] by (simp add: unat_of_nat)
  have i: "str_inv (init_table 3)" "tab_map (init_table 3 :: hpb_strtable) = (\<lambda>_. None)"
    using init_table_str [of 3] by simp_all
  have lg2: "tab_size_lg2 (init_table 3 :: hpb_strtable) \<noteq> 0"
    by (simp add: init_table_def Let_def)
  show ?thesis
    using assms init i lg2 sz u
    by (simp add: hpb_Map_New_def hpb_Map_New_internal_def map_inv_def map_abs_empty env_grows_def word_le_nat_alt)
qed

definition user_key :: "map_env \<Rightarrow> hpb_Map \<Rightarrow> byte list \<Rightarrow> byte list" where
  "user_key env m key = hpb_map_tokey env key (unat (m_key_size m))"

lemma user_key_length:
  "length key = 16 \<Longrightarrow> m_key_size m \<noteq> 0 \<Longrightarrow> m_key_size m \<le> 8 \<Longrightarrow> length (user_key env m key) = unat (m_key_size m)"
  by (auto simp: user_key_def hpb_map_tokey_def HPB_MAPTYPE_STRING_def word_le_nat_alt unat_eq_0)

lemma map_get:
  assumes "map_inv env m"
  shows "hpb_Map_Get env m key True = Inr (map_abs env m (user_key env m key) \<noteq> None, map_abs env m (user_key env m key))"
    "hpb_Map_Get env m key False = Inr (map_abs env m (user_key env m key) \<noteq> None, None)"
proof -
  let ?k = "user_key env m key"
  have l: "hpb_strtable_lookup2 (m_table m) ?k = Inr (tab_map (m_table m) ?k)"
    using tab_lookup_correct [OF map_invD(3) [OF assms], of ?k] by (simp add: hpb_strtable_lookup2_def)
  have v: "hpb_map_fromvalue env v (unat (m_val_size m)) = Inr (val_bytes env (unat (m_val_size m)) v)"
    if "tab_map (m_table m) ?k = Some v" for v
    by (rule fromvalue_val_bytes, rule map_invD(6) [OF assms that])
  show "hpb_Map_Get env m key True = Inr (map_abs env m ?k \<noteq> None, map_abs env m ?k)"
    "hpb_Map_Get env m key False = Inr (map_abs env m ?k \<noteq> None, None)"
    using l v by (cases "tab_map (m_table m) ?k"; simp add: hpb_Map_Get_def hpb_Map_Get_internal_def user_key_def map_abs_def)+
qed

lemma map_clear:
  assumes "map_inv env m"
  shows "map_inv env (hpb_Map_Clear m)" "map_abs env (hpb_Map_Clear m) = (\<lambda>_. None)"
    "m_key_size (hpb_Map_Clear m) = m_key_size m" "m_val_size (hpb_Map_Clear m) = m_val_size m"
proof -
  note t = strtable_clear_init [OF map_invD(3) [OF assms]]
  note i = init_table_str [OF tab_inv_facts(4) [OF map_invD(3) [OF assms]]]
  have "tab_size_lg2 (init_table l :: hpb_strtable) = l" for l
    by (simp add: init_table_def Let_def)
  then show "map_inv env (hpb_Map_Clear m)" "map_abs env (hpb_Map_Clear m) = (\<lambda>_. None)"
    using assms i by (simp_all add: hpb_Map_Clear_def hpb_Map_Clear_internal_def t map_inv_def map_abs_empty)
qed (simp_all add: hpb_Map_Clear_def hpb_Map_Clear_internal_def)

text \<open>Replacing the table of a map by one with fewer or with valid entries.\<close>

lemma map_inv_table:
  assumes "map_inv env m" "str_inv t" "tab_size_lg2 t \<noteq> 0"
    and "\<And>k v. tab_map t k = Some v \<Longrightarrow> tab_map (m_table m) k \<noteq> Some v \<Longrightarrow>
      valid_val env (unat (m_val_size m)) v \<and> (m_key_size m \<noteq> 0 \<longrightarrow> length k = unat (m_key_size m))"
  shows "map_inv env (m\<lparr>m_table := t\<rparr>)"
  unfolding map_inv_def using assms map_invD(6,7) [OF assms(1)] by (auto simp: map_inv_def ran_def dom_def) blast+

lemma map_delete:
  assumes inv: "map_inv env m"
  shows "\<exists>m'. hpb_Map_Delete uninit env m key False = Inr (map_abs env m (user_key env m key) \<noteq> None, None, m') \<and>
    (map_abs env m (user_key env m key) \<noteq> None \<longrightarrow>
      hpb_Map_Delete uninit env m key True = Inr (True, map_abs env m (user_key env m key), m')) \<and>
    map_inv env m' \<and> map_abs env m' = (map_abs env m)(user_key env m key := None) \<and>
    m_key_size m' = m_key_size m \<and> m_val_size m' = m_val_size m"
proof -
  let ?k = "user_key env m key"
  obtain t where t: "hpb_strtable_remove2 (m_table m) ?k = Inr (t, tab_map (m_table m) ?k)" "str_inv t"
    "tab_map t = (tab_map (m_table m))(?k := None)" "tab_size_lg2 t = tab_size_lg2 (m_table m)"
    using strtable_remove_map [OF map_invD(1,2) [OF inv]] by blast
  have v: "hpb_map_fromvalue env v (unat (m_val_size m)) = Inr (val_bytes env (unat (m_val_size m)) v)"
    if "tab_map (m_table m) ?k = Some v" for v
    by (rule fromvalue_val_bytes, rule map_invD(6) [OF inv that])
  have "map_inv env (m\<lparr>m_table := t\<rparr>)"
    using t(2-4) map_invD(2) [OF inv] by (intro map_inv_table [OF inv]) (auto split: if_splits)
  moreover have "map_abs env (m\<lparr>m_table := t\<rparr>) = (map_abs env m)(?k := None)"
    by (auto simp: map_abs_def t(3))
  ultimately show ?thesis
    using t(1) v by (auto simp: hpb_Map_Delete_def hpb_Map_Delete_internal_def map_abs_def user_key_def)
qed

lemma map_insert:
  assumes inv: "map_inv env m" and env: "env_ok a N env" "env_v env < N" and ok: "\<And>i. ar_ok a i"
    and len: "length key = 16" "length val = 16" and key: "length (user_key env m key) < 2 ^ 32"
    and cnt: "hpb_Map_Size m < 2 ^ 28"
  shows "\<exists>m' env'. hpb_Map_Insert m key val (Some a) env =
      Inr (if map_abs env m (user_key env m key) = None then MapInsertStatus_Inserted else MapInsertStatus_Replaced, m', env') \<and>
    map_inv env' m' \<and> env_ok a N env' \<and> env_grows env env' \<and>
    map_abs env' m' = (map_abs env m)(user_key env m key \<mapsto> user_val (unat (m_val_size m)) val) \<and>
    m_key_size m' = m_key_size m \<and> m_val_size m' = m_val_size m"
proof -
  let ?k = "user_key env m key" and ?vs = "unat (m_val_size m)"
  obtain v env1 where v: "hpb_map_tovalue (Some a) val ?vs 0 env = Inr (True, v, env1)" "valid_val env1 ?vs v"
    "val_bytes env1 ?vs v = user_val ?vs val" "env_grows env env1" "env_ok a N env1"
    using tovalue_correct [OF map_invD(5) [OF inv] len(2) env ok] by blast
  note m = map_frame [OF inv v(4)]
  obtain t where t: "hpb_strtable_remove2 (m_table m) ?k = Inr (t, tab_map (m_table m) ?k)" "str_inv t"
    "tab_map t = (tab_map (m_table m))(?k := None)" "tab_size_lg2 t = tab_size_lg2 (m_table m)"
    using strtable_remove_map [OF map_invD(1,2) [OF inv]] by blast
  have "tab_count t \<le> hpb_Map_Size m"
    using tab_count_dom(1) [of strhash t] tab_count_dom [OF map_invD(3) [OF inv]] t(2,3)
    by (auto simp: str_inv_def hpb_Map_Size_def hpb_Map_Size_internal_def intro!: card_mono)
  then obtain t' n' where t': "hpb_strtable_insert (Suc (Suc 0)) (\<lambda>_. True) (env_n env1) t ?k v = Inr (t', True, n')"
    "str_inv t'" "tab_map t' = (tab_map t)(?k \<mapsto> v)" "tab_size_lg2 t' \<noteq> 0"
    using strtable_insert_map [OF t(2) _ key, of 0 "env_n env1" v] cnt t(3) by auto
  have ar: "ar_ok a = (\<lambda>_. True)"
    using ok by auto
  let ?m = "m\<lparr>m_table := t'\<rparr>" and ?env = "env1\<lparr>env_n := n'\<rparr>"
  have g: "env_grows env1 ?env"
    by (simp add: env_grows_def)
  have kl: "m_key_size m \<noteq> 0 \<longrightarrow> length ?k = unat (m_key_size m)"
    using user_key_length [OF len(1)] inv by (simp add: map_inv_def)
  have i: "map_inv env1 ?m"
    using t(3) t'(2-4) v(2) kl by (intro map_inv_table [OF m(1)]) (auto split: if_splits)
  have "map_abs env1 ?m = (map_abs env1 m)(?k \<mapsto> user_val ?vs val)"
    using t(3) t'(3) v(3) by (auto simp: map_abs_def)
  moreover have "hpb_Map_Insert m key val (Some a) env =
      Inr (if map_abs env m ?k = None then MapInsertStatus_Inserted else MapInsertStatus_Replaced, ?m, ?env)"
    using v(1) t(1) t'(1)
    by (simp add: hpb_Map_Insert_def hpb_Map_Insert_internal_def user_key_def [symmetric] ar map_abs_def numeral_2_eq_2
        del: hpb_strtable_insert.simps)
  moreover have "env_grows env ?env" "env_ok a N ?env"
    using v(4,5) by (simp_all add: env_grows_def env_ok_def)
  ultimately show ?thesis
    using map_frame [OF i g] m(2) by auto
qed

section \<open>Refinement of a map\<close>

text \<open>A client of a map field, and the map it sees.\<close>

datatype mapf_op =
    MapInsert "byte list" "byte list" | MapGet "byte list" | MapHas "byte list" | MapDelete "byte list"
  | MapTake "byte list" | MapClear | MapSize

datatype mapf_out =
    Status hpb_MapInsertStatus | Answer bool "byte list option" | Cleared | Count nat

fun mapf_step :: "map_arena \<Rightarrow> u64 \<Rightarrow> hpb_Map \<times> map_env \<Rightarrow> mapf_op \<Rightarrow> tab_fail + ((hpb_Map \<times> map_env) \<times> mapf_out)" where
  "mapf_step a uninit (m, env) (MapInsert key val) =
     res_bind (hpb_Map_Insert m key val (Some a) env) (\<lambda>(status, m, env). Inr ((m, env), Status status))"
| "mapf_step a uninit (m, env) (MapGet key) =
     res_bind (hpb_Map_Get env m key True) (\<lambda>(ret, out). Inr ((m, env), Answer ret out))"
| "mapf_step a uninit (m, env) (MapHas key) =
     res_bind (hpb_Map_Get env m key False) (\<lambda>(ret, out). Inr ((m, env), Answer ret out))"
| "mapf_step a uninit (m, env) (MapDelete key) =
     res_bind (hpb_Map_Delete uninit env m key False) (\<lambda>(ret, out, m). Inr ((m, env), Answer ret out))"
| "mapf_step a uninit (m, env) (MapTake key) =
     res_bind (hpb_Map_Delete uninit env m key True) (\<lambda>(ret, out, m). Inr ((m, env), Answer ret out))"
| "mapf_step a uninit (m, env) MapClear = Inr ((hpb_Map_Clear m, env), Cleared)"
| "mapf_step a uninit (m, env) MapSize = Inr ((m, env), Count (hpb_Map_Size m))"

fun mapf_run :: "map_arena \<Rightarrow> u64 \<Rightarrow> hpb_Map \<times> map_env \<Rightarrow> mapf_op list \<Rightarrow> tab_fail + mapf_out list" where
  "mapf_run a uninit st [] = Inr []"
| "mapf_run a uninit st (x # ops) =
     res_bind (mapf_step a uninit st x) (\<lambda>(st, out). res_bind (mapf_run a uninit st ops) (\<lambda>outs. Inr (out # outs)))"

text \<open>The specification: \<open>kf\<close> and \<open>vf\<close> give the bytes of a key and of a value of the types of the map.\<close>

fun spec_step ::
  "(byte list \<Rightarrow> byte list) \<Rightarrow> (byte list \<Rightarrow> byte list) \<Rightarrow> (byte list \<Rightarrow> byte list option) \<Rightarrow> mapf_op \<Rightarrow>
   (byte list \<Rightarrow> byte list option) \<times> mapf_out" where
  "spec_step kf vf f (MapInsert key val) =
     (f(kf key \<mapsto> vf val),
      Status (if f (kf key) = None then MapInsertStatus_Inserted else MapInsertStatus_Replaced))"
| "spec_step kf vf f (MapGet key) = (f, Answer (f (kf key) \<noteq> None) (f (kf key)))"
| "spec_step kf vf f (MapHas key) = (f, Answer (f (kf key) \<noteq> None) None)"
| "spec_step kf vf f (MapDelete key) = (f(kf key := None), Answer (f (kf key) \<noteq> None) None)"
| "spec_step kf vf f (MapTake key) = (f(kf key := None), Answer True (f (kf key)))"
| "spec_step kf vf f MapClear = (\<lambda>_. None, Cleared)"
| "spec_step kf vf f MapSize = (f, Count (card (dom f)))"

fun spec_run ::
  "(byte list \<Rightarrow> byte list) \<Rightarrow> (byte list \<Rightarrow> byte list) \<Rightarrow> (byte list \<Rightarrow> byte list option) \<Rightarrow> mapf_op list \<Rightarrow>
   mapf_out list" where
  "spec_run kf vf f [] = []"
| "spec_run kf vf f (x # ops) = snd (spec_step kf vf f x) # spec_run kf vf (fst (spec_step kf vf f x)) ops"

text \<open>
  Values have the 16 bytes of the union, the texts of keys less than 4 GiB, and a deleted value is
  only asked for when the key is present.
\<close>

fun mapf_op_ok :: "(byte list \<Rightarrow> byte list) \<Rightarrow> (byte list \<Rightarrow> byte list option) \<Rightarrow> mapf_op \<Rightarrow> bool" where
  "mapf_op_ok kf f (MapInsert key val) \<longleftrightarrow> length key = 16 \<and> length val = 16 \<and> length (kf key) < 2 ^ 32"
| "mapf_op_ok kf f (MapTake key) \<longleftrightarrow> f (kf key) \<noteq> None"
| "mapf_op_ok kf f x \<longleftrightarrow> True"

fun mapf_ops_ok ::
  "(byte list \<Rightarrow> byte list) \<Rightarrow> (byte list \<Rightarrow> byte list) \<Rightarrow> (byte list \<Rightarrow> byte list option) \<Rightarrow> mapf_op list \<Rightarrow> bool" where
  "mapf_ops_ok kf vf f [] \<longleftrightarrow> True"
| "mapf_ops_ok kf vf f (x # ops) \<longleftrightarrow> mapf_op_ok kf f x \<and> mapf_ops_ok kf vf (fst (spec_step kf vf f x)) ops"

definition same_keys :: "hpb_Map \<times> map_env \<Rightarrow> hpb_Map \<times> map_env \<Rightarrow> bool" where
  "same_keys st st' \<longleftrightarrow> (case st of (m, env) \<Rightarrow> case st' of (m', env') \<Rightarrow>
     m_key_size m' = m_key_size m \<and> m_val_size m' = m_val_size m \<and> env_mem env' = env_mem env)"

lemma same_keysD:
  assumes "same_keys (m, env) (m', env')"
  shows "user_key env' m' = user_key env m" "m_val_size m' = m_val_size m"
  using assms by (simp_all add: same_keys_def user_key_def hpb_map_tokey_def view_bytes_def fun_eq_iff)

lemma mapf_step_spec:
  assumes inv: "map_inv env m" and env: "env_ok a N env" "env_v env < N" and ok: "\<And>i. ar_ok a i"
    and cnt: "hpb_Map_Size m < 2 ^ 28" and x: "mapf_op_ok (user_key env m) (map_abs env m) x"
  shows "\<exists>m' env'. mapf_step a uninit (m, env) x =
      Inr ((m', env'), snd (spec_step (user_key env m) (user_val (unat (m_val_size m))) (map_abs env m) x)) \<and>
    map_inv env' m' \<and> env_ok a N env' \<and> env_v env' \<le> Suc (env_v env) \<and> same_keys (m, env) (m', env') \<and>
    map_abs env' m' = fst (spec_step (user_key env m) (user_val (unat (m_val_size m))) (map_abs env m) x)"
proof (cases x)
  case (MapInsert key val)
  then show ?thesis
    using map_insert [OF inv env ok _ _ _ cnt, of key val] x by (auto simp: same_keys_def env_grows_def)
next
  case (MapDelete key)
  then show ?thesis
    using map_delete [OF inv, of uninit key] env(1) by (auto simp: same_keys_def)
next
  case (MapTake key)
  then show ?thesis
    using map_delete [OF inv, of uninit key] env(1) x by (auto simp: same_keys_def)
next
  case MapClear
  then show ?thesis
    using map_clear [OF inv] env(1) by (auto simp: same_keys_def)
qed (use inv env(1) map_get [OF inv] map_size_card(1) [OF inv] in \<open>auto simp: same_keys_def\<close>)

lemma spec_step_card:
  assumes "finite (dom f)"
  shows "finite (dom (fst (spec_step kf vf f x)))" "card (dom (fst (spec_step kf vf f x))) \<le> Suc (card (dom f))"
proof -
  have "card (dom f - {k}) \<le> card (dom f)" for k
    using assms by (intro card_mono) auto
  then show "finite (dom (fst (spec_step kf vf f x)))" "card (dom (fst (spec_step kf vf f x))) \<le> Suc (card (dom f))"
    using assms by (cases x; simp add: card_insert_if le_Suc_eq le_SucI)+
qed

lemma mapf_run_spec:
  assumes ok: "\<And>i. ar_ok a i"
  shows "map_inv env m \<Longrightarrow> env_ok a N env \<Longrightarrow> env_v env + length ops \<le> N \<Longrightarrow> hpb_Map_Size m + length ops \<le> 2 ^ 28 \<Longrightarrow>
    mapf_ops_ok (user_key env m) (user_val (unat (m_val_size m))) (map_abs env m) ops \<Longrightarrow>
    mapf_run a uninit (m, env) ops = Inr (spec_run (user_key env m) (user_val (unat (m_val_size m))) (map_abs env m) ops)"
proof (induction ops arbitrary: m env)
  case (Cons x ops)
  let ?kf = "user_key env m" and ?vf = "user_val (unat (m_val_size m))"
  have pre: "env_v env < N" "hpb_Map_Size m < 2 ^ 28" "mapf_op_ok ?kf (map_abs env m) x"
    using Cons.prems by simp_all
  obtain m' env' where s: "mapf_step a uninit (m, env) x = Inr ((m', env'), snd (spec_step ?kf ?vf (map_abs env m) x))"
    "map_inv env' m'" "env_ok a N env'" "env_v env' \<le> Suc (env_v env)" "same_keys (m, env) (m', env')"
    "map_abs env' m' = fst (spec_step ?kf ?vf (map_abs env m) x)"
    using mapf_step_spec [OF Cons.prems(1,2) pre(1) ok pre(2,3)] by blast
  have "hpb_Map_Size m' \<le> Suc (hpb_Map_Size m)"
    using spec_step_card(2) [OF map_size_card(2) [OF Cons.prems(1)], of ?kf ?vf x]
    by (simp add: map_size_card(1) [OF s(2)] map_size_card(1) [OF Cons.prems(1)] s(6))
  then have "mapf_run a uninit (m', env') ops = Inr (spec_run ?kf ?vf (map_abs env' m') ops)"
    using Cons.IH [OF s(2,3)] Cons.prems(3-5) s(4,6) same_keysD [OF s(5)] by simp
  then show ?case
    using s(1,6) by simp
qed simp

text \<open>
  C17: a map field behaves as a finite map. A map created for any key and value types, in an arena
  whose allocations succeed and give each \<open>hpb_StringView\<close> its own address, returns on every sequence
  of at most \<open>2 ^ 28\<close> insertions, replacements, lookups, deletions, clearings and size queries
  what these operations return on a map from the bytes of keys to the bytes of values, string
  keys being compared by their contents and string values kept as they were given.
\<close>

theorem hpb_Map_refines_map:
  assumes "\<And>i. ar_ok a i" "inj_on (ar_view a) {..<env_v env + length ops}"
    "dom (env_views env) \<subseteq> ar_view a ` {..<env_v env}" "length ops \<le> 2 ^ 28"
    "mapf_ops_ok (\<lambda>key. hpb_map_tokey env key (hpb_Map_CTypeSize kt)) (user_val (hpb_Map_CTypeSize vt)) (\<lambda>_. None) ops"
  shows "\<exists>m env'. hpb_Map_New a kt vt env = Inr (Some m, env') \<and>
    mapf_run a uninit (m, env') ops =
      Inr (spec_run (\<lambda>key. hpb_map_tokey env key (hpb_Map_CTypeSize kt)) (user_val (hpb_Map_CTypeSize vt)) (\<lambda>_. None) ops)"
proof -
  obtain m env' where m: "hpb_Map_New a kt vt env = Inr (Some m, env')" "env_grows env env'" "env_v env' = env_v env"
    "env_views env' = env_views env" "map_inv env' m" "map_abs env' m = (\<lambda>_. None)"
    "unat (m_key_size m) = hpb_Map_CTypeSize kt" "unat (m_val_size m) = hpb_Map_CTypeSize vt"
    using map_new [OF assms(1)] by blast
  have kf: "user_key env' m = (\<lambda>key. hpb_map_tokey env key (hpb_Map_CTypeSize kt))"
    using m(2) by (simp add: user_key_def hpb_map_tokey_def view_bytes_def env_grows_def m(7) fun_eq_iff)
  have e: "env_ok a (env_v env + length ops) env'"
    using assms(2,3) m(3,4) by (simp add: env_ok_def)
  have "hpb_Map_Size m = 0"
    using map_size_card(1) [OF m(5)] m(6) by simp
  then have "mapf_run a uninit (m, env') ops = Inr (spec_run (user_key env' m) (user_val (unat (m_val_size m))) (map_abs env' m) ops)"
    using assms(4,5) m(3) by (intro mapf_run_spec [OF assms(1) m(5) e]) (simp_all add: kf m(6,8))
  then show ?thesis
    using m(1) by (auto simp: kf m(6,8))
qed

text \<open>
  A map from texts to texts: the key \<open>a\<close> is stored twice through different pointers, with the
  texts at addresses 32 and 48 as values.
\<close>

definition text_view :: "u64 \<Rightarrow> u64 \<Rightarrow> byte list" where
  "text_view data len = le_bytes 8 data @ le_bytes 8 len"

definition demo_env :: map_env where
  "demo_env = \<lparr>env_n = 0, env_v = 0, env_views = \<lambda>_. None, env_mem = (\<lambda>p. if p = 16 \<or> p = 24 then 97 else 98)\<rparr>"

definition demo_arena :: map_arena where
  "demo_arena = \<lparr>ar_ok = \<lambda>_. True, ar_view = \<lambda>i. of_nat (16 * i + 1024)\<rparr>"

lemma demo_view_inj: "inj_on (ar_view demo_arena) {..<1000}"
proof (rule inj_onI)
  fix i j :: nat
  assume ij: "i \<in> {..<1000}" "j \<in> {..<1000}" "ar_view demo_arena i = ar_view demo_arena j"
  have "unat (of_nat (16 * x + 1024) :: u64) = 16 * x + 1024" if "x < 1000" for x
    using that by (simp only: unat_of_nat) (simp add: take_bit_nat_eq_self)
  then have "16 * i + 1024 = 16 * j + 1024"
    using ij unfolding demo_arena_def by (metis lessThan_iff map_arena.select_convs(2))
  then show "i = j"
    by simp
qed

lemma text_view_tokey: "unat len = n \<Longrightarrow> hpb_map_tokey env (text_view data len) 0 = map (\<lambda>i. env_mem env (data + of_nat i)) [0..<n]"
  by (simp add: hpb_map_tokey_def HPB_MAPTYPE_STRING_def view_bytes_def view_data_def view_size_def text_view_def)

theorem hpb_Map_refines_map_witness:
  "\<exists>m env'. hpb_Map_New demo_arena CType_String CType_Bytes demo_env = Inr (Some m, env') \<and>
    mapf_run demo_arena 0 (m, env')
      [MapInsert (text_view 16 1) (text_view 32 3), MapInsert (text_view 24 1) (text_view 48 5), MapSize,
       MapGet (text_view 16 1), MapGet (text_view 32 1), MapTake (text_view 24 1), MapHas (text_view 16 1)] =
    Inr [Status MapInsertStatus_Inserted, Status MapInsertStatus_Replaced, Count 1, Answer True (Some (text_view 48 5)),
       Answer False None, Answer True (Some (text_view 48 5)), Answer False None]"
proof -
  let ?ops = "[MapInsert (text_view 16 1) (text_view 32 3), MapInsert (text_view 24 1) (text_view 48 5), MapSize,
       MapGet (text_view 16 1), MapGet (text_view 32 1), MapTake (text_view 24 1), MapHas (text_view 16 1)]"
  have keys: "hpb_map_tokey demo_env (text_view 16 1) 0 = [97]" "hpb_map_tokey demo_env (text_view 24 1) 0 = [97]"
    "hpb_map_tokey demo_env (text_view 32 1) 0 = [98]"
    by (simp_all add: text_view_tokey [of _ 1] demo_env_def)
  have len: "length (text_view d l) = 16" for d l
    by (simp add: text_view_def)
  have val: "user_val 0 (text_view d l) = text_view d l" for d l
    by (simp add: user_val_def len)
  have "inj_on (ar_view demo_arena) {..<env_v demo_env + length ?ops}"
    by (rule inj_on_subset [OF demo_view_inj]) (auto simp: demo_env_def)
  then show ?thesis
    using hpb_Map_refines_map [of demo_arena demo_env ?ops CType_String CType_Bytes 0]
    by (simp add: demo_arena_def demo_env_def [THEN arg_cong, of env_views] keys len val HPB_MAPTYPE_STRING_def)
qed

end
