(* ===== verification/MapIter.thy ===== *)
theory MapIter
  imports MapSafe
begin

text \<open>
  Iteration over map fields with both kinds of iterators, assignment through an iterator, and
  what the operations do when memory runs out or a key is absent.
\<close>

section \<open>Iteration\<close>

text \<open>The loop that the comment of \<open>map.h\<close> gives for \<open>hpb_Map_Next\<close>.\<close>

function map_entries :: "map_env \<Rightarrow> hpb_Map \<Rightarrow> u64 \<Rightarrow> tab_fail + (byte list \<times> byte list) list" where
  "map_entries env m iter =
     res_bind (hpb_Map_Next env m iter) (\<lambda>r.
       case r of None \<Rightarrow> Inr []
       | Some (key, val, iter) \<Rightarrow> res_bind (map_entries env m iter) (\<lambda>kvs. Inr ((key, val) # kvs)))"
  by pat_completeness auto
termination
  by (relation "measure (\<lambda>(env, m, iter). hpb_table_size (m_table m) - unat (iter + 1))")
    (auto simp: hpb_Map_Next_def res_bind_Inr_iff split: option.splits dest: next2_progress)

declare map_entries.simps [simp del]

text \<open>The loop with the older functions.\<close>

function iterator_entries :: "map_env \<Rightarrow> hpb_Map \<Rightarrow> u64 \<Rightarrow> tab_fail + (byte list \<times> byte list) list" where
  "iterator_entries env m iter =
     res_bind (hpb_MapIterator_Next m iter) (\<lambda>(more, iter).
       if \<not> more then Inr []
       else res_bind (hpb_MapIterator_Key m iter) (\<lambda>key.
            res_bind (hpb_MapIterator_Value env m iter) (\<lambda>val.
            res_bind (iterator_entries env m iter) (\<lambda>kvs. Inr ((key, val) # kvs)))))"
  by pat_completeness auto
termination
proof (relation "measure (\<lambda>(env, m, iter). hpb_table_size (m_table m) - unat (iter + 1))")
  fix env :: map_env and m iter more_iter more iter' key val
  assume n: "hpb_MapIterator_Next m iter = Inr more_iter" "(more, iter') = more_iter" "\<not> \<not> more"
  show "((env, m, iter'), env, m, iter) \<in> measure (\<lambda>(env, m, iter). hpb_table_size (m_table m) - unat (iter + 1))"
  proof (cases rule: next_ent_cases [of "m_table m" iter])
    case no_more
    then show ?thesis
      using n by (auto simp: hpb_MapIterator_Next_def hpb_map_next_def hpb_strtable_next_def map_iter_def hpb_strtable_done_def)
  next
    case (found j js)
    have "iter' = next_ent (m_table m) iter"
      using n by (auto simp: hpb_MapIterator_Next_def hpb_map_next_def hpb_strtable_next_def map_iter_def res_bind_Inr_iff
          split: if_splits)
    then show ?thesis
      using found used_from_Cons(2) [OF found(1)] by simp
  qed
qed simp

declare iterator_entries.simps [simp del]

definition user_entry :: "map_env \<Rightarrow> hpb_Map \<Rightarrow> byte list \<times> u64 \<Rightarrow> byte list \<times> byte list" where
  "user_entry env m kv = (fst kv, val_bytes env (unat (m_val_size m)) (snd kv))"

lemma fromkey_own:
  assumes "map_inv env m" "tab_map (m_table m) k = Some v"
  shows "hpb_map_fromkey k (unat (m_key_size m)) = Inr k"
  using map_invD(7) [OF assms] by (auto simp: hpb_map_fromkey_def HPB_MAPTYPE_STRING_def unat_eq_0)

lemma assocs_from_mem:
  assumes "map_inv env m" "(k, v) \<in> set (assocs_from (m_table m) n)"
  shows "tab_map (m_table m) k = Some v"
proof -
  note f = tab_inv_facts [OF map_invD(3) [OF assms(1)]]
  have "(k, v) \<in> set (assocs_from (m_table m) 0)"
    using assms(2) by (force simp: assocs_from_def used_from_def)
  then show ?thesis
    using assocs_mem [OF f(1,2)] by simp
qed

text \<open>Each step of either iterator yields the next entry of the table.\<close>

lemma map_next_cases:
  assumes "map_inv env m"
  obtains (no_more) "assocs_from (m_table m) (unat (iter + 1)) = []" "hpb_Map_Next env m iter = Inr None"
      "hpb_MapIterator_Next m iter = Inr (False, - 2)"
  | (found) k v iter' where
      "assocs_from (m_table m) (unat (iter + 1)) = (k, v) # assocs_from (m_table m) (unat (iter' + 1))"
      "hpb_Map_Next env m iter = Inr (Some (k, val_bytes env (unat (m_val_size m)) v, iter'))"
      "hpb_MapIterator_Next m iter = Inr (True, iter')" "hpb_MapIterator_Key m iter' = Inr k"
      "hpb_MapIterator_Value env m iter' = Inr (val_bytes env (unat (m_val_size m)) v)"
proof (cases rule: next_ent_cases [of "m_table m" iter])
  case no_more
  then show thesis
    using that(1)
    by (simp add: assocs_from_def hpb_Map_Next_def hpb_strtable_next2_def Let_def hpb_MapIterator_Next_def hpb_map_next_def
        hpb_strtable_next_def map_iter_def hpb_strtable_done_def)
next
  case (found j js)
  let ?e = "tab_entries (m_table m) ! j"
  obtain k where k: "e_key ?e = Some k"
    using found(7) by blast
  have as: "assocs_from (m_table m) (unat (iter + 1)) = (k, e_val ?e) # assocs_from (m_table m) (Suc j)"
    using found(1,6) k by (simp add: assocs_from_def assoc_at_def)
  then have tm: "tab_map (m_table m) k = Some (e_val ?e)"
    using assocs_from_mem [OF assms, of k "e_val ?e" "unat (iter + 1)"] by simp
  note c = fromkey_own [OF assms tm] fromvalue_val_bytes [OF map_invD(6) [OF assms tm]]
  have len: "j < length (tab_entries (m_table m))"
    using found(4) tab_inv_facts(1) [OF map_invD(3) [OF assms]] by simp
  note defs = hpb_Map_Next_def hpb_strtable_next2_def Let_def hpb_MapIterator_Next_def hpb_map_next_def
        hpb_strtable_next_def map_iter_def hpb_strtable_done_def hpb_MapIterator_Key_def hpb_MapIterator_Value_def
        hpb_strtable_iter_key_def hpb_strtable_iter_value_def str_tabent_def hpb_tabent_isempty_def
  have n: "hpb_Map_Next env m iter = Inr (Some (k, val_bytes env (unat (m_val_size m)) (e_val ?e), of_nat j))"
    "hpb_MapIterator_Next m iter = Inr (True, of_nat j)" "hpb_MapIterator_Key m (of_nat j) = Inr k"
    "hpb_MapIterator_Value env m (of_nat j) = Inr (val_bytes env (unat (m_val_size m)) (e_val ?e))"
    using found(2-4) k len c by (simp_all add: defs)
  show thesis
    using that(2) [of k "e_val ?e" "of_nat j"] as n found(2,5) by simp
qed

lemma map_entries_assocs:
  assumes "map_inv env m"
  shows "map_entries env m iter = Inr (map (user_entry env m) (assocs_from (m_table m) (unat (iter + 1))))"
  using assms
proof (induction env m iter rule: map_entries.induct)
  case (1 env m iter)
  show ?case
  proof (cases rule: map_next_cases [OF 1(2), of iter, case_names no_more found])
    case no_more
    then show ?thesis
      by (simp add: map_entries.simps [of env m iter])
  next
    case (found k v iter')
    then show ?thesis
      using 1 by (simp add: map_entries.simps [of env m iter] user_entry_def)
  qed
qed

lemma iterator_entries_assocs:
  assumes "map_inv env m"
  shows "iterator_entries env m iter = Inr (map (user_entry env m) (assocs_from (m_table m) (unat (iter + 1))))"
  using assms
proof (induction env m iter rule: iterator_entries.induct)
  case (1 env m iter)
  show ?case
  proof (cases rule: map_next_cases [OF 1(2), of iter, case_names no_more found])
    case no_more
    then show ?thesis
      by (simp add: iterator_entries.simps [of env m iter])
  next
    case (found k v iter')
    then show ?thesis
      using 1 by (simp add: iterator_entries.simps [of env m iter] user_entry_def)
  qed
qed

text \<open>The pairs of the iteration are those of the map.\<close>

lemma user_entries:
  assumes "map_inv env m"
  shows "distinct (map fst (map (user_entry env m) (assocs_from (m_table m) 0)))"
    "map_of (map (user_entry env m) (assocs_from (m_table m) 0)) = map_abs env m"
    "length (assocs_from (m_table m) 0) = hpb_Map_Size m"
proof -
  note f = tab_inv_facts [OF map_invD(3) [OF assms]]
  have fst: "fst \<circ> user_entry env m = fst"
    by (auto simp: user_entry_def)
  then show "distinct (map fst (map (user_entry env m) (assocs_from (m_table m) 0)))"
    using assocs_keys [OF f(1,2), of 0] by simp
  have "map_of (map (user_entry env m) kvs) = map_option (val_bytes env (unat (m_val_size m))) \<circ> map_of kvs" for kvs
    by (induction kvs) (auto simp: user_entry_def)
  then show "map_of (map (user_entry env m) (assocs_from (m_table m) 0)) = map_abs env m"
    using map_of_assocs [OF f(1,2)] by (simp add: map_abs_def fun_eq_iff)
  show "length (assocs_from (m_table m) 0) = hpb_Map_Size m"
    using assocs_length [OF f(1)] f(3) by (simp add: hpb_Map_Size_def hpb_Map_Size_internal_def)
qed

text \<open>
  C19: the iteration of the comment of \<open>map.h\<close> over a map ends and yields every entry of the map
  exactly once, as many as its size tells, and the older iterator functions yield the same
  entries in the same order.
\<close>

theorem hpb_Map_iteration:
  assumes "map_inv env m"
  shows "\<exists>kvs. map_entries env m kHpb_Map_Begin = Inr kvs \<and> iterator_entries env m kHpb_Map_Begin = Inr kvs \<and>
    distinct (map fst kvs) \<and> map_of kvs = map_abs env m \<and> length kvs = hpb_Map_Size m"
  using user_entries [OF assms]
  by (auto simp: map_entries_assocs [OF assms] iterator_entries_assocs [OF assms] kHpb_Map_Begin_def)

lemma map_new_insert:
  assumes "length key = 16" "length val = 16" "length (hpb_map_tokey demo_env key (hpb_Map_CTypeSize kt)) < 2 ^ 32"
  shows "\<exists>m m' env env'. hpb_Map_New demo_arena kt vt demo_env = Inr (Some m, env) \<and>
    hpb_Map_Insert m key val (Some demo_arena) env = Inr (MapInsertStatus_Inserted, m', env') \<and>
    map_inv env' m' \<and> env_ok demo_arena 1000 env' \<and> env_v env' < 1000 \<and>
    unat (m_key_size m') = hpb_Map_CTypeSize kt \<and> unat (m_val_size m') = hpb_Map_CTypeSize vt \<and>
    map_abs env' m' = [hpb_map_tokey demo_env key (hpb_Map_CTypeSize kt) \<mapsto> user_val (hpb_Map_CTypeSize vt) val]"
proof -
  have ok: "ar_ok demo_arena i" for i
    by (simp add: demo_arena_def)
  obtain m env where m: "hpb_Map_New demo_arena kt vt demo_env = Inr (Some m, env)" "env_grows demo_env env"
    "env_v env = env_v demo_env" "env_views env = env_views demo_env" "map_inv env m" "map_abs env m = (\<lambda>_. None)"
    "unat (m_key_size m) = hpb_Map_CTypeSize kt" "unat (m_val_size m) = hpb_Map_CTypeSize vt"
    using map_new [OF ok] by blast
  have kf: "user_key env m key = hpb_map_tokey demo_env key (hpb_Map_CTypeSize kt)"
    using m(2) by (simp add: user_key_def hpb_map_tokey_def view_bytes_def env_grows_def m(7))
  have e: "env_ok demo_arena 1000 env" "env_v env < 1000"
    using demo_view_inj m(3,4) by (simp_all add: env_ok_def demo_env_def)
  have sz: "hpb_Map_Size m < 2 ^ 28"
    using map_size_card(1) [OF m(5)] m(6) by simp
  obtain m' env' where m': "hpb_Map_Insert m key val (Some demo_arena) env =
      Inr (if map_abs env m (user_key env m key) = None then MapInsertStatus_Inserted else MapInsertStatus_Replaced, m', env')"
    "map_inv env' m'" "env_ok demo_arena 1000 env'" "env_grows env env'"
    "map_abs env' m' = (map_abs env m)(user_key env m key \<mapsto> user_val (unat (m_val_size m)) val)"
    "m_key_size m' = m_key_size m" "m_val_size m' = m_val_size m"
    using map_insert [OF m(5) e ok assms(1,2) _ sz] assms(3) kf by auto
  moreover have "env_v env' < 1000"
    using m'(4) m(3) by (simp add: env_grows_def demo_env_def)
  ultimately show ?thesis
    using m(1,6-8) kf by (intro exI [of _ m] exI [of _ m'] exI [of _ env] exI [of _ env']) simp
qed

lemma singleton_map_of:
  assumes "map_of kvs = [k \<mapsto> v]" "distinct (map fst kvs)"
  shows "kvs = [(k, v)]"
proof -
  have mem: "(x, y) \<in> set kvs \<longleftrightarrow> x = k \<and> y = v" for x y
    using map_of_eq_Some_iff [OF assms(2), of x y] assms(1) by (auto split: if_splits)
  then obtain kv kvs' where kvs: "kvs = kv # kvs'"
    by (cases kvs) auto
  then have "kv = (k, v)"
    using mem [of "fst kv" "snd kv"] by (auto simp: prod_eq_iff)
  moreover have "kvs' = []"
  proof (rule ccontr)
    assume "kvs' \<noteq> []"
    then have "hd kvs' \<in> set kvs'"
      by simp
    then show False
      using kvs assms(2) mem [of "fst (hd kvs')" "snd (hd kvs')"] \<open>kv = (k, v)\<close> by force
  qed
  ultimately show ?thesis
    using kvs by simp
qed

theorem hpb_Map_iteration_witness:
  "\<exists>m m' env env'. hpb_Map_New demo_arena CType_Int32 CType_Bool demo_env = Inr (Some m, env) \<and>
    hpb_Map_Insert m ([5, 0, 0, 0] @ replicate 12 0) (1 # replicate 15 0) (Some demo_arena) env =
      Inr (MapInsertStatus_Inserted, m', env') \<and>
    map_entries env' m' kHpb_Map_Begin = Inr [([5, 0, 0, 0], [1])] \<and>
    iterator_entries env' m' kHpb_Map_Begin = Inr [([5, 0, 0, 0], [1])]"
proof -
  obtain m m' env env' where m: "hpb_Map_New demo_arena CType_Int32 CType_Bool demo_env = Inr (Some m, env)"
    "hpb_Map_Insert m ([5, 0, 0, 0] @ replicate 12 0) (1 # replicate 15 0) (Some demo_arena) env =
      Inr (MapInsertStatus_Inserted, m', env')" "map_inv env' m'" "map_abs env' m' = [[5, 0, 0, 0] \<mapsto> [1]]"
    using map_new_insert [of "[5, 0, 0, 0] @ replicate 12 0" "1 # replicate 15 0" CType_Int32 CType_Bool]
    by (auto simp: hpb_map_tokey_def HPB_MAPTYPE_STRING_def user_val_def)
  obtain kvs where "map_entries env' m' kHpb_Map_Begin = Inr kvs" "iterator_entries env' m' kHpb_Map_Begin = Inr kvs"
    "distinct (map fst kvs)" "map_of kvs = [[5, 0, 0, 0] \<mapsto> [1]]"
    using hpb_Map_iteration [OF m(3)] m(4) by auto
  moreover from this have "kvs = [([5, 0, 0, 0], [1])]"
    by (intro singleton_map_of)
  ultimately show ?thesis
    using m(1,2) by blast
qed

section \<open>Assignment through an iterator\<close>

lemma chained_set_val:
  assumes "chained m es C" "i < length es"
  shows "chained m (es[i := (es ! i)\<lparr>e_val := v\<rparr>]) C"
proof -
  let ?es = "es[i := (es ! i)\<lparr>e_val := v\<rparr>]"
  have e: "e_key (?es ! j) = e_key (es ! j)" "e_next (?es ! j) = e_next (es ! j)" for j
    using assms(2) by (cases "j = i"; simp)+
  then have "map e_key ?es = map e_key es"
    by (intro nth_equalityI) auto
  then show ?thesis
    using assms(1) unique_keys_map [of ?es es] links_cong [of _ ?es es, OF e(2)]
    by (simp add: chained_def chain_ok_def e)
qed

lemma tab_set_val:
  assumes inv: "tab_inv hash t" and i: "i < hpb_table_size t" "e_key (tab_entries t ! i) = Some k"
    and t'_def: "t' = set_ent i ((tab_entries t ! i)\<lparr>e_val := v\<rparr>) t"
  shows "tab_inv hash t'" "tab_map t' = (tab_map t)(k \<mapsto> v)"
proof -
  note f = tab_inv_facts [OF inv]
  let ?es = "(tab_entries t)[i := (tab_entries t ! i)\<lparr>e_val := v\<rparr>]"
  have key: "e_key (?es ! j) = e_key (tab_entries t ! j)" for j
    using i(1) f(1) by (cases "j = i") simp_all
  have "used ?es = used (tab_entries t)"
    using key by (simp add: used_def)
  then show inv': "tab_inv hash t'"
    using inv chained_set_val [of "main_pos hash t" "tab_entries t" _ i v] i(1) f(1)
    by (auto simp: t'_def set_ent_def tab_inv_def tab_shape_def)
  have len: "i < length (tab_entries t)"
    using i(1) f(1) by simp
  have u': "unique_keys ?es"
    using tab_inv_facts(2) [OF inv'] by (simp add: t'_def set_ent_def)
  have t: "tab_entries t' = ?es"
    by (simp add: t'_def set_ent_def)
  have "tab_map t' k' = Some w \<longleftrightarrow> ((tab_map t)(k \<mapsto> v)) k' = Some w" for k' w
  proof (cases "k' = k")
    case True
    then show ?thesis
      using len i(2) tab_map_Some [of t' k v] u' key by (auto simp: t)
  next
    case False
    then show ?thesis
      using len i(2) key tab_map_Some [of t' k' w] tab_map_Some [OF f(2), of k' w] u'
      by (auto simp: t nth_list_update)
  qed
  then show "tab_map t' = (tab_map t)(k \<mapsto> v)"
    by (intro ext) (metis option.exhaust)
qed

text \<open>
  Setting the value of the entry that an iteration is at, for values other than strings, keeps
  the invariant and changes the value of its key only.
\<close>

lemma map_set_entry_value:
  assumes inv: "map_inv env m" and vs: "m_val_size m \<noteq> 0" and nxt: "hpb_Map_Next env m iter = Inr (Some (k, v, iter'))"
    and val: "length val = 16"
  shows "\<exists>m'. hpb_Map_SetEntryValue uninit env m iter' val = Inr (m', env) \<and> map_inv env m' \<and>
    map_abs env m' = (map_abs env m)(k \<mapsto> user_val (unat (m_val_size m)) val)"
proof (cases rule: next_ent_cases [of "m_table m" iter])
  case no_more
  then show ?thesis
    using nxt by (simp add: hpb_Map_Next_def hpb_strtable_next2_def Let_def)
next
  case (found j js)
  let ?t = "m_table m" and ?vs = "unat (m_val_size m)"
  note f = tab_inv_facts [OF map_invD(3) [OF inv]]
  obtain k0 where k0: "e_key (tab_entries ?t ! j) = Some k0"
    using found(7) by blast
  then have "tab_map ?t k0 = Some (e_val (tab_entries ?t ! j))"
    using found(4) f(1) tab_map_Some [OF f(2)] by auto
  then have k: "k = k0" "iter' = of_nat j" "unat iter' = j" and tk: "tab_map ?t k \<noteq> None"
    using nxt found(2-4) k0 fromkey_own [OF inv]
    by (auto simp: hpb_Map_Next_def hpb_strtable_next2_def Let_def res_bind_Inr_iff)
  obtain w where w: "hpb_map_tovalue None val ?vs uninit env = Inr (True, w, env)" "valid_val env ?vs w"
    "val_bytes env ?vs w = user_val ?vs val"
    using tovalue_number [of ?vs val None uninit env] vs map_invD(5) [OF inv] val by (auto simp: unat_eq_0)
  let ?t' = "set_ent j ((tab_entries ?t ! j)\<lparr>e_val := w\<rparr>) ?t"
  note s = tab_set_val [OF map_invD(3) [OF inv] found(4) k0 refl, of w]
  have "tab_count ?t' = tab_count ?t" "tab_max_count ?t' = tab_max_count ?t" "tab_size_lg2 ?t' = tab_size_lg2 ?t"
    by (simp_all add: set_ent_def)
  moreover have "dom (tab_map ?t') = dom (tab_map ?t)"
    using tk k(1) s(2) by auto
  ultimately have "str_inv ?t'" "tab_size_lg2 ?t' \<noteq> 0"
    using map_invD(1,2) [OF inv] s(1) by (simp_all add: str_inv_def)
  then have "map_inv env (m\<lparr>m_table := ?t'\<rparr>)"
    using s(2) w(2) tk map_invD(7) [OF inv] k(1) by (intro map_inv_table [OF inv]) (auto split: if_splits)
  moreover have "map_abs env (m\<lparr>m_table := ?t'\<rparr>) = (map_abs env m)(k \<mapsto> user_val ?vs val)"
    using s(2) w(3) k(1) by (auto simp: map_abs_def)
  ultimately show ?thesis
    using w(1) k(3) found(4) f(1) by (simp add: hpb_Map_SetEntryValue_def hpb_strtable_setentryvalue_def)
qed

section \<open>Behaviour at the edges\<close>

definition key_copy :: "hpb_Map \<Rightarrow> map_env \<Rightarrow> nat" where
  "key_copy m env = (if m_val_size m = 0 then Suc (env_n env) else env_n env)"

lemma tovalue_n:
  "hpb_map_tovalue (Some a) val (unat (m_val_size m)) msgval env = Inr (True, v, env') \<Longrightarrow> env_n env' = key_copy m env"
  by (auto simp: hpb_map_tovalue_def key_copy_def HPB_MAPTYPE_STRING_def Let_def unat_eq_0 split: if_splits)

text \<open>
  An insertion that replaces a key removes the old entry before it allocates the copy of
  the key. When that allocation fails, the insertion reports that memory ran out and the key is no
  longer in the map; every other entry is kept.
\<close>

theorem hpb_Map_Insert_no_memory_loses_entry:
  assumes inv: "map_inv env m" and env: "env_ok a N env" "env_v env < N" and len: "length val = 16"
    and old: "map_abs env m (user_key env m key) \<noteq> None"
    and ok: "\<forall>i \<in> {env_n env ..< key_copy m env}. ar_ok a i" "\<not> ar_ok a (key_copy m env)"
  shows "\<exists>m' env'. hpb_Map_Insert m key val (Some a) env = Inr (MapInsertStatus_OutOfMemory, m', env') \<and>
    map_inv env' m' \<and> map_abs env' m' = (map_abs env m)(user_key env m key := None)"
proof -
  let ?k = "user_key env m key" and ?vs = "unat (m_val_size m)"
  have view: "ar_ok a (env_n env)" if "?vs = 0"
    using ok(1) that by (simp add: key_copy_def unat_eq_0)
  obtain v env1 where v: "hpb_map_tovalue (Some a) val ?vs 0 env = Inr (True, v, env1)" "env_grows env env1"
    using tovalue_correct [OF map_invD(5) [OF inv] len env view] by blast
  obtain t where t: "hpb_strtable_remove2 (m_table m) ?k = Inr (t, tab_map (m_table m) ?k)" "str_inv t"
    "tab_map t = (tab_map (m_table m))(?k := None)" "tab_size_lg2 t = tab_size_lg2 (m_table m)"
    using strtable_remove_map [OF map_invD(1,2) [OF inv]] by blast
  note f = tab_inv_facts [OF map_invD(3) [OF inv]] and d = tab_count_dom [OF map_invD(3) [OF inv]]
  have ti: "tab_inv strhash t"
    using t(2) by (simp add: str_inv_def)
  have "tab_count t < tab_count (m_table m)"
    using tab_count_dom(1) [OF ti] d t(3) old by (auto simp: map_abs_def intro!: psubset_card_mono)
  moreover have "tab_max_count t = tab_max_count (m_table m)"
    using ti map_invD(3) [OF inv] t(4) by (simp add: tab_inv_def tab_shape_def hpb_table_size_def)
  ultimately have "\<not> isfull t"
    using map_invD(1) [OF inv] by (simp add: isfull_def str_inv_def)
  then have "hpb_strtable_insert 2 (ar_ok a) (env_n env1) t ?k v = Inr (t, False, Suc (env_n env1))"
    using ok(2) tovalue_n [OF v(1)] by (simp add: numeral_2_eq_2)
  then have "hpb_Map_Insert m key val (Some a) env =
      Inr (MapInsertStatus_OutOfMemory, m\<lparr>m_table := t\<rparr>, env1\<lparr>env_n := Suc (env_n env1)\<rparr>)"
    using v(1) t(1) by (simp add: hpb_Map_Insert_def hpb_Map_Insert_internal_def user_key_def [symmetric])
  moreover have i: "map_inv env (m\<lparr>m_table := t\<rparr>)"
    using t(2-4) map_invD(2) [OF inv] by (intro map_inv_table [OF inv]) (auto split: if_splits)
  moreover have "map_abs env (m\<lparr>m_table := t\<rparr>) = (map_abs env m)(?k := None)"
    by (auto simp: map_abs_def t(3))
  moreover have "env_grows env (env1\<lparr>env_n := Suc (env_n env1)\<rparr>)"
    using v(2) by (simp add: env_grows_def)
  ultimately show ?thesis
    using map_frame [OF i] by auto
qed

theorem hpb_Map_Insert_no_memory_loses_entry_witness:
  "\<exists>m m' env env'. map_abs env m = [[5, 0, 0, 0] \<mapsto> [1]] \<and>
    hpb_Map_Insert m ([5, 0, 0, 0] @ replicate 12 0) (replicate 16 0) (Some (demo_arena\<lparr>ar_ok := \<lambda>_. False\<rparr>)) env =
      Inr (MapInsertStatus_OutOfMemory, m', env') \<and> map_abs env' m' = (\<lambda>_. None)"
proof -
  let ?a = "demo_arena\<lparr>ar_ok := \<lambda>_. False\<rparr>" and ?key = "[5, 0, 0, 0] @ replicate 12 0 :: byte list"
  obtain m env where m: "map_inv env m" "map_abs env m = [[5, 0, 0, 0] \<mapsto> [1]]" "env_ok demo_arena 1000 env"
    "env_v env < 1000" "unat (m_key_size m) = 4" "unat (m_val_size m) = 1"
    using map_new_insert [of ?key "1 # replicate 15 0" CType_Int32 CType_Bool]
    by (auto simp: hpb_map_tokey_def HPB_MAPTYPE_STRING_def user_val_def)
  have k: "user_key env m ?key = [5, 0, 0, 0]"
    using m(5) by (simp add: user_key_def hpb_map_tokey_def HPB_MAPTYPE_STRING_def)
  have "m_val_size m \<noteq> 0"
    using m(6) by auto
  moreover have "env_ok ?a 1000 env"
    using m(3) by (simp add: env_ok_def)
  ultimately obtain m' env' where "hpb_Map_Insert m ?key (replicate 16 0) (Some ?a) env =
      Inr (MapInsertStatus_OutOfMemory, m', env')" "map_abs env' m' = (map_abs env m)(user_key env m ?key := None)"
    using hpb_Map_Insert_no_memory_loses_entry [OF m(1) _ m(4), of ?a "replicate 16 0" ?key] k m(2)
    by (auto simp: key_copy_def)
  then show ?thesis
    using m(2) k by auto
qed

text \<open>
  A map whose table has no memory for its entries is returned as if it were usable, but the
  first access to it goes through a null pointer.
\<close>

lemma map_new_no_memory:
  assumes "ar_ok a (env_n env)" "\<not> ar_ok a (Suc (env_n env))"
  shows "\<exists>m env'. hpb_Map_New a kt vt env = Inr (Some m, env') \<and> (\<forall>key val. hpb_Map_Get env' m key val = Inl BadAccess)"
proof -
  have lg: "hpb_Log2Ceiling 5 = 3"
    by (simp add: hpb_Log2Ceiling_def builtin_clz_def) code_simp
  have "hpb_strtable_init (ar_ok a) (Suc (env_n env)) 4 = Inr (None, Suc (Suc (env_n env)))"
    using assms by (simp add: hpb_strtable_init_def lg tab_init_def table_size_of_def)
  moreover have "tab_size_lg2 (no_entries 4) \<noteq> 0" "tab_entries (no_entries 4) = []"
    by (simp_all add: no_entries_def lg init_table_def Let_def)
  then have "hpb_strtable_lookup2 (no_entries 4) k = Inl BadAccess" for k
    by (simp add: hpb_strtable_lookup2_def tab_lookup_def findentry_def ent_at_def)
  ultimately show ?thesis
    using assms by (simp add: hpb_Map_New_def hpb_Map_New_internal_def hpb_Map_Get_def hpb_Map_Get_internal_def)
qed

text \<open>
  A deletion of an absent key whose value is asked for converts the uninitialised word \<open>v\<close>: for
  string values it is used as an address.
\<close>

lemma map_delete_absent:
  assumes inv: "map_inv env m" and absent: "map_abs env m (user_key env m key) = None"
  shows "m_val_size m = 0 \<Longrightarrow> env_views env uninit = None \<Longrightarrow> hpb_Map_Delete uninit env m key True = Inl BadAccess"
    "m_val_size m \<noteq> 0 \<Longrightarrow> \<exists>m'. hpb_Map_Delete uninit env m key True =
       Inr (False, Some (take (unat (m_val_size m)) (le_bytes 8 uninit)), m')"
proof -
  let ?k = "user_key env m key"
  have "tab_map (m_table m) ?k = None"
    using absent by (simp add: map_abs_def)
  then obtain t where "hpb_strtable_remove2 (m_table m) ?k = Inr (t, None)"
    using strtable_remove_map [OF map_invD(1,2) [OF inv], of ?k] by auto
  then have d: "hpb_Map_Delete_internal env m key (unat (m_key_size m)) uninit = Inr (False, uninit, m\<lparr>m_table := t\<rparr>)"
    by (simp add: hpb_Map_Delete_internal_def user_key_def)
  show "m_val_size m = 0 \<Longrightarrow> env_views env uninit = None \<Longrightarrow> hpb_Map_Delete uninit env m key True = Inl BadAccess"
    by (simp add: hpb_Map_Delete_def d hpb_map_fromvalue_def HPB_MAPTYPE_STRING_def)
  show "m_val_size m \<noteq> 0 \<Longrightarrow> \<exists>m'. hpb_Map_Delete uninit env m key True =
       Inr (False, Some (take (unat (m_val_size m)) (le_bytes 8 uninit)), m')"
    by (simp add: hpb_Map_Delete_def d hpb_map_fromvalue_def HPB_MAPTYPE_STRING_def unat_eq_0)
qed

end
