(* ===== verification/MapSorter.thy ===== *)
theory MapSorter
  imports MapIter
begin

text \<open>
  Sorted iteration over maps and extensions (\<open>collections/map_sorter.c\<close> and
  \<open>collections/internal/map_sorter.h\<close>): a stack of pointers to entries in one growing array, of which each map
  that is being iterated owns a segment.

  A pointer in the array is the entry it points to, or \<open>None\<close> when it was not written since the array
  was reallocated.
\<close>

section \<open>Data\<close>

record hpb_Message_Extension =
  mx_ext :: hpb_MiniTableExtension
  mx_data :: "byte list"

datatype sort_entry = TabEnt "byte list hpb_tabent" | ExtEnt hpb_Message_Extension

record hpb_mapsorter =
  ms_entries :: "sort_entry option list option"
  ms_size :: int
  ms_cap :: int

record hpb_sortedmap =
  sm_start :: int
  sm_pos :: int
  sm_end :: int

definition hpb_mapsorter_init :: hpb_mapsorter where
  "hpb_mapsorter_init = \<lparr>ms_entries = None, ms_size = 0, ms_cap = 0\<rparr>"

text \<open>Whether the array is released.\<close>

definition hpb_mapsorter_destroy :: "hpb_mapsorter \<Rightarrow> bool" where
  "hpb_mapsorter_destroy s \<longleftrightarrow> ms_entries s \<noteq> None"

section \<open>Comparison\<close>

text \<open>The bytes of the key of an entry, or the number of an extension.\<close>

fun entry_key :: "sort_entry option \<Rightarrow> byte list" where
  "entry_key (Some (TabEnt e)) = (case e_key e of Some k \<Rightarrow> k | None \<Rightarrow> [])"
| "entry_key _ = []"

fun ext_number :: "sort_entry option \<Rightarrow> u32" where
  "ext_number (Some (ExtEnt x)) = f_number (ext_field (mx_ext x))"
| "ext_number _ = 0"

definition hpb_mapsorter_getkeys :: "sort_entry option \<Rightarrow> sort_entry option \<Rightarrow> nat \<Rightarrow> byte list \<times> byte list" where
  "hpb_mapsorter_getkeys a b sz =
     (if sz = HPB_MAPTYPE_STRING then (entry_key a, entry_key b) else (take sz (entry_key a), take sz (entry_key b)))"

definition hpb_mapsorter_cmpi64 :: "sort_entry option \<Rightarrow> sort_entry option \<Rightarrow> int" where
  "hpb_mapsorter_cmpi64 a b =
     (let (a_key, b_key) = hpb_mapsorter_getkeys a b 8; a = sint (le_word a_key); b = sint (le_word b_key) in
      if a < b then - 1 else if a > b then 1 else 0)"

definition hpb_mapsorter_cmpu64 :: "sort_entry option \<Rightarrow> sort_entry option \<Rightarrow> int" where
  "hpb_mapsorter_cmpu64 a b =
     (let (a_key, b_key) = hpb_mapsorter_getkeys a b 8; a = le_word a_key; b = le_word b_key in
      if a < b then - 1 else if a > b then 1 else 0)"

definition hpb_mapsorter_cmpi32 :: "sort_entry option \<Rightarrow> sort_entry option \<Rightarrow> int" where
  "hpb_mapsorter_cmpi32 a b =
     (let (a_key, b_key) = hpb_mapsorter_getkeys a b 4;
          a = sint (ucast (le_word a_key) :: u32); b = sint (ucast (le_word b_key) :: u32) in
      if a < b then - 1 else if a > b then 1 else 0)"

definition hpb_mapsorter_cmpu32 :: "sort_entry option \<Rightarrow> sort_entry option \<Rightarrow> int" where
  "hpb_mapsorter_cmpu32 a b =
     (let (a_key, b_key) = hpb_mapsorter_getkeys a b 4;
          a = (ucast (le_word a_key) :: u32); b = (ucast (le_word b_key) :: u32) in
      if a < b then - 1 else if a > b then 1 else 0)"

definition hpb_mapsorter_cmpbool :: "sort_entry option \<Rightarrow> sort_entry option \<Rightarrow> int" where
  "hpb_mapsorter_cmpbool a b =
     (let (a_key, b_key) = hpb_mapsorter_getkeys a b 1; a = (le_word a_key \<noteq> 0); b = (le_word b_key \<noteq> 0) in
      if a < b then - 1 else if a > b then 1 else 0)"

fun memcmp :: "byte list \<Rightarrow> byte list \<Rightarrow> int" where
  "memcmp (a # as) (b # bs) = (if a = b then memcmp as bs else int (unat a) - int (unat b))"
| "memcmp _ _ = 0"

definition hpb_mapsorter_cmpstr :: "sort_entry option \<Rightarrow> sort_entry option \<Rightarrow> int" where
  "hpb_mapsorter_cmpstr a b =
     (let (a, b) = hpb_mapsorter_getkeys a b HPB_MAPTYPE_STRING;
          common_size = min (length a) (length b);
          cmp = memcmp (take common_size a) (take common_size b) in
      if cmp \<noteq> 0 then - cmp else if length a < length b then - 1 else if length a > length b then 1 else 0)"

text \<open>The table of the functions, in which other types have \<open>NULL\<close>.\<close>

fun compar :: "hpb_FieldType \<Rightarrow> (sort_entry option \<Rightarrow> sort_entry option \<Rightarrow> int) option" where
  "compar FieldType_Int64 = Some hpb_mapsorter_cmpi64"
| "compar FieldType_SFixed64 = Some hpb_mapsorter_cmpi64"
| "compar FieldType_SInt64 = Some hpb_mapsorter_cmpi64"
| "compar FieldType_UInt64 = Some hpb_mapsorter_cmpu64"
| "compar FieldType_Fixed64 = Some hpb_mapsorter_cmpu64"
| "compar FieldType_Int32 = Some hpb_mapsorter_cmpi32"
| "compar FieldType_SInt32 = Some hpb_mapsorter_cmpi32"
| "compar FieldType_SFixed32 = Some hpb_mapsorter_cmpi32"
| "compar FieldType_Enum = Some hpb_mapsorter_cmpi32"
| "compar FieldType_UInt32 = Some hpb_mapsorter_cmpu32"
| "compar FieldType_Fixed32 = Some hpb_mapsorter_cmpu32"
| "compar FieldType_Bool = Some hpb_mapsorter_cmpbool"
| "compar FieldType_String = Some hpb_mapsorter_cmpstr"
| "compar FieldType_Bytes = Some hpb_mapsorter_cmpstr"
| "compar _ = None"

definition hpb_mapsorter_cmpext :: "sort_entry option \<Rightarrow> sort_entry option \<Rightarrow> int" where
  "hpb_mapsorter_cmpext a b = (if ext_number a < ext_number b then - 1 else 1)"

text \<open>
  \<open>qsort\<close> of the C library sorts by a comparison function and leaves the order of elements that
  compare equal open. The keys that are sorted here differ, so that every sort gives the same result.
\<close>

fun qsort_insert :: "('a \<Rightarrow> 'a \<Rightarrow> int) \<Rightarrow> 'a \<Rightarrow> 'a list \<Rightarrow> 'a list" where
  "qsort_insert cmp x [] = [x]"
| "qsort_insert cmp x (y # ys) = (if cmp x y \<le> 0 then x # y # ys else y # qsort_insert cmp x ys)"

definition qsort :: "('a \<Rightarrow> 'a \<Rightarrow> int) \<Rightarrow> 'a list \<Rightarrow> 'a list" where
  "qsort cmp xs = foldr (qsort_insert cmp) xs []"

definition qsort_range :: "('a \<Rightarrow> 'a \<Rightarrow> int) \<Rightarrow> nat \<Rightarrow> nat \<Rightarrow> 'a list \<Rightarrow> 'a list" where
  "qsort_range cmp start count xs = take start xs @ qsort cmp (take count (drop start xs)) @ drop (start + count) xs"

section \<open>Operations\<close>

text \<open>\<open>ok\<close> tells whether \<open>realloc\<close> succeeds. Sizes are \<open>int\<close>; the sum of two must not overflow in C.\<close>

definition hpb_mapsorter_resize :: "bool \<Rightarrow> hpb_mapsorter \<Rightarrow> int \<Rightarrow> bool \<times> hpb_mapsorter \<times> hpb_sortedmap" where
  "hpb_mapsorter_resize ok s count =
     (let start = ms_size s; srt = \<lparr>sm_start = start, sm_pos = start, sm_end = start + count\<rparr> in
      if sm_end srt > ms_cap s
      then let cap = hpb_Log2CeilingSize (sm_end srt);
               old = (case ms_entries s of Some es \<Rightarrow> es | None \<Rightarrow> []) in
        if ok
        then (True, \<lparr>ms_entries = Some (take (nat cap) old @ replicate (nat cap - length old) None),
                ms_size = sm_end srt, ms_cap = cap\<rparr>, srt)
        else (False, s\<lparr>ms_entries := None, ms_cap := cap\<rparr>, srt)
      else (True, s\<lparr>ms_size := sm_end srt\<rparr>, srt))"

definition put_entry :: "sort_entry option list option \<Rightarrow> nat \<Rightarrow> sort_entry \<Rightarrow> tab_fail + sort_entry option list option" where
  "put_entry entries dst e =
     (case entries of
        Some es \<Rightarrow> if dst < length es then Inr (Some (es[dst := Some e])) else Inl BadAccess
      | None \<Rightarrow> Inl BadAccess)"

fun copy_entries ::
  "byte list hpb_tabent list \<Rightarrow> sort_entry option list option \<Rightarrow> nat \<Rightarrow> tab_fail + (sort_entry option list option \<times> nat)" where
  "copy_entries [] entries dst = Inr (entries, dst)"
| "copy_entries (src # srcs) entries dst =
     (if \<not> hpb_tabent_isempty src
      then res_bind (put_entry entries dst (TabEnt src)) (\<lambda>entries. copy_entries srcs entries (dst + 1))
      else copy_entries srcs entries dst)"

definition hpb_mapsorter_pushmap ::
  "bool \<Rightarrow> hpb_mapsorter \<Rightarrow> hpb_FieldType \<Rightarrow> hpb_Map \<Rightarrow> tab_fail + (bool \<times> hpb_mapsorter \<times> hpb_sortedmap)" where
  "hpb_mapsorter_pushmap ok s key_type m =
     (let map_size = sint (of_nat (hpb_Map_Size_internal m) :: u32) in
      case hpb_mapsorter_resize ok s map_size of (resized, s, srt) \<Rightarrow>
        if \<not> resized then Inr (False, s, srt)
        else if length (tab_entries (m_table m)) < hpb_table_size (m_table m) then Inl BadAccess
        else res_bind (copy_entries (take (hpb_table_size (m_table m)) (tab_entries (m_table m))) (ms_entries s)
                 (nat (sm_start srt))) (\<lambda>(entries, dst).
          if int dst \<noteq> sm_end srt then Inl AssertionFailed
          else case compar key_type of
              None \<Rightarrow> Inl BadAccess
            | Some cmp \<Rightarrow>
                Inr (True, s\<lparr>ms_entries := map_option (qsort_range cmp (nat (sm_start srt)) (nat map_size)) entries\<rparr>, srt)))"

fun copy_exts ::
  "hpb_Message_Extension list \<Rightarrow> sort_entry option list option \<Rightarrow> nat \<Rightarrow> tab_fail + sort_entry option list option" where
  "copy_exts [] entries dst = Inr entries"
| "copy_exts (x # exts) entries dst =
     res_bind (put_entry entries dst (ExtEnt x)) (\<lambda>entries. copy_exts exts entries (dst + 1))"

text \<open>
  The comparison function asserts that the numbers of two extensions differ; every sort compares
  two equal ones, because they are next to each other in its result.
\<close>

definition hpb_mapsorter_pushexts ::
  "bool \<Rightarrow> hpb_mapsorter \<Rightarrow> hpb_Message_Extension list \<Rightarrow> tab_fail + (bool \<times> hpb_mapsorter \<times> hpb_sortedmap)" where
  "hpb_mapsorter_pushexts ok s exts =
     (case hpb_mapsorter_resize ok s (sint (of_nat (length exts) :: u32)) of (resized, s, srt) \<Rightarrow>
        if \<not> resized then Inr (False, s, srt)
        else res_bind (copy_exts exts (ms_entries s) (nat (sm_start srt))) (\<lambda>entries.
          if \<not> distinct (map (\<lambda>x. f_number (ext_field (mx_ext x))) exts) then Inl AssertionFailed
          else Inr (True, s\<lparr>ms_entries := map_option (qsort_range hpb_mapsorter_cmpext (nat (sm_start srt)) (length exts)) entries\<rparr>,
                 srt)))"

definition entry_at :: "hpb_mapsorter \<Rightarrow> int \<Rightarrow> tab_fail + sort_entry" where
  "entry_at s i =
     (case ms_entries s of
        None \<Rightarrow> Inl BadAccess
      | Some es \<Rightarrow> if 0 \<le> i \<and> nat i < length es
          then case es ! nat i of Some e \<Rightarrow> Inr e | None \<Rightarrow> Inl BadAccess else Inl BadAccess)"

text \<open>The key, the value and the advanced position, or \<open>None\<close> for false.\<close>

definition hpb_sortedmap_next ::
  "map_env \<Rightarrow> hpb_mapsorter \<Rightarrow> hpb_Map \<Rightarrow> hpb_sortedmap \<Rightarrow> tab_fail + (byte list \<times> byte list \<times> hpb_sortedmap) option" where
  "hpb_sortedmap_next env s m srt =
     (if sm_pos srt = sm_end srt then Inr None
      else res_bind (entry_at s (sm_pos srt)) (\<lambda>e.
        case e of
          TabEnt tabent \<Rightarrow>
            res_bind (case e_key tabent of Some k \<Rightarrow> hpb_map_fromkey k (unat (m_key_size m)) | None \<Rightarrow> Inl BadAccess) (\<lambda>k.
            res_bind (hpb_map_fromvalue env (e_val tabent) (unat (m_val_size m))) (\<lambda>v.
              Inr (Some (k, v, srt\<lparr>sm_pos := sm_pos srt + 1\<rparr>))))
        | ExtEnt _ \<Rightarrow> Inl BadAccess))"

definition hpb_sortedmap_nextext ::
  "hpb_mapsorter \<Rightarrow> hpb_sortedmap \<Rightarrow> tab_fail + (hpb_Message_Extension \<times> hpb_sortedmap) option" where
  "hpb_sortedmap_nextext s srt =
     (if sm_pos srt = sm_end srt then Inr None
      else res_bind (entry_at s (sm_pos srt)) (\<lambda>e.
        case e of ExtEnt x \<Rightarrow> Inr (Some (x, srt\<lparr>sm_pos := sm_pos srt + 1\<rparr>)) | TabEnt _ \<Rightarrow> Inl BadAccess))"

definition hpb_mapsorter_popmap :: "hpb_mapsorter \<Rightarrow> hpb_sortedmap \<Rightarrow> hpb_mapsorter" where
  "hpb_mapsorter_popmap s srt = s\<lparr>ms_size := sm_start srt\<rparr>"

section \<open>Sorting\<close>

definition sorts_to :: "('a \<Rightarrow> 'k) \<Rightarrow> ('k \<Rightarrow> 'k \<Rightarrow> bool) \<Rightarrow> 'a list \<Rightarrow> 'a list \<Rightarrow> bool" where
  "sorts_to key lt xs ys \<longleftrightarrow> set ys = set xs \<and> length ys = length xs \<and> sorted_wrt lt (map key ys)"

text \<open>A comparison function that follows a strict order of keys.\<close>

locale key_comparison =
  fixes cmp :: "'a \<Rightarrow> 'a \<Rightarrow> int"
    and key :: "'a \<Rightarrow> 'k"
    and less :: "'k \<Rightarrow> 'k \<Rightarrow> bool"
    and valid :: "'k \<Rightarrow> bool"
  assumes cmp_less: "valid (key x) \<Longrightarrow> valid (key y) \<Longrightarrow> key x \<noteq> key y \<Longrightarrow> cmp x y \<le> 0 \<longleftrightarrow> less (key x) (key y)"
    and less_trans: "less k l \<Longrightarrow> less l n \<Longrightarrow> less k n"
    and less_total: "valid k \<Longrightarrow> valid l \<Longrightarrow> k \<noteq> l \<Longrightarrow> less k l \<or> less l k"
begin

lemma set_qsort_insert: "set (qsort_insert cmp x xs) = insert x (set xs)"
  by (induction xs) auto

lemma mset_qsort_insert: "length (qsort_insert cmp x xs) = Suc (length xs)"
  by (induction xs) auto

lemma sorted_qsort_insert:
  assumes "valid (key x)" "\<forall>y \<in> set xs. valid (key y) \<and> key x \<noteq> key y" "sorted_wrt less (map key xs)"
  shows "sorted_wrt less (map key (qsort_insert cmp x xs))"
  using assms
proof (induction xs)
  case (Cons y ys)
  show ?case
  proof (cases "cmp x y \<le> 0")
    case True
    then have "less (key x) (key y)"
      using Cons.prems cmp_less [of x y] by simp
    then show ?thesis
      using True Cons.prems(3) less_trans by auto
  next
    case False
    then have "less (key y) (key x)"
      using Cons.prems(1,2) cmp_less [of x y] less_total [of "key x" "key y"] by auto
    then show ?thesis
      using False Cons by (auto simp: set_qsort_insert)
  qed
qed simp

lemma qsort_correct:
  assumes "\<forall>x \<in> set xs. valid (key x)" "distinct (map key xs)"
  shows "sorts_to key less xs (qsort cmp xs)"
  unfolding sorts_to_def using assms
proof (induction xs)
  case (Cons x xs)
  then have IH: "set (qsort cmp xs) = set xs" "length (qsort cmp xs) = length xs" "sorted_wrt less (map key (qsort cmp xs))"
    by auto
  moreover have "\<forall>y \<in> set (qsort cmp xs). valid (key y) \<and> key x \<noteq> key y"
    using Cons.prems IH(1) by force
  ultimately show ?case
    using Cons.prems(1) sorted_qsort_insert [of x "qsort cmp xs"]
    by (simp add: qsort_def set_qsort_insert mset_qsort_insert)
qed (simp add: qsort_def)

lemma qsort_by:
  assumes "\<forall>x \<in> set xs. valid (key x)" "distinct (map key xs)"
    and "\<And>k l. valid k \<Longrightarrow> valid l \<Longrightarrow> less k l \<Longrightarrow> R k l"
  shows "sorts_to key R xs (qsort cmp xs)"
proof -
  have q: "sorts_to key less xs (qsort cmp xs)"
    using assms(1,2) by (rule qsort_correct)
  then have "sorted_wrt R (map key (qsort cmp xs))"
    using assms(1,3) by (intro sorted_wrt_mono_rel [of "map key (qsort cmp xs)" less R]) (auto simp: sorts_to_def)
  then show ?thesis
    using q by (simp add: sorts_to_def)
qed

end

text \<open>
  The orders of the keys of a type. Integers are compared by value; texts byte by byte, with the
  greater byte first and a text before its continuations.
\<close>

definition text_less :: "byte list \<Rightarrow> byte list \<Rightarrow> bool" where
  "text_less a b \<longleftrightarrow> (a, b) \<in> lexord {(x, y). y < x}"

fun key_less :: "hpb_FieldType \<Rightarrow> byte list \<Rightarrow> byte list \<Rightarrow> bool" where
  "key_less FieldType_Int64 a b \<longleftrightarrow> sint (le_word a) < sint (le_word b)"
| "key_less FieldType_SFixed64 a b \<longleftrightarrow> sint (le_word a) < sint (le_word b)"
| "key_less FieldType_SInt64 a b \<longleftrightarrow> sint (le_word a) < sint (le_word b)"
| "key_less FieldType_UInt64 a b \<longleftrightarrow> le_word a < le_word b"
| "key_less FieldType_Fixed64 a b \<longleftrightarrow> le_word a < le_word b"
| "key_less FieldType_Int32 a b \<longleftrightarrow> sint (ucast (le_word a) :: u32) < sint (ucast (le_word b) :: u32)"
| "key_less FieldType_SInt32 a b \<longleftrightarrow> sint (ucast (le_word a) :: u32) < sint (ucast (le_word b) :: u32)"
| "key_less FieldType_SFixed32 a b \<longleftrightarrow> sint (ucast (le_word a) :: u32) < sint (ucast (le_word b) :: u32)"
| "key_less FieldType_Enum a b \<longleftrightarrow> sint (ucast (le_word a) :: u32) < sint (ucast (le_word b) :: u32)"
| "key_less FieldType_UInt32 a b \<longleftrightarrow> (ucast (le_word a) :: u32) < ucast (le_word b)"
| "key_less FieldType_Fixed32 a b \<longleftrightarrow> (ucast (le_word a) :: u32) < ucast (le_word b)"
| "key_less FieldType_Bool a b \<longleftrightarrow> a = [0] \<and> b = [1]"
| "key_less _ a b \<longleftrightarrow> text_less a b"

text \<open>The keys that a map with a key type has.\<close>

fun key_valid :: "hpb_FieldType \<Rightarrow> byte list \<Rightarrow> bool" where
  "key_valid FieldType_Bool k \<longleftrightarrow> k = [0] \<or> k = [1]"
| "key_valid FieldType_String k \<longleftrightarrow> True"
| "key_valid FieldType_Bytes k \<longleftrightarrow> True"
| "key_valid ft k \<longleftrightarrow> length k = hpb_Map_CTypeSize (ctype_of ft)"

lemma le_word_inj: "length a = length b \<Longrightarrow> length b \<le> 8 \<Longrightarrow> le_word a = le_word b \<longleftrightarrow> a = b"
  by (metis le_bytes_le_word)

lemma le_word32_inj:
  assumes "length a = 4" "length b = 4" "(ucast (le_word a) :: u32) = ucast (le_word b)"
  shows "a = b"
proof -
  have "le_word x = ucast (ucast (le_word x) :: u32)" if "length x = 4" for x
  proof -
    have "le_word x = take_bit 32 (le_word x)"
      using le_word_bytes [of 4 "le_word x"] le_bytes_le_word [of x] that by simp
    moreover have "take_bit 32 (le_word x) = ucast (ucast (le_word x) :: u32)"
      by (rule bit_word_eqI) (auto simp: bit_simps)
    ultimately show ?thesis
      by simp
  qed
  then have "le_word a = le_word b"
    using assms by metis
  then show ?thesis
    using assms(1,2) le_word_inj [of a b] by simp
qed

lemma sint_eq_iff:
  fixes x y :: "'a::len word"
  shows "sint x = sint y \<longleftrightarrow> x = y"
  by (auto intro: signed_word_eqI)

lemma key64_eq: "length a = 8 \<Longrightarrow> length b = 8 \<Longrightarrow> le_word a = le_word b \<longleftrightarrow> a = b"
  by (rule le_word_inj) simp_all

lemma key32_eq: "length a = 4 \<Longrightarrow> length b = 4 \<Longrightarrow> (ucast (le_word a) :: u32) = ucast (le_word b) \<longleftrightarrow> a = b"
  using le_word32_inj by blast

lemma linear_compare:
  fixes f :: "'k \<Rightarrow> 'o :: linorder"
  assumes "\<And>a b. cmp a b = (if f (key a) < f (key b) then - 1 else if f (key b) < f (key a) then 1 else 0)"
    and "\<And>a b. valid a \<Longrightarrow> valid b \<Longrightarrow> f a = f b \<longleftrightarrow> a = b"
  shows "key_comparison cmp key (\<lambda>a b. f a < f b) valid"
proof
  show "cmp x y \<le> 0 \<longleftrightarrow> f (key x) < f (key y)" if "valid (key x)" "valid (key y)" "key x \<noteq> key y" for x y
    using assms(2) [OF that(1,2)] that(3) by (simp add: assms(1))
  show "f k < f l \<or> f l < f k" if "valid k" "valid l" "k \<noteq> l" for k l
    using assms(2) [OF that(1,2)] that(3) neq_iff by blast
qed (rule less_trans)

lemmas cmp_defs = hpb_mapsorter_getkeys_def HPB_MAPTYPE_STRING_def Let_def

interpretation i64: key_comparison hpb_mapsorter_cmpi64 entry_key "\<lambda>a b. sint (le_word (take 8 a)) < sint (le_word (take 8 b))"
    "key_valid FieldType_Int64"
  by (rule linear_compare) (auto simp: hpb_mapsorter_cmpi64_def cmp_defs sint_eq_iff key64_eq)

interpretation u64: key_comparison hpb_mapsorter_cmpu64 entry_key "\<lambda>a b. le_word (take 8 a) < le_word (take 8 b)"
    "key_valid FieldType_UInt64"
  by (rule linear_compare) (auto simp: hpb_mapsorter_cmpu64_def cmp_defs key64_eq)

interpretation i32: key_comparison hpb_mapsorter_cmpi32 entry_key
    "\<lambda>a b. sint (ucast (le_word (take 4 a)) :: u32) < sint (ucast (le_word (take 4 b)) :: u32)" "key_valid FieldType_Int32"
  by (rule linear_compare) (auto simp: hpb_mapsorter_cmpi32_def cmp_defs sint_eq_iff key32_eq)

interpretation u32: key_comparison hpb_mapsorter_cmpu32 entry_key
    "\<lambda>a b. (ucast (le_word (take 4 a)) :: u32) < ucast (le_word (take 4 b))" "key_valid FieldType_UInt32"
  by (rule linear_compare) (auto simp: hpb_mapsorter_cmpu32_def cmp_defs key32_eq)

interpretation bools: key_comparison hpb_mapsorter_cmpbool entry_key "key_less FieldType_Bool" "key_valid FieldType_Bool"
  by unfold_locales (auto simp: hpb_mapsorter_cmpbool_def cmp_defs)

lemma memcmp_same_length: "length a = length b \<Longrightarrow> memcmp a b = 0 \<longleftrightarrow> a = b"
  by (induction a b rule: memcmp.induct) (auto dest: unsigned_word_eqI)

lemma memcmp_text_less:
  assumes "a \<noteq> b"
  shows "text_less a b \<longleftrightarrow> (let n = min (length a) (length b); c = memcmp (take n a) (take n b) in
    if c \<noteq> 0 then - c < 0 else length a < length b)"
  using assms
proof (induction a arbitrary: b)
  case Nil
  then show ?case
    by (cases b) (auto simp: text_less_def)
next
  case (Cons x a)
  show ?case
  proof (cases b)
    case Nil
    then show ?thesis
      by (simp add: text_less_def)
  next
    case b: (Cons y b')
    show ?thesis
    proof (cases "x = y")
      case True
      then show ?thesis
        using Cons.IH [of b'] Cons.prems b by (simp add: text_less_def Let_def)
    next
      case False
      then have "text_less (x # a) b \<longleftrightarrow> uint y < uint x" "uint x \<noteq> uint y"
        using b unsigned_word_eqI [where 'a = int, of x y] by (auto simp: text_less_def word_less_def)
      then show ?thesis
        using False b by (simp add: Let_def)
    qed
  qed
qed

lemma text_less_trans: "text_less a b \<Longrightarrow> text_less b c \<Longrightarrow> text_less a c"
  unfolding text_less_def by (rule lexord_trans) (auto intro!: transI)

lemma text_less_total: "a \<noteq> b \<Longrightarrow> text_less a b \<or> text_less b a"
  using lexord_linear [of "{(x :: byte, y). y < x}" a b] less_linear by (auto simp: text_less_def)

interpretation strings: key_comparison hpb_mapsorter_cmpstr entry_key "key_less FieldType_String" "key_valid FieldType_String"
proof
  show "hpb_mapsorter_cmpstr x y \<le> 0 \<longleftrightarrow> key_less FieldType_String (entry_key x) (entry_key y)"
    if "entry_key x \<noteq> entry_key y" for x y
    using memcmp_text_less [OF that] memcmp_same_length [of "entry_key x" "entry_key y"] that
    by (auto simp: hpb_mapsorter_cmpstr_def cmp_defs not_less split: if_splits)
qed (use text_less_trans text_less_total in auto)

interpretation exts: key_comparison hpb_mapsorter_cmpext ext_number "(<)" "\<lambda>_. True"
  by unfold_locales (auto simp: hpb_mapsorter_cmpext_def)

end
