(* ===== verification/SorterSafe.thy ===== *)
theory SorterSafe
  imports MapSorter
begin

text \<open>
  The map sorter gives the entries of a map in the order of its keys, and pushing and popping maps
  leaves the segments of the maps below as they were.
\<close>

section \<open>The array\<close>

definition sorter_list :: "hpb_mapsorter \<Rightarrow> sort_entry option list" where
  "sorter_list s = (case ms_entries s of Some es \<Rightarrow> es | None \<Rightarrow> [])"

definition sorter_ok :: "hpb_mapsorter \<Rightarrow> bool" where
  "sorter_ok s \<longleftrightarrow> 0 \<le> ms_size s \<and> ms_size s \<le> ms_cap s \<and> length (sorter_list s) = nat (ms_cap s)"

text \<open>The entries of the maps that are on the stack.\<close>

definition sorter_stack :: "hpb_mapsorter \<Rightarrow> sort_entry option list" where
  "sorter_stack s = take (nat (ms_size s)) (sorter_list s)"

lemma Log2CeilingSize_ge:
  assumes "0 < x" "x \<le> 2 ^ 31"
  shows "x \<le> hpb_Log2CeilingSize x"
proof (cases "x = 1")
  case False
  then show ?thesis
    using hpb_Log2Ceiling_least [of x] assms by (simp add: hpb_Log2CeilingSize_def)
qed (simp add: hpb_Log2CeilingSize_def)

lemma resize_correct:
  assumes s: "sorter_ok s" and count: "0 \<le> count" "ms_size s + count \<le> 2 ^ 30"
  shows "\<exists>s'. hpb_mapsorter_resize True s count =
      (True, s', \<lparr>sm_start = ms_size s, sm_pos = ms_size s, sm_end = ms_size s + count\<rparr>) \<and>
    sorter_ok s' \<and> ms_size s' = ms_size s + count \<and>
    take (nat (ms_size s)) (sorter_list s') = sorter_stack s"
proof (cases "ms_size s + count > ms_cap s")
  case True
  let ?cap = "hpb_Log2CeilingSize (ms_size s + count)"
  have cap: "ms_size s + count \<le> ?cap"
    using True s count by (intro Log2CeilingSize_ge) (simp_all add: sorter_ok_def)
  have len: "length (sorter_list s) \<le> nat ?cap" "nat (ms_size s) \<le> length (sorter_list s)"
    using s True cap by (auto simp: sorter_ok_def)
  then show ?thesis
    using True s count cap
    by (simp add: hpb_mapsorter_resize_def Let_def sorter_ok_def sorter_stack_def sorter_list_def [of s, symmetric])
      (simp add: sorter_list_def)
next
  case False
  then show ?thesis
    using s count by (simp add: hpb_mapsorter_resize_def sorter_ok_def sorter_stack_def sorter_list_def Let_def)
qed

text \<open>Writing a segment of the array.\<close>

definition put_at :: "nat \<Rightarrow> 'a list \<Rightarrow> 'a list \<Rightarrow> 'a list" where
  "put_at i ys xs = take i xs @ ys @ drop (i + length ys) xs"

lemma put_at_Nil [simp]: "put_at i [] xs = xs"
  by (simp add: put_at_def)

lemma put_at_Cons:
  assumes "i < length xs"
  shows "put_at (Suc i) ys (xs[i := y]) = put_at i (y # ys) xs"
  using assms by (simp add: put_at_def take_Suc_conv_app_nth drop_update_cancel)

lemma put_at_facts:
  assumes "i + length ys \<le> length xs"
  shows "length (put_at i ys xs) = length xs" "take i (put_at i ys xs) = take i xs"
    "take (length ys) (drop i (put_at i ys xs)) = ys"
  using assms by (simp_all add: put_at_def)

lemma copy_entries_put:
  "dst + length (filter (\<lambda>e. \<not> hpb_tabent_isempty e) srcs) \<le> length es \<Longrightarrow>
   copy_entries srcs (Some es) dst =
     Inr (Some (put_at dst (map (Some \<circ> TabEnt) (filter (\<lambda>e. \<not> hpb_tabent_isempty e) srcs)) es),
          dst + length (filter (\<lambda>e. \<not> hpb_tabent_isempty e) srcs))"
  by (induction srcs arbitrary: es dst) (auto simp: put_entry_def put_at_Cons split: if_splits)

lemma copy_entries_none:
  "filter (\<lambda>e. \<not> hpb_tabent_isempty e) srcs = [] \<Longrightarrow> copy_entries srcs es dst = Inr (es, dst)"
  by (induction srcs) (auto split: if_splits)

lemma qsort_range_put:
  assumes "i + length ys \<le> length xs"
  shows "qsort_range cmp i (length ys) (put_at i ys xs) = take i xs @ qsort cmp ys @ drop (i + length ys) xs"
  using assms by (simp add: qsort_range_def put_at_def)

section \<open>The order\<close>

lemma compar_sorts:
  assumes cmp: "compar ft = Some cmp" and xs: "\<forall>x \<in> set xs. key_valid ft (entry_key x)" "distinct (map entry_key xs)"
  shows "sorts_to entry_key (key_less ft) xs (qsort cmp xs)"
  using cmp xs
  by (cases ft)
    (auto intro!: i64.qsort_by u64.qsort_by i32.qsort_by u32.qsort_by bools.qsort_by strings.qsort_by)

section \<open>The entries of a map\<close>

definition live_entries :: "hpb_Map \<Rightarrow> byte list hpb_tabent list" where
  "live_entries m = filter (\<lambda>e. \<not> hpb_tabent_isempty e) (take (hpb_table_size (m_table m)) (tab_entries (m_table m)))"

definition ent_assoc :: "byte list hpb_tabent \<Rightarrow> byte list \<times> u64" where
  "ent_assoc e = (the (e_key e), e_val e)"

lemma filter_nth: "filter P xs = map ((!) xs) (filter (\<lambda>i. P (xs ! i)) [0..<length xs])"
proof -
  have "filter P (map ((!) xs) [0..<length xs]) = map ((!) xs) (filter (\<lambda>i. P (xs ! i)) [0..<length xs])"
    by (simp add: filter_map comp_def)
  then show ?thesis
    by (simp add: map_nth)
qed

lemma live_entries_facts:
  assumes "map_inv env m"
  shows "map ent_assoc (live_entries m) = assocs_from (m_table m) 0" "length (live_entries m) = hpb_Map_Size m"
    "distinct (map (fst \<circ> ent_assoc) (live_entries m))"
    "e \<in> set (live_entries m) \<Longrightarrow> e_key e = Some (fst (ent_assoc e)) \<and> tab_map (m_table m) (fst (ent_assoc e)) = Some (e_val e)"
proof -
  note f = tab_inv_facts [OF map_invD(3) [OF assms]]
  show as: "map ent_assoc (live_entries m) = assocs_from (m_table m) 0"
    by (subst live_entries_def, subst filter_nth)
      (simp add: f(1) assocs_from_def used_from_def assoc_at_def ent_assoc_def hpb_tabent_isempty_def)
  then show "length (live_entries m) = hpb_Map_Size m"
    using user_entries(3) [OF assms] by (metis length_map)
  have "map (fst \<circ> ent_assoc) (live_entries m) = map fst (assocs_from (m_table m) 0)"
    using as by (metis map_map)
  then show "distinct (map (fst \<circ> ent_assoc) (live_entries m))"
    using assocs_keys [OF f(1,2), of 0] by simp
  show "e_key e = Some (fst (ent_assoc e)) \<and> tab_map (m_table m) (fst (ent_assoc e)) = Some (e_val e)"
    if "e \<in> set (live_entries m)"
  proof -
    have "ent_assoc e \<in> set (assocs_from (m_table m) 0)"
      unfolding as [symmetric] using that by simp
    then show ?thesis
      using that assocs_from_mem [OF assms, of "fst (ent_assoc e)" "e_val e" 0]
      by (auto simp: live_entries_def hpb_tabent_isempty_def ent_assoc_def)
  qed
qed

section \<open>Iteration in order\<close>

function sorted_entries ::
  "map_env \<Rightarrow> hpb_mapsorter \<Rightarrow> hpb_Map \<Rightarrow> hpb_sortedmap \<Rightarrow> tab_fail + (byte list \<times> byte list) list" where
  "sorted_entries env s m srt =
     res_bind (hpb_sortedmap_next env s m srt) (\<lambda>r.
       case r of None \<Rightarrow> Inr []
       | Some (key, val, srt) \<Rightarrow> res_bind (sorted_entries env s m srt) (\<lambda>kvs. Inr ((key, val) # kvs)))"
  by pat_completeness auto
termination
  by (relation "measure (\<lambda>(env, s, m, srt). length (sorter_list s) - nat (sm_pos srt))")
    (auto simp: hpb_sortedmap_next_def entry_at_def res_bind_Inr_iff sorter_list_def
      split: if_splits option.splits sort_entry.splits)

declare sorted_entries.simps [simp del]

lemma sorted_entries_segment:
  assumes inv: "map_inv env m" and es: "ms_entries s = Some es"
  shows "set ents \<subseteq> set (live_entries m) \<Longrightarrow> 0 \<le> sm_pos srt \<Longrightarrow> sm_end srt = sm_pos srt + int (length ents) \<Longrightarrow>
    nat (sm_end srt) \<le> length es \<Longrightarrow> take (length ents) (drop (nat (sm_pos srt)) es) = map (Some \<circ> TabEnt) ents \<Longrightarrow>
    sorted_entries env s m srt = Inr (map (user_entry env m \<circ> ent_assoc) ents)"
proof (induction ents arbitrary: srt)
  case Nil
  then show ?case
    by (simp add: sorted_entries.simps [of env s m srt] hpb_sortedmap_next_def)
next
  case (Cons e ents)
  let ?p = "nat (sm_pos srt)" and ?srt = "srt\<lparr>sm_pos := sm_pos srt + 1\<rparr>"
  have p: "?p < length es" "nat (sm_pos srt + 1) = Suc ?p"
    using Cons.prems(2-4) by simp_all
  then have d: "drop ?p es = es ! ?p # drop (Suc ?p) es"
    by (simp add: Cons_nth_drop_Suc)
  then have e: "es ! ?p = Some (TabEnt e)" "take (length ents) (drop (Suc ?p) es) = map (Some \<circ> TabEnt) ents"
    using Cons.prems(5) by simp_all
  have "e \<in> set (live_entries m)"
    using Cons.prems(1) by simp
  note live = conjunct1 [OF live_entries_facts(4) [OF inv this]] conjunct2 [OF live_entries_facts(4) [OF inv this]]
  have "hpb_sortedmap_next env s m srt = Inr (Some (fst (ent_assoc e), val_bytes env (unat (m_val_size m)) (e_val e), ?srt))"
    using Cons.prems(2,3) p(1) e(1) fromkey_own [OF inv live(2)] fromvalue_val_bytes [OF map_invD(6) [OF inv live(2)]]
    by (simp add: hpb_sortedmap_next_def entry_at_def es live(1))
  moreover have "sorted_entries env s m ?srt = Inr (map (user_entry env m \<circ> ent_assoc) ents)"
    using Cons.prems p e(2) by (intro Cons.IH) simp_all
  ultimately show ?case
    by (simp add: sorted_entries.simps [of env s m srt] user_entry_def ent_assoc_def)
qed

lemma sint_count: "n \<le> 2 ^ 30 \<Longrightarrow> sint (of_nat n :: u32) = int n"
  by (simp add: signed_of_nat signed_take_bit_int_eq_self)

text \<open>Sorting the pointers to the entries of a map.\<close>

lemma qsort_live_entries:
  assumes inv: "map_inv env m" and cmp: "compar ft = Some cmp" and keys: "\<forall>k \<in> dom (map_abs env m). key_valid ft k"
  shows "\<exists>ents. qsort cmp (map (Some \<circ> TabEnt) (live_entries m)) = map (Some \<circ> TabEnt) ents \<and>
    set ents = set (live_entries m) \<and> length ents = length (live_entries m) \<and>
    sorted_wrt (key_less ft) (map (fst \<circ> ent_assoc) ents)"
proof -
  let ?xs = "map (Some \<circ> TabEnt) (live_entries m)"
  have key: "entry_key (Some (TabEnt e)) = fst (ent_assoc e)" if "e \<in> set (live_entries m)" for e
    using live_entries_facts(4) [OF inv that] by auto
  have valid: "\<forall>x \<in> set ?xs. key_valid ft (entry_key x)"
    using live_entries_facts(4) [OF inv] keys key by (force simp: map_abs_def)
  have "map entry_key ?xs = map (fst \<circ> ent_assoc) (live_entries m)"
    using key by simp
  then have q: "sorts_to entry_key (key_less ft) ?xs (qsort cmp ?xs)"
    by (intro compar_sorts [OF cmp valid]) (simp only: live_entries_facts(3) [OF inv])
  have "set (qsort cmp ?xs) \<subseteq> range (Some \<circ> TabEnt)"
    using q by (auto simp: sorts_to_def)
  then obtain ents where ents: "qsort cmp ?xs = map (Some \<circ> TabEnt) ents"
    using ex_map_conv [of "qsort cmp ?xs" "Some \<circ> TabEnt"] by blast
  have set: "set ents = set (live_entries m)"
  proof -
    have "(Some \<circ> TabEnt) ` set ents = (Some \<circ> TabEnt) ` set (live_entries m)"
      using q ents by (simp add: sorts_to_def)
    moreover have "inj (Some \<circ> TabEnt)"
      by (simp add: inj_def)
    ultimately show ?thesis
      using inj_image_eq_iff by blast
  qed
  have "map entry_key (map (Some \<circ> TabEnt) ents) = map (fst \<circ> ent_assoc) ents"
    using key set by simp
  then have "length ents = length (live_entries m)" "sorted_wrt (key_less ft) (map (fst \<circ> ent_assoc) ents)"
    using q ents by (simp_all add: sorts_to_def del: map_map)
  then show ?thesis
    using ents set by blast
qed

text \<open>Entries that are those of the map in another order are pairs of the map.\<close>

lemma reordered_entries:
  assumes inv: "map_inv env m" and ents: "set ents = set (live_entries m)" "length ents = length (live_entries m)"
  shows "map_of (map (user_entry env m \<circ> ent_assoc) ents) = map_abs env m"
proof -
  let ?kvs = "map (user_entry env m \<circ> ent_assoc)"
  have live: "?kvs (live_entries m) = map (user_entry env m) (assocs_from (m_table m) 0)"
    using live_entries_facts(1) [OF inv] by (metis map_map)
  have d: "distinct (map fst (?kvs (live_entries m)))"
    using user_entries(1) [OF inv] live by simp
  have "set (map fst (?kvs ents)) = set (map fst (?kvs (live_entries m)))" "length (map fst (?kvs ents)) = length (map fst (?kvs (live_entries m)))"
    using ents by simp_all
  then have "distinct (map fst (?kvs ents))"
    using d by (metis card_distinct distinct_card)
  then have "map_of (?kvs ents) = map_of (?kvs (live_entries m))"
    using d ents(1) map_of_inject_set [of "?kvs ents" "?kvs (live_entries m)"] by simp
  then show ?thesis
    using user_entries(2) [OF inv] live by simp
qed

text \<open>After a map was pushed its entries, in order, are the segment above the old stack.\<close>

lemma pushmap_segment:
  assumes inv: "map_inv env m" and s: "sorter_ok s" and sz: "ms_size s + int (hpb_Map_Size m) \<le> 2 ^ 30"
    and ft: "compar ft = Some cmp"
    and ents: "qsort cmp (map (Some \<circ> TabEnt) (live_entries m)) = map (Some \<circ> TabEnt) ents" "length ents = hpb_Map_Size m"
  shows "\<exists>s' es. hpb_mapsorter_pushmap True s ft m = Inr (True, s',
      \<lparr>sm_start = ms_size s, sm_pos = ms_size s, sm_end = ms_size s + int (hpb_Map_Size m)\<rparr>) \<and>
    sorter_ok s' \<and> ms_size s' = ms_size s + int (hpb_Map_Size m) \<and>
    sorter_list s' = put_at (nat (ms_size s)) (map (Some \<circ> TabEnt) ents) es \<and>
    nat (ms_size s) + length ents \<le> length es \<and> take (nat (ms_size s)) es = sorter_stack s"
proof -
  let ?n = "hpb_Map_Size m" and ?start = "nat (ms_size s)" and ?live = "live_entries m"
  let ?srt = "\<lparr>sm_start = ms_size s, sm_pos = ms_size s, sm_end = ms_size s + int ?n\<rparr>"
    and ?srcs = "take (hpb_table_size (m_table m)) (tab_entries (m_table m))"
  note f = tab_inv_facts [OF map_invD(3) [OF inv]]
  have s0: "0 \<le> ms_size s"
    using s by (simp add: sorter_ok_def)
  have n: "sint (of_nat (hpb_Map_Size_internal m) :: u32) = int ?n"
    using sz s0 sint_count [of ?n] by (simp add: hpb_Map_Size_def)
  obtain s1 where s1: "hpb_mapsorter_resize True s (int ?n) = (True, s1, ?srt)" "sorter_ok s1" "ms_size s1 = ms_size s + int ?n"
    "take ?start (sorter_list s1) = sorter_stack s"
    using resize_correct [OF s _ sz] by auto
  have live: "filter (\<lambda>e. \<not> hpb_tabent_isempty e) ?srcs = ?live" and len: "length ?live = ?n"
    using live_entries_facts(2) [OF inv] by (simp_all add: live_entries_def)
  have room: "?start + ?n \<le> length (sorter_list s1)"
    using s1(2,3) s0 by (auto simp: sorter_ok_def)
  show ?thesis
  proof (cases "ms_entries s1")
    case None
    then have e: "?live = []" "ents = []" "?n = 0"
      using room len ents(2) by (simp_all add: sorter_list_def)
    then have "copy_entries ?srcs None ?start = Inr (None, ?start)"
      using live by (intro copy_entries_none) simp
    then have "hpb_mapsorter_pushmap True s ft m = Inr (True, s1, ?srt)"
      using None s1(1) ft n f(1) e(3) s0 by (simp add: hpb_mapsorter_pushmap_def)
    then show ?thesis
      using e s1(2-4) room by (intro exI [of _ s1] exI [of _ "sorter_list s1"]) simp
  next
    case (Some es)
    then have es: "sorter_list s1 = es"
      by (simp add: sorter_list_def)
    let ?es = "put_at ?start (map (Some \<circ> TabEnt) ents) es"
    have c: "copy_entries ?srcs (Some es) ?start = Inr (Some (put_at ?start (map (Some \<circ> TabEnt) ?live) es), ?start + ?n)"
      using copy_entries_put [of ?start ?srcs es] live len room es by simp
    have "qsort_range cmp ?start ?n (put_at ?start (map (Some \<circ> TabEnt) ?live) es) = ?es"
      using qsort_range_put [of ?start "map (Some \<circ> TabEnt) ?live" es cmp] room len ents es by (simp add: put_at_def)
    then have "hpb_mapsorter_pushmap True s ft m = Inr (True, s1\<lparr>ms_entries := Some ?es\<rparr>, ?srt)"
      using Some s1(1) ft n f(1) c s0 by (simp add: hpb_mapsorter_pushmap_def)
    then show ?thesis
      using s1(2-4) es room ents(2) put_at_facts(1) [of ?start "map (Some \<circ> TabEnt) ents" es]
      by (intro exI [of _ "s1\<lparr>ms_entries := Some ?es\<rparr>"] exI [of _ es]) (simp add: sorter_ok_def sorter_list_def)
  qed
qed

text \<open>
  C18: pushing a map on the sorter succeeds when there is memory. The iteration that follows
  yields every entry of the map exactly once, strictly ordered by the keys of the type, and popping
  the map gives back the stack of entries as it was before, whatever maps were on it.
\<close>

theorem hpb_mapsorter_sorts:
  assumes inv: "map_inv env m" and s: "sorter_ok s" and sz: "ms_size s + int (hpb_Map_Size m) \<le> 2 ^ 30"
    and ft: "compar ft = Some cmp" and keys: "\<forall>k \<in> dom (map_abs env m). key_valid ft k"
  shows "\<exists>s' srt kvs. hpb_mapsorter_pushmap True s ft m = Inr (True, s', srt) \<and> sorter_ok s' \<and>
    sorted_entries env s' m srt = Inr kvs \<and> sorted_wrt (key_less ft) (map fst kvs) \<and> map_of kvs = map_abs env m \<and>
    length kvs = hpb_Map_Size m \<and>
    sorter_ok (hpb_mapsorter_popmap s' srt) \<and> sorter_stack (hpb_mapsorter_popmap s' srt) = sorter_stack s"
proof -
  let ?n = "hpb_Map_Size m" and ?start = "nat (ms_size s)"
  let ?srt = "\<lparr>sm_start = ms_size s, sm_pos = ms_size s, sm_end = ms_size s + int ?n\<rparr>"
  have s0: "0 \<le> ms_size s"
    using s by (simp add: sorter_ok_def)
  obtain ents where ents: "qsort cmp (map (Some \<circ> TabEnt) (live_entries m)) = map (Some \<circ> TabEnt) ents"
    "set ents = set (live_entries m)" "length ents = length (live_entries m)" "sorted_wrt (key_less ft) (map (fst \<circ> ent_assoc) ents)"
    using qsort_live_entries [OF inv ft keys] by blast
  have len: "length ents = ?n"
    using ents(3) live_entries_facts(2) [OF inv] by simp
  obtain s' es where s': "hpb_mapsorter_pushmap True s ft m = Inr (True, s', ?srt)" "sorter_ok s'" "ms_size s' = ms_size s + int ?n"
    "sorter_list s' = put_at ?start (map (Some \<circ> TabEnt) ents) es" "?start + length ents \<le> length es"
    "take ?start es = sorter_stack s"
    using pushmap_segment [OF inv s sz ft ents(1) len] by blast
  have p: "length (sorter_list s') = length es" "take ?start (sorter_list s') = sorter_stack s"
    "take (length ents) (drop ?start (sorter_list s')) = map (Some \<circ> TabEnt) ents"
    using put_at_facts [of ?start "map (Some \<circ> TabEnt) ents" es] s'(4-6) by simp_all
  have "sorted_entries env s' m ?srt = Inr (map (user_entry env m \<circ> ent_assoc) ents)"
  proof (cases "ms_entries s'")
    case None
    then have "ents = []"
      using s'(5) p(1) by (simp add: sorter_list_def)
    then show ?thesis
      using len sorted_entries.simps [of env s' m ?srt] by (simp add: hpb_sortedmap_next_def)
  next
    case (Some es')
    then have "es' = sorter_list s'"
      by (simp add: sorter_list_def)
    then show ?thesis
      using ents(2) len s0 s'(5) p by (intro sorted_entries_segment [OF inv Some]) (simp_all add: nat_add_distrib)
  qed
  moreover have "sorted_wrt (key_less ft) (map fst (map (user_entry env m \<circ> ent_assoc) ents))"
    using ents(4) by (simp add: user_entry_def comp_def)
  moreover have "sorter_ok (hpb_mapsorter_popmap s' ?srt)" "sorter_stack (hpb_mapsorter_popmap s' ?srt) = sorter_stack s"
    using s'(2,3) s0 p(2) by (simp_all add: sorter_ok_def hpb_mapsorter_popmap_def sorter_stack_def sorter_list_def)
  ultimately show ?thesis
    using s'(1,2) reordered_entries [OF inv ents(2,3)] len
    by (intro exI [of _ s'] exI [of _ ?srt] exI [of _ "map (user_entry env m \<circ> ent_assoc) ents"]) simp
qed

theorem hpb_mapsorter_sorts_witness:
  "\<exists>m env s srt. map_abs env m = [[5, 0, 0, 0] \<mapsto> [1]] \<and>
    hpb_mapsorter_pushmap True hpb_mapsorter_init FieldType_SInt32 m = Inr (True, s, srt) \<and>
    sorted_entries env s m srt = Inr [([5, 0, 0, 0], [1])] \<and> sorter_stack (hpb_mapsorter_popmap s srt) = []"
proof -
  let ?key = "[5, 0, 0, 0] @ replicate 12 0 :: byte list"
  obtain m env where m: "map_inv env m" "map_abs env m = [[5, 0, 0, 0] \<mapsto> [1]]"
    using map_new_insert [of ?key "1 # replicate 15 0" CType_Int32 CType_Bool]
    by (auto simp: hpb_map_tokey_def HPB_MAPTYPE_STRING_def user_val_def)
  have n: "hpb_Map_Size m = 1"
    using map_size_card(1) [OF m(1)] m(2) by simp
  have i: "sorter_ok hpb_mapsorter_init" "ms_size hpb_mapsorter_init + int (hpb_Map_Size m) \<le> 2 ^ 30"
    "sorter_stack hpb_mapsorter_init = []" "\<forall>k \<in> dom (map_abs env m). key_valid FieldType_SInt32 k"
    using n m(2) by (simp_all add: hpb_mapsorter_init_def sorter_ok_def sorter_list_def sorter_stack_def)
  obtain s srt kvs where s: "hpb_mapsorter_pushmap True hpb_mapsorter_init FieldType_SInt32 m = Inr (True, s, srt)"
    "sorted_entries env s m srt = Inr kvs" "map_of kvs = map_abs env m" "length kvs = hpb_Map_Size m"
    "sorter_stack (hpb_mapsorter_popmap s srt) = sorter_stack hpb_mapsorter_init"
    using hpb_mapsorter_sorts [OF m(1) i(1,2) _ i(4)] by auto
  have "distinct (map fst kvs)"
    using s(4) n by (cases kvs) auto
  then have "kvs = [([5, 0, 0, 0], [1])]"
    using s(3) m(2) by (intro singleton_map_of) simp_all
  then show ?thesis
    using m(2) s i(3) by auto
qed

section \<open>Extensions\<close>

function sorted_exts :: "hpb_mapsorter \<Rightarrow> hpb_sortedmap \<Rightarrow> tab_fail + hpb_Message_Extension list" where
  "sorted_exts s srt =
     res_bind (hpb_sortedmap_nextext s srt) (\<lambda>r.
       case r of None \<Rightarrow> Inr []
       | Some (x, srt) \<Rightarrow> res_bind (sorted_exts s srt) (\<lambda>xs. Inr (x # xs)))"
  by pat_completeness auto
termination
  by (relation "measure (\<lambda>(s, srt). length (sorter_list s) - nat (sm_pos srt))")
    (auto simp: hpb_sortedmap_nextext_def entry_at_def res_bind_Inr_iff sorter_list_def
      split: if_splits option.splits sort_entry.splits)

declare sorted_exts.simps [simp del]

lemma copy_exts_put:
  "dst + length exts \<le> length es \<Longrightarrow> copy_exts exts (Some es) dst = Inr (Some (put_at dst (map (Some \<circ> ExtEnt) exts) es))"
  by (induction exts arbitrary: es dst) (auto simp: put_entry_def put_at_Cons)

lemma sorted_exts_segment:
  assumes es: "ms_entries s = Some es"
  shows "0 \<le> sm_pos srt \<Longrightarrow> sm_end srt = sm_pos srt + int (length exts) \<Longrightarrow> nat (sm_end srt) \<le> length es \<Longrightarrow>
    take (length exts) (drop (nat (sm_pos srt)) es) = map (Some \<circ> ExtEnt) exts \<Longrightarrow> sorted_exts s srt = Inr exts"
proof (induction exts arbitrary: srt)
  case Nil
  then show ?case
    by (simp add: sorted_exts.simps [of s srt] hpb_sortedmap_nextext_def)
next
  case (Cons x exts)
  let ?p = "nat (sm_pos srt)" and ?srt = "srt\<lparr>sm_pos := sm_pos srt + 1\<rparr>"
  have p: "?p < length es" "nat (sm_pos srt + 1) = Suc ?p"
    using Cons.prems(1-3) by simp_all
  then have d: "drop ?p es = es ! ?p # drop (Suc ?p) es"
    by (simp add: Cons_nth_drop_Suc)
  then have x: "es ! ?p = Some (ExtEnt x)" "take (length exts) (drop (Suc ?p) es) = map (Some \<circ> ExtEnt) exts"
    using Cons.prems(4) by simp_all
  have "hpb_sortedmap_nextext s srt = Inr (Some (x, ?srt))"
    using Cons.prems(1,2) p(1) x(1) by (simp add: hpb_sortedmap_nextext_def entry_at_def es)
  moreover have "sorted_exts s ?srt = Inr exts"
    using Cons.prems p x(2) by (intro Cons.IH) simp_all
  ultimately show ?case
    by (simp add: sorted_exts.simps [of s srt])
qed

text \<open>
  Extensions with different numbers are given in the order of their numbers.
\<close>

lemma pushexts_sorts:
  assumes s: "sorter_ok s" and sz: "ms_size s + int (length exts) \<le> 2 ^ 30" and ne: "exts \<noteq> []"
    and d: "distinct (map (\<lambda>x. f_number (ext_field (mx_ext x))) exts)"
  shows "\<exists>s' srt xs. hpb_mapsorter_pushexts True s exts = Inr (True, s', srt) \<and> sorted_exts s' srt = Inr xs \<and>
    sorts_to (\<lambda>x. f_number (ext_field (mx_ext x))) (<) exts xs \<and> sorter_stack (hpb_mapsorter_popmap s' srt) = sorter_stack s"
proof -
  let ?n = "length exts" and ?start = "nat (ms_size s)" and ?f = "Some \<circ> ExtEnt"
  let ?srt = "\<lparr>sm_start = ms_size s, sm_pos = ms_size s, sm_end = ms_size s + int ?n\<rparr>"
  have s0: "0 \<le> ms_size s"
    using s by (simp add: sorter_ok_def)
  have n: "sint (of_nat ?n :: u32) = int ?n"
    using sz s0 sint_count [of ?n] by simp
  obtain s1 where s1: "hpb_mapsorter_resize True s (int ?n) = (True, s1, ?srt)" "sorter_ok s1" "ms_size s1 = ms_size s + int ?n"
    "take ?start (sorter_list s1) = sorter_stack s"
    using resize_correct [OF s _ sz] by auto
  have room: "?start + ?n \<le> length (sorter_list s1)"
    using s1(2,3) s0 by (auto simp: sorter_ok_def)
  then obtain es where es: "ms_entries s1 = Some es" "sorter_list s1 = es"
    using ne by (cases "ms_entries s1") (auto simp: sorter_list_def)
  have num: "ext_number \<circ> ?f = (\<lambda>x. f_number (ext_field (mx_ext x)))"
    by auto
  have "sorts_to ext_number (<) (map ?f exts) (qsort hpb_mapsorter_cmpext (map ?f exts))"
    using d by (intro exts.qsort_correct) (simp_all add: num)
  moreover from this have "set (qsort hpb_mapsorter_cmpext (map ?f exts)) \<subseteq> range ?f"
    by (auto simp: sorts_to_def)
  then obtain xs where xs: "qsort hpb_mapsorter_cmpext (map ?f exts) = map ?f xs"
    using ex_map_conv [of "qsort hpb_mapsorter_cmpext (map ?f exts)" ?f] by blast
  ultimately have q: "?f ` set xs = ?f ` set exts" "length xs = ?n"
      "sorted_wrt (<) (map (\<lambda>x. f_number (ext_field (mx_ext x))) xs)"
    by (simp_all add: sorts_to_def num)
  moreover have "inj ?f"
    by (simp add: inj_def)
  ultimately have sorts: "sorts_to (\<lambda>x. f_number (ext_field (mx_ext x))) (<) exts xs"
    using inj_image_eq_iff by (simp add: sorts_to_def) blast
  let ?es = "put_at ?start (map ?f xs) es"
  have "qsort_range hpb_mapsorter_cmpext ?start ?n (put_at ?start (map ?f exts) es) = ?es"
    using qsort_range_put [of ?start "map ?f exts" es hpb_mapsorter_cmpext] room es(2) xs q(2) by (simp add: put_at_def)
  then have push: "hpb_mapsorter_pushexts True s exts = Inr (True, s1\<lparr>ms_entries := Some ?es\<rparr>, ?srt)"
    using s1(1) n d copy_exts_put [of ?start exts es] room es by (simp add: hpb_mapsorter_pushexts_def)
  note p = put_at_facts [of ?start "map ?f xs" es]
  have "sorted_exts (s1\<lparr>ms_entries := Some ?es\<rparr>) ?srt = Inr xs"
    using q(2) s0 room es(2) p by (intro sorted_exts_segment [of _ ?es]) (simp_all add: nat_add_distrib)
  moreover have "sorter_stack (hpb_mapsorter_popmap (s1\<lparr>ms_entries := Some ?es\<rparr>) ?srt) = sorter_stack s"
    using s1(4) es(2) p(2) room q(2) by (simp add: hpb_mapsorter_popmap_def sorter_stack_def sorter_list_def)
  ultimately show ?thesis
    using push sorts by blast
qed

end
