(* ===== verification/WireVarint.thy ===== *)
theory WireVarint
  imports Memory Descriptor
begin

text \<open>
  Variable-length integers of the wire format: writing (\<open>encode_varint64\<close>, \<open>encode_zz32\<close> and
  \<open>encode_zz64\<close> of \<open>wire/encode.c\<close>), reading (\<open>wire/reader.h\<close>, \<open>wire/reader.c\<close> and the decoder's own
  copies in \<open>wire/decode.c\<close>), and the conversion of a varint to a field value (\<open>_hpb_Decoder_Munge\<close>).
  The read pointer is the list of the bytes that may be read; reading past its end is an error.
\<close>

section \<open>Writing\<close>

lemma unat_drop_7: "unat (drop_bit 7 val) = unat val div 128" for val :: u64
  by (simp add: unat_div drop_bit_eq_div)

lemma unat_drop_7_less: "drop_bit 7 val \<noteq> 0 \<Longrightarrow> unat (drop_bit 7 val) < unat val" for val :: u64
proof -
  assume "drop_bit 7 val \<noteq> 0"
  then have "val \<noteq> 0"
    by auto
  then show ?thesis
    by (simp add: unat_drop_7 unat_gt_0)
qed

function encode_varint64 :: "u64 \<Rightarrow> byte list" where
  "encode_varint64 val =
     (let b = ucast (val AND 127); val = drop_bit 7 val in
      if val \<noteq> 0 then (b OR 128) # encode_varint64 val else [b])"
  by pat_completeness auto
termination
  by (relation "measure unat") (simp_all add: unat_drop_7_less)

declare encode_varint64.simps [simp del]

definition encode_zz32 :: "u32 \<Rightarrow> u32" where
  "encode_zz32 n = push_bit 1 n XOR signed_drop_bit 31 n"

definition encode_zz64 :: "u64 \<Rightarrow> u64" where
  "encode_zz64 n = push_bit 1 n XOR signed_drop_bit 63 n"

section \<open>Reading\<close>

datatype wire_fail = ReadPastEnd

fun long_varint :: "nat \<Rightarrow> byte list \<Rightarrow> u64 \<Rightarrow> nat \<Rightarrow> wire_fail + (byte list \<times> u64) option" where
  "long_varint 0 ptr val i = Inr None"
| "long_varint (Suc n) ptr val i =
     (if i \<ge> length ptr then Inl ReadPastEnd
      else let b = ucast (ptr ! i); val = val + push_bit (i * 7) (b - 1) in
        if b AND 128 = 0 then Inr (Some (drop (i + 1) ptr, val)) else long_varint n ptr val (i + 1))"

definition hpb_WireReader_ReadLongVarint :: "byte list \<Rightarrow> u64 \<Rightarrow> wire_fail + (byte list \<times> u64) option" where
  "hpb_WireReader_ReadLongVarint ptr val = long_varint 9 ptr val 1"

definition hpb_WireReader_ReadVarint_max ::
  "byte list \<Rightarrow> nat \<Rightarrow> u64 \<Rightarrow> wire_fail + (byte list \<times> u64) option" where
  "hpb_WireReader_ReadVarint_max ptr maxlen maxval =
     (case ptr of [] \<Rightarrow> Inl ReadPastEnd
      | c # rest \<Rightarrow>
          let b = ucast c :: u64 in
          if b AND 128 = 0 then Inr (Some (rest, b))
          else res_bind (hpb_WireReader_ReadLongVarint ptr b) (\<lambda>res.
            case res of None \<Rightarrow> Inr None
            | Some (ptr', val) \<Rightarrow>
                if maxlen < 10 \<and> length ptr - length ptr' > maxlen \<or> val > maxval then Inr None
                else Inr (Some (ptr', val))))"

definition hpb_WireReader_ReadTag :: "byte list \<Rightarrow> wire_fail + (byte list \<times> u32) option" where
  "hpb_WireReader_ReadTag ptr =
     res_bind (hpb_WireReader_ReadVarint_max ptr 5 (mask 32)) (\<lambda>res.
       Inr (map_option (\<lambda>(ptr, val). (ptr, ucast val)) res))"

definition hpb_WireReader_GetFieldNumber :: "u32 \<Rightarrow> u32" where
  "hpb_WireReader_GetFieldNumber tag = drop_bit 3 tag"

definition hpb_WireReader_GetWireType :: "u32 \<Rightarrow> byte" where
  "hpb_WireReader_GetWireType tag = ucast (tag AND 7)"

definition hpb_WireReader_ReadVarint :: "byte list \<Rightarrow> wire_fail + (byte list \<times> u64) option" where
  "hpb_WireReader_ReadVarint ptr = hpb_WireReader_ReadVarint_max ptr 10 (- 1)"

definition hpb_WireReader_SkipVarint :: "byte list \<Rightarrow> wire_fail + byte list option" where
  "hpb_WireReader_SkipVarint ptr =
     res_bind (hpb_WireReader_ReadVarint ptr) (\<lambda>res. Inr (map_option fst res))"

definition hpb_WireReader_ReadSize :: "byte list \<Rightarrow> wire_fail + (byte list \<times> int) option" where
  "hpb_WireReader_ReadSize ptr =
     res_bind (hpb_WireReader_ReadVarint ptr) (\<lambda>res.
       case res of None \<Rightarrow> Inr None
       | Some (ptr, size64) \<Rightarrow> if size64 \<ge> 2147483647 then Inr None else Inr (Some (ptr, uint size64)))"

definition hpb_WireReader_ReadFixed32 :: "byte list \<Rightarrow> wire_fail + (byte list \<times> u32)" where
  "hpb_WireReader_ReadFixed32 ptr =
     (if length ptr < 4 then Inl ReadPastEnd else Inr (drop 4 ptr, ucast (le_word (take 4 ptr))))"

definition hpb_WireReader_ReadFixed64 :: "byte list \<Rightarrow> wire_fail + (byte list \<times> u64)" where
  "hpb_WireReader_ReadFixed64 ptr =
     (if length ptr < 8 then Inl ReadPastEnd else Inr (drop 8 ptr, le_word (take 8 ptr)))"

section \<open>Field values\<close>

text \<open>The decoder's varints; an error of the decoder is \<open>Malformed\<close>.\<close>

definition hpb_Decoder_DecodeLongVarint :: "byte list \<Rightarrow> u64 \<Rightarrow> wire_fail + (byte list \<times> u64) option" where
  "hpb_Decoder_DecodeLongVarint ptr val = long_varint 9 ptr val 1"

definition hpb_Decoder_DecodeVarint :: "byte list \<Rightarrow> wire_fail + (byte list \<times> u64) option" where
  "hpb_Decoder_DecodeVarint ptr =
     (case ptr of [] \<Rightarrow> Inl ReadPastEnd
      | c # rest \<Rightarrow>
          let b = ucast c :: u64 in
          if b AND 128 = 0 then Inr (Some (rest, b)) else hpb_Decoder_DecodeLongVarint ptr b)"

definition hpb_Decoder_DecodeTag :: "byte list \<Rightarrow> wire_fail + (byte list \<times> u32) option" where
  "hpb_Decoder_DecodeTag ptr =
     (case ptr of [] \<Rightarrow> Inl ReadPastEnd
      | c # rest \<Rightarrow>
          let b = ucast c :: u64 in
          if b AND 128 = 0 then Inr (Some (rest, ucast b))
          else res_bind (hpb_Decoder_DecodeLongVarint ptr b) (\<lambda>res.
            case res of None \<Rightarrow> Inr None
            | Some (ptr', val) \<Rightarrow>
                if length ptr - length ptr' > 5 \<or> val > mask 32 then Inr None else Inr (Some (ptr', ucast val))))"

text \<open>
  \<open>_hpb_Decoder_Munge\<close> on the eight bytes of a \<open>wireval\<close>, for a little-endian machine. Writing
  \<open>bool_val\<close> or \<open>uint32_val\<close> keeps the other bytes of the union.
\<close>

definition hpb_Decoder_Munge :: "hpb_FieldType \<Rightarrow> u64 \<Rightarrow> u64" where
  "hpb_Decoder_Munge type val =
     (case type of
        FieldType_Bool \<Rightarrow> (val AND NOT 255) OR (if val \<noteq> 0 then 1 else 0)
      | FieldType_SInt32 \<Rightarrow>
          let n = ucast val :: u32 in (val AND NOT (mask 32)) OR ucast (drop_bit 1 n XOR - (n AND 1))
      | FieldType_SInt64 \<Rightarrow> drop_bit 1 val XOR - (val AND 1)
      | _ \<Rightarrow> val)"

text \<open>
  The varint that \<open>encode_scalar\<close> writes for a field, from the value in the field's memory, and the
  number of bits of that value.
\<close>

definition scalar_varint :: "hpb_FieldType \<Rightarrow> u64 \<Rightarrow> u64" where
  "scalar_varint type val =
     (case type of
        FieldType_UInt32 \<Rightarrow> ucast (ucast val :: u32)
      | FieldType_Int32 \<Rightarrow> scast (ucast val :: u32)
      | FieldType_Enum \<Rightarrow> scast (ucast val :: u32)
      | FieldType_Bool \<Rightarrow> ucast (ucast val :: byte)
      | FieldType_SInt32 \<Rightarrow> ucast (encode_zz32 (ucast val))
      | FieldType_SInt64 \<Rightarrow> encode_zz64 val
      | _ \<Rightarrow> val)"

fun varint_bits :: "hpb_FieldType \<Rightarrow> nat option" where
  "varint_bits FieldType_Int64 = Some 64"
| "varint_bits FieldType_UInt64 = Some 64"
| "varint_bits FieldType_SInt64 = Some 64"
| "varint_bits FieldType_Int32 = Some 32"
| "varint_bits FieldType_UInt32 = Some 32"
| "varint_bits FieldType_Enum = Some 32"
| "varint_bits FieldType_SInt32 = Some 32"
| "varint_bits FieldType_Bool = Some 1"
| "varint_bits _ = None"

section \<open>The value of a varint\<close>

abbreviation continues :: "byte \<Rightarrow> bool" where
  "continues b \<equiv> b AND 128 \<noteq> 0"

fun varint_value :: "byte list \<Rightarrow> u64" where
  "varint_value [] = 0"
| "varint_value (b # bs) = ucast (b AND 127) + 128 * varint_value bs"

text \<open>The reference: the bytes up to the first that does not continue, at most ten.\<close>

definition varint_ref :: "byte list \<Rightarrow> (byte list \<times> u64) option" where
  "varint_ref bs =
     (let k = length (takeWhile continues bs) in
      if k < 10 then Some (drop (k + 1) bs, varint_value (take (k + 1) bs)) else None)"

definition tag_ref :: "byte list \<Rightarrow> (byte list \<times> u32) option" where
  "tag_ref bs =
     (case varint_ref bs of None \<Rightarrow> None
      | Some (rest, val) \<Rightarrow> if length bs - length rest > 5 \<or> val > mask 32 then None else Some (rest, ucast val))"

lemma varint_value_snoc: "varint_value (bs @ [b]) = varint_value bs + ucast (b AND 127) * 2 ^ (7 * length bs)"
  by (induction bs) (simp_all add: power_add algebra_simps)

lemma continues_bit: "continues b \<longleftrightarrow> bit b 7" for b :: byte
  using and_exp_eq_0_iff_not_bit [of b 7] by simp

lemma and_127: "w AND 127 = take_bit 7 w" for w :: "'a :: len word"
proof -
  have "127 = (mask 7 :: 'a word)"
    by (simp add: mask_eq_exp_minus_1)
  then show ?thesis
    by (simp only: take_bit_eq_mask)
qed

lemma unat_byte_split: "unat b = unat (take_bit 7 b) + 128 * of_bool (bit b 7)" for b :: byte
proof -
  have "take_bit 8 (unat b) = 2 ^ 7 * of_bool (bit (unat b) 7) + take_bit 7 (unat b)"
    using take_bit_Suc_from_most [of 7 "unat b"] by simp
  moreover have "take_bit 8 (unat b) = unat b"
    using unsigned_less [of b, where 'a = nat] by (simp add: take_bit_nat_eq_self_iff)
  ultimately show ?thesis
    by (simp add: unsigned_take_bit_eq bit_unsigned_iff)
qed

lemma byte_cases:
  "continues b \<Longrightarrow> ucast b = (ucast (b AND 127) + 128 :: u64)"
  "\<not> continues b \<Longrightarrow> ucast b = (ucast (b AND 127) :: u64)"
  "(ucast b AND 128 = (0 :: u64)) = (\<not> continues b)" for b :: byte
proof -
  have "ucast b = (of_nat (unat b) :: u64)"
    by simp
  also have "\<dots> = ucast (b AND 127) + 128 * of_bool (bit b 7)"
    unfolding and_127 by (subst unat_byte_split) simp
  finally show "continues b \<Longrightarrow> ucast b = (ucast (b AND 127) + 128 :: u64)"
    "\<not> continues b \<Longrightarrow> ucast b = (ucast (b AND 127) :: u64)"
    unfolding continues_bit by simp_all
  show "(ucast b AND 128 = (0 :: u64)) = (\<not> continues b)"
    using and_exp_eq_0_iff_not_bit [of "ucast b :: u64" 7] unfolding continues_bit by (simp add: bit_simps)
qed

lemmas DecodeVarint_defs = hpb_Decoder_DecodeVarint_def hpb_Decoder_DecodeLongVarint_def
lemmas DecodeTag_defs = hpb_Decoder_DecodeTag_def hpb_Decoder_DecodeLongVarint_def

section \<open>Reading gives the value\<close>

lemma long_varint_step:
  fixes v :: u64 and b :: byte
  assumes "v = varint_value bs + 2 ^ (7 * length bs)"
  shows "v + push_bit (length bs * 7) (ucast b - 1) =
    varint_value (bs @ [b]) + (if continues b then 2 ^ (7 * Suc (length bs)) else 0)"
proof -
  have "v + push_bit (length bs * 7) (ucast b - 1) = varint_value bs + ucast b * 2 ^ (7 * length bs)"
    unfolding assms push_bit_eq_mult by (simp add: algebra_simps)
  also have "\<dots> = varint_value (bs @ [b]) + (if continues b then 2 ^ (7 * Suc (length bs)) else 0)"
    using byte_cases(1,2) [of b] by (simp add: varint_value_snoc power_add algebra_simps)
  finally show ?thesis .
qed

lemma long_varint_correct:
  assumes "\<forall>c \<in> set cs. continues c" "\<not> continues d" "1 \<le> i" "i \<le> length cs"
    "v = varint_value (take i cs) + 2 ^ (7 * i)"
  shows "long_varint n (cs @ d # rest) v i =
    Inr (if length cs < i + n then Some (rest, varint_value (cs @ [d])) else None)"
  using assms(3-)
proof (induction n arbitrary: i v)
  case (Suc n)
  let ?ptr = "cs @ d # rest"
  show ?case
  proof (cases "i = length cs")
    case True
    have "v + push_bit (i * 7) (ucast d - 1) = varint_value (cs @ [d])"
      using long_varint_step [of v cs d] Suc.prems(3) True assms(2) by simp
    then show ?thesis
      using True byte_cases(3) [of d] assms(2) by (simp add: nth_append)
  next
    case False
    then have lt: "i < length cs" "?ptr ! i = cs ! i" "continues (cs ! i)"
      using Suc.prems(2) assms(1) by (simp_all add: nth_append)
    have len: "length (take i cs) = i"
      using lt(1) by simp
    have "take (Suc i) cs = take i cs @ [cs ! i]"
      using lt(1) by (rule take_Suc_conv_app_nth)
    then have "v + push_bit (i * 7) (ucast (cs ! i) - 1) = varint_value (take (Suc i) cs) + 2 ^ (7 * Suc i)"
      using long_varint_step [of v "take i cs" "cs ! i", unfolded len, OF Suc.prems(3)] lt(3) by simp
    then show ?thesis
      using Suc.IH [of "Suc i"] lt byte_cases(3) [of "cs ! i"] Suc.prems by (simp add: Let_def)
  qed
qed simp

lemma long_varint_endless:
  assumes "\<forall>c \<in> set (take (i + n) ptr). continues c" "i + n \<le> length ptr"
  shows "long_varint n ptr v i = Inr None"
  using assms
proof (induction n arbitrary: i v)
  case (Suc n)
  have "ptr ! i \<in> set (take (i + Suc n) ptr)"
    using Suc.prems(2) by (auto simp: in_set_conv_nth intro!: exI [of _ i])
  then have "continues (ptr ! i)"
    using Suc.prems(1) by blast
  then show ?case
    using Suc byte_cases(3) [of "ptr ! i"] by (simp add: Let_def)
qed simp

lemma Decode_eq_Read: "hpb_Decoder_DecodeVarint ptr = hpb_WireReader_ReadVarint ptr"
  by (auto simp: DecodeVarint_defs hpb_WireReader_ReadVarint_def hpb_WireReader_ReadVarint_max_def
      hpb_WireReader_ReadLongVarint_def Let_def res_bind_def split: list.split sum.split option.split)

lemma DecodeVarint_terminated:
  assumes "\<forall>c \<in> set cs. continues c" "\<not> continues d"
  shows "hpb_Decoder_DecodeVarint (cs @ d # rest) =
    Inr (if length cs < 10 then Some (rest, varint_value (cs @ [d])) else None)"
proof (cases cs)
  case Nil
  then show ?thesis
    using byte_cases(2,3) [of d] assms(2) by (simp add: DecodeVarint_defs)
next
  case (Cons c cs')
  then have c: "continues c"
    using assms(1) by simp
  then have "ucast c = varint_value (take 1 cs) + 2 ^ (7 * 1)"
    using byte_cases(1) [of c] Cons by simp
  then have "long_varint 9 (cs @ d # rest) (ucast c) 1 = Inr (if length cs < 10 then Some (rest, varint_value (cs @ [d])) else None)"
    using long_varint_correct [OF assms, of 1 "ucast c" 9 rest] Cons by simp
  then show ?thesis
    using c byte_cases(3) [of c] Cons by (simp add: DecodeVarint_defs)
qed

lemma DecodeVarint_ref:
  assumes "10 \<le> length ptr"
  shows "hpb_Decoder_DecodeVarint ptr = Inr (varint_ref ptr)"
proof (cases "\<exists>c \<in> set ptr. \<not> continues c")
  case True
  then obtain cs d rest where ptr: "ptr = cs @ d # rest" "\<forall>c \<in> set cs. continues c" "\<not> continues d"
    using split_list_first_prop [of ptr "\<lambda>c. \<not> continues c"] by blast
  then have "takeWhile continues ptr = cs"
    by (simp add: takeWhile_append)
  then show ?thesis
    using DecodeVarint_terminated [OF ptr(2,3)] by (simp add: ptr(1) varint_ref_def)
next
  case False
  then have all: "takeWhile continues ptr = ptr"
    by (simp add: takeWhile_eq_all_conv)
  obtain c rest where ptr: "ptr = c # rest"
    using assms by (cases ptr) auto
  have "continues x" if "x \<in> set (take (1 + 9) ptr)" for x
    using False in_set_takeD [OF that] by blast
  then have "long_varint 9 ptr (ucast c) 1 = Inr None"
    using assms by (intro long_varint_endless) auto
  moreover have "varint_ref ptr = None"
    using assms unfolding varint_ref_def all by simp
  ultimately show ?thesis
    using False ptr byte_cases(3) [of c] by (simp add: DecodeVarint_defs)
qed

section \<open>Writing and reading\<close>

lemma encode_varint64_split:
  "\<exists>cs d. encode_varint64 v = cs @ [d] \<and> (\<forall>c \<in> set cs. continues c) \<and> \<not> continues d \<and> varint_value (cs @ [d]) = v"
proof (induction v rule: encode_varint64.induct)
  case (1 v)
  let ?b = "ucast (v AND 127) :: byte"
  have b: "\<not> continues ?b" "continues (?b OR 128)" "ucast (?b AND 127) = v AND 127" "ucast ((?b OR 128) AND 127) = v AND 127"
    unfolding continues_bit and_127 by (auto simp: bit_simps intro!: bit_word_eqI)
  have v: "v = (v AND 127) + 128 * drop_bit 7 v"
    using bits_ident [of 7 v] by (simp add: and_127 push_bit_eq_mult add.commute mult.commute)
  show ?case
  proof (cases "drop_bit 7 v = 0")
    case True
    then have "encode_varint64 v = [] @ [?b]"
      by (simp add: encode_varint64.simps Let_def)
    then show ?thesis
      using b v True by (intro exI [of _ "[]"] exI [of _ ?b]) simp
  next
    case False
    obtain cs d where cs: "encode_varint64 (drop_bit 7 v) = cs @ [d]" "\<forall>c \<in> set cs. continues c" "\<not> continues d"
      "varint_value (cs @ [d]) = drop_bit 7 v"
      using 1 [OF refl refl False] by blast
    have "encode_varint64 v = ((?b OR 128) # cs) @ [d]"
      using False cs(1) by (subst encode_varint64.simps) (simp add: Let_def)
    moreover have "varint_value (((?b OR 128) # cs) @ [d]) = v"
      using v b(4) cs(4) by simp
    ultimately show ?thesis
      using cs(2,3) b(2) by (intro exI [of _ "(?b OR 128) # cs"] exI [of _ d]) auto
  qed
qed

lemma encode_varint64_length: "unat v < 128 ^ n \<Longrightarrow> 1 \<le> n \<Longrightarrow> length (encode_varint64 v) \<le> n"
proof (induction n arbitrary: v)
  case (Suc n)
  show ?case
  proof (cases "drop_bit 7 v = 0")
    case False
    have "0 < unat (drop_bit 7 v)"
      using False by (simp add: unat_gt_0)
    then have "1 \<le> n" "unat (drop_bit 7 v) < 128 ^ n"
      using Suc.prems(1) by (cases n; simp add: unat_drop_7 less_mult_imp_div_less mult.commute)+
    then show ?thesis
      using Suc.IH [of "drop_bit 7 v"] False by (subst encode_varint64.simps) (simp add: Let_def)
  qed (simp add: encode_varint64.simps Let_def)
qed simp

lemma encode_varint64_max: "length (encode_varint64 v) \<le> 10"
proof (rule encode_varint64_length)
  have "unat v < 2 ^ 64"
    using unsigned_less [of v, where 'a = nat] by simp
  then show "unat v < 128 ^ 10"
    by simp
qed simp

lemma Decode_encode: "hpb_Decoder_DecodeVarint (encode_varint64 v @ rest) = Inr (Some (rest, v))"
proof -
  obtain cs d where cs: "encode_varint64 v = cs @ [d]" "\<forall>c \<in> set cs. continues c" "\<not> continues d" "varint_value (cs @ [d]) = v"
    using encode_varint64_split [of v] by blast
  moreover have "length cs < 10"
    using encode_varint64_max [of v] cs(1) by simp
  ultimately show ?thesis
    using DecodeVarint_terminated [OF cs(2,3), of rest] by simp
qed

lemma Read_encode: "hpb_WireReader_ReadVarint (encode_varint64 v @ rest) = Inr (Some (rest, v))"
  using Decode_encode by (simp add: Decode_eq_Read)

lemma ReadTag_eq_DecodeTag: "hpb_WireReader_ReadTag ptr = hpb_Decoder_DecodeTag ptr"
  by (auto simp: hpb_WireReader_ReadTag_def DecodeTag_defs hpb_WireReader_ReadVarint_max_def
      hpb_WireReader_ReadLongVarint_def Let_def res_bind_def split: list.split sum.split option.split)

lemma DecodeTag_Varint:
  "hpb_Decoder_DecodeTag ptr = res_bind (hpb_Decoder_DecodeVarint ptr) (\<lambda>res.
     case res of None \<Rightarrow> Inr None
     | Some (ptr', val) \<Rightarrow> if length ptr - length ptr' > 5 \<or> val > mask 32 then Inr None else Inr (Some (ptr', ucast val)))"
proof -
  have "\<not> ucast c > (mask 32 :: u64)" for c :: byte
  proof -
    have "unat c < 256"
      using unsigned_less [of c, where 'a = nat] by simp
    then have "unat (ucast c :: u64) < 256" "unat (mask 32 :: u64) = 4294967295"
      by (simp_all add: mask_eq_exp_minus_1 unsigned_ucast_eq take_bit_eq_mod)
    then show ?thesis
      by (simp add: word_less_nat_alt)
  qed
  then show ?thesis
    by (auto simp: DecodeTag_defs DecodeVarint_defs Let_def split: list.split)
qed

lemma DecodeTag_encode: "hpb_Decoder_DecodeTag (encode_varint64 (ucast tag) @ rest) = Inr (Some (rest, tag))"
proof -
  have u: "unat (ucast tag :: u64) = unat tag" "unat tag < 2 ^ 32"
    using unsigned_less [of tag, where 'a = nat] by (simp_all add: unsigned_ucast_eq take_bit_nat_eq_self_iff)
  have "length (encode_varint64 (ucast tag)) \<le> 5"
    using u by (intro encode_varint64_length) simp_all
  moreover have "\<not> ucast tag > (mask 32 :: u64)"
    using u by (simp add: word_less_nat_alt mask_eq_exp_minus_1)
  moreover have "ucast (ucast tag :: u64) = tag"
    by (rule bit_word_eqI) (auto simp: bit_simps)
  ultimately show ?thesis
    by (simp add: DecodeTag_Varint Decode_encode)
qed

section \<open>Zigzag\<close>

lemma zigzag:
  fixes n :: "'a :: len word"
  assumes z: "z = push_bit 1 n XOR signed_drop_bit (LENGTH('a) - 1) n"
  shows "drop_bit 1 z XOR - (z AND 1) = n"
proof -
  let ?s = "bit n (LENGTH('a) - 1)"
  have sh: "signed_drop_bit (LENGTH('a) - 1) n = (if ?s then - 1 else 0)"
  proof (rule bit_word_eqI)
    fix k
    assume "k < LENGTH('a)"
    then show "bit (signed_drop_bit (LENGTH('a) - 1) n) k = bit (if ?s then - 1 else 0 :: 'a word) k"
      by (cases k) (auto simp: bit_simps)
  qed
  have "z AND 1 = (if ?s then 1 else 0)"
    unfolding z sh by (rule bit_word_eqI) (auto simp: bit_simps bit_double_iff mult.commute [of n 2])
  then have "drop_bit 1 z XOR - (z AND 1) = drop_bit 1 z XOR (if ?s then - 1 else 0)"
    by simp
  also have "\<dots> = n"
    unfolding z sh
  proof (rule bit_word_eqI)
    fix k
    assume "k < LENGTH('a)"
    then have "Suc k < LENGTH('a) \<or> k = LENGTH('a) - 1"
      by auto
    then show "bit (drop_bit 1 (push_bit 1 n XOR (if ?s then - 1 else 0)) XOR (if ?s then - 1 else 0)) k = bit n k"
      using \<open>k < LENGTH('a)\<close> by (auto simp: bit_simps bit_double_iff mult.commute [of n 2])
  qed
  finally show ?thesis .
qed

lemma Munge_scalar_32:
  fixes val :: u64
  assumes "take_bit 32 val = val"
  shows "take_bit 32 (hpb_Decoder_Munge FieldType_SInt32 (scalar_varint FieldType_SInt32 val)) = val"
    "take_bit 32 (scalar_varint FieldType_Int32 val) = val" "scalar_varint FieldType_UInt32 val = val"
proof -
  have val: "ucast (ucast val :: u32) = val"
  proof -
    have "ucast (ucast val :: u32) = take_bit 32 val"
      by (rule bit_word_eqI) (auto simp: bit_simps)
    then show ?thesis
      using assms by simp
  qed
  show "scalar_varint FieldType_UInt32 val = val"
    using val by (simp add: scalar_varint_def)
  have "take_bit 32 (scast (ucast val :: u32)) = (ucast (ucast val :: u32) :: u64)"
    by (rule bit_word_eqI) (auto simp: bit_simps)
  then show "take_bit 32 (scalar_varint FieldType_Int32 val) = val"
    using val by (simp add: scalar_varint_def)
  let ?z = "encode_zz32 (ucast val)"
  have z: "ucast (ucast ?z :: u64) = ?z"
    by (rule bit_word_eqI) (auto simp: bit_simps)
  have dec: "drop_bit 1 ?z XOR - (?z AND 1) = ucast val"
    by (rule zigzag) (simp add: encode_zz32_def)
  have low: "take_bit 32 ((w AND NOT (mask 32)) OR ucast x) = ucast x" for w :: u64 and x :: u32
    by (rule bit_word_eqI) (auto simp: bit_simps dest: bit_imp_le_length)
  show "take_bit 32 (hpb_Decoder_Munge FieldType_SInt32 (scalar_varint FieldType_SInt32 val)) = val"
    unfolding hpb_Decoder_Munge_def scalar_varint_def by (simp only: hpb_FieldType.case Let_def z dec low) (rule val)
qed

lemma Munge_scalar_1:
  fixes val :: u64
  assumes "take_bit 1 val = val"
  shows "take_bit 1 (hpb_Decoder_Munge FieldType_Bool (scalar_varint FieldType_Bool val)) = val"
proof -
  have "val = 0 \<or> val = 1"
  proof -
    have "val = of_bool (odd val)"
      using assms by (metis mod_2_eq_odd power_one_right take_bit_eq_mod)
    then show ?thesis
      by (cases "odd val") auto
  qed
  then show ?thesis
    by (auto simp: hpb_Decoder_Munge_def scalar_varint_def)
qed

lemma Munge_scalar:
  assumes "varint_bits type = Some k" "take_bit k val = val"
  shows "take_bit k (hpb_Decoder_Munge type (scalar_varint type val)) = val"
proof -
  have "hpb_Decoder_Munge FieldType_SInt64 (scalar_varint FieldType_SInt64 val) = val"
    unfolding hpb_Decoder_Munge_def scalar_varint_def
    by (simp only: hpb_FieldType.case) (rule zigzag, simp add: encode_zz64_def)
  moreover have "take_bit 64 w = w" for w :: u64
    by (rule bit_word_eqI) (auto simp: bit_simps)
  ultimately show ?thesis
    using assms Munge_scalar_32 Munge_scalar_1
    by (cases type) (simp_all add: hpb_Decoder_Munge_def scalar_varint_def)
qed

section \<open>Theorem\<close>

text \<open>
  C26: with the ten bytes they require, the reader of the public header and the decoder's own reader
  both give the value of the bytes up to the first that has no continuation bit, and both report an
  error exactly when there are more than ten; their tag readers both accept exactly the varints
  of at most five bytes whose value fits in 32 bits. No byte after those that are given is read.
\<close>

theorem hpb_varint_readers_reference:
  assumes "10 \<le> length ptr"
  shows "hpb_WireReader_ReadVarint ptr = Inr (varint_ref ptr) \<and> hpb_Decoder_DecodeVarint ptr = Inr (varint_ref ptr) \<and>
    hpb_WireReader_ReadTag ptr = Inr (tag_ref ptr) \<and> hpb_Decoder_DecodeTag ptr = Inr (tag_ref ptr)"
proof -
  note ref = DecodeVarint_ref [OF assms]
  have "hpb_Decoder_DecodeTag ptr = Inr (tag_ref ptr)"
    by (auto simp: DecodeTag_Varint ref tag_ref_def split: option.split)
  then show ?thesis
    using ref by (simp add: Decode_eq_Read ReadTag_eq_DecodeTag)
qed

theorem hpb_varint_readers_reference_witness:
  "hpb_Decoder_DecodeVarint [172, 2, 7, 0, 0, 0, 0, 0, 0, 0] = Inr (Some ([7, 0, 0, 0, 0, 0, 0, 0], 300))"
proof -
  have "varint_ref [172, 2, 7, 0, 0, 0, 0, 0, 0, 0] = Some ([7, 0, 0, 0, 0, 0, 0, 0], 300)"
    by (simp add: varint_ref_def Let_def)
  then show ?thesis
    using hpb_varint_readers_reference [of "[172, 2, 7, 0, 0, 0, 0, 0, 0, 0]"] by simp
qed

end
