(* ===== verification/Encoder.thy ===== *)
theory Encoder
  imports ArraySafe WireVarint
begin

text \<open>
  The output buffer of the encoder and the fields it writes (\<open>wire/encode.c\<close>). The encoder writes
  backwards: the bytes written so far are those from \<open>ptr\<close> to \<open>limit\<close>, and a buffer that is full
  moves to a larger allocation of the arena. A jump to the error handler is a value \<open>EncErr\<close> with
  the status and the memory. The function that writes a sub-message, \<open>encode_message\<close>, is an
  argument of the functions that call it.
\<close>

section \<open>State\<close>

datatype hpb_EncodeStatus =
    EncodeStatus_Ok | EncodeStatus_OutOfMemory | EncodeStatus_MaxDepthExceeded | EncodeStatus_MissingRequired

record hpb_encstate =
  enc_arena :: u64
  enc_buf :: u64
  enc_ptr :: u64
  enc_limit :: u64
  enc_options :: u32
  enc_depth :: int

datatype enc_fail = EncMem mem_fail | EncErr hpb_EncodeStatus heap

type_synonym enc_result = "enc_fail + (hpb_encstate \<times> heap)"

fun enc_mem :: "mem_fail + 'a \<Rightarrow> enc_fail + 'a" where
  "enc_mem (Inl f) = Inl (EncMem f)"
| "enc_mem (Inr x) = Inr x"

section \<open>The buffer\<close>

text \<open>Doubling 64 times gives zero, after which the loop does not end.\<close>

fun roundup_loop :: "nat \<Rightarrow> u64 \<Rightarrow> u64 \<Rightarrow> mem_fail + u64" where
  "roundup_loop 0 ret bytes = Inl EndlessLoop"
| "roundup_loop (Suc n) ret bytes = (if ret < bytes then roundup_loop n (ret * 2) bytes else Inr ret)"

definition hpb_roundup_pow2 :: "u64 \<Rightarrow> mem_fail + u64" where
  "hpb_roundup_pow2 bytes = roundup_loop 65 128 bytes"

definition encode_growbuffer :: "allocator \<Rightarrow> u64 \<Rightarrow> hpb_encstate \<Rightarrow> heap \<Rightarrow> enc_result" where
  "encode_growbuffer mall bytes e h =
     (let old_size = enc_limit e - enc_buf e in
      res_bind (enc_mem (hpb_roundup_pow2 (bytes + (enc_limit e - enc_ptr e)))) (\<lambda>new_size.
      res_bind (enc_mem (hpb_Arena_Realloc mall (enc_arena e) (enc_buf e) old_size new_size h)) (\<lambda>(new_buf, h).
      if new_buf = 0 then Inl (EncErr EncodeStatus_OutOfMemory h)
      else let h = (if old_size > 0 then mem_copy (new_buf + new_size - old_size) (enc_buf e) old_size h else h);
               e = e\<lparr>enc_ptr := new_buf + new_size - (enc_limit e - enc_ptr e)\<rparr>;
               e = e\<lparr>enc_limit := new_buf + new_size, enc_buf := new_buf\<rparr>
           in Inr (e\<lparr>enc_ptr := enc_ptr e - bytes\<rparr>, h))))"

definition encode_reserve :: "allocator \<Rightarrow> u64 \<Rightarrow> hpb_encstate \<Rightarrow> heap \<Rightarrow> enc_result" where
  "encode_reserve mall bytes e h =
     (if enc_ptr e - enc_buf e < bytes then encode_growbuffer mall bytes e h
      else Inr (e\<lparr>enc_ptr := enc_ptr e - bytes\<rparr>, h))"

text \<open>The data is in memory or in a variable of the caller.\<close>

datatype c_data = AtAddress u64 | InVariable "byte list"

fun data_bytes :: "c_data \<Rightarrow> nat \<Rightarrow> heap \<Rightarrow> byte list" where
  "data_bytes (AtAddress p) n h = mem_read h p n"
| "data_bytes (InVariable bs) n h = take n bs"

definition encode_bytes :: "allocator \<Rightarrow> c_data \<Rightarrow> u64 \<Rightarrow> hpb_encstate \<Rightarrow> heap \<Rightarrow> enc_result" where
  "encode_bytes mall data len e h =
     (if len = 0 then Inr (e, h)
      else res_bind (encode_reserve mall len e h) (\<lambda>(e, h).
        Inr (e, mem_write (enc_ptr e) (data_bytes data (unat len) h) h)))"

definition encode_fixed64 :: "allocator \<Rightarrow> u64 \<Rightarrow> hpb_encstate \<Rightarrow> heap \<Rightarrow> enc_result" where
  "encode_fixed64 mall val = encode_bytes mall (InVariable (le_bytes 8 val)) 8"

definition encode_fixed32 :: "allocator \<Rightarrow> u32 \<Rightarrow> hpb_encstate \<Rightarrow> heap \<Rightarrow> enc_result" where
  "encode_fixed32 mall val = encode_bytes mall (InVariable (le_bytes 4 (ucast val))) 4"

definition encode_longvarint :: "allocator \<Rightarrow> u64 \<Rightarrow> hpb_encstate \<Rightarrow> heap \<Rightarrow> enc_result" where
  "encode_longvarint mall val e h =
     res_bind (encode_reserve mall 10 e h) (\<lambda>(e, h).
       let h = mem_write (enc_ptr e) (encode_varint64 val) h;
           len = of_nat (length (encode_varint64 val));
           start = enc_ptr e + 10 - len;
           h = mem_copy start (enc_ptr e) len h
       in Inr (e\<lparr>enc_ptr := start\<rparr>, h))"

definition encode_varint :: "allocator \<Rightarrow> u64 \<Rightarrow> hpb_encstate \<Rightarrow> heap \<Rightarrow> enc_result" where
  "encode_varint mall val e h =
     (if val < 128 \<and> enc_ptr e \<noteq> enc_buf e
      then let e = e\<lparr>enc_ptr := enc_ptr e - 1\<rparr> in Inr (e, mem_write (enc_ptr e) [ucast val] h)
      else encode_longvarint mall val e h)"

text \<open>A \<open>double\<close> or \<open>float\<close> is its bits.\<close>

definition encode_double :: "allocator \<Rightarrow> u64 \<Rightarrow> hpb_encstate \<Rightarrow> heap \<Rightarrow> enc_result" where
  "encode_double mall d = encode_fixed64 mall d"

definition encode_float :: "allocator \<Rightarrow> u32 \<Rightarrow> hpb_encstate \<Rightarrow> heap \<Rightarrow> enc_result" where
  "encode_float mall d = encode_fixed32 mall d"

datatype hpb_WireType =
    WireType_Varint | WireType_64Bit | WireType_Delimited | WireType_StartGroup | WireType_EndGroup | WireType_32Bit

fun kHpb_WireType :: "hpb_WireType \<Rightarrow> u32" where
  "kHpb_WireType WireType_Varint = 0"
| "kHpb_WireType WireType_64Bit = 1"
| "kHpb_WireType WireType_Delimited = 2"
| "kHpb_WireType WireType_StartGroup = 3"
| "kHpb_WireType WireType_EndGroup = 4"
| "kHpb_WireType WireType_32Bit = 5"

definition wire_tag :: "u32 \<Rightarrow> hpb_WireType \<Rightarrow> u32" where
  "wire_tag field_number wire_type = push_bit 3 field_number OR kHpb_WireType wire_type"

definition encode_tag :: "allocator \<Rightarrow> u32 \<Rightarrow> hpb_WireType \<Rightarrow> hpb_encstate \<Rightarrow> heap \<Rightarrow> enc_result" where
  "encode_tag mall field_number wire_type = encode_varint mall (ucast (wire_tag field_number wire_type))"

section \<open>Fields\<close>

definition load32 :: "heap \<Rightarrow> u64 \<Rightarrow> u32" where
  "load32 h p = ucast (le_word (mem_read h p 4))"

text \<open>The loop runs once for each element, from the last to the first.\<close>

fun fixedarray_loop :: "nat \<Rightarrow> allocator \<Rightarrow> u64 \<Rightarrow> u64 \<Rightarrow> u32 \<Rightarrow> u64 \<Rightarrow> hpb_encstate \<Rightarrow> heap \<Rightarrow> enc_result" where
  "fixedarray_loop 0 mall data elem_size tag ptr e h = Inl (EncMem EndlessLoop)"
| "fixedarray_loop (Suc n) mall data elem_size tag ptr e h =
     res_bind
       (if elem_size = 4 then encode_bytes mall (InVariable (le_bytes 4 (ucast (load32 h ptr)))) elem_size e h
        else if elem_size \<noteq> 8 then Inl (EncMem FailedAssert)
        else encode_bytes mall (InVariable (le_bytes 8 (load64 h ptr))) elem_size e h) (\<lambda>(e, h).
     res_bind (if tag \<noteq> 0 then encode_varint mall (ucast tag) e h else Inr (e, h)) (\<lambda>(e, h).
     if ptr = data then Inr (e, h) else fixedarray_loop n mall data elem_size tag (ptr - elem_size) e h))"

definition encode_fixedarray :: "allocator \<Rightarrow> u64 \<Rightarrow> u64 \<Rightarrow> u32 \<Rightarrow> hpb_encstate \<Rightarrow> heap \<Rightarrow> enc_result" where
  "encode_fixedarray mall arr elem_size tag e h =
     (let bytes = Array_size h arr * elem_size in
      res_bind (enc_mem (hpb_array_constptr h arr)) (\<lambda>data.
        let ptr = data + bytes - elem_size in
        if tag \<noteq> 0 then fixedarray_loop (unat (Array_size h arr)) mall data elem_size tag ptr e h
        else encode_bytes mall (AtAddress data) bytes e h))"

text \<open>The sub-message table of a field; \<open>None\<close> is the empty table.\<close>

definition sub_message :: "hpb_MiniTableSub list \<Rightarrow> hpb_MiniTableField \<Rightarrow> mem_fail + nat option" where
  "sub_message subs f =
     (if unat (submsg_index f) < length subs
      then case subs ! unat (submsg_index f) of SubMsg m \<Rightarrow> Inr m | SubEnum _ \<Rightarrow> Inl InvalidAccess
      else Inl InvalidAccess)"

definition hpb_TaggedMessagePtr_IsEmpty :: "u64 \<Rightarrow> bool" where
  "hpb_TaggedMessagePtr_IsEmpty ptr \<longleftrightarrow> ptr AND 1 \<noteq> 0"

definition hpb_TaggedMessagePtr_GetMessage :: "u64 \<Rightarrow> u64" where
  "hpb_TaggedMessagePtr_GetMessage ptr = ptr AND NOT 1"

type_synonym message_encoder = "u64 \<Rightarrow> nat option \<Rightarrow> hpb_encstate \<Rightarrow> heap \<Rightarrow> enc_fail + (u64 \<times> hpb_encstate \<times> heap)"

definition encode_TaggedMessagePtr :: "message_encoder \<Rightarrow> u64 \<Rightarrow> nat option \<Rightarrow> hpb_encstate \<Rightarrow> heap \<Rightarrow> enc_fail + (u64 \<times> hpb_encstate \<times> heap)" where
  "encode_TaggedMessagePtr encode_message tagged m =
     (let m = (if hpb_TaggedMessagePtr_IsEmpty tagged then None else m)
      in encode_message (hpb_TaggedMessagePtr_GetMessage tagged) m)"

definition enter_message :: "hpb_encstate \<Rightarrow> heap \<Rightarrow> enc_result" where
  "enter_message e h =
     (let e = e\<lparr>enc_depth := enc_depth e - 1\<rparr> in
      if enc_depth e = 0 then Inl (EncErr EncodeStatus_MaxDepthExceeded h) else Inr (e, h))"

definition leave_message :: "hpb_encstate \<Rightarrow> hpb_encstate" where
  "leave_message e = e\<lparr>enc_depth := enc_depth e + 1\<rparr>"

text \<open>The value in the memory of a varint field, as \<open>ctype val = *(ctype*)field_mem\<close> reads it.\<close>

definition load_varint :: "hpb_FieldType \<Rightarrow> heap \<Rightarrow> u64 \<Rightarrow> u64" where
  "load_varint type h p =
     (case type of
        FieldType_Bool \<Rightarrow> ucast (h_mem h p)
      | FieldType_UInt32 \<Rightarrow> ucast (load32 h p)
      | FieldType_Int32 \<Rightarrow> ucast (load32 h p)
      | FieldType_Enum \<Rightarrow> ucast (load32 h p)
      | FieldType_SInt32 \<Rightarrow> ucast (load32 h p)
      | _ \<Rightarrow> load64 h p)"

text \<open>The cases of \<open>encode_scalar\<close>: the wire type for the tag, or nothing when no tag is written.\<close>

definition scalar_case ::
  "allocator \<Rightarrow> message_encoder \<Rightarrow> u64 \<Rightarrow> hpb_MiniTableSub list \<Rightarrow> hpb_MiniTableField \<Rightarrow> hpb_encstate \<Rightarrow> heap \<Rightarrow>
   enc_fail + (hpb_WireType option \<times> hpb_encstate \<times> heap)" where
  "scalar_case mall encode_message field_mem subs f e h =
     (let with = (\<lambda>wire_type r. res_bind r (\<lambda>(e, h). Inr (Some wire_type, e, h))) in
      case descriptortype f of
        FieldType_Double \<Rightarrow> with WireType_64Bit (encode_double mall (load64 h field_mem) e h)
      | FieldType_Float \<Rightarrow> with WireType_32Bit (encode_float mall (load32 h field_mem) e h)
      | FieldType_SFixed64 \<Rightarrow> with WireType_64Bit (encode_fixed64 mall (load64 h field_mem) e h)
      | FieldType_Fixed64 \<Rightarrow> with WireType_64Bit (encode_fixed64 mall (load64 h field_mem) e h)
      | FieldType_Fixed32 \<Rightarrow> with WireType_32Bit (encode_fixed32 mall (load32 h field_mem) e h)
      | FieldType_SFixed32 \<Rightarrow> with WireType_32Bit (encode_fixed32 mall (load32 h field_mem) e h)
      | FieldType_String \<Rightarrow> with WireType_Delimited (
          let data = load64 h field_mem; len = load64 h (field_mem + 8) in
          res_bind (encode_bytes mall (AtAddress data) len e h) (\<lambda>(e, h). encode_varint mall len e h))
      | FieldType_Bytes \<Rightarrow> with WireType_Delimited (
          let data = load64 h field_mem; len = load64 h (field_mem + 8) in
          res_bind (encode_bytes mall (AtAddress data) len e h) (\<lambda>(e, h). encode_varint mall len e h))
      | FieldType_Group \<Rightarrow>
          let submsg = load64 h field_mem in
          res_bind (enc_mem (sub_message subs f)) (\<lambda>subm.
          if submsg = 0 then Inr (None, e, h)
          else res_bind (enter_message e h) (\<lambda>(e, h).
            res_bind (encode_tag mall (f_number f) WireType_EndGroup e h) (\<lambda>(e, h).
            res_bind (encode_TaggedMessagePtr encode_message submsg subm e h) (\<lambda>(_, e, h).
            Inr (Some WireType_StartGroup, leave_message e, h)))))
      | FieldType_Message \<Rightarrow>
          let submsg = load64 h field_mem in
          res_bind (enc_mem (sub_message subs f)) (\<lambda>subm.
          if submsg = 0 then Inr (None, e, h)
          else res_bind (enter_message e h) (\<lambda>(e, h).
            res_bind (encode_TaggedMessagePtr encode_message submsg subm e h) (\<lambda>(len, e, h).
            res_bind (encode_varint mall len e h) (\<lambda>(e, h).
            Inr (Some WireType_Delimited, leave_message e, h)))))
      | type \<Rightarrow> with WireType_Varint (encode_varint mall (scalar_varint type (load_varint type h field_mem)) e h))"

definition encode_scalar ::
  "allocator \<Rightarrow> message_encoder \<Rightarrow> u64 \<Rightarrow> hpb_MiniTableSub list \<Rightarrow> hpb_MiniTableField \<Rightarrow> hpb_encstate \<Rightarrow> heap \<Rightarrow> enc_result" where
  "encode_scalar mall encode_message field_mem subs f e h =
     res_bind (scalar_case mall encode_message field_mem subs f e h) (\<lambda>(wire_type, e, h).
       case wire_type of None \<Rightarrow> Inr (e, h) | Some wire_type \<Rightarrow> encode_tag mall (f_number f) wire_type e h)"

section \<open>Repeated fields\<close>

text \<open>\<open>do { ptr--; body } while (ptr != start)\<close>; the fuel is the number of elements.\<close>

fun do_back :: "nat \<Rightarrow> u64 \<Rightarrow> u64 \<Rightarrow> (u64 \<Rightarrow> hpb_encstate \<Rightarrow> heap \<Rightarrow> enc_result) \<Rightarrow> u64 \<Rightarrow> hpb_encstate \<Rightarrow> heap \<Rightarrow> enc_result" where
  "do_back 0 step start body ptr e h = Inl (EncMem EndlessLoop)"
| "do_back (Suc n) step start body ptr e h =
     (let ptr = ptr - step in
      res_bind (body ptr e h) (\<lambda>(e, h). if ptr \<noteq> start then do_back n step start body ptr e h else Inr (e, h)))"

definition varint_elem :: "allocator \<Rightarrow> hpb_FieldType \<Rightarrow> u32 \<Rightarrow> u64 \<Rightarrow> hpb_encstate \<Rightarrow> heap \<Rightarrow> enc_result" where
  "varint_elem mall type tag ptr e h =
     res_bind (encode_varint mall (scalar_varint type (load_varint type h ptr)) e h) (\<lambda>(e, h).
       if tag \<noteq> 0 then encode_varint mall (ucast tag) e h else Inr (e, h))"

definition string_elem :: "allocator \<Rightarrow> u32 \<Rightarrow> u64 \<Rightarrow> hpb_encstate \<Rightarrow> heap \<Rightarrow> enc_result" where
  "string_elem mall number ptr e h =
     (let data = load64 h ptr; len = load64 h (ptr + 8) in
      res_bind (encode_bytes mall (AtAddress data) len e h) (\<lambda>(e, h).
      res_bind (encode_varint mall len e h) (\<lambda>(e, h).
      encode_tag mall number WireType_Delimited e h)))"

definition group_elem :: "allocator \<Rightarrow> message_encoder \<Rightarrow> u32 \<Rightarrow> nat option \<Rightarrow> u64 \<Rightarrow> hpb_encstate \<Rightarrow> heap \<Rightarrow> enc_result" where
  "group_elem mall encode_message number subm ptr e h =
     res_bind (encode_tag mall number WireType_EndGroup e h) (\<lambda>(e, h).
     res_bind (encode_TaggedMessagePtr encode_message (load64 h ptr) subm e h) (\<lambda>(_, e, h).
     encode_tag mall number WireType_StartGroup e h))"

definition message_elem :: "allocator \<Rightarrow> message_encoder \<Rightarrow> u32 \<Rightarrow> nat option \<Rightarrow> u64 \<Rightarrow> hpb_encstate \<Rightarrow> heap \<Rightarrow> enc_result" where
  "message_elem mall encode_message number subm ptr e h =
     res_bind (encode_TaggedMessagePtr encode_message (load64 h ptr) subm e h) (\<lambda>(len, e, h).
     res_bind (encode_varint mall len e h) (\<lambda>(e, h).
     encode_tag mall number WireType_Delimited e h))"

text \<open>The size of an element in the array of a varint field.\<close>

definition varint_ctype :: "hpb_FieldType \<Rightarrow> u64" where
  "varint_ctype type =
     (case type of FieldType_Bool \<Rightarrow> 1 | FieldType_UInt32 \<Rightarrow> 4 | FieldType_Int32 \<Rightarrow> 4 | FieldType_Enum \<Rightarrow> 4
      | FieldType_SInt32 \<Rightarrow> 4 | _ \<Rightarrow> 8)"

definition encode_array ::
  "allocator \<Rightarrow> message_encoder \<Rightarrow> u64 \<Rightarrow> hpb_MiniTableSub list \<Rightarrow> hpb_MiniTableField \<Rightarrow> hpb_encstate \<Rightarrow> heap \<Rightarrow> enc_result" where
  "encode_array mall encode_message msg subs f e h =
     (let arr = load64 h (msg + ucast (f_offset f)); packed = (f_mode f AND kHpb_LabelFlags_IsPacked \<noteq> 0);
          pre_len = enc_limit e - enc_ptr e; number = f_number f; TAG = (\<lambda>wt. if packed then 0 else wire_tag number wt);
          finish = (\<lambda>r. res_bind r (\<lambda>(e, h).
            if packed
            then res_bind (encode_varint mall (enc_limit e - enc_ptr e - pre_len) e h) (\<lambda>(e, h).
              encode_tag mall number WireType_Delimited e h)
            else Inr (e, h))) in
      if arr = 0 \<or> Array_size h arr = 0 then Inr (e, h)
      else res_bind (enc_mem (hpb_array_constptr h arr)) (\<lambda>start.
        let n = Array_size h arr in
        case descriptortype f of
          FieldType_Double \<Rightarrow> finish (encode_fixedarray mall arr 8 (TAG WireType_64Bit) e h)
        | FieldType_Float \<Rightarrow> finish (encode_fixedarray mall arr 4 (TAG WireType_32Bit) e h)
        | FieldType_SFixed64 \<Rightarrow> finish (encode_fixedarray mall arr 8 (TAG WireType_64Bit) e h)
        | FieldType_Fixed64 \<Rightarrow> finish (encode_fixedarray mall arr 8 (TAG WireType_64Bit) e h)
        | FieldType_Fixed32 \<Rightarrow> finish (encode_fixedarray mall arr 4 (TAG WireType_32Bit) e h)
        | FieldType_SFixed32 \<Rightarrow> finish (encode_fixedarray mall arr 4 (TAG WireType_32Bit) e h)
        | FieldType_String \<Rightarrow> do_back (unat n) 16 start (string_elem mall number) (start + n * 16) e h
        | FieldType_Bytes \<Rightarrow> do_back (unat n) 16 start (string_elem mall number) (start + n * 16) e h
        | FieldType_Group \<Rightarrow>
            res_bind (enc_mem (sub_message subs f)) (\<lambda>subm.
            res_bind (enter_message e h) (\<lambda>(e, h).
            res_bind (do_back (unat n) 8 start (group_elem mall encode_message number subm) (start + n * 8) e h) (\<lambda>(e, h).
            Inr (leave_message e, h))))
        | FieldType_Message \<Rightarrow>
            res_bind (enc_mem (sub_message subs f)) (\<lambda>subm.
            res_bind (enter_message e h) (\<lambda>(e, h).
            res_bind (do_back (unat n) 8 start (message_elem mall encode_message number subm) (start + n * 8) e h) (\<lambda>(e, h).
            Inr (leave_message e, h))))
        | type \<Rightarrow>
            let step = varint_ctype type
            in finish (do_back (unat n) step start (varint_elem mall type (TAG WireType_Varint)) (start + n * step) e h)))"

section \<open>Map entries and message sets\<close>

text \<open>The entry is given by the addresses of its key and its value.\<close>

definition encode_mapentry ::
  "allocator \<Rightarrow> message_encoder \<Rightarrow> u32 \<Rightarrow> hpb_MiniTable \<Rightarrow> u64 \<Rightarrow> u64 \<Rightarrow> hpb_encstate \<Rightarrow> heap \<Rightarrow> enc_result" where
  "encode_mapentry mall encode_message number layout ent_k ent_v e h =
     (if length (t_fields layout) < 2 then Inl (EncMem InvalidAccess)
      else let key_field = t_fields layout ! 0; val_field = t_fields layout ! 1; pre_len = enc_limit e - enc_ptr e in
        res_bind (encode_scalar mall encode_message ent_v (t_subs layout) val_field e h) (\<lambda>(e, h).
        res_bind (encode_scalar mall encode_message ent_k (t_subs layout) key_field e h) (\<lambda>(e, h).
        let len = (enc_limit e - enc_ptr e) - pre_len in
        res_bind (encode_varint mall len e h) (\<lambda>(e, h).
        encode_tag mall number WireType_Delimited e h))))"

definition kHpb_MsgSet_Item :: u32 where "kHpb_MsgSet_Item = 1"
definition kHpb_MsgSet_TypeId :: u32 where "kHpb_MsgSet_TypeId = 2"
definition kHpb_MsgSet_Message :: u32 where "kHpb_MsgSet_Message = 3"

text \<open>The extension is given by its message, the table of the message and the field number.\<close>

definition encode_msgset_item ::
  "allocator \<Rightarrow> message_encoder \<Rightarrow> u64 \<Rightarrow> nat option \<Rightarrow> u32 \<Rightarrow> hpb_encstate \<Rightarrow> heap \<Rightarrow> enc_result" where
  "encode_msgset_item mall encode_message data_ptr submsg number e h =
     res_bind (encode_tag mall kHpb_MsgSet_Item WireType_EndGroup e h) (\<lambda>(e, h).
     res_bind (encode_message data_ptr submsg e h) (\<lambda>(len, e, h).
     res_bind (encode_varint mall len e h) (\<lambda>(e, h).
     res_bind (encode_tag mall kHpb_MsgSet_Message WireType_Delimited e h) (\<lambda>(e, h).
     res_bind (encode_varint mall (ucast number) e h) (\<lambda>(e, h).
     res_bind (encode_tag mall kHpb_MsgSet_TypeId WireType_Varint e h) (\<lambda>(e, h).
     encode_tag mall kHpb_MsgSet_Item WireType_StartGroup e h))))))"

section \<open>Presence\<close>

definition hpb_hasbit :: "heap \<Rightarrow> u64 \<Rightarrow> u64 \<Rightarrow> bool" where
  "hpb_hasbit h msg idx \<longleftrightarrow> h_mem h (msg + idx div 8) AND push_bit (unat (idx mod 8)) 1 \<noteq> 0"

definition hpb_Message_Hasidx :: "hpb_MiniTableField \<Rightarrow> mem_fail + u64" where
  "hpb_Message_Hasidx f = (if sint (f_presence f) > 0 then Inr (ucast (f_presence f)) else Inl FailedAssert)"

definition hpb_hasbit_field :: "heap \<Rightarrow> u64 \<Rightarrow> hpb_MiniTableField \<Rightarrow> mem_fail + bool" where
  "hpb_hasbit_field h msg f = res_bind (hpb_Message_Hasidx f) (\<lambda>idx. Inr (hpb_hasbit h msg idx))"

definition hpb_getoneofcase_field :: "heap \<Rightarrow> u64 \<Rightarrow> hpb_MiniTableField \<Rightarrow> mem_fail + u32" where
  "hpb_getoneofcase_field h msg f =
     (if sint (f_presence f) < 0 then Inr (load32 h (msg + ucast (NOT (f_presence f)))) else Inl FailedAssert)"

definition encode_shouldencode :: "u64 \<Rightarrow> hpb_MiniTableField \<Rightarrow> heap \<Rightarrow> mem_fail + bool" where
  "encode_shouldencode msg f h =
     (if f_presence f = 0
      then let mem = msg + ucast (f_offset f) in
        Inr (case hpb_MiniTableField_GetRep f of
          FieldRep_1Byte \<Rightarrow> h_mem h mem \<noteq> 0
        | FieldRep_4Byte \<Rightarrow> load32 h mem \<noteq> 0
        | FieldRep_8Byte \<Rightarrow> load64 h mem \<noteq> 0
        | FieldRep_StringView \<Rightarrow> load64 h (mem + 8) \<noteq> 0)
      else if sint (f_presence f) > 0 then hpb_hasbit_field h msg f
      else res_bind (hpb_getoneofcase_field h msg f) (\<lambda>c. Inr (c = f_number f)))"

end
