(* ===== verification/EncBuffer.thy ===== *)
theory EncBuffer
  imports Encoder
begin

text \<open>
  The output buffer as a list of bytes. \<open>enc_out\<close> reads the bytes written so far, \<open>enc_good\<close> is the
  invariant of the encoder. The memory the encoder reads from is the partial map \<open>src\<close>: its bytes
  lie in allocations other than the buffer, and stay as they are.
\<close>

section \<open>Invariant\<close>

definition enc_out :: "hpb_encstate \<Rightarrow> heap \<Rightarrow> byte list" where
  "enc_out e h = mem_read h (enc_ptr e) (unat (enc_limit e - enc_ptr e))"

definition src_in :: "(u64 \<rightharpoonup> byte) \<Rightarrow> heap \<Rightarrow> bool" where
  "src_in src h \<longleftrightarrow> (\<forall>p b. src p = Some b \<longrightarrow> h_mem h p = b)"

definition src_apart :: "(u64 \<rightharpoonup> byte) \<Rightarrow> region list \<Rightarrow> nat \<Rightarrow> bool" where
  "src_apart src allocs i \<longleftrightarrow> (\<forall>p \<in> dom src. \<exists>j < length allocs. j \<noteq> i \<and> unat p \<in> range_of (allocs ! j))"

definition enc_buffer :: "hpb_encstate \<Rightarrow> region list \<Rightarrow> nat \<Rightarrow> bool" where
  "enc_buffer e allocs i \<longleftrightarrow>
     (if enc_buf e = 0 then enc_ptr e = 0 \<and> enc_limit e = 0 \<and> length allocs \<le> i
      else i < length allocs \<and> allocs ! i = (enc_buf e, enc_limit e - enc_buf e) \<and> unat (enc_buf e) \<le> unat (enc_ptr e) \<and>
        unat (enc_ptr e) \<le> unat (enc_limit e) \<and> unat (enc_limit e) - unat (enc_buf e) \<le> 2 ^ 61)"

definition enc_inv :: "allocator \<Rightarrow> (u64 \<rightharpoonup> byte) \<Rightarrow> hpb_encstate \<Rightarrow> heap \<Rightarrow> region list \<Rightarrow> nat \<Rightarrow> bool" where
  "enc_inv mall src e h allocs i \<longleftrightarrow> malloc_ok mall \<and> (\<exists>r. h_arenas h (enc_arena e) = Some r \<and> a_block_alloc r \<noteq> 1) \<and>
     src_in src h \<and> layout_ok h allocs \<and> src_apart src allocs i \<and> enc_buffer e allocs i"

definition enc_good :: "allocator \<Rightarrow> (u64 \<rightharpoonup> byte) \<Rightarrow> hpb_encstate \<Rightarrow> heap \<Rightarrow> bool" where
  "enc_good mall src e h \<longleftrightarrow> (\<exists>allocs i. enc_inv mall src e h allocs i)"

lemma length_mem_read [simp]: "length (mem_read h p n) = n"
  by (simp add: mem_read_def)

lemma nth_mem_read: "k < n \<Longrightarrow> mem_read h p n ! k = h_mem h (p + of_nat k)"
  by (simp add: mem_read_def)

lemma enc_inv_facts:
  assumes "enc_inv mall src e h allocs i" "enc_buf e \<noteq> 0"
  shows "i < length allocs" "allocs ! i = (enc_buf e, enc_limit e - enc_buf e)" "unat (enc_buf e) \<le> unat (enc_ptr e)"
    "unat (enc_ptr e) \<le> unat (enc_limit e)" "unat (enc_limit e) - unat (enc_buf e) \<le> 2 ^ 61"
    "range_of (allocs ! i) = {unat (enc_buf e) ..< unat (enc_limit e)}"
    "length (enc_out e h) = unat (enc_limit e) - unat (enc_ptr e)" "unat (enc_limit e) < 2 ^ 64"
    "8 dvd unat (enc_limit e) - unat (enc_buf e)"
proof -
  show b: "i < length allocs" "allocs ! i = (enc_buf e, enc_limit e - enc_buf e)" "unat (enc_buf e) \<le> unat (enc_ptr e)"
    "unat (enc_ptr e) \<le> unat (enc_limit e)" "unat (enc_limit e) - unat (enc_buf e) \<le> 2 ^ 61"
    using assms by (simp_all add: enc_inv_def enc_buffer_def)
  have u: "unat (enc_limit e - enc_buf e) = unat (enc_limit e) - unat (enc_buf e)"
    "unat (enc_limit e - enc_ptr e) = unat (enc_limit e) - unat (enc_ptr e)"
    using b(3,4) by (simp_all add: unat_sub_le)
  then show "range_of (allocs ! i) = {unat (enc_buf e) ..< unat (enc_limit e)}"
    "length (enc_out e h) = unat (enc_limit e) - unat (enc_ptr e)"
    using b(2,3,4) by (simp_all add: range_of_def enc_out_def)
  show "unat (enc_limit e) < 2 ^ 64"
    using unsigned_less [of "enc_limit e", where 'a = nat] by simp
  show "8 dvd unat (enc_limit e) - unat (enc_buf e)"
    using assms(1) nth_mem [OF b(1)] b(2) u(1) by (auto simp: enc_inv_def layout_ok_def)
qed

lemma enc_buf_null: "enc_inv mall src e h allocs i \<Longrightarrow> enc_buf e = 0 \<Longrightarrow> enc_ptr e = 0 \<and> enc_limit e = 0 \<and> enc_out e h = []"
  by (simp add: enc_inv_def enc_buffer_def enc_out_def mem_read_def)

section \<open>Writing to the buffer\<close>

lemma src_in_other:
  assumes "enc_inv mall src e h allocs i" "i < length allocs" "layout_ok h' allocs"
    "\<And>x. unat x \<notin> range_of (allocs ! i) \<Longrightarrow> h_mem h' x = h_mem h x"
  shows "src_in src h'"
  unfolding src_in_def
proof (intro allI impI)
  fix p b
  assume p: "src p = Some b"
  then obtain j where j: "j < length allocs" "j \<noteq> i" "unat p \<in> range_of (allocs ! j)"
    using assms(1) by (fastforce simp: enc_inv_def src_apart_def)
  then have "unat p \<notin> range_of (allocs ! i)"
    using allocated_apart [OF assms(3) j(1) assms(2) j(2,3)] by blast
  then show "h_mem h' p = b"
    using assms(1,4) p by (simp add: enc_inv_def src_in_def)
qed

lemma enc_write:
  assumes good: "enc_good mall src e h" and k: "k + length bs \<le> length (enc_out e h)"
  shows "enc_good mall src e (mem_write (enc_ptr e + of_nat k) bs h)"
    "enc_out e (mem_write (enc_ptr e + of_nat k) bs h) = take k (enc_out e h) @ bs @ drop (k + length bs) (enc_out e h)"
proof -
  let ?h = "mem_write (enc_ptr e + of_nat k) bs h" and ?n = "length (enc_out e h)"
  obtain allocs i where inv: "enc_inv mall src e h allocs i"
    using good by (auto simp: enc_good_def)
  show "enc_good mall src e ?h"
  proof (cases "bs = []")
    case True
    then have "?h = h"
      by (simp add: mem_write_def)
    then show ?thesis
      using good by simp
  next
    case False
    then have buf: "enc_buf e \<noteq> 0"
      using k enc_buf_null [OF inv] by auto
    note b = enc_inv_facts [OF inv buf]
    have p: "unat (enc_ptr e + of_nat k) = unat (enc_ptr e) + k"
      using k b(4,7,8) by (intro unat_offset) simp
    have "h_mem ?h x = h_mem h x" if "unat x \<notin> range_of (allocs ! i)" for x
      using that k b(3,4,6,7,8) p h_mem_write [of "enc_ptr e + of_nat k" bs h x] by auto
    then have "src_in src ?h"
      using inv by (intro src_in_other [OF inv b(1)]) (simp_all add: enc_inv_def)
    then have "enc_inv mall src e ?h allocs i"
      using inv by (auto simp: enc_inv_def mem_write_def)
    then show ?thesis
      by (auto simp: enc_good_def)
  qed
  have len: "?n = unat (enc_limit e - enc_ptr e)"
    by (simp add: enc_out_def)
  have lt: "unat (enc_ptr e) + ?n < 2 ^ 64"
  proof (cases "enc_buf e = 0")
    case True
    then show ?thesis
      using enc_buf_null [OF inv] by simp
  next
    case False
    then show ?thesis
      using enc_inv_facts(4,7,8) [OF inv False] by simp
  qed
  show "enc_out e ?h = take k (enc_out e h) @ bs @ drop (k + length bs) (enc_out e h)"
  proof (rule nth_equalityI)
    show "length (enc_out e ?h) = length (take k (enc_out e h) @ bs @ drop (k + length bs) (enc_out e h))"
      using k by (simp add: enc_out_def)
    fix m
    assume "m < length (enc_out e ?h)"
    then have m: "m < ?n"
      by (simp add: enc_out_def)
    have "enc_out e ?h ! m = h_mem ?h (enc_ptr e + of_nat m)" "enc_out e h ! m = h_mem h (enc_ptr e + of_nat m)"
      using m by (simp_all add: enc_out_def nth_mem_read)
    then have "enc_out e ?h ! m = (if k \<le> m \<and> m < k + length bs then bs ! (m - k) else enc_out e h ! m)"
      using byte_write [OF lt k m, of h] by simp
    then show "enc_out e ?h ! m = (take k (enc_out e h) @ bs @ drop (k + length bs) (enc_out e h)) ! m"
      using k m by (auto simp: nth_append min_def not_less)
  qed
qed

lemma enc_skip:
  assumes good: "enc_good mall src e h" and k: "k \<le> length (enc_out e h)"
  shows "enc_good mall src (e\<lparr>enc_ptr := enc_ptr e + of_nat k\<rparr>) h" "enc_out (e\<lparr>enc_ptr := enc_ptr e + of_nat k\<rparr>) h = drop k (enc_out e h)"
proof -
  obtain allocs i where inv: "enc_inv mall src e h allocs i"
    using good by (auto simp: enc_good_def)
  have "enc_good mall src (e\<lparr>enc_ptr := enc_ptr e + of_nat k\<rparr>) h \<and> enc_out (e\<lparr>enc_ptr := enc_ptr e + of_nat k\<rparr>) h = drop k (enc_out e h)"
  proof (cases "enc_buf e = 0")
    case True
    then have "k = 0"
      using k enc_buf_null [OF inv] by simp
    then have "e\<lparr>enc_ptr := enc_ptr e + of_nat k\<rparr> = e"
      by (cases e) simp
    then show ?thesis
      using \<open>k = 0\<close> good by simp
  next
    case False
    note b = enc_inv_facts [OF inv False]
    have p: "unat (enc_ptr e + of_nat k) = unat (enc_ptr e) + k"
      using k b(4,7,8) by (intro unat_offset) simp
    then have le: "unat (enc_ptr e + of_nat k) \<le> unat (enc_limit e)"
      using k b(4,7) by simp
    then have "enc_inv mall src (e\<lparr>enc_ptr := enc_ptr e + of_nat k\<rparr>) h allocs i"
      using inv False b(3) p by (simp add: enc_inv_def enc_buffer_def)
    moreover have "enc_out (e\<lparr>enc_ptr := enc_ptr e + of_nat k\<rparr>) h = drop k (enc_out e h)"
      using unat_sub_le [OF le] unat_sub_le [OF b(4)] p
      by (intro nth_equalityI) (simp_all add: enc_out_def nth_mem_read add.assoc)
    ultimately show ?thesis
      by (auto simp: enc_good_def)
  qed
  then show "enc_good mall src (e\<lparr>enc_ptr := enc_ptr e + of_nat k\<rparr>) h" "enc_out (e\<lparr>enc_ptr := enc_ptr e + of_nat k\<rparr>) h = drop k (enc_out e h)"
    by blast+
qed

lemma mem_copy_write: "mem_copy dst p n h = mem_write dst (mem_read h p (unat n)) h"
proof -
  have "mem_read h p (unat n) ! unat (x - dst) = h_mem h (p + (x - dst))" if "x - dst < n" for x
    using that by (simp add: nth_mem_read word_less_nat_alt)
  then show ?thesis
    by (auto simp: mem_copy_def mem_write_def word_less_nat_alt fun_eq_iff)
qed

section \<open>Growth\<close>

lemma roundup_loop_double: "roundup_loop n ret bytes = double_capacity n ret bytes"
  by (induction n arbitrary: ret) auto

lemma roundup_dvd: "roundup_loop n ret bytes = Inr r \<Longrightarrow> 8 dvd unat ret \<Longrightarrow> 8 dvd unat r"
proof (induction n arbitrary: ret)
  case (Suc n)
  have "8 dvd unat (ret * 2)"
    using Suc.prems(2) by (simp add: unat_word_ariths(2) dvd_mod)
  then show ?case
    using Suc by (auto split: if_splits)
qed simp

lemma roundup_pow2:
  assumes "unat bytes \<le> 2 ^ 60"
  shows "\<exists>r. hpb_roundup_pow2 bytes = Inr r \<and> unat bytes \<le> unat r \<and> unat r \<le> 2 ^ 61 \<and> 8 dvd unat r \<and> 128 \<le> unat r \<and>
    unat r \<le> max 128 (2 * unat bytes)"
proof -
  obtain r where r: "double_capacity (Suc 64) 128 bytes = Inr r" "unat bytes \<le> unat r" "unat (128 :: u64) \<le> unat r"
    "r = 128 \<or> unat r < 2 * unat bytes"
    using double_capacity_correct [of 128 bytes 64] assms by auto
  then have "roundup_loop 65 128 bytes = Inr r"
    by (simp add: roundup_loop_double)
  moreover have "8 dvd unat r"
    by (rule roundup_dvd [OF calculation]) simp
  moreover have "unat r \<le> 2 ^ 61"
    using r(4) assms by auto
  moreover have "unat r \<le> max 128 (2 * unat bytes)"
    using r(4) by auto
  ultimately show ?thesis
    using r(2,3) by (simp add: hpb_roundup_pow2_def)
qed

lemma align_id: "8 dvd unat n \<Longrightarrow> unat n \<le> 2 ^ 61 \<Longrightarrow> HPB_ALIGN_MALLOC n = n"
  using align_malloc_id [of n] by simp

lemma Realloc_null:
  assumes lay: "layout_ok h allocs" and mall: "malloc_ok mall" and r: "h_arenas h a = Some r" "a_block_alloc r \<noteq> 1"
    and sz: "8 dvd unat sz" "unat sz \<le> 2 ^ 61" "128 \<le> unat sz"
  shows "\<exists>p h'. hpb_Arena_Realloc mall a 0 0 sz h = Inr (p, h') \<and> h_mem h' = h_mem h \<and>
    layout_ok h' (if p = 0 then allocs else allocs @ [(p, sz)])"
proof -
  have al: "HPB_ALIGN_MALLOC sz = sz" "HPB_ALIGN_MALLOC 0 = 0"
    using align_id [OF sz(1,2)] align_id [of 0] by simp_all
  have "unat sz \<le> 2 ^ 63"
    using sz(2) by simp
  from Malloc_result [OF lay mall r this] obtain p h' where p: "hpb_Arena_Malloc mall a sz h = Inr (p, h')" "h_mem h' = h_mem h"
    "layout_ok h' (if p = 0 then allocs else allocs @ [(p, sz)])"
    unfolding al(1) by blast
  have "a_ptr r \<noteq> 0" "\<not> sz \<le> 0"
    using lay r(1) sz(3) by (auto simp: layout_ok_def head_ok_def word_le_nat_alt)
  then have "hpb_Arena_Realloc mall a 0 0 sz h = Inr (p, h')"
    using r(1) p(1) by (simp add: hpb_Arena_Realloc_def arena_at_def Let_def al)
  then show ?thesis
    using p(2,3) by blast
qed

text \<open>The reallocation of the buffer, the first one included.\<close>

lemma buffer_realloc:
  assumes inv: "enc_inv mall src e h allocs i" and sz: "8 dvd unat sz" "unat sz \<le> 2 ^ 61" "128 \<le> unat sz"
  shows "\<exists>p h'. hpb_Arena_Realloc mall (enc_arena e) (enc_buf e) (enc_limit e - enc_buf e) sz h = Inr (p, h') \<and>
    keeps_bytes h h' allocs \<and> (p = 0 \<longrightarrow> layout_ok h' allocs) \<and>
    (p \<noteq> 0 \<longrightarrow> (\<exists>allocs' i'. layout_ok h' allocs' \<and> i' < length allocs' \<and> allocs' ! i' = (p, sz) \<and> allocs_kept allocs allocs' i i'))"
proof -
  obtain r where lay: "layout_ok h allocs" and mall: "malloc_ok mall" and r: "h_arenas h (enc_arena e) = Some r" "a_block_alloc r \<noteq> 1"
    using inv by (auto simp: enc_inv_def)
  show ?thesis
  proof (cases "enc_buf e = 0")
    case True
    obtain p h' where p: "hpb_Arena_Realloc mall (enc_arena e) 0 0 sz h = Inr (p, h')" "h_mem h' = h_mem h"
      "layout_ok h' (if p = 0 then allocs else allocs @ [(p, sz)])"
      using Realloc_null [OF lay mall r sz] by blast
    moreover have "allocs_kept allocs (allocs @ [(p, sz)]) i (length allocs)"
      by (simp add: allocs_kept_def nth_append)
    moreover have "keeps_bytes h h' allocs"
      using p(2) by (simp add: keeps_bytes_def)
    ultimately show ?thesis
      using True enc_buf_null [OF inv] by (intro exI [of _ p] exI [of _ h']) (auto intro!: exI [of _ "allocs @ [(p, sz)]"] exI [of _ "length allocs"])
  next
    case False
    note b = enc_inv_facts [OF inv False]
    let ?old = "enc_limit e - enc_buf e"
    have u: "unat ?old = unat (enc_limit e) - unat (enc_buf e)"
      using b(3,4) by (intro unat_sub_le) simp
    have old: "HPB_ALIGN_MALLOC ?old = ?old" "HPB_ALIGN_MALLOC sz = sz" "unat ?old \<le> 2 ^ 62" "unat sz \<le> 2 ^ 62"
      using align_id [of ?old] align_id [OF sz(1,2)] b(5,9) u sz(2) by simp_all
    have i: "allocs ! i = (enc_buf e, HPB_ALIGN_MALLOC ?old)"
      unfolding old(1) by (rule b(2))
    obtain p h' where p: "hpb_Arena_Realloc mall (enc_arena e) (enc_buf e) ?old sz h = Inr (p, h')" "keeps_bytes h h' allocs"
      "if p = 0 then layout_ok h' allocs
       else (\<forall>k. unat k < unat ?old \<longrightarrow> unat k < unat sz \<longrightarrow> h_mem h' (p + k) = h_mem h (enc_buf e + k)) \<and>
         (layout_ok h' (allocs[i := (p, sz)]) \<or> layout_ok h' (allocs @ [(p, sz)]))"
      using Realloc_result [OF lay mall r b(1) i old(3,4)] unfolding old(2) by blast
    moreover have "allocs_kept allocs (allocs[i := (p, sz)]) i i" "allocs_kept allocs (allocs @ [(p, sz)]) i (length allocs)"
      by (simp_all add: allocs_kept_def nth_append)
    moreover have "i < length (allocs[i := (p, sz)])" "allocs[i := (p, sz)] ! i = (p, sz)"
      "length allocs < length (allocs @ [(p, sz)])" "(allocs @ [(p, sz)]) ! length allocs = (p, sz)"
      using b(1) by simp_all
    ultimately show ?thesis
      by (metis (no_types, lifting))
  qed
qed

definition enc_reserved :: "allocator \<Rightarrow> (u64 \<rightharpoonup> byte) \<Rightarrow> nat \<Rightarrow> byte list \<Rightarrow> hpb_encstate \<Rightarrow> heap \<Rightarrow> bool" where
  "enc_reserved mall src n out e h \<longleftrightarrow> enc_good mall src e h \<and> length (enc_out e h) = n + length out \<and> drop n (enc_out e h) = out"

text \<open>The room that is left in the buffer.\<close>

definition enc_room :: "hpb_encstate \<Rightarrow> nat" where
  "enc_room e = unat (enc_ptr e - enc_buf e)"

definition same_conf :: "hpb_encstate \<Rightarrow> hpb_encstate \<Rightarrow> bool" where
  "same_conf e e' \<longleftrightarrow> enc_arena e' = enc_arena e \<and> enc_depth e' = enc_depth e \<and> enc_options e' = enc_options e"

text \<open>
  The memory after a failure of the encoder whose output needs at most \<open>n\<close> bytes: the last call for
  a buffer of at most twice that size, or of the least size, was refused by the arena.
\<close>

definition enc_oom :: "allocator \<Rightarrow> u64 \<Rightarrow> nat \<Rightarrow> heap \<Rightarrow> bool" where
  "enc_oom mall a n h \<longleftrightarrow> (\<exists>sz. unat sz \<le> max 128 (2 * n) \<and> arena_refused mall a sz (h_calls h - 1) h)"

lemma enc_oom_mono: "enc_oom mall a m h \<Longrightarrow> m \<le> n \<Longrightarrow> enc_oom mall a n h"
  unfolding enc_oom_def by (meson le_trans max.mono mult_le_mono2 order_refl)

text \<open>
  The result of an operation: a state with the property \<open>P\<close>, or out of memory with a heap that
  satisfies \<open>F\<close> and in which the source is kept.
\<close>

definition enc_yields ::
  "(u64 \<rightharpoonup> byte) \<Rightarrow> (heap \<Rightarrow> bool) \<Rightarrow> enc_result \<Rightarrow> (hpb_encstate \<Rightarrow> heap \<Rightarrow> bool) \<Rightarrow> bool" where
  "enc_yields src F r P \<longleftrightarrow>
     (\<exists>h'. r = Inl (EncErr EncodeStatus_OutOfMemory h') \<and> src_in src h' \<and> F h') \<or> (\<exists>e' h'. r = Inr (e', h') \<and> P e' h')"

lemma src_moved:
  assumes inv: "enc_inv mall src e h allocs i" and keep: "keeps_bytes h h1 allocs" and al: "allocs_kept allocs allocs' i i'"
  shows "src_in src h1" "src_apart src allocs' i'"
proof -
  have *: "\<exists>j < length allocs. j \<noteq> i \<and> unat p \<in> range_of (allocs ! j)" if "p \<in> dom src" for p
    using inv that by (auto simp: enc_inv_def src_apart_def)
  show "src_in src h1"
    unfolding src_in_def
  proof (intro allI impI)
    fix p b
    assume p: "src p = Some b"
    then have "\<exists>reg \<in> set allocs. unat p \<in> range_of reg"
      using * [of p] nth_mem by blast
    then have "h_mem h1 p = h_mem h p"
      using keep by (simp add: keeps_bytes_def)
    then show "h_mem h1 p = b"
      using inv p by (simp add: enc_inv_def src_in_def)
  qed
  show "src_apart src allocs' i'"
    unfolding src_apart_def
  proof
    fix p
    assume "p \<in> dom src"
    then obtain j where "j < length allocs" "j \<noteq> i" "unat p \<in> range_of (allocs ! j)"
      using * by blast
    then show "\<exists>j < length allocs'. j \<noteq> i' \<and> unat p \<in> range_of (allocs' ! j)"
      using al by (intro exI [of _ j]) (auto simp: allocs_kept_def)
  qed
qed

text \<open>The old bytes are copied to the end of the new buffer.\<close>

lemma buffer_moved:
  assumes inv: "enc_inv mall src e h allocs i" and keep: "keeps_bytes h h1 allocs" and al: "allocs_kept allocs allocs' i i'"
    and lay: "layout_ok h1 allocs'" "i' < length allocs'" "allocs' ! i' = (p, of_nat R)" and R: "R \<le> 2 ^ 61" "p \<noteq> 0"
    and same: "same_alloc (enc_arena e) h h1"
    and B: "B + length (enc_out e h) \<le> R" "unat (enc_limit e - enc_buf e) \<le> R"
    and h2: "h2 = (if enc_limit e - enc_buf e > 0 then mem_copy (p + of_nat R - (enc_limit e - enc_buf e)) (enc_buf e) (enc_limit e - enc_buf e) h1 else h1)"
    and e2: "e2 = e\<lparr>enc_buf := p, enc_limit := p + of_nat R, enc_ptr := p + of_nat (R - (B + length (enc_out e h)))\<rparr>"
  shows "enc_reserved mall src B (enc_out e h) e2 h2"
proof -
  let ?N = "unat (enc_limit e - enc_buf e)" and ?c = "length (enc_out e h)"
  have uR: "unat (of_nat R :: u64) = R"
    using R(1) by (simp add: unat_of_nat)
  have p: "unat p + R < 2 ^ 64"
    using lay nth_mem [OF lay(2)] uR by (auto simp: layout_ok_def)
  have off: "unat (p + of_nat k) = unat p + k" if "k \<le> R" for k
    using that p by (intro unat_offset) simp
  have dst: "p + of_nat R - (enc_limit e - enc_buf e) = p + of_nat (R - ?N)"
    using B(2) by (simp add: of_nat_diff)
  have range: "range_of (allocs' ! i') = {unat p ..< unat p + R}"
    using lay(3) uR by (simp add: range_of_def)
  have len: "length (enc_out e2 h2) = B + ?c"
  proof -
    have d: "unat (p + of_nat R) = unat p + R" "unat (p + of_nat (R - (B + ?c))) = unat p + (R - (B + ?c))"
      by (rule off, simp)+
    then have "unat (p + of_nat (R - (B + ?c))) \<le> unat (p + of_nat R)"
      by simp
    from unat_sub_le [OF this] have "unat (enc_limit e2 - enc_ptr e2) = R - (R - (B + ?c))"
      unfolding e2 d by simp
    then show ?thesis
      using B(1) by (simp add: enc_out_def)
  qed
  have copy: "h_mem h2 x = h_mem h1 x" if "unat x \<notin> range_of (allocs' ! i')" for x
    using that off [of "R - ?N"] B(2) p h_mem_copy [of "p + of_nat (R - ?N)" "enc_limit e - enc_buf e" "enc_buf e" h1 x]
    unfolding h2 dst range by auto
  have lay2: "layout_ok h2 allocs'"
    using lay(1) by (simp add: h2)
  have arena: "\<exists>r. h_arenas h2 (enc_arena e2) = Some r \<and> a_block_alloc r \<noteq> 1"
    using inv same by (auto simp: enc_inv_def same_alloc_def h2 e2 mem_copy_def)
  have buf: "enc_buffer e2 allocs' i'"
    using R lay(2,3) off [of R] off [of "R - (B + ?c)"] by (simp add: enc_buffer_def e2)
  note moved = src_moved [OF inv keep al]
  have "src_in src h2"
    unfolding src_in_def
  proof (intro allI impI)
    fix q b
    assume q: "src q = Some b"
    then obtain j where "j < length allocs'" "j \<noteq> i'" "unat q \<in> range_of (allocs' ! j)"
      using moved(2) by (fastforce simp: src_apart_def)
    then have "unat q \<notin> range_of (allocs' ! i')"
      using allocated_apart [OF lay(1) _ lay(2)] by blast
    then show "h_mem h2 q = b"
      using copy moved(1) q by (simp add: src_in_def)
  qed
  then have "enc_good mall src e2 h2"
    using inv arena lay2 moved(2) buf unfolding enc_good_def enc_inv_def by blast
  moreover have "drop B (enc_out e2 h2) = enc_out e h"
  proof (cases "enc_buf e = 0")
    case True
    then show ?thesis
      using len enc_buf_null [OF inv] by simp
  next
    case False
    note b = enc_inv_facts [OF inv False]
    have N: "?N = unat (enc_limit e) - unat (enc_buf e)"
      using b(3,4) by (intro unat_sub_le) simp
    show ?thesis
    proof (rule nth_equalityI)
      fix k
      assume "k < length (drop B (enc_out e2 h2))"
      then have k: "k < ?c" "?c \<le> ?N"
        using len b(3,4,7) N by simp_all
      let ?x = "p + of_nat (R - ?c + k)"
      have "drop B (enc_out e2 h2) ! k = h_mem h2 (enc_ptr e2 + of_nat (B + k))"
        using k len by (simp add: enc_out_def nth_mem_read add.assoc)
      also have "enc_ptr e2 + of_nat (B + k) = ?x"
      proof -
        have eq: "R - ?c + k = R - (B + ?c) + (B + k)"
          using B(1) by simp
        show ?thesis
          unfolding e2 eq of_nat_add by (simp add: add.assoc del: of_nat_diff)
      qed
      also have "h_mem h2 ?x = h_mem h1 (enc_buf e + of_nat (?N - ?c + k))"
      proof -
        let ?D = "p + of_nat (R - ?N)"
        have u: "unat ?x = unat p + (R - ?c + k)" "unat ?D = unat p + (R - ?N)"
          using k B by (intro off; simp)+
        then have "unat ?x \<in> {unat ?D ..< unat ?D + ?N}" and "unat ?D + ?N < 2 ^ 64"
          using k B p unfolding u by (auto simp: le_diff_conv2)
        then have "h_mem (mem_copy ?D (enc_buf e) (enc_limit e - enc_buf e) h1) ?x = h_mem h1 (enc_buf e + (?x - ?D))"
          by (metis h_mem_copy)
        moreover have "?x - ?D = of_nat (?N - ?c + k)"
          using k B by (simp add: of_nat_diff)
        moreover have "enc_limit e - enc_buf e > 0"
          using k by (simp add: word_less_nat_alt)
        ultimately show ?thesis
          unfolding h2 dst by presburger
      qed
      also have "\<dots> = h_mem h (enc_buf e + of_nat (?N - ?c + k))"
      proof -
        have "unat (enc_buf e + of_nat (?N - ?c + k)) = unat (enc_buf e) + (?N - ?c + k)"
          using k N b(3,4,8) by (intro unat_offset) simp
        then have "unat (enc_buf e + of_nat (?N - ?c + k)) \<in> range_of (allocs ! i)"
          using k N b(3,4,6) by (auto simp: le_diff_conv2)
        then show ?thesis
          using keep nth_mem [OF b(1)] by (auto simp: keeps_bytes_def)
      qed
      also have "enc_buf e + of_nat (?N - ?c + k) = enc_ptr e + of_nat k"
      proof -
        have "enc_buf e + of_nat (?N - ?c) = enc_ptr e"
          using b(3,4,7) N by (simp add: of_nat_diff)
        then show ?thesis
          by (simp add: add.assoc [symmetric])
      qed
      also have "h_mem h (enc_ptr e + of_nat k) = enc_out e h ! k"
        using k by (simp add: enc_out_def nth_mem_read)
      finally show "drop B (enc_out e2 h2) ! k = enc_out e h ! k" .
    qed (simp add: len)
  qed
  ultimately show ?thesis
    using len by (simp add: enc_reserved_def)
qed

lemma growbuffer_correct:
  assumes inv: "enc_inv mall src e h allocs i" and B: "length (enc_out e h) + unat bytes \<le> 2 ^ 60"
    and full: "enc_ptr e - enc_buf e < bytes"
  shows "enc_yields src (enc_oom mall (enc_arena e) (length (enc_out e h) + unat bytes)) (encode_growbuffer mall bytes e h)
    (\<lambda>e' h'. enc_reserved mall src (unat bytes) (enc_out e h) e' h' \<and> same_conf e e')"
proof -
  let ?N = "unat (enc_limit e - enc_buf e)" and ?c = "length (enc_out e h)" and ?old = "enc_limit e - enc_buf e"
  have c: "unat (enc_limit e - enc_ptr e) = ?c"
    by (simp add: enc_out_def)
  have need: "unat (bytes + (enc_limit e - enc_ptr e)) = unat bytes + ?c"
    using B c by (subst unat_add_small) simp_all
  have N: "?N < unat bytes + ?c"
  proof (cases "enc_buf e = 0")
    case True
    then show ?thesis
      using full enc_buf_null [OF inv] by (simp add: word_less_nat_alt)
  next
    case False
    note b = enc_inv_facts [OF inv False]
    have "?N = unat (enc_limit e) - unat (enc_buf e)" "unat (enc_ptr e - enc_buf e) = unat (enc_ptr e) - unat (enc_buf e)"
      using b(3,4) by (simp_all add: unat_sub_le)
    then show ?thesis
      using b(3,4,7) full by (simp add: word_less_nat_alt)
  qed
  obtain r where r: "hpb_roundup_pow2 (bytes + (enc_limit e - enc_ptr e)) = Inr r" "unat bytes + ?c \<le> unat r" "unat r \<le> 2 ^ 61"
    "8 dvd unat r" "128 \<le> unat r" "unat r \<le> max 128 (2 * (?c + unat bytes))"
    using roundup_pow2 [of "bytes + (enc_limit e - enc_ptr e)"] B unfolding need by (auto simp: add.commute)
  obtain p h1 where p: "hpb_Arena_Realloc mall (enc_arena e) (enc_buf e) ?old r h = Inr (p, h1)" "keeps_bytes h h1 allocs"
    "p \<noteq> 0 \<longrightarrow> (\<exists>allocs' i'. layout_ok h1 allocs' \<and> i' < length allocs' \<and> allocs' ! i' = (p, r) \<and> allocs_kept allocs allocs' i i')"
    using buffer_realloc [OF inv r(4,3,5)] by blast
  show ?thesis
  proof (cases "p = 0")
    case True
    have "src_in src h1"
      by (rule src_moved(1) [OF inv p(2) allocs_kept_refl])
    moreover have "encode_growbuffer mall bytes e h = Inl (EncErr EncodeStatus_OutOfMemory h1)"
      using True r(1) p(1) by (simp add: encode_growbuffer_def Let_def)
    moreover have "enc_oom mall (enc_arena e) (?c + unat bytes) h1"
    proof -
      obtain ar where lay: "layout_ok h allocs" "malloc_ok mall" "h_arenas h (enc_arena e) = Some ar" "a_block_alloc ar \<noteq> 1"
        using inv by (auto simp: enc_inv_def)
      have "enc_buf e \<noteq> 0 \<or> ?old = 0"
        using enc_buf_null [OF inv] by auto
      moreover have "0 < unat r" "unat r \<le> 2 ^ 62"
        using r(3,5) by simp_all
      ultimately have "arena_refused mall (enc_arena e) r (h_calls h1 - 1) h1"
        using Realloc_refused [OF lay, of r "enc_buf e" ?old h1] p(1) True by simp
      then show ?thesis
        using r(6) unfolding enc_oom_def by blast
    qed
    ultimately show ?thesis
      by (simp add: enc_yields_def)
  next
    case False
    then obtain allocs' i' where al: "layout_ok h1 allocs'" "i' < length allocs'" "allocs' ! i' = (p, of_nat (unat r))"
      "allocs_kept allocs allocs' i i'"
      using p(3) by auto
    let ?h2 = "if ?old > 0 then mem_copy (p + of_nat (unat r) - ?old) (enc_buf e) ?old h1 else h1"
    let ?e2 = "e\<lparr>enc_buf := p, enc_limit := p + of_nat (unat r), enc_ptr := p + of_nat (unat r - (unat bytes + ?c))\<rparr>"
    have "enc_reserved mall src (unat bytes) (enc_out e h) ?e2 ?h2"
      by (rule buffer_moved [OF inv p(2) al(4,1-3) r(3) False Realloc_same [OF p(1)] r(2) _ refl refl]) (use N r(2) in simp)
    moreover have "encode_growbuffer mall bytes e h = Inr (?e2, ?h2)"
    proof -
      have ptr: "p + r - (enc_limit e - enc_ptr e) - bytes = p + of_nat (unat r - (unat bytes + ?c))"
        using r(2) by (simp add: of_nat_diff flip: c)
      show ?thesis
        unfolding ptr [symmetric] using False r(1) p(1) by (simp add: encode_growbuffer_def Let_def)
    qed
    ultimately show ?thesis
      by (simp add: enc_yields_def same_conf_def)
  qed
qed

lemma reserve_correct:
  assumes good: "enc_good mall src e h" and B: "length (enc_out e h) + unat bytes \<le> 2 ^ 60"
  shows "enc_yields src (\<lambda>h'. enc_room e < unat bytes \<and> enc_oom mall (enc_arena e) (length (enc_out e h) + unat bytes) h')
    (encode_reserve mall bytes e h)
    (\<lambda>e' h'. enc_reserved mall src (unat bytes) (enc_out e h) e' h' \<and> same_conf e e' \<and> enc_room e \<le> enc_room e' + unat bytes)"
proof -
  obtain allocs i where inv: "enc_inv mall src e h allocs i"
    using good by (auto simp: enc_good_def)
  show ?thesis
  proof (cases "enc_ptr e - enc_buf e < bytes")
    case True
    then show ?thesis
      using growbuffer_correct [OF inv B True] by (auto simp: encode_reserve_def enc_room_def enc_yields_def word_less_nat_alt)
  next
    case False
    let ?e = "e\<lparr>enc_ptr := enc_ptr e - bytes\<rparr>"
    have "enc_reserved mall src (unat bytes) (enc_out e h) ?e h"
    proof (cases "enc_buf e = 0")
      case True
      then have "bytes = 0"
        using False enc_buf_null [OF inv] by (simp add: word_less_nat_alt unat_eq_0)
      moreover from this have "?e = e"
        by (cases e) simp
      ultimately show ?thesis
        using good by (simp add: enc_reserved_def)
    next
      case buf: False
      note b = enc_inv_facts [OF inv buf]
      have le: "unat bytes \<le> unat (enc_ptr e) - unat (enc_buf e)"
        using False b(3) by (simp add: word_less_nat_alt unat_sub_le)
      then have u: "unat (enc_ptr e - bytes) = unat (enc_ptr e) - unat bytes"
        by (intro unat_sub_le) simp
      have "enc_inv mall src ?e h allocs i"
        using inv buf u le b(3,4) by (auto simp: enc_inv_def enc_buffer_def)
      then have g: "enc_good mall src ?e h"
        by (auto simp: enc_good_def)
      have len: "length (enc_out ?e h) = unat bytes + length (enc_out e h)"
        using u le b(3,4) unat_sub_le [of "enc_ptr e - bytes" "enc_limit e"] unat_sub_le [OF b(4)] by (simp add: enc_out_def)
      have "drop (unat bytes) (enc_out ?e h) = enc_out e h"
        using enc_skip(2) [OF g, of "unat bytes"] len by simp
      then show ?thesis
        using g len by (simp add: enc_reserved_def)
    qed
    moreover have "enc_room e \<le> enc_room ?e + unat bytes"
    proof -
      have "unat bytes \<le> unat (enc_ptr e - enc_buf e)"
        using False by (simp add: word_less_nat_alt)
      from unat_sub_le [OF this] have "unat (enc_ptr e - bytes - enc_buf e) = unat (enc_ptr e - enc_buf e) - unat bytes"
        by (simp add: algebra_simps)
      then show ?thesis
        by (simp add: enc_room_def)
    qed
    ultimately show ?thesis
      using False by (simp add: encode_reserve_def enc_yields_def same_conf_def)
  qed
qed

section \<open>Operations that prepend\<close>

text \<open>
  An operation prepends \<open>bs\<close> when it returns, with \<open>bs\<close> before the bytes written so far, or fails
  because the buffer has no room and the arena refused the memory for a larger one. Ten bytes more
  are needed since a varint is first written in ten bytes.
\<close>

definition enc_wrote ::
  "allocator \<Rightarrow> (u64 \<rightharpoonup> byte) \<Rightarrow> byte list \<Rightarrow> hpb_encstate \<Rightarrow> heap \<Rightarrow> hpb_encstate \<Rightarrow> heap \<Rightarrow> bool" where
  "enc_wrote mall src bs e h e' h' \<longleftrightarrow> enc_good mall src e' h' \<and> enc_out e' h' = bs @ enc_out e h \<and> same_conf e e' \<and>
     enc_room e \<le> enc_room e' + length bs"

definition enc_failed :: "allocator \<Rightarrow> byte list \<Rightarrow> hpb_encstate \<Rightarrow> heap \<Rightarrow> heap \<Rightarrow> bool" where
  "enc_failed mall bs e h h' \<longleftrightarrow> enc_room e < length bs + 10 \<and>
     enc_oom mall (enc_arena e) (length (enc_out e h) + length bs + 10) h'"

definition prepends :: "allocator \<Rightarrow> (u64 \<rightharpoonup> byte) \<Rightarrow> byte list \<Rightarrow> (hpb_encstate \<Rightarrow> heap \<Rightarrow> enc_result) \<Rightarrow> bool" where
  "prepends mall src bs f \<longleftrightarrow>
     (\<forall>e h. enc_good mall src e h \<longrightarrow> length (enc_out e h) + length bs + 10 \<le> 2 ^ 60 \<longrightarrow>
       enc_yields src (enc_failed mall bs e h) (f e h) (enc_wrote mall src bs e h))"

lemma prependsI:
  "(\<And>e h. enc_good mall src e h \<Longrightarrow> length (enc_out e h) + length bs + 10 \<le> 2 ^ 60 \<Longrightarrow>
     enc_yields src (enc_failed mall bs e h) (f e h) (enc_wrote mall src bs e h)) \<Longrightarrow> prepends mall src bs f"
  by (simp add: prepends_def)

lemma prependsD:
  "prepends mall src bs f \<Longrightarrow> enc_good mall src e h \<Longrightarrow> length (enc_out e h) + length bs + 10 \<le> 2 ^ 60 \<Longrightarrow>
   enc_yields src (enc_failed mall bs e h) (f e h) (enc_wrote mall src bs e h)"
  by (simp add: prepends_def)

lemma same_conf_trans: "same_conf e e1 \<Longrightarrow> same_conf e1 e2 \<Longrightarrow> same_conf e e2"
  by (simp add: same_conf_def)

lemma enc_wrote_trans:
  "enc_wrote mall src xs e h e1 h1 \<Longrightarrow> enc_wrote mall src ys e1 h1 e2 h2 \<Longrightarrow> enc_wrote mall src (ys @ xs) e h e2 h2"
  by (auto simp: enc_wrote_def intro: same_conf_trans)

lemma enc_failed_more: "enc_failed mall xs e h h' \<Longrightarrow> enc_failed mall (ys @ xs) e h h'"
  by (auto simp: enc_failed_def intro: enc_oom_mono)

lemma enc_failed_after:
  "enc_wrote mall src xs e h e1 h1 \<Longrightarrow> enc_failed mall ys e1 h1 h' \<Longrightarrow> enc_failed mall (ys @ xs) e h h'"
  by (auto simp: enc_failed_def enc_wrote_def same_conf_def intro: enc_oom_mono)

lemma enc_yields_bind:
  assumes "enc_yields src F r P" "\<And>e h. P e h \<Longrightarrow> enc_yields src F (g e h) Q"
  shows "enc_yields src F (res_bind r (\<lambda>(e, h). g e h)) Q"
proof -
  consider h' where "r = Inl (EncErr EncodeStatus_OutOfMemory h')" "src_in src h'" "F h'" | e' h' where "r = Inr (e', h')" "P e' h'"
    using assms(1) by (auto simp: enc_yields_def)
  then show ?thesis
    by cases (use assms(2) in \<open>auto simp: enc_yields_def\<close>)
qed

lemma enc_yields_mono:
  "enc_yields src F r P \<Longrightarrow> (\<And>h. F h \<Longrightarrow> G h) \<Longrightarrow> (\<And>e h. P e h \<Longrightarrow> Q e h) \<Longrightarrow> enc_yields src G r Q"
  by (auto simp: enc_yields_def)

lemma reserve_within:
  assumes "enc_good mall src e h" "length (enc_out e h) + length bs + 10 \<le> 2 ^ 60" "unat bytes \<le> length bs + 10"
  shows "enc_yields src (enc_failed mall bs e h) (encode_reserve mall bytes e h)
    (\<lambda>e' h'. enc_reserved mall src (unat bytes) (enc_out e h) e' h' \<and> same_conf e e' \<and> enc_room e \<le> enc_room e' + unat bytes)"
proof -
  have "length (enc_out e h) + unat bytes \<le> 2 ^ 60"
    using assms(2,3) by simp
  from reserve_correct [OF assms(1) this] show ?thesis
    by (rule enc_yields_mono) (use assms(3) in \<open>auto simp: enc_failed_def intro: enc_oom_mono\<close>)
qed

text \<open>Two operations one after the other; the second may depend on the state that the first leaves.\<close>

lemma prepends_after:
  assumes f: "prepends mall src xs f" and good: "enc_good mall src e h"
    and len: "length (enc_out e h) + length (ys @ xs) + 10 \<le> 2 ^ 60"
    and g: "\<And>e1 h1. enc_good mall src e1 h1 \<Longrightarrow> enc_out e1 h1 = xs @ enc_out e h \<Longrightarrow> prepends mall src ys (g e1)"
  shows "enc_yields src (enc_failed mall (ys @ xs) e h) (res_bind (f e h) (\<lambda>(e, h). g e e h)) (enc_wrote mall src (ys @ xs) e h)"
proof (rule enc_yields_bind)
  have "enc_yields src (enc_failed mall xs e h) (f e h) (enc_wrote mall src xs e h)"
    using prependsD [OF f good] len by simp
  then show "enc_yields src (enc_failed mall (ys @ xs) e h) (f e h) (enc_wrote mall src xs e h)"
    by (rule enc_yields_mono) (rule enc_failed_more)
next
  fix e1 h1
  assume 1: "enc_wrote mall src xs e h e1 h1"
  then have 2: "enc_good mall src e1 h1" "enc_out e1 h1 = xs @ enc_out e h"
    by (simp_all add: enc_wrote_def)
  have "enc_yields src (enc_failed mall ys e1 h1) (g e1 e1 h1) (enc_wrote mall src ys e1 h1)"
    using prependsD [OF g [OF 2] 2(1)] 2(2) len by simp
  then show "enc_yields src (enc_failed mall (ys @ xs) e h) (g e1 e1 h1) (enc_wrote mall src (ys @ xs) e h)"
    by (rule enc_yields_mono) (rule enc_failed_after [OF 1], assumption, rule enc_wrote_trans [OF 1])
qed

lemma prepends_bind:
  assumes "prepends mall src xs f" "prepends mall src ys g"
  shows "prepends mall src (ys @ xs) (\<lambda>e h. res_bind (f e h) (\<lambda>(e, h). g e h))"
  by (rule prependsI) (rule prepends_after [OF assms(1) _ _ assms(2)])

lemma prepends_none [simp]: "prepends mall src [] (\<lambda>e h. Inr (e, h))"
  by (simp add: prepends_def enc_yields_def enc_wrote_def same_conf_def)

definition src_has :: "(u64 \<rightharpoonup> byte) \<Rightarrow> u64 \<Rightarrow> byte list \<Rightarrow> bool" where
  "src_has src p bs \<longleftrightarrow> (\<forall>k < length bs. src (p + of_nat k) = Some (bs ! k))"

lemma src_has_read: "enc_good mall src e h \<Longrightarrow> src_has src p bs \<Longrightarrow> mem_read h p (length bs) = bs"
  by (intro nth_equalityI) (auto simp: enc_good_def enc_inv_def src_in_def src_has_def nth_mem_read)

lemma prepends_bytes:
  assumes data: "\<And>e h. enc_good mall src e h \<Longrightarrow> data_bytes data (unat len) h = bs" and len: "length bs = unat len"
  shows "prepends mall src bs (encode_bytes mall data len)"
proof (rule prependsI)
  fix e h
  assume good: "enc_good mall src e h" and le: "length (enc_out e h) + length bs + 10 \<le> 2 ^ 60"
  show "enc_yields src (enc_failed mall bs e h) (encode_bytes mall data len e h) (enc_wrote mall src bs e h)"
  proof (cases "len = 0")
    case True
    then show ?thesis
      using good len by (simp add: encode_bytes_def enc_yields_def enc_wrote_def same_conf_def)
  next
    case False
    have "enc_yields src (enc_failed mall bs e h)
      (res_bind (encode_reserve mall len e h) (\<lambda>(e, h). Inr (e, mem_write (enc_ptr e) (data_bytes data (unat len) h) h)))
      (enc_wrote mall src bs e h)"
    proof (rule enc_yields_bind [OF reserve_within [OF good le]])
      show "unat len \<le> length bs + 10"
        using len by simp
      fix e1 h1
      assume 1: "enc_reserved mall src (unat len) (enc_out e h) e1 h1 \<and> same_conf e e1 \<and> enc_room e \<le> enc_room e1 + unat len"
      then have g: "enc_good mall src e1 h1" "0 + length bs \<le> length (enc_out e1 h1)" "data_bytes data (unat len) h1 = bs"
        using len data [of e1 h1] by (simp_all add: enc_reserved_def)
      show "enc_yields src (enc_failed mall bs e h) (Inr (e1, mem_write (enc_ptr e1) (data_bytes data (unat len) h1) h1))
        (enc_wrote mall src bs e h)"
        using enc_write [OF g(1,2)] 1 len g(3) by (simp add: enc_yields_def enc_reserved_def enc_wrote_def)
    qed
    then show ?thesis
      using False by (simp add: encode_bytes_def)
  qed
qed

lemma room_skip:
  assumes "enc_good mall src e h" "k \<le> length (enc_out e h)"
  shows "enc_room (e\<lparr>enc_ptr := enc_ptr e + of_nat k\<rparr>) = enc_room e + k"
proof -
  obtain allocs i where inv: "enc_inv mall src e h allocs i"
    using assms(1) by (auto simp: enc_good_def)
  show ?thesis
  proof (cases "enc_buf e = 0")
    case True
    then show ?thesis
      using assms(2) enc_buf_null [OF inv] by (simp add: enc_room_def)
  next
    case False
    note b = enc_inv_facts [OF inv False]
    have p: "unat (enc_ptr e + of_nat k) = unat (enc_ptr e) + k"
      using assms(2) b(4,7,8) by (intro unat_offset) simp
    then show ?thesis
      using b(3) unat_sub_le [of "enc_buf e" "enc_ptr e + of_nat k"] unat_sub_le [OF b(3)] by (simp add: enc_room_def)
  qed
qed

lemma prepends_longvarint: "prepends mall src (encode_varint64 val) (encode_longvarint mall val)"
proof (rule prependsI)
  fix e h
  let ?v = "encode_varint64 val"
  assume good: "enc_good mall src e h" and le: "length (enc_out e h) + length ?v + 10 \<le> 2 ^ 60"
  have v: "length ?v \<le> 10"
    by (rule encode_varint64_max)
  show "enc_yields src (enc_failed mall ?v e h) (encode_longvarint mall val e h) (enc_wrote mall src ?v e h)"
    unfolding encode_longvarint_def
  proof (rule enc_yields_bind [OF reserve_within [OF good le]])
    show "unat (10 :: u64) \<le> length ?v + 10"
      by simp
    fix e1 h1
    assume 1: "enc_reserved mall src (unat (10 :: u64)) (enc_out e h) e1 h1 \<and> same_conf e e1 \<and> enc_room e \<le> enc_room e1 + unat (10 :: u64)"
    then have g1: "enc_good mall src e1 h1" "0 + length ?v \<le> length (enc_out e1 h1)" "drop 10 (enc_out e1 h1) = enc_out e h"
      "length (enc_out e1 h1) = 10 + length (enc_out e h)"
      using v by (simp_all add: enc_reserved_def)
    define h2 where "h2 = mem_write (enc_ptr e1) ?v h1"
    have g2: "enc_good mall src e1 h2" "enc_out e1 h2 = ?v @ drop (length ?v) (enc_out e1 h1)"
      using enc_write [OF g1(1,2)] by (simp_all add: h2_def)
    have len2: "length (enc_out e1 h2) = 10 + length (enc_out e h)"
      using g2(2) g1(4) v by simp
    let ?k = "10 - length ?v"
    have start: "enc_ptr e1 + 10 - of_nat (length ?v) = enc_ptr e1 + of_nat ?k"
      using v by (simp add: of_nat_diff)
    have read: "mem_read h2 (enc_ptr e1) (length ?v) = ?v"
    proof -
      have "mem_read h2 (enc_ptr e1) (length ?v) = take (length ?v) (enc_out e1 h2)"
        using len2 v by (intro nth_equalityI) (simp_all add: enc_out_def nth_mem_read)
      then show ?thesis
        using g2(2) by simp
    qed
    define h3 where "h3 = mem_write (enc_ptr e1 + of_nat ?k) ?v h2"
    have "?k + length ?v \<le> length (enc_out e1 h2)"
      using len2 v by simp
    note g3 = enc_write [OF g2(1) this, folded h3_def]
    have "?k \<le> length (enc_out e1 h3)"
      using g3(2) len2 v by simp
    note g4 = enc_skip [OF g3(1) this] room_skip [OF g3(1) this]
    have "drop ?k (enc_out e1 h3) = ?v @ enc_out e h"
      using g3(2) g2(2) g1(3) len2 v by (simp add: drop_drop)
    then have "enc_wrote mall src ?v e h (e1\<lparr>enc_ptr := enc_ptr e1 + of_nat ?k\<rparr>) h3"
      using g4 1 v by (simp add: enc_wrote_def same_conf_def)
    moreover have "unat (of_nat (length ?v) :: u64) = length ?v"
      using v by (simp add: unat_of_nat)
    ultimately show "enc_yields src (enc_failed mall ?v e h) (let h = mem_write (enc_ptr e1) ?v h1; len = of_nat (length ?v);
        start = enc_ptr e1 + 10 - len; h = mem_copy start (enc_ptr e1) len h in Inr (e1\<lparr>enc_ptr := start\<rparr>, h))
        (enc_wrote mall src ?v e h)"
      unfolding Let_def mem_copy_write h2_def [symmetric] start h3_def enc_yields_def by (simp add: read)
  qed
qed

end
