(* ===== verification/EncFields.thy ===== *)
theory EncFields
  imports EncBuffer
begin

text \<open>
  The bytes that the encoder writes for a field. \<open>wire_value\<close> is the reference: the wire type and
  the bytes of a value of a field type.
\<close>

section \<open>Values\<close>

lemma varint_small: "val < 128 \<Longrightarrow> encode_varint64 val = [ucast val]"
proof -
  assume "val < 128"
  then have u: "unat val < 128"
    by (simp add: word_less_nat_alt)
  then have "drop_bit 7 val = 0"
    by (simp add: word_unat_eq_iff unat_drop_7)
  moreover have "val AND 127 = val"
    unfolding and_127 using u by (simp add: word_unat_eq_iff unsigned_take_bit_eq take_bit_nat_eq_self_iff)
  ultimately show ?thesis
    by (simp add: encode_varint64.simps Let_def)
qed

lemma prepends_varint: "prepends mall src (encode_varint64 val) (encode_varint mall val)"
proof (rule prependsI)
  fix e h
  let ?v = "encode_varint64 val"
  assume good: "enc_good mall src e h" and le: "length (enc_out e h) + length ?v + 10 \<le> 2 ^ 60"
  show "enc_yields src (enc_failed mall ?v e h) (encode_varint mall val e h) (enc_wrote mall src ?v e h)"
  proof (cases "val < 128 \<and> enc_ptr e \<noteq> enc_buf e")
    case True
    let ?e = "e\<lparr>enc_ptr := enc_ptr e - 1\<rparr>"
    have "\<not> enc_ptr e - enc_buf e < 1"
      using True by (simp add: word_less_nat_alt unat_eq_0)
    then have "encode_reserve mall 1 e h = Inr (?e, h)"
      by (simp add: encode_reserve_def)
    then have r: "enc_reserved mall src 1 (enc_out e h) ?e h" "enc_room e \<le> enc_room ?e + 1"
      using reserve_correct [OF good, of 1] le by (simp_all add: enc_yields_def)
    then have g: "enc_good mall src ?e h" "0 + length [ucast val :: byte] \<le> length (enc_out ?e h)"
      by (simp_all add: enc_reserved_def)
    have "enc_wrote mall src ?v e h ?e (mem_write (enc_ptr ?e) [ucast val] h)"
      using enc_write [OF g] r varint_small [of val] True by (simp add: enc_reserved_def enc_wrote_def same_conf_def)
    then show ?thesis
      using True by (simp add: encode_varint_def enc_yields_def)
  next
    case False
    then have "encode_varint mall val e h = encode_longvarint mall val e h"
      by (auto simp: encode_varint_def)
    then show ?thesis
      using prependsD [OF prepends_longvarint good le] by simp
  qed
qed

lemma prepends_tag: "prepends mall src (encode_varint64 (ucast (wire_tag number wt))) (encode_tag mall number wt)"
  unfolding encode_tag_def by (rule prepends_varint)

lemma prepends_variable: "length bs = unat len \<Longrightarrow> prepends mall src bs (encode_bytes mall (InVariable bs) len)"
  by (rule prepends_bytes) simp_all

lemma prepends_fixed64: "prepends mall src (le_bytes 8 val) (encode_fixed64 mall val)"
  unfolding encode_fixed64_def by (rule prepends_variable) simp

lemma prepends_fixed32: "prepends mall src (le_bytes 4 (ucast val)) (encode_fixed32 mall val)"
  unfolding encode_fixed32_def by (rule prepends_variable) simp

lemma prepends_address:
  assumes "src_has src p bs" "length bs = unat len"
  shows "prepends mall src bs (encode_bytes mall (AtAddress p) len)"
  using src_has_read [OF _ assms(1)] assms(2) by (intro prepends_bytes) auto

section \<open>Memory\<close>

lemma src_has_append: "src_has src p (xs @ ys) \<longleftrightarrow> src_has src p xs \<and> src_has src (p + of_nat (length xs)) ys"
proof
  assume a: "src_has src p (xs @ ys)"
  have "src (p + of_nat (length xs) + of_nat k) = Some (ys ! k)" if "k < length ys" for k
    using a that unfolding src_has_def
    by (auto dest!: spec [of _ "length xs + k"] simp: nth_append add.assoc)
  moreover have "src (p + of_nat k) = Some (xs ! k)" if "k < length xs" for k
    using a that unfolding src_has_def by (auto dest!: spec [of _ k] simp: nth_append)
  ultimately show "src_has src p xs \<and> src_has src (p + of_nat (length xs)) ys"
    by (simp add: src_has_def)
next
  assume a: "src_has src p xs \<and> src_has src (p + of_nat (length xs)) ys"
  show "src_has src p (xs @ ys)"
    unfolding src_has_def
  proof (intro allI impI)
    fix k
    assume k: "k < length (xs @ ys)"
    show "src (p + of_nat k) = Some ((xs @ ys) ! k)"
    proof (cases "k < length xs")
      case True
      then show ?thesis
        using a by (simp add: src_has_def nth_append)
    next
      case False
      then have "src (p + of_nat (length xs) + of_nat (k - length xs)) = Some (ys ! (k - length xs))"
        using a k unfolding src_has_def by (auto simp del: of_nat_diff)
      moreover have "p + of_nat (length xs) + of_nat (k - length xs) = p + of_nat k"
        using False by simp
      ultimately show ?thesis
        using False by (simp add: nth_append)
    qed
  qed
qed

lemma src_load64: "enc_good mall src e h \<Longrightarrow> src_has src p (le_bytes 8 w) \<Longrightarrow> load64 h p = w"
  using src_has_read [of mall src e h p "le_bytes 8 w"] by (simp add: load64_def)

lemma ucast_take_32: "ucast (take_bit 32 w) = (ucast w :: u32)" for w :: u64
  by (rule bit_word_eqI) (auto simp: bit_simps)

lemma src_load32: "enc_good mall src e h \<Longrightarrow> src_has src p (le_bytes 4 w) \<Longrightarrow> load32 h p = ucast w"
  using src_has_read [of mall src e h p "le_bytes 4 w"] by (simp add: load32_def le_word_bytes ucast_take_32)

lemma src_load8: "enc_good mall src e h \<Longrightarrow> src_has src p (le_bytes 1 w) \<Longrightarrow> h_mem h p = ucast w"
  using src_has_read [of mall src e h p "le_bytes 1 w"] by (simp add: mem_read_def)

section \<open>The reference\<close>

datatype c_value = Bits u64 | Text "byte list"

text \<open>The number of bytes of a number of a field type in memory.\<close>

fun type_bytes :: "hpb_FieldType \<Rightarrow> nat" where
  "type_bytes FieldType_Bool = 1"
| "type_bytes FieldType_Float = 4"
| "type_bytes FieldType_Int32 = 4"
| "type_bytes FieldType_UInt32 = 4"
| "type_bytes FieldType_SInt32 = 4"
| "type_bytes FieldType_Enum = 4"
| "type_bytes FieldType_Fixed32 = 4"
| "type_bytes FieldType_SFixed32 = 4"
| "type_bytes _ = 8"

definition is_text :: "hpb_FieldType \<Rightarrow> bool" where
  "is_text type \<longleftrightarrow> type = FieldType_String \<or> type = FieldType_Bytes"

definition is_message :: "hpb_FieldType \<Rightarrow> bool" where
  "is_message type \<longleftrightarrow> type = FieldType_Group \<or> type = FieldType_Message"

text \<open>A value in memory.\<close>

fun value_at :: "(u64 \<rightharpoonup> byte) \<Rightarrow> hpb_FieldType \<Rightarrow> u64 \<Rightarrow> c_value \<Rightarrow> bool" where
  "value_at src type p (Bits w) \<longleftrightarrow> \<not> is_text type \<and> \<not> is_message type \<and> take_bit (8 * type_bytes type) w = w \<and>
     src_has src p (le_bytes (type_bytes type) w)"
| "value_at src type p (Text bs) \<longleftrightarrow> is_text type \<and> length bs < 2 ^ 64 \<and>
     (\<exists>data. src_has src p (le_bytes 8 data @ le_bytes 8 (of_nat (length bs))) \<and> src_has src data bs)"

definition wire_type_of :: "hpb_FieldType \<Rightarrow> hpb_WireType" where
  "wire_type_of type =
     (if is_text type then WireType_Delimited else if varint_bits type \<noteq> None then WireType_Varint
      else if type_bytes type = 4 then WireType_32Bit else WireType_64Bit)"

fun wire_value :: "hpb_FieldType \<Rightarrow> c_value \<Rightarrow> byte list" where
  "wire_value type (Text bs) = encode_varint64 (of_nat (length bs)) @ bs"
| "wire_value type (Bits w) =
     (if varint_bits type \<noteq> None then encode_varint64 (scalar_varint type w) else le_bytes (type_bytes type) w)"

definition wire_field :: "u32 \<Rightarrow> hpb_FieldType \<Rightarrow> c_value \<Rightarrow> byte list" where
  "wire_field number type v = encode_varint64 (ucast (wire_tag number (wire_type_of type))) @ wire_value type v"

section \<open>Scalar fields\<close>

lemma prepends_good:
  assumes "\<And>e h. enc_good mall src e h \<Longrightarrow> f e h = g e h" "prepends mall src bs g"
  shows "prepends mall src bs f"
  using assms by (simp add: prepends_def)

lemma ucast_id_32: "take_bit 32 w = w \<Longrightarrow> ucast (ucast w :: u32) = w" for w :: u64
proof -
  have "ucast (ucast w :: u32) = take_bit 32 w"
    by (rule bit_word_eqI) (auto simp: bit_simps)
  then show "take_bit 32 w = w \<Longrightarrow> ucast (ucast w :: u32) = w"
    by simp
qed

lemma ucast_id_8: "take_bit 8 w = w \<Longrightarrow> ucast (ucast w :: byte) = w" for w :: u64
proof -
  have "ucast (ucast w :: byte) = take_bit 8 w"
    by (rule bit_word_eqI) (auto simp: bit_simps)
  then show "take_bit 8 w = w \<Longrightarrow> ucast (ucast w :: byte) = w"
    by simp
qed

lemma load_varint_value:
  assumes "enc_good mall src e h" "value_at src type p (Bits w)" "varint_bits type \<noteq> None"
  shows "load_varint type h p = w"
  using assms src_load8 [OF assms(1), of p w] src_load32 [OF assms(1), of p w] src_load64 [OF assms(1), of p w]
  by (cases type) (simp_all add: load_varint_def ucast_id_32 ucast_id_8 is_text_def is_message_def)

lemma res_bind_pairs:
  "res_bind (res_bind r (\<lambda>(e, h). f e h)) (\<lambda>(e, h). g e h) = res_bind r (\<lambda>(e, h). res_bind (f e h) (\<lambda>(e, h). g e h))"
  by (cases r) auto

lemma scalar_tag:
  "res_bind (res_bind r (\<lambda>(e, h). Inr (Some wt, e, h))) (\<lambda>(w, e, h). case w of None \<Rightarrow> Inr (e, h) | Some wt \<Rightarrow> F wt e h) =
   res_bind r (\<lambda>(e, h). F wt e h)"
  by (cases r) auto

lemma encode_scalar_numbers:
  assumes v: "value_at src (descriptortype f) p (Bits w)" and good: "enc_good mall src e h"
  shows "encode_scalar mall em p subs f e h =
    res_bind (if varint_bits (descriptortype f) \<noteq> None then encode_varint mall (scalar_varint (descriptortype f) w) e h
      else encode_bytes mall (InVariable (le_bytes (type_bytes (descriptortype f)) w)) (of_nat (type_bytes (descriptortype f))) e h)
      (\<lambda>(e, h). encode_tag mall (f_number f) (wire_type_of (descriptortype f)) e h)"
proof -
  let ?type = "descriptortype f"
  have l4: "load32 h p = ucast w \<and> ucast (ucast w :: u32) = w" if "type_bytes ?type = 4"
    using v that src_load32 [OF good, of p w] by (simp add: ucast_id_32)
  have l8: "load64 h p = w" if "type_bytes ?type = 8"
    using v that src_load64 [OF good, of p w] by simp
  have m: "\<not> is_text ?type" "\<not> is_message ?type"
    using v by simp_all
  note defs = encode_scalar_def scalar_case_def wire_type_of_def Let_def scalar_tag
  show ?thesis
  proof (cases "varint_bits ?type = None")
    case True
    then show ?thesis
      using m l4 l8 by (cases ?type) (simp_all add: defs is_text_def is_message_def encode_double_def encode_float_def
        encode_fixed64_def encode_fixed32_def)
  next
    case False
    have "load_varint ?type h p = w"
      by (rule load_varint_value [OF good v False])
    then show ?thesis
      using False m by (cases ?type) (simp_all add: defs is_text_def)
  qed
qed

lemma encode_scalar_text:
  assumes v: "is_text (descriptortype f)" "src_has src p (le_bytes 8 data @ le_bytes 8 len)" and good: "enc_good mall src e h"
  shows "encode_scalar mall em p subs f e h =
    res_bind (encode_bytes mall (AtAddress data) len e h) (\<lambda>(e, h).
    res_bind (encode_varint mall len e h) (\<lambda>(e, h). encode_tag mall (f_number f) WireType_Delimited e h))"
proof -
  have "load64 h p = data" "load64 h (p + 8) = len"
    using v(2) src_load64 [OF good] by (simp_all add: src_has_append)
  then show ?thesis
    using v(1) by (cases "descriptortype f")
      (simp_all add: encode_scalar_def scalar_case_def is_text_def Let_def scalar_tag res_bind_pairs)
qed

lemma prepends_scalar:
  assumes "value_at src (descriptortype f) p v"
  shows "prepends mall src (wire_field (f_number f) (descriptortype f) v) (encode_scalar mall em p subs f)"
proof (cases v)
  case (Bits w)
  let ?type = "descriptortype f"
  have v: "value_at src ?type p (Bits w)"
    using assms Bits by simp
  have body: "prepends mall src (wire_value ?type v) (\<lambda>e h. if varint_bits ?type \<noteq> None then encode_varint mall (scalar_varint ?type w) e h
      else encode_bytes mall (InVariable (le_bytes (type_bytes ?type) w)) (of_nat (type_bytes ?type)) e h)"
  proof (cases "varint_bits ?type \<noteq> None")
    case True
    then show ?thesis
      using prepends_varint Bits by simp
  next
    case False
    have "unat (of_nat (type_bytes ?type) :: u64) = type_bytes ?type"
      by (cases ?type) simp_all
    then show ?thesis
      using False Bits prepends_variable [of "le_bytes (type_bytes ?type) w" "of_nat (type_bytes ?type)"] by simp
  qed
  show ?thesis
    unfolding wire_field_def
    by (rule prepends_good [OF encode_scalar_numbers [OF v] prepends_bind [OF body prepends_tag]])
next
  case (Text bs)
  then obtain data where d: "is_text (descriptortype f)" "src_has src p (le_bytes 8 data @ le_bytes 8 (of_nat (length bs)))"
    "src_has src data bs" "length bs < 2 ^ 64"
    using assms by auto
  have "length bs = unat (of_nat (length bs) :: u64)"
    using d(4) by (simp add: unat_of_nat)
  note body = prepends_bind [OF prepends_address [OF d(3) this] prepends_bind [OF prepends_varint prepends_tag]]
  have "wire_field (f_number f) (descriptortype f) v =
    (encode_varint64 (ucast (wire_tag (f_number f) WireType_Delimited)) @ encode_varint64 (of_nat (length bs))) @ bs"
    using Text d(1) by (simp add: wire_field_def wire_type_of_def)
  then show ?thesis
    using prepends_good [OF encode_scalar_text [OF d(1,2)] body] by simp
qed

section \<open>Repeated fields\<close>

lemma word_offset_0: "n < 2 ^ 64 \<Longrightarrow> start + of_nat n = start \<longleftrightarrow> n = 0" for start :: u64
  by (auto simp: word_of_nat_eq_0_iff dest: dvd_imp_le)

lemma prepends_back_step:
  assumes "prepends mall src (bs m) (body ptr)" "ptr = start \<longleftrightarrow> m = 0" "0 < m \<Longrightarrow> prepends mall src (concat (map bs [0..<m])) g"
  shows "prepends mall src (concat (map bs [0..<Suc m])) (\<lambda>e h. res_bind (body ptr e h) (\<lambda>(e, h). if ptr \<noteq> start then g e h else Inr (e, h)))"
proof (cases "m = 0")
  case True
  then show ?thesis
    using assms(1,2) prepends_bind [OF assms(1) prepends_none] by simp
next
  case False
  then show ?thesis
    using assms prepends_bind [OF assms(1) assms(3)] by simp
qed

lemma prepends_do_back:
  assumes "\<And>k. k < n \<Longrightarrow> prepends mall src (bs k) (body (start + of_nat (k * step)))" "0 < step" "n * step < 2 ^ 64" "0 < n"
  shows "prepends mall src (concat (map bs [0..<n])) (do_back n (of_nat step) start body (start + of_nat (n * step)))"
  using assms
proof (induction n)
  case (Suc m)
  let ?ptr = "start + of_nat (m * step)"
  have ptr: "start + of_nat (Suc m * step) - of_nat step = ?ptr"
    by simp
  have ms: "m * step < 2 ^ 64"
    using Suc.prems(3) by simp
  have "?ptr = start \<longleftrightarrow> m = 0"
    using word_offset_0 [OF ms, of start] Suc.prems(2) by (simp del: of_nat_mult)
  moreover have "prepends mall src (concat (map bs [0..<m])) (do_back m (of_nat step) start body ?ptr)" if "0 < m"
    using Suc.prems(1) by (intro Suc.IH Suc.prems(2) that ms) simp
  ultimately have "prepends mall src (concat (map bs [0..<Suc m])) (\<lambda>e h. res_bind (body ?ptr e h)
      (\<lambda>(e, h). if ?ptr \<noteq> start then do_back m (of_nat step) start body ?ptr e h else Inr (e, h)))"
    using Suc.prems(1) by (intro prepends_back_step) simp_all
  then show ?case
    unfolding do_back.simps(2) Let_def ptr prepends_def by simp
qed simp

lemma prepends_fixedarray_loop:
  assumes "\<And>k. k < n \<Longrightarrow> src_has src (data + of_nat (k * es)) (le_bytes es (w k))" "es = 4 \<or> es = 8" "n * es < 2 ^ 64" "0 < n"
    "\<And>k. k < n \<Longrightarrow> es = 4 \<Longrightarrow> take_bit 32 (w k) = w k" "tag \<noteq> 0"
  shows "prepends mall src (concat (map (\<lambda>k. encode_varint64 (ucast tag) @ le_bytes es (w k)) [0..<n]))
    (fixedarray_loop n mall data (of_nat es) tag (data + of_nat ((n - 1) * es)))"
  using assms
proof (induction n)
  case (Suc m)
  let ?bs = "\<lambda>k. encode_varint64 (ucast tag) @ le_bytes es (w k)" and ?ptr = "data + of_nat (m * es)"
  define body where "body ptr e h = res_bind (encode_bytes mall (InVariable (le_bytes es (w m))) (of_nat es) e h) (\<lambda>(e, h). encode_varint mall (ucast tag) e h)"
    for ptr :: u64 and e h
  have "unat (of_nat es :: u64) = es"
    using Suc.prems(2) by auto
  then have "prepends mall src (?bs m) (body ?ptr)"
    unfolding body_def by (intro prepends_bind prepends_varint prepends_variable) simp
  moreover have ms: "m * es < 2 ^ 64"
    using Suc.prems(3) by simp
  moreover have "?ptr = data \<longleftrightarrow> m = 0"
    using word_offset_0 [OF ms, of data] Suc.prems(2) by (auto simp del: of_nat_mult)
  moreover have "prepends mall src (concat (map ?bs [0..<m])) (fixedarray_loop m mall data (of_nat es) tag (data + of_nat ((m - 1) * es)))" if "0 < m"
    using Suc.prems(1,5,6) by (intro Suc.IH Suc.prems(2) that ms) simp_all
  ultimately have step: "prepends mall src (concat (map ?bs [0..<Suc m])) (\<lambda>e h. res_bind (body ?ptr e h)
      (\<lambda>(e, h). if ?ptr \<noteq> data then fixedarray_loop m mall data (of_nat es) tag (data + of_nat ((m - 1) * es)) e h else Inr (e, h)))"
    by (intro prepends_back_step)
  have "fixedarray_loop (Suc m) mall data (of_nat es) tag ?ptr e h = res_bind (body ?ptr e h)
      (\<lambda>(e, h). if ?ptr \<noteq> data then fixedarray_loop m mall data (of_nat es) tag (data + of_nat ((m - 1) * es)) e h else Inr (e, h))"
    if good: "enc_good mall src e h" for e h
  proof -
    have mem: "src_has src ?ptr (le_bytes es (w m))"
      using Suc.prems(1) by simp
    have X: "(if of_nat es = (4 :: u64) then encode_bytes mall (InVariable (le_bytes 4 (ucast (load32 h ?ptr)))) (of_nat es) e h
        else if of_nat es \<noteq> (8 :: u64) then Inl (EncMem FailedAssert)
        else encode_bytes mall (InVariable (le_bytes 8 (load64 h ?ptr))) (of_nat es) e h) =
      encode_bytes mall (InVariable (le_bytes es (w m))) (of_nat es) e h"
    proof (cases "es = 4")
      case True
      then have "load32 h ?ptr = ucast (w m)" "ucast (ucast (w m) :: u32) = w m"
        using mem src_load32 [OF good] Suc.prems(5) [of m] ucast_id_32 by auto
      then show ?thesis
        using True by (simp del: of_nat_mult)
    next
      case False
      then have "es = 8"
        using Suc.prems(2) by simp
      moreover from this have "load64 h ?ptr = w m"
        using mem src_load64 [OF good] by simp
      ultimately show ?thesis
        by (simp del: of_nat_mult)
    qed
    have next_ptr: "?ptr - of_nat es = data + of_nat ((m - 1) * es)" if "?ptr \<noteq> data"
      using that by (cases m) simp_all
    show ?thesis
    proof (cases "?ptr = data")
      case True
      then show ?thesis
        unfolding fixedarray_loop.simps(2) X body_def res_bind_pairs using Suc.prems(6) by (simp del: of_nat_mult)
    next
      case False
      then show ?thesis
        unfolding fixedarray_loop.simps(2) X body_def res_bind_pairs next_ptr [OF False] using Suc.prems(6)
        by (simp del: of_nat_mult fixedarray_loop.simps)
    qed
  qed
  then show ?case
    using prepends_good [OF _ step] by simp
qed simp

end
