(* ===== verification/EncArray.thy ===== *)
theory EncArray
  imports EncFields
begin

text \<open>Repeated fields: the bytes that the encoder writes for an array, packed or not.\<close>

section \<open>Arrays in memory\<close>

definition elem_bytes :: "hpb_FieldType \<Rightarrow> nat" where
  "elem_bytes type = (if is_text type then 16 else type_bytes type)"

definition array_at :: "(u64 \<rightharpoonup> byte) \<Rightarrow> hpb_FieldType \<Rightarrow> u64 \<Rightarrow> u64 \<Rightarrow> c_value list \<Rightarrow> bool" where
  "array_at src type arr start vs \<longleftrightarrow> length vs * elem_bytes type < 2 ^ 64 \<and>
     (\<exists>data. src_has src arr (le_bytes 8 data @ le_bytes 8 (of_nat (length vs))) \<and> data AND 7 \<le> 4 \<and> start = data AND NOT 7) \<and>
     (\<forall>k < length vs. value_at src type (start + of_nat (k * elem_bytes type)) (vs ! k))"

lemma elem_bytes_pos: "0 < elem_bytes type"
  by (cases type) (simp_all add: elem_bytes_def)

lemma array_at_read:
  assumes arr: "array_at src type arr start vs" and good: "enc_good mall src e h"
  shows "hpb_array_constptr h arr = Inr start" "Array_size h arr = of_nat (length vs)" "unat (Array_size h arr) = length vs"
proof -
  obtain data where d: "src_has src arr (le_bytes 8 data @ le_bytes 8 (of_nat (length vs)))" "data AND 7 \<le> 4" "start = data AND NOT 7"
    using arr by (auto simp: array_at_def)
  then have l: "load64 h arr = data" "load64 h (arr + 8) = of_nat (length vs)"
    using src_load64 [OF good] by (simp_all add: src_has_append)
  then show "hpb_array_constptr h arr = Inr start"
    using d(2,3) by (simp add: hpb_array_constptr_def hpb_Array_ElementSizeLg2_def Array_data_def Let_def)
  show s: "Array_size h arr = of_nat (length vs)"
    using l by (simp add: Array_size_def)
  have "length vs \<le> length vs * elem_bytes type"
    using elem_bytes_pos [of type] by simp
  moreover have "length vs * elem_bytes type < 2 ^ 64"
    using arr by (simp add: array_at_def)
  ultimately have "length vs < 2 ^ 64"
    by (rule le_less_trans)
  then show "unat (Array_size h arr) = length vs"
    unfolding s by (simp add: unat_of_nat)
qed

lemma map_nth_upt: "map (\<lambda>k. g (xs ! k)) [0..<length xs] = map g xs"
  by (rule nth_equalityI) simp_all

section \<open>Elements\<close>

definition tag_bytes :: "u32 \<Rightarrow> byte list" where
  "tag_bytes tag = (if tag = 0 then [] else encode_varint64 (ucast tag))"

lemma prepends_string_elem:
  assumes "is_text type" "value_at src type p v"
  shows "prepends mall src (wire_field number type v) (string_elem mall number p)"
proof -
  obtain bs data where v: "v = Text bs" "src_has src p (le_bytes 8 data @ le_bytes 8 (of_nat (length bs)))" "src_has src data bs"
    "length bs < 2 ^ 64"
    using assms by (cases v) auto
  let ?len = "of_nat (length bs) :: u64"
  have len: "length bs = unat ?len"
    using v(4) by (simp add: unat_of_nat)
  have eq: "string_elem mall number p e h = res_bind (encode_bytes mall (AtAddress data) ?len e h) (\<lambda>(e, h).
      res_bind (encode_varint mall ?len e h) (\<lambda>(e, h). encode_tag mall number WireType_Delimited e h))" if "enc_good mall src e h" for e h
  proof -
    have "load64 h p = data" "load64 h (p + 8) = ?len"
      using v(2) src_load64 [OF that] by (simp_all add: src_has_append)
    then show ?thesis
      by (simp add: string_elem_def Let_def)
  qed
  have "prepends mall src ((encode_varint64 (ucast (wire_tag number WireType_Delimited)) @ encode_varint64 ?len) @ bs) (string_elem mall number p)"
    by (rule prepends_good [OF eq prepends_bind [OF prepends_address [OF v(3) len] prepends_bind [OF prepends_varint prepends_tag]]])
  then show ?thesis
    using v(1) assms(1) by (simp add: wire_field_def wire_type_of_def)
qed

lemma prepends_opt_tag: "prepends mall src (tag_bytes tag) (\<lambda>e h. if tag \<noteq> 0 then encode_varint mall (ucast tag) e h else Inr (e, h))"
  by (cases "tag = 0") (simp_all add: tag_bytes_def prepends_varint)

lemma prepends_varint_elem:
  assumes "varint_bits type \<noteq> None" "value_at src type p (Bits w)"
  shows "prepends mall src (tag_bytes tag @ wire_value type (Bits w)) (varint_elem mall type tag p)"
proof -
  have "varint_elem mall type tag p e h = res_bind (encode_varint mall (scalar_varint type w) e h)
      (\<lambda>(e, h). if tag \<noteq> 0 then encode_varint mall (ucast tag) e h else Inr (e, h))" if "enc_good mall src e h" for e h
    using load_varint_value [OF that assms(2,1)] by (simp add: varint_elem_def)
  then show ?thesis
    using prepends_good prepends_bind [OF prepends_varint prepends_opt_tag] assms(1) by simp
qed

section \<open>Arrays written backwards\<close>

text \<open>
  The contract of a loop body: it prepends the bytes of the element at its address. The loop then
  prepends the elements in their order, although it runs from the last to the first.
\<close>

locale backward_writer =
  fixes mall :: allocator and src :: "u64 \<rightharpoonup> byte" and body :: "u64 \<Rightarrow> hpb_encstate \<Rightarrow> heap \<Rightarrow> enc_result"
    and element :: "u64 \<Rightarrow> c_value \<Rightarrow> bool" and wire :: "c_value \<Rightarrow> byte list"
  assumes body: "element p v \<Longrightarrow> prepends mall src (wire v) (body p)"
begin

lemma elements:
  assumes "\<forall>k < length vs. element (start + of_nat (k * step)) (vs ! k)" "0 < step" "length vs * step < 2 ^ 64" "vs \<noteq> []"
  shows "prepends mall src (concat (map wire vs)) (do_back (length vs) (of_nat step) start body (start + of_nat (length vs * step)))"
proof -
  have "prepends mall src (concat (map (\<lambda>k. wire (vs ! k)) [0..<length vs]))
    (do_back (length vs) (of_nat step) start body (start + of_nat (length vs * step)))"
    using assms by (intro prepends_do_back body) simp_all
  then show ?thesis
    unfolding map_nth_upt .
qed

end

interpretation texts: backward_writer mall src "string_elem mall number" "\<lambda>p v. is_text type \<and> value_at src type p v" "wire_field number type"
  for mall src number type
  by unfold_locales (auto intro: prepends_string_elem)

interpretation varints: backward_writer mall src "varint_elem mall type tag"
  "\<lambda>p v. varint_bits type \<noteq> None \<and> \<not> is_text type \<and> value_at src type p v" "\<lambda>v. tag_bytes tag @ wire_value type v"
  for mall src type tag
proof
  fix p v
  assume v: "varint_bits type \<noteq> None \<and> \<not> is_text type \<and> value_at src type p v"
  then obtain w where "v = Bits w"
    by (cases v) auto
  then show "prepends mall src (tag_bytes tag @ wire_value type v) (varint_elem mall type tag p)"
    using prepends_varint_elem [of type src p w] v by blast
qed

lemma src_has_concat:
  assumes "\<And>k. k < n \<Longrightarrow> src_has src (p + of_nat (k * es)) (bs k)" "\<And>k. k < n \<Longrightarrow> length (bs k) = es"
  shows "src_has src p (concat (map bs [0..<n])) \<and> length (concat (map bs [0..<n])) = n * es"
  using assms by (induction n) (simp_all add: src_has_append, simp add: src_has_def)

lemma prepends_fixedarray:
  assumes arr: "array_at src type arr start vs" and type: "\<not> is_text type" "\<not> is_message type" "varint_bits type = None" and vs: "vs \<noteq> []"
  shows "prepends mall src (concat (map (\<lambda>v. tag_bytes tag @ wire_value type v) vs)) (encode_fixedarray mall arr (of_nat (type_bytes type)) tag)"
proof -
  let ?es = "type_bytes type" and ?n = "length vs"
  define w where "w k = (case vs ! k of Bits w \<Rightarrow> w | Text _ \<Rightarrow> 0)" for k
  have es: "?es = 4 \<or> ?es = 8" "elem_bytes type = ?es"
    using type by (cases type; simp add: elem_bytes_def)+
  have val: "value_at src type (start + of_nat (k * ?es)) (Bits (w k)) \<and> vs ! k = Bits (w k)" if "k < ?n" for k
  proof -
    have "value_at src type (start + of_nat (k * ?es)) (vs ! k)"
      using arr that es(2) by (simp add: array_at_def)
    then show ?thesis
      using type(1) by (cases "vs ! k") (simp_all add: w_def)
  qed
  have elem: "src_has src (start + of_nat (k * ?es)) (le_bytes ?es (w k))" "?es = 4 \<Longrightarrow> take_bit 32 (w k) = w k" if "k < ?n" for k
    using val [OF that] by simp_all
  have small: "?n * ?es < 2 ^ 64" "0 < ?n"
    using arr vs es(2) by (simp_all add: array_at_def)
  have out: "concat (map (\<lambda>v. tag_bytes tag @ wire_value type v) vs) = concat (map (\<lambda>k. tag_bytes tag @ le_bytes ?es (w k)) [0..<?n])"
    using val type(3) by (subst map_nth_upt [symmetric]) (intro arg_cong [of _ _ concat] map_cong, auto)
  show ?thesis
  proof (cases "tag = 0")
    case True
    have c: "src_has src start (concat (map (\<lambda>k. le_bytes ?es (w k)) [0..<?n]))" "length (concat (map (\<lambda>k. le_bytes ?es (w k)) [0..<?n])) = ?n * ?es"
      using src_has_concat [of ?n src start ?es "\<lambda>k. le_bytes ?es (w k)"] elem(1) by simp_all
    have u: "unat (of_nat ?n * of_nat ?es :: u64) = ?n * ?es"
      using small(1) by (simp add: unat_of_nat flip: of_nat_mult)
    have eq: "encode_fixedarray mall arr (of_nat ?es) tag e h = encode_bytes mall (AtAddress start) (of_nat ?n * of_nat ?es) e h"
      if "enc_good mall src e h" for e h
      using array_at_read [OF arr that] True by (simp add: encode_fixedarray_def Let_def)
    have "prepends mall src (concat (map (\<lambda>k. le_bytes ?es (w k)) [0..<?n])) (encode_fixedarray mall arr (of_nat ?es) tag)"
      by (rule prepends_good [OF eq prepends_address [OF c(1)]]) (simp_all only: c(2) u)
    then show ?thesis
      unfolding out using True by (simp add: tag_bytes_def)
  next
    case False
    have eq: "encode_fixedarray mall arr (of_nat ?es) tag e h = fixedarray_loop ?n mall start (of_nat ?es) tag (start + of_nat ((?n - 1) * ?es)) e h"
      if "enc_good mall src e h" for e h
    proof -
      have pe: "start + of_nat ?n * of_nat ?es - of_nat ?es = start + of_nat ((?n - 1) * ?es)"
        using small(2) by (cases ?n) (simp_all add: algebra_simps)
      note a = array_at_read [OF arr that]
      show ?thesis
        unfolding encode_fixedarray_def Let_def a(1,2) enc_mem.simps res_bind_simps pe using False a(3) by (simp add: a(2) del: of_nat_mult)
    qed
    have "prepends mall src (concat (map (\<lambda>k. encode_varint64 (ucast tag) @ le_bytes ?es (w k)) [0..<?n])) (encode_fixedarray mall arr (of_nat ?es) tag)"
      by (rule prepends_good [OF eq prepends_fixedarray_loop]) (use elem es(1) small False in auto)
    then show ?thesis
      unfolding out using False by (simp add: tag_bytes_def)
  qed
qed

section \<open>Packed fields\<close>

text \<open>The length before the elements is the number of bytes written since the start of the array.\<close>

lemma prepends_packed:
  assumes f: "prepends mall src body f" and g: "\<And>len. len = of_nat (length body) \<Longrightarrow> prepends mall src ys (g len)"
  shows "prepends mall src (ys @ body) (\<lambda>e h. res_bind (f e h) (\<lambda>(e', h'). g (enc_limit e' - enc_ptr e' - (enc_limit e - enc_ptr e)) e' h'))"
proof (rule prependsI)
  fix e h
  assume good: "enc_good mall src e h" and len: "length (enc_out e h) + length (ys @ body) + 10 \<le> 2 ^ 60"
  show "enc_yields src (enc_failed mall (ys @ body) e h)
    (res_bind (f e h) (\<lambda>(e', h'). g (enc_limit e' - enc_ptr e' - (enc_limit e - enc_ptr e)) e' h'))
    (enc_wrote mall src (ys @ body) e h)"
  proof (rule prepends_after [OF f good len, where g = "\<lambda>e'. g (enc_limit e' - enc_ptr e' - (enc_limit e - enc_ptr e))"])
    fix e1 h1
    assume "enc_out e1 h1 = body @ enc_out e h"
    moreover have w: "enc_limit e - enc_ptr e = of_nat (length (enc_out e h))" for e h
      by (simp add: enc_out_def)
    ultimately have "enc_limit e1 - enc_ptr e1 - (enc_limit e - enc_ptr e) = of_nat (length body)"
      unfolding w [of e1 h1] w [of e h] by simp
    then show "prepends mall src ys (g (enc_limit e1 - enc_ptr e1 - (enc_limit e - enc_ptr e)))"
      by (rule g)
  qed
qed

definition wire_array :: "u32 \<Rightarrow> hpb_FieldType \<Rightarrow> bool \<Rightarrow> c_value list \<Rightarrow> byte list" where
  "wire_array number type packed vs =
     (if packed \<and> \<not> is_text type \<and> vs \<noteq> []
      then let body = concat (map (wire_value type) vs) in
        encode_varint64 (ucast (wire_tag number WireType_Delimited)) @ encode_varint64 (of_nat (length body)) @ body
      else concat (map (wire_field number type) vs))"

section \<open>The whole array\<close>

definition number_array :: "allocator \<Rightarrow> hpb_FieldType \<Rightarrow> u64 \<Rightarrow> u64 \<Rightarrow> nat \<Rightarrow> u32 \<Rightarrow> hpb_encstate \<Rightarrow> heap \<Rightarrow> enc_result" where
  "number_array mall type arr start n tag e h =
     (if varint_bits type \<noteq> None
      then do_back n (of_nat (type_bytes type)) start (varint_elem mall type tag) (start + of_nat (n * type_bytes type)) e h
      else encode_fixedarray mall arr (of_nat (type_bytes type)) tag e h)"

lemma prepends_number_array:
  assumes arr: "array_at src type arr start vs" and type: "\<not> is_text type" "\<not> is_message type" and vs: "vs \<noteq> []"
  shows "prepends mall src (concat (map (\<lambda>v. tag_bytes tag @ wire_value type v) vs)) (number_array mall type arr start (length vs) tag)"
proof (cases "varint_bits type = None")
  case True
  then have "number_array mall type arr start (length vs) tag = encode_fixedarray mall arr (of_nat (type_bytes type)) tag"
    by (simp add: number_array_def fun_eq_iff)
  then show ?thesis
    using prepends_fixedarray [OF arr type True vs] by simp
next
  case False
  have es: "elem_bytes type = type_bytes type" "0 < type_bytes type"
    using type(1) elem_bytes_pos [of type] by (simp_all add: elem_bytes_def)
  have "number_array mall type arr start (length vs) tag =
      do_back (length vs) (of_nat (type_bytes type)) start (varint_elem mall type tag) (start + of_nat (length vs * type_bytes type))"
    using False by (simp add: number_array_def fun_eq_iff)
  then show ?thesis
    using varints.elements [of vs type src start "type_bytes type" mall tag] arr type(1) False es vs by (simp add: array_at_def del: of_nat_mult)
qed

lemma encode_array_numbers:
  assumes field: "src_has src (msg + ucast (f_offset f)) (le_bytes 8 arr)" and arr: "array_at src (descriptortype f) arr start vs" "arr \<noteq> 0" "vs \<noteq> []"
    and type: "\<not> is_text (descriptortype f)" "\<not> is_message (descriptortype f)" and good: "enc_good mall src e h"
  shows "encode_array mall em msg subs f e h =
    (let packed = (f_mode f AND kHpb_LabelFlags_IsPacked \<noteq> 0); tag = (if packed then 0 else wire_tag (f_number f) (wire_type_of (descriptortype f))) in
     res_bind (number_array mall (descriptortype f) arr start (length vs) tag e h) (\<lambda>(e', h').
       if packed then res_bind (encode_varint mall (enc_limit e' - enc_ptr e' - (enc_limit e - enc_ptr e)) e' h')
         (\<lambda>(e, h). encode_tag mall (f_number f) WireType_Delimited e h)
       else Inr (e', h')))"
proof -
  note a = array_at_read [OF arr(1) good] and l = src_load64 [OF good field]
  have n0: "Array_size h arr \<noteq> 0"
    using a(3) arr(3) by auto
  show ?thesis
    using type arr(2) n0 a by (cases "descriptortype f")
      (simp_all add: encode_array_def number_array_def l Let_def is_text_def is_message_def wire_type_of_def varint_ctype_def)
qed

lemma encode_array_text:
  assumes field: "src_has src (msg + ucast (f_offset f)) (le_bytes 8 arr)" and arr: "array_at src (descriptortype f) arr start vs" "arr \<noteq> 0" "vs \<noteq> []"
    and type: "is_text (descriptortype f)" and good: "enc_good mall src e h"
  shows "encode_array mall em msg subs f e h =
    do_back (length vs) (of_nat 16) start (string_elem mall (f_number f)) (start + of_nat (length vs * 16)) e h"
proof -
  note a = array_at_read [OF arr(1) good] and l = src_load64 [OF good field]
  have n0: "Array_size h arr \<noteq> 0"
    using a(3) arr(3) by auto
  show ?thesis
    using type arr(2) n0 a by (cases "descriptortype f") (simp_all add: encode_array_def l Let_def is_text_def)
qed

lemma prepends_array:
  assumes field: "src_has src (msg + ucast (f_offset f)) (le_bytes 8 arr)" and arr: "array_at src (descriptortype f) arr start vs" "arr \<noteq> 0"
    and type: "\<not> is_message (descriptortype f)" and number: "wire_tag (f_number f) (wire_type_of (descriptortype f)) \<noteq> 0"
  shows "prepends mall src (wire_array (f_number f) (descriptortype f) (f_mode f AND kHpb_LabelFlags_IsPacked \<noteq> 0) vs)
    (encode_array mall em msg subs f)"
proof -
  let ?type = "descriptortype f" and ?packed = "f_mode f AND kHpb_LabelFlags_IsPacked \<noteq> 0"
  consider (empty) "vs = []" | (texts) "vs \<noteq> []" "is_text ?type" | (numbers) "vs \<noteq> []" "\<not> is_text ?type"
    by blast
  then show ?thesis
  proof cases
    case empty
    have "encode_array mall em msg subs f e h = Inr (e, h)" if "enc_good mall src e h" for e h
      using array_at_read(2) [OF arr(1) that] src_load64 [OF that field] empty by (simp add: encode_array_def Let_def)
    then show ?thesis
      using prepends_good [OF _ prepends_none] empty by (simp add: wire_array_def)
  next
    case texts
    have "prepends mall src (concat (map (wire_field (f_number f) ?type) vs))
      (do_back (length vs) (of_nat 16) start (string_elem mall (f_number f)) (start + of_nat (length vs * 16)))"
      using arr(1) texts by (intro texts.elements) (simp_all add: array_at_def elem_bytes_def)
    then show ?thesis
      using prepends_good [OF encode_array_text [OF field arr texts(1,2)]] texts by (simp add: wire_array_def)
  next
    case numbers
    note body = prepends_number_array [OF arr(1) numbers(2) type numbers(1), of mall]
    show ?thesis
    proof (cases ?packed)
      case True
      let ?ys = "encode_varint64 (ucast (wire_tag (f_number f) WireType_Delimited)) @ encode_varint64 (of_nat (length (concat (map (wire_value ?type) vs))))"
      have "prepends mall src (?ys @ concat (map (wire_value ?type) vs))
        (\<lambda>e h. res_bind (number_array mall ?type arr start (length vs) 0 e h) (\<lambda>(e', h').
           res_bind (encode_varint mall (enc_limit e' - enc_ptr e' - (enc_limit e - enc_ptr e)) e' h') (\<lambda>(e, h). encode_tag mall (f_number f) WireType_Delimited e h)))"
      proof (rule prepends_packed [where g = "\<lambda>len e h. res_bind (encode_varint mall len e h) (\<lambda>(e, h). encode_tag mall (f_number f) WireType_Delimited e h)"])
        show "prepends mall src (concat (map (wire_value ?type) vs)) (number_array mall ?type arr start (length vs) 0)"
          using body [of 0] by (simp add: tag_bytes_def)
      qed (simp add: prepends_bind [OF prepends_varint prepends_tag])
      then show ?thesis
        using prepends_good [OF encode_array_numbers [OF field arr numbers type]] True numbers by (simp add: wire_array_def Let_def)
    next
      case False
      have "prepends mall src (concat (map (wire_field (f_number f) ?type) vs)) (\<lambda>e h. res_bind
          (number_array mall ?type arr start (length vs) (wire_tag (f_number f) (wire_type_of ?type)) e h) (\<lambda>(e', h'). Inr (e', h')))"
        using prepends_bind [OF body [of "wire_tag (f_number f) (wire_type_of ?type)"] prepends_none] number by (simp add: tag_bytes_def wire_field_def [abs_def])
      then show ?thesis
        using prepends_good [OF encode_array_numbers [OF field arr numbers type]] False numbers by (simp add: wire_array_def Let_def)
    qed
  qed
qed

section \<open>Map entries\<close>

lemma prepends_mapentry:
  assumes fields: "t_fields layout = [key_field, val_field]"
    and key: "value_at src (descriptortype key_field) ent_k k" and val: "value_at src (descriptortype val_field) ent_v v"
  shows "prepends mall src
    (let body = wire_field (f_number key_field) (descriptortype key_field) k @ wire_field (f_number val_field) (descriptortype val_field) v in
     (encode_varint64 (ucast (wire_tag number WireType_Delimited)) @ encode_varint64 (of_nat (length body))) @ body)
    (encode_mapentry mall em number layout ent_k ent_v)"
proof -
  let ?subs = "t_subs layout"
  let ?body = "wire_field (f_number key_field) (descriptortype key_field) k @ wire_field (f_number val_field) (descriptortype val_field) v"
  let ?g = "\<lambda>len e h. res_bind (encode_varint mall len e h) (\<lambda>(e, h). encode_tag mall number WireType_Delimited e h)"
  note both = prepends_bind [OF prepends_scalar [OF val, of mall em ?subs] prepends_scalar [OF key, of mall em ?subs]]
  have "prepends mall src ((encode_varint64 (ucast (wire_tag number WireType_Delimited)) @ encode_varint64 (of_nat (length ?body))) @ ?body)
    (\<lambda>e h. res_bind (res_bind (encode_scalar mall em ent_v ?subs val_field e h) (\<lambda>(e, h). encode_scalar mall em ent_k ?subs key_field e h))
      (\<lambda>(e', h'). ?g (enc_limit e' - enc_ptr e' - (enc_limit e - enc_ptr e)) e' h'))"
    by (rule prepends_packed [OF both]) (simp add: prepends_bind [OF prepends_varint prepends_tag])
  moreover have "encode_mapentry mall em number layout ent_k ent_v e h =
    res_bind (res_bind (encode_scalar mall em ent_v ?subs val_field e h) (\<lambda>(e, h). encode_scalar mall em ent_k ?subs key_field e h))
      (\<lambda>(e', h'). ?g (enc_limit e' - enc_ptr e' - (enc_limit e - enc_ptr e)) e' h')" for e h
    by (simp add: encode_mapentry_def fields Let_def res_bind_pairs)
  ultimately show ?thesis
    by (simp add: Let_def prepends_def)
qed

end
