(* ===== verification/EncSafe.thy ===== *)
theory EncSafe
  imports EncArray
begin

text \<open>The theorems on the encoder: what it writes is what the decoder reads.\<close>

section \<open>Reading a field back\<close>

lemma le_bytes_read:
  "hpb_WireReader_ReadFixed64 (le_bytes 8 w @ rest) = Inr (rest, w)"
  "hpb_WireReader_ReadFixed32 (le_bytes 4 w @ rest) = Inr (rest, ucast w)"
  by (simp_all add: hpb_WireReader_ReadFixed64_def hpb_WireReader_ReadFixed32_def le_word_bytes [of 4] ucast_take_32)

lemma ReadSize_encode: "n < 2 ^ 31 - 1 \<Longrightarrow> hpb_WireReader_ReadSize (encode_varint64 (of_nat n) @ rest) = Inr (Some (rest, int n))"
proof -
  assume n: "n < 2 ^ 31 - 1"
  then have "\<not> (2147483647 :: u64) \<le> of_nat n" "uint (of_nat n :: u64) = int n"
    by (simp_all add: word_le_nat_alt unat_of_nat uint_nat)
  then show ?thesis
    by (simp add: hpb_WireReader_ReadSize_def Read_encode)
qed

lemma wire_tag_type: "hpb_WireReader_GetWireType (wire_tag number wt) = ucast (kHpb_WireType wt)"
proof -
  have low: "kHpb_WireType wt AND 7 = kHpb_WireType wt"
    by (cases wt) simp_all
  have num: "push_bit 3 number AND 7 = 0"
  proof -
    have "push_bit 3 number AND mask 3 = 0"
      by (rule bit_word_eqI) (auto simp: bit_simps)
    then show ?thesis
      by (simp add: mask_eq_exp_minus_1)
  qed
  show ?thesis
    unfolding hpb_WireReader_GetWireType_def wire_tag_def bit.conj_disj_distrib2 num low by simp
qed

lemma wire_tag_parts:
  assumes "unat number < 2 ^ 29"
  shows "hpb_WireReader_GetFieldNumber (wire_tag number wt) = number"
    "hpb_WireReader_GetWireType (wire_tag number wt) = ucast (kHpb_WireType wt)"
proof -
  have top: "\<not> bit number k" if "29 \<le> k" for k
  proof -
    have "take_bit 29 number = number"
      using assms by (simp add: word_unat_eq_iff unsigned_take_bit_eq take_bit_nat_eq_self_iff)
    then show ?thesis
      using that by (metis bit_take_bit_iff not_le)
  qed
  have low: "\<not> bit (kHpb_WireType wt) k" if "3 \<le> k" for k
  proof -
    have "take_bit 3 (kHpb_WireType wt) = kHpb_WireType wt"
      by (cases wt) simp_all
    then show ?thesis
      using that by (metis bit_take_bit_iff not_le)
  qed
  show "hpb_WireReader_GetFieldNumber (wire_tag number wt) = number"
    unfolding hpb_WireReader_GetFieldNumber_def wire_tag_def
    using top low by (intro bit_word_eqI) (auto simp: bit_simps, meson not_le)
  show "hpb_WireReader_GetWireType (wire_tag number wt) = ucast (kHpb_WireType wt)"
    by (rule wire_tag_type)
qed

text \<open>
  The decoder's reader of sizes (\<open>wire/decode.c\<close>). The check of the input stream compares the size
  with what is left of the input after the pointer; it is an argument here.
\<close>

definition hpb_Decoder_DecodeSize :: "(byte list \<Rightarrow> int \<Rightarrow> bool) \<Rightarrow> byte list \<Rightarrow> wire_fail + (byte list \<times> u32) option" where
  "hpb_Decoder_DecodeSize check_size ptr =
     res_bind (hpb_Decoder_DecodeVarint ptr) (\<lambda>r.
       case r of None \<Rightarrow> Inr None
       | Some (ptr, size64) \<Rightarrow>
           if size64 \<ge> 2147483647 \<or> \<not> check_size ptr (uint size64) then Inr None else Inr (Some (ptr, ucast size64)))"

lemma DecodeSize_encode:
  assumes "n < 2 ^ 31 - 1" "check_size rest (int n)"
  shows "hpb_Decoder_DecodeSize check_size (encode_varint64 (of_nat n) @ rest) = Inr (Some (rest, of_nat n))"
proof -
  have "\<not> (2147483647 :: u64) \<le> of_nat n" "uint (of_nat n :: u64) = int n"
    using assms(1) by (simp_all add: word_le_nat_alt unat_of_nat uint_nat)
  moreover have "ucast (of_nat n :: u64) = (of_nat n :: u32)"
    using assms(1) by (simp add: word_unat_eq_iff unat_ucast_mod unat_of_nat)
  ultimately show ?thesis
    using assms(2) by (simp add: hpb_Decoder_DecodeSize_def Decode_encode)
qed

text \<open>
  What the decoder's readers return for the bytes after the tag, on an input that ends where the
  bytes end.
\<close>

definition within_input :: "byte list \<Rightarrow> int \<Rightarrow> bool" where
  "within_input rest n \<longleftrightarrow> n \<le> int (length rest)"

definition reads_value :: "hpb_FieldType \<Rightarrow> byte list \<Rightarrow> c_value \<Rightarrow> byte list \<Rightarrow> bool" where
  "reads_value type bs v rest \<longleftrightarrow>
     (case v of
        Text s \<Rightarrow> hpb_Decoder_DecodeSize within_input bs = Inr (Some (s @ rest, of_nat (length s)))
      | Bits w \<Rightarrow>
          (case varint_bits type of
             Some k \<Rightarrow> \<exists>x. hpb_Decoder_DecodeVarint bs = Inr (Some (rest, x)) \<and> take_bit k (hpb_Decoder_Munge type x) = w
           | None \<Rightarrow> if type_bytes type = 4 then hpb_WireReader_ReadFixed32 bs = Inr (rest, ucast w)
                     else hpb_WireReader_ReadFixed64 bs = Inr (rest, w)))"

text \<open>A boolean is zero or one, and a text is shorter than the largest size.\<close>

fun value_fits :: "hpb_FieldType \<Rightarrow> c_value \<Rightarrow> bool" where
  "value_fits type (Bits w) \<longleftrightarrow> (type = FieldType_Bool \<longrightarrow> take_bit 1 w = w)"
| "value_fits type (Text s) \<longleftrightarrow> length s < 2 ^ 31 - 1"

lemma reads_wire_value:
  assumes v: "value_at src type p v" and fits: "value_fits type v"
  shows "reads_value type (wire_value type v @ rest) v rest"
proof (cases v)
  case (Text s)
  then show ?thesis
    using fits DecodeSize_encode [of "length s" within_input "s @ rest"]
    by (simp add: reads_value_def within_input_def)
next
  case (Bits w)
  show ?thesis
  proof (cases "varint_bits type")
    case None
    then have "type_bytes type = 4 \<or> type_bytes type = 8"
      using v Bits by (cases type) simp_all
    then show ?thesis
      using None Bits le_bytes_read by (auto simp: reads_value_def)
  next
    case (Some k)
    have "take_bit k w = w"
    proof (cases "type = FieldType_Bool")
      case True
      then show ?thesis
        using Some fits Bits by simp
    next
      case False
      then have "k = 8 * type_bytes type"
        using Some by (cases type) auto
      then show ?thesis
        using v Bits by simp
    qed
    then show ?thesis
      using Some Bits Munge_scalar [OF Some] Decode_encode [of "scalar_varint type w" rest] by (auto simp: reads_value_def)
  qed
qed

section \<open>An example\<close>

text \<open>An allocation of 64 bytes on a new arena that starts with given bytes.\<close>

definition ex_src :: "byte list \<Rightarrow> u64 \<rightharpoonup> byte" where
  "ex_src bs p = (if unat (p - 24) < length bs then Some (bs ! unat (p - 24)) else None)"

lemma ex_src_has: "take (length xs) (drop k bs) = xs \<Longrightarrow> length bs \<le> 64 \<Longrightarrow> k + length xs \<le> length bs \<Longrightarrow> src_has (ex_src bs) (24 + of_nat k) xs"
proof -
  assume xs: "take (length xs) (drop k bs) = xs" and len: "length bs \<le> 64" "k + length xs \<le> length bs"
  have "ex_src bs (24 + of_nat k + of_nat m) = Some (xs ! m)" if "m < length xs" for m
  proof -
    have "unat (24 + of_nat k + of_nat m - 24 :: u64) = unat (of_nat (k + m) :: u64)"
      by simp
    moreover have "unat (of_nat (k + m) :: u64) = k + m"
      using that len by (simp add: unat_of_nat del: of_nat_add)
    ultimately have u: "unat (24 + of_nat k + of_nat m - 24 :: u64) = k + m"
      by (rule trans)
    have "bs ! (k + m) = take (length xs) (drop k bs) ! m"
      using that len by simp
    then show ?thesis
      unfolding ex_src_def u using that len xs by simp
  qed
  then show ?thesis
    by (simp add: src_has_def)
qed

lemma ex_source:
  assumes "length bs \<le> 64"
  obtains h0 h where "hpb_Arena_New bump 16 (empty_heap []) = Inr (280, h0)" "hpb_Arena_Malloc bump 280 64 h0 = Inr (24, h)"
    "layout_ok h [(24, 64)]" "h_arenas h = [280 \<mapsto> (ex_arena 8)\<lparr>a_ptr := 88\<rparr>]"
    "\<And>p. p \<in> dom (ex_src bs) \<Longrightarrow> unat p \<in> range_of (24, 64)" "\<And>h. src_in (ex_src bs) (mem_write 24 bs h)"
proof -
  obtain h0 where h0: "hpb_Arena_New bump 16 (empty_heap []) = Inr (280, h0)" "h_arenas h0 = [280 \<mapsto> ex_arena 8]" "layout_ok h0 []"
    using one_arena by blast
  have al: "HPB_ALIGN_MALLOC 64 = 64"
    by (simp add: HPB_ALIGN_MALLOC_def HPB_ALIGN_UP_def HPB_MALLOC_ALIGN_def)
  have hd: "head_ok h0 (ex_arena 8)"
    using h0(2,3) by (simp add: layout_ok_def)
  let ?h = "set_arena 280 ((ex_arena 8)\<lparr>a_ptr := a_ptr (ex_arena 8) + HPB_ALIGN_MALLOC 64\<rparr>) h0"
  have "malloc_depth (Suc (Suc 0)) bump 280 64 h0 = Inr (a_ptr (ex_arena 8), ?h)"
    by (rule malloc_depth_fast [OF hd]) (simp_all add: h0(2) al ex_arena_def)
  then have m: "hpb_Arena_Malloc bump 280 64 h0 = Inr (24, ?h)"
    unfolding hpb_Arena_Malloc_def numeral_2_eq_2 by (simp add: ex_arena_def del: malloc_depth.simps)
  have "layout_ok ?h ([] @ [(a_ptr (ex_arena 8), HPB_ALIGN_MALLOC 64)])"
    by (rule take_layout [OF h0(3)]) (simp_all add: h0(2) al ex_arena_def)
  then have lay: "layout_ok ?h [(24, 64)]"
    by (simp add: al ex_arena_def)
  have "unat p \<in> range_of (24, 64)" if "p \<in> dom (ex_src bs)" for p :: u64
  proof -
    have "p - 24 < 64"
      using that assms by (auto simp: word_less_nat_alt ex_src_def split: if_splits)
    then show ?thesis
      using in_span [of 24 64 p] by (simp add: range_of_def)
  qed
  moreover have "src_in (ex_src bs) (mem_write 24 bs h)" for h
    by (simp add: src_in_def ex_src_def mem_write_def)
  moreover have "h_arenas ?h = [280 \<mapsto> (ex_arena 8)\<lparr>a_ptr := 88\<rparr>]"
    by (simp add: set_arena_def h0(2) al ex_arena_def)
  ultimately show thesis
    using that h0(1) m lay by blast
qed

text \<open>An encoder that has a buffer of 128 bytes.\<close>

definition ex_buf_enc :: hpb_encstate where
  "ex_buf_enc = \<lparr>enc_arena = 280, enc_buf = 88, enc_ptr = 216, enc_limit = 216, enc_options = 0, enc_depth = 100\<rparr>"

lemma buffered_encoder:
  assumes "length bs \<le> 64"
  obtains h0 h h1 where "hpb_Arena_New bump 16 (empty_heap []) = Inr (280, h0)" "hpb_Arena_Malloc bump 280 64 h0 = Inr (24, h)"
    "hpb_Arena_Malloc bump 280 128 h = Inr (88, h1)" "enc_good bump (ex_src bs) ex_buf_enc (mem_write 24 bs h1)"
    "enc_out ex_buf_enc (mem_write 24 bs h1) = []" "enc_room ex_buf_enc = 128"
proof -
  obtain h0 h where h: "hpb_Arena_New bump 16 (empty_heap []) = Inr (280, h0)" "hpb_Arena_Malloc bump 280 64 h0 = Inr (24, h)"
    "layout_ok h [(24, 64)]" "h_arenas h = [280 \<mapsto> (ex_arena 8)\<lparr>a_ptr := 88\<rparr>]"
    and src: "\<And>p. p \<in> dom (ex_src bs) \<Longrightarrow> unat p \<in> range_of (24, 64)" "\<And>h. src_in (ex_src bs) (mem_write 24 bs h)"
    using ex_source [OF assms] by blast
  let ?r = "(ex_arena 8)\<lparr>a_ptr := 88\<rparr>"
  let ?h1 = "set_arena 280 (?r\<lparr>a_ptr := a_ptr ?r + HPB_ALIGN_MALLOC 128\<rparr>) h"
  have al: "HPB_ALIGN_MALLOC 128 = 128"
    by (simp add: HPB_ALIGN_MALLOC_def HPB_ALIGN_UP_def HPB_MALLOC_ALIGN_def)
  have hd: "head_ok h ?r"
    using h(3,4) by (simp add: layout_ok_def)
  have "malloc_depth (Suc (Suc 0)) bump 280 128 h = Inr (a_ptr ?r, ?h1)"
    by (rule malloc_depth_fast [OF hd]) (simp_all add: h(4) al ex_arena_def)
  then have m: "hpb_Arena_Malloc bump 280 128 h = Inr (88, ?h1)"
    unfolding hpb_Arena_Malloc_def numeral_2_eq_2 by (simp del: malloc_depth.simps)
  have "layout_ok ?h1 ([(24, 64)] @ [(a_ptr ?r, HPB_ALIGN_MALLOC 128)])"
    by (rule take_layout [OF h(3)]) (simp_all add: h(4) al ex_arena_def)
  then have lay: "layout_ok ?h1 [(24, 64), (88, 128)]"
    by (simp add: al)
  have "src_apart (ex_src bs) [(24, 64), (88, 128)] 1"
    unfolding src_apart_def by (intro ballI exI [of _ 0]) (simp add: src(1))
  moreover have "\<exists>r. h_arenas (mem_write 24 bs ?h1) (enc_arena ex_buf_enc) = Some r \<and> a_block_alloc r \<noteq> 1"
    by (simp add: mem_write_def set_arena_def ex_buf_enc_def ex_arena_def)
  moreover have "enc_buffer ex_buf_enc [(24, 64), (88, 128)] 1"
    by (simp add: enc_buffer_def ex_buf_enc_def)
  ultimately have "enc_inv bump (ex_src bs) ex_buf_enc (mem_write 24 bs ?h1) [(24, 64), (88, 128)] 1"
    using bump_ok lay src(2) by (simp add: enc_inv_def)
  moreover have "enc_out ex_buf_enc (mem_write 24 bs ?h1) = []" "enc_room ex_buf_enc = 128"
    by (simp_all add: enc_out_def ex_buf_enc_def mem_read_def enc_room_def)
  ultimately show thesis
    using that h(1,2) m unfolding enc_good_def by blast
qed

definition ex_field :: hpb_MiniTableField where
  "ex_field = \<lparr>f_number = 1, f_offset = 0, f_presence = 0, submsg_index = 0, descriptortype = FieldType_Int32, f_mode = 5\<rparr>"

section \<open>Theorems\<close>

text \<open>
  C21: a field of a number or a text that the encoder writes is read back by the decoder. Unless
  the arena has no memory for the buffer, the bytes before those written earlier are a tag with the field's number and the
  wire type of its type, and after it the readers give the value in the field's memory, negative
  and zigzag values included, and stop at the bytes written earlier.
\<close>

theorem encode_scalar_roundtrip:
  assumes good: "enc_good mall src e h" and v: "value_at src (descriptortype f) p v" and fits: "value_fits (descriptortype f) v"
    and number: "unat (f_number f) < 2 ^ 29"
    and len: "length (enc_out e h) + length (wire_field (f_number f) (descriptortype f) v) + 10 \<le> 2 ^ 60"
  shows "(\<exists>h'. encode_scalar mall em p subs f e h = Inl (EncErr EncodeStatus_OutOfMemory h') \<and>
      enc_failed mall (wire_field (f_number f) (descriptortype f) v) e h h') \<or>
    (\<exists>e' h' tag bs. encode_scalar mall em p subs f e h = Inr (e', h') \<and> enc_good mall src e' h' \<and>
      hpb_Decoder_DecodeTag (enc_out e' h') = Inr (Some (bs, tag)) \<and> hpb_WireReader_GetFieldNumber tag = f_number f \<and>
      hpb_WireReader_GetWireType tag = ucast (kHpb_WireType (wire_type_of (descriptortype f))) \<and>
      reads_value (descriptortype f) bs v (enc_out e h))"
proof -
  let ?type = "descriptortype f"
  let ?tag = "wire_tag (f_number f) (wire_type_of ?type)"
  have "enc_yields src (enc_failed mall (wire_field (f_number f) ?type v) e h) (encode_scalar mall em p subs f e h)
    (enc_wrote mall src (wire_field (f_number f) ?type v) e h)"
    by (rule prependsD [OF prepends_scalar [OF v] good len])
  moreover have "hpb_Decoder_DecodeTag (wire_field (f_number f) ?type v @ enc_out e h) = Inr (Some (wire_value ?type v @ enc_out e h, ?tag))"
    by (simp add: wire_field_def DecodeTag_encode)
  ultimately show ?thesis
    using wire_tag_parts [OF number] reads_wire_value [OF v fits] unfolding enc_yields_def enc_wrote_def by fastforce
qed

theorem encode_scalar_roundtrip_witness:
  "\<exists>h0 h h1 e' h' bs tag. hpb_Arena_New bump 16 (empty_heap []) = Inr (280, h0) \<and> hpb_Arena_Malloc bump 280 64 h0 = Inr (24, h) \<and>
     hpb_Arena_Malloc bump 280 128 h = Inr (88, h1) \<and>
     encode_scalar bump (\<lambda>_ _ _ _. Inl (EncMem FailedAssert)) 24 [] ex_field ex_buf_enc (mem_write 24 [5, 0, 0, 0] h1) = Inr (e', h') \<and>
     hpb_Decoder_DecodeTag (enc_out e' h') = Inr (Some (bs, tag)) \<and> hpb_WireReader_GetFieldNumber tag = 1 \<and>
     reads_value FieldType_Int32 bs (Bits 5) []"
proof -
  let ?bs = "[5, 0, 0, 0] :: byte list"
  obtain h0 h h1 where h: "hpb_Arena_New bump 16 (empty_heap []) = Inr (280, h0)" "hpb_Arena_Malloc bump 280 64 h0 = Inr (24, h)"
    "hpb_Arena_Malloc bump 280 128 h = Inr (88, h1)" "enc_good bump (ex_src ?bs) ex_buf_enc (mem_write 24 ?bs h1)"
    "enc_out ex_buf_enc (mem_write 24 ?bs h1) = []" "enc_room ex_buf_enc = 128"
    using buffered_encoder [of ?bs] by auto
  have le: "le_bytes 4 5 = ?bs"
    by code_simp
  have "value_at (ex_src ?bs) (descriptortype ex_field) 24 (Bits 5)"
    using ex_src_has [of ?bs 0 ?bs] le by (simp add: ex_field_def is_text_def is_message_def)
  moreover have "value_fits (descriptortype ex_field) (Bits 5)" "unat (f_number ex_field) < 2 ^ 29"
    by (simp_all add: ex_field_def)
  moreover have "length (wire_field (f_number ex_field) (descriptortype ex_field) (Bits 5)) \<le> 20"
    using encode_varint64_max [of "ucast (wire_tag 1 (wire_type_of FieldType_Int32))"] encode_varint64_max [of "scalar_varint FieldType_Int32 5"]
    by (simp add: wire_field_def ex_field_def)
  moreover from this have "\<not> enc_failed bump (wire_field (f_number ex_field) (descriptortype ex_field) (Bits 5)) ex_buf_enc h2 h3" for h2 h3
    by (simp add: enc_failed_def h(6))
  ultimately show ?thesis
    using encode_scalar_roundtrip [OF h(4), of ex_field 24 "Bits 5" "\<lambda>_ _ _ _. Inl (EncMem FailedAssert)" "[]"] h(1-3,5)
    by (fastforce simp: ex_field_def)
qed

text \<open>
  C22: the encoder writes a repeated field of numbers or texts as its reference encoding: the bytes
  before those written earlier are the elements in their order, each with its tag, or for a packed
  field one tag and the length in bytes of the elements that follow. It fails only when the buffer
  has no room for them and the arena has no memory: the last request, for a buffer of at most twice the bytes to be written, found no
  room in the head block, and the arena has no block allocator or the allocator returned a null
  pointer. The memory of the message and of the array is not changed.
\<close>

theorem encode_array_refines:
  assumes good: "enc_good mall src e h" and field: "src_has src (msg + ucast (f_offset f)) (le_bytes 8 arr)"
    and arr: "array_at src (descriptortype f) arr start vs" "arr \<noteq> 0"
    and type: "\<not> is_message (descriptortype f)" and number: "0 < unat (f_number f)" "unat (f_number f) < 2 ^ 29"
    and len: "length (enc_out e h) + length (wire_array (f_number f) (descriptortype f) (f_mode f AND kHpb_LabelFlags_IsPacked \<noteq> 0) vs) + 10 \<le> 2 ^ 60"
  shows "(\<exists>h'. encode_array mall em msg subs f e h = Inl (EncErr EncodeStatus_OutOfMemory h') \<and> src_in src h' \<and>
      enc_failed mall (wire_array (f_number f) (descriptortype f) (f_mode f AND kHpb_LabelFlags_IsPacked \<noteq> 0) vs) e h h') \<or>
    (\<exists>e' h'. encode_array mall em msg subs f e h = Inr (e', h') \<and> enc_good mall src e' h' \<and>
      enc_out e' h' = wire_array (f_number f) (descriptortype f) (f_mode f AND kHpb_LabelFlags_IsPacked \<noteq> 0) vs @ enc_out e h)"
proof -
  have "wire_tag (f_number f) wt \<noteq> 0" for wt
  proof
    assume "wire_tag (f_number f) wt = 0"
    then have "f_number f = 0"
      using wire_tag_parts(1) [OF number(2), of wt] by (simp add: hpb_WireReader_GetFieldNumber_def)
    then show False
      using number(1) by simp
  qed
  then show ?thesis
    using prependsD [OF prepends_array [OF field arr type, of mall em subs] good len] unfolding enc_yields_def enc_wrote_def by blast
qed

text \<open>A message with an array pointer, the array and its two elements 5 and 300.\<close>

definition ex_message :: "byte list" where
  "ex_message = [32, 0, 0, 0, 0, 0, 0, 0] @ [50, 0, 0, 0, 0, 0, 0, 0] @ [2, 0, 0, 0, 0, 0, 0, 0] @ [5, 0, 0, 0] @ [44, 1, 0, 0]"

lemma ex_message_array:
  "src_has (ex_src ex_message) 24 (le_bytes 8 32)" "array_at (ex_src ex_message) FieldType_Int32 32 48 [Bits 5, Bits 300]"
proof -
  have le: "le_bytes 8 32 = [32, 0, 0, 0, 0, 0, 0, 0]" "le_bytes 8 50 = [50, 0, 0, 0, 0, 0, 0, 0]"
    "le_bytes 8 2 = [2, 0, 0, 0, 0, 0, 0, 0]" "le_bytes 4 5 = [5, 0, 0, 0]" "le_bytes 4 300 = [44, 1, 0, 0]"
    by code_simp+
  note has = ex_src_has [of _ _ ex_message]
  show "src_has (ex_src ex_message) 24 (le_bytes 8 32)"
    using has [of "le_bytes 8 32" 0] by (simp add: le ex_message_def)
  have "src_has (ex_src ex_message) 32 (le_bytes 8 50 @ le_bytes 8 2)"
    using has [of "le_bytes 8 50 @ le_bytes 8 2" 8] by (simp add: le ex_message_def)
  moreover have "src_has (ex_src ex_message) 48 (le_bytes 4 5)" "src_has (ex_src ex_message) 52 (le_bytes 4 300)"
    using has [of "le_bytes 4 5" 24] has [of "le_bytes 4 300" 28] by (simp_all add: le ex_message_def)
  ultimately show "array_at (ex_src ex_message) FieldType_Int32 32 48 [Bits 5, Bits 300]"
    by (auto simp: array_at_def elem_bytes_def is_text_def is_message_def less_Suc_eq intro!: exI [of _ 50])
qed

theorem encode_array_refines_witness:
  "\<exists>h0 h h1 e' h'. hpb_Arena_New bump 16 (empty_heap []) = Inr (280, h0) \<and> hpb_Arena_Malloc bump 280 64 h0 = Inr (24, h) \<and>
     hpb_Arena_Malloc bump 280 128 h = Inr (88, h1) \<and>
     encode_array bump (\<lambda>_ _ _ _. Inl (EncMem FailedAssert)) 24 [] ex_field ex_buf_enc (mem_write 24 ex_message h1) = Inr (e', h') \<and>
     enc_out e' h' = [10, 3, 5, 172, 2]"
proof -
  obtain h0 h h1 where h: "hpb_Arena_New bump 16 (empty_heap []) = Inr (280, h0)" "hpb_Arena_Malloc bump 280 64 h0 = Inr (24, h)"
    "hpb_Arena_Malloc bump 280 128 h = Inr (88, h1)" "enc_good bump (ex_src ex_message) ex_buf_enc (mem_write 24 ex_message h1)"
    "enc_out ex_buf_enc (mem_write 24 ex_message h1) = []" "enc_room ex_buf_enc = 128"
    using buffered_encoder [of ex_message] by (auto simp: ex_message_def)
  have f: "f_number ex_field = 1" "descriptortype ex_field = FieldType_Int32" "f_offset ex_field = 0" "f_mode ex_field AND kHpb_LabelFlags_IsPacked \<noteq> 0"
    by (simp_all add: ex_field_def kHpb_LabelFlags_IsPacked_def)
  have w: "wire_array 1 FieldType_Int32 True [Bits 5, Bits 300] = [10, 3, 5, 172, 2]"
    by code_simp
  show ?thesis
    using encode_array_refines [OF h(4), of 24 ex_field 32 48 "[Bits 5, Bits 300]" "\<lambda>_ _ _ _. Inl (EncMem FailedAssert)" "[]"]
      ex_message_array h(1-3,5,6) w f by (auto simp: is_message_def enc_failed_def)
qed

end
