(* ===== verification/EpsStream.thy ===== *)
theory EpsStream
  imports WireVarint
begin

text \<open>
  The input stream of the decoder (\<open>wire/eps_copy_input_stream.h\<close>, \<open>eps_copy_input_stream.c\<close>). The
  stream lets the decoder read 16 bytes at any position without a bounds check: the last 16 bytes
  of the input are read from a copy in the patch buffer, which has 16 more bytes after them.
  Pointers are addresses, the bytes are those of the heap, and \<open>e_patch\<close> is the address of the
  patch buffer in the stream structure. The other values of the structure are kept in a record.
\<close>

section \<open>State\<close>

record hpb_EpsCopyInputStream =
  e_end :: u64
  e_limit_ptr :: u64
  e_aliasing :: u64
  e_limit :: int
  e_error :: bool
  e_patch :: u64

definition to_int32 :: "int \<Rightarrow> int" where
  "to_int32 x = sint (word_of_int x :: u32)"

definition ptr_diff :: "u64 \<Rightarrow> u64 \<Rightarrow> int" where
  "ptr_diff p q = sint (p - q)"

definition kHpb_EpsCopyInputStream_SlopBytes :: u64 where
  "kHpb_EpsCopyInputStream_SlopBytes = 16"

definition hpb_EpsCopyInputStream_IsError :: "hpb_EpsCopyInputStream \<Rightarrow> bool" where
  "hpb_EpsCopyInputStream_IsError e = e_error e"

definition hpb_EpsCopyInputStream_Init ::
  "hpb_EpsCopyInputStream \<Rightarrow> u64 \<Rightarrow> u64 \<Rightarrow> bool \<Rightarrow> heap \<Rightarrow> hpb_EpsCopyInputStream \<times> u64 \<times> heap" where
  "hpb_EpsCopyInputStream_Init e ptr sz enable_aliasing h =
     (let (e, ptr, h) =
        (if sz \<le> kHpb_EpsCopyInputStream_SlopBytes
         then let h = mem_set (e_patch e) 0 32 h;
                  h = (if sz \<noteq> 0 then mem_copy (e_patch e) ptr sz h else h);
                  aliasing = (if enable_aliasing then ptr - e_patch e else 0);
                  ptr = e_patch e
              in (e\<lparr>e_aliasing := aliasing, e_end := ptr + sz, e_limit := 0\<rparr>, ptr, h)
         else (e\<lparr>e_end := ptr + sz - kHpb_EpsCopyInputStream_SlopBytes, e_limit := 16,
                 e_aliasing := (if enable_aliasing then 2 else 0)\<rparr>, ptr, h))
      in (e\<lparr>e_limit_ptr := e_end e, e_error := False\<rparr>, ptr, h))"

section \<open>The end of the stream\<close>

datatype hpb_IsDoneStatus = IsDoneStatus_Done | IsDoneStatus_NotDone | IsDoneStatus_NeedFallback

definition hpb_EpsCopyInputStream_IsDoneStatus :: "hpb_EpsCopyInputStream \<Rightarrow> u64 \<Rightarrow> hpb_IsDoneStatus \<times> int" where
  "hpb_EpsCopyInputStream_IsDoneStatus e ptr =
     (let overrun = to_int32 (ptr_diff ptr (e_end e)) in
      (if ptr < e_limit_ptr e then IsDoneStatus_NotDone
       else if overrun = e_limit e then IsDoneStatus_Done else IsDoneStatus_NeedFallback, overrun))"

definition hpb_EpsCopyInputStream_IsDoneFallbackInline ::
  "(hpb_EpsCopyInputStream \<Rightarrow> u64 \<Rightarrow> u64 \<Rightarrow> u64) \<Rightarrow> hpb_EpsCopyInputStream \<Rightarrow> u64 \<Rightarrow> int \<Rightarrow> heap \<Rightarrow>
   mem_fail + (u64 \<times> hpb_EpsCopyInputStream \<times> heap)" where
  "hpb_EpsCopyInputStream_IsDoneFallbackInline callback e ptr overrun h =
     (if overrun < e_limit e
      then if \<not> overrun < 16 then Inl FailedAssert
        else let old_end = ptr;
                 new_start = e_patch e + word_of_int overrun;
                 h = mem_set (e_patch e + kHpb_EpsCopyInputStream_SlopBytes) 0 kHpb_EpsCopyInputStream_SlopBytes h;
                 h = mem_copy (e_patch e) (e_end e) kHpb_EpsCopyInputStream_SlopBytes h;
                 ptr = new_start;
                 e = e\<lparr>e_end := e_patch e + kHpb_EpsCopyInputStream_SlopBytes, e_limit := e_limit e - 16\<rparr>;
                 e = e\<lparr>e_limit_ptr := e_end e + word_of_int (e_limit e)\<rparr>
             in if \<not> ptr < e_limit_ptr e then Inl FailedAssert
                else let e = (if e_aliasing e \<noteq> 0 then e\<lparr>e_aliasing := old_end - new_start\<rparr> else e)
                     in Inr (callback e old_end new_start, e, h)
      else if \<not> overrun > e_limit e then Inl FailedAssert
      else let e = e\<lparr>e_error := True\<rparr> in Inr (callback e 0 0, e, h))"

definition hpb_EpsCopyInputStream_NoOpCallback :: "hpb_EpsCopyInputStream \<Rightarrow> u64 \<Rightarrow> u64 \<Rightarrow> u64" where
  "hpb_EpsCopyInputStream_NoOpCallback e old_end new_start = new_start"

definition hpb_EpsCopyInputStream_IsDoneFallbackNoCallback ::
  "hpb_EpsCopyInputStream \<Rightarrow> u64 \<Rightarrow> int \<Rightarrow> heap \<Rightarrow> mem_fail + (u64 \<times> hpb_EpsCopyInputStream \<times> heap)" where
  "hpb_EpsCopyInputStream_IsDoneFallbackNoCallback e ptr overrun h =
     hpb_EpsCopyInputStream_IsDoneFallbackInline hpb_EpsCopyInputStream_NoOpCallback e ptr overrun h"

definition hpb_EpsCopyInputStream_IsDoneWithCallback ::
  "(hpb_EpsCopyInputStream \<Rightarrow> u64 \<Rightarrow> int \<Rightarrow> heap \<Rightarrow> mem_fail + (u64 \<times> hpb_EpsCopyInputStream \<times> heap)) \<Rightarrow>
   hpb_EpsCopyInputStream \<Rightarrow> u64 \<Rightarrow> heap \<Rightarrow> mem_fail + (bool \<times> u64 \<times> hpb_EpsCopyInputStream \<times> heap)" where
  "hpb_EpsCopyInputStream_IsDoneWithCallback func e ptr h =
     (let (status, overrun) = hpb_EpsCopyInputStream_IsDoneStatus e ptr in
      case status of
        IsDoneStatus_Done \<Rightarrow> Inr (True, ptr, e, h)
      | IsDoneStatus_NotDone \<Rightarrow> Inr (False, ptr, e, h)
      | IsDoneStatus_NeedFallback \<Rightarrow>
          res_bind (func e ptr overrun h) (\<lambda>(ptr, e, h). Inr (ptr = 0, ptr, e, h)))"

definition hpb_EpsCopyInputStream_IsDone ::
  "hpb_EpsCopyInputStream \<Rightarrow> u64 \<Rightarrow> heap \<Rightarrow> mem_fail + (bool \<times> u64 \<times> hpb_EpsCopyInputStream \<times> heap)" where
  "hpb_EpsCopyInputStream_IsDone =
     hpb_EpsCopyInputStream_IsDoneWithCallback hpb_EpsCopyInputStream_IsDoneFallbackNoCallback"

section \<open>Sizes\<close>

definition hpb_EpsCopyInputStream_BytesAvailable :: "hpb_EpsCopyInputStream \<Rightarrow> u64 \<Rightarrow> u64" where
  "hpb_EpsCopyInputStream_BytesAvailable e ptr = e_end e - ptr + kHpb_EpsCopyInputStream_SlopBytes"

definition hpb_EpsCopyInputStream_CheckSize :: "hpb_EpsCopyInputStream \<Rightarrow> u64 \<Rightarrow> int \<Rightarrow> mem_fail + bool" where
  "hpb_EpsCopyInputStream_CheckSize e ptr sz =
     (if \<not> sz \<ge> 0 then Inl FailedAssert else Inr (ptr_diff ptr (e_end e) + sz \<le> e_limit e))"

definition hpb_EpsCopyInputStream_CheckSizeAvailable ::
  "hpb_EpsCopyInputStream \<Rightarrow> u64 \<Rightarrow> int \<Rightarrow> bool \<Rightarrow> mem_fail + bool" where
  "hpb_EpsCopyInputStream_CheckSizeAvailable e ptr sz submessage =
     (let uend = e_limit_ptr e; res = ptr + word_of_int sz;
          uend = (if \<not> submessage then uend + kHpb_EpsCopyInputStream_SlopBytes else uend);
          ret = (res \<ge> ptr \<and> res \<le> uend)
      in if sz < 0 \<and> ret then Inl FailedAssert else Inr ret)"

definition hpb_EpsCopyInputStream_CheckDataSizeAvailable :: "hpb_EpsCopyInputStream \<Rightarrow> u64 \<Rightarrow> int \<Rightarrow> mem_fail + bool" where
  "hpb_EpsCopyInputStream_CheckDataSizeAvailable e ptr sz = hpb_EpsCopyInputStream_CheckSizeAvailable e ptr sz False"

definition hpb_EpsCopyInputStream_CheckSubMessageSizeAvailable ::
  "hpb_EpsCopyInputStream \<Rightarrow> u64 \<Rightarrow> int \<Rightarrow> mem_fail + bool" where
  "hpb_EpsCopyInputStream_CheckSubMessageSizeAvailable e ptr sz = hpb_EpsCopyInputStream_CheckSizeAvailable e ptr sz True"

definition hpb_EpsCopyInputStream_AliasingEnabled :: "hpb_EpsCopyInputStream \<Rightarrow> bool" where
  "hpb_EpsCopyInputStream_AliasingEnabled e \<longleftrightarrow> e_aliasing e \<noteq> 0"

definition hpb_EpsCopyInputStream_AliasingAvailable :: "hpb_EpsCopyInputStream \<Rightarrow> u64 \<Rightarrow> u64 \<Rightarrow> mem_fail + bool" where
  "hpb_EpsCopyInputStream_AliasingAvailable e ptr sz =
     res_bind (hpb_EpsCopyInputStream_CheckDataSizeAvailable e ptr (to_int32 (uint sz))) (\<lambda>ok.
       Inr (ok \<and> e_aliasing e \<ge> 2))"

text \<open>A violated \<open>HPB_ASSUME\<close> is a failed assertion.\<close>

definition hpb_EpsCopyInputStream_GetAliasedPtr :: "hpb_EpsCopyInputStream \<Rightarrow> u64 \<Rightarrow> mem_fail + u64" where
  "hpb_EpsCopyInputStream_GetAliasedPtr e ptr =
     res_bind (hpb_EpsCopyInputStream_AliasingAvailable e ptr 0) (\<lambda>ok.
       if \<not> ok then Inl FailedAssert
       else let delta = (if e_aliasing e = 2 then 0 else e_aliasing e) in Inr (ptr + delta))"

definition hpb_EpsCopyInputStream_ReadStringAliased ::
  "hpb_EpsCopyInputStream \<Rightarrow> u64 \<Rightarrow> u64 \<Rightarrow> mem_fail + (u64 \<times> u64)" where
  "hpb_EpsCopyInputStream_ReadStringAliased e ptr sz =
     res_bind (hpb_EpsCopyInputStream_AliasingAvailable e ptr sz) (\<lambda>ok.
       if \<not> ok then Inl FailedAssert
       else let ret = ptr + sz in
         res_bind (hpb_EpsCopyInputStream_GetAliasedPtr e ptr) (\<lambda>ptr.
           if ret = 0 then Inl FailedAssert else Inr (ret, ptr)))"

definition hpb_EpsCopyInputStream_Skip :: "hpb_EpsCopyInputStream \<Rightarrow> u64 \<Rightarrow> int \<Rightarrow> mem_fail + u64" where
  "hpb_EpsCopyInputStream_Skip e ptr sz =
     res_bind (hpb_EpsCopyInputStream_CheckDataSizeAvailable e ptr sz) (\<lambda>ok.
       if \<not> ok then Inr 0 else Inr (ptr + word_of_int sz))"

definition hpb_EpsCopyInputStream_Copy ::
  "hpb_EpsCopyInputStream \<Rightarrow> u64 \<Rightarrow> u64 \<Rightarrow> int \<Rightarrow> heap \<Rightarrow> mem_fail + (u64 \<times> heap)" where
  "hpb_EpsCopyInputStream_Copy e ptr to sz h =
     res_bind (hpb_EpsCopyInputStream_CheckDataSizeAvailable e ptr sz) (\<lambda>ok.
       if \<not> ok then Inr (0, h)
       else Inr (ptr + word_of_int sz, mem_copy to ptr (word_of_int sz) h))"

definition hpb_EpsCopyInputStream_ReadString ::
  "allocator \<Rightarrow> hpb_EpsCopyInputStream \<Rightarrow> u64 \<Rightarrow> u64 \<Rightarrow> u64 \<Rightarrow> heap \<Rightarrow> mem_fail + (u64 \<times> u64 \<times> heap)" where
  "hpb_EpsCopyInputStream_ReadString mall e ptr sz arena h =
     res_bind (hpb_EpsCopyInputStream_AliasingAvailable e ptr sz) (\<lambda>ok.
       if ok then res_bind (hpb_EpsCopyInputStream_ReadStringAliased e ptr sz) (\<lambda>(ret, ptr). Inr (ret, ptr, h))
       else res_bind (hpb_EpsCopyInputStream_CheckDataSizeAvailable e ptr (to_int32 (uint sz))) (\<lambda>ok.
         if \<not> ok then Inr (0, ptr, h)
         else if arena = 0 then Inl FailedAssert
         else res_bind (hpb_Arena_Malloc mall arena sz h) (\<lambda>(data, h).
           if data = 0 then Inr (0, ptr, h)
           else res_bind (hpb_EpsCopyInputStream_Copy e ptr data (to_int32 (uint sz)) h) (\<lambda>(ret, h).
             Inr (ret, data, h)))))"

section \<open>Limits\<close>

definition hpb_EpsCopyInputStream_CheckLimit :: "hpb_EpsCopyInputStream \<Rightarrow> bool" where
  "hpb_EpsCopyInputStream_CheckLimit e \<longleftrightarrow> e_limit_ptr e = e_end e + word_of_int (min 0 (e_limit e))"

definition hpb_EpsCopyInputStream_PushLimit ::
  "hpb_EpsCopyInputStream \<Rightarrow> u64 \<Rightarrow> int \<Rightarrow> mem_fail + (int \<times> hpb_EpsCopyInputStream)" where
  "hpb_EpsCopyInputStream_PushLimit e ptr sz =
     (let limit = to_int32 (sz + to_int32 (ptr_diff ptr (e_end e)));
          delta = to_int32 (e_limit e - limit)
      in if \<not> hpb_EpsCopyInputStream_CheckLimit e \<or> \<not> limit \<le> e_limit e then Inl FailedAssert
         else let e = e\<lparr>e_limit := limit, e_limit_ptr := e_end e + word_of_int (min 0 limit)\<rparr>
              in if \<not> hpb_EpsCopyInputStream_CheckLimit e then Inl FailedAssert else Inr (delta, e))"

definition hpb_EpsCopyInputStream_PopLimit ::
  "hpb_EpsCopyInputStream \<Rightarrow> u64 \<Rightarrow> int \<Rightarrow> mem_fail + hpb_EpsCopyInputStream" where
  "hpb_EpsCopyInputStream_PopLimit e ptr saved_delta =
     (if \<not> ptr_diff ptr (e_end e) = e_limit e \<or> \<not> hpb_EpsCopyInputStream_CheckLimit e then Inl FailedAssert
      else let limit = to_int32 (e_limit e + saved_delta);
               e = e\<lparr>e_limit := limit, e_limit_ptr := e_end e + word_of_int (min 0 limit)\<rparr>
           in if \<not> hpb_EpsCopyInputStream_CheckLimit e then Inl FailedAssert else Inr e)"

definition hpb_EpsCopyInputStream_TryParseDelimitedFast ::
  "(hpb_EpsCopyInputStream \<Rightarrow> u64 \<Rightarrow> heap \<Rightarrow> mem_fail + (u64 \<times> hpb_EpsCopyInputStream \<times> heap)) \<Rightarrow>
   hpb_EpsCopyInputStream \<Rightarrow> u64 \<Rightarrow> int \<Rightarrow> heap \<Rightarrow> mem_fail + (bool \<times> u64 \<times> hpb_EpsCopyInputStream \<times> heap)" where
  "hpb_EpsCopyInputStream_TryParseDelimitedFast func e ptr len h =
     res_bind (hpb_EpsCopyInputStream_CheckSubMessageSizeAvailable e ptr len) (\<lambda>ok.
       if \<not> ok then Inr (False, ptr, e, h)
       else let saved_limit_ptr = e_limit_ptr e; saved_limit = e_limit e;
                e = e\<lparr>e_limit_ptr := ptr + word_of_int len\<rparr>;
                e = e\<lparr>e_limit := to_int32 (ptr_diff (e_limit_ptr e) (e_end e))\<rparr>
            in if \<not> hpb_EpsCopyInputStream_CheckLimit e then Inl FailedAssert
               else res_bind (func e ptr h) (\<lambda>(ptr, e, h).
                 let e = e\<lparr>e_limit_ptr := saved_limit_ptr, e_limit := saved_limit\<rparr> in
                 if \<not> hpb_EpsCopyInputStream_CheckLimit e then Inl FailedAssert else Inr (True, ptr, e, h)))"

end
