(* ===== verification/EpsInv.thy ===== *)
theory EpsInv
  imports EpsStream ArrayOps
begin

text \<open>
  The input stream as a list of bytes with a position and a limit. The current buffer, the input
  itself or the patch buffer, is a window on the list: it starts at address \<open>s\<close>, position \<open>w\<close>, and
  \<open>R\<close> bytes of it may be read; \<open>e_end\<close> is position \<open>E\<close>, after which 16 more bytes may be read.
\<close>

section \<open>Invariant\<close>

definition eps_window :: "hpb_EpsCopyInputStream \<Rightarrow> heap \<Rightarrow> byte list \<Rightarrow> u64 \<Rightarrow> nat \<Rightarrow> nat \<Rightarrow> nat \<Rightarrow> bool" where
  "eps_window e h inp s w E R \<longleftrightarrow> w \<le> E \<and> E \<le> length inp \<and> length inp \<le> E + 16 \<and> E - w + 16 \<le> R \<and> s \<noteq> 0 \<and>
     unat s + R + 2 ^ 32 \<le> 2 ^ 63 \<and> e_end e = s + of_nat (E - w) \<and>
     (\<forall>q < length inp - w. h_mem h (s + of_nat q) = inp ! (w + q))"

definition eps_buffer :: "hpb_EpsCopyInputStream \<Rightarrow> byte list \<Rightarrow> u64 \<Rightarrow> nat \<Rightarrow> nat \<Rightarrow> nat \<Rightarrow> bool" where
  "eps_buffer e inp s w E R \<longleftrightarrow> e_patch e \<noteq> 0 \<and> unat (e_patch e) + 32 + 2 ^ 32 \<le> 2 ^ 63 \<and>
     (E = length inp \<and> s = e_patch e \<and> R = 32 \<or>
      E + 16 = length inp \<and> w = 0 \<and> R = length inp \<and>
      {unat s ..< unat s + R} \<inter> {unat (e_patch e) ..< unat (e_patch e) + 32} = {})"

definition eps_inv :: "hpb_EpsCopyInputStream \<Rightarrow> heap \<Rightarrow> byte list \<Rightarrow> nat \<Rightarrow> u64 \<Rightarrow> nat \<Rightarrow> nat \<Rightarrow> nat \<Rightarrow> bool" where
  "eps_inv e h inp L s w E R \<longleftrightarrow> eps_window e h inp s w E R \<and> eps_buffer e inp s w E R \<and> length inp < 2 ^ 31 \<and>
     e_limit e = int L - int E \<and> w \<le> L \<and> L \<le> length inp \<and> hpb_EpsCopyInputStream_CheckLimit e"

text \<open>The pointer is at position \<open>p\<close>, which may be past the end of the buffer.\<close>

definition eps_pos :: "hpb_EpsCopyInputStream \<Rightarrow> heap \<Rightarrow> byte list \<Rightarrow> nat \<Rightarrow> u64 \<Rightarrow> nat \<Rightarrow> bool" where
  "eps_pos e h inp L ptr p \<longleftrightarrow>
     (\<exists>s w E R. eps_inv e h inp L s w E R \<and> w \<le> p \<and> p < E + 2 ^ 31 \<and> ptr = s + of_nat (p - w))"

section \<open>Addresses\<close>

lemma to_int32_id: "- (2 ^ 31) \<le> x \<Longrightarrow> x < 2 ^ 31 \<Longrightarrow> to_int32 x = x"
  unfolding to_int32_def by (simp add: sint_sbintrunc' signed_take_bit_int_eq_self)

lemma offset_bounds:
  assumes "eps_inv e h inp L s w E R"
  shows "w \<le> E" "w \<le> L" "L \<le> length inp" "E \<le> length inp" "length inp \<le> E + 16" "E - w + 16 \<le> R"
    "unat s + R + 2 ^ 32 \<le> 2 ^ 63" "e_end e = s + of_nat (E - w)" "e_limit e = int L - int E" "length inp < 2 ^ 31" "s \<noteq> 0"
  using assms unfolding eps_inv_def eps_window_def by blast+

lemma unat_pos:
  assumes "eps_inv e h inp L s w E R" "p < E + 2 ^ 31"
  shows "unat (s + of_nat (p - w)) = unat s + (p - w)" "unat s + (p - w) < 2 ^ 63"
proof -
  note b = offset_bounds [OF assms(1)]
  have "p - w < E - w + 2 ^ 31"
    using assms(2) b(1) by simp
  then show lt: "unat s + (p - w) < 2 ^ 63"
    using b(6,7) by simp
  then show "unat (s + of_nat (p - w)) = unat s + (p - w)"
    by (intro unat_offset) simp
qed

lemma ptr_diff_pos:
  assumes inv: "eps_inv e h inp L s w E R" and p: "w \<le> p" "p < E + 2 ^ 31"
  shows "ptr_diff (s + of_nat (p - w)) (e_end e) = int p - int E"
proof -
  note b = offset_bounds [OF inv]
  have "unat (s + of_nat (E - w)) = unat s + (E - w)" "unat s + (E - w) < 2 ^ 63"
    using unat_pos [OF inv, of E] by simp_all
  then show ?thesis
    using unat_pos [OF inv p(2)] p(1) b(1) unfolding ptr_diff_def b(8) by (subst sint_diff) (simp_all add: of_nat_diff)
qed

lemma limit_ptr_pos:
  assumes "eps_inv e h inp L s w E R"
  shows "e_limit_ptr e = s + of_nat (min E L - w)"
proof -
  note b = offset_bounds [OF assms]
  have "e_limit_ptr e = s + of_nat (E - w) + word_of_int (min 0 (int L - int E))"
    using assms b(8,9) by (simp add: eps_inv_def hpb_EpsCopyInputStream_CheckLimit_def)
  also have "\<dots> = s + word_of_int (int (E - w) + min 0 (int L - int E))"
    by simp
  also have "int (E - w) + min 0 (int L - int E) = int (min E L - w)"
    using b(1,2) by (auto simp: min_def of_nat_diff)
  finally show ?thesis
    by simp
qed

lemma before_limit:
  assumes inv: "eps_inv e h inp L s w E R" and p: "w \<le> p" "p < E + 2 ^ 31"
  shows "s + of_nat (p - w) < e_limit_ptr e \<longleftrightarrow> p < min E L"
proof -
  note b = offset_bounds [OF inv]
  have "unat (s + of_nat (min E L - w)) = unat s + (min E L - w)"
    by (rule unat_pos [OF inv]) simp
  then show ?thesis
    using unat_pos(1) [OF inv p(2)] p(1) b(1,2) by (auto simp: limit_ptr_pos [OF inv] word_less_nat_alt)
qed

section \<open>The end of the stream\<close>

lemma writes_refl: "writes p N h h"
  by (auto simp: writes_def intro: exI [of _ "h_mem h"])

lemma flip_patch:
  assumes inv: "eps_inv e h inp L s w E R" and p: "E \<le> p" "p < L"
  shows "\<exists>e' h'. hpb_EpsCopyInputStream_IsDoneFallbackNoCallback e (s + of_nat (p - w)) (int p - int E) h =
      Inr (e_patch e + of_nat (p - E), e', h') \<and> eps_inv e' h' inp L (e_patch e) E (length inp) 32 \<and>
      e_error e' = e_error e \<and> writes (e_patch e) 32 h h'"
proof -
  let ?P = "e_patch e"
  note b = offset_bounds [OF inv]
  have buf: "E + 16 = length inp" "w = 0" "R = length inp" "?P \<noteq> 0" "unat ?P + 32 + 2 ^ 32 \<le> 2 ^ 63"
    "{unat s ..< unat s + R} \<inter> {unat ?P ..< unat ?P + 32} = {}"
    using inv p b(3) by (auto simp: eps_inv_def eps_buffer_def)
  define h1 where "h1 = mem_set (?P + 16) 0 16 h"
  define h2 where "h2 = mem_copy ?P (e_end e) 16 h1"
  have P: "unat ?P + 32 < 2 ^ 64"
    using buf(5) by simp
  have w1: "writes ?P 32 h h1"
    using writes_offset(1) [OF P, of 16 16 h 0] by (simp add: h1_def)
  have w2: "writes ?P 32 h1 h2"
    using writes_offset(3) [OF P, of 0 16 h1 "e_end e"] by (simp add: h2_def)
  have w12: "writes ?P 32 h h2"
    using w1 w2 by (auto simp: writes_def)
  have bytes: "h_mem h2 (?P + of_nat q) = inp ! (E + q)" if q: "q < 16" for q
  proof -
    have "h_mem h2 (?P + of_nat q) = h_mem h1 (e_end e + of_nat q)"
      using h_mem_copy [of ?P 16 "e_end e" h1 "?P + of_nat q"] P q unat_offset [of ?P q] by (simp add: h2_def)
    also have "e_end e + of_nat q = s + of_nat (E + q)"
      using b(8) buf(2) by (simp add: add.assoc)
    also have "h_mem h1 (s + of_nat (E + q)) = h_mem h (s + of_nat (E + q))"
    proof -
      have "E + q < R"
        using q buf(1,3) by simp
      then have "unat (s + of_nat (E + q)) = unat s + (E + q)" "unat s + (E + q) \<in> {unat s ..< unat s + R}"
        using unat_offset [of s "E + q"] b(7) by simp_all
      then have "unat (s + of_nat (E + q)) \<notin> {unat ?P ..< unat ?P + 32}"
        using buf(6) by auto
      then show ?thesis
        using w1 by (simp add: writes_def)
    qed
    also have "\<dots> = inp ! (E + q)"
    proof -
      have "\<forall>k < length inp - w. h_mem h (s + of_nat k) = inp ! (w + k)"
        using inv unfolding eps_inv_def eps_window_def by blast
      then show ?thesis
        using q buf(1,2) by (simp del: of_nat_add)
    qed
    finally show ?thesis .
  qed
  let ?e1 = "e\<lparr>e_end := ?P + 16, e_limit := e_limit e - 16, e_limit_ptr := ?P + 16 + word_of_int (e_limit e - 16)\<rparr>"
  have lim: "?P + 16 + word_of_int (e_limit e - 16) = ?P + of_nat (L - E)"
  proof -
    have "?P + 16 + word_of_int (e_limit e - 16) = ?P + word_of_int (e_limit e)"
      by simp
    also have "word_of_int (e_limit e) = (of_nat (L - E) :: u64)"
    proof -
      have "e_limit e = int (L - E)"
        using b(9) p by (simp add: of_nat_diff)
      then show ?thesis
        by (simp only: of_int_of_nat_eq)
    qed
    finally show ?thesis .
  qed
  have start: "?P + word_of_int (int p - int E) = ?P + of_nat (p - E)"
  proof -
    have "int p - int E = int (p - E)"
      using p(1) by (simp add: of_nat_diff)
    then show ?thesis
      by (simp only: of_int_of_nat_eq)
  qed
  have le: "L - E \<le> 16"
    using b(3) buf(1) by simp
  have before: "?P + of_nat (p - E) < ?P + of_nat (L - E)"
    using unat_offset [of ?P "p - E"] unat_offset [of ?P "L - E"] P le p by (simp add: word_less_nat_alt)
  define e' where "e' = (if e_aliasing ?e1 \<noteq> 0 then ?e1\<lparr>e_aliasing := s + of_nat (p - w) - (?P + of_nat (p - E))\<rparr> else ?e1)"
  have e': "e_end e' = ?P + 16" "e_limit e' = e_limit e - 16" "e_limit_ptr e' = ?P + of_nat (L - E)" "e_patch e' = ?P"
    "e_error e' = e_error e"
    using lim by (simp_all add: e'_def)
  have "eps_inv e' h2 inp L ?P E (length inp) 32"
  proof -
    have sz: "length inp - E = 16" "E \<le> length inp"
      using buf(1) by simp_all
    have "eps_window e' h2 inp ?P E (length inp) 32"
      using buf(4,5) bytes by (simp add: eps_window_def e' sz del: of_nat_diff)
    moreover have "eps_buffer e' inp ?P E (length inp) 32"
      using buf by (simp add: eps_buffer_def e')
    moreover have "hpb_EpsCopyInputStream_CheckLimit e'"
      using b(9) le p lim by (simp add: hpb_EpsCopyInputStream_CheckLimit_def e')
    ultimately show ?thesis
      using b p buf(1) by (simp add: eps_inv_def e')
  qed
  moreover have "hpb_EpsCopyInputStream_IsDoneFallbackNoCallback e (s + of_nat (p - w)) (int p - int E) h =
      Inr (?P + of_nat (p - E), e', h2)"
    using p b(9) le before lim
    unfolding hpb_EpsCopyInputStream_IsDoneFallbackNoCallback_def hpb_EpsCopyInputStream_IsDoneFallbackInline_def
      hpb_EpsCopyInputStream_NoOpCallback_def kHpb_EpsCopyInputStream_SlopBytes_def Let_def start
    by (simp add: e'_def h2_def h1_def)
  ultimately show ?thesis
    using e'(5) w12 by blast
qed

lemma IsDone_correct:
  assumes inv: "eps_inv e h inp L s w E R" and p: "w \<le> p" "p < E + 2 ^ 31"
  shows "\<exists>d ptr' e' h'. hpb_EpsCopyInputStream_IsDone e (s + of_nat (p - w)) h = Inr (d, ptr', e', h') \<and>
    writes (e_patch e) 32 h h' \<and>
    (if p < L
     then \<not> d \<and> e_error e' = e_error e \<and> (\<exists>s' w' E' R'. eps_inv e' h' inp L s' w' E' R' \<and> w' \<le> p \<and> p < E' \<and> ptr' = s' + of_nat (p - w'))
     else if p = L then d \<and> ptr' = s + of_nat (p - w) \<and> e' = e \<and> h' = h
     else d \<and> ptr' = 0 \<and> e_error e' \<and> h' = h)"
proof -
  let ?ptr = "s + of_nat (p - w)"
  note b = offset_bounds [OF inv]
  have same: "writes (e_patch e) 32 h h"
    by (rule writes_refl)
  have over: "to_int32 (ptr_diff ?ptr (e_end e)) = int p - int E" if "min E L \<le> p"
    using that ptr_diff_pos [OF inv p] b(3,4,10) p(2) by (subst to_int32_id) auto
  have status: "hpb_EpsCopyInputStream_IsDone e ?ptr h =
      (if p = L then Inr (True, ?ptr, e, h)
       else res_bind (hpb_EpsCopyInputStream_IsDoneFallbackNoCallback e ?ptr (int p - int E) h) (\<lambda>(ptr, e, h). Inr (ptr = 0, ptr, e, h)))"
    if le: "min E L \<le> p"
    using before_limit [OF inv p, THEN iffD1] over [OF le] le b(9)
    by (auto simp: hpb_EpsCopyInputStream_IsDone_def hpb_EpsCopyInputStream_IsDoneWithCallback_def
        hpb_EpsCopyInputStream_IsDoneStatus_def Let_def)
  consider (inside) "p < min E L" | (at_limit) "p = L" "min E L \<le> p" | (past) "L < p" "min E L \<le> p" | (flip) "E \<le> p" "p < L"
    by linarith
  then show ?thesis
  proof cases
    case inside
    then have "hpb_EpsCopyInputStream_IsDone e ?ptr h = Inr (False, ?ptr, e, h)"
      using before_limit [OF inv p]
      by (simp add: hpb_EpsCopyInputStream_IsDone_def hpb_EpsCopyInputStream_IsDoneWithCallback_def
          hpb_EpsCopyInputStream_IsDoneStatus_def Let_def)
    then show ?thesis
      using inside inv p(1) same by (intro exI conjI) (auto simp del: of_nat_diff)
  next
    case at_limit
    then show ?thesis
      using status same by auto
  next
    case past
    then have "hpb_EpsCopyInputStream_IsDoneFallbackNoCallback e ?ptr (int p - int E) h = Inr (0, e\<lparr>e_error := True\<rparr>, h)"
      using b(9) by (simp add: hpb_EpsCopyInputStream_IsDoneFallbackNoCallback_def hpb_EpsCopyInputStream_IsDoneFallbackInline_def
          hpb_EpsCopyInputStream_NoOpCallback_def Let_def)
    then show ?thesis
      using status past same by auto
  next
    case flip
    obtain e' h' where f: "hpb_EpsCopyInputStream_IsDoneFallbackNoCallback e ?ptr (int p - int E) h =
        Inr (e_patch e + of_nat (p - E), e', h')" "eps_inv e' h' inp L (e_patch e) E (length inp) 32"
        "e_error e' = e_error e" "writes (e_patch e) 32 h h'"
      using flip_patch [OF inv flip] by blast
    have "unat (e_patch e + of_nat (p - E)) = unat (e_patch e) + (p - E)"
      using unat_pos(1) [OF f(2), of p] flip b(3) by simp
    then have "e_patch e + of_nat (p - E) \<noteq> 0"
      using offset_bounds(11) [OF f(2)] by (metis add_is_0 unat_0 unat_eq_0)
    then have "hpb_EpsCopyInputStream_IsDone e ?ptr h = Inr (False, e_patch e + of_nat (p - E), e', h')"
      using status flip f(1) by simp
    moreover have "p < length inp"
      using flip(2) b(3) by simp
    ultimately show ?thesis
      using f flip by (intro exI conjI) (auto intro!: exI)
  qed
qed

section \<open>The start of a stream\<close>

lemma Init_small:
  assumes inp: "\<And>q. q < length inp \<Longrightarrow> h_mem h (ptr + of_nat q) = inp ! q" and len: "sz = of_nat (length inp)" "length inp \<le> 16"
    and ptr: "unat ptr + length inp + 2 ^ 32 \<le> 2 ^ 63"
    and patch: "e_patch e \<noteq> 0" "unat (e_patch e) + 32 + 2 ^ 32 \<le> 2 ^ 63"
    and apart: "{unat ptr ..< unat ptr + length inp} \<inter> {unat (e_patch e) ..< unat (e_patch e) + 32} = {}"
    and init: "hpb_EpsCopyInputStream_Init e ptr sz alias h = (e', ptr', h')"
  shows "eps_inv e' h' inp (length inp) (e_patch e) 0 (length inp) 32" "ptr' = e_patch e" "writes (e_patch e) 32 h h'"
proof -
  let ?P = "e_patch e" and ?n = "length inp"
  have P: "unat ?P + 32 < 2 ^ 64"
    using patch(2) by simp
  have u: "unat sz = ?n"
    using len by (simp add: unat_of_nat)
  define h1 where "h1 = mem_set ?P 0 32 h"
  define h2 where "h2 = (if sz \<noteq> 0 then mem_copy ?P ptr sz h1 else h1)"
  have w1: "writes ?P 32 h h1"
    using writes_offset(1) [OF P, of 0 32 h 0] by (simp add: h1_def)
  have w2: "writes ?P 32 h1 h2"
    using writes_offset(3) [OF P, of 0 ?n h1 ptr] len writes_refl [of ?P 32 h1] by (simp add: h2_def)
  have bytes: "h_mem h2 (?P + of_nat q) = inp ! q" if q: "q < ?n" for q
  proof -
    have "h_mem h2 (?P + of_nat q) = h_mem h1 (ptr + of_nat q)"
      using h_mem_copy [of ?P sz ptr h1 "?P + of_nat q"] P q len(2) u unat_offset [of ?P q] by (auto simp: h2_def)
    also have "\<dots> = h_mem h (ptr + of_nat q)"
    proof -
      have "unat (ptr + of_nat q) = unat ptr + q" "unat ptr + q \<in> {unat ptr ..< unat ptr + ?n}"
        using q ptr unat_offset [of ptr q] by simp_all
      then have "unat (ptr + of_nat q) \<notin> {unat ?P ..< unat ?P + 32}"
        using apart by auto
      then show ?thesis
        using w1 by (simp add: writes_def)
    qed
    finally show ?thesis
      using inp [OF q] by simp
  qed
  have "sz \<le> 16"
    using u len(2) by (simp add: word_le_nat_alt)
  then have res: "ptr' = ?P" "h' = h2" "e_end e' = ?P + of_nat ?n" "e_limit e' = 0" "e_limit_ptr e' = e_end e'" "e_patch e' = ?P"
    using init len(1) by (auto simp: hpb_EpsCopyInputStream_Init_def Let_def kHpb_EpsCopyInputStream_SlopBytes_def h2_def h1_def)
  show "ptr' = ?P" "writes ?P 32 h h'"
    using res(1,2) w1 w2 by (auto simp: writes_def)
  have "eps_window e' h' inp ?P 0 ?n 32"
    using patch len(2) bytes res by (simp add: eps_window_def)
  then show "eps_inv e' h' inp ?n ?P 0 ?n 32"
    using patch len(2) res by (simp add: eps_inv_def eps_buffer_def hpb_EpsCopyInputStream_CheckLimit_def)
qed

lemma Init_large:
  assumes inp: "\<And>q. q < length inp \<Longrightarrow> h_mem h (ptr + of_nat q) = inp ! q"
    and len: "sz = of_nat (length inp)" "16 < length inp" "length inp < 2 ^ 31"
    and ptr: "ptr \<noteq> 0" "unat ptr + length inp + 2 ^ 32 \<le> 2 ^ 63"
    and patch: "e_patch e \<noteq> 0" "unat (e_patch e) + 32 + 2 ^ 32 \<le> 2 ^ 63"
    and apart: "{unat ptr ..< unat ptr + length inp} \<inter> {unat (e_patch e) ..< unat (e_patch e) + 32} = {}"
    and init: "hpb_EpsCopyInputStream_Init e ptr sz alias h = (e', ptr', h')"
  shows "eps_inv e' h' inp (length inp) ptr 0 (length inp - 16) (length inp)" "ptr' = ptr" "h' = h"
proof -
  let ?n = "length inp"
  have "unat sz = ?n"
    using len by (simp add: unat_of_nat)
  then have "\<not> sz \<le> 16"
    using len(2) by (simp add: word_le_nat_alt)
  moreover have "ptr + of_nat ?n - 16 = ptr + of_nat (?n - 16)"
    using len(2) by (simp add: of_nat_diff algebra_simps)
  ultimately have res: "ptr' = ptr" "h' = h" "e_end e' = ptr + of_nat (?n - 16)" "e_limit e' = 16" "e_limit_ptr e' = e_end e'"
    "e_patch e' = e_patch e"
    using init len(1) by (auto simp: hpb_EpsCopyInputStream_Init_def Let_def kHpb_EpsCopyInputStream_SlopBytes_def)
  show "ptr' = ptr" "h' = h"
    by (simp_all add: res)
  have "eps_window e' h' inp ptr 0 (?n - 16) ?n"
    using ptr len(2) inp res by (simp add: eps_window_def del: of_nat_diff)
  then show "eps_inv e' h' inp ?n ptr 0 (?n - 16) ?n"
    using patch len apart res by (simp add: eps_inv_def eps_buffer_def hpb_EpsCopyInputStream_CheckLimit_def of_nat_diff)
qed

section \<open>Limits and sizes\<close>

lemma eps_inv_limit:
  assumes inv: "eps_inv e h inp L s w E R" and L': "w \<le> L'" "L' \<le> length inp"
    and e': "e' = e\<lparr>e_limit := int L' - int E, e_limit_ptr := e_end e + word_of_int (min 0 (int L' - int E))\<rparr>"
  shows "eps_inv e' h inp L' s w E R"
proof -
  have "eps_window e' h inp s w E R = eps_window e h inp s w E R" "eps_buffer e' inp s w E R = eps_buffer e inp s w E R"
    by (simp_all add: eps_window_def eps_buffer_def e')
  then show ?thesis
    using inv L' unfolding eps_inv_def by (simp add: hpb_EpsCopyInputStream_CheckLimit_def e')
qed

lemma PushLimit_correct:
  assumes inv: "eps_inv e h inp L s w E R" and p: "w \<le> p" "p < E + 2 ^ 31" and sz: "p + sz \<le> L"
  shows "\<exists>e'. hpb_EpsCopyInputStream_PushLimit e (s + of_nat (p - w)) (int sz) = Inr (int L - int (p + sz), e') \<and>
    eps_inv e' h inp (p + sz) s w E R \<and> e_error e' = e_error e"
proof -
  note b = offset_bounds [OF inv]
  let ?L = "p + sz"
  let ?e = "e\<lparr>e_limit := int ?L - int E, e_limit_ptr := e_end e + word_of_int (min 0 (int ?L - int E))\<rparr>"
  have inv': "eps_inv ?e h inp ?L s w E R"
    using eps_inv_limit [OF inv _ _ refl, of ?L] p(1) sz b(3) by simp
  have range: "- (2 ^ 31) \<le> int p - int E" "int p - int E < 2 ^ 31" "- (2 ^ 31) \<le> int ?L - int E" "int ?L - int E < 2 ^ 31"
    "- (2 ^ 31) \<le> int L - int ?L" "int L - int ?L < 2 ^ 31"
    using b(3,4,5,10) sz by auto
  have diff: "to_int32 (ptr_diff (s + of_nat (p - w)) (e_end e)) = int p - int E"
    unfolding ptr_diff_pos [OF inv p] using range(1,2) by (rule to_int32_id)
  have "int sz + (int p - int E) = int ?L - int E"
    by simp
  then have lim: "to_int32 (int sz + to_int32 (ptr_diff (s + of_nat (p - w)) (e_end e))) = int ?L - int E"
    unfolding diff by (simp only: to_int32_id [OF range(3,4)])
  have delta: "to_int32 (e_limit e - (int ?L - int E)) = int L - int ?L"
  proof -
    have "e_limit e - (int ?L - int E) = int L - int ?L"
      using b(9) by simp
    then show ?thesis
      by (simp only: to_int32_id [OF range(5,6)])
  qed
  have "hpb_EpsCopyInputStream_PushLimit e (s + of_nat (p - w)) (int sz) = Inr (int L - int ?L, ?e)"
    using inv inv' sz b(9) unfolding hpb_EpsCopyInputStream_PushLimit_def Let_def lim delta by (simp add: eps_inv_def)
  then show ?thesis
    using inv' by auto
qed

lemma PopLimit_correct:
  assumes inv: "eps_inv e h inp L s w E R" and p: "w \<le> L" "L < E + 2 ^ 31" and d: "L + d \<le> length inp"
  shows "\<exists>e'. hpb_EpsCopyInputStream_PopLimit e (s + of_nat (L - w)) (int d) = Inr e' \<and>
    eps_inv e' h inp (L + d) s w E R \<and> e_error e' = e_error e"
proof -
  note b = offset_bounds [OF inv]
  let ?L = "L + d"
  let ?e = "e\<lparr>e_limit := int ?L - int E, e_limit_ptr := e_end e + word_of_int (min 0 (int ?L - int E))\<rparr>"
  have inv': "eps_inv ?e h inp ?L s w E R"
    using eps_inv_limit [OF inv _ _ refl, of ?L] p(1) d by simp
  have range: "- (2 ^ 31) \<le> int ?L - int E" "int ?L - int E < 2 ^ 31"
    using b(4,5,10) d by auto
  have "e_limit e + int d = int ?L - int E"
    using b(9) by simp
  then have lim: "to_int32 (e_limit e + int d) = int ?L - int E"
    by (simp only: to_int32_id [OF range])
  have "hpb_EpsCopyInputStream_PopLimit e (s + of_nat (L - w)) (int d) = Inr ?e"
    using inv inv' b(9) ptr_diff_pos [OF inv p] unfolding hpb_EpsCopyInputStream_PopLimit_def Let_def lim
    by (simp add: eps_inv_def)
  then show ?thesis
    using inv' by auto
qed

lemma CheckSize_correct:
  assumes "eps_inv e h inp L s w E R" "w \<le> p" "p < E + 2 ^ 31"
  shows "hpb_EpsCopyInputStream_CheckSize e (s + of_nat (p - w)) (int sz) = Inr (p + sz \<le> L)"
  using ptr_diff_pos [OF assms] offset_bounds(9) [OF assms(1)]
  by (auto simp: hpb_EpsCopyInputStream_CheckSize_def)

lemma CheckSizeAvailable_correct:
  assumes inv: "eps_inv e h inp L s w E R" and p: "w \<le> p" "p < E + 2 ^ 31" and sz: "sz < 2 ^ 31"
  shows "hpb_EpsCopyInputStream_CheckSizeAvailable e (s + of_nat (p - w)) (int sz) sub =
    Inr (p + sz \<le> min E L + (if sub then 0 else 16))"
proof -
  note b = offset_bounds [OF inv]
  define a m where "a = p - w" and "m = min E L - w"
  have "unat (s + of_nat a) = unat s + a" "unat s + a < 2 ^ 63"
    unfolding a_def using unat_pos [OF inv p(2)] by simp_all
  moreover from this have "unat (s + of_nat a + word_of_int (int sz)) = unat s + a + sz"
    using sz unat_offset [of "s + of_nat a" sz] by simp
  moreover have "unat (e_limit_ptr e) = unat s + m" "unat s + m < 2 ^ 63"
    unfolding m_def limit_ptr_pos [OF inv] using unat_pos [OF inv, of "min E L"] by simp_all
  moreover from this have "unat (e_limit_ptr e + 16) = unat s + m + 16"
    using unat_add_small [of "e_limit_ptr e" 16] by simp
  ultimately have "hpb_EpsCopyInputStream_CheckSizeAvailable e (s + of_nat a) (int sz) sub = Inr (a + sz \<le> m + (if sub then 0 else 16))"
    by (simp add: hpb_EpsCopyInputStream_CheckSizeAvailable_def Let_def kHpb_EpsCopyInputStream_SlopBytes_def word_le_nat_alt)
  moreover have "a + sz \<le> m + k \<longleftrightarrow> p + sz \<le> min E L + k" for k
    using p(1) b(1,2) by (auto simp: a_def m_def)
  ultimately show ?thesis
    by (simp only: a_def)
qed

end
