(* ===== verification/EpsSafe.thy ===== *)
theory EpsSafe
  imports EpsInv
begin

text \<open>The theorems on the input stream.\<close>

section \<open>Positions\<close>

lemma eps_pos_bytes:
  assumes inv: "eps_inv e h inp L s w E R" and p: "w \<le> p" "p + k < length inp"
  shows "h_mem h (s + of_nat (p - w) + of_nat k) = inp ! (p + k)"
proof -
  have "\<forall>q < length inp - w. h_mem h (s + of_nat q) = inp ! (w + q)"
    using inv unfolding eps_inv_def eps_window_def by blast
  moreover have "p - w + k < length inp - w" "w + (p - w + k) = p + k"
    using p by simp_all
  ultimately have "h_mem h (s + of_nat (p - w + k)) = inp ! (p + k)"
    by metis
  then show ?thesis
    unfolding of_nat_add add.assoc .
qed

lemma Init_pos:
  assumes inp: "\<And>q. q < length inp \<Longrightarrow> h_mem h (ptr + of_nat q) = inp ! q" and len: "sz = of_nat (length inp)" "length inp < 2 ^ 31"
    and ptr: "ptr \<noteq> 0" "unat ptr + length inp + 2 ^ 32 \<le> 2 ^ 63"
    and patch: "e_patch e \<noteq> 0" "unat (e_patch e) + 32 + 2 ^ 32 \<le> 2 ^ 63"
    and apart: "{unat ptr ..< unat ptr + length inp} \<inter> {unat (e_patch e) ..< unat (e_patch e) + 32} = {}"
    and init: "hpb_EpsCopyInputStream_Init e ptr sz alias h = (e', ptr', h')"
  shows "eps_pos e' h' inp (length inp) ptr' 0 \<and> writes (e_patch e) 32 h h'"
proof (cases "length inp \<le> 16")
  case True
  note i = Init_small [OF inp len(1) True ptr(2) patch apart init]
  have "ptr' = e_patch e + of_nat (0 - 0)"
    using i(2) by simp
  then show ?thesis
    unfolding eps_pos_def using i(1,3) by (metis add.commute le0 trans_less_add1 zero_less_numeral zero_less_power)
next
  case False
  then have big: "16 < length inp"
    by simp
  note i = Init_large [OF inp len(1) big len(2) ptr patch apart init]
  have "ptr' = ptr + of_nat (0 - 0)"
    using i(2) by simp
  then show ?thesis
    unfolding eps_pos_def using i(1,3) writes_refl by (metis add.commute le0 trans_less_add1 zero_less_numeral zero_less_power)
qed

lemma patch_offset:
  fixes P :: u64
  assumes "unat P + 32 + 2 ^ 32 \<le> 2 ^ 63" "2 ^ 32 \<le> unat P"
  shows "2 ^ 32 \<le> uint P" "- (2 ^ 31) \<le> x \<Longrightarrow> x \<le> 16 \<Longrightarrow> uint (P + word_of_int x) = uint P + x"
proof -
  have "int n + 32 + 2 ^ 32 \<le> 2 ^ 63 \<and> 2 ^ 32 \<le> int n" if "n + 32 + 2 ^ 32 \<le> 2 ^ 63" "2 ^ 32 \<le> n" for n
    using that by simp
  from this [OF assms] have u: "uint P + 32 + 2 ^ 32 \<le> 2 ^ 63" "2 ^ 32 \<le> uint P"
    unfolding uint_nat by blast+
  then show "2 ^ 32 \<le> uint P"
    by blast
  have "uint (P + word_of_int x) = (uint P + x) mod 2 ^ 64"
    by (simp add: uint_word_ariths unsigned_of_int take_bit_eq_mod mod_simps)
  then show "- (2 ^ 31) \<le> x \<Longrightarrow> x \<le> 16 \<Longrightarrow> uint (P + word_of_int x) = uint P + x"
    using u by simp
qed

section \<open>An example\<close>

definition ex_eps :: hpb_EpsCopyInputStream where
  "ex_eps = \<lparr>e_end = 0, e_limit_ptr = 0, e_aliasing = 0, e_limit = 0, e_error = False, e_patch = 8589934592\<rparr>"

lemma one_stream:
  obtains e h where "hpb_EpsCopyInputStream_Init ex_eps 4096 2 False (empty_heap []) = (e, 8589934592, h)"
    "eps_inv e h [0, 0] 2 8589934592 0 2 32" "e_patch e = 8589934592"
proof -
  obtain e ptr h where i: "hpb_EpsCopyInputStream_Init ex_eps 4096 2 False (empty_heap []) = (e, ptr, h)"
    by (metis prod_cases3)
  have s: "eps_inv e h [0, 0] (length [0 :: byte, 0]) (e_patch ex_eps) 0 (length [0 :: byte, 0]) 32 \<and> ptr = e_patch ex_eps"
    by (intro conjI Init_small(1,2) [where inp = "[0, 0]", OF _ _ _ _ _ _ _ i])
      (auto simp: ex_eps_def empty_heap_def nth_Cons' less_Suc_eq)
  have "e_patch e = e_patch ex_eps"
    using i by (auto simp: hpb_EpsCopyInputStream_Init_def Let_def split: if_splits)
  then show thesis
    using that i s by (simp add: ex_eps_def eval_nat_numeral)
qed

section \<open>Theorems\<close>

text \<open>
  C23: the test for the end of the stream. At a position before the limit it answers no and gives a
  pointer to the same position, from which the bytes of the input can be read and 16 bytes can be
  read in any case, in the input or in the patch buffer; at the limit it answers yes; past the
  limit it answers yes and sets the error. Only the patch buffer is written.
\<close>

theorem hpb_EpsCopyInputStream_IsDone_correct:
  assumes "eps_pos e h inp L ptr p"
  shows "\<exists>d ptr' e' h'. hpb_EpsCopyInputStream_IsDone e ptr h = Inr (d, ptr', e', h') \<and> writes (e_patch e) 32 h h' \<and>
    (if p < L
     then \<not> d \<and> e_error e' = e_error e \<and> eps_pos e' h' inp L ptr' p \<and>
       (\<forall>k < 16. p + k < length inp \<longrightarrow> h_mem h' (ptr' + of_nat k) = inp ! (p + k)) \<and>
       (p + 16 \<le> length inp \<or> unat (e_patch e') \<le> unat ptr' \<and> unat ptr' + 16 \<le> unat (e_patch e') + 32)
     else if p = L then d \<and> ptr' = ptr \<and> e' = e \<and> h' = h
     else d \<and> ptr' = 0 \<and> e_error e' \<and> h' = h)"
proof -
  obtain s w E R where inv: "eps_inv e h inp L s w E R" and p: "w \<le> p" "p < E + 2 ^ 31" "ptr = s + of_nat (p - w)"
    using assms unfolding eps_pos_def by blast
  obtain d ptr' e' h' where r: "hpb_EpsCopyInputStream_IsDone e ptr h = Inr (d, ptr', e', h')" "writes (e_patch e) 32 h h'"
    "if p < L
     then \<not> d \<and> e_error e' = e_error e \<and> (\<exists>s' w' E' R'. eps_inv e' h' inp L s' w' E' R' \<and> w' \<le> p \<and> p < E' \<and> ptr' = s' + of_nat (p - w'))
     else if p = L then d \<and> ptr' = ptr \<and> e' = e \<and> h' = h
     else d \<and> ptr' = 0 \<and> e_error e' \<and> h' = h"
    using IsDone_correct [OF inv p(1,2)] unfolding p(3) by blast
  show ?thesis
  proof (cases "p < L")
    case True
    then obtain s' w' E' R' where n: "\<not> d" "e_error e' = e_error e" "eps_inv e' h' inp L s' w' E' R'" "w' \<le> p" "p < E'"
      "ptr' = s' + of_nat (p - w')"
      using r(3) by auto
    note b = offset_bounds [OF n(3)]
    have "eps_pos e' h' inp L ptr' p"
      unfolding eps_pos_def using n(3-6) by (metis trans_less_add1)
    moreover have "h_mem h' (ptr' + of_nat k) = inp ! (p + k)" if "p + k < length inp" for k
      unfolding n(6) by (rule eps_pos_bytes [OF n(3,4) that])
    moreover have "p + 16 \<le> length inp \<or> unat (e_patch e') \<le> unat ptr' \<and> unat ptr' + 16 \<le> unat (e_patch e') + 32"
    proof -
      have "E' = length inp \<and> s' = e_patch e' \<and> R' = 32 \<or> E' + 16 = length inp"
        using n(3) by (auto simp: eps_inv_def eps_buffer_def)
      moreover have "unat ptr' = unat s' + (p - w')" "p - w' + 16 \<le> R'"
        using unat_pos(1) [OF n(3), of p] n(4-6) b(6) by simp_all
      ultimately show ?thesis
        using n(5) by auto
    qed
    ultimately show ?thesis
      using True r(1,2) n(1,2) by auto
  next
    case False
    then show ?thesis
      using r by auto
  qed
qed

theorem hpb_EpsCopyInputStream_IsDone_correct_witness:
  "\<exists>e h. hpb_EpsCopyInputStream_Init ex_eps 4096 2 False (empty_heap []) = (e, 8589934592, h) \<and>
     hpb_EpsCopyInputStream_IsDone e (8589934592 + 2) h = Inr (True, 8589934592 + 2, e, h)"
proof -
  obtain e h where i: "hpb_EpsCopyInputStream_Init ex_eps 4096 2 False (empty_heap []) = (e, 8589934592, h)"
    "eps_inv e h [0, 0] 2 8589934592 0 2 32"
    using one_stream by blast
  then have "eps_pos e h [0, 0] 2 (8589934592 + of_nat (2 - 0)) 2"
    unfolding eps_pos_def by (intro exI conjI) (assumption, simp_all)
  then show ?thesis
    using hpb_EpsCopyInputStream_IsDone_correct [of e h "[0, 0]" 2 "8589934592 + 2" 2] i(1) by auto
qed

text \<open>
  C24: pushing a limit within the current one makes the stream end there. When the stream has
  reached the pushed limit, in whatever buffer it then is, popping with the value that was returned
  restores the previous limit; no assertion fails.
\<close>

theorem hpb_EpsCopyInputStream_limits:
  assumes "eps_pos e h inp L ptr p" "p + sz \<le> L"
  shows "\<exists>delta e1. hpb_EpsCopyInputStream_PushLimit e ptr (int sz) = Inr (delta, e1) \<and> eps_pos e1 h inp (p + sz) ptr p \<and>
    (\<forall>e2 h2 ptr2. eps_pos e2 h2 inp (p + sz) ptr2 (p + sz) \<longrightarrow>
      (\<exists>e3. hpb_EpsCopyInputStream_PopLimit e2 ptr2 delta = Inr e3 \<and> eps_pos e3 h2 inp L ptr2 (p + sz)))"
proof -
  obtain s w E R where inv: "eps_inv e h inp L s w E R" and p: "w \<le> p" "p < E + 2 ^ 31" "ptr = s + of_nat (p - w)"
    using assms(1) unfolding eps_pos_def by blast
  obtain e1 where e1: "hpb_EpsCopyInputStream_PushLimit e ptr (int sz) = Inr (int L - int (p + sz), e1)"
    "eps_inv e1 h inp (p + sz) s w E R"
    using PushLimit_correct [OF inv p(1,2) assms(2)] p(3) by blast
  have "eps_pos e1 h inp (p + sz) ptr p"
    unfolding eps_pos_def using e1(2) p by blast
  moreover have "\<exists>e3. hpb_EpsCopyInputStream_PopLimit e2 ptr2 (int L - int (p + sz)) = Inr e3 \<and> eps_pos e3 h2 inp L ptr2 (p + sz)"
    if pos2: "eps_pos e2 h2 inp (p + sz) ptr2 (p + sz)" for e2 h2 ptr2
  proof -
    obtain s2 w2 E2 R2 where i2: "eps_inv e2 h2 inp (p + sz) s2 w2 E2 R2" "w2 \<le> p + sz" "p + sz < E2 + 2 ^ 31"
      "ptr2 = s2 + of_nat (p + sz - w2)"
      using pos2 unfolding eps_pos_def by blast
    let ?d = "L - (p + sz)"
    have d: "int L - int (p + sz) = int ?d" "p + sz + ?d = L" "L \<le> length inp"
      using assms(2) offset_bounds(3) [OF inv] by (simp_all add: of_nat_diff)
    obtain e3 where "hpb_EpsCopyInputStream_PopLimit e2 ptr2 (int ?d) = Inr e3" "eps_inv e3 h2 inp L s2 w2 E2 R2"
      using PopLimit_correct [OF i2(1-3), of ?d] i2(4) unfolding d(2) using d(3) by blast
    then show ?thesis
      unfolding eps_pos_def d(1) using i2(2-4) by blast
  qed
  ultimately show ?thesis
    using e1(1) by blast
qed

theorem hpb_EpsCopyInputStream_limits_witness:
  "\<exists>e h delta e1. hpb_EpsCopyInputStream_Init ex_eps 4096 2 False (empty_heap []) = (e, 8589934592, h) \<and>
     hpb_EpsCopyInputStream_PushLimit e 8589934592 1 = Inr (delta, e1) \<and> eps_pos e1 h [0, 0] 1 8589934592 0"
proof -
  obtain e h where i: "hpb_EpsCopyInputStream_Init ex_eps 4096 2 False (empty_heap []) = (e, 8589934592, h)"
    "eps_inv e h [0, 0] 2 8589934592 0 2 32"
    using one_stream by blast
  then have "eps_pos e h [0, 0] 2 8589934592 0"
    unfolding eps_pos_def by (intro exI conjI) (assumption, simp_all)
  then show ?thesis
    using hpb_EpsCopyInputStream_limits [of e h "[0, 0]" 2 8589934592 0 1] i(1) by auto
qed

text \<open>
  The distance to the end of the buffer is kept in 32 bits. A pointer that is \<open>2 ^ 31\<close> bytes past
  the end, which skipping a delimited field of nearly that size can produce, is taken for one
  before the limit: the test answers no, reports no error, and gives a pointer \<open>2 ^ 31\<close> bytes
  before the patch buffer.
\<close>

theorem hpb_EpsCopyInputStream_overrun_wraps:
  assumes inv: "eps_inv e h inp L s w E R" and patch: "unat (e_patch e) \<ge> 2 ^ 32"
  shows "\<exists>e' h'. hpb_EpsCopyInputStream_IsDone e (s + of_nat (E + 2 ^ 31 - w)) h =
    Inr (False, e_patch e - 2 ^ 31, e', h') \<and> e_error e' = e_error e"
proof -
  let ?k = "E + 2 ^ 31 - w" and ?P = "e_patch e"
  note b = offset_bounds [OF inv]
  have k: "?k = E - w + 2 ^ 31"
    using b(1) by simp
  have ptr: "unat (s + of_nat ?k) = unat s + ?k" "unat s + ?k < 2 ^ 63"
    using b(1,6,7) unat_offset [of s ?k] by simp_all
  have "ptr_diff (s + of_nat ?k) (e_end e) = 2 ^ 31"
    unfolding ptr_diff_def b(8) k by simp
  then have overrun: "to_int32 (ptr_diff (s + of_nat ?k) (e_end e)) = - (2 ^ 31)"
    by (simp add: to_int32_def)
  have lim: "- (2 ^ 31) < e_limit e" "e_limit e \<le> 16"
    using b(3,4,5,9,10) by simp_all
  have "unat (s + of_nat (min E L - w)) = unat s + (min E L - w)"
    by (rule unat_pos [OF inv]) simp
  then have past: "\<not> s + of_nat ?k < e_limit_ptr e"
    using ptr(1) b(1) by (simp add: limit_ptr_pos [OF inv] word_less_nat_alt)
  have P: "unat ?P + 32 + 2 ^ 32 \<le> 2 ^ 63"
    using inv by (simp add: eps_inv_def eps_buffer_def)
  note off = patch_offset(2) [OF P patch] and uP = patch_offset(1) [OF P patch]
  have new: "?P + word_of_int (- (2 ^ 31)) = ?P - 2 ^ 31" "uint (?P - 2 ^ 31) = uint ?P - 2 ^ 31"
    using off [of "- (2 ^ 31)"] by simp_all
  have end': "?P + 16 + word_of_int (e_limit e - 16) = ?P + word_of_int (e_limit e)"
    by simp
  have lt: "?P - 2 ^ 31 < ?P + word_of_int (e_limit e)"
    using off [of "e_limit e"] new(2) lim by (simp add: word_less_def)
  have "?P - 2 ^ 31 \<noteq> 0"
    using new(2) uP by auto
  then show ?thesis
    using overrun past lim new(1) lt unfolding end'
    by (simp add: hpb_EpsCopyInputStream_IsDone_def hpb_EpsCopyInputStream_IsDoneWithCallback_def
        hpb_EpsCopyInputStream_IsDoneStatus_def hpb_EpsCopyInputStream_IsDoneFallbackNoCallback_def
        hpb_EpsCopyInputStream_IsDoneFallbackInline_def hpb_EpsCopyInputStream_NoOpCallback_def
        kHpb_EpsCopyInputStream_SlopBytes_def Let_def res_bind_def)
qed

theorem hpb_EpsCopyInputStream_overrun_wraps_witness:
  "\<exists>e h e' h'. hpb_EpsCopyInputStream_Init ex_eps 4096 2 False (empty_heap []) = (e, 8589934592, h) \<and>
     hpb_EpsCopyInputStream_IsDone e (8589934592 + of_nat (2 + 2 ^ 31 - 0)) h = Inr (False, 8589934592 - 2 ^ 31, e', h')"
proof -
  obtain e h where i: "hpb_EpsCopyInputStream_Init ex_eps 4096 2 False (empty_heap []) = (e, 8589934592, h)"
    "eps_inv e h [0, 0] 2 8589934592 0 2 32" "e_patch e = 8589934592"
    using one_stream by blast
  have "2 ^ 32 \<le> unat (e_patch e)"
    unfolding i(3) by simp
  then show ?thesis
    using hpb_EpsCopyInputStream_overrun_wraps [OF i(2)] i(1) unfolding i(3) by blast
qed

end
