(* ===== verification/WireSkip.thy ===== *)
theory WireSkip
  imports EncSafe EpsSafe
begin

text \<open>
  Skipping values of unknown fields (\<open>_hpb_WireReader_SkipValue\<close> of \<open>wire/reader.h\<close>,
  \<open>_hpb_WireReader_SkipGroup\<close> of \<open>wire/reader.c\<close>) on the input stream. A null pointer is an error.
  The readers take the ten bytes at the pointer, which their callers have made available.
\<close>

section \<open>Model\<close>

definition read_at :: "heap \<Rightarrow> u64 \<Rightarrow> (byte list \<Rightarrow> wire_fail + (byte list \<times> 'a) option) \<Rightarrow> mem_fail + (u64 \<times> 'a) option" where
  "read_at h ptr reader =
     (case reader (mem_read h ptr 10) of
        Inl _ \<Rightarrow> Inl InvalidAccess
      | Inr None \<Rightarrow> Inr None
      | Inr (Some (rest, x)) \<Rightarrow> Inr (Some (ptr + of_nat (10 - length rest), x)))"

type_synonym skip_result = "mem_fail + (u64 \<times> hpb_EpsCopyInputStream \<times> heap)"

definition hpb_WireReader_SkipValue_depth ::
  "(u64 \<Rightarrow> u32 \<Rightarrow> int \<Rightarrow> hpb_EpsCopyInputStream \<Rightarrow> heap \<Rightarrow> skip_result) \<Rightarrow>
   u64 \<Rightarrow> u32 \<Rightarrow> int \<Rightarrow> hpb_EpsCopyInputStream \<Rightarrow> heap \<Rightarrow> skip_result" where
  "hpb_WireReader_SkipValue_depth skip_group ptr tag depth_limit stream h =
     (let wire_type = hpb_WireReader_GetWireType tag in
      if wire_type = 0
      then res_bind (read_at h ptr hpb_WireReader_ReadVarint) (\<lambda>r. Inr (case r of None \<Rightarrow> 0 | Some (ptr, _) \<Rightarrow> ptr, stream, h))
      else if wire_type = 5 then Inr (ptr + 4, stream, h)
      else if wire_type = 1 then Inr (ptr + 8, stream, h)
      else if wire_type = 2
      then res_bind (read_at h ptr hpb_WireReader_ReadSize) (\<lambda>r.
        case r of None \<Rightarrow> Inr (0, stream, h) | Some (ptr, sz) \<Rightarrow> Inr (ptr + word_of_int sz, stream, h))
      else if wire_type = 3 then skip_group ptr tag depth_limit stream h
      else Inr (0, stream, h))"

definition hpb_WireReader_SkipGroup_depth ::
  "(u64 \<Rightarrow> u32 \<Rightarrow> int \<Rightarrow> hpb_EpsCopyInputStream \<Rightarrow> heap \<Rightarrow> skip_result) \<Rightarrow>
   u64 \<Rightarrow> u32 \<Rightarrow> int \<Rightarrow> hpb_EpsCopyInputStream \<Rightarrow> heap \<Rightarrow> skip_result" where
  "hpb_WireReader_SkipGroup_depth loop ptr tag depth_limit stream h =
     (let depth_limit = depth_limit - 1 in
      if depth_limit = 0 then Inr (0, stream, h)
      else loop ptr ((tag AND NOT 7) OR kHpb_WireType WireType_EndGroup) depth_limit stream h)"

text \<open>The loop of \<open>_hpb_WireReader_SkipGroup\<close>; the fuel bounds its iterations and those of nested groups.\<close>

fun skip_group_loop :: "nat \<Rightarrow> u64 \<Rightarrow> u32 \<Rightarrow> int \<Rightarrow> hpb_EpsCopyInputStream \<Rightarrow> heap \<Rightarrow> skip_result" where
  "skip_group_loop 0 ptr end_group_tag depth_limit stream h = Inl EndlessLoop"
| "skip_group_loop (Suc n) ptr end_group_tag depth_limit stream h =
     res_bind (hpb_EpsCopyInputStream_IsDone stream ptr h) (\<lambda>(is_done, ptr, stream, h).
       if is_done then Inr (ptr, stream, h)
       else res_bind (read_at h ptr hpb_WireReader_ReadTag) (\<lambda>r.
         case r of None \<Rightarrow> Inr (0, stream, h)
         | Some (ptr, tag) \<Rightarrow>
             if tag = end_group_tag then Inr (ptr, stream, h)
             else res_bind (hpb_WireReader_SkipValue_depth (hpb_WireReader_SkipGroup_depth (skip_group_loop n)) ptr tag depth_limit stream h)
               (\<lambda>(ptr, stream, h).
                 if ptr = 0 then Inr (0, stream, h) else skip_group_loop n ptr end_group_tag depth_limit stream h)))"

definition hpb_WireReader_SkipGroup :: "nat \<Rightarrow> u64 \<Rightarrow> u32 \<Rightarrow> hpb_EpsCopyInputStream \<Rightarrow> heap \<Rightarrow> skip_result" where
  "hpb_WireReader_SkipGroup n ptr tag stream h = hpb_WireReader_SkipGroup_depth (skip_group_loop n) ptr tag 100 stream h"

definition hpb_WireReader_SkipValue :: "nat \<Rightarrow> u64 \<Rightarrow> u32 \<Rightarrow> hpb_EpsCopyInputStream \<Rightarrow> heap \<Rightarrow> skip_result" where
  "hpb_WireReader_SkipValue n ptr tag stream h =
     hpb_WireReader_SkipValue_depth (hpb_WireReader_SkipGroup_depth (skip_group_loop n)) ptr tag 100 stream h"

section \<open>Encoded values\<close>

datatype wire_val =
    WVarint u64 | WFixed32 "byte list" | WFixed64 "byte list" | WDelimited "byte list" | WGroup wire_fields
and wire_fields = WNil | WField u32 wire_val wire_fields

fun wire_val_type :: "wire_val \<Rightarrow> hpb_WireType" where
  "wire_val_type (WVarint _) = WireType_Varint"
| "wire_val_type (WFixed32 _) = WireType_32Bit"
| "wire_val_type (WFixed64 _) = WireType_64Bit"
| "wire_val_type (WDelimited _) = WireType_Delimited"
| "wire_val_type (WGroup _) = WireType_StartGroup"

definition tag_varint :: "u32 \<Rightarrow> hpb_WireType \<Rightarrow> byte list" where
  "tag_varint number wt = encode_varint64 (ucast (wire_tag number wt))"

fun val_bytes :: "u32 \<Rightarrow> wire_val \<Rightarrow> byte list" and fields_bytes :: "wire_fields \<Rightarrow> byte list" where
  "val_bytes number (WVarint v) = encode_varint64 v"
| "val_bytes number (WFixed32 bs) = bs"
| "val_bytes number (WFixed64 bs) = bs"
| "val_bytes number (WDelimited bs) = encode_varint64 (of_nat (length bs)) @ bs"
| "val_bytes number (WGroup fs) = fields_bytes fs @ tag_varint number WireType_EndGroup"
| "fields_bytes WNil = []"
| "fields_bytes (WField number v fs) = tag_varint number (wire_val_type v) @ val_bytes number v @ fields_bytes fs"

fun val_ok :: "wire_val \<Rightarrow> bool" and fields_ok :: "wire_fields \<Rightarrow> bool" where
  "val_ok (WVarint v) = True"
| "val_ok (WFixed32 bs) = (length bs = 4)"
| "val_ok (WFixed64 bs) = (length bs = 8)"
| "val_ok (WDelimited bs) = (length bs < 2 ^ 31 - 1)"
| "val_ok (WGroup fs) = fields_ok fs"
| "fields_ok WNil = True"
| "fields_ok (WField number v fs) = (val_ok v \<and> fields_ok fs)"

fun val_depth :: "wire_val \<Rightarrow> nat" and fields_depth :: "wire_fields \<Rightarrow> nat" where
  "val_depth (WGroup fs) = Suc (fields_depth fs)"
| "val_depth _ = 0"
| "fields_depth WNil = 0"
| "fields_depth (WField number v fs) = max (val_depth v) (fields_depth fs)"

section \<open>Positions\<close>

definition at_bytes :: "byte list \<Rightarrow> nat \<Rightarrow> byte list \<Rightarrow> bool" where
  "at_bytes inp p bs \<longleftrightarrow> (\<exists>pre post. inp = pre @ bs @ post \<and> length pre = p)"

lemma at_bytes_append:
  assumes "at_bytes inp p (xs @ ys)"
  shows "at_bytes inp p xs" "at_bytes inp (p + length xs) ys"
proof -
  obtain pre post where inp: "inp = pre @ (xs @ ys) @ post" "length pre = p"
    using assms by (auto simp: at_bytes_def)
  show "at_bytes inp p xs"
    unfolding at_bytes_def by (intro exI [of _ pre] exI [of _ "ys @ post"]) (simp add: inp)
  show "at_bytes inp (p + length xs) ys"
    unfolding at_bytes_def by (intro exI [of _ "pre @ xs"] exI [of _ post]) (simp add: inp)
qed

lemma at_bytes_nth: "at_bytes inp p bs \<Longrightarrow> p + length bs \<le> length inp" "at_bytes inp p bs \<Longrightarrow> k < length bs \<Longrightarrow> inp ! (p + k) = bs ! k"
  by (auto simp: at_bytes_def nth_append)

lemma eps_pos_advance:
  assumes "eps_pos e h inp L ptr p" "p + k \<le> length inp"
  shows "eps_pos e h inp L (ptr + of_nat k) (p + k)" "unat (ptr + of_nat k) \<noteq> 0"
proof -
  obtain s w E R where inv: "eps_inv e h inp L s w E R" and p: "w \<le> p" "p < E + 2 ^ 31" "ptr = s + of_nat (p - w)"
    using assms(1) unfolding eps_pos_def by blast
  have pk: "p + k < E + 2 ^ 31" "w \<le> p + k"
    using assms(2) offset_bounds(5) [OF inv] p(1) by simp_all
  have eq: "ptr + of_nat k = s + of_nat (p + k - w)"
    using p(1,3) by (simp add: add.assoc flip: of_nat_add)
  then show "eps_pos e h inp L (ptr + of_nat k) (p + k)"
    unfolding eps_pos_def using inv pk by blast
  have "unat (s + of_nat (p + k - w)) = unat s + (p + k - w)"
    by (rule unat_pos(1) [OF inv pk(1)])
  then show "unat (ptr + of_nat k) \<noteq> 0"
    unfolding eq using offset_bounds(11) [OF inv] by (simp add: unat_eq_0)
qed

lemma eps_pos_read:
  assumes pos: "eps_pos e h inp L ptr p" and bs: "at_bytes inp p bs" "length bs \<le> n"
  shows "mem_read h ptr n = bs @ drop (length bs) (mem_read h ptr n)"
proof -
  obtain s w E R where inv: "eps_inv e h inp L s w E R" and p: "w \<le> p" "ptr = s + of_nat (p - w)"
    using pos unfolding eps_pos_def by blast
  have "mem_read h ptr n ! k = bs ! k" if "k < length bs" for k
  proof -
    have "p + k < length inp"
      using at_bytes_nth(1) [OF bs(1)] that by simp
    then have "h_mem h (ptr + of_nat k) = inp ! (p + k)"
      unfolding p(2) by (rule eps_pos_bytes [OF inv p(1)])
    then show ?thesis
      using that bs at_bytes_nth(2) [OF bs(1) that] by (simp add: nth_mem_read)
  qed
  then have "take (length bs) (mem_read h ptr n) = bs"
    using bs(2) by (intro nth_equalityI) simp_all
  then show ?thesis
    by (metis append_take_drop_id)
qed

lemma read_at_encoded:
  assumes pos: "eps_pos e h inp L ptr p" and bs: "at_bytes inp p bs" "length bs \<le> 10"
    and reader: "\<And>rest. reader (bs @ rest) = Inr (Some (rest, x))"
  shows "read_at h ptr reader = Inr (Some (ptr + of_nat (length bs), x))"
proof -
  have "reader (mem_read h ptr 10) = Inr (Some (drop (length bs) (mem_read h ptr 10), x))"
    using eps_pos_read [OF pos bs] reader by metis
  then show ?thesis
    using bs(2) by (simp add: read_at_def)
qed

section \<open>Skipping encoded values\<close>

lemma tag_varint_read: "length (tag_varint number wt) \<le> 10" "hpb_WireReader_ReadTag (tag_varint number wt @ rest) = Inr (Some (rest, wire_tag number wt))"
  using encode_varint64_max by (simp_all add: tag_varint_def ReadTag_eq_DecodeTag DecodeTag_encode)

lemma tag_varint_pos: "0 < length (tag_varint number wt)"
  by (simp add: tag_varint_def encode_varint64.simps [of "ucast (wire_tag number wt)"] Let_def)

lemma end_group_tag: "(wire_tag number wt AND NOT 7) OR kHpb_WireType WireType_EndGroup = wire_tag number WireType_EndGroup"
proof -
  have low: "kHpb_WireType wt AND NOT 7 = 0"
    by (cases wt) simp_all
  have num: "push_bit 3 number AND NOT 7 = push_bit 3 number"
  proof -
    have "push_bit 3 number AND NOT (mask 3) = push_bit 3 number"
      by (rule bit_word_eqI) (auto simp: bit_simps)
    then show ?thesis
      by (simp add: mask_eq_exp_minus_1)
  qed
  show ?thesis
    unfolding wire_tag_def bit.conj_disj_distrib2 num low by simp
qed

lemma wire_tag_not_end: "wire_tag number (wire_val_type v) \<noteq> wire_tag number' WireType_EndGroup"
proof
  assume "wire_tag number (wire_val_type v) = wire_tag number' WireType_EndGroup"
  then have "ucast (kHpb_WireType (wire_val_type v)) = (ucast (kHpb_WireType WireType_EndGroup) :: byte)"
    by (metis wire_tag_type)
  then show False
    by (cases v) simp_all
qed

text \<open>The result of skipping to a position.\<close>

definition skips_to :: "skip_result \<Rightarrow> hpb_EpsCopyInputStream \<Rightarrow> byte list \<Rightarrow> nat \<Rightarrow> nat \<Rightarrow> bool" where
  "skips_to r e inp L p \<longleftrightarrow>
     (\<exists>ptr' e' h'. r = Inr (ptr', e', h') \<and> ptr' \<noteq> 0 \<and> eps_pos e' h' inp L ptr' p \<and> e_error e' = e_error e)"

lemma skips_to_same: "eps_pos e h inp L ptr p \<Longrightarrow> p + k \<le> length inp \<Longrightarrow> skips_to (Inr (ptr + of_nat k, e, h)) e inp L (p + k)"
  using eps_pos_advance [of e h inp L ptr p k] by (auto simp: skips_to_def)

lemma IsDone_before:
  assumes "eps_pos e h inp L ptr p" "p < L"
  shows "\<exists>ptr' e' h'. hpb_EpsCopyInputStream_IsDone e ptr h = Inr (False, ptr', e', h') \<and> e_error e' = e_error e \<and> eps_pos e' h' inp L ptr' p"
proof -
  obtain s w E R where inv: "eps_inv e h inp L s w E R" and p: "w \<le> p" "p < E + 2 ^ 31" "ptr = s + of_nat (p - w)"
    using assms(1) unfolding eps_pos_def by blast
  obtain ptr' e' h' s' w' E' R' where r: "hpb_EpsCopyInputStream_IsDone e ptr h = Inr (False, ptr', e', h')" "e_error e' = e_error e"
    "eps_inv e' h' inp L s' w' E' R'" "w' \<le> p" "p < E'" "ptr' = s' + of_nat (p - w')"
    using IsDone_correct [OF inv p(1,2)] assms(2) unfolding p(3) by auto
  moreover have "eps_pos e' h' inp L ptr' p"
    unfolding eps_pos_def using r(3-6) by (metis trans_less_add1)
  ultimately show ?thesis
    by blast
qed

text \<open>One step of the loop, up to the tag that it reads.\<close>

lemma loop_tag:
  assumes pos: "eps_pos e h inp L ptr p" and bs: "at_bytes inp p (tag_varint number wt)" and L: "p + length (tag_varint number wt) \<le> L"
  obtains ptr' e' h' where "e_error e' = e_error e" "eps_pos e' h' inp L ptr' (p + length (tag_varint number wt))" "ptr' \<noteq> 0"
    "skip_group_loop (Suc n) ptr end_tag depth e h =
      (if wire_tag number wt = end_tag then Inr (ptr', e', h')
       else res_bind (hpb_WireReader_SkipValue_depth (hpb_WireReader_SkipGroup_depth (skip_group_loop n)) ptr' (wire_tag number wt) depth e' h')
         (\<lambda>(ptr, stream, h). if ptr = 0 then Inr (0, stream, h) else skip_group_loop n ptr end_tag depth stream h))"
proof -
  have "p < L"
    using L tag_varint_pos [of number wt] by linarith
  then obtain ptr1 e' h' where d: "hpb_EpsCopyInputStream_IsDone e ptr h = Inr (False, ptr1, e', h')" "e_error e' = e_error e" "eps_pos e' h' inp L ptr1 p"
    using IsDone_before [OF pos] by blast
  have "read_at h' ptr1 hpb_WireReader_ReadTag = Inr (Some (ptr1 + of_nat (length (tag_varint number wt)), wire_tag number wt))"
    by (rule read_at_encoded [OF d(3) bs tag_varint_read])
  moreover note eps_pos_advance [OF d(3) at_bytes_nth(1) [OF bs]]
  ultimately show thesis
    using d that [of e' h' "ptr1 + of_nat (length (tag_varint number wt))"] by (simp add: unat_eq_0)
qed

lemma skips_to_bind:
  assumes "skips_to r e inp L p" "\<And>ptr' e' h'. ptr' \<noteq> 0 \<Longrightarrow> eps_pos e' h' inp L ptr' p \<Longrightarrow> skips_to (g ptr' e' h') e' inp L q"
  shows "skips_to (res_bind r (\<lambda>(ptr, stream, h). if ptr = 0 then Inr (0, stream, h) else g ptr stream h)) e inp L q"
proof -
  obtain ptr' e' h' where r: "r = Inr (ptr', e', h')" "ptr' \<noteq> 0" "eps_pos e' h' inp L ptr' p" "e_error e' = e_error e"
    using assms(1) by (auto simp: skips_to_def)
  then show ?thesis
    using assms(2) [OF r(2,3)] by (simp add: skips_to_def)
qed

text \<open>One step of the loop over a field that is skipped.\<close>

lemma loop_field:
  assumes pos: "eps_pos e h inp L ptr p" and bs: "at_bytes inp p (tag_varint number1 (wire_val_type v))"
    and L: "p + length (tag_varint number1 (wire_val_type v)) \<le> L"
    and val: "\<And>ptr1 e1 h1. eps_pos e1 h1 inp L ptr1 (p + length (tag_varint number1 (wire_val_type v))) \<Longrightarrow>
      skips_to (hpb_WireReader_SkipValue_depth (hpb_WireReader_SkipGroup_depth (skip_group_loop m)) ptr1
        (wire_tag number1 (wire_val_type v)) depth e1 h1) e1 inp L r"
    and rest: "\<And>ptr2 e2 h2. eps_pos e2 h2 inp L ptr2 r \<Longrightarrow>
      skips_to (skip_group_loop m ptr2 (wire_tag number WireType_EndGroup) depth e2 h2) e2 inp L q"
  shows "skips_to (skip_group_loop (Suc m) ptr (wire_tag number WireType_EndGroup) depth e h) e inp L q"
proof -
  let ?t = "tag_varint number1 (wire_val_type v)"
  from pos bs L obtain ptr1 e1 h1 where one: "e_error e1 = e_error e" "eps_pos e1 h1 inp L ptr1 (p + length ?t)"
    "skip_group_loop (Suc m) ptr (wire_tag number WireType_EndGroup) depth e h =
      (if wire_tag number1 (wire_val_type v) = wire_tag number WireType_EndGroup then Inr (ptr1, e1, h1)
       else res_bind (hpb_WireReader_SkipValue_depth (hpb_WireReader_SkipGroup_depth (skip_group_loop m)) ptr1 (wire_tag number1 (wire_val_type v)) depth e1 h1)
         (\<lambda>(ptr, stream, h). if ptr = 0 then Inr (0, stream, h) else skip_group_loop m ptr (wire_tag number WireType_EndGroup) depth stream h))"
    by (rule loop_tag [where n = m and end_tag = "wire_tag number WireType_EndGroup" and depth = depth])
  from skips_to_bind [OF val [OF one(2)] rest] show ?thesis
    using one(1,3) wire_tag_not_end [of number1 v number] by (simp add: skips_to_def)
qed

lemma skip_value_loop:
  "val_ok v \<Longrightarrow> eps_pos e h inp L ptr p \<Longrightarrow> at_bytes inp p (val_bytes number v) \<Longrightarrow> p + length (val_bytes number v) \<le> L \<Longrightarrow>
   int (val_depth v) < depth \<Longrightarrow> length (val_bytes number v) + 1 < n \<Longrightarrow>
   skips_to (hpb_WireReader_SkipValue_depth (hpb_WireReader_SkipGroup_depth (skip_group_loop n)) ptr (wire_tag number (wire_val_type v)) depth e h)
     e inp L (p + length (val_bytes number v))"
  "fields_ok fs \<Longrightarrow> eps_pos e h inp L ptr p \<Longrightarrow> at_bytes inp p (fields_bytes fs @ tag_varint number WireType_EndGroup) \<Longrightarrow>
   p + length (fields_bytes fs @ tag_varint number WireType_EndGroup) \<le> L \<Longrightarrow>
   int (fields_depth fs) < depth \<Longrightarrow> length (fields_bytes fs @ tag_varint number WireType_EndGroup) + 1 < n + 1 \<Longrightarrow>
   skips_to (skip_group_loop n ptr (wire_tag number WireType_EndGroup) depth e h)
     e inp L (p + length (fields_bytes fs @ tag_varint number WireType_EndGroup))"
proof (induction v and fs arbitrary: e h ptr p depth n number and e h ptr p depth n number rule: wire_val.induct wire_fields.induct)
  case (WVarint v)
  note pos = WVarint.prems(2) and bs = WVarint.prems(3) [unfolded val_bytes.simps]
  have "read_at h ptr hpb_WireReader_ReadVarint = Inr (Some (ptr + of_nat (length (encode_varint64 v)), v))"
    by (rule read_at_encoded [OF pos bs encode_varint64_max Read_encode])
  then show ?case
    using skips_to_same [OF pos at_bytes_nth(1) [OF bs]] by (simp add: hpb_WireReader_SkipValue_depth_def wire_tag_type)
next
  case (WFixed32 bs)
  then show ?case
    using skips_to_same [OF WFixed32.prems(2) at_bytes_nth(1) [OF WFixed32.prems(3)]]
    by (simp add: hpb_WireReader_SkipValue_depth_def wire_tag_type)
next
  case (WFixed64 bs)
  then show ?case
    using skips_to_same [OF WFixed64.prems(2) at_bytes_nth(1) [OF WFixed64.prems(3)]]
    by (simp add: hpb_WireReader_SkipValue_depth_def wire_tag_type)
next
  case (WDelimited bs)
  let ?v = "encode_varint64 (of_nat (length bs))"
  note pos = WDelimited.prems(2) and at = WDelimited.prems(3) [unfolded val_bytes.simps]
  have "length bs < 2 ^ 31 - 1"
    using WDelimited.prems(1) by simp
  from read_at_encoded [OF pos at_bytes_append(1) [OF at] encode_varint64_max ReadSize_encode [OF this]]
  have "read_at h ptr hpb_WireReader_ReadSize = Inr (Some (ptr + of_nat (length ?v), int (length bs)))" .
  then show ?case
    using skips_to_same [OF pos at_bytes_nth(1) [OF at]] by (simp add: hpb_WireReader_SkipValue_depth_def wire_tag_type add.assoc)
next
  case (WGroup fs)
  have "skips_to (skip_group_loop n ptr (wire_tag number WireType_EndGroup) (depth - 1) e h) e inp L (p + length (val_bytes number (WGroup fs)))"
    unfolding val_bytes.simps
    by (rule WGroup.IH) (use WGroup.prems in simp_all)
  then show ?case
    using WGroup.prems(5)
    by (simp add: hpb_WireReader_SkipValue_depth_def hpb_WireReader_SkipGroup_depth_def wire_tag_type end_group_tag [simplified])
next
  case WNil
  obtain m where n: "n = Suc m"
    using WNil.prems(6) by (cases n) auto
  from WNil.prems(3,4) have at: "at_bytes inp p (tag_varint number WireType_EndGroup)" "p + length (tag_varint number WireType_EndGroup) \<le> L"
    by simp_all
  from WNil.prems(2) at show ?case
    by (rule loop_tag [where n = m and end_tag = "wire_tag number WireType_EndGroup" and depth = depth]) (simp add: skips_to_def n)
next
  case (WField number1 v fs)
  let ?t = "tag_varint number1 (wire_val_type v)" and ?stop = "tag_varint number WireType_EndGroup"
  obtain m where n: "n = Suc m"
    using WField.prems(6) by (cases n) auto
  have at: "at_bytes inp p (?t @ val_bytes number1 v @ fields_bytes fs @ ?stop)" "p + length (?t @ val_bytes number1 v @ fields_bytes fs @ ?stop) \<le> L"
    using WField.prems(3,4) by simp_all
  note at1 = at_bytes_append [OF at(1)]
  note at2 = at_bytes_append [OF at1(2)]
  have pos: "0 < length ?t" "0 < length ?stop"
    by (rule tag_varint_pos)+
  have fuel: "length (val_bytes number1 v) + 1 < m" "length (fields_bytes fs @ ?stop) + 1 < m + 1"
    using WField.prems(6) pos unfolding n fields_bytes.simps length_append by linarith+
  have "skips_to (skip_group_loop (Suc m) ptr (wire_tag number WireType_EndGroup) depth e h) e inp L
      (p + length ?t + length (val_bytes number1 v) + length (fields_bytes fs @ ?stop))"
  proof (rule loop_field [OF WField.prems(2) at1(1)])
    show "p + length ?t \<le> L"
      using at(2) by simp
  next
    fix ptr1 e1 h1 assume "eps_pos e1 h1 inp L ptr1 (p + length ?t)"
    then show "skips_to (hpb_WireReader_SkipValue_depth (hpb_WireReader_SkipGroup_depth (skip_group_loop m)) ptr1
        (wire_tag number1 (wire_val_type v)) depth e1 h1) e1 inp L (p + length ?t + length (val_bytes number1 v))"
      by (intro WField.IH(1)) (use WField.prems at2(1) at(2) fuel(1) in simp_all)
  next
    fix ptr2 e2 h2 assume "eps_pos e2 h2 inp L ptr2 (p + length ?t + length (val_bytes number1 v))"
    then show "skips_to (skip_group_loop m ptr2 (wire_tag number WireType_EndGroup) depth e2 h2) e2 inp L
        (p + length ?t + length (val_bytes number1 v) + length (fields_bytes fs @ ?stop))"
      by (intro WField.IH(2)) (use WField.prems at2(2) at(2) fuel(2) in simp_all)
  qed
  then show ?case
    by (simp add: n add.assoc)
qed

text \<open>Fields that reach to the limit of the stream, with no end tag after them.\<close>

lemma IsDone_limit:
  assumes "eps_pos e h inp L ptr L"
  shows "hpb_EpsCopyInputStream_IsDone e ptr h = Inr (True, ptr, e, h)" "ptr \<noteq> 0"
proof -
  obtain s w E R where inv: "eps_inv e h inp L s w E R" and p: "w \<le> L" "L < E + 2 ^ 31" "ptr = s + of_nat (L - w)"
    using assms unfolding eps_pos_def by blast
  show "hpb_EpsCopyInputStream_IsDone e ptr h = Inr (True, ptr, e, h)"
    using IsDone_correct [OF inv p(1,2)] unfolding p(3) by auto
  show "ptr \<noteq> 0"
    using eps_pos_advance(2) [OF assms, of 0] offset_bounds(3) [OF inv] by auto
qed

lemma skip_fields_limit:
  "fields_ok fs \<Longrightarrow> eps_pos e h inp L ptr p \<Longrightarrow> at_bytes inp p (fields_bytes fs) \<Longrightarrow> p + length (fields_bytes fs) = L \<Longrightarrow>
   int (fields_depth fs) < depth \<Longrightarrow> length (fields_bytes fs) + 1 < n \<Longrightarrow>
   skips_to (skip_group_loop n ptr (wire_tag number WireType_EndGroup) depth e h) e inp L L"
proof (induction fs arbitrary: e h ptr p n rule: wire_fields.induct [of "\<lambda>_. True"])
  case WNil
  then obtain m where "n = Suc m"
    by (cases n) auto
  then show ?case
    using WNil IsDone_limit [of e h inp L ptr] by (simp add: skips_to_def)
next
  case (WField number1 v fs)
  let ?t = "tag_varint number1 (wire_val_type v)"
  obtain m where n: "n = Suc m"
    using WField.prems(6) by (cases n) auto
  have at: "at_bytes inp p (?t @ val_bytes number1 v @ fields_bytes fs)" "p + length (?t @ val_bytes number1 v @ fields_bytes fs) = L"
    using WField.prems(3,4) by simp_all
  note at1 = at_bytes_append [OF at(1)]
  note at2 = at_bytes_append [OF at1(2)]
  have "0 < length ?t"
    by (rule tag_varint_pos)
  then have fuel: "length (val_bytes number1 v) + 1 < m" "length (fields_bytes fs) + 1 < m"
    using WField.prems(6) unfolding n fields_bytes.simps length_append by linarith+
  show ?case
    unfolding n
  proof (rule loop_field [OF WField.prems(2) at1(1)])
    show "p + length ?t \<le> L"
      using at(2) by simp
  next
    fix ptr1 e1 h1 assume "eps_pos e1 h1 inp L ptr1 (p + length ?t)"
    then show "skips_to (hpb_WireReader_SkipValue_depth (hpb_WireReader_SkipGroup_depth (skip_group_loop m)) ptr1
        (wire_tag number1 (wire_val_type v)) depth e1 h1) e1 inp L (p + length ?t + length (val_bytes number1 v))"
      by (intro skip_value_loop(1)) (use WField.prems at2(1) at(2) fuel(1) in simp_all)
  next
    fix ptr2 e2 h2 assume pos2: "eps_pos e2 h2 inp L ptr2 (p + length ?t + length (val_bytes number1 v))"
    have "p + length ?t + length (val_bytes number1 v) + length (fields_bytes fs) = L"
      unfolding at(2) [symmetric] by simp
    then show "skips_to (skip_group_loop m ptr2 (wire_tag number WireType_EndGroup) depth e2 h2) e2 inp L L"
      using WField.IH [OF _ pos2 at2(2)] WField.prems(1,5) fuel(2) by simp
  qed
qed simp_all

section \<open>Theorems\<close>

text \<open>
  C25: skipping a value that the stream holds returns, and moves to the position right after it, for
  every wire type and for groups nested less than a hundred deep, wherever the value lies in the
  input and whether or not the stream changes to its patch buffer on the way. No error is set and
  no assertion fails.
\<close>

theorem hpb_WireReader_SkipValue_correct:
  assumes "val_ok v" "eps_pos e h inp L ptr p" "at_bytes inp p (val_bytes number v)" "p + length (val_bytes number v) \<le> L"
    "val_depth v < 100" "length (val_bytes number v) + 1 < n"
  shows "\<exists>ptr' e' h'. hpb_WireReader_SkipValue n ptr (wire_tag number (wire_val_type v)) e h = Inr (ptr', e', h') \<and> ptr' \<noteq> 0 \<and>
    eps_pos e' h' inp L ptr' (p + length (val_bytes number v)) \<and> e_error e' = e_error e"
proof -
  have "int (val_depth v) < 100"
    using assms(5) by simp
  then show ?thesis
    using skip_value_loop(1) [OF assms(1-4) _ assms(6), of 100] by (simp add: skips_to_def hpb_WireReader_SkipValue_def)
qed

theorem hpb_WireReader_SkipValue_correct_witness:
  "\<exists>e h ptr' e' h'. hpb_EpsCopyInputStream_Init ex_eps 4096 2 False (empty_heap []) = (e, 8589934592, h) \<and>
     hpb_WireReader_SkipValue 5 8589934592 (wire_tag 1 WireType_Varint) e h = Inr (ptr', e', h') \<and> eps_pos e' h' [0, 0] 2 ptr' 1"
proof -
  obtain e h where i: "hpb_EpsCopyInputStream_Init ex_eps 4096 2 False (empty_heap []) = (e, 8589934592, h)"
    "eps_inv e h [0, 0] 2 8589934592 0 2 32"
    using one_stream by blast
  have pos: "eps_pos e h [0, 0] 2 8589934592 0"
    unfolding eps_pos_def using i(2) by (intro exI conjI) (assumption, simp_all)
  have v: "val_bytes 1 (WVarint 0) = [0]"
    by (simp add: encode_varint64.simps [of 0])
  have at: "at_bytes [0, 0] 0 (val_bytes 1 (WVarint 0))"
    unfolding v at_bytes_def by (intro exI [of _ "[]"] exI [of _ "[0]"]) simp
  show ?thesis
    using hpb_WireReader_SkipValue_correct [OF _ pos at, of 5] i(1) v by auto
qed

text \<open>
  C40: a group whose end tag is missing is not reported: when the stream ends after some fields of
  the group, whatever they are, the function returns the pointer to the end of the stream and sets
  no error, as it does for a group that ends there.
\<close>

theorem hpb_WireReader_SkipGroup_unterminated:
  assumes "fields_ok fs" "eps_pos e h inp L ptr p" "at_bytes inp p (fields_bytes fs)" "p + length (fields_bytes fs) = L"
    "fields_depth fs < 99" "length (fields_bytes fs) + 1 < n"
  shows "\<exists>ptr' e' h'. hpb_WireReader_SkipGroup n ptr (wire_tag number WireType_StartGroup) e h = Inr (ptr', e', h') \<and>
    ptr' \<noteq> 0 \<and> eps_pos e' h' inp L ptr' L \<and> e_error e' = e_error e"
proof -
  have "int (fields_depth fs) < 99"
    using assms(5) by simp
  from skip_fields_limit [OF assms(1-4) this assms(6), of number] show ?thesis
    by (simp add: skips_to_def hpb_WireReader_SkipGroup_def hpb_WireReader_SkipGroup_depth_def end_group_tag [simplified])
qed

theorem hpb_WireReader_SkipGroup_unterminated_witness:
  "\<exists>e h ptr' e' h'. hpb_EpsCopyInputStream_Init ex_eps 4096 2 False (empty_heap []) = (e, 8589934592, h) \<and>
     hpb_WireReader_SkipGroup 4 8589934592 (wire_tag 1 WireType_StartGroup) e h = Inr (ptr', e', h') \<and> ptr' \<noteq> 0 \<and>
     eps_pos e' h' [0, 0] 2 ptr' 2"
proof -
  obtain e h where i: "hpb_EpsCopyInputStream_Init ex_eps 4096 2 False (empty_heap []) = (e, 8589934592, h)"
    "eps_inv e h [0, 0] 2 8589934592 0 2 32"
    using one_stream by blast
  have pos: "eps_pos e h [0, 0] 2 8589934592 0"
    unfolding eps_pos_def using i(2) by (intro exI conjI) (assumption, simp_all)
  have v: "fields_bytes (WField 0 (WVarint 0) WNil) = [0, 0]"
    by (simp add: encode_varint64.simps [of 0] tag_varint_def wire_tag_def)
  have at: "at_bytes [0, 0] 0 (fields_bytes (WField 0 (WVarint 0) WNil))"
    unfolding v at_bytes_def by (intro exI [of _ "[]"]) simp
  show ?thesis
    using hpb_WireReader_SkipGroup_unterminated [OF _ pos at, of 4 1, unfolded v] i(1) by auto
qed

end
