(* ===== verification/ExtRegistry.thy ===== *)
theory ExtRegistry
  imports StrTable Memory MiniTable
begin

text \<open>
  The extension registry (\<open>mini_table/extension_registry.c\<close>): a string table from the address of
  the extended table and a field number to the address of an extension. \<open>exts\<close> gives the extension
  at an address; the address of a table is its index in the store of tables.
\<close>

section \<open>Operations\<close>

record hpb_ExtensionRegistry =
  r_exts :: hpb_strtable

type_synonym ext_store = "u64 \<Rightarrow> hpb_MiniTableExtension"

definition extreg_key :: "u64 \<Rightarrow> u32 \<Rightarrow> byte list" where
  "extreg_key l fieldnum = le_bytes 8 l @ le_bytes 4 (ucast fieldnum)"

text \<open>The arena is \<open>ok\<close>, the success of its allocations by number; \<open>None\<close> is \<open>NULL\<close>.\<close>

definition hpb_ExtensionRegistry_New :: "(nat \<Rightarrow> bool) \<Rightarrow> nat \<Rightarrow> tab_fail + (hpb_ExtensionRegistry option \<times> nat)" where
  "hpb_ExtensionRegistry_New ok n =
     (if \<not> ok n then Inr (None, Suc n)
      else res_bind (hpb_strtable_init ok (Suc n) 8) (\<lambda>(t, n).
        Inr (map_option (\<lambda>t. \<lparr>r_exts = t\<rparr>) t, n)))"

definition ext_key :: "hpb_MiniTableExtension \<Rightarrow> byte list" where
  "ext_key e = extreg_key (of_nat (extendee e)) (f_number (ext_field e))"

definition hpb_ExtensionRegistry_Add ::
  "ext_store \<Rightarrow> (nat \<Rightarrow> bool) \<Rightarrow> hpb_ExtensionRegistry \<Rightarrow> u64 \<Rightarrow> nat \<Rightarrow> tab_fail + (bool \<times> hpb_ExtensionRegistry \<times> nat)" where
  "hpb_ExtensionRegistry_Add exts ok r e n =
     (let buf = ext_key (exts e) in
      res_bind (hpb_strtable_lookup2 (r_exts r) buf) (\<lambda>found.
        if found \<noteq> None then Inr (False, r, n)
        else res_bind (hpb_strtable_insert 2 ok n (r_exts r) buf e) (\<lambda>(t, inserted, n).
          Inr (inserted, r\<lparr>r_exts := t\<rparr>, n))))"

text \<open>The loop returns the number of extensions added before the first that failed.\<close>

fun add_loop ::
  "ext_store \<Rightarrow> (nat \<Rightarrow> bool) \<Rightarrow> hpb_ExtensionRegistry \<Rightarrow> u64 list \<Rightarrow> nat \<Rightarrow>
   tab_fail + (nat \<times> bool \<times> hpb_ExtensionRegistry \<times> nat)" where
  "add_loop exts ok r [] n = Inr (0, True, r, n)"
| "add_loop exts ok r (e # es) n =
     res_bind (hpb_ExtensionRegistry_Add exts ok r e n) (\<lambda>(added, r, n).
       if \<not> added then Inr (0, False, r, n)
       else res_bind (add_loop exts ok r es n) (\<lambda>(i, res). Inr (Suc i, res)))"

fun remove_loop :: "ext_store \<Rightarrow> hpb_ExtensionRegistry \<Rightarrow> u64 list \<Rightarrow> tab_fail + hpb_ExtensionRegistry" where
  "remove_loop exts r [] = Inr r"
| "remove_loop exts r (e # es) =
     res_bind (hpb_strtable_remove2 (r_exts r) (ext_key (exts e))) (\<lambda>(t, _). remove_loop exts (r\<lparr>r_exts := t\<rparr>) es)"

definition hpb_ExtensionRegistry_AddArray ::
  "ext_store \<Rightarrow> (nat \<Rightarrow> bool) \<Rightarrow> hpb_ExtensionRegistry \<Rightarrow> u64 list \<Rightarrow> nat \<Rightarrow>
   tab_fail + (bool \<times> hpb_ExtensionRegistry \<times> nat)" where
  "hpb_ExtensionRegistry_AddArray exts ok r es n =
     res_bind (add_loop exts ok r es n) (\<lambda>(i, success, r, n).
       if success then Inr (True, r, n)
       else res_bind (remove_loop exts r (take i es)) (\<lambda>r. Inr (False, r, n)))"

definition hpb_ExtensionRegistry_Lookup :: "hpb_ExtensionRegistry \<Rightarrow> u64 \<Rightarrow> u32 \<Rightarrow> tab_fail + u64" where
  "hpb_ExtensionRegistry_Lookup r t num =
     res_bind (hpb_strtable_lookup2 (r_exts r) (extreg_key t num)) (\<lambda>found.
       Inr (case found of Some v \<Rightarrow> v | None \<Rightarrow> 0))"

section \<open>Correctness\<close>

definition reg_inv :: "hpb_ExtensionRegistry \<Rightarrow> bool" where
  "reg_inv r \<longleftrightarrow> str_inv (r_exts r) \<and> tab_size_lg2 (r_exts r) \<noteq> 0"

abbreviation reg_map :: "hpb_ExtensionRegistry \<Rightarrow> byte list \<Rightarrow> u64 option" where
  "reg_map r \<equiv> tab_map (r_exts r)"

abbreviation reg_count :: "hpb_ExtensionRegistry \<Rightarrow> nat" where
  "reg_count r \<equiv> tab_count (r_exts r)"

lemma ext_key_length [simp]: "length (ext_key e) = 12" "length (extreg_key t num) = 12"
  by (simp_all add: ext_key_def extreg_key_def)

lemma reg_lookup:
  "reg_inv r \<Longrightarrow> hpb_strtable_lookup2 (r_exts r) k = Inr (reg_map r k)"
  by (simp add: reg_inv_def str_inv_def hpb_strtable_lookup2_def tab_lookup_correct)

lemma reg_remove:
  assumes "reg_inv r"
  shows "\<exists>t. hpb_strtable_remove2 (r_exts r) k = Inr (t, reg_map r k) \<and> reg_inv (r\<lparr>r_exts := t\<rparr>) \<and>
    tab_map t = (reg_map r)(k := None)"
  using strtable_remove_map [of "r_exts r" k] assms by (auto simp: reg_inv_def)

lemma reg_add:
  assumes inv: "reg_inv r" and cnt: "reg_count r < 2 ^ 28"
  shows "\<exists>r' n'. hpb_ExtensionRegistry_Add exts (\<lambda>_. True) r e n =
      Inr (reg_map r (ext_key (exts e)) = None, r', n') \<and> reg_inv r' \<and> reg_count r' \<le> Suc (reg_count r) \<and>
    reg_map r' = (if reg_map r (ext_key (exts e)) = None then (reg_map r)(ext_key (exts e) \<mapsto> e) else reg_map r)"
proof (cases "reg_map r (ext_key (exts e))")
  case None
  have str: "str_inv (r_exts r)"
    using inv by (simp add: reg_inv_def)
  then obtain t n' where t: "hpb_strtable_insert (Suc (Suc 0)) (\<lambda>_. True) n (r_exts r) (ext_key (exts e)) e = Inr (t, True, n')"
    "str_inv t" "tab_map t = (reg_map r)(ext_key (exts e) \<mapsto> e)" "tab_size_lg2 t \<noteq> 0"
    using strtable_insert_map [OF str cnt _ None, of 0 n e] by auto
  have "tab_count t \<le> Suc (reg_count r)"
    using t(2,3) tab_count_dom [of strhash t] tab_count_dom [of strhash "r_exts r"] str
    by (simp add: str_inv_def card_insert_if)
  then show ?thesis
    using None t reg_lookup [OF inv]
    by (simp add: hpb_ExtensionRegistry_Add_def reg_inv_def numeral_2_eq_2 del: hpb_strtable_insert.simps)
next
  case (Some v)
  then show ?thesis
    using inv reg_lookup [OF inv] by (simp add: hpb_ExtensionRegistry_Add_def)
qed

text \<open>The map after a list of extensions with different keys was added.\<close>

definition add_all :: "ext_store \<Rightarrow> u64 list \<Rightarrow> (byte list \<Rightarrow> u64 option) \<Rightarrow> byte list \<Rightarrow> u64 option" where
  "add_all exts es f = f ++ map_of (map (\<lambda>e. (ext_key (exts e), e)) es)"

text \<open>All extensions can be added.\<close>

definition all_new :: "ext_store \<Rightarrow> u64 list \<Rightarrow> (byte list \<Rightarrow> u64 option) \<Rightarrow> bool" where
  "all_new exts es f \<longleftrightarrow> distinct (map (\<lambda>e. ext_key (exts e)) es) \<and> (\<forall>e \<in> set es. f (ext_key (exts e)) = None)"

lemma all_new_Cons:
  "all_new exts (e # es) f \<longleftrightarrow> f (ext_key (exts e)) = None \<and> all_new exts es (f(ext_key (exts e) \<mapsto> e))"
  by (force simp: all_new_def image_iff)

lemma add_all_Cons:
  "all_new exts (e # es) f \<Longrightarrow> add_all exts (e # es) f = add_all exts es (f(ext_key (exts e) \<mapsto> e))"
  by (auto simp: add_all_def all_new_def map_add_def fun_eq_iff map_of_eq_None_iff split: option.splits)
    (force dest: map_of_SomeD)+

lemma extreg_key_inject: "extreg_key t num = extreg_key t' num' \<longleftrightarrow> t = t' \<and> num = num'"
proof
  assume "extreg_key t num = extreg_key t' num'"
  then have "le_bytes 8 t = le_bytes 8 t'" "le_bytes 4 (ucast num) = le_bytes 4 (ucast num')"
    by (simp_all add: extreg_key_def)
  then have "le_word (le_bytes 8 t) = le_word (le_bytes 8 t')"
    "le_word (le_bytes 4 (ucast num)) = le_word (le_bytes 4 (ucast num'))"
    by simp_all
  moreover have "take_bit 64 w = w" for w :: u64
    by (rule bit_word_eqI) (auto simp: bit_simps)
  moreover have "take_bit 32 (ucast w :: u64) = ucast w" for w :: u32
    by (rule bit_word_eqI) (auto simp: bit_simps dest: bit_imp_le_length)
  ultimately have "t = t'" "(ucast num :: u64) = ucast num'"
    by (simp_all add: le_word_bytes)
  moreover have "(ucast (ucast w :: u64) :: u32) = w" for w :: u32
    by (rule bit_word_eqI) (auto simp: bit_simps)
  ultimately show "t = t' \<and> num = num'"
    by metis
qed simp

lemma add_all_mem:
  assumes "all_new exts es f" and "e \<in> set es"
  shows "add_all exts es f (ext_key (exts e)) = Some e"
proof -
  have "map_of (map (\<lambda>e. (ext_key (exts e), e)) es) (ext_key (exts e)) = Some e"
    using assms by (intro map_of_is_SomeI) (auto simp: all_new_def comp_def)
  then show ?thesis
    by (simp add: add_all_def)
qed

lemma add_all_other:
  assumes "\<forall>e \<in> set es. t \<noteq> of_nat (extendee (exts e)) \<or> num \<noteq> f_number (ext_field (exts e))"
  shows "add_all exts es f (extreg_key t num) = f (extreg_key t num)"
proof -
  have "map_of (map (\<lambda>e. (ext_key (exts e), e)) es) (extreg_key t num) = None"
    using assms by (auto simp: map_of_eq_None_iff ext_key_def extreg_key_inject)
  then show ?thesis
    by (simp add: add_all_def map_add_def)
qed

lemma add_loop_correct:
  "reg_inv r \<Longrightarrow> reg_count r + length es \<le> 2 ^ 28 \<Longrightarrow>
   \<exists>i r' n'. add_loop exts (\<lambda>_. True) r es n = Inr (i, all_new exts es (reg_map r), r', n') \<and> reg_inv r' \<and> i \<le> length es \<and>
     all_new exts (take i es) (reg_map r) \<and> reg_map r' = add_all exts (take i es) (reg_map r) \<and>
     (all_new exts es (reg_map r) \<longrightarrow> i = length es)"
proof (induction es arbitrary: r n)
  case Nil
  then show ?case
    by (simp add: all_new_def add_all_def)
next
  case (Cons e es)
  let ?k = "ext_key (exts e)"
  have "reg_count r < 2 ^ 28"
    using Cons.prems(2) by simp
  then obtain r1 n1 where r1: "hpb_ExtensionRegistry_Add exts (\<lambda>_. True) r e n = Inr (reg_map r ?k = None, r1, n1)" "reg_inv r1"
    "reg_count r1 \<le> Suc (reg_count r)" "reg_map r1 = (if reg_map r ?k = None then (reg_map r)(?k \<mapsto> e) else reg_map r)"
    using reg_add [OF Cons.prems(1)] by blast
  show ?case
  proof (cases "reg_map r ?k = None")
    case True
    then obtain i r' n' where "add_loop exts (\<lambda>_. True) r1 es n1 = Inr (i, all_new exts es (reg_map r1), r', n')" "reg_inv r'"
      "i \<le> length es" "all_new exts (take i es) (reg_map r1)" "reg_map r' = add_all exts (take i es) (reg_map r1)"
      "all_new exts es (reg_map r1) \<longrightarrow> i = length es"
      using Cons.IH [OF r1(2), of n1] Cons.prems(2) r1(3) by auto
    then show ?thesis
      using True r1(1,4) add_all_Cons [of exts e "take i es" "reg_map r"]
      by (intro exI [of _ "Suc i"] exI [of _ r'] exI [of _ n']) (simp add: all_new_Cons)
  next
    case False
    then obtain v where "reg_map r ?k = Some v"
      by blast
    then have "reg_map r1 = reg_map r" "hpb_ExtensionRegistry_Add exts (\<lambda>_. True) r e n = Inr (False, r1, n1)"
      using r1(1,4) by simp_all
    then show ?thesis
      using False r1(2) by (simp add: all_new_Cons) (simp add: all_new_def add_all_def)
  qed
qed

lemma remove_loop_correct:
  "reg_inv r \<Longrightarrow> \<exists>r'. remove_loop exts r es = Inr r' \<and> reg_inv r' \<and>
     reg_map r' = (\<lambda>k. if k \<in> (\<lambda>e. ext_key (exts e)) ` set es then None else reg_map r k)"
proof (induction es arbitrary: r)
  case (Cons e es)
  obtain t where t: "hpb_strtable_remove2 (r_exts r) (ext_key (exts e)) = Inr (t, reg_map r (ext_key (exts e)))"
    "reg_inv (r\<lparr>r_exts := t\<rparr>)" "tab_map t = (reg_map r)(ext_key (exts e) := None)"
    using reg_remove [OF Cons.prems] by blast
  show ?case
    using Cons.IH [OF t(2)] t by (auto simp: fun_eq_iff)
qed simp

text \<open>
  C20: adding an array of extensions is all or nothing. It returns, when memory lasts and the
  registry stays within \<open>2 ^ 28\<close> entries; when the pairs of table and number are new and differ
  from each other it reports success, a lookup of each of them then gives its extension and any
  other lookup what it gave before; otherwise it reports failure and every lookup gives what it
  gave before.
\<close>

theorem hpb_ExtensionRegistry_AddArray_atomic:
  assumes inv: "reg_inv r" and cnt: "reg_count r + length es \<le> 2 ^ 28"
  shows "\<exists>r' n'. hpb_ExtensionRegistry_AddArray exts (\<lambda>_. True) r es n = Inr (all_new exts es (reg_map r), r', n') \<and> reg_inv r' \<and>
    (if all_new exts es (reg_map r)
     then (\<forall>e \<in> set es. hpb_ExtensionRegistry_Lookup r' (of_nat (extendee (exts e))) (f_number (ext_field (exts e))) = Inr e) \<and>
       (\<forall>t num. (\<forall>e \<in> set es. t \<noteq> of_nat (extendee (exts e)) \<or> num \<noteq> f_number (ext_field (exts e))) \<longrightarrow>
          hpb_ExtensionRegistry_Lookup r' t num = hpb_ExtensionRegistry_Lookup r t num)
     else \<forall>t num. hpb_ExtensionRegistry_Lookup r' t num = hpb_ExtensionRegistry_Lookup r t num)"
proof -
  obtain i r1 n1 where l: "add_loop exts (\<lambda>_. True) r es n = Inr (i, all_new exts es (reg_map r), r1, n1)" "reg_inv r1"
    "all_new exts (take i es) (reg_map r)" "reg_map r1 = add_all exts (take i es) (reg_map r)"
    "all_new exts es (reg_map r) \<longrightarrow> i = length es"
    using add_loop_correct [OF inv cnt] by blast
  show ?thesis
  proof (cases "all_new exts es (reg_map r)")
    case True
    have r1: "reg_map r1 = add_all exts es (reg_map r)"
      using l(4,5) True by simp
    have "hpb_ExtensionRegistry_Lookup r1 (of_nat (extendee (exts e))) (f_number (ext_field (exts e))) = Inr e"
      if "e \<in> set es" for e
      using add_all_mem [OF True that] reg_lookup [OF l(2)]
      by (simp add: hpb_ExtensionRegistry_Lookup_def r1 ext_key_def)
    moreover have "hpb_ExtensionRegistry_Lookup r1 t num = hpb_ExtensionRegistry_Lookup r t num"
      if "\<forall>e \<in> set es. t \<noteq> of_nat (extendee (exts e)) \<or> num \<noteq> f_number (ext_field (exts e))" for t num
      using add_all_other [OF that] reg_lookup [OF l(2)] reg_lookup [OF inv]
      by (simp add: hpb_ExtensionRegistry_Lookup_def r1)
    ultimately show ?thesis
      using True l(1,2) by (simp add: hpb_ExtensionRegistry_AddArray_def)
  next
    case False
    obtain r2 where r2: "remove_loop exts r1 (take i es) = Inr r2" "reg_inv r2"
      "reg_map r2 = (\<lambda>k. if k \<in> (\<lambda>e. ext_key (exts e)) ` set (take i es) then None else reg_map r1 k)"
      using remove_loop_correct [OF l(2)] by blast
    have "reg_map r2 k = reg_map r k" for k
    proof (cases "k \<in> (\<lambda>e. ext_key (exts e)) ` set (take i es)")
      case False
      then have "map_of (map (\<lambda>e. (ext_key (exts e), e)) (take i es)) k = None"
        by (auto simp: map_of_eq_None_iff)
      then show ?thesis
        using False by (simp add: r2(3) l(4) add_all_def map_add_def)
    qed (use l(3) r2(3) in \<open>auto simp: all_new_def\<close>)
    then show ?thesis
      using False l(1) r2(1,2) reg_lookup [OF inv] reg_lookup [OF r2(2)]
      by (simp add: hpb_ExtensionRegistry_AddArray_def hpb_ExtensionRegistry_Lookup_def)
  qed
qed

lemma reg_new: "\<exists>r. hpb_ExtensionRegistry_New (\<lambda>_. True) 0 = Inr (Some r, 2) \<and> reg_inv r \<and> reg_map r = (\<lambda>_. None) \<and> reg_count r = 0"
proof -
  have lg: "hpb_Log2Ceiling 10 = 4"
    by (simp add: hpb_Log2Ceiling_def builtin_clz_def) code_simp
  have "hpb_strtable_init (\<lambda>_. True) (Suc 0) 8 = Inr (Some (init_table 4), Suc (Suc 0))"
    by (simp add: hpb_strtable_init_def lg tab_init_def table_size_of_def)
  moreover have "str_inv (init_table 4)" "tab_map (init_table 4 :: hpb_strtable) = (\<lambda>_. None)"
    using init_table_str [of 4] by simp_all
  moreover have "tab_size_lg2 (init_table 4 :: hpb_strtable) \<noteq> 0" "tab_count (init_table 4 :: hpb_strtable) = 0"
    by (simp_all add: init_table_def Let_def)
  ultimately show ?thesis
    by (simp add: hpb_ExtensionRegistry_New_def reg_inv_def)
qed

text \<open>Two extensions of the table at 64, with the numbers 100 and 101, and then the first again.\<close>

definition demo_ext :: "u64 \<Rightarrow> hpb_MiniTableExtension" where
  "demo_ext p = \<lparr>ext_field = \<lparr>f_number = (if p = 16 then 100 else 101), f_offset = 0, f_presence = 0, submsg_index = 0,
     descriptortype = FieldType_Int32, f_mode = 0\<rparr>, extendee = 64, ext_sub = SubMsg None\<rparr>"

lemma demo_ext_new: "all_new demo_ext [16, 24] (\<lambda>_. None)" "\<not> all_new demo_ext [16, 24, 16] (\<lambda>_. None)"
proof -
  have "ext_key (demo_ext 16) \<noteq> ext_key (demo_ext 24)"
  proof
    assume "ext_key (demo_ext 16) = ext_key (demo_ext 24)"
    then have "le_word (le_bytes 4 100) = le_word (le_bytes 4 101)"
      by (simp add: ext_key_def extreg_key_def demo_ext_def)
    then show False
      by (simp add: le_word_bytes)
  qed
  then show "all_new demo_ext [16, 24] (\<lambda>_. None)" "\<not> all_new demo_ext [16, 24, 16] (\<lambda>_. None)"
    by (simp_all add: all_new_def)
qed

theorem hpb_ExtensionRegistry_AddArray_atomic_witness:
  "\<exists>r r1 r2 n1 n2. hpb_ExtensionRegistry_New (\<lambda>_. True) 0 = Inr (Some r, 2) \<and>
    hpb_ExtensionRegistry_AddArray demo_ext (\<lambda>_. True) r [16, 24] 2 = Inr (True, r1, n1) \<and>
    hpb_ExtensionRegistry_Lookup r1 64 101 = Inr 24 \<and>
    hpb_ExtensionRegistry_AddArray demo_ext (\<lambda>_. True) r [16, 24, 16] 2 = Inr (False, r2, n2) \<and>
    (\<forall>t num. hpb_ExtensionRegistry_Lookup r2 t num = Inr 0)"
proof -
  obtain r where r: "hpb_ExtensionRegistry_New (\<lambda>_. True) 0 = Inr (Some r, 2)" "reg_inv r" "reg_map r = (\<lambda>_. None)" "reg_count r = 0"
    using reg_new by blast
  have "reg_count r + length [16, 24 :: u64] \<le> 2 ^ 28" "reg_count r + length [16, 24, 16 :: u64] \<le> 2 ^ 28"
    by (simp_all add: r(4))
  note c = this
  obtain r1 n1 where "hpb_ExtensionRegistry_AddArray demo_ext (\<lambda>_. True) r [16, 24] 2 = Inr (True, r1, n1)"
    "hpb_ExtensionRegistry_Lookup r1 64 101 = Inr 24"
    using hpb_ExtensionRegistry_AddArray_atomic [OF r(2) c(1), of demo_ext 2] demo_ext_new(1) r(3) by (auto simp: demo_ext_def)
  moreover obtain r2 n2 where "hpb_ExtensionRegistry_AddArray demo_ext (\<lambda>_. True) r [16, 24, 16] 2 = Inr (False, r2, n2)"
    "\<forall>t num. hpb_ExtensionRegistry_Lookup r2 t num = hpb_ExtensionRegistry_Lookup r t num"
    using hpb_ExtensionRegistry_AddArray_atomic [OF r(2) c(2), of demo_ext 2] demo_ext_new(2) r(3) by auto
  ultimately show ?thesis
    using r(1,3) reg_lookup [OF r(2)] by (auto simp: hpb_ExtensionRegistry_Lookup_def)
qed

end
