(* ===== verification/Spec2Isabelle.thy ===== *)
theory Spec2Isabelle
  imports MtEnumTable MtTable MtLink IntCompact ArraySafe SorterSafe WireSkip ExtRegistry
begin

text \<open>
  A verification library for \<open>hpb\<close>, a protocol buffer runtime in C (\<open>src/hpb\<close>).

  \<^bold>\<open>The program.\<close> A message type is described by a mini descriptor, a string in a base-92
  alphabet. The decoder of mini descriptors builds a mini table from it: the fields with their
  numbers, types, hasbits and offsets in the memory of a message. Tables of sub-messages and enums
  are linked into the fields. Tables, messages, arrays and maps live in arenas, which allocate by
  moving a pointer through blocks and are released as a whole; arenas can be fused, and then live
  as long as the last of them. Hash tables with string or integer keys are the base of maps and
  of the reflection layer. The encoder writes a message backwards into a buffer of an arena; the
  decoder reads the wire format through an input stream that allows 16 bytes to be read at any
  position without a bounds check.

  \<^bold>\<open>Theories and source files.\<close>
  \<^item> \<open>Prelude\<close>: words for the C integer types, results with errors, generic lemmas.
  \<^item> \<open>Lex\<close>: \<open>lex/atoi.c\<close>, \<open>lex/unicode.c\<close>, \<open>base/internal/log2.h\<close>. Decimal numbers with overflow,
    UTF-8, surrogates, binary logarithms.
  \<^item> \<open>Base92\<close>, \<open>Descriptor\<close>: \<open>mini_descriptor/internal/base92.c\<close>, \<open>wire_constants.h\<close>,
    \<open>modifiers.h\<close>, \<open>base/descriptor_constants.h\<close>. The locale \<open>base92_range\<close> is the contract of
    variable-length integers over a range of characters, interpreted for the three ranges in use.
  \<^item> \<open>MtEncoder\<close>: \<open>mini_descriptor/internal/encode.c\<close>. \<open>MdDecoder\<close>: \<open>internal/decoder.h\<close>.
  \<^item> \<open>MtEnum\<close>, \<open>MtEnumTable\<close>: \<open>mini_descriptor/build_enum.c\<close>, \<open>mini_table/internal/enum.h\<close> and the
    encoding of enums in \<open>reflection/enum_def.c\<close>.
  \<^item> \<open>MiniTable\<close>: \<open>mini_table/internal/field.h\<close>, \<open>message.h\<close>, \<open>sub.h\<close>, \<open>mini_table/message.c\<close>,
    \<open>mini_table/compat.c\<close>. A table refers to others by address in a store, since types may be
    recursive.
  \<^item> \<open>MtDecoder\<close>, \<open>MtLayout\<close>, \<open>MtParse\<close>, \<open>MtBuild\<close>, \<open>MtTable\<close>: \<open>mini_descriptor/decode.c\<close>. The first
    is the model, the next three prove what parsing, hasbits, sorting and placing establish, the
    last has the theorems on \<open>hpb_MiniTable_Build\<close>. The locale \<open>item_pass\<close> is the contract of a pass
    over the layout items, interpreted for oneof cases and for offsets. \<open>message_layout\<close> is the
    layout that building promises; it states where the 16-bit size and the signed 16-bit presence
    of the code wrap.
  \<^item> \<open>MtLink\<close>: \<open>mini_descriptor/link.c\<close>. The locale \<open>link_pass\<close> is the contract of linking one kind of
    field, interpreted for messages and for enums.
  \<^item> \<open>HashTable\<close>, \<open>HashChain\<close>, \<open>HashRemove\<close>, \<open>Wyhash\<close>, \<open>StrTable\<close>, \<open>IntTable\<close>, \<open>IntCompact\<close>:
    \<open>hash/common.c\<close> and its headers. The invariant describes the chains through \<open>next\<close>; the locale
    \<open>map_store\<close> is the contract of a finite map, interpreted for the hash table and for string
    tables.
  \<^item> \<open>ExtRegistry\<close>: \<open>mini_table/extension_registry.c\<close>, a string table from the address of a table and a
    field number to an extension.
  \<^item> \<open>Arena\<close>, \<open>ArenaAlloc\<close>, \<open>ArenaGroup\<close>, \<open>ArenaFuse\<close>, \<open>ArenaFree\<close>, \<open>ArenaLife\<close>, \<open>ArenaInit\<close>,
    \<open>ArenaSafe\<close>, \<open>ArenaRefuse\<close>: \<open>mem/arena.c\<close>, \<open>mem/arena.h\<close>, \<open>mem/internal/arena.h\<close>, \<open>mem/alloc.h\<close>. The record
    \<open>heap\<close> holds the arena structures and block headers by address, the bytes, and the regions
    held from the allocator. \<open>layout_ok\<close> says that all pieces of memory are apart, \<open>groups_ok\<close> and
    \<open>blocks_ok\<close> describe fused arenas and the blocks they own, \<open>reachable\<close> the states that the
    operations reach, \<open>arena_refused\<close> that an arena has no room for a size and gets no block for it,
    the only reason for an allocation to fail.
  \<^item> \<open>Memory\<close>, \<open>Array\<close>, \<open>ArrayOps\<close>, \<open>ArrayList\<close>, \<open>ArrayGrow\<close>, \<open>ArrayUse\<close>, \<open>ArraySafe\<close>:
    \<open>collections/array.c\<close>, \<open>collections/internal/array.h\<close>, \<open>collections/array_split64.h\<close>. The header
    and the elements of an array are bytes of an arena; \<open>array_list\<close> reads the elements, and the
    operations refine list operations. The locale \<open>growable_list\<close> is the contract of appending,
    interpreted for arrays.
  \<^item> \<open>MapOps\<close>, \<open>MapSafe\<close>, \<open>MapIter\<close>: \<open>collections/map.c\<close>, \<open>collections/map.h\<close>, \<open>collections/internal/map.h\<close>,
    \<open>collections/map_gencode_util.h\<close>. A map field is a string table whose keys are the bytes of
    keys and whose values are the bytes of numbers or addresses of string views in an explicit
    store (\<open>map_env\<close>). \<open>map_abs\<close> is the finite map it stands for, \<open>map_inv\<close> its invariant.
  \<^item> \<open>MapSorter\<close>, \<open>SorterSafe\<close>: \<open>collections/map_sorter.c\<close>, \<open>collections/internal/map_sorter.h\<close>. The locale
    \<open>key_comparison\<close> is the contract of a comparison function for \<open>qsort\<close>, interpreted for the six
    functions on keys and for the one on extensions.
  \<^item> \<open>WireVarint\<close>: the varints of \<open>wire/encode.c\<close>, \<open>wire/reader.h\<close>, \<open>wire/reader.c\<close> and \<open>wire/decode.c\<close>,
    and the conversion between varints and field values. \<open>varint_ref\<close> is the reference reader.
  \<^item> \<open>EpsStream\<close>, \<open>EpsInv\<close>, \<open>EpsSafe\<close>: \<open>wire/eps_copy_input_stream.h\<close>. The stream is a list of
    bytes with a position and a limit, seen through a window that is the input itself or the patch
    buffer (\<open>eps_inv\<close>, \<open>eps_pos\<close>). The callback at a change of buffer is an argument; the
    one that does nothing is modelled.
  \<^item> \<open>Encoder\<close>, \<open>EncBuffer\<close>, \<open>EncFields\<close>, \<open>EncArray\<close>, \<open>EncSafe\<close>: \<open>wire/encode.c\<close>. The first is the model
    of the buffer and of the functions that write fields. \<open>prepends\<close> is the contract of an
    operation that puts bytes before those written so far, or fails because the buffer had no room
    for them and its arena no memory (\<open>enc_failed\<close>); the locale
    \<open>backward_writer\<close> is the contract of a loop body over an array, interpreted for texts and for
    varints.
  \<^item> \<open>WireSkip\<close>: skipping values and groups, from \<open>wire/reader.h\<close> and \<open>wire/reader.c\<close>, on the stream.

  \<^bold>\<open>Conventions.\<close> A function that can fail returns a sum whose left side is the error; besides the
  errors the code reports, the left side has constructors for a failed assertion, an access
  outside an array or to released memory, and a loop that does not end, and the safety theorems
  show that these do not occur. Out of memory is a branch of every operation that allocates: the
  allocator is a parameter, with the contract of \<open>malloc\<close> as the hypothesis \<open>malloc_ok\<close> (\<open>ArenaAlloc\<close>)
  or as a predicate on the allocations that succeed. For map fields the addresses of string views
  are a parameter too; that they differ is what \<open>ArenaSafe\<close> shows of arenas. The platform is 64 bits, little endian, without address
  sanitizer; assertions are enabled.

  \<^bold>\<open>Bounds.\<close> Loops over lists of the input are structural. Loops over linked structures have as
  fuel the number of structures that exist, which a loop without a cycle cannot exceed
  (\<open>arena_bound\<close>, \<open>block_bound\<close>, the lengths of the entry and field arrays). The capacity of an
  array and the size of the encoder's buffer are doubled at most 64 times, after which they are
  zero for good. The loops over an array of a message have the number of elements as fuel. Skipping
  a group has its fuel as an argument, and returns for every fuel that exceeds the length of the
  value by two. Every theorem that an operation returns shows that its fuel is enough.

  \<^bold>\<open>What the theorems show.\<close> Tables built from any descriptor have a sound layout and building never
  faults; encoders stay in their buffers; enum descriptors round-trip through table building;
  linking sets exactly the fields that need it and changes nothing else of the table; adding
  extensions to a registry is all or nothing; hash tables behave as finite maps through growth,
  compaction, removal and iteration; arenas never hand out overlapping memory, never touch released
  memory and return all of it; arrays behave as lists whose growth keeps the elements; map fields
  behave as finite maps, with iterations that visit each entry once, in the order of the keys when
  the sorter is used; the input stream gives the bytes of the input at every position up to its limits; what the encoder writes
  for a field is its reference encoding, which the decoder's readers read back; the varint readers
  equal a reference; skipping moves to the end of the value. Some theorems prove that the code does
  not do what it means to.

  \<^bold>\<open>Not modelled.\<close> Interleavings of threads on arenas (the atomic operations are modelled for one
  thread at a time). Of the encoder, the walk over a message with its unknown fields, extensions
  and maps: \<open>encode_message\<close> is an argument of the functions that write sub-messages, and the theorems
  are on fields of numbers and texts. Of the decoder, all but the readers of varints, tags and
  fixed-width values and of sizes: storing values in a message needs extensions and the linking of
  unlinked sub-messages. Accessors and copying of messages, reflection, JSON and text formats and
  the tokenizer are not modelled. Bindings, code generators, generated code
  and vendored libraries are left out. Reads of memory do not check that the address is in an
  allocation; that the addresses stay in range is part of the theorems on layout and positions.
\<close>

end
